(* ===== verification/Prelude.thy ===== *)
theory Prelude
  imports Main "HOL-Library.AList"
begin

text \<open>
  Shared vocabulary of the development.

  The hub keeps its state in JavaScript \<^verbatim>\<open>Map\<close> and \<^verbatim>\<open>Set\<close> objects, whose iteration order is
  the insertion order; several components depend on that order (first-in first-out eviction
  and dequeue). A \<^verbatim>\<open>Map\<close> is therefore an association list with distinct keys in which an
  update keeps the position of an existing key and appends a new one; a \<^verbatim>\<open>Set\<close> is a distinct
  list. This theory gives these operations with their laws, the invariants of the secondary
  indexes and counters the registries keep beside a primary map, and the generic notion of
  a state machine whose invariant holds in every reachable state.

  Times and durations (\<^verbatim>\<open>Date.now()\<close>, milliseconds) and counters are \<open>int\<close>: a JavaScript
  number is exact on integers up to \<open>2 ^ 53\<close>, which no clock or counter of the program reaches.
\<close>

named_theorems jm_simps \<open>lookup, size and well-formedness laws of the Map model\<close>
named_theorems idx_simps \<open>laws of the secondary indexes and counters\<close>

section \<open>Insertion-ordered maps\<close>

type_synonym ('k, 'v) jsmap = "('k \<times> 'v) list"

definition jm_get :: "('k, 'v) jsmap \<Rightarrow> 'k \<Rightarrow> 'v option" where
  "jm_get m k = map_of m k"

definition jm_has :: "('k, 'v) jsmap \<Rightarrow> 'k \<Rightarrow> bool" where
  "jm_has m k \<longleftrightarrow> jm_get m k \<noteq> None"

definition jm_set :: "'k \<Rightarrow> 'v \<Rightarrow> ('k, 'v) jsmap \<Rightarrow> ('k, 'v) jsmap" where
  "jm_set k v m = AList.update k v m"

definition jm_del :: "'k \<Rightarrow> ('k, 'v) jsmap \<Rightarrow> ('k, 'v) jsmap" where
  "jm_del k m = AList.delete k m"

definition jm_wf :: "('k, 'v) jsmap \<Rightarrow> bool" where
  "jm_wf m \<longleftrightarrow> distinct (map fst m)"

definition jm_size :: "('k, 'v) jsmap \<Rightarrow> int" where
  "jm_size m = int (length m)"

text \<open>The sum of a measure over the values of a map, for the totals the code maintains.\<close>

definition jm_sum :: "('v \<Rightarrow> int) \<Rightarrow> ('k, 'v) jsmap \<Rightarrow> int" where
  "jm_sum f m = sum_list (map (\<lambda>p. f (snd p)) m)"

lemma jm_get_nil [simp, jm_simps]: "jm_get [] k = None"
  by (simp add: jm_get_def)

lemma jm_get_Cons [simp]: "jm_get ((a, b) # m) k = (if k = a then Some b else jm_get m k)"
  by (simp add: jm_get_def)

lemma jm_get_set [simp, jm_simps]:
  "jm_get (jm_set k v m) k' = (if k' = k then Some v else jm_get m k')"
  by (simp add: jm_get_def jm_set_def update_conv)

lemma jm_get_del [simp, jm_simps]:
  "jm_get (jm_del k m) k' = (if k' = k then None else jm_get m k')"
  by (simp add: jm_get_def jm_del_def delete_conv)

lemma jm_has_iff [simp, jm_simps]: "jm_has m k \<longleftrightarrow> (\<exists>v. jm_get m k = Some v)"
  by (auto simp: jm_has_def)

lemma jm_wf_nil [simp, jm_simps]: "jm_wf []"
  by (simp add: jm_wf_def)

lemma jm_wf_set [simp, jm_simps]: "jm_wf m \<Longrightarrow> jm_wf (jm_set k v m)"
  by (simp add: jm_wf_def jm_set_def distinct_update)

lemma jm_wf_del [simp, jm_simps]: "jm_wf m \<Longrightarrow> jm_wf (jm_del k m)"
  by (simp add: jm_wf_def jm_del_def distinct_delete)

lemma jm_wf_Cons [simp]: "jm_wf ((a, b) # m) \<longleftrightarrow> jm_get m a = None \<and> jm_wf m"
  by (auto simp: jm_wf_def jm_get_def map_of_eq_None_iff)

lemma jm_get_in_set: "jm_get m k = Some v \<Longrightarrow> (k, v) \<in> set m"
  by (simp add: jm_get_def map_of_SomeD)

lemma jm_in_set_get: "jm_wf m \<Longrightarrow> (k, v) \<in> set m \<Longrightarrow> jm_get m k = Some v"
  by (simp add: jm_get_def jm_wf_def)

lemma jm_get_iff_in_set: "jm_wf m \<Longrightarrow> jm_get m k = Some v \<longleftrightarrow> (k, v) \<in> set m"
  by (blast intro: jm_get_in_set jm_in_set_get)

lemma jm_size_nonneg [simp]: "0 \<le> jm_size m"
  by (simp add: jm_size_def)

lemma jm_size_nil [simp]: "jm_size [] = 0"
  by (simp add: jm_size_def)

lemma jm_set_unfold:
  "jm_set k v [] = [(k, v)]"
  "jm_set k v ((a, b) # m) = (if a = k then (k, v) # m else (a, b) # jm_set k v m)"
  by (simp_all add: jm_set_def)

lemma jm_del_unfold:
  "jm_del k [] = []"
  "jm_del k ((a, b) # m) = (if a = k then jm_del k m else (a, b) # jm_del k m)"
  by (auto simp: jm_del_def)

lemma jm_set_set [simp]: "jm_set k v (jm_set k w m) = jm_set k v m"
  by (induction m) (auto simp: jm_set_unfold)

lemma jm_del_set [simp]: "jm_del k (jm_set k v m) = jm_del k m"
  by (induction m) (auto simp: jm_set_unfold jm_del_unfold)

lemma jm_set_id: "jm_get m k = Some v \<Longrightarrow> jm_set k v m = m"
  by (induction m) (auto simp: jm_set_unfold split: if_splits)

text \<open>A key that is absent is appended: the insertion order of the source.\<close>

lemma jm_set_fresh: "jm_get m k = None \<Longrightarrow> jm_set k v m = m @ [(k, v)]"
  by (induction m) (auto simp: jm_set_unfold split: if_splits)

lemma jm_del_fresh: "jm_get m k = None \<Longrightarrow> jm_del k m = m"
  by (induction m) (auto simp: jm_del_unfold split: if_splits)

lemma jm_sum_nil [simp]: "jm_sum f [] = 0"
  by (simp add: jm_sum_def)

lemma jm_sum_Cons [simp]: "jm_sum f ((a, b) # m) = f b + jm_sum f m"
  by (simp add: jm_sum_def)

lemma jm_sum_append [simp]: "jm_sum f (m @ n) = jm_sum f m + jm_sum f n"
  by (simp add: jm_sum_def)

lemma jm_sum_set [jm_simps]:
  "jm_sum f (jm_set k v m) =
     jm_sum f m - (case jm_get m k of None \<Rightarrow> 0 | Some w \<Rightarrow> f w) + f v"
  by (induction m) (auto simp: jm_set_unfold split: option.splits)

lemma jm_sum_del [jm_simps]:
  "jm_wf m \<Longrightarrow> jm_sum f (jm_del k m) =
     jm_sum f m - (case jm_get m k of None \<Rightarrow> 0 | Some w \<Rightarrow> f w)"
  by (induction m) (auto simp: jm_del_unfold jm_del_fresh split: option.splits)

lemma jm_size_eq_sum: "jm_size m = jm_sum (\<lambda>_. 1) m"
  by (induction m) (auto simp: jm_size_def)

lemma jm_size_set [jm_simps]:
  "jm_size (jm_set k v m) = (if jm_has m k then jm_size m else jm_size m + 1)"
  by (auto simp: jm_size_eq_sum jm_sum_set split: option.splits)

lemma jm_size_del [jm_simps]:
  "jm_wf m \<Longrightarrow> jm_size (jm_del k m) = (if jm_has m k then jm_size m - 1 else jm_size m)"
  by (auto simp: jm_size_eq_sum jm_sum_del split: option.splits)

lemma jm_size_del_le: "jm_size (jm_del k m) \<le> jm_size m"
  by (simp add: jm_size_def jm_del_def length_delete_le)

lemma jm_sum_nonneg:
  "jm_wf m \<Longrightarrow> (\<And>k v. jm_get m k = Some v \<Longrightarrow> 0 \<le> f v) \<Longrightarrow> 0 \<le> jm_sum f m"
  by (induction m) (auto split: if_splits, metis add_nonneg_nonneg option.distinct(1))

lemma jm_sum_ge_one:
  assumes "jm_wf m" and "\<And>k v. jm_get m k = Some v \<Longrightarrow> 0 \<le> f v" and "jm_get m k = Some v"
  shows "f v \<le> jm_sum f m"
proof -
  have "0 \<le> jm_sum f (jm_del k m)"
    using assms(1,2) by (intro jm_sum_nonneg) (auto split: if_splits)
  then show ?thesis
    using assms(1,3) by (simp add: jm_sum_del)
qed

lemma jm_wf_filter [simp]: "jm_wf m \<Longrightarrow> jm_wf (filter P m)"
  by (induction m) (auto simp: jm_wf_def)

lemma jm_size_filter: "jm_size (filter P m) \<le> jm_size m"
  by (simp add: jm_size_def)

lemma jm_get_filter:
  "jm_wf m \<Longrightarrow> jm_get (filter (\<lambda>(k, v). P k v) m) k =
     (case jm_get m k of None \<Rightarrow> None | Some v \<Rightarrow> if P k v then Some v else None)"
  by (induction m) (auto split: option.splits if_splits)

lemma jm_wf_map_values [simp]: "jm_wf (map (\<lambda>(k, v). (k, f k v)) m) = jm_wf m"
  by (simp add: jm_wf_def case_prod_beta comp_def)

lemma jm_get_map_values [simp]:
  "jm_get (map (\<lambda>(k, v). (k, f k v)) m) k = map_option (f k) (jm_get m k)"
  by (induction m) auto

lemma jm_size_map [simp]: "jm_size (map f m) = jm_size m"
  by (simp add: jm_size_def)

lemma jm_sum_map_values: "jm_sum g (map (\<lambda>(k, v). (k, f v)) m) = jm_sum (\<lambda>v. g (f v)) m"
  by (induction m) auto

lemma map_filter_eqI:
  "(\<And>x. x \<in> set xs \<Longrightarrow> f x = g x) \<Longrightarrow> List.map_filter f xs = List.map_filter g xs"
  by (induction xs) (auto simp: map_filter_simps split: option.splits)

section \<open>Insertion-ordered sets\<close>

definition js_add :: "'a \<Rightarrow> 'a list \<Rightarrow> 'a list" where
  "js_add x xs = (if x \<in> set xs then xs else xs @ [x])"

definition js_rem :: "'a \<Rightarrow> 'a list \<Rightarrow> 'a list" where
  "js_rem x xs = filter (\<lambda>y. y \<noteq> x) xs"

lemma set_js_add [simp, jm_simps]: "set (js_add x xs) = insert x (set xs)"
  by (auto simp: js_add_def)

lemma set_js_rem [simp, jm_simps]: "set (js_rem x xs) = set xs - {x}"
  by (auto simp: js_rem_def)

lemma distinct_js_add [simp, jm_simps]: "distinct xs \<Longrightarrow> distinct (js_add x xs)"
  by (auto simp: js_add_def)

lemma distinct_js_rem [simp, jm_simps]: "distinct xs \<Longrightarrow> distinct (js_rem x xs)"
  by (simp add: js_rem_def)

lemma js_add_not_nil [simp]: "js_add x xs \<noteq> []"
  by (auto simp: js_add_def)

lemma js_rem_notin: "x \<notin> set xs \<Longrightarrow> js_rem x xs = xs"
  by (auto simp: js_rem_def filter_id_conv)

lemma length_js_rem:
  "distinct xs \<Longrightarrow> length (js_rem x xs) = (if x \<in> set xs then length xs - 1 else length xs)"
  by (induction xs) (auto simp: js_rem_def filter_id_conv dest: length_pos_if_in_set)

section \<open>Totals over a list\<close>

text \<open>The total of a measure over the elements of a list, for heaps of handles that are updated in place.\<close>

definition tally :: "('a \<Rightarrow> int) \<Rightarrow> 'a list \<Rightarrow> int" where
  "tally f xs = sum_list (map f xs)"

lemma tally_nil [simp]: "tally f [] = 0"
  by (simp add: tally_def)

lemma tally_append [simp]: "tally f (xs @ [x]) = tally f xs + f x"
  by (simp add: tally_def)

lemma tally_update: "j < length xs \<Longrightarrow> tally f (xs[j := x]) = tally f xs - f (xs ! j) + f x"
  by (induction xs arbitrary: j) (auto simp: tally_def nth_Cons split: nat.splits)

lemma tally_zero: "(\<And>x. x \<in> set xs \<Longrightarrow> f x = 0) \<Longrightarrow> tally f xs = 0"
  by (induction xs) (auto simp: tally_def)

lemma tally_nonneg:
  assumes "\<And>x. 0 \<le> f x"
  shows "0 \<le> tally f xs"
  using assms by (induction xs) (simp_all add: tally_def)

lemma tally_mono: "(\<And>x. f x \<le> g x) \<Longrightarrow> tally f xs \<le> tally g xs"
  by (auto simp: tally_def intro: sum_list_mono)

lemma tally_ge:
  assumes f: "\<And>x. 0 \<le> f x" and "i < length xs"
  shows "f (xs ! i) \<le> tally f xs"
  using assms(2)
proof (induction xs arbitrary: i)
  case (Cons x xs)
  have t: "tally f (x # xs) = f x + tally f xs" by (simp add: tally_def)
  show ?case
  proof (cases i)
    case 0
    then show ?thesis using tally_nonneg[of f xs, OF f] t by simp
  next
    case (Suc n)
    then show ?thesis using Cons f[of x] t by (simp add: add_increasing)
  qed
qed simp

section \<open>Strings\<close>

text \<open>The white space \<^verbatim>\<open>String.prototype.trim\<close> removes, among the characters of a \<open>string\<close>.\<close>

definition js_whitespace :: "char \<Rightarrow> bool" where
  "js_whitespace c \<longleftrightarrow> (of_char c :: nat) \<in> {9, 10, 11, 12, 13, 32, 160}"

definition js_trim :: "string \<Rightarrow> string" where
  "js_trim s = rev (dropWhile js_whitespace (rev (dropWhile js_whitespace s)))"

text \<open>\<open>Number.MAX_SAFE_INTEGER\<close>.\<close>

definition MAX_SAFE_INTEGER :: int where
  "MAX_SAFE_INTEGER = 2 ^ 53 - 1"

section \<open>State machines and their invariants\<close>

text \<open>
  The states reachable from \<open>init\<close> by \<open>step\<close>. Every stateful component is given as such a
  machine, and its invariant is lifted to all reachable states by the locale below.
\<close>

inductive reachable :: "'s \<Rightarrow> ('s \<Rightarrow> 's \<Rightarrow> bool) \<Rightarrow> 's \<Rightarrow> bool" for init step where
  reach_init: "reachable init step init"
| reach_step: "reachable init step s \<Longrightarrow> step s t \<Longrightarrow> reachable init step t"

locale invariant_system =
  fixes init :: 's
    and step :: "'s \<Rightarrow> 's \<Rightarrow> bool"
    and inv :: "'s \<Rightarrow> bool"
  assumes inv_init: "inv init"
    and inv_step: "inv s \<Longrightarrow> step s t \<Longrightarrow> inv t"
begin

lemma inv_reachable:
  assumes "reachable init step s"
  shows "inv s"
  using assms
proof (induction rule: reachable.induct)
  case reach_init
  show ?case by (rule inv_init)
next
  case (reach_step s t)
  then show ?case by (blast intro: inv_step)
qed

lemma inv_steps: "step\<^sup>*\<^sup>* s t \<Longrightarrow> inv s \<Longrightarrow> inv t"
  by (induction rule: rtranclp_induct) (auto intro: inv_step)

end

end
