(* ===== verification/Expiration_Heap.thy ===== *)
theory Expiration_Heap
  imports Prelude
begin

text \<open>
  \<^verbatim>\<open>src/shared/utils/indexed_expiration_heap.ts\<close>: a binary min-heap of expiration times that
  also knows the position of every key, so that a renewal or a deletion finds its node.

  The state is the node array and the map \<^verbatim>\<open>positions\<close>. The loops \<open>up\<close> and \<open>down\<close> are
  recursive functions with a termination proof. \<open>heap_inv\<close> is the data invariant (keys
  distinct, positions exact, heap order); \<open>almost_heap\<close> is the order with one node out of
  place, which is what the loops repair. The locale \<open>expiry_queue\<close> is the contract the
  TTL store relies on: an exact map from keys to times, of which \<open>peek\<close> shows a minimum.
\<close>

section \<open>Model\<close>

record 'k expiration_heap =
  nodes :: "('k \<times> int) list"
  positions :: "('k, nat) jsmap"

definition empty_heap :: "'k expiration_heap" where
  "empty_heap = \<lparr>nodes = [], positions = []\<rparr>"

definition heap_size :: "'k expiration_heap \<Rightarrow> int" where
  "heap_size h = int (length (nodes h))"

definition peek :: "'k expiration_heap \<Rightarrow> ('k \<times> int) option" where
  "peek h = (case nodes h of [] \<Rightarrow> None | n # _ \<Rightarrow> Some n)"

definition heap_swap :: "nat \<Rightarrow> nat \<Rightarrow> 'k expiration_heap \<Rightarrow> 'k expiration_heap" where
  "heap_swap a b h =
     (let left = nodes h ! a; right = nodes h ! b
      in h\<lparr>nodes := (nodes h)[a := right, b := left],
           positions := jm_set (fst left) b (jm_set (fst right) a (positions h))\<rparr>)"

abbreviation expires :: "'k expiration_heap \<Rightarrow> nat \<Rightarrow> int" where
  "expires h i \<equiv> snd (nodes h ! i)"

definition parent :: "nat \<Rightarrow> nat" where
  "parent i = (i - 1) div 2"

lemma parent_less [simp]: "0 < i \<Longrightarrow> parent i < i"
  by (auto simp: parent_def)

lemma parent_eq_iff: "0 < i \<Longrightarrow> parent i = p \<longleftrightarrow> i = Suc (p * 2) \<or> i = Suc (Suc (p * 2))"
  by (auto simp: parent_def)

lemma length_heap_swap [simp]: "length (nodes (heap_swap a b h)) = length (nodes h)"
  by (simp add: heap_swap_def Let_def)

function up :: "nat \<Rightarrow> 'k expiration_heap \<Rightarrow> nat \<times> 'k expiration_heap" where
  "up position h =
     (if position > 0 then
        if expires h (parent position) \<le> expires h position then (position, h)
        else up (parent position) (heap_swap (parent position) position h)
      else (position, h))"
  by pat_completeness auto
termination
  by (relation "measure fst") auto

definition smallest_child :: "nat \<Rightarrow> 'k expiration_heap \<Rightarrow> nat" where
  "smallest_child position h =
     (let left = position * 2 + 1; right = left + 1;
          s1 = (if left < length (nodes h) \<and> expires h left < expires h position then left else position)
      in if right < length (nodes h) \<and> expires h right < expires h s1 then right else s1)"

lemma smallest_child_cases:
  "smallest_child p h = p \<or>
   (smallest_child p h < length (nodes h) \<and> p < smallest_child p h \<and>
    parent (smallest_child p h) = p)"
  by (auto simp: smallest_child_def Let_def parent_def)

lemma smallest_child_least:
  assumes "parent i = p" "0 < i" "i < length (nodes h)"
  shows "expires h (smallest_child p h) \<le> expires h i"
  using assms by (auto simp: smallest_child_def Let_def parent_eq_iff)

lemma smallest_child_less:
  "smallest_child p h \<noteq> p \<Longrightarrow> expires h (smallest_child p h) < expires h p"
  by (auto simp: smallest_child_def Let_def split: if_splits)

function down :: "nat \<Rightarrow> 'k expiration_heap \<Rightarrow> 'k expiration_heap" where
  "down position h =
     (let smallest = smallest_child position h
      in if smallest = position then h
         else down smallest (heap_swap position smallest h))"
  by pat_completeness auto
termination
proof (relation "measure (\<lambda>(p, h). length (nodes h) - p)", goal_cases)
  case (2 p h x)
  then show ?case using smallest_child_cases[of p h] by auto
qed simp

declare up.simps [simp del] down.simps [simp del]

definition heap_set :: "'k \<Rightarrow> int \<Rightarrow> 'k expiration_heap \<Rightarrow> 'k expiration_heap" where
  "heap_set key expiresAtMs h =
     (case jm_get (positions h) key of
        None \<Rightarrow>
          snd (up (length (nodes h))
                 (h\<lparr>nodes := nodes h @ [(key, expiresAtMs)],
                    positions := jm_set key (length (nodes h)) (positions h)\<rparr>))
      | Some position \<Rightarrow>
          (let (q, h1) = up position (h\<lparr>nodes := (nodes h)[position := (key, expiresAtMs)]\<rparr>)
           in down q h1))"

definition heap_delete :: "'k \<Rightarrow> 'k expiration_heap \<Rightarrow> 'k expiration_heap" where
  "heap_delete key h =
     (case jm_get (positions h) key of
        None \<Rightarrow> h
      | Some position \<Rightarrow>
          (let last_node = last (nodes h); ns = butlast (nodes h); ps = jm_del key (positions h)
           in if position < length ns then
                (let (q, h1) = up position (h\<lparr>nodes := ns[position := last_node],
                                             positions := jm_set (fst last_node) position ps\<rparr>)
                 in down q h1)
              else h\<lparr>nodes := ns, positions := ps\<rparr>))"

definition takeExpired :: "int \<Rightarrow> 'k expiration_heap \<Rightarrow> 'k option \<times> 'k expiration_heap" where
  "takeExpired nowMs h =
     (case peek h of
        None \<Rightarrow> (None, h)
      | Some first \<Rightarrow>
          if snd first > nowMs then (None, h) else (Some (fst first), heap_delete (fst first) h))"

definition heap_clear :: "'k expiration_heap \<Rightarrow> 'k expiration_heap" where
  "heap_clear h = h\<lparr>nodes := [], positions := []\<rparr>"

section \<open>The data invariant\<close>

definition positions_ok :: "'k expiration_heap \<Rightarrow> bool" where
  "positions_ok h \<longleftrightarrow> distinct (map fst (nodes h)) \<and> jm_wf (positions h) \<and>
     (\<forall>k i. jm_get (positions h) k = Some i \<longleftrightarrow> i < length (nodes h) \<and> fst (nodes h ! i) = k)"

definition heap_ordered :: "'k expiration_heap \<Rightarrow> bool" where
  "heap_ordered h \<longleftrightarrow>
     (\<forall>i. 0 < i \<and> i < length (nodes h) \<longrightarrow> expires h (parent i) \<le> expires h i)"

definition heap_inv :: "'k expiration_heap \<Rightarrow> bool" where
  "heap_inv h \<longleftrightarrow> positions_ok h \<and> heap_ordered h"

text \<open>
  Heap order with the node at \<open>p\<close> out of place: every edge that does not touch \<open>p\<close> is ordered,
  and the parent of \<open>p\<close> is below the children of \<open>p\<close>.
\<close>

definition almost_heap :: "nat \<Rightarrow> 'k expiration_heap \<Rightarrow> bool" where
  "almost_heap p h \<longleftrightarrow>
     (\<forall>i. 0 < i \<and> i < length (nodes h) \<and> i \<noteq> p \<and> parent i \<noteq> p
          \<longrightarrow> expires h (parent i) \<le> expires h i) \<and>
     (\<forall>c. 0 < c \<and> c < length (nodes h) \<and> parent c = p \<and> 0 < p
          \<longrightarrow> expires h (parent p) \<le> expires h c)"

definition above_ok :: "nat \<Rightarrow> 'k expiration_heap \<Rightarrow> bool" where
  "above_ok p h \<longleftrightarrow> (0 < p \<longrightarrow> expires h (parent p) \<le> expires h p)"

section \<open>Swapping keeps the contents and the positions\<close>

lemma nodes_heap_swap:
  assumes "a < length (nodes h)" "b < length (nodes h)" "i < length (nodes h)"
  shows "nodes (heap_swap a b h) ! i =
    (if i = b then nodes h ! a else if i = a then nodes h ! b else nodes h ! i)"
  using assms by (simp add: heap_swap_def Let_def nth_list_update)

lemma set_heap_swap:
  assumes "a < length (nodes h)" "b < length (nodes h)"
  shows "set (nodes (heap_swap a b h)) = set (nodes h)"
  using assms by (simp add: heap_swap_def Let_def)

lemma distinct_heap_swap:
  assumes "a < length (nodes h)" "b < length (nodes h)"
  shows "distinct (map fst (nodes (heap_swap a b h))) = distinct (map fst (nodes h))"
  using assms distinct_swap[of a "map fst (nodes h)" b]
  by (simp add: heap_swap_def Let_def map_update)

lemma positions_ok_swap:
  assumes "positions_ok h" "a < length (nodes h)" "b < length (nodes h)"
  shows "positions_ok (heap_swap a b h)"
proof -
  have d: "distinct (map fst (nodes h))" and w: "jm_wf (positions h)"
    and g: "\<And>k i. jm_get (positions h) k = Some i \<longleftrightarrow> i < length (nodes h) \<and> fst (nodes h ! i) = k"
    using assms(1) by (auto simp: positions_ok_def)
  have inj: "fst (nodes h ! i) = fst (nodes h ! j) \<longleftrightarrow> i = j"
    if "i < length (nodes h)" "j < length (nodes h)" for i j
    using d that nth_eq_iff_index_eq[of "map fst (nodes h)" i j] by simp
  have "jm_get (positions (heap_swap a b h)) k = Some i \<longleftrightarrow>
      i < length (nodes h) \<and> fst (nodes (heap_swap a b h) ! i) = k" for k i
  proof (cases "i < length (nodes h)")
    case True
    then show ?thesis
      using assms(2,3) inj g[of k i]
      by (auto simp: nodes_heap_swap heap_swap_def Let_def nth_list_update)
  next
    case False
    then show ?thesis
      using assms(2,3) g[of k i] by (auto simp: heap_swap_def Let_def)
  qed
  moreover have "distinct (map fst (nodes (heap_swap a b h)))"
    using d assms by (simp add: distinct_heap_swap)
  moreover have "jm_wf (positions (heap_swap a b h))"
    using w by (simp add: heap_swap_def Let_def)
  ultimately show ?thesis by (simp add: positions_ok_def)
qed

section \<open>The sift loops repair the order\<close>

lemma almost_heap_up:
  assumes "almost_heap p h" "p < length (nodes h)" "0 < p"
    and lt: "expires h p < expires h (parent p)"
  shows "almost_heap (parent p) (heap_swap (parent p) p h)"
proof -
  let ?q = "parent p"
  have q: "?q < length (nodes h)" "?q \<noteq> p"
    using parent_less[OF assms(3)] assms(2) by linarith+
  have e: "i \<noteq> p \<Longrightarrow> parent i \<noteq> p \<Longrightarrow> 0 < i \<Longrightarrow> i < length (nodes h) \<Longrightarrow>
      expires h (parent i) \<le> expires h i" for i
    using assms(1) by (simp add: almost_heap_def)
  have c: "parent i = p \<Longrightarrow> 0 < i \<Longrightarrow> i < length (nodes h) \<Longrightarrow> expires h ?q \<le> expires h i" for i
    using assms(1,3) by (auto simp: almost_heap_def)
  have sw: "i < length (nodes h) \<Longrightarrow> expires (heap_swap ?q p h) i =
      (if i = p then expires h ?q else if i = ?q then expires h p else expires h i)" for i
    using q assms(2) by (simp add: nodes_heap_swap)
  have "expires (heap_swap ?q p h) (parent i) \<le> expires (heap_swap ?q p h) i"
    if i: "0 < i" "i < length (nodes h)" "i \<noteq> ?q" "parent i \<noteq> ?q" for i
  proof -
    have "parent i < length (nodes h)" using i parent_less[of i] by linarith
    moreover have "i \<noteq> p" using i(4) by blast
    ultimately show ?thesis using i e c sw by (cases "parent i = p") auto
  qed
  moreover have "expires (heap_swap ?q p h) (parent ?q) \<le> expires (heap_swap ?q p h) i"
    if i: "0 < i" "i < length (nodes h)" "parent i = ?q" "0 < ?q" for i
  proof -
    have r: "parent ?q < length (nodes h)" "parent ?q \<noteq> ?q" "parent ?q \<noteq> p"
      using parent_less[OF i(4)] parent_less[OF assms(3)] assms(2) by linarith+
    have g: "expires h (parent ?q) \<le> expires h ?q" using e[of ?q] i(4) q r by auto
    have "expires h ?q \<le> expires h i" if "i \<noteq> p" using e[of i] that i q by auto
    then show ?thesis using g sw r i by auto
  qed
  ultimately show ?thesis by (simp add: almost_heap_def)
qed

text \<open>What \<open>up\<close> gives: the same nodes, positions still exact, and at most the edges below the
  returned position left to repair.\<close>

lemma up_correct:
  assumes "positions_ok h" "almost_heap p h" "p < length (nodes h)"
  shows "case up p h of (q, h') \<Rightarrow>
    positions_ok h' \<and> almost_heap q h' \<and> above_ok q h' \<and> q < length (nodes h') \<and>
    length (nodes h') = length (nodes h) \<and> set (nodes h') = set (nodes h)"
  using assms
proof (induction p h rule: up.induct)
  case (1 p h)
  show ?case
  proof (cases "0 < p \<and> expires h p < expires h (parent p)")
    case True
    let ?h = "heap_swap (parent p) p h"
    have q: "parent p < length (nodes h)" using parent_less[of p] True "1.prems"(3) by linarith
    have ih: "case up (parent p) ?h of (q, h') \<Rightarrow>
      positions_ok h' \<and> almost_heap q h' \<and> above_ok q h' \<and> q < length (nodes h') \<and>
      length (nodes h') = length (nodes ?h) \<and> set (nodes h') = set (nodes ?h)"
      using True q "1.prems"
      by (intro "1.IH") (auto simp: positions_ok_swap almost_heap_up)
    then show ?thesis
      using True q "1.prems" by (simp add: up.simps[of p h] set_heap_swap)
  next
    case False
    then show ?thesis
      using "1.prems" by (auto simp: up.simps[of p h] above_ok_def)
  qed
qed


lemma almost_heap_down:
  assumes "almost_heap p h" "above_ok p h" "p < length (nodes h)"
    and s: "smallest_child p h = s" "s \<noteq> p"
  shows "almost_heap s (heap_swap p s h)" and "above_ok s (heap_swap p s h)"
proof -
  have sp: "s < length (nodes h)" "p < s" "parent s = p" "0 < s"
    using smallest_child_cases[of p h] s by auto
  have lt: "expires h s < expires h p"
    and least: "parent i = p \<Longrightarrow> 0 < i \<Longrightarrow> i < length (nodes h) \<Longrightarrow> expires h s \<le> expires h i" for i
    using s smallest_child_less smallest_child_least by blast+
  have e: "i \<noteq> p \<Longrightarrow> parent i \<noteq> p \<Longrightarrow> 0 < i \<Longrightarrow> i < length (nodes h) \<Longrightarrow>
      expires h (parent i) \<le> expires h i" for i
    using assms(1) by (simp add: almost_heap_def)
  have g: "0 < p \<Longrightarrow> expires h (parent p) \<le> expires h s"
    using assms(1) sp by (auto simp: almost_heap_def)
  have sw: "i < length (nodes h) \<Longrightarrow> expires (heap_swap p s h) i =
      (if i = s then expires h p else if i = p then expires h s else expires h i)" for i
    using sp assms(3) by (simp add: nodes_heap_swap)
  show "above_ok s (heap_swap p s h)"
    using lt sw sp assms(3) by (auto simp: above_ok_def)
  have "expires (heap_swap p s h) (parent i) \<le> expires (heap_swap p s h) i"
    if i: "0 < i" "i < length (nodes h)" "i \<noteq> s" "parent i \<noteq> s" for i
  proof -
    have r: "parent i < length (nodes h)" "parent i \<noteq> i" using i parent_less[of i] by linarith+
    consider "i = p" | "i \<noteq> p" "parent i = p" | "i \<noteq> p" "parent i \<noteq> p" by blast
    then show ?thesis
      by cases (use i r g least e sw in auto)
  qed
  moreover have "expires (heap_swap p s h) (parent s) \<le> expires (heap_swap p s h) i"
    if i: "0 < i" "i < length (nodes h)" "parent i = s" for i
  proof -
    have "i \<noteq> s" "i \<noteq> p" using i sp parent_less[of i] by auto
    then show ?thesis using e[of i] i sp sw assms(3) by auto
  qed
  ultimately show "almost_heap s (heap_swap p s h)" by (simp add: almost_heap_def)
qed

lemma heap_ordered_if_no_smaller_child:
  assumes "almost_heap p h" "above_ok p h" "smallest_child p h = p"
  shows "heap_ordered h"
  unfolding heap_ordered_def
proof (intro allI impI, elim conjE)
  fix i assume i: "0 < i" "i < length (nodes h)"
  consider "i = p" | "i \<noteq> p" "parent i = p" | "i \<noteq> p" "parent i \<noteq> p" by blast
  then show "expires h (parent i) \<le> expires h i"
  proof cases
    case 2
    then show ?thesis
      using assms(3) i smallest_child_least[of i p h] by simp
  qed (use assms(1,2) i in \<open>auto simp: almost_heap_def above_ok_def\<close>)
qed

lemma down_correct:
  assumes "positions_ok h" "almost_heap p h" "above_ok p h" "p < length (nodes h)"
  shows "heap_inv (down p h) \<and> set (nodes (down p h)) = set (nodes h)"
  using assms
proof (induction p h rule: down.induct)
  case (1 p h)
  let ?s = "smallest_child p h"
  show ?case
  proof (cases "?s = p")
    case True
    then show ?thesis
      using "1.prems" by (simp add: down.simps[of p h] heap_inv_def heap_ordered_if_no_smaller_child)
  next
    case False
    let ?h = "heap_swap p ?s h"
    have s: "?s < length (nodes h)" using smallest_child_cases[of p h] False by auto
    have "heap_inv (down ?s ?h) \<and> set (nodes (down ?s ?h)) = set (nodes ?h)"
      using False s "1.prems" almost_heap_down[of p h ?s]
      by (intro "1.IH") (auto simp: positions_ok_swap)
    then show ?thesis
      using False s "1.prems" by (simp add: down.simps[of p h] Let_def set_heap_swap)
  qed
qed

lemma sift_correct:
  assumes "positions_ok h" "almost_heap p h" "p < length (nodes h)"
  shows "case up p h of (q, h1) \<Rightarrow> heap_inv (down q h1) \<and> set (nodes (down q h1)) = set (nodes h)"
  using up_correct[OF assms] down_correct[of "snd (up p h)" "fst (up p h)"]
  by (auto split: prod.splits)

definition below_ok :: "nat \<Rightarrow> 'k expiration_heap \<Rightarrow> bool" where
  "below_ok p h \<longleftrightarrow>
     (\<forall>c. 0 < c \<and> c < length (nodes h) \<and> parent c = p \<longrightarrow> expires h p \<le> expires h c)"

text \<open>An appended node has no children; \<open>up\<close> alone then restores the order.\<close>

lemma up_below_ok:
  assumes "almost_heap p h" "p < length (nodes h)" "below_ok p h"
  shows "case up p h of (q, h') \<Rightarrow> below_ok q h'"
  using assms
proof (induction p h rule: up.induct)
  case (1 p h)
  show ?case
  proof (cases "0 < p \<and> expires h p < expires h (parent p)")
    case True
    let ?q = "parent p" let ?h = "heap_swap (parent p) p h"
    have q: "?q < length (nodes h)" "?q \<noteq> p"
      using parent_less[of p] True "1.prems"(2) by linarith+
    have "below_ok ?q ?h"
      unfolding below_ok_def
    proof (intro allI impI, elim conjE)
      fix c assume c: "0 < c" "c < length (nodes ?h)" "parent c = ?q"
      then have "c \<noteq> ?q" using parent_less[of c] by auto
      moreover have "expires h ?q \<le> expires h c" if "c \<noteq> p"
        using "1.prems"(1) c that q by (auto simp: almost_heap_def)
      ultimately show "expires ?h ?q \<le> expires ?h c"
        using c q True "1.prems"(2) by (auto simp: nodes_heap_swap)
    qed
    then have "case up ?q ?h of (q, h') \<Rightarrow> below_ok q h'"
      using True q "1.prems" by (intro "1.IH") (auto simp: almost_heap_up)
    then show ?thesis using True by (simp add: up.simps[of p h])
  next
    case False
    then show ?thesis using "1.prems" by (auto simp: up.simps[of p h])
  qed
qed

lemma heap_ordered_if_ok:
  assumes "almost_heap p h" "above_ok p h" "below_ok p h"
  shows "heap_ordered h"
  using assms unfolding heap_ordered_def almost_heap_def above_ok_def below_ok_def
  by metis

lemma up_append_correct:
  assumes "positions_ok h" "almost_heap p h" "p < length (nodes h)" "below_ok p h"
  shows "heap_inv (snd (up p h)) \<and> set (nodes (snd (up p h))) = set (nodes h)"
  using up_correct[OF assms(1-3)] up_below_ok[OF assms(2-4)]
  by (auto simp: heap_inv_def intro: heap_ordered_if_ok split: prod.splits)

section \<open>The heap as an exact map of expirations\<close>

definition heap_lookup :: "'k expiration_heap \<Rightarrow> 'k \<Rightarrow> int option" where
  "heap_lookup h = map_of (nodes h)"

lemma heap_lookup_iff:
  "positions_ok h \<Longrightarrow> heap_lookup h k = Some e \<longleftrightarrow> (k, e) \<in> set (nodes h)"
  by (simp add: heap_lookup_def positions_ok_def)

lemma heap_lookup_eqI:
  assumes "positions_ok h" and "\<And>k e. (k, e) \<in> set (nodes h) \<longleftrightarrow> f k = Some e"
  shows "heap_lookup h = f"
proof
  fix k
  have "heap_lookup h k = Some e \<longleftrightarrow> f k = Some e" for e
    using assms by (simp add: heap_lookup_iff)
  then show "heap_lookup h k = f k"
    by (metis not_None_eq)
qed

lemma heap_inv_empty: "heap_inv empty_heap"
  by (simp add: heap_inv_def empty_heap_def positions_ok_def heap_ordered_def)

lemma heap_inv_clear: "heap_inv (heap_clear h)"
  by (simp add: heap_inv_def heap_clear_def positions_ok_def heap_ordered_def)

lemma positions_None_iff:
  assumes "positions_ok h"
  shows "jm_get (positions h) k = None \<longleftrightarrow> k \<notin> fst ` set (nodes h)"
proof -
  have "jm_get (positions h) k \<noteq> None \<longleftrightarrow> (\<exists>i < length (nodes h). fst (nodes h ! i) = k)"
    using assms by (simp add: positions_ok_def)
  also have "\<dots> \<longleftrightarrow> k \<in> set (map fst (nodes h))"
    by (metis (no_types, lifting) in_set_conv_nth length_map nth_map)
  finally show ?thesis by auto
qed

lemma positions_ok_append:
  assumes "positions_ok h" "jm_get (positions h) k = None"
  shows "positions_ok (h\<lparr>nodes := nodes h @ [(k, e)],
                         positions := jm_set k (length (nodes h)) (positions h)\<rparr>)"
proof -
  have "i < length (nodes h) \<Longrightarrow> fst (nodes h ! i) \<noteq> k" for i
    using assms by (metis positions_ok_def option.distinct(1))
  then show ?thesis
    using assms positions_None_iff[OF assms(1), of k]
    by (auto simp: positions_ok_def nth_append less_Suc_eq)
qed

lemma positions_ok_replace:
  assumes "positions_ok h" "jm_get (positions h) k = Some i"
  shows "positions_ok (h\<lparr>nodes := (nodes h)[i := (k, e)]\<rparr>)"
proof -
  have i: "i < length (nodes h)" "fst (nodes h ! i) = k"
    using assms by (auto simp: positions_ok_def)
  then have "map fst ((nodes h)[i := (k, e)]) = map fst (nodes h)"
    by (metis fst_conv list_update_id length_map map_update nth_map)
  then show ?thesis
    using assms(1) i by (auto simp: positions_ok_def nth_list_update)
qed

lemma almost_heap_replace:
  assumes "heap_ordered h"
  shows "almost_heap p (h\<lparr>nodes := (nodes h)[p := x]\<rparr>)"
proof -
  let ?h = "h\<lparr>nodes := (nodes h)[p := x]\<rparr>"
  have same: "i \<noteq> p \<Longrightarrow> expires ?h i = expires h i" for i by simp
  have "expires ?h (parent p) \<le> expires ?h c"
    if c: "0 < c" "c < length (nodes h)" "parent c = p" "0 < p" for c
  proof -
    have "p < length (nodes h)" "c \<noteq> p" "parent p \<noteq> p"
      using c parent_less[of c] parent_less[of p] by linarith+
    moreover have "expires h (parent p) \<le> expires h p" and "expires h p \<le> expires h c"
      using assms c \<open>p < length (nodes h)\<close> by (auto simp: heap_ordered_def)
    ultimately show ?thesis using same[of c] same[of "parent p"] by linarith
  qed
  moreover have "expires ?h (parent i) \<le> expires ?h i"
    if "0 < i" "i < length (nodes h)" "i \<noteq> p" "parent i \<noteq> p" for i
    using assms that same by (simp add: heap_ordered_def)
  ultimately show ?thesis by (simp add: almost_heap_def)
qed

lemma almost_heap_append:
  assumes "heap_ordered h"
  shows "almost_heap (length (nodes h)) (h\<lparr>nodes := nodes h @ [x], positions := ps\<rparr>)"
    and "below_ok (length (nodes h)) (h\<lparr>nodes := nodes h @ [x], positions := ps\<rparr>)"
proof -
  have less: "parent c < length (nodes h)" if "0 < c" "c < Suc (length (nodes h))" for c
    using parent_less[of c] that by linarith
  then have "parent c \<noteq> length (nodes h)" if "0 < c" "c < Suc (length (nodes h))" for c
    using that by (metis less_irrefl)
  then show "below_ok (length (nodes h)) (h\<lparr>nodes := nodes h @ [x], positions := ps\<rparr>)"
    and "almost_heap (length (nodes h)) (h\<lparr>nodes := nodes h @ [x], positions := ps\<rparr>)"
    using assms less by (auto simp: below_ok_def almost_heap_def heap_ordered_def nth_append)
qed

lemma heap_set_correct:
  assumes "heap_inv h"
  shows "heap_inv (heap_set k e h) \<and> heap_lookup (heap_set k e h) = (heap_lookup h)(k \<mapsto> e)"
proof (cases "jm_get (positions h) k")
  case None
  let ?h = "h\<lparr>nodes := nodes h @ [(k, e)], positions := jm_set k (length (nodes h)) (positions h)\<rparr>"
  have p: "positions_ok h" and o: "heap_ordered h" using assms by (auto simp: heap_inv_def)
  have c: "heap_inv (snd (up (length (nodes h)) ?h)) \<and>
      set (nodes (snd (up (length (nodes h)) ?h))) = set (nodes ?h)"
    using positions_ok_append[OF p None, of e] almost_heap_append[OF o]
    by (intro up_append_correct) simp_all
  have s: "heap_set k e h = snd (up (length (nodes h)) ?h)"
    using None by (simp add: heap_set_def)
  have "heap_lookup (heap_set k e h) = (heap_lookup h)(k \<mapsto> e)"
    using c s p None positions_None_iff[OF p, of k]
    by (intro heap_lookup_eqI) (auto simp: heap_inv_def heap_lookup_iff image_iff)
  then show ?thesis using c s by simp
next
  case (Some i)
  let ?h = "h\<lparr>nodes := (nodes h)[i := (k, e)]\<rparr>"
  have p: "positions_ok h" and o: "heap_ordered h" using assms by (auto simp: heap_inv_def)
  have i: "i < length (nodes h)" "fst (nodes h ! i) = k" and d: "distinct (nodes h)"
    using p Some by (auto simp: positions_ok_def distinct_map)
  have c: "case up i ?h of (q, h1) \<Rightarrow> heap_inv (down q h1) \<and> set (nodes (down q h1)) = set (nodes ?h)"
    using p o i Some by (intro sift_correct) (auto simp: positions_ok_replace almost_heap_replace)
  have s: "heap_set k e h = (case up i ?h of (q, h1) \<Rightarrow> down q h1)"
    using Some by (simp add: heap_set_def)
  have "set (nodes ?h) = insert (k, e) (set (nodes h) - {nodes h ! i})"
    using i d by (simp add: set_update_distinct)
  moreover have "(k, e') \<in> set (nodes h) \<Longrightarrow> (k, e') = nodes h ! i" for e'
    using i p by (metis heap_lookup_iff nth_mem option.inject prod.collapse)
  moreover have "(k', e') = nodes h ! i \<Longrightarrow> k' = k" for k' e'
    using i by (metis fst_conv)
  ultimately have "heap_lookup (heap_set k e h) = (heap_lookup h)(k \<mapsto> e)"
    using c s p by (intro heap_lookup_eqI) (auto simp: heap_inv_def heap_lookup_iff split: prod.splits)
  then show ?thesis using c s by (auto split: prod.splits)
qed

text \<open>Deleting the last node is a pop; deleting another moves the last node into the hole.\<close>

lemma positions_ok_pop:
  assumes "positions_ok h" "jm_get (positions h) k = Some i" "i = length (nodes h) - 1"
  shows "positions_ok (h\<lparr>nodes := butlast (nodes h), positions := jm_del k (positions h)\<rparr>)"
proof -
  have g: "\<And>k i. jm_get (positions h) k = Some i \<longleftrightarrow> i < length (nodes h) \<and> fst (nodes h ! i) = k"
    and d: "distinct (map fst (nodes h))" and w: "jm_wf (positions h)"
    using assms(1) by (auto simp: positions_ok_def)
  have i: "i < length (nodes h)" "fst (nodes h ! i) = k" using g assms(2) by auto
  have "jm_get (jm_del k (positions h)) k' = Some j \<longleftrightarrow>
      j < length (nodes h) - 1 \<and> fst (butlast (nodes h) ! j) = k'" for k' j
    using g[of k' j] g[of k j] assms(2,3) i by (auto simp: nth_butlast)
  then show ?thesis
    using d w by (simp add: positions_ok_def map_butlast distinct_butlast del: jm_get_del)
qed

lemma positions_ok_move_last:
  assumes "positions_ok h" "jm_get (positions h) k = Some i" "i < length (nodes h) - 1"
  shows "positions_ok (h\<lparr>nodes := (butlast (nodes h))[i := last (nodes h)],
            positions := jm_set (fst (last (nodes h))) i (jm_del k (positions h))\<rparr>)"
proof -
  let ?n = "length (nodes h) - 1" and ?l = "last (nodes h)"
  have g: "\<And>k i. jm_get (positions h) k = Some i \<longleftrightarrow> i < length (nodes h) \<and> fst (nodes h ! i) = k"
    and d: "distinct (map fst (nodes h))" and w: "jm_wf (positions h)"
    using assms(1) by (auto simp: positions_ok_def)
  have ne: "nodes h \<noteq> []" using assms(3) by auto
  have l: "?l = nodes h ! ?n" using ne by (simp add: last_conv_nth)
  have i: "fst (nodes h ! i) = k" using g assms(2) by auto
  have inj: "a < length (nodes h) \<Longrightarrow> b < length (nodes h) \<Longrightarrow>
      fst (nodes h ! a) = fst (nodes h ! b) \<longleftrightarrow> a = b" for a b
    using d nth_eq_iff_index_eq[of "map fst (nodes h)" a b] by simp
  have sp: "nodes h = butlast (nodes h) @ [?l]" using ne by simp
  have "distinct (map fst (butlast (nodes h) @ [?l]))" using d sp by simp
  then have "distinct (map fst ((butlast (nodes h))[i := ?l]))"
    using assms(3) by (auto simp: map_update distinct_list_update)
  moreover have "jm_get (jm_set (fst ?l) i (jm_del k (positions h))) k' = Some j \<longleftrightarrow>
      j < ?n \<and> fst ((butlast (nodes h))[i := ?l] ! j) = k'" for k' j
  proof (cases "j < ?n")
    case True
    then show ?thesis
      using assms(3) g[of k' j] g[of k j] i inj[of j ?n] inj[of j i] l ne
      by (auto simp: nth_list_update nth_butlast)
  next
    case False
    then show ?thesis
      using assms(3) g[of k' j] l ne by (auto simp: not_less) (metis Suc_pred le_antisym length_greater_0_conv less_Suc_eq_le)
  qed
  ultimately show ?thesis using w ne assms(3) by (simp add: positions_ok_def)
qed

lemma heap_ordered_butlast:
  assumes "heap_ordered h"
  shows "heap_ordered (h\<lparr>nodes := butlast (nodes h), positions := ps\<rparr>)"
proof -
  have "parent i < length (nodes h) - Suc 0" if "0 < i" "i < length (nodes h) - Suc 0" for i
    using parent_less[of i] that by linarith
  then show ?thesis using assms by (auto simp: heap_ordered_def nth_butlast)
qed

lemma almost_heap_move_last:
  assumes "heap_ordered h" "i < length (nodes h) - 1"
  shows "almost_heap i (h\<lparr>nodes := (butlast (nodes h))[i := x], positions := ps\<rparr>)"
  using almost_heap_replace[OF heap_ordered_butlast[OF assms(1), of ps], of i x]
  by (simp add: almost_heap_def)

lemma heap_delete_correct:
  assumes "heap_inv h"
  shows "heap_inv (heap_delete k h) \<and> heap_lookup (heap_delete k h) = (heap_lookup h)(k := None)"
proof (cases "jm_get (positions h) k")
  case None
  have p: "positions_ok h" using assms by (simp add: heap_inv_def)
  have "heap_lookup h k = None"
    using None positions_None_iff[OF p, of k] by (simp add: heap_lookup_def map_of_eq_None_iff)
  then show ?thesis using None assms by (auto simp: heap_delete_def)
next
  case (Some i)
  have p: "positions_ok h" and o: "heap_ordered h" using assms by (auto simp: heap_inv_def)
  have i: "i < length (nodes h)" "fst (nodes h ! i) = k" and d: "distinct (nodes h)"
    using p Some by (auto simp: positions_ok_def distinct_map)
  have ne: "nodes h \<noteq> []" using i by auto
  have key: "(k, e) \<in> set (nodes h) \<Longrightarrow> (k, e) = nodes h ! i" for e
    using i p by (metis heap_lookup_iff nth_mem option.inject prod.collapse)
  have key': "(k', e) = nodes h ! i \<Longrightarrow> k' = k" for k' e
    using i by (metis fst_conv)
  have "heap_inv (heap_delete k h) \<and> set (nodes (heap_delete k h)) = set (nodes h) - {nodes h ! i}"
  proof (cases "i < length (nodes h) - 1")
    case True
    let ?h = "h\<lparr>nodes := (butlast (nodes h))[i := last (nodes h)],
                positions := jm_set (fst (last (nodes h))) i (jm_del k (positions h))\<rparr>"
    have c: "case up i ?h of (q, h1) \<Rightarrow> heap_inv (down q h1) \<and> set (nodes (down q h1)) = set (nodes ?h)"
      using True p o Some
      by (intro sift_correct) (simp_all add: positions_ok_move_last almost_heap_move_last)
    have dl: "distinct (butlast (nodes h) @ [last (nodes h)])" using d ne by simp
    have "set (nodes ?h) = insert (last (nodes h)) (set (butlast (nodes h)) - {butlast (nodes h) ! i})"
      using dl True by (simp add: set_update_distinct)
    also have "\<dots> = set (butlast (nodes h) @ [last (nodes h)]) - {nodes h ! i}"
      using dl True nth_mem[of i "butlast (nodes h)"] by (auto simp: nth_butlast)
    finally have "set (nodes ?h) = set (nodes h) - {nodes h ! i}" using ne by simp
    then show ?thesis using c True Some by (auto simp: heap_delete_def Let_def split: prod.splits)
  next
    case False
    then have il: "i = length (nodes h) - 1" using i by linarith
    have "distinct (butlast (nodes h) @ [last (nodes h)])" using d ne by simp
    moreover have "set (nodes h) = set (butlast (nodes h) @ [last (nodes h)])" using ne by simp
    ultimately have "set (butlast (nodes h)) = set (nodes h) - {nodes h ! i}"
      using il ne by (auto simp: last_conv_nth)
    then show ?thesis
      using il Some p o by (simp add: heap_delete_def Let_def heap_inv_def positions_ok_pop heap_ordered_butlast)
  qed
  moreover have "(k', e) \<in> set (nodes h) - {nodes h ! i} \<longleftrightarrow> ((heap_lookup h)(k := None)) k' = Some e"
    for k' e
  proof (cases "k' = k")
    case True
    then show ?thesis using key[of e] by auto
  next
    case False
    then have "(k', e) \<noteq> nodes h ! i" using key' by blast
    then show ?thesis using False by (simp add: heap_lookup_iff[OF p])
  qed
  ultimately show ?thesis
    by (metis heap_inv_def heap_lookup_eqI)
qed

text \<open>The root is a least expiration.\<close>

lemma heap_root_least:
  assumes "heap_ordered h" "i < length (nodes h)"
  shows "expires h 0 \<le> expires h i"
  using assms(2)
proof (induction i rule: less_induct)
  case (less i)
  show ?case
  proof (cases "i = 0")
    case False
    then have "expires h 0 \<le> expires h (parent i)"
      using less parent_less[of i] by (meson less_trans neq0_conv)
    then show ?thesis using assms(1) less.prems False by (force simp: heap_ordered_def)
  qed simp
qed

lemma peek_None_iff: "peek h = None \<longleftrightarrow> heap_lookup h = Map.empty"
  by (auto simp: peek_def heap_lookup_def fun_eq_iff split: list.splits)

lemma peek_Some:
  assumes "heap_inv h" "peek h = Some (k, e)"
  shows "heap_lookup h k = Some e \<and> (\<forall>k' e'. heap_lookup h k' = Some e' \<longrightarrow> e \<le> e')"
proof -
  have p: "positions_ok h" and o: "heap_ordered h" using assms by (auto simp: heap_inv_def)
  have n0: "nodes h ! 0 = (k, e)" "0 < length (nodes h)"
    using assms(2) by (auto simp: peek_def split: list.splits)
  have "e \<le> e'" if "(k', e') \<in> set (nodes h)" for k' e'
    using that heap_root_least[OF o] n0 by (metis in_set_conv_nth snd_conv)
  then show ?thesis using n0 p by (metis heap_lookup_iff nth_mem)
qed

lemma heap_size_card: "heap_inv h \<Longrightarrow> heap_size h = int (card (dom (heap_lookup h)))"
  by (simp add: heap_size_def heap_inv_def positions_ok_def heap_lookup_def dom_map_of_conv_image_fst
      distinct_card[of "map fst (nodes h)", simplified])

section \<open>The contract of an expiration queue\<close>

text \<open>
  What a client relies on: the queue is an exact map from keys to expiration times (one entry
  per key, renewals overwrite), and \<open>front\<close> shows an entry with a least time.
\<close>

locale expiry_queue =
  fixes empty :: 'q
    and insert :: "'k \<Rightarrow> int \<Rightarrow> 'q \<Rightarrow> 'q"
    and remove :: "'k \<Rightarrow> 'q \<Rightarrow> 'q"
    and front :: "'q \<Rightarrow> ('k \<times> int) option"
    and due :: "int \<Rightarrow> 'q \<Rightarrow> 'k option \<times> 'q"
    and lookup :: "'q \<Rightarrow> 'k \<Rightarrow> int option"
    and invar :: "'q \<Rightarrow> bool"
  assumes invar_empty: "invar empty"
    and lookup_empty: "lookup empty = Map.empty"
    and invar_insert: "invar q \<Longrightarrow> invar (insert k e q)"
    and lookup_insert: "invar q \<Longrightarrow> lookup (insert k e q) = (lookup q)(k \<mapsto> e)"
    and invar_remove: "invar q \<Longrightarrow> invar (remove k q)"
    and lookup_remove: "invar q \<Longrightarrow> lookup (remove k q) = (lookup q)(k := None)"
    and front_None: "invar q \<Longrightarrow> front q = None \<longleftrightarrow> lookup q = Map.empty"
    and front_Some: "invar q \<Longrightarrow> front q = Some (k, e) \<Longrightarrow>
          lookup q k = Some e \<and> (\<forall>k' e'. lookup q k' = Some e' \<longrightarrow> e \<le> e')"
    and due_def: "due now q = (case front q of
          None \<Rightarrow> (None, q)
        | Some f \<Rightarrow> if snd f > now then (None, q) else (Some (fst f), remove (fst f) q))"
begin

lemma due_None:
  assumes "invar q" "due now q = (None, q')"
  shows "q' = q \<and> (\<forall>k e. lookup q k = Some e \<longrightarrow> now < e)"
  using assms front_None[of q] front_Some[of q]
  by (fastforce simp: due_def split: option.splits if_splits prod.splits)

lemma due_Some:
  assumes "invar q" "due now q = (Some k, q')"
  shows "invar q' \<and> lookup q' = (lookup q)(k := None) \<and> (\<exists>e \<le> now. lookup q k = Some e)"
  using assms front_Some[of q]
  by (auto simp: due_def invar_remove lookup_remove split: option.splits if_splits prod.splits)

text \<open>One entry leaves the queue at a time, and only when it has expired.\<close>

lemma due_keeps_live:
  assumes "invar q" "due now q = (r, q')" "lookup q k = Some e" "now < e"
  shows "lookup q' k = Some e"
  using assms due_None[of q now q'] due_Some[of q now _ q'] by (cases r) auto

lemma due_invar: "invar q \<Longrightarrow> invar (snd (due now q))"
  using due_None[of q now] due_Some[of q now] by (cases "due now q"; cases "fst (due now q)") auto

end

interpretation eh: expiry_queue empty_heap heap_set heap_delete peek takeExpired heap_lookup heap_inv
proof
  show "heap_inv empty_heap" by (rule heap_inv_empty)
  show "heap_lookup empty_heap = Map.empty" by (simp add: heap_lookup_def empty_heap_def)
qed (simp_all add: heap_set_correct heap_delete_correct peek_None_iff peek_Some takeExpired_def
      split: option.splits)

inductive heap_step :: "'k expiration_heap \<Rightarrow> 'k expiration_heap \<Rightarrow> bool" where
  hs_set: "heap_step h (heap_set k e h)"
| hs_delete: "heap_step h (heap_delete k h)"
| hs_take: "heap_step h (snd (takeExpired nowMs h))"
| hs_clear: "heap_step h (heap_clear h)"

interpretation heap: invariant_system empty_heap heap_step heap_inv
proof
  fix s t :: "'k expiration_heap"
  assume "heap_step s t" "heap_inv s"
  then show "heap_inv t"
    by (induction rule: heap_step.induct)
      (simp_all add: heap_set_correct heap_delete_correct eh.due_invar heap_inv_clear)
qed (rule heap_inv_empty)

lemmas reach_heap_set = reachable.reach_step[where step = heap_step, OF _ hs_set]

section \<open>Properties\<close>

text \<open>C16: the indexed heap is an exact map of expirations. In every reachable heap, \<open>set\<close> and
  \<open>delete\<close> change the entry of their key and no other, \<open>size\<close> is the number of keys, and
  \<open>takeExpired\<close> returns a key exactly when some entry has expired; the key it returns has the
  least expiration of all and is the only one removed.\<close>

theorem expiration_heap_contract:
  assumes "reachable empty_heap heap_step h"
  shows "heap_lookup (heap_set k e h) = (heap_lookup h)(k \<mapsto> e) \<and>
    heap_lookup (heap_delete k h) = (heap_lookup h)(k := None) \<and>
    heap_size h = int (card (dom (heap_lookup h))) \<and>
    (case takeExpired nowMs h of
       (None, h') \<Rightarrow> h' = h \<and> (\<forall>k e. heap_lookup h k = Some e \<longrightarrow> nowMs < e)
     | (Some k, h') \<Rightarrow> heap_lookup h' = (heap_lookup h)(k := None) \<and>
         (\<exists>e \<le> nowMs. heap_lookup h k = Some e \<and> (\<forall>k' e'. heap_lookup h k' = Some e' \<longrightarrow> e \<le> e')))"
proof -
  have inv: "heap_inv h" using assms by (rule heap.inv_reachable)
  have "(\<exists>e \<le> nowMs. heap_lookup h k = Some e \<and> (\<forall>k' e'. heap_lookup h k' = Some e' \<longrightarrow> e \<le> e'))"
    if "takeExpired nowMs h = (Some k, h')" for k h'
    using that peek_Some[OF inv] by (force simp: takeExpired_def split: option.splits if_splits)
  then show ?thesis
    using inv eh.due_None[OF inv] eh.due_Some[OF inv]
    by (simp add: heap_set_correct heap_delete_correct heap_size_card split: prod.splits option.splits)
qed

theorem expiration_heap_contract_witness:
  "reachable empty_heap heap_step (heap_set 2 (7::int) (heap_set (1::nat) 9 empty_heap)) \<and>
   fst (takeExpired 8 (heap_set 2 (7::int) (heap_set (1::nat) 9 empty_heap))) = Some 2 \<and>
   heap_size (heap_set 2 (7::int) (heap_set (1::nat) 9 empty_heap)) =
     int (card (dom (heap_lookup (heap_set 2 (7::int) (heap_set (1::nat) 9 empty_heap)))))"
proof -
  have r: "reachable empty_heap heap_step (heap_set 2 (7::int) (heap_set (1::nat) 9 empty_heap))"
    by (intro reach_heap_set reachable.reach_init)
  have t: "fst (takeExpired 8 (heap_set 2 (7::int) (heap_set (1::nat) 9 empty_heap))) = Some 2"
    by code_simp
  show ?thesis using r t expiration_heap_contract[OF r, of 1 4 8] by blast
qed

end
