(* ===== verification/Ttl_Store.thy ===== *)
theory Ttl_Store
  imports Expiration_Heap
begin

text \<open>
  \<^verbatim>\<open>src/shared/utils/indexed_ttl_store.ts\<close> and \<^verbatim>\<open>src/shared/utils/ttl_cache.ts\<close>.

  \<open>IndexedTtlStore\<close> keeps its entries in a map and their expirations in the indexed heap, and
  arms one timer for the next expiration; the timer callback evicts at most
  \<open>EXPIRATIONS_PER_TURN\<close> entries and re-arms itself. The timer field holds the delay it was
  armed with. \<open>Date.now()\<close> is an argument: \<open>nowMs\<close> where the source takes it as a parameter,
  \<open>clk\<close> where it reads the clock again.

  \<open>TtlCache\<close> is the size-bounded cache: reads drop a stale entry, a write into a full cache
  drops the stale entries and then, if needed, the oldest one.
\<close>

section \<open>IndexedTtlStore\<close>

record ('k, 'v) ttl_store =
  entries :: "('k, 'v \<times> int) jsmap"
  expirations :: "'k expiration_heap"
  timer :: "int option"
  closed :: bool
  ttlMs :: int

definition EXPIRATIONS_PER_TURN :: nat where
  "EXPIRATIONS_PER_TURN = 256"

definition new_store :: "int \<Rightarrow> ('k, 'v) ttl_store" where
  "new_store ttl = \<lparr>entries = [], expirations = empty_heap, timer = None, closed = False, ttlMs = ttl\<rparr>"

definition schedule :: "int \<Rightarrow> ('k, 'v) ttl_store \<Rightarrow> ('k, 'v) ttl_store" where
  "schedule clk st =
     (case peek (expirations st) of
        None \<Rightarrow> st\<lparr>timer := None\<rparr>
      | Some nxt \<Rightarrow>
          if closed st then st\<lparr>timer := None\<rparr>
          else st\<lparr>timer := Some (min 2147483647 (max 0 (snd nxt - clk)))\<rparr>)"

definition ttl_get :: "'k \<Rightarrow> int \<Rightarrow> int \<Rightarrow> ('k, 'v) ttl_store \<Rightarrow> 'v option \<times> ('k, 'v) ttl_store" where
  "ttl_get key nowMs clk st =
     (case jm_get (entries st) key of
        None \<Rightarrow> (None, st)
      | Some (value, expiresAtMs) \<Rightarrow>
          if expiresAtMs \<le> nowMs then
            (None, schedule clk (st\<lparr>entries := jm_del key (entries st),
                                    expirations := heap_delete key (expirations st)\<rparr>))
          else (Some value, st))"

definition ttl_set :: "'k \<Rightarrow> 'v \<Rightarrow> int \<Rightarrow> int \<Rightarrow> ('k, 'v) ttl_store \<Rightarrow> ('k, 'v) ttl_store" where
  "ttl_set key value nowMs clk st =
     (if closed st then st
      else let expiresAtMs = nowMs + ttlMs st
           in schedule clk (st\<lparr>entries := jm_set key (value, expiresAtMs) (entries st),
                               expirations := heap_set key expiresAtMs (expirations st)\<rparr>))"

definition getCardinality :: "('k, 'v) ttl_store \<Rightarrow> int \<times> int \<times> int" where
  "getCardinality st =
     (jm_size (entries st), heap_size (expirations st), if timer st = None then 0 else 1)"

definition ttl_close :: "('k, 'v) ttl_store \<Rightarrow> ('k, 'v) ttl_store" where
  "ttl_close st = st\<lparr>closed := True, timer := None, entries := [], expirations := heap_clear (expirations st)\<rparr>"

text \<open>The eviction loop of the timer callback: at most \<open>count\<close> rounds, early exit on \<open>undefined\<close>.\<close>

fun evict_turn :: "nat \<Rightarrow> int \<Rightarrow> ('k, 'v) ttl_store \<Rightarrow> ('k, 'v) ttl_store" where
  "evict_turn 0 nowMs st = st"
| "evict_turn (Suc count) nowMs st =
     (case takeExpired nowMs (expirations st) of
        (None, q) \<Rightarrow> st\<lparr>expirations := q\<rparr>
      | (Some key, q) \<Rightarrow>
          evict_turn count nowMs (st\<lparr>expirations := q, entries := jm_del key (entries st)\<rparr>))"

definition on_timer :: "int \<Rightarrow> int \<Rightarrow> ('k, 'v) ttl_store \<Rightarrow> ('k, 'v) ttl_store" where
  "on_timer nowMs clk st = schedule clk (evict_turn EXPIRATIONS_PER_TURN nowMs (st\<lparr>timer := None\<rparr>))"

text \<open>The events a store sees. A timer only fires when it is armed.\<close>

datatype ('k, 'v) ttl_event =
  TGet 'k int int
| TSet 'k 'v int int
| TTimer int int
| TClose

fun ttl_exec :: "('k, 'v) ttl_event \<Rightarrow> ('k, 'v) ttl_store \<Rightarrow> ('k, 'v) ttl_store" where
  "ttl_exec (TGet k nowMs clk) st = snd (ttl_get k nowMs clk st)"
| "ttl_exec (TSet k v nowMs clk) st = ttl_set k v nowMs clk st"
| "ttl_exec (TTimer nowMs clk) st = (if timer st = None then st else on_timer nowMs clk st)"
| "ttl_exec TClose st = ttl_close st"

section \<open>Invariant\<close>

text \<open>
  The heap holds exactly the keys of the map with the same expiration, the timer is armed
  exactly when there is something to expire, and a closed store is empty.
\<close>

definition ttl_consistent :: "('k, 'v) ttl_store \<Rightarrow> bool" where
  "ttl_consistent st \<longleftrightarrow> jm_wf (entries st) \<and> heap_inv (expirations st) \<and>
     (\<forall>k. heap_lookup (expirations st) k = map_option snd (jm_get (entries st) k)) \<and>
     (closed st \<longrightarrow> entries st = [])"

definition ttl_armed :: "('k, 'v) ttl_store \<Rightarrow> bool" where
  "ttl_armed st \<longleftrightarrow> (timer st = None \<longleftrightarrow> entries st = [])"

definition ttl_inv :: "('k, 'v) ttl_store \<Rightarrow> bool" where
  "ttl_inv st \<longleftrightarrow> ttl_consistent st \<and> ttl_armed st"

lemma ttl_consistent_lookup:
  "ttl_consistent st \<Longrightarrow> heap_lookup (expirations st) k = map_option snd (jm_get (entries st) k)"
  by (simp add: ttl_consistent_def)

lemma ttl_consistent_heap [simp]: "ttl_consistent st \<Longrightarrow> heap_inv (expirations st)"
  by (simp add: ttl_consistent_def)

lemma ttl_consistent_wf: "ttl_consistent st \<Longrightarrow> jm_wf (entries st)"
  by (simp add: ttl_consistent_def)

lemma ttl_consistent_empty_iff:
  assumes "ttl_consistent st"
  shows "peek (expirations st) = None \<longleftrightarrow> entries st = []"
proof -
  have "heap_lookup (expirations st) = Map.empty \<longleftrightarrow> (\<forall>k. jm_get (entries st) k = None)"
    using assms by (auto simp: fun_eq_iff ttl_consistent_lookup)
  also have "\<dots> \<longleftrightarrow> entries st = []"
    by (cases "entries st") auto
  finally show ?thesis by (simp add: peek_None_iff)
qed

lemma schedule_fields [simp]:
  "entries (schedule clk st) = entries st" "expirations (schedule clk st) = expirations st"
  "closed (schedule clk st) = closed st" "ttlMs (schedule clk st) = ttlMs st"
  by (simp_all add: schedule_def split: option.splits)

lemma ttl_consistent_schedule [simp]: "ttl_consistent (schedule clk st) = ttl_consistent st"
  by (simp add: ttl_consistent_def)

lemma ttl_inv_schedule: "ttl_consistent st \<Longrightarrow> ttl_inv (schedule clk st)"
  using ttl_consistent_empty_iff[of st]
  by (auto simp: ttl_inv_def ttl_armed_def schedule_def ttl_consistent_def split: option.splits)

lemma ttl_consistent_delete:
  assumes "ttl_consistent st"
  shows "ttl_consistent (st\<lparr>entries := jm_del k (entries st), expirations := heap_delete k (expirations st)\<rparr>)"
  using assms by (auto simp: ttl_consistent_def heap_delete_correct jm_del_unfold)

lemma ttl_consistent_set:
  assumes "ttl_consistent st" "\<not> closed st"
  shows "ttl_consistent (st\<lparr>entries := jm_set k (v, e) (entries st), expirations := heap_set k e (expirations st)\<rparr>)"
  using assms by (auto simp: ttl_consistent_def heap_set_correct)

lemma evict_step_consistent:
  assumes "ttl_consistent st" "takeExpired nowMs (expirations st) = (Some k, q)"
  shows "ttl_consistent (st\<lparr>expirations := q, entries := jm_del k (entries st)\<rparr>)"
  using assms eh.due_Some[OF _ assms(2)] by (auto simp: ttl_consistent_def jm_del_unfold)

lemma evict_turn_consistent: "ttl_consistent st \<Longrightarrow> ttl_consistent (evict_turn n nowMs st)"
proof (induction n nowMs st rule: evict_turn.induct)
  case (2 n nowMs st)
  show ?case
  proof (cases "takeExpired nowMs (expirations st)")
    case (Pair r q)
    then show ?thesis
      using 2 evict_step_consistent[of st nowMs _ q] eh.due_None[of "expirations st" nowMs q]
      by (cases r) auto
  qed
qed simp

lemma evict_turn_fields [simp]:
  "closed (evict_turn n nowMs st) = closed st" "ttlMs (evict_turn n nowMs st) = ttlMs st"
  by (induction n nowMs st rule: evict_turn.induct) (auto split: prod.splits option.splits)

lemma ttl_inv_new: "ttl_inv (new_store ttl)"
  by (simp add: ttl_inv_def ttl_consistent_def ttl_armed_def new_store_def heap_inv_empty eh.lookup_empty)

lemma ttl_consistent_timer [simp]: "ttl_consistent (st\<lparr>timer := t\<rparr>) = ttl_consistent st"
  by (simp add: ttl_consistent_def)

lemma ttl_inv_consistent: "ttl_inv st \<Longrightarrow> ttl_consistent st"
  by (simp add: ttl_inv_def)

lemma ttl_inv_get: "ttl_inv st \<Longrightarrow> ttl_inv (snd (ttl_get k nowMs clk st))"
  by (auto simp: ttl_get_def dest: ttl_inv_consistent intro!: ttl_inv_schedule ttl_consistent_delete
      split: option.splits)

lemma ttl_inv_set: "ttl_inv st \<Longrightarrow> ttl_inv (ttl_set k v nowMs clk st)"
  by (auto simp: ttl_set_def Let_def dest: ttl_inv_consistent intro!: ttl_inv_schedule ttl_consistent_set)

lemma ttl_inv_on_timer: "ttl_inv st \<Longrightarrow> ttl_inv (on_timer nowMs clk st)"
  by (auto simp: on_timer_def dest: ttl_inv_consistent intro!: ttl_inv_schedule evict_turn_consistent)

lemma ttl_inv_close: "ttl_inv (ttl_close st)"
  by (simp add: ttl_close_def ttl_inv_def ttl_consistent_def ttl_armed_def heap_inv_clear)
    (simp add: heap_lookup_def heap_clear_def)

lemma ttl_inv_exec: "ttl_inv st \<Longrightarrow> ttl_inv (ttl_exec ev st)"
  by (cases ev) (simp_all add: ttl_inv_get ttl_inv_set ttl_inv_on_timer ttl_inv_close)

inductive ttl_step :: "('k, 'v) ttl_store \<Rightarrow> ('k, 'v) ttl_store \<Rightarrow> bool" where
  "ttl_step st (ttl_exec ev st)"

interpretation ttl: invariant_system "new_store ttl" ttl_step ttl_inv for ttl
  by unfold_locales (auto simp: ttl_inv_new elim!: ttl_step.cases intro: ttl_inv_exec)

section \<open>Live entries survive, expired entries go\<close>

lemma evict_turn_live:
  assumes "ttl_consistent st" "jm_get (entries st) k = Some (v, e)" "nowMs < e"
  shows "jm_get (entries (evict_turn n nowMs st)) k = Some (v, e)"
  using assms
proof (induction n nowMs st rule: evict_turn.induct)
  case (2 n nowMs st)
  show ?case
  proof (cases "takeExpired nowMs (expirations st)")
    case (Pair r q)
    show ?thesis
    proof (cases r)
      case (Some k')
      then obtain e' where "heap_lookup (expirations st) k' = Some e'" "e' \<le> nowMs"
        using eh.due_Some[of "expirations st" nowMs k' q] Pair "2.prems"(1) by auto
      then have "k' \<noteq> k"
        using "2.prems" by (auto simp: ttl_consistent_lookup)
      then show ?thesis
        using 2 Some Pair evict_step_consistent[of st nowMs k' q] by auto
    qed (use "2.prems" Pair in auto)
  qed
qed simp

lemma evict_turn_progress:
  assumes "ttl_consistent st"
  shows "(\<forall>k v e. jm_get (entries (evict_turn n nowMs st)) k = Some (v, e) \<longrightarrow> nowMs < e) \<or>
         jm_size (entries (evict_turn n nowMs st)) = jm_size (entries st) - int n"
  using assms
proof (induction n nowMs st rule: evict_turn.induct)
  case (2 n nowMs st)
  show ?case
  proof (cases "takeExpired nowMs (expirations st)")
    case (Pair r q)
    show ?thesis
    proof (cases r)
      case None
      then have "\<forall>k e. heap_lookup (expirations st) k = Some e \<longrightarrow> nowMs < e"
        using eh.due_None[of "expirations st" nowMs q] Pair "2.prems" by auto
      then show ?thesis
        using None Pair "2.prems" by (auto simp: ttl_consistent_lookup)
    next
      case (Some k')
      let ?st = "st\<lparr>expirations := q, entries := jm_del k' (entries st)\<rparr>"
      obtain e' where "heap_lookup (expirations st) k' = Some e'"
        using eh.due_Some[of "expirations st" nowMs k' q] Pair Some "2.prems" by auto
      then have "\<exists>x. jm_get (entries st) k' = Some x"
        using "2.prems" by (auto simp: ttl_consistent_lookup)
      then have sz: "jm_size (entries ?st) = jm_size (entries st) - 1"
        using ttl_consistent_wf[OF "2.prems"] by (simp add: jm_size_del)
      have eq: "evict_turn (Suc n) nowMs st = evict_turn n nowMs ?st"
        using Pair Some by simp
      have "ttl_consistent ?st"
        using Pair Some "2.prems" by (auto intro: evict_step_consistent)
      from "2.IH"[OF Pair[symmetric] Some this] show ?thesis
        unfolding eq sz by auto
    qed
  qed
qed simp

text \<open>An event that leaves the entry of \<open>k\<close>, valid until \<open>t\<close>, alone: it neither writes \<open>k\<close> nor closes
  the store, and it happens before \<open>t\<close>.\<close>

fun spares :: "'k \<Rightarrow> int \<Rightarrow> ('k, 'v) ttl_event \<Rightarrow> bool" where
  "spares k t (TGet k' nowMs clk) \<longleftrightarrow> nowMs < t"
| "spares k t (TSet k' v nowMs clk) \<longleftrightarrow> k' \<noteq> k"
| "spares k t (TTimer nowMs clk) \<longleftrightarrow> nowMs < t"
| "spares k t TClose \<longleftrightarrow> False"

lemma ttl_exec_spares:
  assumes "ttl_inv st" "jm_get (entries st) k = Some (v, e)" "spares k e ev"
  shows "jm_get (entries (ttl_exec ev st)) k = Some (v, e)"
  using assms
  by (cases ev) (auto simp: ttl_get_def ttl_set_def Let_def on_timer_def evict_turn_live
      dest!: ttl_inv_consistent split: option.splits)

lemma ttl_run_spares:
  assumes "ttl_inv st" "jm_get (entries st) k = Some (v, e)" "\<forall>ev \<in> set evs. spares k e ev"
  shows "jm_get (entries (fold ttl_exec evs st)) k = Some (v, e)"
  using assms by (induction evs arbitrary: st) (simp_all add: ttl_inv_exec ttl_exec_spares)

section \<open>TtlCache\<close>

record ('k, 'v) ttl_cache =
  cache_map :: "('k, 'v \<times> int) jsmap"
  cache_ttlMs :: int
  cache_maxSize :: int

definition new_cache :: "int \<Rightarrow> int \<Rightarrow> ('k, 'v) ttl_cache" where
  "new_cache ttl maxSize = \<lparr>cache_map = [], cache_ttlMs = ttl, cache_maxSize = maxSize\<rparr>"

definition cache_get :: "'k \<Rightarrow> int \<Rightarrow> ('k, 'v) ttl_cache \<Rightarrow> 'v option \<times> ('k, 'v) ttl_cache" where
  "cache_get key nowMs c =
     (case jm_get (cache_map c) key of
        None \<Rightarrow> (None, c)
      | Some (value, expiresAtMs) \<Rightarrow>
          if nowMs \<ge> expiresAtMs then (None, c\<lparr>cache_map := jm_del key (cache_map c)\<rparr>)
          else (Some value, c))"

definition evictStale :: "int \<Rightarrow> ('k, 'v) ttl_cache \<Rightarrow> ('k, 'v) ttl_cache" where
  "evictStale nowMs c = c\<lparr>cache_map := filter (\<lambda>(k, v, e). \<not> (nowMs \<ge> e)) (cache_map c)\<rparr>"

text \<open>\<open>evictNow\<close> is the clock read of \<open>evictStale\<close>, \<open>nowMs\<close> the one of \<open>set\<close> itself.\<close>

definition make_room :: "'k \<Rightarrow> int \<Rightarrow> ('k, 'v) ttl_cache \<Rightarrow> ('k, 'v) ttl_cache" where
  "make_room key evictNow c =
     (if cache_maxSize c > 0 \<and> \<not> jm_has (cache_map c) key \<and> jm_size (cache_map c) \<ge> cache_maxSize c
      then let c2 = evictStale evictNow c
           in if jm_size (cache_map c2) \<ge> cache_maxSize c
              then (case cache_map c2 of
                      [] \<Rightarrow> c2
                    | (firstKey, _) # _ \<Rightarrow> c2\<lparr>cache_map := jm_del firstKey (cache_map c2)\<rparr>)
              else c2
      else c)"

definition cache_set ::
  "'k \<Rightarrow> 'v \<Rightarrow> int \<Rightarrow> int \<Rightarrow> ('k, 'v) ttl_cache \<Rightarrow> ('k, 'v) ttl_cache" where
  "cache_set key value evictNow nowMs c =
     (let c1 = make_room key evictNow c
      in c1\<lparr>cache_map := jm_set key (value, nowMs + cache_ttlMs c) (cache_map c1)\<rparr>)"

definition cache_delete :: "'k \<Rightarrow> ('k, 'v) ttl_cache \<Rightarrow> ('k, 'v) ttl_cache" where
  "cache_delete key c = c\<lparr>cache_map := jm_del key (cache_map c)\<rparr>"

definition deleteWhere :: "('k \<Rightarrow> bool) \<Rightarrow> ('k, 'v) ttl_cache \<Rightarrow> ('k, 'v) ttl_cache" where
  "deleteWhere predicate c = c\<lparr>cache_map := filter (\<lambda>(k, _). \<not> predicate k) (cache_map c)\<rparr>"

definition cache_clear :: "('k, 'v) ttl_cache \<Rightarrow> ('k, 'v) ttl_cache" where
  "cache_clear c = c\<lparr>cache_map := []\<rparr>"

definition cache_inv :: "('k, 'v) ttl_cache \<Rightarrow> bool" where
  "cache_inv c \<longleftrightarrow> jm_wf (cache_map c) \<and>
     (cache_maxSize c > 0 \<longrightarrow> jm_size (cache_map c) \<le> cache_maxSize c)"

lemma evictStale_fields [simp]:
  "cache_maxSize (evictStale t c) = cache_maxSize c"
  "cache_map (evictStale t c) = filter (\<lambda>(k, v, e). \<not> (t \<ge> e)) (cache_map c)"
  by (simp_all add: evictStale_def)

lemma make_room_maxSize [simp]: "cache_maxSize (make_room k t c) = cache_maxSize c"
  by (simp add: make_room_def Let_def split: list.splits)

lemma jm_size_del_head:
  "jm_wf (p # m) \<Longrightarrow> jm_del (fst p) (p # m) = m"
  by (cases p) (simp add: jm_del_unfold jm_del_fresh)

lemma make_room_wf:
  assumes "jm_wf (cache_map c)"
  shows "jm_wf (cache_map (make_room k t c))"
proof -
  have wf: "jm_wf (filter (\<lambda>(k, v, e). \<not> (t \<ge> e)) (cache_map c))"
    using assms by simp
  show ?thesis
  proof (cases "filter (\<lambda>(k, v, e). \<not> (t \<ge> e)) (cache_map c)")
    case (Cons p m)
    then have "jm_wf (p # m)" using wf by simp
    then show ?thesis
      using assms Cons jm_wf_del[of "p # m"]
      by (auto simp: make_room_def Let_def simp del: jm_wf_Cons split: prod.splits)
  qed (use assms wf in \<open>auto simp: make_room_def Let_def\<close>)
qed

lemma make_room_size:
  assumes "cache_inv c" "cache_maxSize c > 0" "\<not> jm_has (cache_map c) k"
  shows "jm_size (cache_map (make_room k t c)) < cache_maxSize c"
proof -
  let ?m = "filter (\<lambda>(k, v, e). \<not> (t \<ge> e)) (cache_map c)"
  have wf: "jm_wf ?m" and le: "jm_size ?m \<le> cache_maxSize c"
    using assms jm_size_filter[of "\<lambda>(k, v, e). \<not> t \<ge> e" "cache_map c"] by (auto simp: cache_inv_def)
  show ?thesis
  proof (cases ?m)
    case Nil
    then show ?thesis using assms by (auto simp: make_room_def Let_def)
  next
    case (Cons p m)
    then have "jm_del (fst p) ?m = m" "jm_size m = jm_size ?m - 1"
      using wf jm_size_del_head[of p m] by (auto simp: jm_size_def)
    then show ?thesis using assms le Cons by (auto simp: make_room_def Let_def split: prod.splits)
  qed
qed

lemma cache_inv_set: "cache_inv c \<Longrightarrow> cache_inv (cache_set k v t1 t2 c)"
proof (cases "jm_has (cache_map c) k")
  case True
  assume "cache_inv c"
  then show ?thesis
    using True by (auto simp: cache_inv_def cache_set_def make_room_def jm_size_set)
next
  case False
  assume c: "cache_inv c"
  show ?thesis
    using make_room_size[OF c _ False, of t1] make_room_wf[of c k t1] c
    by (auto simp: cache_inv_def cache_set_def Let_def jm_size_set)
qed

lemma cache_inv_get: "cache_inv c \<Longrightarrow> cache_inv (snd (cache_get k t c))"
  by (auto simp: cache_inv_def cache_get_def jm_size_del split: option.splits)

lemma cache_inv_filter: "cache_inv c \<Longrightarrow> cache_inv (c\<lparr>cache_map := filter P (cache_map c)\<rparr>)"
  using jm_size_filter[of P "cache_map c"] by (auto simp: cache_inv_def)

lemma cache_inv_delete: "cache_inv c \<Longrightarrow> cache_inv (cache_delete k c)"
  by (auto simp: cache_inv_def cache_delete_def jm_size_del)

inductive cache_step :: "('k, 'v) ttl_cache \<Rightarrow> ('k, 'v) ttl_cache \<Rightarrow> bool" where
  cs_get: "cache_step c (snd (cache_get k t c))"
| cs_set: "cache_step c (cache_set k v t1 t2 c)"
| cs_delete: "cache_step c (cache_delete k c)"
| cs_deleteWhere: "cache_step c (deleteWhere P c)"
| cs_clear: "cache_step c (cache_clear c)"

interpretation cache: invariant_system "new_cache ttl maxSize" cache_step cache_inv for ttl maxSize
proof
  fix s t :: "('k, 'v) ttl_cache"
  assume "cache_step s t" "cache_inv s"
  then show "cache_inv t"
    by (induction rule: cache_step.induct)
      (simp_all add: cache_inv_set cache_inv_get cache_inv_delete cache_inv_filter deleteWhere_def
        cache_clear_def, simp add: cache_inv_def)
qed (simp add: cache_inv_def new_cache_def)

section \<open>Properties\<close>

text \<open>a value is retained for its whole reuse window. In every reachable store, a value written
  at \<open>t\<close> is returned by a read at any time before \<open>t + ttlMs\<close>, whatever reads, writes of other keys
  and timer turns happen in between, as long as they too happen before \<open>t + ttlMs\<close>; and the map
  and the expiration heap keep the same number of entries.\<close>

theorem ttl_store_retains_live_entries:
  assumes "reachable (new_store ttl) ttl_step st" and "\<not> closed st"
    and "\<forall>ev \<in> set evs. spares k (t + ttlMs st) ev"
    and "nowMs < t + ttlMs st"
  shows "fst (ttl_get k nowMs clk' (fold ttl_exec evs (ttl_set k v t clk st))) = Some v \<and>
    jm_size (entries st) = heap_size (expirations st)"
proof -
  have inv: "ttl_inv st" using assms(1) by (rule ttl.inv_reachable)
  have "jm_get (entries (ttl_set k v t clk st)) k = Some (v, t + ttlMs st)"
    using assms(2) by (simp add: ttl_set_def Let_def)
  from ttl_run_spares[OF ttl_inv_set[OF inv] this assms(3)]
  have "fst (ttl_get k nowMs clk' (fold ttl_exec evs (ttl_set k v t clk st))) = Some v"
    using assms(4) by (simp add: ttl_get_def)
  moreover have "dom (heap_lookup (expirations st)) = dom (jm_get (entries st))"
    using ttl_consistent_lookup[OF ttl_inv_consistent[OF inv]] by (auto simp: dom_def)
  moreover have "card (dom (jm_get (entries st))) = length (entries st)"
    using ttl_consistent_wf[OF ttl_inv_consistent[OF inv]]
      distinct_card[of "map fst (entries st)"]
    by (simp add: jm_wf_def dom_map_of_conv_image_fst jm_get_def[abs_def])
  ultimately show ?thesis
    using ttl_inv_consistent[OF inv] by (simp add: heap_size_card jm_size_def)
qed

theorem ttl_store_retains_live_entries_witness:
  "fst (ttl_get (1::nat) 109 109
     (fold ttl_exec [TSet 2 False 105 105, TTimer 107 107, TGet 2 108 108]
        (ttl_set 1 True 100 100 (new_store 10)))) = Some True"
proof -
  have r: "reachable (new_store 10) ttl_step (new_store 10 :: (nat, bool) ttl_store)"
    by (rule reachable.reach_init)
  show ?thesis
    using ttl_store_retains_live_entries[OF r, where k = 1 and t = 100 and nowMs = 109
        and evs = "[TSet 2 False 105 105, TTimer 107 107, TGet 2 108 108]" and v = True
        and clk = 100 and clk' = 109]
    by (simp add: new_store_def)
qed

text \<open>expired entries do not accumulate. One turn of the timer of a reachable store removes every
  entry that has expired, or as many as one turn may (256); it never removes a live entry; and
  afterwards the timer is armed again exactly when entries remain.\<close>

theorem ttl_store_timer_turn:
  assumes "reachable (new_store ttl) ttl_step st"
  shows "((\<forall>k v e. jm_get (entries (on_timer nowMs clk st)) k = Some (v, e) \<longrightarrow> nowMs < e) \<or>
          jm_size (entries (on_timer nowMs clk st)) = jm_size (entries st) - 256) \<and>
    (\<forall>k v e. jm_get (entries st) k = Some (v, e) \<and> nowMs < e \<longrightarrow>
          jm_get (entries (on_timer nowMs clk st)) k = Some (v, e)) \<and>
    (timer (on_timer nowMs clk st) = None \<longleftrightarrow> entries (on_timer nowMs clk st) = [])"
proof -
  have inv: "ttl_inv st" using assms by (rule ttl.inv_reachable)
  have c: "ttl_consistent (st\<lparr>timer := None\<rparr>)" using inv by (simp add: ttl_inv_consistent)
  have "timer (on_timer nowMs clk st) = None \<longleftrightarrow> entries (on_timer nowMs clk st) = []"
    using ttl_inv_on_timer[OF inv, of nowMs clk] by (simp add: ttl_inv_def ttl_armed_def)
  moreover have "jm_get (entries (on_timer nowMs clk st)) k = Some (v, e)"
    if "jm_get (entries st) k = Some (v, e)" "nowMs < e" for k v e
    using evict_turn_live[OF c, of k v e nowMs EXPIRATIONS_PER_TURN] that by (simp add: on_timer_def)
  ultimately show ?thesis
    using evict_turn_progress[OF c, of EXPIRATIONS_PER_TURN nowMs]
    by (simp add: on_timer_def EXPIRATIONS_PER_TURN_def del: evict_turn.simps)
qed

theorem ttl_store_timer_turn_witness:
  "jm_get (entries (on_timer 112 112
      (ttl_set 2 False 105 105 (ttl_set (1::nat) True 100 100 (new_store 10))))) 2 = Some (False, 115) \<and>
   jm_get (entries (ttl_set 2 False 105 105 (ttl_set (1::nat) True 100 100 (new_store 10)))) 2
     = Some (False, 115)"
proof -
  let ?st = "ttl_set 2 False 105 105 (ttl_set (1::nat) True 100 100 (new_store 10))"
  have s1: "ttl_step st (ttl_set k v t c st)" for st :: "(nat, bool) ttl_store" and k v t c
    using ttl_step.intros[of st "TSet k v t c"] by simp
  have r: "reachable (new_store 10) ttl_step ?st"
    by (intro reachable.reach_step[where step = ttl_step, OF _ s1] reachable.reach_init)
  have g: "jm_get (entries ?st) 2 = Some (False, 115)"
    by code_simp
  show ?thesis using ttl_store_timer_turn[OF r, of 112 112] g by auto
qed

text \<open>the bounded cache. A reachable cache with a positive \<open>maxSize\<close> never holds more entries
  than that; a write is readable until its time to live has passed and not after; and a write
  into a full cache removes live entries only when no stale one could make room.\<close>

theorem ttl_cache_bounded:
  assumes "reachable (new_cache ttl maxSize) cache_step c"
  shows "(cache_maxSize c > 0 \<longrightarrow> jm_size (cache_map c) \<le> cache_maxSize c) \<and>
    fst (cache_get k nowMs (cache_set k v te tw c)) = (if nowMs < tw + cache_ttlMs c then Some v else None) \<and>
    ((\<exists>k' v' e'. jm_get (cache_map c) k' = Some (v', e') \<and> e' \<le> te) \<longrightarrow>
      (\<forall>k' v' e'. jm_get (cache_map c) k' = Some (v', e') \<and> te < e' \<and> k' \<noteq> k \<longrightarrow>
         jm_get (cache_map (cache_set k v te tw c)) k' = Some (v', e')))"
proof -
  have inv: "cache_inv c" using assms by (rule cache.inv_reachable)
  have wf: "jm_wf (cache_map c)" using inv by (simp add: cache_inv_def)
  have room: "cache_map (make_room k te c) = cache_map c \<or>
      cache_map (make_room k te c) = cache_map (evictStale te c)"
    if s: "jm_get (cache_map c) k' = Some (v', e')" "e' \<le> te" for k' v' e'
  proof -
    have "(k', v', e') \<in> set (cache_map c)" using s by (simp add: jm_get_in_set)
    then have "length (filter (\<lambda>(k, v, e). \<not> (te \<ge> e)) (cache_map c)) < length (cache_map c)"
      using s(2) by (intro length_filter_less[of "(k', v', e')"]) auto
    then show ?thesis
      using inv by (auto simp: make_room_def Let_def cache_inv_def jm_size_def)
  qed
  have "jm_get (cache_map (cache_set k v te tw c)) k' = Some (v', e')"
    if "jm_get (cache_map c) k'' = Some (v'', e'')" "e'' \<le> te"
      "jm_get (cache_map c) k' = Some (v', e')" "te < e'" "k' \<noteq> k" for k' v' e' k'' v'' e''
    using room[OF that(1,2)] that(3-5) wf
    by (auto simp: cache_set_def Let_def jm_get_filter case_prod_beta
        jm_get_filter[where P = "\<lambda>k p. \<not> snd p \<le> te"])
  then show ?thesis
    using inv by (auto simp: cache_inv_def cache_get_def cache_set_def Let_def)
qed

theorem ttl_cache_bounded_witness:
  "let c = cache_set 2 False 101 101 (cache_set (1::nat) True 100 100 (new_cache 10 2))
   in reachable (new_cache 10 2) cache_step c \<and> jm_size (cache_map c) \<le> 2 \<and>
      fst (cache_get 3 105 (cache_set 3 True 103 103 c)) = Some True"
proof -
  let ?c = "cache_set 2 False 101 101 (cache_set (1::nat) True 100 100 (new_cache 10 2))"
  have r: "reachable (new_cache 10 2) cache_step ?c"
    by (intro reachable.reach_step[where step = cache_step, OF _ cs_set] reachable.reach_init)
  have "cache_maxSize ?c = 2" "cache_ttlMs ?c = 10" by code_simp+
  then show ?thesis
    using r ttl_cache_bounded[OF r, where k = 3 and nowMs = 105 and v = True and te = 103 and tw = 103]
    by simp
qed

end
