(* ===== verification/Registry_Index.thy ===== *)
theory Registry_Index
  imports Prelude
begin

text \<open>
  Secondary indexes and counters of the in-memory registries
  (\<^verbatim>\<open>conversation_registry.ts\<close>, \<^verbatim>\<open>relay_request_registry.ts\<close>, \<^verbatim>\<open>active_stream_registry.ts\<close>).

  Every registry keeps a primary map from ids to records and, beside it, maps from an
  attribute of the record (a socket id, a conversation id) to the set of ids that carry it,
  or to their number. The helpers \<open>addIndexValue\<close>, \<open>removeIndexValue\<close>, \<open>incrementCounter\<close> and
  \<open>decrementCounter\<close> maintain them. \<open>index_ok\<close> says that an index is exactly the inverse image
  of the primary map under an attribute, that it holds no empty set and no duplicate; the
  two transport lemmas say that adding an id to both, or removing it from both, keeps that.
\<close>

type_synonym ('k, 'id) index = "('k, 'id list) jsmap"
type_synonym 'k counter = "('k, int) jsmap"

section \<open>Operations\<close>

definition addIndexValue :: "('k, 'id) index \<Rightarrow> 'k \<Rightarrow> 'id \<Rightarrow> ('k, 'id) index" where
  "addIndexValue index key value =
     (case jm_get index key of
        Some existing \<Rightarrow> jm_set key (js_add value existing) index
      | None \<Rightarrow> jm_set key [value] index)"

definition removeIndexValue :: "('k, 'id) index \<Rightarrow> 'k \<Rightarrow> 'id \<Rightarrow> ('k, 'id) index" where
  "removeIndexValue index key value =
     (case jm_get index key of
        None \<Rightarrow> index
      | Some existing \<Rightarrow>
          (let remaining = js_rem value existing
           in if remaining = [] then jm_del key index else jm_set key remaining index))"

definition incrementCounter :: "'k counter \<Rightarrow> 'k \<Rightarrow> 'k counter" where
  "incrementCounter counterMap key =
     jm_set key ((case jm_get counterMap key of None \<Rightarrow> 0 | Some n \<Rightarrow> n) + 1) counterMap"

definition decrementCounter :: "'k counter \<Rightarrow> 'k \<Rightarrow> 'k counter" where
  "decrementCounter counterMap key =
     (let nextValue = (case jm_get counterMap key of None \<Rightarrow> 0 | Some n \<Rightarrow> n) - 1
      in if nextValue > 0 then jm_set key nextValue counterMap else jm_del key counterMap)"

text \<open>Reading with the source's defaults: \<^verbatim>\<open>index.get(key) ?? []\<close> and \<^verbatim>\<open>counter.get(key) ?? 0\<close>.\<close>

definition idx_get :: "('k, 'id) index \<Rightarrow> 'k \<Rightarrow> 'id list" where
  "idx_get index key = (case jm_get index key of None \<Rightarrow> [] | Some ids \<Rightarrow> ids)"

definition cnt_get :: "'k counter \<Rightarrow> 'k \<Rightarrow> int" where
  "cnt_get counterMap key = (case jm_get counterMap key of None \<Rightarrow> 0 | Some n \<Rightarrow> n)"

section \<open>Invariants\<close>

definition idx_wf :: "('k, 'id) index \<Rightarrow> bool" where
  "idx_wf index \<longleftrightarrow> jm_wf index \<and> (\<forall>k ids. jm_get index k = Some ids \<longrightarrow> ids \<noteq> [] \<and> distinct ids)"

definition cnt_wf :: "'k counter \<Rightarrow> bool" where
  "cnt_wf counterMap \<longleftrightarrow> jm_wf counterMap \<and> (\<forall>k n. jm_get counterMap k = Some n \<longrightarrow> 0 < n)"

definition index_ok :: "('r \<Rightarrow> 'k option) \<Rightarrow> ('id, 'r) jsmap \<Rightarrow> ('k, 'id) index \<Rightarrow> bool" where
  "index_ok attr m index \<longleftrightarrow> idx_wf index \<and>
     (\<forall>k i. i \<in> set (idx_get index k) \<longleftrightarrow> (\<exists>r. jm_get m i = Some r \<and> attr r = Some k))"

section \<open>Laws\<close>

lemma idx_get_nil [simp, idx_simps]: "idx_get [] k = []"
  by (simp add: idx_get_def)

lemma cnt_get_nil [simp, idx_simps]: "cnt_get [] k = 0"
  by (simp add: cnt_get_def)

lemma idx_get_add [simp, idx_simps]:
  "idx_get (addIndexValue index k v) k' =
     (if k' = k then js_add v (idx_get index k) else idx_get index k')"
  by (auto simp: idx_get_def addIndexValue_def js_add_def split: option.splits)

lemma idx_get_remove [simp, idx_simps]:
  "idx_get (removeIndexValue index k v) k' =
     (if k' = k then js_rem v (idx_get index k) else idx_get index k')"
  by (auto simp: idx_get_def removeIndexValue_def js_rem_def Let_def split: option.splits)

lemma idx_wf_nil [simp, idx_simps]: "idx_wf []"
  by (simp add: idx_wf_def)

lemma idx_wf_add [simp, idx_simps]: "idx_wf index \<Longrightarrow> idx_wf (addIndexValue index k v)"
  by (auto simp: idx_wf_def addIndexValue_def split: option.splits if_splits)

lemma idx_wf_remove [simp, idx_simps]: "idx_wf index \<Longrightarrow> idx_wf (removeIndexValue index k v)"
  by (auto simp: idx_wf_def removeIndexValue_def Let_def split: option.splits if_splits)

lemma idx_wf_distinct [simp]: "idx_wf index \<Longrightarrow> distinct (idx_get index k)"
  by (auto simp: idx_wf_def idx_get_def split: option.splits)

lemma cnt_wf_nil [simp, idx_simps]: "cnt_wf []"
  by (simp add: cnt_wf_def)

lemma cnt_wf_nonneg [simp]: "cnt_wf c \<Longrightarrow> 0 \<le> cnt_get c k"
  by (auto simp: cnt_wf_def cnt_get_def split: option.splits intro: less_imp_le)

lemma cnt_get_increment [simp, idx_simps]:
  "cnt_get (incrementCounter c k) k' = (if k' = k then cnt_get c k + 1 else cnt_get c k')"
  by (auto simp: cnt_get_def incrementCounter_def split: option.splits)

lemma cnt_get_decrement [simp, idx_simps]:
  "cnt_get (decrementCounter c k) k' =
     (if k' = k then max 0 (cnt_get c k - 1) else cnt_get c k')"
  by (auto simp: cnt_get_def decrementCounter_def Let_def split: option.splits)

lemma cnt_wf_increment [simp, idx_simps]: "cnt_wf c \<Longrightarrow> cnt_wf (incrementCounter c k)"
  using cnt_wf_nonneg[of c k]
  by (auto simp: cnt_wf_def cnt_get_def incrementCounter_def split: option.splits if_splits)

lemma cnt_wf_decrement [simp, idx_simps]: "cnt_wf c \<Longrightarrow> cnt_wf (decrementCounter c k)"
  by (auto simp: cnt_wf_def decrementCounter_def Let_def split: option.splits if_splits)

lemma index_ok_nil [simp, idx_simps]: "index_ok attr [] []"
  by (simp add: index_ok_def)

lemma index_ok_wf: "index_ok attr m index \<Longrightarrow> idx_wf index"
  by (simp add: index_ok_def)

lemma index_ok_mem:
  "index_ok attr m index \<Longrightarrow>
     i \<in> set (idx_get index k) \<longleftrightarrow> (\<exists>r. jm_get m i = Some r \<and> attr r = Some k)"
  by (simp add: index_ok_def)

lemma index_ok_cong:
  assumes "index_ok attr m index"
    and "\<And>i k. (\<exists>r. jm_get m' i = Some r \<and> attr r = Some k) \<longleftrightarrow>
           (\<exists>r. jm_get m i = Some r \<and> attr r = Some k)"
  shows "index_ok attr m' index"
  using assms unfolding index_ok_def by metis

text \<open>A new id with attribute \<open>k\<close> enters the primary map and the index.\<close>

lemma index_ok_add:
  assumes "index_ok attr m index" and "jm_get m i = None" and "attr r = Some k"
  shows "index_ok attr (jm_set i r m) (addIndexValue index k i)"
  using assms unfolding index_ok_def by auto

lemma index_ok_add_none:
  assumes "index_ok attr m index" and "jm_get m i = None" and "attr r = None"
  shows "index_ok attr (jm_set i r m) index"
  using assms unfolding index_ok_def by auto

text \<open>An id leaves both.\<close>

lemma index_ok_remove:
  assumes "index_ok attr m index" and "jm_get m i = Some r" and "attr r = Some k"
  shows "index_ok attr (jm_del i m) (removeIndexValue index k i)"
  using assms unfolding index_ok_def by auto

lemma index_ok_remove_none:
  assumes "index_ok attr m index" and "jm_get m i = Some r" and "attr r = None"
  shows "index_ok attr (jm_del i m) index"
  using assms unfolding index_ok_def by auto

text \<open>A record is replaced by one with the same attribute (a field the index ignores changed).\<close>

lemma index_ok_update:
  assumes "index_ok attr m index" and "jm_get m i = Some r" and "attr r' = attr r"
  shows "index_ok attr (jm_set i r' m) index"
  using assms unfolding index_ok_def by auto

text \<open>
  The size of an index entry is the number of records with that attribute: what the caps per
  consumer or per conversation count.
\<close>

definition attr_count :: "('r \<Rightarrow> 'k option) \<Rightarrow> ('id, 'r) jsmap \<Rightarrow> 'k \<Rightarrow> int" where
  "attr_count attr m k = jm_sum (\<lambda>r. if attr r = Some k then 1 else 0) m"

lemma attr_count_nil [simp]: "attr_count attr [] k = 0"
  by (simp add: attr_count_def)

lemma attr_count_nonneg [simp]: "jm_wf m \<Longrightarrow> 0 \<le> attr_count attr m k"
  unfolding attr_count_def by (rule jm_sum_nonneg) auto

lemma attr_count_set:
  "attr_count attr (jm_set i r m) k =
     attr_count attr m k
     - (case jm_get m i of None \<Rightarrow> 0 | Some r' \<Rightarrow> if attr r' = Some k then 1 else 0)
     + (if attr r = Some k then 1 else 0)"
  by (simp add: attr_count_def jm_sum_set)

lemma attr_count_del:
  "jm_wf m \<Longrightarrow> attr_count attr (jm_del i m) k =
     attr_count attr m k
     - (case jm_get m i of None \<Rightarrow> 0 | Some r' \<Rightarrow> if attr r' = Some k then 1 else 0)"
  by (simp add: attr_count_def jm_sum_del)

lemma attr_count_pos:
  assumes "jm_wf m" and "jm_get m i = Some r" and "attr r = Some k"
  shows "1 \<le> attr_count attr m k"
  using jm_sum_ge_one[of m "\<lambda>r. if attr r = Some k then 1 else 0" i r] assms
  by (simp add: attr_count_def)

lemma attr_count_card:
  "jm_wf m \<Longrightarrow>
     attr_count attr m k = int (card {i. \<exists>r. jm_get m i = Some r \<and> attr r = Some k})"
proof (induction m)
  case Nil
  then show ?case by simp
next
  case (Cons p m)
  obtain a b where p: "p = (a, b)" by (cases p)
  let ?S = "\<lambda>m. {i. \<exists>r. jm_get m i = Some r \<and> attr r = Some k}"
  have fin: "finite (?S m)"
    by (rule finite_subset[of _ "fst ` set m"]) (force dest: jm_get_in_set)+
  have fresh: "jm_get m a = None" and wf: "jm_wf m"
    using Cons.prems p by auto
  have "?S (p # m) = (if attr b = Some k then insert a (?S m) else ?S m)"
    using fresh p by (auto split: if_splits)
  moreover have "a \<notin> ?S m" using fresh by auto
  ultimately show ?case
    using Cons.IH[OF wf] fin p by (auto simp: attr_count_def)
qed

lemma index_ok_size:
  assumes "jm_wf m" and "index_ok attr m index"
  shows "int (length (idx_get index k)) = attr_count attr m k"
proof -
  have "set (idx_get index k) = {i. \<exists>r. jm_get m i = Some r \<and> attr r = Some k}"
    using assms(2) by (simp add: index_ok_def set_eq_iff)
  moreover have "distinct (idx_get index k)"
    using assms(2) by (simp add: index_ok_wf)
  ultimately have "card {i. \<exists>r. jm_get m i = Some r \<and> attr r = Some k} = length (idx_get index k)"
    using distinct_card by metis
  then show ?thesis
    using attr_count_card[OF assms(1), of attr k] by simp
qed

lemmas index_ok_intros = index_ok_add index_ok_add_none index_ok_remove index_ok_remove_none
  index_ok_update

end
