(* ===== verification/Conversation_Registry.thy ===== *)
theory Conversation_Registry
  imports Registry_Index
begin

text \<open>
  \<^verbatim>\<open>src/presentation/socket/hub/registries/conversation_registry.ts\<close>: the relay conversations
  between a consumer socket and an agent socket, with an index per socket on each side and
  the module-level debounce map of the streaming hot path.

  The state \<open>conv_registry\<close> has the three maps of the class and \<open>lastTouchAtMs\<close>. The clock, the
  environment value \<^verbatim>\<open>socketRelayConversationTouchDebounceMs\<close> and the result of \<^verbatim>\<open>randomUUID()\<close>
  are arguments. The public view carries instants in milliseconds where the source renders
  them with \<^verbatim>\<open>toISOString\<close>; both views hold the same six fields.
\<close>

record conversation =
  cv_conversationId :: string
  cv_consumerSocketId :: string
  cv_agentSocketId :: string
  cv_agentId :: string
  cv_createdAtMs :: int
  cv_lastSeenAtMs :: int

record conv_registry =
  conversations :: "(string, conversation) jsmap"
  conversationsByConsumerSocket :: "(string, string) index"
  conversationsByAgentSocket :: "(string, string) index"
  lastTouchAtMs :: "(string, int) jsmap"

record conv_input =
  ci_consumerSocketId :: string
  ci_agentSocketId :: string
  ci_agentId :: string
  ci_conversationId :: "string option"

datatype cap_reason = GlobalCapReached | ConsumerCapReached

section \<open>Operations\<close>

definition new_conv_registry :: conv_registry where
  "new_conv_registry = \<lparr>conversations = [], conversationsByConsumerSocket = [],
     conversationsByAgentSocket = [], lastTouchAtMs = []\<rparr>"

definition clearConversationTouchDebounceState :: "string \<Rightarrow> conv_registry \<Rightarrow> conv_registry" where
  "clearConversationTouchDebounceState cid reg = reg\<lparr>lastTouchAtMs := jm_del cid (lastTouchAtMs reg)\<rparr>"

definition removeByConversationId ::
  "string \<Rightarrow> conv_registry \<Rightarrow> conversation option \<times> conv_registry" where
  "removeByConversationId cid reg =
     (case jm_get (conversations reg) cid of
        None \<Rightarrow> (None, reg)
      | Some existing \<Rightarrow>
          (Some existing,
           clearConversationTouchDebounceState cid
             (reg\<lparr>conversations := jm_del cid (conversations reg),
                  conversationsByConsumerSocket :=
                    removeIndexValue (conversationsByConsumerSocket reg) (cv_consumerSocketId existing) cid,
                  conversationsByAgentSocket :=
                    removeIndexValue (conversationsByAgentSocket reg) (cv_agentSocketId existing) cid\<rparr>)))"

definition conv_create ::
  "int \<Rightarrow> string \<Rightarrow> conv_input \<Rightarrow> conv_registry \<Rightarrow> conversation \<times> conv_registry" where
  "conv_create nowMs uuid input reg =
     (let cid = (case ci_conversationId input of None \<Rightarrow> uuid | Some c \<Rightarrow> c);
          reg1 = snd (removeByConversationId cid reg);
          c = \<lparr>cv_conversationId = cid, cv_consumerSocketId = ci_consumerSocketId input,
               cv_agentSocketId = ci_agentSocketId input, cv_agentId = ci_agentId input,
               cv_createdAtMs = nowMs, cv_lastSeenAtMs = nowMs\<rparr>
      in (c, reg1\<lparr>conversations := jm_set cid c (conversations reg1),
                  conversationsByConsumerSocket :=
                    addIndexValue (conversationsByConsumerSocket reg1) (ci_consumerSocketId input) cid,
                  conversationsByAgentSocket :=
                    addIndexValue (conversationsByAgentSocket reg1) (ci_agentSocketId input) cid\<rparr>))"

definition countAll :: "conv_registry \<Rightarrow> int" where
  "countAll reg = jm_size (conversations reg)"

definition countByConsumerSocketId :: "string \<Rightarrow> conv_registry \<Rightarrow> int" where
  "countByConsumerSocketId sid reg = int (length (idx_get (conversationsByConsumerSocket reg) sid))"

definition tryReserveAndCreate ::
  "int \<Rightarrow> string \<Rightarrow> conv_input \<Rightarrow> int \<Rightarrow> int \<Rightarrow> conv_registry \<Rightarrow> (cap_reason + conversation) \<times> conv_registry"
where
  "tryReserveAndCreate nowMs uuid input maxTotal maxPerConsumer reg =
     (if jm_size (conversations reg) \<ge> maxTotal then (Inl GlobalCapReached, reg)
      else if countByConsumerSocketId (ci_consumerSocketId input) reg \<ge> maxPerConsumer
        then (Inl ConsumerCapReached, reg)
      else let (c, reg') = conv_create nowMs uuid input reg in (Inr c, reg'))"

definition findByConversationId :: "string \<Rightarrow> conv_registry \<Rightarrow> conversation option" where
  "findByConversationId cid reg = jm_get (conversations reg) cid"

definition conv_touch :: "int \<Rightarrow> string \<Rightarrow> conv_registry \<Rightarrow> conversation option \<times> conv_registry" where
  "conv_touch nowMs cid reg =
     (case jm_get (conversations reg) cid of
        None \<Rightarrow> (None, reg)
      | Some existing \<Rightarrow>
          (let c = existing\<lparr>cv_lastSeenAtMs := nowMs\<rparr>
           in (Some c, reg\<lparr>conversations := jm_set cid c (conversations reg)\<rparr>)))"

definition touchInternalDebounced :: "int \<Rightarrow> int \<Rightarrow> string \<Rightarrow> conv_registry \<Rightarrow> conv_registry" where
  "touchInternalDebounced debounceMs nowMs cid reg =
     (if debounceMs > 0 \<and>
         (case jm_get (lastTouchAtMs reg) cid of
            None \<Rightarrow> False | Some lastTouchMs \<Rightarrow> nowMs - lastTouchMs < debounceMs)
      then reg
      else let reg1 = (if debounceMs > 0
                       then reg\<lparr>lastTouchAtMs := jm_set cid nowMs (lastTouchAtMs reg)\<rparr> else reg)
           in case jm_get (conversations reg1) cid of
                None \<Rightarrow> clearConversationTouchDebounceState cid reg1
              | Some existing \<Rightarrow>
                  reg1\<lparr>conversations :=
                         jm_set cid (existing\<lparr>cv_lastSeenAtMs := nowMs\<rparr>) (conversations reg1)\<rparr>)"

text \<open>The removal loop shared by the three bulk removals: every id of a snapshot, in order.\<close>

fun removeAllIds :: "string list \<Rightarrow> conv_registry \<Rightarrow> conversation list \<times> conv_registry" where
  "removeAllIds [] reg = ([], reg)"
| "removeAllIds (cid # ids) reg =
     (let (item, reg1) = removeByConversationId cid reg;
          (removed, reg2) = removeAllIds ids reg1
      in ((case item of None \<Rightarrow> removed | Some c \<Rightarrow> c # removed), reg2))"

definition removeByConsumerSocketId ::
  "string \<Rightarrow> conv_registry \<Rightarrow> conversation list \<times> conv_registry" where
  "removeByConsumerSocketId sid reg = removeAllIds (idx_get (conversationsByConsumerSocket reg) sid) reg"

definition removeByAgentSocketId ::
  "string \<Rightarrow> conv_registry \<Rightarrow> conversation list \<times> conv_registry" where
  "removeByAgentSocketId sid reg = removeAllIds (idx_get (conversationsByAgentSocket reg) sid) reg"

definition isConsumerOwner :: "string \<Rightarrow> string \<Rightarrow> conv_registry \<Rightarrow> bool" where
  "isConsumerOwner cid sid reg =
     (case findByConversationId cid reg of None \<Rightarrow> False | Some c \<Rightarrow> cv_consumerSocketId c = sid)"

definition removeExpired :: "int \<Rightarrow> int \<Rightarrow> conv_registry \<Rightarrow> conversation list \<times> conv_registry" where
  "removeExpired idleTimeoutMs now reg =
     (let timeoutMs = max 1 idleTimeoutMs;
          expiredIds = map (\<lambda>(_, c). cv_conversationId c)
            (filter (\<lambda>(_, c). now - cv_lastSeenAtMs c \<ge> timeoutMs) (conversations reg))
      in removeAllIds expiredIds reg)"

definition conv_clear :: "conv_registry \<Rightarrow> conv_registry" where
  "conv_clear reg = reg\<lparr>conversations := [], conversationsByConsumerSocket := [],
     conversationsByAgentSocket := [], lastTouchAtMs := []\<rparr>"

section \<open>Invariant\<close>

abbreviation consumer_attr :: "conversation \<Rightarrow> string option" where
  "consumer_attr c \<equiv> Some (cv_consumerSocketId c)"

abbreviation agent_attr :: "conversation \<Rightarrow> string option" where
  "agent_attr c \<equiv> Some (cv_agentSocketId c)"

definition conv_inv :: "conv_registry \<Rightarrow> bool" where
  "conv_inv reg \<longleftrightarrow> jm_wf (conversations reg) \<and>
     (\<forall>cid c. jm_get (conversations reg) cid = Some c \<longrightarrow> cv_conversationId c = cid) \<and>
     index_ok consumer_attr (conversations reg) (conversationsByConsumerSocket reg) \<and>
     index_ok agent_attr (conversations reg) (conversationsByAgentSocket reg) \<and>
     (\<forall>cid t. jm_get (lastTouchAtMs reg) cid = Some t \<longrightarrow> jm_has (conversations reg) cid)"

lemma conv_invD:
  assumes "conv_inv reg"
  shows "jm_wf (conversations reg)"
    and "jm_get (conversations reg) cid = Some c \<Longrightarrow> cv_conversationId c = cid"
    and "index_ok consumer_attr (conversations reg) (conversationsByConsumerSocket reg)"
    and "index_ok agent_attr (conversations reg) (conversationsByAgentSocket reg)"
    and "jm_get (lastTouchAtMs reg) cid = Some t \<Longrightarrow> \<exists>c. jm_get (conversations reg) cid = Some c"
  using assms by (auto simp: conv_inv_def)

lemma conv_inv_new: "conv_inv new_conv_registry"
  by (simp add: conv_inv_def new_conv_registry_def)

lemma conv_inv_clear: "conv_inv (conv_clear reg)"
  by (simp add: conv_inv_def conv_clear_def)

lemma remove_get:
  "jm_get (conversations (snd (removeByConversationId cid reg))) k =
     (if k = cid then None else jm_get (conversations reg) k)"
  by (auto simp: removeByConversationId_def clearConversationTouchDebounceState_def split: option.splits)

lemma remove_fst: "fst (removeByConversationId cid reg) = jm_get (conversations reg) cid"
  by (auto simp: removeByConversationId_def split: option.splits)

lemma conv_inv_remove:
  assumes "conv_inv reg"
  shows "conv_inv (snd (removeByConversationId cid reg))"
proof (cases "jm_get (conversations reg) cid")
  case None
  then show ?thesis using assms by (simp add: removeByConversationId_def)
next
  case (Some c)
  note D = conv_invD[OF assms]
  show ?thesis
    using Some D index_ok_remove[OF D(3) Some] index_ok_remove[OF D(4) Some]
    by (auto simp: conv_inv_def removeByConversationId_def clearConversationTouchDebounceState_def)
qed

lemma conv_inv_create:
  assumes "conv_inv reg"
  shows "conv_inv (snd (conv_create nowMs uuid input reg))"
proof -
  let ?cid = "case ci_conversationId input of None \<Rightarrow> uuid | Some c \<Rightarrow> c"
  let ?reg = "snd (removeByConversationId ?cid reg)"
  have D: "conv_inv ?reg" using assms by (rule conv_inv_remove)
  have fresh: "jm_get (conversations ?reg) ?cid = None" by (simp add: remove_get)
  show ?thesis
    using conv_invD[OF D] fresh
    by (auto simp: conv_inv_def conv_create_def Let_def intro!: index_ok_add)
qed

lemma conv_inv_touch: "conv_inv reg \<Longrightarrow> conv_inv (snd (conv_touch nowMs cid reg))"
  by (auto simp: conv_inv_def conv_touch_def Let_def intro!: index_ok_update split: option.splits)

lemma conv_inv_debounced: "conv_inv reg \<Longrightarrow> conv_inv (touchInternalDebounced d nowMs cid reg)"
  by (auto simp: conv_inv_def touchInternalDebounced_def Let_def clearConversationTouchDebounceState_def
      intro!: index_ok_update split: option.splits)

lemma removeAllIds_Cons:
  "snd (removeAllIds (cid # ids) reg) = snd (removeAllIds ids (snd (removeByConversationId cid reg)))"
  "fst (removeAllIds (cid # ids) reg) =
     (case jm_get (conversations reg) cid of None \<Rightarrow> [] | Some c \<Rightarrow> [c]) @
     fst (removeAllIds ids (snd (removeByConversationId cid reg)))"
  by (simp_all add: removeAllIds.simps(2) Let_def case_prod_beta remove_fst split: option.splits)

declare removeAllIds.simps(2) [simp del]
declare removeAllIds_Cons [simp]

lemma conv_inv_removeAllIds: "conv_inv reg \<Longrightarrow> conv_inv (snd (removeAllIds ids reg))"
  by (induction ids arbitrary: reg) (simp_all add: conv_inv_remove)

section \<open>What the bulk removals do\<close>

lemma removeAllIds_get:
  "jm_get (conversations (snd (removeAllIds ids reg))) k =
     (if k \<in> set ids then None else jm_get (conversations reg) k)"
  by (induction ids arbitrary: reg) (auto simp: remove_get)

lemma removeAllIds_fst:
  "distinct ids \<Longrightarrow>
     fst (removeAllIds ids reg) = List.map_filter (jm_get (conversations reg)) ids"
proof (induction ids arbitrary: reg)
  case Nil
  then show ?case by (simp add: map_filter_simps)
next
  case (Cons cid ids)
  have "List.map_filter (jm_get (conversations (snd (removeByConversationId cid reg)))) ids =
      List.map_filter (jm_get (conversations reg)) ids"
    using Cons.prems by (intro map_filter_eqI) (auto simp: remove_get)
  then show ?case
    using Cons by (simp add: map_filter_simps split: option.splits)
qed

text \<open>A bulk removal returns and removes exactly the conversations that satisfy \<open>P\<close>.\<close>

definition removes_exactly ::
  "conv_registry \<Rightarrow> (conversation \<Rightarrow> bool) \<Rightarrow> conversation list \<times> conv_registry \<Rightarrow> bool" where
  "removes_exactly reg P result \<longleftrightarrow>
     set (fst result) = {c. \<exists>cid. findByConversationId cid reg = Some c \<and> P c} \<and>
     (\<forall>cid. findByConversationId cid (snd result) =
        (case findByConversationId cid reg of
           None \<Rightarrow> None | Some c \<Rightarrow> if P c then None else Some c))"

lemma removeAllIds_exact:
  assumes "distinct ids"
    and "\<And>x. x \<in> set ids \<longleftrightarrow> (\<exists>c. jm_get (conversations reg) x = Some c \<and> P c)"
  shows "removes_exactly reg P (removeAllIds ids reg)"
proof -
  have "set (List.map_filter (jm_get (conversations reg)) ids) =
      {c. \<exists>cid. jm_get (conversations reg) cid = Some c \<and> P c}"
    using assms(2) by (force simp: List.map_filter_def)
  then show ?thesis
    using assms by (auto simp: removes_exactly_def findByConversationId_def removeAllIds_fst
        removeAllIds_get split: option.splits)
qed

lemma expired_ids:
  assumes "conv_inv reg"
  shows "distinct (map (\<lambda>(_, c). cv_conversationId c) (filter (\<lambda>(_, c). Q c) (conversations reg)))"
    and "x \<in> set (map (\<lambda>(_, c). cv_conversationId c) (filter (\<lambda>(_, c). Q c) (conversations reg)))
      \<longleftrightarrow> (\<exists>c. jm_get (conversations reg) x = Some c \<and> Q c)"
proof -
  note D = conv_invD[OF assms]
  have e: "map (\<lambda>(_, c). cv_conversationId c) (filter (\<lambda>(_, c). Q c) (conversations reg)) =
      map fst (filter (\<lambda>(_, c). Q c) (conversations reg))"
    using D(2) jm_in_set_get[OF D(1)] by (intro map_cong) auto
  show "distinct (map (\<lambda>(_, c). cv_conversationId c) (filter (\<lambda>(_, c). Q c) (conversations reg)))"
    unfolding e using jm_wf_filter[OF D(1), of "\<lambda>(_, c). Q c"] by (simp add: jm_wf_def)
  show "x \<in> set (map (\<lambda>(_, c). cv_conversationId c) (filter (\<lambda>(_, c). Q c) (conversations reg)))
      \<longleftrightarrow> (\<exists>c. jm_get (conversations reg) x = Some c \<and> Q c)"
    unfolding e using jm_get_iff_in_set[OF D(1)] by force
qed

section \<open>Caps\<close>

lemma countByConsumer_attr_count:
  "conv_inv reg \<Longrightarrow>
     countByConsumerSocketId sid reg = attr_count consumer_attr (conversations reg) sid"
  by (simp add: countByConsumerSocketId_def conv_invD index_ok_size)

definition within_caps :: "int \<Rightarrow> int \<Rightarrow> conv_registry \<Rightarrow> bool" where
  "within_caps maxTotal maxPerConsumer reg \<longleftrightarrow>
     countAll reg \<le> max 0 maxTotal \<and>
     (\<forall>sid. countByConsumerSocketId sid reg \<le> max 0 maxPerConsumer)"

lemma remove_counts:
  assumes "conv_inv reg"
  shows "countAll (snd (removeByConversationId cid reg)) \<le> countAll reg"
    and "countByConsumerSocketId sid (snd (removeByConversationId cid reg))
           \<le> countByConsumerSocketId sid reg"
proof -
  have "conversations (snd (removeByConversationId cid reg)) =
      (if jm_has (conversations reg) cid then jm_del cid (conversations reg) else conversations reg)"
    by (auto simp: removeByConversationId_def clearConversationTouchDebounceState_def split: option.splits)
  then show "countAll (snd (removeByConversationId cid reg)) \<le> countAll reg"
    and "countByConsumerSocketId sid (snd (removeByConversationId cid reg))
           \<le> countByConsumerSocketId sid reg"
    using assms conv_inv_remove[OF assms, of cid]
    by (auto simp: countAll_def countByConsumer_attr_count attr_count_del jm_size_del conv_invD
        split: option.splits)
qed

lemma within_caps_remove:
  "conv_inv reg \<Longrightarrow> within_caps T C reg \<Longrightarrow> within_caps T C (snd (removeByConversationId cid reg))"
  unfolding within_caps_def by (meson order_trans remove_counts)

lemma within_caps_removeAllIds:
  "conv_inv reg \<Longrightarrow> within_caps T C reg \<Longrightarrow> within_caps T C (snd (removeAllIds ids reg))"
proof (induction ids arbitrary: reg)
  case (Cons cid ids)
  then have "conv_inv (snd (removeByConversationId cid reg))"
    and "within_caps T C (snd (removeByConversationId cid reg))"
    by (auto intro: conv_inv_remove within_caps_remove)
  from Cons.IH[OF this] show ?case by simp
qed simp

lemma create_counts:
  assumes "conv_inv reg"
  shows "countAll (snd (conv_create nowMs uuid input reg)) \<le> countAll reg + 1"
    and "countByConsumerSocketId sid (snd (conv_create nowMs uuid input reg))
           \<le> countByConsumerSocketId sid reg + (if sid = ci_consumerSocketId input then 1 else 0)"
proof -
  define cid where "cid = (case ci_conversationId input of None \<Rightarrow> uuid | Some c \<Rightarrow> c)"
  define r where "r = snd (removeByConversationId cid reg)"
  define c where "c = fst (conv_create nowMs uuid input reg)"
  have cs: "conversations (snd (conv_create nowMs uuid input reg)) = jm_set cid c (conversations r)"
    and cc: "cv_consumerSocketId c = ci_consumerSocketId input"
    by (simp_all add: conv_create_def Let_def cid_def r_def c_def)
  have fresh: "jm_get (conversations r) cid = None" by (simp add: r_def remove_get)
  show "countAll (snd (conv_create nowMs uuid input reg)) \<le> countAll reg + 1"
    using remove_counts(1)[OF assms, of cid] fresh by (simp add: countAll_def cs r_def jm_size_set)
  show "countByConsumerSocketId sid (snd (conv_create nowMs uuid input reg))
           \<le> countByConsumerSocketId sid reg + (if sid = ci_consumerSocketId input then 1 else 0)"
    using remove_counts(2)[OF assms, of sid cid] fresh cc
      conv_inv_create[OF assms, of nowMs uuid input] conv_inv_remove[OF assms, of cid]
    by (auto simp: countByConsumer_attr_count cs attr_count_set r_def)
qed

lemma tryReserve_cases:
  "tryReserveAndCreate nowMs uuid input T C reg =
     (if countAll reg \<ge> T then (Inl GlobalCapReached, reg)
      else if countByConsumerSocketId (ci_consumerSocketId input) reg \<ge> C then (Inl ConsumerCapReached, reg)
      else (Inr (fst (conv_create nowMs uuid input reg)), snd (conv_create nowMs uuid input reg)))"
  by (simp add: tryReserveAndCreate_def countAll_def split: prod.splits)

lemma within_caps_tryReserve:
  assumes "conv_inv reg" "within_caps T C reg"
  shows "within_caps T C (snd (tryReserveAndCreate nowMs uuid input T C reg))"
proof (cases "countAll reg < T \<and> countByConsumerSocketId (ci_consumerSocketId input) reg < C")
  case True
  have "countByConsumerSocketId sid (snd (conv_create nowMs uuid input reg)) \<le> max 0 C" for sid
  proof (cases "sid = ci_consumerSocketId input")
    case same: True
    then show ?thesis using create_counts(2)[OF assms(1), of sid nowMs uuid input] True by auto
  next
    case False
    have "countByConsumerSocketId sid reg \<le> max 0 C" using assms(2) by (simp add: within_caps_def)
    then show ?thesis using create_counts(2)[OF assms(1), of sid nowMs uuid input] False by simp
  qed
  then show ?thesis
    using True create_counts(1)[OF assms(1), of nowMs uuid input]
    by (auto simp: tryReserve_cases within_caps_def)
next
  case False
  then show ?thesis using assms by (auto simp: tryReserve_cases)
qed

lemma touch_counts:
  "conv_inv reg \<Longrightarrow> within_caps T C reg \<Longrightarrow> within_caps T C (snd (conv_touch nowMs cid reg))"
  "conv_inv reg \<Longrightarrow> within_caps T C reg \<Longrightarrow> within_caps T C (touchInternalDebounced d nowMs cid reg)"
  by (auto simp: within_caps_def conv_touch_def touchInternalDebounced_def Let_def countAll_def
      clearConversationTouchDebounceState_def countByConsumerSocketId_def jm_size_set split: option.splits)

section \<open>The registry as a state machine\<close>

inductive conv_step :: "int \<Rightarrow> int \<Rightarrow> conv_registry \<Rightarrow> conv_registry \<Rightarrow> bool" for maxTotal maxPerConsumer where
  cv_reserve: "conv_step maxTotal maxPerConsumer reg
     (snd (tryReserveAndCreate nowMs uuid input maxTotal maxPerConsumer reg))"
| cv_touch: "conv_step maxTotal maxPerConsumer reg (snd (conv_touch nowMs cid reg))"
| cv_debounced: "conv_step maxTotal maxPerConsumer reg (touchInternalDebounced d nowMs cid reg)"
| cv_remove: "conv_step maxTotal maxPerConsumer reg (snd (removeByConversationId cid reg))"
| cv_consumer_gone: "conv_step maxTotal maxPerConsumer reg (snd (removeByConsumerSocketId sid reg))"
| cv_agent_gone: "conv_step maxTotal maxPerConsumer reg (snd (removeByAgentSocketId sid reg))"
| cv_expire: "conv_step maxTotal maxPerConsumer reg (snd (removeExpired idle now reg))"
| cv_clear: "conv_step maxTotal maxPerConsumer reg (conv_clear reg)"

lemma conv_inv_tryReserve: "conv_inv reg \<Longrightarrow> conv_inv (snd (tryReserveAndCreate nowMs uuid input T C reg))"
  by (simp add: tryReserve_cases conv_inv_create)

interpretation conv: invariant_system new_conv_registry "conv_step T C"
  "\<lambda>reg. conv_inv reg \<and> within_caps T C reg" for T C
proof
  show "conv_inv new_conv_registry \<and> within_caps T C new_conv_registry"
    using conv_inv_new
    by (auto simp: within_caps_def countAll_def countByConsumerSocketId_def new_conv_registry_def)
next
  fix s t assume "conv_step T C s t" "conv_inv s \<and> within_caps T C s"
  then show "conv_inv t \<and> within_caps T C t"
    by (induction rule: conv_step.induct)
      (auto simp: conv_inv_tryReserve within_caps_tryReserve conv_inv_touch conv_inv_debounced touch_counts
        conv_inv_remove within_caps_remove removeByConsumerSocketId_def removeByAgentSocketId_def
        removeExpired_def Let_def conv_inv_removeAllIds within_caps_removeAllIds conv_inv_clear,
       auto simp: within_caps_def conv_clear_def countAll_def countByConsumerSocketId_def)
qed

section \<open>Properties\<close>

text \<open>the conversation caps hold in every reachable registry. Whatever sequence of reservations,
  touches, removals, disconnects and expirations happened, there are at most \<open>maxTotal\<close>
  conversations, at most \<open>maxPerConsumer\<close> per consumer socket, the per-consumer count the cap check
  reads is exact, and no debounce record outlives its conversation.\<close>

theorem conversation_caps_hold:
  assumes "reachable new_conv_registry (conv_step maxTotal maxPerConsumer) reg"
  shows "countAll reg \<le> max 0 maxTotal \<and>
    countByConsumerSocketId sid reg \<le> max 0 maxPerConsumer \<and>
    countByConsumerSocketId sid reg =
      int (card {cid. \<exists>c. findByConversationId cid reg = Some c \<and> cv_consumerSocketId c = sid}) \<and>
    (\<forall>cid. jm_has (lastTouchAtMs reg) cid \<longrightarrow> findByConversationId cid reg \<noteq> None)"
proof -
  have inv: "conv_inv reg" and caps: "within_caps maxTotal maxPerConsumer reg"
    using conv.inv_reachable[OF assms] by auto
  have "countByConsumerSocketId sid reg =
      int (card {cid. \<exists>c. findByConversationId cid reg = Some c \<and> cv_consumerSocketId c = sid})"
    using attr_count_card[OF conv_invD(1)[OF inv], of consumer_attr sid]
    by (simp add: countByConsumer_attr_count[OF inv] findByConversationId_def)
  moreover have "jm_has (lastTouchAtMs reg) cid \<longrightarrow> findByConversationId cid reg \<noteq> None" for cid
    using conv_invD(5)[OF inv] by (auto simp: findByConversationId_def)
  ultimately show ?thesis using caps unfolding within_caps_def by blast
qed

definition sample_input :: "string \<Rightarrow> conv_input" where
  "sample_input cid = \<lparr>ci_consumerSocketId = ''s1'', ci_agentSocketId = ''a1'', ci_agentId = ''ag'',
     ci_conversationId = Some cid\<rparr>"

definition sample_registry :: conv_registry where
  "sample_registry = snd (tryReserveAndCreate 5 ''u'' (sample_input ''c1'') 2 1 new_conv_registry)"

lemma sample_registry_reachable: "reachable new_conv_registry (conv_step 2 1) sample_registry"
  unfolding sample_registry_def
  by (rule reachable.reach_step[OF reachable.reach_init]) (rule cv_reserve)

theorem conversation_caps_hold_witness:
  "reachable new_conv_registry (conv_step 2 1) sample_registry \<and>
   countByConsumerSocketId ''s1'' sample_registry = 1 \<and>
   fst (tryReserveAndCreate 6 ''u'' (sample_input ''c2'') 2 1 sample_registry) = Inl ConsumerCapReached \<and>
   countByConsumerSocketId ''s1'' sample_registry \<le> 1"
proof -
  have v: "countByConsumerSocketId ''s1'' sample_registry = 1"
    "fst (tryReserveAndCreate 6 ''u'' (sample_input ''c2'') 2 1 sample_registry) = Inl ConsumerCapReached"
    by code_simp+
  show ?thesis
    using conversation_caps_hold[OF sample_registry_reachable, of "''s1''"] sample_registry_reachable v
    by auto
qed

text \<open>the bulk removals remove exactly their conversations. In every reachable registry, a consumer
  disconnect, an agent disconnect and the idle sweep each return precisely the conversations of
  that socket (or idle for at least the timeout), remove those from the registry and leave every
  other conversation as it was.\<close>

theorem conversation_bulk_removals_exact:
  assumes "reachable new_conv_registry (conv_step maxTotal maxPerConsumer) reg"
  shows "removes_exactly reg (\<lambda>c. cv_consumerSocketId c = sid) (removeByConsumerSocketId sid reg) \<and>
    removes_exactly reg (\<lambda>c. cv_agentSocketId c = sid) (removeByAgentSocketId sid reg) \<and>
    removes_exactly reg (\<lambda>c. now - cv_lastSeenAtMs c \<ge> max 1 idle) (removeExpired idle now reg)"
proof -
  have inv: "conv_inv reg" using conv.inv_reachable[OF assms] by auto
  note D = conv_invD[OF inv]
  have "removes_exactly reg (\<lambda>c. cv_consumerSocketId c = sid) (removeByConsumerSocketId sid reg)"
    unfolding removeByConsumerSocketId_def
    using index_ok_mem[OF D(3)] idx_wf_distinct[OF index_ok_wf[OF D(3)]]
    by (intro removeAllIds_exact) auto
  moreover have "removes_exactly reg (\<lambda>c. cv_agentSocketId c = sid) (removeByAgentSocketId sid reg)"
    unfolding removeByAgentSocketId_def
    using index_ok_mem[OF D(4)] idx_wf_distinct[OF index_ok_wf[OF D(4)]]
    by (intro removeAllIds_exact) auto
  moreover have "removes_exactly reg (\<lambda>c. now - cv_lastSeenAtMs c \<ge> max 1 idle) (removeExpired idle now reg)"
    unfolding removeExpired_def Let_def
    by (intro removeAllIds_exact expired_ids inv)
  ultimately show ?thesis by blast
qed

theorem conversation_bulk_removals_exact_witness:
  "findByConversationId ''c1'' sample_registry \<noteq> None \<and>
   findByConversationId ''c1'' (snd (removeByConsumerSocketId ''s1'' sample_registry)) = None"
proof -
  have f: "\<exists>c. findByConversationId ''c1'' sample_registry = Some c \<and> cv_consumerSocketId c = ''s1''"
    by (simp add: sample_registry_def sample_input_def tryReserve_cases conv_create_def countAll_def
        countByConsumerSocketId_def removeByConversationId_def new_conv_registry_def
        findByConversationId_def Let_def)
  show ?thesis
    using f conversation_bulk_removals_exact[OF sample_registry_reachable, of "''s1''" 0 0]
    by (auto simp: removes_exactly_def)
qed

end
