(* ===== verification/Relay_Request_Registry.thy ===== *)
theory Relay_Request_Registry
  imports Registry_Index
begin

text \<open>
  \<^verbatim>\<open>src/presentation/socket/hub/registries/relay_request_registry.ts\<close>: the relay requests in flight,
  the pending counters per conversation and per consumer, the reservations that hold a slot
  while a dispatch is being prepared, and the three indexes used on disconnect. With it
  \<^verbatim>\<open>relay/relay_route_settlement.ts\<close>, \<^verbatim>\<open>relay/relay_timeout_tombstone.ts\<close> and the parts of
  \<^verbatim>\<open>relay/rpc_bridge_dispatch_relay.ts\<close> that drive the registry: the reserve / register / finally
  discipline and the timeout callback.

  A reservation is the closure that \<^verbatim>\<open>reserveRelayPendingSlot\<close> returns: the two captured ids and
  its private \<^verbatim>\<open>released\<close> flag. \<open>rs_consumed\<close> is the local \<^verbatim>\<open>pendingReservationConsumed\<close> of the
  dispatch that holds it. Callbacks and timers a route carries are named by numbers; invoking a
  callback, clearing a timer and clearing the stream flow state are effects that the
  operations return in order. Fields of a route that no operation here reads (latency trace,
  negotiated transport flags, expectation) are not carried.
\<close>

record relay_route =
  rr_requestId :: string
  rr_conversationId :: string
  rr_consumerSocketId :: string
  rr_agentSocketId :: string
  rr_agentId :: string
  rr_cancelReadWait :: "nat option"
  rr_timeoutHandle :: nat
  rr_releaseAgentDispatchSlot :: "nat option"
  rr_ackRetryTimer :: "nat option"
  rr_timedOut :: bool
  rr_settled :: bool

record relay_reservation =
  rs_conversationId :: string
  rs_consumerSocketId :: string
  rs_released :: bool
  rs_consumed :: bool

datatype relay_effect =
  ClearTimer nat
| CancelReadWait nat
| ReleaseAgentDispatchSlot nat
| ClearRelayStreamFlowState string

record relay_registry =
  relayRequestsByRequestId :: "(string, relay_route) jsmap"
  relayReservedGlobalCount :: int
  relayPendingCountByConversation :: "string counter"
  relayPendingCountByConsumer :: "string counter"
  relayRequestIdsByConversation :: "(string, string) index"
  relayRequestIdsByConsumer :: "(string, string) index"
  relayRequestIdsByAgent :: "(string, string) index"
  reservations :: "(nat, relay_reservation) jsmap"
  nextReservation :: nat

record relay_env =
  socketRelayMaxPendingRequests :: int
  socketRelayMaxPendingRequestsPerConversation :: int
  socketRelayMaxPendingRequestsPerConsumer :: int

section \<open>Operations of the registry\<close>

definition new_relay_registry :: relay_registry where
  "new_relay_registry = \<lparr>relayRequestsByRequestId = [], relayReservedGlobalCount = 0,
     relayPendingCountByConversation = [], relayPendingCountByConsumer = [],
     relayRequestIdsByConversation = [], relayRequestIdsByConsumer = [], relayRequestIdsByAgent = [],
     reservations = [], nextReservation = 0\<rparr>"

definition getRelayRequestRoute :: "string \<Rightarrow> relay_registry \<Rightarrow> relay_route option" where
  "getRelayRequestRoute requestId st = jm_get (relayRequestsByRequestId st) requestId"

definition getRelayEffectivePendingCount :: "relay_registry \<Rightarrow> int" where
  "getRelayEffectivePendingCount st = jm_size (relayRequestsByRequestId st) + relayReservedGlobalCount st"

definition getRelayPendingRequestCountForConversation :: "string \<Rightarrow> relay_registry \<Rightarrow> int" where
  "getRelayPendingRequestCountForConversation cid st = cnt_get (relayPendingCountByConversation st) cid"

definition getRelayPendingRequestCountForConsumer :: "string \<Rightarrow> relay_registry \<Rightarrow> int" where
  "getRelayPendingRequestCountForConsumer sid st = cnt_get (relayPendingCountByConsumer st) sid"

definition reserveRelayPendingSlot ::
  "relay_env \<Rightarrow> string \<Rightarrow> string \<Rightarrow> relay_registry \<Rightarrow> nat option \<times> relay_registry" where
  "reserveRelayPendingSlot env cid sid st =
     (if getRelayEffectivePendingCount st \<ge> socketRelayMaxPendingRequests env then (None, st)
      else if getRelayPendingRequestCountForConversation cid st
                \<ge> socketRelayMaxPendingRequestsPerConversation env then (None, st)
      else if getRelayPendingRequestCountForConsumer sid st
                \<ge> socketRelayMaxPendingRequestsPerConsumer env then (None, st)
      else (Some (nextReservation st),
            st\<lparr>relayReservedGlobalCount := relayReservedGlobalCount st + 1,
               relayPendingCountByConversation := incrementCounter (relayPendingCountByConversation st) cid,
               relayPendingCountByConsumer := incrementCounter (relayPendingCountByConsumer st) sid,
               reservations := jm_set (nextReservation st)
                 \<lparr>rs_conversationId = cid, rs_consumerSocketId = sid, rs_released = False,
                  rs_consumed = False\<rparr> (reservations st),
               nextReservation := Suc (nextReservation st)\<rparr>))"

definition releaseReservation :: "nat \<Rightarrow> relay_registry \<Rightarrow> relay_registry" where
  "releaseReservation tok st =
     (case jm_get (reservations st) tok of
        None \<Rightarrow> st
      | Some r \<Rightarrow>
          if rs_released r then st
          else st\<lparr>reservations := jm_set tok (r\<lparr>rs_released := True\<rparr>) (reservations st),
                  relayReservedGlobalCount := max 0 (relayReservedGlobalCount st - 1),
                  relayPendingCountByConversation :=
                    decrementCounter (relayPendingCountByConversation st) (rs_conversationId r),
                  relayPendingCountByConsumer :=
                    decrementCounter (relayPendingCountByConsumer st) (rs_consumerSocketId r)\<rparr>)"

fun findRelayRequestRouteForAgentSocket ::
  "string list \<Rightarrow> string \<Rightarrow> relay_registry \<Rightarrow> relay_route option" where
  "findRelayRequestRouteForAgentSocket [] agentSocketId st = None"
| "findRelayRequestRouteForAgentSocket (i # ids) agentSocketId st =
     (case jm_get (relayRequestsByRequestId st) i of
        None \<Rightarrow> findRelayRequestRouteForAgentSocket ids agentSocketId st
      | Some route \<Rightarrow>
          if rr_agentSocketId route = agentSocketId then Some route
          else findRelayRequestRouteForAgentSocket ids agentSocketId st)"

definition listRelayRequestIdsForConversation :: "string \<Rightarrow> relay_registry \<Rightarrow> string list" where
  "listRelayRequestIdsForConversation cid st = idx_get (relayRequestIdsByConversation st) cid"

definition listRelayRequestIdsForConsumer :: "string \<Rightarrow> relay_registry \<Rightarrow> string list" where
  "listRelayRequestIdsForConsumer sid st = idx_get (relayRequestIdsByConsumer st) sid"

definition listRelayRequestIdsForAgent :: "string \<Rightarrow> relay_registry \<Rightarrow> string list" where
  "listRelayRequestIdsForAgent sid st = idx_get (relayRequestIdsByAgent st) sid"

text \<open>The clean-up of one route that removal and reset share: ack timer, read wait, timeout, slot.\<close>

definition route_cleanup :: "relay_route \<Rightarrow> relay_effect list" where
  "route_cleanup route =
     (case rr_ackRetryTimer route of None \<Rightarrow> [] | Some t \<Rightarrow> [ClearTimer t]) @
     (if \<not> rr_settled route \<or> rr_timedOut route
      then (case rr_cancelReadWait route of None \<Rightarrow> [] | Some c \<Rightarrow> [CancelReadWait c]) else []) @
     [ClearTimer (rr_timeoutHandle route)] @
     (case rr_releaseAgentDispatchSlot route of None \<Rightarrow> [] | Some s \<Rightarrow> [ReleaseAgentDispatchSlot s])"

definition removeRelayRequestRoute ::
  "string \<Rightarrow> relay_registry \<Rightarrow> relay_route option \<times> relay_effect list \<times> relay_registry" where
  "removeRelayRequestRoute requestId st =
     (case jm_get (relayRequestsByRequestId st) requestId of
        None \<Rightarrow> (None, [ClearRelayStreamFlowState requestId], st)
      | Some route \<Rightarrow>
          (Some (route\<lparr>rr_ackRetryTimer := None\<rparr>),
           route_cleanup route @ [ClearRelayStreamFlowState requestId],
           st\<lparr>relayRequestsByRequestId := jm_del requestId (relayRequestsByRequestId st),
              relayPendingCountByConversation :=
                decrementCounter (relayPendingCountByConversation st) (rr_conversationId route),
              relayPendingCountByConsumer :=
                decrementCounter (relayPendingCountByConsumer st) (rr_consumerSocketId route),
              relayRequestIdsByConversation :=
                removeIndexValue (relayRequestIdsByConversation st) (rr_conversationId route) requestId,
              relayRequestIdsByConsumer :=
                removeIndexValue (relayRequestIdsByConsumer st) (rr_consumerSocketId route) requestId,
              relayRequestIdsByAgent :=
                removeIndexValue (relayRequestIdsByAgent st) (rr_agentSocketId route) requestId\<rparr>))"

definition registerRelayRequestRoute ::
  "relay_route \<Rightarrow> bool \<Rightarrow> relay_registry \<Rightarrow> relay_effect list \<times> relay_registry" where
  "registerRelayRequestRoute route countersReserved st =
     (let (eff, st1) =
            (if jm_has (relayRequestsByRequestId st) (rr_requestId route)
             then snd (removeRelayRequestRoute (rr_requestId route) st) else ([], st));
          st2 = st1\<lparr>relayRequestsByRequestId :=
                      jm_set (rr_requestId route) route (relayRequestsByRequestId st1)\<rparr>;
          st3 = (if countersReserved
                 then st2\<lparr>relayReservedGlobalCount := max 0 (relayReservedGlobalCount st2 - 1)\<rparr>
                 else st2\<lparr>relayPendingCountByConversation :=
                            incrementCounter (relayPendingCountByConversation st2) (rr_conversationId route),
                          relayPendingCountByConsumer :=
                            incrementCounter (relayPendingCountByConsumer st2) (rr_consumerSocketId route)\<rparr>)
      in (eff,
          st3\<lparr>relayRequestIdsByConversation :=
                addIndexValue (relayRequestIdsByConversation st3) (rr_conversationId route) (rr_requestId route),
              relayRequestIdsByConsumer :=
                addIndexValue (relayRequestIdsByConsumer st3) (rr_consumerSocketId route) (rr_requestId route),
              relayRequestIdsByAgent :=
                addIndexValue (relayRequestIdsByAgent st3) (rr_agentSocketId route) (rr_requestId route)\<rparr>))"

definition resetRelayRequestRegistry :: "relay_registry \<Rightarrow> relay_effect list \<times> relay_registry" where
  "resetRelayRequestRegistry st =
     (concat (map (\<lambda>(_, route). route_cleanup route @ [ClearRelayStreamFlowState (rr_requestId route)])
        (relayRequestsByRequestId st)),
      st\<lparr>relayRequestsByRequestId := [], relayReservedGlobalCount := 0,
         relayPendingCountByConversation := [], relayPendingCountByConsumer := [],
         relayRequestIdsByConversation := [], relayRequestIdsByConsumer := [],
         relayRequestIdsByAgent := []\<rparr>)"

definition trySettleRelayRoute :: "relay_route \<Rightarrow> bool \<times> relay_route" where
  "trySettleRelayRoute route =
     (if rr_settled route then (False, route) else (True, route\<lparr>rr_settled := True\<rparr>))"

section \<open>Late responses: the timeout tombstones\<close>

record tombstone =
  tb_conversationId :: string
  tb_timedOutAtMs :: int

definition recordRelayTimeoutTombstone ::
  "string \<Rightarrow> string \<Rightarrow> int \<Rightarrow> (string, tombstone) jsmap \<Rightarrow> (string, tombstone) jsmap" where
  "recordRelayTimeoutTombstone requestId cid nowMs ts =
     jm_set requestId \<lparr>tb_conversationId = cid, tb_timedOutAtMs = nowMs\<rparr> ts"

fun noteRelayLateResponseIfTimedOut ::
  "int \<Rightarrow> string list \<Rightarrow> int \<Rightarrow> (string, tombstone) jsmap \<Rightarrow> bool" where
  "noteRelayLateResponseIfTimedOut ttlMs [] nowMs ts = False"
| "noteRelayLateResponseIfTimedOut ttlMs (i # ids) nowMs ts =
     (case jm_get ts i of
        None \<Rightarrow> noteRelayLateResponseIfTimedOut ttlMs ids nowMs ts
      | Some t \<Rightarrow> if nowMs - tb_timedOutAtMs t \<le> ttlMs then True
                 else noteRelayLateResponseIfTimedOut ttlMs ids nowMs ts)"

definition sweepRelayTimeoutTombstones ::
  "int \<Rightarrow> int \<Rightarrow> (string, tombstone) jsmap \<Rightarrow> (string, tombstone) jsmap" where
  "sweepRelayTimeoutTombstones ttlMs nowMs ts =
     filter (\<lambda>(_, t). \<not> (nowMs - tb_timedOutAtMs t > ttlMs)) ts"

section \<open>The dispatch that drives the registry\<close>

text \<open>
  \<^verbatim>\<open>dispatchRelayRpcToAgent\<close>: the reservation is taken from the conversation's two ids; the route
  is built from the same conversation and registered with \<^verbatim>\<open>countersReserved\<close>; the \<^verbatim>\<open>finally\<close> block
  releases the reservation unless it was consumed.
\<close>

definition dispatch_register ::
  "nat \<Rightarrow> relay_route \<Rightarrow> relay_registry \<Rightarrow> relay_route option \<times> relay_effect list \<times> relay_registry"
where
  "dispatch_register tok route st =
     (case jm_get (reservations st) tok of
        None \<Rightarrow> (None, [], st)
      | Some r \<Rightarrow>
          if rs_released r \<or> rs_consumed r then (None, [], st)
          else let relayRoute = route\<lparr>rr_conversationId := rs_conversationId r,
                                      rr_consumerSocketId := rs_consumerSocketId r\<rparr>;
                   (eff, st1) = registerRelayRequestRoute relayRoute True st
               in (Some relayRoute, eff,
                   st1\<lparr>reservations := jm_set tok (r\<lparr>rs_consumed := True\<rparr>) (reservations st1)\<rparr>))"

definition dispatch_finally :: "nat \<Rightarrow> relay_registry \<Rightarrow> relay_registry" where
  "dispatch_finally tok st =
     (case jm_get (reservations st) tok of
        None \<Rightarrow> st
      | Some r \<Rightarrow> if \<not> rs_consumed r then releaseReservation tok st else st)"

text \<open>A response or a synthetic error settles the registered route; the flag lives on the route object.\<close>

definition settle_registered :: "string \<Rightarrow> relay_registry \<Rightarrow> bool \<times> relay_registry" where
  "settle_registered requestId st =
     (case getRelayRequestRoute requestId st of
        None \<Rightarrow> (False, st)
      | Some route \<Rightarrow>
          (let (won, route') = trySettleRelayRoute route
           in (won, st\<lparr>relayRequestsByRequestId := jm_set requestId route' (relayRequestsByRequestId st)\<rparr>)))"

text \<open>The timeout callback: settle, mark as timed out, remove. It reports whether it won the settlement.\<close>

definition relay_timeout_fired ::
  "string \<Rightarrow> relay_registry \<Rightarrow> bool \<times> relay_effect list \<times> relay_registry" where
  "relay_timeout_fired requestId st =
     (case getRelayRequestRoute requestId st of
        None \<Rightarrow> (False, [], st)
      | Some route \<Rightarrow>
          (let (won, route') = trySettleRelayRoute route
           in if \<not> won then (False, [], st)
              else let st1 = st\<lparr>relayRequestsByRequestId :=
                          jm_set requestId (route'\<lparr>rr_timedOut := True\<rparr>) (relayRequestsByRequestId st)\<rparr>;
                       (_, eff, st2) = removeRelayRequestRoute requestId st1
                   in (True, eff, st2)))"

text \<open>
  One event of the machine, with what it did: the route it registered, whether it won the terminal
  settlement of a request, and the effects it emitted.
\<close>

datatype relay_op =
  OpReserve string string
| OpRegister nat relay_route
| OpFinally nat
| OpSettle string
| OpTimeout string
| OpRemove string

record relay_out =
  out_registered :: "relay_route option"
  out_won :: "string option"
  out_effects :: "relay_effect list"

definition quiet :: relay_out where
  "quiet = \<lparr>out_registered = None, out_won = None, out_effects = []\<rparr>"

definition relay_exec :: "relay_env \<Rightarrow> relay_op \<Rightarrow> relay_registry \<Rightarrow> relay_out \<times> relay_registry" where
  "relay_exec env op st =
     (case op of
        OpReserve cid sid \<Rightarrow> (quiet, snd (reserveRelayPendingSlot env cid sid st))
      | OpRegister tok route \<Rightarrow>
          (let (reg, eff, st') = dispatch_register tok route st
           in (quiet\<lparr>out_registered := reg, out_effects := eff\<rparr>, st'))
      | OpFinally tok \<Rightarrow> (quiet, dispatch_finally tok st)
      | OpSettle i \<Rightarrow>
          (let (won, st') = settle_registered i st
           in (quiet\<lparr>out_won := if won then Some i else None\<rparr>, st'))
      | OpTimeout i \<Rightarrow>
          (let (won, eff, st') = relay_timeout_fired i st
           in (quiet\<lparr>out_won := if won then Some i else None, out_effects := eff\<rparr>, st'))
      | OpRemove i \<Rightarrow>
          (let (_, eff, st') = removeRelayRequestRoute i st in (quiet\<lparr>out_effects := eff\<rparr>, st')))"

fun relay_run :: "relay_env \<Rightarrow> relay_op list \<Rightarrow> relay_registry \<Rightarrow> relay_out list \<times> relay_registry" where
  "relay_run env [] st = ([], st)"
| "relay_run env (op # ops) st =
     (let (out, st1) = relay_exec env op st; (outs, st2) = relay_run env ops st1 in (out # outs, st2))"

section \<open>Invariant\<close>

abbreviation conv_key :: "relay_route \<Rightarrow> string option" where
  "conv_key r \<equiv> Some (rr_conversationId r)"

abbreviation consumer_key :: "relay_route \<Rightarrow> string option" where
  "consumer_key r \<equiv> Some (rr_consumerSocketId r)"

abbreviation agent_key :: "relay_route \<Rightarrow> string option" where
  "agent_key r \<equiv> Some (rr_agentSocketId r)"

definition held :: "relay_reservation \<Rightarrow> bool" where
  "held r \<longleftrightarrow> \<not> rs_released r \<and> \<not> rs_consumed r"

definition held_conv :: "relay_reservation \<Rightarrow> string option" where
  "held_conv r = (if held r then Some (rs_conversationId r) else None)"

definition held_consumer :: "relay_reservation \<Rightarrow> string option" where
  "held_consumer r = (if held r then Some (rs_consumerSocketId r) else None)"

definition held_count :: "(nat, relay_reservation) jsmap \<Rightarrow> int" where
  "held_count rs = jm_sum (\<lambda>r. if held r then 1 else 0) rs"

definition indexes_ok :: "relay_registry \<Rightarrow> bool" where
  "indexes_ok st \<longleftrightarrow> jm_wf (relayRequestsByRequestId st) \<and>
     (\<forall>i r. jm_get (relayRequestsByRequestId st) i = Some r \<longrightarrow> rr_requestId r = i) \<and>
     index_ok conv_key (relayRequestsByRequestId st) (relayRequestIdsByConversation st) \<and>
     index_ok consumer_key (relayRequestsByRequestId st) (relayRequestIdsByConsumer st) \<and>
     index_ok agent_key (relayRequestsByRequestId st) (relayRequestIdsByAgent st)"

definition reservations_ok :: "relay_registry \<Rightarrow> bool" where
  "reservations_ok st \<longleftrightarrow> jm_wf (reservations st) \<and>
     (\<forall>tok r. jm_get (reservations st) tok = Some r \<longrightarrow> tok < nextReservation st)"

definition counters_ok :: "relay_registry \<Rightarrow> bool" where
  "counters_ok st \<longleftrightarrow> cnt_wf (relayPendingCountByConversation st) \<and>
     cnt_wf (relayPendingCountByConsumer st) \<and>
     relayReservedGlobalCount st = held_count (reservations st) \<and>
     (\<forall>c. cnt_get (relayPendingCountByConversation st) c =
        attr_count conv_key (relayRequestsByRequestId st) c + attr_count held_conv (reservations st) c) \<and>
     (\<forall>c. cnt_get (relayPendingCountByConsumer st) c =
        attr_count consumer_key (relayRequestsByRequestId st) c +
        attr_count held_consumer (reservations st) c)"

definition relay_inv :: "relay_registry \<Rightarrow> bool" where
  "relay_inv st \<longleftrightarrow> indexes_ok st \<and> reservations_ok st \<and> counters_ok st"

definition pending_within :: "relay_env \<Rightarrow> relay_registry \<Rightarrow> bool" where
  "pending_within env st \<longleftrightarrow>
     getRelayEffectivePendingCount st \<le> max 0 (socketRelayMaxPendingRequests env) \<and>
     (\<forall>c. getRelayPendingRequestCountForConversation c st
            \<le> max 0 (socketRelayMaxPendingRequestsPerConversation env)) \<and>
     (\<forall>c. getRelayPendingRequestCountForConsumer c st
            \<le> max 0 (socketRelayMaxPendingRequestsPerConsumer env))"

lemma held_count_set:
  "held_count (jm_set tok r rs) = held_count rs
     - (case jm_get rs tok of None \<Rightarrow> 0 | Some q \<Rightarrow> if held q then 1 else 0) + (if held r then 1 else 0)"
  by (simp add: held_count_def jm_sum_set)

lemma held_count_pos:
  assumes "jm_wf rs" "jm_get rs tok = Some r" "held r"
  shows "1 \<le> held_count rs"
  using jm_sum_ge_one[of rs "\<lambda>r. if held r then 1 else 0" tok r] assms by (simp add: held_count_def)

lemma relay_inv_new: "relay_inv new_relay_registry"
  by (simp add: relay_inv_def indexes_ok_def reservations_ok_def counters_ok_def new_relay_registry_def
      held_count_def)

lemma pending_within_new: "pending_within env new_relay_registry"
  by (simp add: pending_within_def new_relay_registry_def getRelayEffectivePendingCount_def
      getRelayPendingRequestCountForConversation_def getRelayPendingRequestCountForConsumer_def)

subsection \<open>Reserving and releasing\<close>

lemma reserve_cases:
  "snd (reserveRelayPendingSlot env cid sid st) = st \<or>
   getRelayEffectivePendingCount st < socketRelayMaxPendingRequests env \<and>
   getRelayPendingRequestCountForConversation cid st < socketRelayMaxPendingRequestsPerConversation env \<and>
   getRelayPendingRequestCountForConsumer sid st < socketRelayMaxPendingRequestsPerConsumer env"
  by (auto simp: reserveRelayPendingSlot_def)

lemma relay_inv_reserve:
  assumes "relay_inv st"
  shows "relay_inv (snd (reserveRelayPendingSlot env cid sid st))"
proof -
  have "jm_get (reservations st) (nextReservation st) = None"
    using assms by (cases "jm_get (reservations st) (nextReservation st)")
      (auto simp: relay_inv_def reservations_ok_def)
  moreover have "held \<lparr>rs_conversationId = cid, rs_consumerSocketId = sid, rs_released = False,
      rs_consumed = False\<rparr>" by (simp add: held_def)
  ultimately show ?thesis
    using assms
    by (auto simp: relay_inv_def indexes_ok_def reservations_ok_def counters_ok_def less_Suc_eq
        reserveRelayPendingSlot_def held_count_set attr_count_set held_conv_def held_consumer_def)
qed

lemma pending_within_reserve:
  "pending_within env st \<Longrightarrow> pending_within env (snd (reserveRelayPendingSlot env cid sid st))"
  by (auto simp: pending_within_def reserveRelayPendingSlot_def getRelayEffectivePendingCount_def
      getRelayPendingRequestCountForConversation_def getRelayPendingRequestCountForConsumer_def)

text \<open>A held reservation is counted in all three totals: none of the source's clamps at zero acts.\<close>

lemma held_counted:
  assumes "relay_inv st" "jm_get (reservations st) tok = Some r" "held r"
  shows "1 \<le> relayReservedGlobalCount st"
    and "1 \<le> cnt_get (relayPendingCountByConversation st) (rs_conversationId r)"
    and "1 \<le> cnt_get (relayPendingCountByConsumer st) (rs_consumerSocketId r)"
proof -
  have wf: "jm_wf (reservations st)" "jm_wf (relayRequestsByRequestId st)"
    using assms(1) by (auto simp: relay_inv_def reservations_ok_def indexes_ok_def)
  have c: "counters_ok st" using assms(1) by (simp add: relay_inv_def)
  show "1 \<le> relayReservedGlobalCount st"
    using held_count_pos[OF wf(1) assms(2,3)] c by (simp add: counters_ok_def)
  show "1 \<le> cnt_get (relayPendingCountByConversation st) (rs_conversationId r)"
    using attr_count_pos[OF wf(1) assms(2), of held_conv] attr_count_nonneg[OF wf(2)] c assms(3)
    by (force simp: counters_ok_def held_conv_def intro: add_increasing)
  show "1 \<le> cnt_get (relayPendingCountByConsumer st) (rs_consumerSocketId r)"
    using attr_count_pos[OF wf(1) assms(2), of held_consumer] attr_count_nonneg[OF wf(2)] c assms(3)
    by (force simp: counters_ok_def held_consumer_def intro: add_increasing)
qed

lemma relay_inv_release:
  assumes "relay_inv st" "jm_get (reservations st) tok = Some r" "\<not> rs_consumed r"
  shows "relay_inv (releaseReservation tok st)"
proof (cases "rs_released r")
  case True
  then show ?thesis using assms by (simp add: releaseReservation_def)
next
  case False
  then have h: "held r" and nh: "\<not> held (r\<lparr>rs_released := True\<rparr>)"
    using assms(3) by (auto simp: held_def)
  note pos = held_counted[OF assms(1,2) h]
  show ?thesis
    using assms False h nh pos
    by (auto simp: relay_inv_def indexes_ok_def reservations_ok_def counters_ok_def
        releaseReservation_def held_count_set attr_count_set held_conv_def held_consumer_def)
qed

lemma relay_inv_finally: "relay_inv st \<Longrightarrow> relay_inv (dispatch_finally tok st)"
  by (auto simp: dispatch_finally_def relay_inv_release split: option.splits)

lemma pending_within_mono:
  assumes "pending_within env st"
    and "getRelayEffectivePendingCount st' \<le> getRelayEffectivePendingCount st"
    and "\<And>c. getRelayPendingRequestCountForConversation c st' \<le> getRelayPendingRequestCountForConversation c st"
    and "\<And>c. getRelayPendingRequestCountForConsumer c st' \<le> getRelayPendingRequestCountForConsumer c st"
  shows "pending_within env st'"
  using assms unfolding pending_within_def by (meson order_trans)

lemma cnt_get_decrement_le: "cnt_wf c \<Longrightarrow> cnt_get (decrementCounter c k) k' \<le> cnt_get c k'"
  using cnt_wf_nonneg[of c k] by auto

lemmas pending_defs = getRelayEffectivePendingCount_def getRelayPendingRequestCountForConversation_def
  getRelayPendingRequestCountForConsumer_def

lemma relay_inv_cnt_wf:
  assumes "relay_inv st"
  shows "cnt_wf (relayPendingCountByConversation st)" "cnt_wf (relayPendingCountByConsumer st)"
  using assms by (auto simp: relay_inv_def counters_ok_def)

lemma pending_within_finally:
  assumes "relay_inv st" "pending_within env st"
  shows "pending_within env (dispatch_finally tok st)"
proof (rule pending_within_mono[OF assms(2)])
  show "getRelayEffectivePendingCount (dispatch_finally tok st) \<le> getRelayEffectivePendingCount st"
    using held_counted(1)[OF assms(1), of tok]
    by (auto simp: dispatch_finally_def releaseReservation_def held_def pending_defs split: option.splits)
qed (auto simp: dispatch_finally_def releaseReservation_def pending_defs
    cnt_get_decrement_le relay_inv_cnt_wf[OF assms(1)] simp del: cnt_get_decrement split: option.splits)

subsection \<open>Registering, settling and removing\<close>

lemma remove_route_eqs:
  assumes "jm_get (relayRequestsByRequestId st) i = Some route"
  shows "relayRequestsByRequestId (snd (snd (removeRelayRequestRoute i st))) =
           jm_del i (relayRequestsByRequestId st)"
    and "fst (snd (removeRelayRequestRoute i st)) = route_cleanup route @ [ClearRelayStreamFlowState i]"
  using assms by (simp_all add: removeRelayRequestRoute_def)

lemma remove_reservations [simp]:
  "reservations (snd (snd (removeRelayRequestRoute i st))) = reservations st"
  by (simp add: removeRelayRequestRoute_def split: option.splits)

lemma remove_route_absent:
  "jm_get (relayRequestsByRequestId st) i = None \<Longrightarrow>
     removeRelayRequestRoute i st = (None, [ClearRelayStreamFlowState i], st)"
  by (simp add: removeRelayRequestRoute_def)

lemma route_counted:
  assumes "relay_inv st" "jm_get (relayRequestsByRequestId st) i = Some r"
  shows "1 \<le> cnt_get (relayPendingCountByConversation st) (rr_conversationId r)"
    and "1 \<le> cnt_get (relayPendingCountByConsumer st) (rr_consumerSocketId r)"
proof -
  have wf: "jm_wf (reservations st)" "jm_wf (relayRequestsByRequestId st)"
    using assms(1) by (auto simp: relay_inv_def reservations_ok_def indexes_ok_def)
  have c: "counters_ok st" using assms(1) by (simp add: relay_inv_def)
  show "1 \<le> cnt_get (relayPendingCountByConversation st) (rr_conversationId r)"
    using attr_count_pos[OF wf(2) assms(2), of conv_key] attr_count_nonneg[OF wf(1)] c
    by (force simp: counters_ok_def intro: add_increasing2)
  show "1 \<le> cnt_get (relayPendingCountByConsumer st) (rr_consumerSocketId r)"
    using attr_count_pos[OF wf(2) assms(2), of consumer_key] attr_count_nonneg[OF wf(1)] c
    by (force simp: counters_ok_def intro: add_increasing2)
qed

lemma relay_inv_remove:
  assumes "relay_inv st"
  shows "relay_inv (snd (snd (removeRelayRequestRoute i st)))"
proof (cases "jm_get (relayRequestsByRequestId st) i")
  case None
  then show ?thesis using assms by (simp add: remove_route_absent)
next
  case (Some r)
  have ix: "indexes_ok st" and co: "counters_ok st" and rs: "reservations_ok st"
    using assms by (auto simp: relay_inv_def)
  have "indexes_ok (snd (snd (removeRelayRequestRoute i st)))"
    using ix Some by (auto simp: indexes_ok_def removeRelayRequestRoute_def intro!: index_ok_remove)
  moreover have "counters_ok (snd (snd (removeRelayRequestRoute i st)))"
    using co Some route_counted[OF assms Some] ix
    by (auto simp: counters_ok_def removeRelayRequestRoute_def attr_count_del indexes_ok_def)
  moreover have "reservations_ok (snd (snd (removeRelayRequestRoute i st)))"
    using rs Some by (simp add: reservations_ok_def removeRelayRequestRoute_def)
  ultimately show ?thesis by (simp add: relay_inv_def)
qed

lemma pending_within_remove:
  assumes "relay_inv st" "pending_within env st"
  shows "pending_within env (snd (snd (removeRelayRequestRoute i st)))"
proof (rule pending_within_mono[OF assms(2)])
  show "getRelayEffectivePendingCount (snd (snd (removeRelayRequestRoute i st)))
      \<le> getRelayEffectivePendingCount st"
    using assms(1) by (auto simp: removeRelayRequestRoute_def pending_defs jm_size_del relay_inv_def
        indexes_ok_def split: option.splits)
qed (auto simp: removeRelayRequestRoute_def pending_defs cnt_get_decrement_le
    relay_inv_cnt_wf[OF assms(1)] simp del: cnt_get_decrement split: option.splits)

text \<open>The registry that \<open>registerRelayRequestRoute\<close> writes into: a previous route of that id is gone.\<close>

definition without_route :: "string \<Rightarrow> relay_registry \<Rightarrow> relay_registry" where
  "without_route i st =
     (if jm_has (relayRequestsByRequestId st) i then snd (snd (removeRelayRequestRoute i st)) else st)"

lemma without_route_simps [simp]:
  "jm_get (relayRequestsByRequestId (without_route i st)) j =
     (if j = i then None else jm_get (relayRequestsByRequestId st) j)"
  "reservations (without_route i st) = reservations st"
  by (auto simp: without_route_def removeRelayRequestRoute_def split: option.splits)

lemma relay_inv_without: "relay_inv st \<Longrightarrow> relay_inv (without_route i st)"
  by (simp add: without_route_def relay_inv_remove)

lemma pending_within_without:
  "relay_inv st \<Longrightarrow> pending_within env st \<Longrightarrow> pending_within env (without_route i st)"
  by (simp add: without_route_def pending_within_remove)

text \<open>\<open>dispatch_register\<close> on a held reservation, as one update of \<open>without_route\<close>.\<close>

lemma dispatch_register_held:
  assumes "jm_get (reservations st) tok = Some r" "held r"
    and "relayRoute = route\<lparr>rr_conversationId := rs_conversationId r, rr_consumerSocketId := rs_consumerSocketId r\<rparr>"
  shows "dispatch_register tok route st =
    (let st1 = without_route (rr_requestId route) st
     in (Some relayRoute,
         (if jm_has (relayRequestsByRequestId st) (rr_requestId route)
          then fst (snd (removeRelayRequestRoute (rr_requestId route) st)) else []),
         st1\<lparr>relayRequestsByRequestId := jm_set (rr_requestId route) relayRoute (relayRequestsByRequestId st1),
             relayReservedGlobalCount := max 0 (relayReservedGlobalCount st1 - 1),
             relayRequestIdsByConversation :=
               addIndexValue (relayRequestIdsByConversation st1) (rs_conversationId r) (rr_requestId route),
             relayRequestIdsByConsumer :=
               addIndexValue (relayRequestIdsByConsumer st1) (rs_consumerSocketId r) (rr_requestId route),
             relayRequestIdsByAgent :=
               addIndexValue (relayRequestIdsByAgent st1) (rr_agentSocketId route) (rr_requestId route),
             reservations := jm_set tok (r\<lparr>rs_consumed := True\<rparr>) (reservations st)\<rparr>))"
  using assms
  by (simp add: dispatch_register_def registerRelayRequestRoute_def held_def Let_def without_route_def
      case_prod_beta)

lemma dispatch_register_not_held:
  "\<not> (\<exists>r. jm_get (reservations st) tok = Some r \<and> held r) \<Longrightarrow> dispatch_register tok route st = (None, [], st)"
  by (auto simp: dispatch_register_def held_def split: option.splits)

lemma relay_inv_register_held:
  assumes "relay_inv st" "jm_get (reservations st) tok = Some r" "held r"
  shows "relay_inv (snd (snd (dispatch_register tok route st)))"
proof -
  define st1 where "st1 = without_route (rr_requestId route) st"
  have inv: "relay_inv st1" unfolding st1_def by (rule relay_inv_without[OF assms(1)])
  have rs: "reservations st1 = reservations st" by (simp add: st1_def)
  have fresh: "jm_get (relayRequestsByRequestId st1) (rr_requestId route) = None" by (simp add: st1_def)
  have pos: "1 \<le> relayReservedGlobalCount st1"
    by (rule held_counted(1)[OF inv _ assms(3)]) (use assms(2) rs in simp)
  have nh: "\<not> held (r\<lparr>rs_consumed := True\<rparr>)" by (simp add: held_def)
  have "indexes_ok st1" "counters_ok st1" "reservations_ok st1"
    using inv by (auto simp: relay_inv_def)
  then show ?thesis
    using assms(2,3) fresh pos nh
    unfolding dispatch_register_held[OF assms(2,3) refl] Let_def st1_def[symmetric]
    by (auto simp: relay_inv_def indexes_ok_def counters_ok_def reservations_ok_def rs[symmetric]
        held_count_set attr_count_set held_conv_def held_consumer_def intro!: index_ok_add)
qed

lemma relay_inv_register: "relay_inv st \<Longrightarrow> relay_inv (snd (snd (dispatch_register tok route st)))"
  using relay_inv_register_held dispatch_register_not_held by (metis snd_conv)

lemma pending_within_register:
  assumes "relay_inv st" "pending_within env st"
  shows "pending_within env (snd (snd (dispatch_register tok route st)))"
proof (cases "\<exists>r. jm_get (reservations st) tok = Some r \<and> held r")
  case True
  then obtain r where r: "jm_get (reservations st) tok = Some r" "held r" by auto
  define st1 where "st1 = without_route (rr_requestId route) st"
  have inv: "relay_inv st1" "pending_within env st1"
    unfolding st1_def by (auto simp: relay_inv_without pending_within_without assms)
  have "1 \<le> relayReservedGlobalCount st1"
    using held_counted(1)[OF inv(1), of tok r] r by (simp add: st1_def)
  moreover have "jm_get (relayRequestsByRequestId st1) (rr_requestId route) = None" by (simp add: st1_def)
  ultimately show ?thesis
    using inv(2) unfolding dispatch_register_held[OF r refl] Let_def st1_def[symmetric]
    by (intro pending_within_mono[OF inv(2)]) (auto simp: pending_defs jm_size_set)
next
  case False
  then show ?thesis using assms(2) dispatch_register_not_held[OF False] by simp
qed

text \<open>Replacing a registered route by one that differs in its flags only.\<close>

lemma relay_inv_flags:
  assumes "relay_inv st" "jm_get (relayRequestsByRequestId st) i = Some r"
    and "rr_requestId r' = rr_requestId r" "rr_conversationId r' = rr_conversationId r"
      "rr_consumerSocketId r' = rr_consumerSocketId r" "rr_agentSocketId r' = rr_agentSocketId r"
  shows "relay_inv (st\<lparr>relayRequestsByRequestId := jm_set i r' (relayRequestsByRequestId st)\<rparr>)"
    and "pending_within env st \<Longrightarrow>
      pending_within env (st\<lparr>relayRequestsByRequestId := jm_set i r' (relayRequestsByRequestId st)\<rparr>)"
  using assms
  by (auto simp: relay_inv_def indexes_ok_def reservations_ok_def counters_ok_def attr_count_set
      pending_within_def pending_defs jm_size_set intro!: index_ok_update)

lemma settled_again: "rr_settled r \<Longrightarrow> r\<lparr>rr_settled := True\<rparr> = r"
  by (cases r) simp

lemma settle_registered_eqs:
  "settle_registered i st =
     (case jm_get (relayRequestsByRequestId st) i of
        None \<Rightarrow> (False, st)
      | Some r \<Rightarrow> (\<not> rr_settled r,
          st\<lparr>relayRequestsByRequestId :=
               jm_set i (r\<lparr>rr_settled := True\<rparr>) (relayRequestsByRequestId st)\<rparr>))"
  by (auto simp: settle_registered_def getRelayRequestRoute_def trySettleRelayRoute_def settled_again
      split: option.splits)

text \<open>The timeout callback, as the removal of the route marked settled and timed out.\<close>

lemma relay_timeout_eqs:
  "relay_timeout_fired i st =
     (case jm_get (relayRequestsByRequestId st) i of
        None \<Rightarrow> (False, [], st)
      | Some r \<Rightarrow>
          if rr_settled r then (False, [], st)
          else (True, snd (removeRelayRequestRoute i
            (st\<lparr>relayRequestsByRequestId :=
                 jm_set i (r\<lparr>rr_settled := True, rr_timedOut := True\<rparr>) (relayRequestsByRequestId st)\<rparr>))))"
  by (auto simp: relay_timeout_fired_def getRelayRequestRoute_def trySettleRelayRoute_def case_prod_beta
      split: option.splits)

lemma relay_inv_settle:
  assumes "relay_inv st" "pending_within env st"
  shows "relay_inv (snd (settle_registered i st)) \<and> pending_within env (snd (settle_registered i st))"
  using assms by (auto simp: settle_registered_eqs relay_inv_flags split: option.splits)

lemma relay_inv_timeout:
  assumes "relay_inv st" "pending_within env st"
  shows "relay_inv (snd (snd (relay_timeout_fired i st))) \<and>
    pending_within env (snd (snd (relay_timeout_fired i st)))"
  using assms
  by (auto simp: relay_timeout_eqs relay_inv_flags relay_inv_remove pending_within_remove split: option.splits)

lemma relay_exec_snd:
  "snd (relay_exec env op st) =
     (case op of
        OpReserve cid sid \<Rightarrow> snd (reserveRelayPendingSlot env cid sid st)
      | OpRegister tok route \<Rightarrow> snd (snd (dispatch_register tok route st))
      | OpFinally tok \<Rightarrow> dispatch_finally tok st
      | OpSettle i \<Rightarrow> snd (settle_registered i st)
      | OpTimeout i \<Rightarrow> snd (snd (relay_timeout_fired i st))
      | OpRemove i \<Rightarrow> snd (snd (removeRelayRequestRoute i st)))"
  by (simp add: relay_exec_def case_prod_beta split: relay_op.splits)

lemma relay_exec_inv:
  assumes "relay_inv st" "pending_within env st"
  shows "relay_inv (snd (relay_exec env op st)) \<and> pending_within env (snd (relay_exec env op st))"
  using assms relay_inv_settle[OF assms] relay_inv_timeout[OF assms]
  by (cases op) (simp_all add: relay_exec_snd relay_inv_reserve pending_within_reserve relay_inv_register
      pending_within_register relay_inv_finally pending_within_finally relay_inv_remove pending_within_remove)

inductive relay_step :: "relay_env \<Rightarrow> relay_registry \<Rightarrow> relay_registry \<Rightarrow> bool" for env where
  relay_op: "relay_step env st (snd (relay_exec env op st))"

inductive_cases relay_stepE: "relay_step env st st'"

interpretation relay: invariant_system new_relay_registry "relay_step env"
  "\<lambda>st. relay_inv st \<and> pending_within env st" for env
proof
  show "relay_inv new_relay_registry \<and> pending_within env new_relay_registry"
    using relay_inv_new pending_within_new by blast
next
  fix s t assume "relay_inv s \<and> pending_within env s" "relay_step env s t"
  then show "relay_inv t \<and> pending_within env t"
    using relay_exec_inv by (auto elim!: relay_stepE)
qed

section \<open>Runs: what is released and what is delivered\<close>

lemma relay_run_snoc:
  "relay_run env (ops @ [op]) st =
     (fst (relay_run env ops st) @ [fst (relay_exec env op (snd (relay_run env ops st)))],
      snd (relay_exec env op (snd (relay_run env ops st))))"
  by (induction ops arbitrary: st) (simp_all add: case_prod_beta Let_def)

lemma relay_run_reachable: "reachable new_relay_registry (relay_step env) (snd (relay_run env ops new_relay_registry))"
  by (induction ops rule: rev_induct)
    (auto simp: relay_run_snoc intro: reach_init reachable.reach_step relay_op)

definition released_in :: "nat \<Rightarrow> relay_out \<Rightarrow> int" where
  "released_in slot out = int (count_list (out_effects out) (ReleaseAgentDispatchSlot slot))"

definition acquired_in :: "nat \<Rightarrow> relay_out \<Rightarrow> int" where
  "acquired_in slot out =
     (case out_registered out of None \<Rightarrow> 0
      | Some r \<Rightarrow> if rr_releaseAgentDispatchSlot r = Some slot then 1 else 0)"

definition won_in :: "string \<Rightarrow> relay_out \<Rightarrow> int" where
  "won_in i out = (if out_won out = Some i then 1 else 0)"

definition registered_in :: "string \<Rightarrow> relay_out \<Rightarrow> int" where
  "registered_in i out =
     (case out_registered out of None \<Rightarrow> 0 | Some r \<Rightarrow> if rr_requestId r = i then 1 else 0)"

definition total :: "(relay_out \<Rightarrow> int) \<Rightarrow> relay_out list \<Rightarrow> int" where
  "total f outs = sum_list (map f outs)"

lemma total_simps [simp]: "total f [] = 0" "total f (outs @ [out]) = total f outs + f out"
  by (simp_all add: total_def)

text \<open>The slots held by registered routes.\<close>

abbreviation slots_held :: "nat \<Rightarrow> relay_registry \<Rightarrow> int" where
  "slots_held slot st \<equiv> attr_count rr_releaseAgentDispatchSlot (relayRequestsByRequestId st) slot"

lemma count_cleanup:
  "count_list (route_cleanup r) (ReleaseAgentDispatchSlot slot) =
     (if rr_releaseAgentDispatchSlot r = Some slot then 1 else 0)"
proof -
  have "count_list ((case x of None \<Rightarrow> [] | Some t \<Rightarrow> [ClearTimer t]) @
     (if b then (case y of None \<Rightarrow> [] | Some c \<Rightarrow> [CancelReadWait c]) else []) @
     [ClearTimer h] @
     (case z of None \<Rightarrow> [] | Some s \<Rightarrow> [ReleaseAgentDispatchSlot s])) (ReleaseAgentDispatchSlot slot) =
     (if z = Some slot then 1 else 0)" for x y z b h
    by (cases x; cases y; cases z; cases b) (simp_all add: count_list_append)
  then show ?thesis unfolding route_cleanup_def .
qed
lemma remove_slots:
  assumes "relay_inv st"
  shows "int (count_list (fst (snd (removeRelayRequestRoute i st))) (ReleaseAgentDispatchSlot slot)) +
    slots_held slot (snd (snd (removeRelayRequestRoute i st))) = slots_held slot st"
  using assms
  by (auto simp: removeRelayRequestRoute_def count_cleanup attr_count_del relay_inv_def indexes_ok_def
      split: option.splits)

lemma register_slots:
  assumes "relay_inv st"
  shows "int (count_list (fst (snd (dispatch_register tok route st))) (ReleaseAgentDispatchSlot slot)) +
      slots_held slot (snd (snd (dispatch_register tok route st))) =
    slots_held slot st + (case fst (dispatch_register tok route st) of None \<Rightarrow> 0
      | Some r \<Rightarrow> if rr_releaseAgentDispatchSlot r = Some slot then 1 else 0)"
proof (cases "\<exists>r. jm_get (reservations st) tok = Some r \<and> held r")
  case True
  then obtain r where r: "jm_get (reservations st) tok = Some r" "held r" by auto
  have fresh: "jm_get (relayRequestsByRequestId (without_route (rr_requestId route) st))
      (rr_requestId route) = None" by simp
  show ?thesis
    using fresh remove_slots[OF assms, of "rr_requestId route" slot]
    unfolding dispatch_register_held[OF r refl] Let_def
    by (auto simp: attr_count_set without_route_def)
next
  case False
  then show ?thesis by (simp add: dispatch_register_not_held)
qed

lemma exec_slots:
  assumes "relay_inv st"
  shows "released_in slot (fst (relay_exec env op st)) + slots_held slot (snd (relay_exec env op st)) =
    slots_held slot st + acquired_in slot (fst (relay_exec env op st))"
proof (cases op)
  case (OpRegister tok route)
  then show ?thesis using register_slots[OF assms]
    by (simp add: relay_exec_def released_in_def acquired_in_def quiet_def case_prod_beta)
next
  case (OpTimeout i)
  have "relay_inv (st\<lparr>relayRequestsByRequestId := jm_set i (r\<lparr>rr_settled := True, rr_timedOut := True\<rparr>)
      (relayRequestsByRequestId st)\<rparr>)" if "jm_get (relayRequestsByRequestId st) i = Some r" for r
    using that assms by (intro relay_inv_flags) auto
  from remove_slots[OF this, of _ i slot] show ?thesis
    by (auto simp: OpTimeout relay_exec_def relay_timeout_eqs released_in_def acquired_in_def quiet_def
        case_prod_beta attr_count_set split: option.splits)
next
  case (OpRemove i)
  then show ?thesis using remove_slots[OF assms]
    by (simp add: relay_exec_def released_in_def acquired_in_def quiet_def case_prod_beta)
qed (auto simp: relay_exec_def released_in_def acquired_in_def quiet_def case_prod_beta
    reserveRelayPendingSlot_def dispatch_finally_def releaseReservation_def settle_registered_eqs
    attr_count_set split: option.splits)

definition unsettled_route :: "string \<Rightarrow> relay_registry \<Rightarrow> int" where
  "unsettled_route i st =
     (case getRelayRequestRoute i st of None \<Rightarrow> 0 | Some r \<Rightarrow> if rr_settled r then 0 else 1)"

lemma exec_settlement:
  "won_in i (fst (relay_exec env op st)) + unsettled_route i (snd (relay_exec env op st)) \<le>
     unsettled_route i st + registered_in i (fst (relay_exec env op st))"
proof (cases op)
  case (OpRegister tok route)
  show ?thesis
  proof (cases "\<exists>r. jm_get (reservations st) tok = Some r \<and> held r")
    case True
    then obtain r where r: "jm_get (reservations st) tok = Some r" "held r" by auto
    show ?thesis
      by (auto simp: OpRegister relay_exec_def dispatch_register_held[OF r refl] Let_def won_in_def
          registered_in_def unsettled_route_def getRelayRequestRoute_def quiet_def split: option.splits)
  next
    case False
    then show ?thesis by (simp add: OpRegister relay_exec_def dispatch_register_not_held won_in_def
        registered_in_def quiet_def)
  qed
qed (auto simp: relay_exec_def won_in_def registered_in_def quiet_def case_prod_beta
    reserveRelayPendingSlot_def dispatch_finally_def releaseReservation_def settle_registered_eqs
    relay_timeout_eqs removeRelayRequestRoute_def unsettled_route_def getRelayRequestRoute_def
    split: option.splits)

lemma run_conservation:
  "total (released_in slot) (fst (relay_run env ops new_relay_registry)) +
     slots_held slot (snd (relay_run env ops new_relay_registry)) =
     total (acquired_in slot) (fst (relay_run env ops new_relay_registry))"
proof (induction ops rule: rev_induct)
  case Nil
  show ?case by (simp add: new_relay_registry_def)
next
  case (snoc op ops)
  have "relay_inv (snd (relay_run env ops new_relay_registry))"
    using relay.inv_reachable[OF relay_run_reachable] by blast
  from exec_slots[OF this, of slot env op] snoc show ?case by (simp add: relay_run_snoc)
qed

lemma run_settlement:
  "total (won_in i) (fst (relay_run env ops new_relay_registry)) +
     unsettled_route i (snd (relay_run env ops new_relay_registry)) \<le>
     total (registered_in i) (fst (relay_run env ops new_relay_registry))"
proof (induction ops rule: rev_induct)
  case Nil
  show ?case by (simp add: unsettled_route_def getRelayRequestRoute_def new_relay_registry_def)
next
  case (snoc op ops)
  then show ?case using exec_settlement[of i env op "snd (relay_run env ops new_relay_registry)"]
    by (simp add: relay_run_snoc)
qed

section \<open>Properties\<close>

text \<open>C1: the pending counters are exact and the caps hold. After any run of reservations, route
  registrations, \<^verbatim>\<open>finally\<close> blocks, settlements, timeouts and removals, the counter of every
  conversation and of every consumer equals its registered routes plus the reservations still held,
  the global effective count equals all routes plus all held reservations, and none of the three
  exceeds its configured maximum; the listing for an agent socket is exactly its routes.\<close>

theorem relay_pending_accounting:
  assumes "reachable new_relay_registry (relay_step env) st"
  shows "getRelayPendingRequestCountForConversation c st =
      attr_count conv_key (relayRequestsByRequestId st) c + attr_count held_conv (reservations st) c \<and>
    getRelayPendingRequestCountForConsumer s st =
      attr_count consumer_key (relayRequestsByRequestId st) s + attr_count held_consumer (reservations st) s \<and>
    getRelayEffectivePendingCount st = jm_size (relayRequestsByRequestId st) + held_count (reservations st) \<and>
    getRelayEffectivePendingCount st \<le> max 0 (socketRelayMaxPendingRequests env) \<and>
    getRelayPendingRequestCountForConversation c st
      \<le> max 0 (socketRelayMaxPendingRequestsPerConversation env) \<and>
    getRelayPendingRequestCountForConsumer s st \<le> max 0 (socketRelayMaxPendingRequestsPerConsumer env) \<and>
    set (listRelayRequestIdsForAgent a st) =
      {i. \<exists>r. getRelayRequestRoute i st = Some r \<and> rr_agentSocketId r = a}"
proof -
  have inv: "relay_inv st" and caps: "pending_within env st"
    using relay.inv_reachable[OF assms] by auto
  have "set (listRelayRequestIdsForAgent a st) =
      {i. \<exists>r. getRelayRequestRoute i st = Some r \<and> rr_agentSocketId r = a}"
    using inv by (auto simp: relay_inv_def indexes_ok_def index_ok_mem listRelayRequestIdsForAgent_def
        getRelayRequestRoute_def)
  then show ?thesis
    using inv caps by (auto simp: relay_inv_def counters_ok_def pending_within_def pending_defs)
qed

definition sample_env :: relay_env where
  "sample_env = \<lparr>socketRelayMaxPendingRequests = 10, socketRelayMaxPendingRequestsPerConversation = 1,
     socketRelayMaxPendingRequestsPerConsumer = 5\<rparr>"

definition sample_route :: relay_route where
  "sample_route = \<lparr>rr_requestId = ''r1'', rr_conversationId = ''c1'', rr_consumerSocketId = ''s1'',
     rr_agentSocketId = ''a1'', rr_agentId = ''ag'', rr_cancelReadWait = Some 1, rr_timeoutHandle = 2,
     rr_releaseAgentDispatchSlot = Some 3, rr_ackRetryTimer = Some 4, rr_timedOut = False,
     rr_settled = False\<rparr>"

definition sample_ops :: "relay_op list" where
  "sample_ops = [OpReserve ''c1'' ''s1'', OpReserve ''c1'' ''s1'', OpRegister 0 sample_route, OpFinally 0]"

theorem relay_pending_accounting_witness:
  "reachable new_relay_registry (relay_step sample_env)
      (snd (relay_run sample_env sample_ops new_relay_registry)) \<and>
   getRelayPendingRequestCountForConversation ''c1''
      (snd (relay_run sample_env sample_ops new_relay_registry)) = 1 \<and>
   set (listRelayRequestIdsForAgent ''a1'' (snd (relay_run sample_env sample_ops new_relay_registry))) =
      {i. \<exists>r. getRelayRequestRoute i (snd (relay_run sample_env sample_ops new_relay_registry)) = Some r \<and>
        rr_agentSocketId r = ''a1''}"
proof -
  have v: "getRelayPendingRequestCountForConversation ''c1''
      (snd (relay_run sample_env sample_ops new_relay_registry)) = 1"
    by code_simp
  show ?thesis
    using relay_pending_accounting[OF relay_run_reachable[of sample_env sample_ops], of "''c1''" "''s1''" "''a1''"]
      relay_run_reachable[of sample_env sample_ops] v
    by blast
qed

text \<open>C7: one terminal outcome per request, one release per dispatch slot. In every run from the empty
  registry, the number of times a response path or the timeout wins the settlement of a request
  id never exceeds the number of routes registered under it (so a request registered once is
  answered at most once, whatever the race between response, synthetic error and timeout), and
  every agent dispatch slot that registered routes acquired was either released by a clean-up or is
  still held by a registered route: no slot is lost and none is released twice.\<close>

theorem relay_settlement_and_slot_conservation:
  "total (won_in i) (fst (relay_run env ops new_relay_registry)) \<le>
     total (registered_in i) (fst (relay_run env ops new_relay_registry)) \<and>
   total (released_in slot) (fst (relay_run env ops new_relay_registry)) =
     total (acquired_in slot) (fst (relay_run env ops new_relay_registry)) -
     attr_count rr_releaseAgentDispatchSlot
       (relayRequestsByRequestId (snd (relay_run env ops new_relay_registry))) slot"
proof -
  have "0 \<le> unsettled_route i (snd (relay_run env ops new_relay_registry))"
    by (simp add: unsettled_route_def split: option.splits)
  then show ?thesis
    using run_settlement[of i env ops] run_conservation[of slot env ops] by linarith
qed

text \<open>sweeping tombstones is invisible. Whatever sweep ran before (at an earlier or equal time), the
  question whether a late response belongs to a request that timed out within the retention
  period has the same answer as on the unswept tombstones, and after a sweep no tombstone
  older than the retention period is left.\<close>

theorem tombstone_sweep_transparent:
  assumes "jm_wf ts" "sweptAt \<le> nowMs"
  shows "noteRelayLateResponseIfTimedOut ttlMs ids nowMs (sweepRelayTimeoutTombstones ttlMs sweptAt ts) =
      noteRelayLateResponseIfTimedOut ttlMs ids nowMs ts \<and>
    (\<forall>i t. jm_get (sweepRelayTimeoutTombstones ttlMs sweptAt ts) i = Some t \<longrightarrow>
       sweptAt - tb_timedOutAtMs t \<le> ttlMs)"
proof -
  have g: "jm_get (sweepRelayTimeoutTombstones ttlMs sweptAt ts) i =
      (case jm_get ts i of None \<Rightarrow> None
       | Some t \<Rightarrow> if \<not> (sweptAt - tb_timedOutAtMs t > ttlMs) then Some t else None)" for i
    unfolding sweepRelayTimeoutTombstones_def by (rule jm_get_filter[OF assms(1)])
  have "noteRelayLateResponseIfTimedOut ttlMs ids nowMs (sweepRelayTimeoutTombstones ttlMs sweptAt ts) =
      noteRelayLateResponseIfTimedOut ttlMs ids nowMs ts"
    using assms(2) by (induction ids) (auto simp: g split: option.splits)
  moreover have "\<forall>i t. jm_get (sweepRelayTimeoutTombstones ttlMs sweptAt ts) i = Some t \<longrightarrow>
       sweptAt - tb_timedOutAtMs t \<le> ttlMs"
    by (auto simp: g split: option.splits if_splits)
  ultimately show ?thesis by blast
qed

theorem tombstone_sweep_transparent_witness:
  "noteRelayLateResponseIfTimedOut 10 [''x'', ''r1''] 15 (sweepRelayTimeoutTombstones 10 12
     (recordRelayTimeoutTombstone ''r1'' ''c1'' 5 (recordRelayTimeoutTombstone ''x'' ''c1'' 1 []))) \<and>
   sweepRelayTimeoutTombstones 10 12
     (recordRelayTimeoutTombstone ''r1'' ''c1'' 5 (recordRelayTimeoutTombstone ''x'' ''c1'' 1 [])) =
     recordRelayTimeoutTombstone ''r1'' ''c1'' 5 []"
proof -
  let ?ts = "recordRelayTimeoutTombstone ''r1'' ''c1'' 5 (recordRelayTimeoutTombstone ''x'' ''c1'' 1 [])"
  have "jm_wf ?ts" by (simp add: recordRelayTimeoutTombstone_def)
  moreover have "noteRelayLateResponseIfTimedOut 10 [''x'', ''r1''] 15 ?ts"
    "sweepRelayTimeoutTombstones 10 12 ?ts = recordRelayTimeoutTombstone ''r1'' ''c1'' 5 []"
    by code_simp+
  ultimately show ?thesis
    using tombstone_sweep_transparent[of ?ts 12 15 10 "[''x'', ''r1'']"] by simp
qed

end
