(* ===== verification/Relay_Idempotency_Store.thy ===== *)
theory Relay_Idempotency_Store
  imports Relay_Request_Registry
begin

text \<open>
  \<^verbatim>\<open>src/presentation/socket/hub/registries/relay_idempotency_store.ts\<close>: the deduplication of relay
  requests by client request id, per conversation, with a cap per conversation and a global cap
  enforced by evicting completed entries in insertion order.

  The store is a map of maps. \<^verbatim>\<open>setRelayIdempotencyEntry\<close> obtains the map of its conversation once
  and keeps writing to that object, while \<^verbatim>\<open>evictGlobalOldestCompleted\<close> may meanwhile remove the
  object from the store; the object is the store's map of the conversation exactly as long as
  the key has not been removed (nothing re-adds it in between), and it is empty when removed.
  The model therefore writes the entry back only where the key is still present.
\<close>

record idem_entry =
  ie_requestId :: string
  ie_expiresAtMs :: int
  ie_responseFrame :: "string option"
  ie_pendingReplayConsumerSocketIds :: "string list option"

type_synonym idem_map = "(string, idem_entry) jsmap"

record idem_store =
  relayIdempotencyByConversation :: "(string, idem_map) jsmap"
  totalEntries :: int
  evictedPerConversationCap :: int
  evictedGlobalCap :: int
  prunedExpired :: int

datatype idem_error = PerConversationCapReached | GlobalIdempotencyCapReached

record idem_env =
  maxEntriesPerConversation :: int
  maxTotalEntries :: int

section \<open>Operations\<close>

definition new_idem_store :: idem_store where
  "new_idem_store = \<lparr>relayIdempotencyByConversation = [], totalEntries = 0,
     evictedPerConversationCap = 0, evictedGlobalCap = 0, prunedExpired = 0\<rparr>"

definition isCompletedIdempotencyEntry :: "idem_entry \<Rightarrow> bool" where
  "isCompletedIdempotencyEntry e \<longleftrightarrow> ie_responseFrame e \<noteq> None"

text \<open>The inner loop both evictions share: the first completed key in insertion order.\<close>

fun oldestCompleted :: "idem_map \<Rightarrow> string option" where
  "oldestCompleted [] = None"
| "oldestCompleted ((k, e) # es) =
     (if isCompletedIdempotencyEntry e then Some k else oldestCompleted es)"

fun evict_scan :: "(string, idem_map) jsmap \<Rightarrow> bool \<times> (string, idem_map) jsmap" where
  "evict_scan [] = (False, [])"
| "evict_scan ((cid, entries) # rest) =
     (case oldestCompleted entries of
        Some k \<Rightarrow>
          (let entries' = jm_del k entries
           in (True, if entries' = [] then rest else (cid, entries') # rest))
      | None \<Rightarrow>
          (let (evicted, rest') = evict_scan rest
           in (evicted, if entries = [] then rest' else (cid, entries) # rest')))"

definition evictGlobalOldestCompleted :: "idem_store \<Rightarrow> bool \<times> idem_store" where
  "evictGlobalOldestCompleted st =
     (let (evicted, convs) = evict_scan (relayIdempotencyByConversation st)
      in (evicted, st\<lparr>relayIdempotencyByConversation := convs,
                      totalEntries := (if evicted then totalEntries st - 1 else totalEntries st)\<rparr>))"

definition idem_expired :: "relay_registry \<Rightarrow> int \<Rightarrow> idem_entry \<Rightarrow> bool" where
  "idem_expired routes nowMs item \<longleftrightarrow>
     isCompletedIdempotencyEntry item \<and> ie_expiresAtMs item \<le> nowMs \<or>
     \<not> isCompletedIdempotencyEntry item \<and> ie_expiresAtMs item \<le> nowMs \<and>
       getRelayRequestRoute (ie_requestId item) routes = None"

fun prune_scan :: "relay_registry \<Rightarrow> int \<Rightarrow> (string, idem_map) jsmap \<Rightarrow> int \<times> (string, idem_map) jsmap" where
  "prune_scan routes nowMs [] = (0, [])"
| "prune_scan routes nowMs ((cid, entries) # rest) =
     (let kept = filter (\<lambda>(_, e). \<not> idem_expired routes nowMs e) entries;
          (n, rest') = prune_scan routes nowMs rest
      in (jm_size entries - jm_size kept + n, if kept = [] then rest' else (cid, kept) # rest'))"

definition pruneExpiredRelayIdempotencyEntries :: "relay_registry \<Rightarrow> int \<Rightarrow> idem_store \<Rightarrow> idem_store" where
  "pruneExpiredRelayIdempotencyEntries routes nowMs st =
     (let (pruned, convs) = prune_scan routes nowMs (relayIdempotencyByConversation st)
      in st\<lparr>relayIdempotencyByConversation := convs, totalEntries := totalEntries st - pruned,
            prunedExpired := (if pruned > 0 then prunedExpired st + pruned else prunedExpired st)\<rparr>)"

definition getOrCreateRelayIdempotencyMap :: "string \<Rightarrow> idem_store \<Rightarrow> idem_map \<times> idem_store" where
  "getOrCreateRelayIdempotencyMap cid st =
     (case jm_get (relayIdempotencyByConversation st) cid of
        Some existing \<Rightarrow> (existing, st)
      | None \<Rightarrow>
          ([], st\<lparr>relayIdempotencyByConversation := jm_set cid [] (relayIdempotencyByConversation st)\<rparr>))"

definition getRelayIdempotencyMap :: "string \<Rightarrow> idem_store \<Rightarrow> idem_map option" where
  "getRelayIdempotencyMap cid st = jm_get (relayIdempotencyByConversation st) cid"

lemma oldestCompleted_length:
  "oldestCompleted es = Some k \<Longrightarrow> length (jm_del k es) < length es"
proof (induction es)
  case (Cons p es)
  obtain a e where p: "p = (a, e)" by (cases p)
  have "length (jm_del k es) \<le> length es" by (simp add: jm_del_def length_delete_le)
  with Cons show ?case by (auto simp: p jm_del_unfold split: if_splits)
qed simp

text \<open>The per-conversation eviction loop: the number of evicted entries and the map that is left.\<close>

function evict_conversation :: "int \<Rightarrow> idem_map \<Rightarrow> int \<times> idem_map" where
  "evict_conversation perConvCap m =
     (if jm_size m \<ge> perConvCap then
        (case oldestCompleted m of
           None \<Rightarrow> (0, m)
         | Some k \<Rightarrow> (let (n, m') = evict_conversation perConvCap (jm_del k m) in (n + 1, m')))
      else (0, m))"
  by pat_completeness auto
termination
  by (relation "measure (\<lambda>(_, m). length m)") (auto simp: oldestCompleted_length)

definition completed_of :: "idem_map \<Rightarrow> nat" where
  "completed_of es = length (filter (\<lambda>p. isCompletedIdempotencyEntry (snd p)) es)"

definition completed_total :: "(string, idem_map) jsmap \<Rightarrow> nat" where
  "completed_total convs = sum_list (map (\<lambda>p. completed_of (snd p)) convs)"

lemma oldestCompleted_completed:
  "oldestCompleted es = Some k \<Longrightarrow> completed_of (jm_del k es) < completed_of es"
proof (induction es)
  case (Cons p es)
  obtain a e where p: "p = (a, e)" by (cases p)
  have "completed_of (jm_del k es) \<le> completed_of es"
    by (induction es) (auto simp: jm_del_unfold completed_of_def)
  with Cons show ?case by (auto simp: p jm_del_unfold completed_of_def split: if_splits)
qed simp

lemma evict_scan_completed:
  "fst (evict_scan convs) \<Longrightarrow> completed_total (snd (evict_scan convs)) < completed_total convs"
proof (induction convs rule: evict_scan.induct)
  case (2 cid entries rest)
  then show ?case
    using oldestCompleted_completed[of entries]
    by (cases "oldestCompleted entries") (auto simp: Let_def case_prod_beta completed_total_def)
qed simp

text \<open>The global eviction loop.\<close>

function evict_global :: "int \<Rightarrow> idem_store \<Rightarrow> idem_store" where
  "evict_global globalCap st =
     (if totalEntries st \<ge> globalCap then
        (let (evicted, st') = evictGlobalOldestCompleted st
         in if \<not> evicted then st'
            else evict_global globalCap (st'\<lparr>evictedGlobalCap := evictedGlobalCap st' + 1\<rparr>))
      else st)"
  by pat_completeness auto
termination
  by (relation "measure (\<lambda>(_, st). completed_total (relayIdempotencyByConversation st))")
    (auto simp: evictGlobalOldestCompleted_def case_prod_beta Let_def dest: evict_scan_completed)

text \<open>The three phases of \<^verbatim>\<open>setRelayIdempotencyEntry\<close> for a new key: the per-conversation loop on the map of
  the conversation, the global loop, and the final write to the map obtained at the start.\<close>

definition conv_map :: "string \<Rightarrow> idem_store \<Rightarrow> idem_map" where
  "conv_map cid st = (case jm_get (relayIdempotencyByConversation st) cid of None \<Rightarrow> [] | Some m \<Rightarrow> m)"

definition enforce_conversation_cap :: "idem_env \<Rightarrow> string \<Rightarrow> idem_store \<Rightarrow> idem_store" where
  "enforce_conversation_cap env cid st =
     (let (n, m) = evict_conversation (maxEntriesPerConversation env) (conv_map cid st)
      in st\<lparr>relayIdempotencyByConversation := jm_set cid m (relayIdempotencyByConversation st),
            totalEntries := totalEntries st - n,
            evictedPerConversationCap := evictedPerConversationCap st + n\<rparr>)"

definition enforce_global_cap :: "idem_env \<Rightarrow> idem_store \<Rightarrow> idem_store" where
  "enforce_global_cap env st =
     (if maxTotalEntries env > 0 then evict_global (maxTotalEntries env) st else st)"

definition write_entry :: "string \<Rightarrow> string \<Rightarrow> idem_entry \<Rightarrow> idem_store \<Rightarrow> idem_store" where
  "write_entry cid crid entry st =
     st\<lparr>relayIdempotencyByConversation :=
          (case jm_get (relayIdempotencyByConversation st) cid of
             Some attached \<Rightarrow> jm_set cid (jm_set crid entry attached) (relayIdempotencyByConversation st)
           | None \<Rightarrow> relayIdempotencyByConversation st),
        totalEntries := totalEntries st + 1\<rparr>"

definition setRelayIdempotencyEntry ::
  "idem_env \<Rightarrow> string \<Rightarrow> string \<Rightarrow> idem_entry \<Rightarrow> idem_store \<Rightarrow> (idem_error + unit) \<times> idem_store" where
  "setRelayIdempotencyEntry env cid crid entry st =
     (let (conversationMap, st1) = getOrCreateRelayIdempotencyMap cid st
      in if jm_has conversationMap crid
         then (Inr (), st1\<lparr>relayIdempotencyByConversation :=
                 jm_set cid (jm_set crid entry conversationMap) (relayIdempotencyByConversation st1)\<rparr>)
         else
           let st2 = enforce_conversation_cap env cid st1
           in if jm_size (conv_map cid st2) \<ge> maxEntriesPerConversation env
              then (Inl PerConversationCapReached, st2)
              else
                let st3 = enforce_global_cap env st2
                in if maxTotalEntries env > 0 \<and> totalEntries st3 \<ge> maxTotalEntries env
                   then (Inl GlobalIdempotencyCapReached, st3)
                   else (Inr (), write_entry cid crid entry st3))"

definition removeRelayIdempotencyEntry :: "string \<Rightarrow> string \<Rightarrow> idem_store \<Rightarrow> idem_store" where
  "removeRelayIdempotencyEntry cid crid st =
     (case jm_get (relayIdempotencyByConversation st) cid of
        None \<Rightarrow> st
      | Some m \<Rightarrow>
          if \<not> jm_has m crid then st
          else let m' = jm_del crid m
               in st\<lparr>totalEntries := max 0 (totalEntries st - 1),
                     relayIdempotencyByConversation :=
                       (if m' = [] then jm_del cid (relayIdempotencyByConversation st)
                        else jm_set cid m' (relayIdempotencyByConversation st))\<rparr>)"

definition clearRelayIdempotencyForConversation :: "string \<Rightarrow> idem_store \<Rightarrow> idem_store" where
  "clearRelayIdempotencyForConversation cid st =
     (case jm_get (relayIdempotencyByConversation st) cid of
        None \<Rightarrow> st
      | Some m \<Rightarrow>
          (let t = totalEntries st - jm_size m
           in st\<lparr>totalEntries := (if t < 0 then 0 else t),
                 relayIdempotencyByConversation := jm_del cid (relayIdempotencyByConversation st)\<rparr>))"

definition prune_waiter :: "string \<Rightarrow> idem_entry \<Rightarrow> idem_entry" where
  "prune_waiter sid entry =
     (case ie_pendingReplayConsumerSocketIds entry of
        None \<Rightarrow> entry
      | Some waiters \<Rightarrow>
          if sid \<notin> set waiters then entry
          else let waiters' = js_rem sid waiters
               in entry\<lparr>ie_pendingReplayConsumerSocketIds := (if waiters' = [] then None else Some waiters')\<rparr>)"

definition waits :: "string \<Rightarrow> idem_entry \<Rightarrow> bool" where
  "waits sid entry =
     (case ie_pendingReplayConsumerSocketIds entry of None \<Rightarrow> False | Some waiters \<Rightarrow> sid \<in> set waiters)"

definition pruneRelayIdempotencyWaiterSocket :: "string \<Rightarrow> idem_store \<Rightarrow> int \<times> idem_store" where
  "pruneRelayIdempotencyWaiterSocket sid st =
     (jm_sum (\<lambda>es. jm_sum (\<lambda>e. if waits sid e then 1 else 0) es) (relayIdempotencyByConversation st),
      st\<lparr>relayIdempotencyByConversation :=
           map (\<lambda>(cid, es). (cid, map (\<lambda>(k, e). (k, prune_waiter sid e)) es))
             (relayIdempotencyByConversation st)\<rparr>)"

definition resetRelayIdempotencyStore :: "idem_store \<Rightarrow> idem_store" where
  "resetRelayIdempotencyStore st = new_idem_store"

text \<open>The lookup of a duplicate as the dispatch makes it (\<^verbatim>\<open>rpc_bridge_dispatch_relay.ts\<close>): the stored
  entry of a client request id unless it has expired.\<close>

definition idem_lookup :: "string \<Rightarrow> string \<Rightarrow> idem_store \<Rightarrow> idem_entry option" where
  "idem_lookup cid crid st =
     (case jm_get (relayIdempotencyByConversation st) cid of None \<Rightarrow> None | Some m \<Rightarrow> jm_get m crid)"

definition findDuplicate :: "int \<Rightarrow> string \<Rightarrow> string \<Rightarrow> idem_store \<Rightarrow> idem_entry option" where
  "findDuplicate nowMs cid crid st =
     (case idem_lookup cid crid st of
        None \<Rightarrow> None | Some e \<Rightarrow> if ie_expiresAtMs e > nowMs then Some e else None)"

text \<open>
  The uses of the store: a duplicate that arrives while the original is in flight joins the
  waiters (\<^verbatim>\<open>dispatchRelayRpcToAgent\<close>), a response is persisted for replay
  (\<^verbatim>\<open>persistRelayIdempotentResponseFrame\<close>, for a route with a client request id and a cacheable
  method), and a synthetic error is fanned out to the waiters (\<^verbatim>\<open>fanOutIdempotentResponse\<close>).
\<close>

definition joinWaiters :: "string \<Rightarrow> string \<Rightarrow> string \<Rightarrow> idem_store \<Rightarrow> idem_store" where
  "joinWaiters cid crid sid st =
     (case idem_lookup cid crid st of
        None \<Rightarrow> st
      | Some existing \<Rightarrow>
          (let waiters = (case ie_pendingReplayConsumerSocketIds existing of None \<Rightarrow> [] | Some w \<Rightarrow> w);
               entry = existing\<lparr>ie_pendingReplayConsumerSocketIds := Some (js_add sid waiters)\<rparr>
           in st\<lparr>relayIdempotencyByConversation :=
                   jm_set cid (jm_set crid entry (conv_map cid st)) (relayIdempotencyByConversation st)\<rparr>))"

definition persistRelayIdempotentResponseFrame ::
  "idem_env \<Rightarrow> int \<Rightarrow> int \<Rightarrow> bool \<Rightarrow> string \<Rightarrow> string option \<Rightarrow> string \<Rightarrow> string \<Rightarrow> idem_store
     \<Rightarrow> string list option \<times> idem_store" where
  "persistRelayIdempotentResponseFrame env ttlMs nowMs cacheable cid clientRequestId requestId frame st =
     (case clientRequestId of
        None \<Rightarrow> (None, st)
      | Some crid \<Rightarrow>
          if crid = [] \<or> \<not> cacheable then (None, st)
          else let (idempotencyMap, st1) = getOrCreateRelayIdempotencyMap cid st;
                   previousEntry = jm_get idempotencyMap crid;
                   entry = \<lparr>ie_requestId = requestId, ie_expiresAtMs = nowMs + ttlMs,
                            ie_responseFrame = Some frame, ie_pendingReplayConsumerSocketIds = None\<rparr>
               in ((case previousEntry of None \<Rightarrow> None | Some e \<Rightarrow> ie_pendingReplayConsumerSocketIds e),
                   snd (setRelayIdempotencyEntry env cid crid entry st1)))"

definition fanOutIdempotentResponse ::
  "idem_env \<Rightarrow> int \<Rightarrow> int \<Rightarrow> string \<Rightarrow> string option \<Rightarrow> string \<Rightarrow> string \<Rightarrow> string \<Rightarrow> idem_store
     \<Rightarrow> string list \<times> idem_store" where
  "fanOutIdempotentResponse env ttlMs nowMs cid clientRequestId requestId consumerSocketId frame st =
     (case (getRelayIdempotencyMap cid st, clientRequestId) of
        (Some idempotencyMap, Some crid) \<Rightarrow>
          if crid = [] then ([], st)
          else (case jm_get idempotencyMap crid of
                  None \<Rightarrow> ([], st)
                | Some item \<Rightarrow>
                    if ie_requestId item \<noteq> requestId then ([], st)
                    else let item' = item\<lparr>ie_responseFrame := Some frame, ie_expiresAtMs := nowMs + ttlMs\<rparr>;
                             waiters = (case ie_pendingReplayConsumerSocketIds item of None \<Rightarrow> [] | Some w \<Rightarrow> w)
                         in (filter (\<lambda>w. w \<noteq> consumerSocketId) waiters,
                             snd (setRelayIdempotencyEntry env cid crid item' st)))
      | _ \<Rightarrow> ([], st))"

declare evict_conversation.simps [simp del] evict_global.simps [simp del]

section \<open>Invariant\<close>

text \<open>
  \<open>idem_ok B\<close>: the keys are distinct and conversation \<open>c\<close> holds at most \<open>B c\<close> entries. \<open>idem_count\<close> is
  the number of entries really stored, \<open>leak\<close> what \<open>totalEntries\<close> counts beyond them.
\<close>

definition idem_ok :: "(string \<Rightarrow> int) \<Rightarrow> idem_store \<Rightarrow> bool" where
  "idem_ok B st \<longleftrightarrow> jm_wf (relayIdempotencyByConversation st) \<and>
     (\<forall>p\<in>set (relayIdempotencyByConversation st). jm_wf (snd p) \<and> jm_size (snd p) \<le> B (fst p))"

definition idem_count :: "idem_store \<Rightarrow> int" where
  "idem_count st = jm_sum jm_size (relayIdempotencyByConversation st)"

definition leak :: "idem_store \<Rightarrow> int" where
  "leak st = totalEntries st - idem_count st"

definition conv_lookup :: "(string, idem_map) jsmap \<Rightarrow> string \<Rightarrow> string \<Rightarrow> idem_entry option" where
  "conv_lookup convs cid k = (case jm_get convs cid of None \<Rightarrow> None | Some m \<Rightarrow> jm_get m k)"

lemma idem_lookup_conv: "idem_lookup cid k st = conv_lookup (relayIdempotencyByConversation st) cid k"
  by (simp add: idem_lookup_def conv_lookup_def)

text \<open>What every eviction does: it keeps the shape and the leak, frees capacity and never touches an
  entry in flight.\<close>

definition keeps_inflight :: "idem_store \<Rightarrow> idem_store \<Rightarrow> bool" where
  "keeps_inflight st st' \<longleftrightarrow>
     (\<forall>cid k e. idem_lookup cid k st = Some e \<longrightarrow> \<not> isCompletedIdempotencyEntry e \<longrightarrow>
        idem_lookup cid k st' = Some e)"

definition adds_none :: "idem_store \<Rightarrow> idem_store \<Rightarrow> bool" where
  "adds_none st st' \<longleftrightarrow> (\<forall>cid k e. idem_lookup cid k st' = Some e \<longrightarrow> idem_lookup cid k st = Some e)"

definition evicts_to :: "(string \<Rightarrow> int) \<Rightarrow> idem_store \<Rightarrow> idem_store \<Rightarrow> bool" where
  "evicts_to B st st' \<longleftrightarrow> idem_ok B st' \<and> leak st' = leak st \<and> totalEntries st' \<le> totalEntries st \<and>
     keeps_inflight st st' \<and> adds_none st st'"

lemma keeps_adds_refl [simp]: "keeps_inflight st st" "adds_none st st"
  by (simp_all add: keeps_inflight_def adds_none_def)

lemma keeps_inflight_trans: "keeps_inflight a b \<Longrightarrow> keeps_inflight b c \<Longrightarrow> keeps_inflight a c"
  unfolding keeps_inflight_def by blast

lemma adds_none_trans: "adds_none a b \<Longrightarrow> adds_none b c \<Longrightarrow> adds_none a c"
  unfolding adds_none_def by blast

lemma evicts_to_refl: "idem_ok B st \<Longrightarrow> evicts_to B st st"
  by (simp add: evicts_to_def)

lemma evicts_to_trans: "evicts_to B a b \<Longrightarrow> evicts_to B b c \<Longrightarrow> evicts_to B a c"
  by (auto simp: evicts_to_def intro: keeps_inflight_trans adds_none_trans)

text \<open>The metric counters play no role in any of this.\<close>

lemma evicts_to_metrics [simp]:
  "evicts_to B st (st'\<lparr>evictedGlobalCap := g\<rparr>) = evicts_to B st st'"
  by (simp add: evicts_to_def idem_ok_def leak_def idem_count_def keeps_inflight_def adds_none_def
      idem_lookup_def)

lemma oldestCompleted_get:
  "jm_wf es \<Longrightarrow> oldestCompleted es = Some k \<Longrightarrow>
     \<exists>e. jm_get es k = Some e \<and> isCompletedIdempotencyEntry e"
  by (induction es rule: oldestCompleted.induct) (auto split: if_splits)

lemma oldestCompleted_None: "oldestCompleted es = None \<Longrightarrow> jm_get es k = Some e \<Longrightarrow>
    \<not> isCompletedIdempotencyEntry e"
  by (induction es rule: oldestCompleted.induct) (auto split: if_splits)

lemma evict_scan_get_None: "jm_get convs cid = None \<Longrightarrow> jm_get (snd (evict_scan convs)) cid = None"
  by (induction convs rule: evict_scan.induct)
    (auto simp: Let_def case_prod_beta split: option.splits if_splits)

lemma evict_scan_wf: "jm_wf convs \<Longrightarrow> jm_wf (snd (evict_scan convs))"
  by (induction convs rule: evict_scan.induct)
    (auto simp: Let_def case_prod_beta evict_scan_get_None split: option.splits)

lemma evict_scan_all:
  "(\<forall>p\<in>set convs. jm_wf (snd p) \<and> jm_size (snd p) \<le> B (fst p)) \<Longrightarrow>
   (\<forall>p\<in>set (snd (evict_scan convs)). jm_wf (snd p) \<and> jm_size (snd p) \<le> B (fst p))"
  by (induction convs rule: evict_scan.induct)
    (auto simp: Let_def case_prod_beta split: option.splits intro: order_trans[OF jm_size_del_le])

lemma evict_scan_sum:
  "(\<forall>p\<in>set convs. jm_wf (snd p)) \<Longrightarrow>
   jm_sum jm_size (snd (evict_scan convs)) = jm_sum jm_size convs - (if fst (evict_scan convs) then 1 else 0)"
proof (induction convs rule: evict_scan.induct)
  case (2 cid entries rest)
  show ?case
  proof (cases "oldestCompleted entries")
    case None
    then show ?thesis using 2 by (simp add: Let_def case_prod_beta)
  next
    case (Some k)
    then have "jm_size (jm_del k entries) = jm_size entries - 1"
      using oldestCompleted_get[OF _ Some] 2(2) by (auto simp: jm_size_del)
    then show ?thesis using Some by (auto simp: Let_def)
  qed
qed simp

lemma evict_scan_pinned:
  "\<lbrakk>jm_wf convs; \<forall>p\<in>set convs. jm_wf (snd p); conv_lookup convs cid k = Some e;
    \<not> isCompletedIdempotencyEntry e\<rbrakk> \<Longrightarrow> conv_lookup (snd (evict_scan convs)) cid k = Some e"
proof (induction convs rule: evict_scan.induct)
  case (2 c entries rest)
  show ?case
  proof (cases "oldestCompleted entries")
    case None
    then show ?thesis using 2 by (auto simp: conv_lookup_def Let_def case_prod_beta split: if_splits)
  next
    case (Some k0)
    obtain e0 where e0: "jm_get entries k0 = Some e0" "isCompletedIdempotencyEntry e0"
      using oldestCompleted_get[OF _ Some] 2(3) by auto
    show ?thesis
    proof (cases "cid = c")
      case True
      then have "jm_get entries k = Some e" using 2(4) by (simp add: conv_lookup_def)
      then have g: "jm_get (jm_del k0 entries) k = Some e" using e0 2(5) by auto
      then have "jm_del k0 entries \<noteq> []" by fastforce
      then show ?thesis using True Some g by (simp add: conv_lookup_def Let_def)
    next
      case False
      then show ?thesis using 2(4) Some by (auto simp: conv_lookup_def Let_def split: if_splits)
    qed
  qed
qed (simp add: conv_lookup_def)

lemma evict_scan_sub:
  "jm_wf convs \<Longrightarrow> conv_lookup (snd (evict_scan convs)) cid k = Some e \<Longrightarrow> conv_lookup convs cid k = Some e"
proof (induction convs rule: evict_scan.induct)
  case (2 c entries rest)
  then show ?case
    by (cases "oldestCompleted entries")
      (auto simp: conv_lookup_def Let_def case_prod_beta evict_scan_get_None split: if_splits option.splits)
qed (simp add: conv_lookup_def)

lemma evictGlobal_eqs:
  "relayIdempotencyByConversation (snd (evictGlobalOldestCompleted st)) =
     snd (evict_scan (relayIdempotencyByConversation st))"
  "totalEntries (snd (evictGlobalOldestCompleted st)) =
     totalEntries st - (if fst (evict_scan (relayIdempotencyByConversation st)) then 1 else 0)"
  by (simp_all add: evictGlobalOldestCompleted_def Let_def case_prod_beta)

lemma evictGlobal_evicts:
  assumes "idem_ok B st"
  shows "evicts_to B st (snd (evictGlobalOldestCompleted st))"
proof -
  have a: "jm_wf (relayIdempotencyByConversation st)"
    "\<forall>p\<in>set (relayIdempotencyByConversation st). jm_wf (snd p) \<and> jm_size (snd p) \<le> B (fst p)"
    "\<forall>p\<in>set (relayIdempotencyByConversation st). jm_wf (snd p)"
    using assms by (auto simp: idem_ok_def)
  have "idem_ok B (snd (evictGlobalOldestCompleted st))"
    using evict_scan_wf[OF a(1)] evict_scan_all[OF a(2)] by (simp add: idem_ok_def evictGlobal_eqs)
  moreover have "leak (snd (evictGlobalOldestCompleted st)) = leak st"
    using evict_scan_sum[OF a(3)] by (simp add: leak_def idem_count_def evictGlobal_eqs)
  moreover have "keeps_inflight st (snd (evictGlobalOldestCompleted st))"
    using evict_scan_pinned[OF a(1,3)] by (simp add: keeps_inflight_def idem_lookup_conv evictGlobal_eqs)
  moreover have "adds_none st (snd (evictGlobalOldestCompleted st))"
    using evict_scan_sub[OF a(1)] by (simp add: adds_none_def idem_lookup_conv evictGlobal_eqs)
  ultimately show ?thesis by (simp add: evicts_to_def evictGlobal_eqs)
qed

lemma evict_global_evicts: "idem_ok B st \<Longrightarrow> evicts_to B st (evict_global cap st)"
proof (induction cap st rule: evict_global.induct)
  case (1 cap st)
  obtain ok st' where e: "evictGlobalOldestCompleted st = (ok, st')" by force
  have s: "evicts_to B st st'" using evictGlobal_evicts[OF 1(2)] e by simp
  define st'' where "st'' = st'\<lparr>evictedGlobalCap := evictedGlobalCap st' + 1\<rparr>"
  have m: "evicts_to B st st''" using s by (simp add: st''_def)
  show ?case
  proof (cases "totalEntries st \<ge> cap \<and> ok")
    case True
    have "evicts_to B st'' (evict_global cap st'')"
      unfolding st''_def
      by (rule 1(1)[OF _ e[symmetric] refl]) (use True m in \<open>auto simp: evicts_to_def st''_def\<close>)
    moreover have "evict_global cap st = evict_global cap st''"
      using True e by (subst evict_global.simps) (simp add: st''_def)
    ultimately show ?thesis using evicts_to_trans[OF m] by simp
  next
    case False
    then show ?thesis using e s evicts_to_refl[OF 1(2)]
      by (subst evict_global.simps) simp
  qed
qed

definition map_keeps :: "idem_map \<Rightarrow> idem_map \<Rightarrow> bool" where
  "map_keeps m m' \<longleftrightarrow> (\<forall>k e. jm_get m k = Some e \<longrightarrow> \<not> isCompletedIdempotencyEntry e \<longrightarrow> jm_get m' k = Some e)"

definition map_sub :: "idem_map \<Rightarrow> idem_map \<Rightarrow> bool" where
  "map_sub m' m \<longleftrightarrow> (\<forall>k e. jm_get m' k = Some e \<longrightarrow> jm_get m k = Some e)"

definition shrinks_to :: "idem_map \<Rightarrow> int \<times> idem_map \<Rightarrow> bool" where
  "shrinks_to m r \<longleftrightarrow> jm_wf (snd r) \<and> jm_size (snd r) = jm_size m - fst r \<and> 0 \<le> fst r \<and>
     map_keeps m (snd r) \<and> map_sub (snd r) m"

lemma map_keeps_refl [simp]: "map_keeps m m" "map_sub m m"
  by (simp_all add: map_keeps_def map_sub_def)

lemma shrinks_to_step:
  assumes "shrinks_to (jm_del k m) (n, m')" "jm_wf m" "jm_get m k = Some e" "isCompletedIdempotencyEntry e"
  shows "shrinks_to m (n + 1, m')"
proof -
  have "jm_size (jm_del k m) = jm_size m - 1" using assms(2,3) by (simp add: jm_size_del)
  moreover have "map_keeps (jm_del k m) m' \<Longrightarrow> map_keeps m m'"
    unfolding map_keeps_def using assms(3,4) by (metis jm_get_del option.inject)
  moreover have "map_sub m' (jm_del k m) \<Longrightarrow> map_sub m' m"
    unfolding map_sub_def by (metis jm_get_del option.distinct(1))
  ultimately show ?thesis using assms(1) by (simp add: shrinks_to_def)
qed

lemma evict_conversation_shrinks: "jm_wf m \<Longrightarrow> shrinks_to m (evict_conversation cap m)"
proof (induction cap m rule: evict_conversation.induct)
  case (1 cap m)
  show ?case
  proof (cases "jm_size m \<ge> cap \<and> oldestCompleted m \<noteq> None")
    case False
    then have "evict_conversation cap m = (0, m)" by (subst evict_conversation.simps) auto
    then show ?thesis using 1(2) by (simp add: shrinks_to_def)
  next
    case True
    then obtain k where k: "oldestCompleted m = Some k" by auto
    obtain e where e: "jm_get m k = Some e" "isCompletedIdempotencyEntry e"
      using oldestCompleted_get[OF 1(2) k] by auto
    obtain n m' where r: "evict_conversation cap (jm_del k m) = (n, m')" by force
    have "evict_conversation cap m = (n + 1, m')"
      using True k r by (subst evict_conversation.simps) simp
    moreover have "shrinks_to (jm_del k m) (n, m')" using 1(1)[OF _ k] True 1(2) r by simp
    ultimately show ?thesis using shrinks_to_step[OF _ 1(2) e] by simp
  qed
qed

lemma set_new_cases:
  assumes "idem_lookup cid crid st = None" and "st1 = snd (getOrCreateRelayIdempotencyMap cid st)"
  shows "setRelayIdempotencyEntry env cid crid entry st =
    (let st2 = enforce_conversation_cap env cid st1; st3 = enforce_global_cap env st2
     in if jm_size (conv_map cid st2) \<ge> maxEntriesPerConversation env then (Inl PerConversationCapReached, st2)
        else if maxTotalEntries env > 0 \<and> totalEntries st3 \<ge> maxTotalEntries env
        then (Inl GlobalIdempotencyCapReached, st3)
        else (Inr (), write_entry cid crid entry st3))"
proof -
  obtain m0 where g: "getOrCreateRelayIdempotencyMap cid st = (m0, st1)"
    using assms(2) by (metis prod.collapse)
  have "jm_get m0 crid = None"
    using assms(1) g by (auto simp: getOrCreateRelayIdempotencyMap_def idem_lookup_def split: option.splits)
  then show ?thesis by (simp add: setRelayIdempotencyEntry_def g Let_def)
qed

lemma set_update_case:
  assumes "jm_get (relayIdempotencyByConversation st) cid = Some m" "jm_get m crid = Some e"
  shows "setRelayIdempotencyEntry env cid crid entry st =
    (Inr (), st\<lparr>relayIdempotencyByConversation :=
       jm_set cid (jm_set crid entry m) (relayIdempotencyByConversation st)\<rparr>)"
  using assms by (simp add: setRelayIdempotencyEntry_def getOrCreateRelayIdempotencyMap_def Let_def)

lemma idem_ok_iff:
  "idem_ok B st \<longleftrightarrow> jm_wf (relayIdempotencyByConversation st) \<and>
     (\<forall>c m. jm_get (relayIdempotencyByConversation st) c = Some m \<longrightarrow> jm_wf m \<and> jm_size m \<le> B c)"
  unfolding idem_ok_def using jm_get_iff_in_set[of "relayIdempotencyByConversation st"] by force

lemma idem_ok_mono: "idem_ok B st \<Longrightarrow> (\<And>c. B c \<le> B' c) \<Longrightarrow> idem_ok B' st"
  unfolding idem_ok_def by (meson order_trans)

text \<open>Obtaining the map of a conversation changes no entry.\<close>

lemma getOrCreate_evicts:
  assumes "idem_ok B st" "0 \<le> B cid"
  shows "evicts_to B st (snd (getOrCreateRelayIdempotencyMap cid st))"
    and "jm_has (relayIdempotencyByConversation (snd (getOrCreateRelayIdempotencyMap cid st))) cid"
  using assms
  by (auto simp: getOrCreateRelayIdempotencyMap_def evicts_to_def idem_ok_iff leak_def idem_count_def
      jm_sum_set keeps_inflight_def adds_none_def idem_lookup_def split: option.splits if_splits)

lemma enforce_conversation_cap_evicts:
  assumes "idem_ok B st" "jm_get (relayIdempotencyByConversation st) cid = Some m0"
    and st'_def: "st' = enforce_conversation_cap env cid st"
  shows "evicts_to B st st'" and "evicts_to (B(cid := jm_size (conv_map cid st'))) st st'"
    and "jm_has (relayIdempotencyByConversation st') cid"
proof -
  obtain n m where r: "evict_conversation (maxEntriesPerConversation env) m0 = (n, m)" by force
  have wf: "jm_wf m0" "jm_size m0 \<le> B cid" using assms(1,2) by (auto simp: idem_ok_iff)
  have sh: "jm_wf m" "jm_size m = jm_size m0 - n" "0 \<le> n" and ks: "map_keeps m0 m" "map_sub m m0"
    using evict_conversation_shrinks[OF wf(1), of "maxEntriesPerConversation env"] r
    by (simp_all add: shrinks_to_def)
  have e: "relayIdempotencyByConversation st' = jm_set cid m (relayIdempotencyByConversation st)"
    "totalEntries st' = totalEntries st - n"
    using assms(2) r by (simp_all add: st'_def enforce_conversation_cap_def conv_map_def)
  have ki: "keeps_inflight st st'"
    using ks(1) assms(2) by (auto simp: keeps_inflight_def map_keeps_def idem_lookup_def e)
  have an: "adds_none st st'"
    using ks(2) assms(2) by (auto simp: adds_none_def map_sub_def idem_lookup_def e)
  have lk: "leak st' = leak st"
    using assms(2) sh by (simp add: leak_def idem_count_def e jm_sum_set)
  show "evicts_to B st st'"
    using ki an lk sh wf assms(1) by (auto simp: evicts_to_def e idem_ok_iff)
  show "evicts_to (B(cid := jm_size (conv_map cid st'))) st st'"
    using ki an lk sh assms(1) by (auto simp: evicts_to_def e idem_ok_iff conv_map_def)
  show "jm_has (relayIdempotencyByConversation st') cid" by (simp add: e)
qed

lemma enforce_global_cap_evicts: "idem_ok B st \<Longrightarrow> evicts_to B st (enforce_global_cap env st)"
  by (simp add: enforce_global_cap_def evict_global_evicts evicts_to_refl)

lemma enforce_global_cap_idle:
  "\<not> (maxTotalEntries env > 0 \<and> totalEntries st \<ge> maxTotalEntries env) \<Longrightarrow> enforce_global_cap env st = st"
  by (auto simp: enforce_global_cap_def evict_global.simps)

text \<open>The write stores the entry and keeps the leak when the conversation's map is still attached;
  otherwise it stores nothing and the leak grows.\<close>

lemma write_entry_attached:
  assumes "idem_ok B st" "jm_get (relayIdempotencyByConversation st) cid = Some m" "jm_get m crid = None"
    and "jm_size m + 1 \<le> B' cid" "\<And>c. c \<noteq> cid \<Longrightarrow> B c \<le> B' c"
  shows "idem_ok B' (write_entry cid crid entry st)" "leak (write_entry cid crid entry st) = leak st"
    "idem_lookup c k (write_entry cid crid entry st) =
       (if c = cid \<and> k = crid then Some entry else idem_lookup c k st)"
proof -
  have "jm_size (jm_set crid entry m) = jm_size m + 1" using assms(3) by (simp add: jm_size_set)
  then show "idem_ok B' (write_entry cid crid entry st)"
    using assms by (auto simp: idem_ok_iff write_entry_def intro: order_trans)
  show "leak (write_entry cid crid entry st) = leak st"
    using assms(2,3) by (simp add: leak_def idem_count_def write_entry_def jm_sum_set jm_size_set)
  show "idem_lookup c k (write_entry cid crid entry st) =
       (if c = cid \<and> k = crid then Some entry else idem_lookup c k st)"
    using assms(2) by (auto simp: idem_lookup_def write_entry_def)
qed

lemma write_entry_detached:
  assumes "jm_get (relayIdempotencyByConversation st) cid = None"
  shows "idem_ok B (write_entry cid crid entry st) = idem_ok B st"
    "leak (write_entry cid crid entry st) = leak st + 1"
    "idem_lookup c k (write_entry cid crid entry st) = idem_lookup c k st"
  using assms by (simp_all add: idem_ok_def leak_def idem_count_def write_entry_def idem_lookup_def)

text \<open>A new key: some evictions, then either a refusal or the write. The map of the conversation is
  still attached if an entry of it is in flight, or if the store is below the global cap.\<close>

definition pins :: "string \<Rightarrow> idem_store \<Rightarrow> bool" where
  "pins cid st \<longleftrightarrow> (\<exists>k e. idem_lookup cid k st = Some e \<and> \<not> isCompletedIdempotencyEntry e)"

definition at_global_cap :: "idem_env \<Rightarrow> idem_store \<Rightarrow> bool" where
  "at_global_cap env st \<longleftrightarrow> maxTotalEntries env > 0 \<and> totalEntries st \<ge> maxTotalEntries env"

definition conv_cap :: "idem_env \<Rightarrow> string \<Rightarrow> int" where
  "conv_cap env c = max 0 (maxEntriesPerConversation env)"

lemma idem_lookup_has: "idem_lookup cid k st = Some e \<Longrightarrow> jm_has (relayIdempotencyByConversation st) cid"
  by (simp add: idem_lookup_def split: option.splits)

lemma pins_attached: "pins cid st \<Longrightarrow> keeps_inflight st st' \<Longrightarrow> jm_has (relayIdempotencyByConversation st') cid"
  unfolding pins_def keeps_inflight_def by (blast intro: idem_lookup_has)

lemma set_new_result:
  assumes ok: "idem_ok (conv_cap env) st" and new: "idem_lookup cid crid st = None"
  obtains (refused) err st' where "setRelayIdempotencyEntry env cid crid entry st = (Inl err, st')"
      "evicts_to (conv_cap env) st st'"
  | (stored) st' B where
      "setRelayIdempotencyEntry env cid crid entry st = (Inr (), write_entry cid crid entry st')"
      "evicts_to (conv_cap env) st st'" "\<not> at_global_cap env st'"
      "idem_ok B st'" "B cid + 1 \<le> conv_cap env cid" "\<And>c. c \<noteq> cid \<Longrightarrow> B c \<le> conv_cap env c"
      "pins cid st \<or> \<not> at_global_cap env st \<Longrightarrow> jm_has (relayIdempotencyByConversation st') cid"
proof -
  define st1 where "st1 = snd (getOrCreateRelayIdempotencyMap cid st)"
  define st2 where "st2 = enforce_conversation_cap env cid st1"
  define st3 where "st3 = enforce_global_cap env st2"
  define B where "B = (conv_cap env)(cid := jm_size (conv_map cid st2))"
  have e1: "evicts_to (conv_cap env) st st1"
    unfolding st1_def using ok by (intro getOrCreate_evicts) (simp_all add: conv_cap_def)
  obtain m0 where m0: "jm_get (relayIdempotencyByConversation st1) cid = Some m0"
    using getOrCreate_evicts(2)[OF ok] unfolding st1_def by (fastforce simp: conv_cap_def)
  have ok1: "idem_ok (conv_cap env) st1" using e1 by (simp add: evicts_to_def)
  note c2 = enforce_conversation_cap_evicts[OF ok1 m0 st2_def]
  have ok2: "idem_ok (conv_cap env) st2" "idem_ok B st2"
    using c2(1,2) by (simp_all add: evicts_to_def B_def)
  have e12: "evicts_to (conv_cap env) st st2" by (rule evicts_to_trans[OF e1 c2(1)])
  have e3: "evicts_to (conv_cap env) st st3" and okB: "idem_ok B st3"
    using evicts_to_trans[OF e12 enforce_global_cap_evicts[OF ok2(1)]] enforce_global_cap_evicts[OF ok2(2)]
    by (simp_all add: st3_def evicts_to_def)
  note set = set_new_cases[OF new st1_def, of env entry, folded st2_def, unfolded Let_def, folded st3_def]
  consider "jm_size (conv_map cid st2) \<ge> maxEntriesPerConversation env"
    | "jm_size (conv_map cid st2) < maxEntriesPerConversation env" "at_global_cap env st3"
    | "jm_size (conv_map cid st2) < maxEntriesPerConversation env" "\<not> at_global_cap env st3"
    by linarith
  then show thesis
  proof cases
    case 1
    then show ?thesis using refused[OF _ e12] set by simp
  next
    case 2
    then show ?thesis using refused[OF _ e3] set by (simp add: at_global_cap_def)
  next
    case 3
    have "jm_has (relayIdempotencyByConversation st3) cid" if "pins cid st \<or> \<not> at_global_cap env st"
      using that
    proof
      assume "pins cid st"
      then show ?thesis using e3 pins_attached by (simp add: evicts_to_def)
    next
      assume "\<not> at_global_cap env st"
      then have "\<not> at_global_cap env st2" using e12 by (auto simp: at_global_cap_def evicts_to_def)
      then have "st3 = st2" by (simp add: st3_def enforce_global_cap_idle at_global_cap_def)
      then show ?thesis using c2(3) by simp
    qed
    then show ?thesis using 3 set stored[OF _ e3 3(2) okB]
      by (auto simp: at_global_cap_def B_def conv_cap_def)
  qed
qed

section \<open>The store as a state machine\<close>

definition idem_inv :: "idem_env \<Rightarrow> idem_store \<Rightarrow> bool" where
  "idem_inv env st \<longleftrightarrow> idem_ok (conv_cap env) st \<and> 0 \<le> leak st \<and>
     (maxTotalEntries env > 0 \<longrightarrow> totalEntries st \<le> maxTotalEntries env)"

lemma idem_inv_new: "idem_inv env new_idem_store"
  by (simp add: idem_inv_def idem_ok_def leak_def idem_count_def new_idem_store_def)

lemma idem_inv_evicts: "idem_inv env st \<Longrightarrow> evicts_to (conv_cap env) st st' \<Longrightarrow> idem_inv env st'"
  by (auto simp: idem_inv_def evicts_to_def)

lemma idem_inv_getOrCreate:
  assumes "idem_inv env st"
  shows "idem_inv env (snd (getOrCreateRelayIdempotencyMap cid st))"
  by (rule idem_inv_evicts[OF assms], rule getOrCreate_evicts(1))
    (use assms in \<open>simp_all add: idem_inv_def conv_cap_def\<close>)

text \<open>Replacing the value of a present key changes neither shape nor counts.\<close>

lemma idem_inv_replace:
  assumes "idem_inv env st" "jm_get (relayIdempotencyByConversation st) cid = Some m" "jm_get m crid = Some e"
  shows "idem_inv env (st\<lparr>relayIdempotencyByConversation :=
    jm_set cid (jm_set crid entry m) (relayIdempotencyByConversation st)\<rparr>)"
  using assms by (auto simp: idem_inv_def idem_ok_iff leak_def idem_count_def jm_sum_set jm_size_set)

lemma attached_map:
  assumes "idem_ok B st" "jm_has (relayIdempotencyByConversation st) cid" "idem_lookup cid crid st = None"
  obtains m where "jm_get (relayIdempotencyByConversation st) cid = Some m" "jm_get m crid = None"
    "jm_size m \<le> B cid"
  using assms by (auto simp: idem_lookup_def idem_ok_iff)

lemma idem_inv_set:
  assumes "idem_inv env st"
  shows "idem_inv env (snd (setRelayIdempotencyEntry env cid crid entry st))"
proof (cases "idem_lookup cid crid st")
  case (Some e)
  then show ?thesis
    using idem_inv_replace[OF assms] set_update_case by (auto simp: idem_lookup_def split: option.splits)
next
  case None
  have ok: "idem_ok (conv_cap env) st" using assms by (simp add: idem_inv_def)
  show ?thesis
  proof (cases rule: set_new_result[OF ok None, of entry])
    case (1 err st')
    then show ?thesis using idem_inv_evicts[OF assms] by simp
  next
    case (2 st' B)
    have inv: "idem_inv env st'" by (rule idem_inv_evicts[OF assms 2(2)])
    have cap: "maxTotalEntries env > 0 \<longrightarrow> totalEntries (write_entry cid crid entry st') \<le> maxTotalEntries env"
      using 2(3) by (auto simp: at_global_cap_def write_entry_def)
    show ?thesis
    proof (cases "jm_has (relayIdempotencyByConversation st') cid")
      case True
      have "idem_lookup cid crid st' = None"
        using None 2(2) by (cases "idem_lookup cid crid st'") (auto simp: evicts_to_def adds_none_def)
      then obtain m where m: "jm_get (relayIdempotencyByConversation st') cid = Some m" "jm_get m crid = None"
        "jm_size m \<le> B cid" by (rule attached_map[OF 2(4) True])
      have "jm_size m + 1 \<le> conv_cap env cid" using m(3) 2(5) by simp
      from write_entry_attached[OF 2(4) m(1,2) this 2(6)] show ?thesis
        using inv cap 2(1) by (simp add: idem_inv_def)
    next
      case False
      then have "jm_get (relayIdempotencyByConversation st') cid = None" by (simp add: jm_has_def)
      from write_entry_detached[OF this] show ?thesis using inv cap 2(1) by (simp add: idem_inv_def)
    qed
  qed
qed

lemma idem_count_ge:
  assumes "idem_ok B st" "jm_get (relayIdempotencyByConversation st) cid = Some m"
  shows "jm_size m \<le> idem_count st"
  unfolding idem_count_def using assms by (intro jm_sum_ge_one) (auto simp: idem_ok_iff)

lemma idem_inv_remove: "idem_inv env st \<Longrightarrow> idem_inv env (removeRelayIdempotencyEntry cid crid st)"
proof (cases "\<exists>m e. jm_get (relayIdempotencyByConversation st) cid = Some m \<and> jm_get m crid = Some e")
  case True
  assume inv: "idem_inv env st"
  obtain m e where m: "jm_get (relayIdempotencyByConversation st) cid = Some m" "jm_get m crid = Some e"
    using True by auto
  have wf: "jm_wf m" "jm_wf (relayIdempotencyByConversation st)" "jm_size m \<le> conv_cap env cid"
    using inv m by (auto simp: idem_inv_def idem_ok_iff)
  have sz: "jm_size (jm_del crid m) = jm_size m - 1" "jm_size m - 1 \<le> conv_cap env cid"
    using wf m by (simp_all add: jm_size_del)
  have "1 \<le> totalEntries st"
    using inv idem_count_ge[OF _ m(1)] sz(1) jm_size_nonneg[of "jm_del crid m"]
    by (force simp: idem_inv_def leak_def)
  then show ?thesis
    using inv m wf sz
    by (auto simp: idem_inv_def idem_ok_iff removeRelayIdempotencyEntry_def Let_def leak_def idem_count_def
        jm_sum_del jm_sum_set)
qed (auto simp: removeRelayIdempotencyEntry_def split: option.splits)

lemma idem_inv_clear:
  assumes "idem_inv env st"
  shows "idem_inv env (clearRelayIdempotencyForConversation cid st)"
proof (cases "jm_get (relayIdempotencyByConversation st) cid")
  case (Some m)
  have "jm_size m \<le> idem_count st" "0 \<le> jm_size m"
    using idem_count_ge[OF _ Some] assms by (auto simp: idem_inv_def)
  then show ?thesis
    using assms Some
    by (auto simp: idem_inv_def idem_ok_iff clearRelayIdempotencyForConversation_def Let_def leak_def
        idem_count_def jm_sum_del simp del: jm_size_nonneg)
qed (simp add: assms clearRelayIdempotencyForConversation_def)

lemma prune_scan_get_None: "jm_get convs c = None \<Longrightarrow> jm_get (snd (prune_scan routes t convs)) c = None"
  by (induction routes t convs rule: prune_scan.induct) (auto simp: Let_def case_prod_beta split: if_splits)

lemma prune_scan_wf: "jm_wf convs \<Longrightarrow> jm_wf (snd (prune_scan routes t convs))"
  by (induction routes t convs rule: prune_scan.induct)
    (auto simp: Let_def case_prod_beta prune_scan_get_None)

lemma prune_scan_all:
  "(\<forall>p\<in>set convs. jm_wf (snd p) \<and> jm_size (snd p) \<le> B (fst p)) \<Longrightarrow>
   (\<forall>p\<in>set (snd (prune_scan routes t convs)). jm_wf (snd p) \<and> jm_size (snd p) \<le> B (fst p))"
  by (induction routes t convs rule: prune_scan.induct)
    (auto simp: Let_def case_prod_beta intro: order_trans[OF jm_size_filter])

lemma prune_scan_sum:
  "jm_sum jm_size (snd (prune_scan routes t convs)) = jm_sum jm_size convs - fst (prune_scan routes t convs)"
  by (induction routes t convs rule: prune_scan.induct) (auto simp: Let_def case_prod_beta)

lemma prune_scan_nonneg: "0 \<le> fst (prune_scan routes t convs)"
proof (induction routes t convs rule: prune_scan.induct)
  case (2 routes t cid entries rest)
  then show ?case
    using jm_size_filter[of "\<lambda>(_, e). \<not> idem_expired routes t e" entries]
    by (simp add: Let_def case_prod_beta)
qed simp

text \<open>Pruning keeps exactly the entries that are not expired.\<close>

lemma prune_scan_lookup:
  "jm_wf convs \<Longrightarrow> \<forall>p\<in>set convs. jm_wf (snd p) \<Longrightarrow>
   conv_lookup (snd (prune_scan routes t convs)) cid k =
     (case conv_lookup convs cid k of None \<Rightarrow> None
      | Some e \<Rightarrow> if idem_expired routes t e then None else Some e)"
proof (induction routes t convs rule: prune_scan.induct)
  case (2 routes t c entries rest)
  let ?kept = "filter (\<lambda>(_, e). \<not> idem_expired routes t e) entries"
  have kept: "jm_get ?kept k = (case jm_get entries k of None \<Rightarrow> None
      | Some e \<Rightarrow> if \<not> idem_expired routes t e then Some e else None)"
    using 2(3) by (intro jm_get_filter) auto
  show ?case
  proof (cases "cid = c")
    case True
    have "jm_get rest c = None" using 2(2) by simp
    then have "jm_get (snd (prune_scan routes t rest)) c = None" by (rule prune_scan_get_None)
    then show ?thesis using True kept
      by (cases "?kept = []") (auto simp: conv_lookup_def Let_def case_prod_beta split: option.splits)
  next
    case False
    then show ?thesis using 2 by (auto simp: conv_lookup_def Let_def case_prod_beta)
  qed
qed (simp add: conv_lookup_def)

lemma prune_eqs:
  "relayIdempotencyByConversation (pruneExpiredRelayIdempotencyEntries routes t st) =
     snd (prune_scan routes t (relayIdempotencyByConversation st))"
  "totalEntries (pruneExpiredRelayIdempotencyEntries routes t st) =
     totalEntries st - fst (prune_scan routes t (relayIdempotencyByConversation st))"
  by (simp_all add: pruneExpiredRelayIdempotencyEntries_def Let_def case_prod_beta)

lemma idem_inv_prune: "idem_inv env st \<Longrightarrow> idem_inv env (pruneExpiredRelayIdempotencyEntries routes t st)"
  using prune_scan_wf[of "relayIdempotencyByConversation st" routes t]
    prune_scan_all[of "relayIdempotencyByConversation st" "conv_cap env" routes t]
    prune_scan_sum[of routes t "relayIdempotencyByConversation st"]
    prune_scan_nonneg[of routes t "relayIdempotencyByConversation st"]
  by (auto simp: idem_inv_def idem_ok_def leak_def idem_count_def prune_eqs)

lemma idem_inv_waiter: "idem_inv env st \<Longrightarrow> idem_inv env (snd (pruneRelayIdempotencyWaiterSocket sid st))"
  by (auto simp: idem_inv_def idem_ok_iff leak_def idem_count_def jm_sum_map_values
      pruneRelayIdempotencyWaiterSocket_def)

lemma idem_inv_join: "idem_inv env st \<Longrightarrow> idem_inv env (joinWaiters cid crid sid st)"
  by (auto simp: joinWaiters_def idem_lookup_def conv_map_def Let_def intro!: idem_inv_replace
      split: option.splits)

lemma idem_inv_persist:
  "idem_inv env st \<Longrightarrow> idem_inv env (snd (persistRelayIdempotentResponseFrame env ttl t b cid crid rid f st))"
  using idem_inv_getOrCreate[of env st cid]
  by (auto simp: persistRelayIdempotentResponseFrame_def Let_def case_prod_beta idem_inv_set split: option.splits)

lemma idem_inv_fanOut:
  "idem_inv env st \<Longrightarrow> idem_inv env (snd (fanOutIdempotentResponse env ttl t cid crid rid sid f st))"
  by (auto simp: fanOutIdempotentResponse_def Let_def idem_inv_set split: option.splits)

inductive idem_step :: "idem_env \<Rightarrow> idem_store \<Rightarrow> idem_store \<Rightarrow> bool" for env where
  is_set: "idem_step env st (snd (setRelayIdempotencyEntry env cid crid entry st))"
| is_getOrCreate: "idem_step env st (snd (getOrCreateRelayIdempotencyMap cid st))"
| is_join: "idem_step env st (joinWaiters cid crid sid st)"
| is_persist: "idem_step env st (snd (persistRelayIdempotentResponseFrame env ttl t b cid mcrid rid f st))"
| is_fanOut: "idem_step env st (snd (fanOutIdempotentResponse env ttl t cid mcrid rid sid f st))"
| is_remove: "idem_step env st (removeRelayIdempotencyEntry cid crid st)"
| is_clear: "idem_step env st (clearRelayIdempotencyForConversation cid st)"
| is_prune: "idem_step env st (pruneExpiredRelayIdempotencyEntries routes t st)"
| is_waiter: "idem_step env st (snd (pruneRelayIdempotencyWaiterSocket sid st))"
| is_reset: "idem_step env st (resetRelayIdempotencyStore st)"

interpretation idem: invariant_system new_idem_store "idem_step env" "idem_inv env" for env
proof
  show "idem_inv env new_idem_store" by (rule idem_inv_new)
next
  fix s t assume "idem_step env s t" "idem_inv env s"
  then show "idem_inv env t"
    by (induction rule: idem_step.induct)
      (simp_all add: idem_inv_set idem_inv_getOrCreate idem_inv_join idem_inv_persist idem_inv_fanOut
        idem_inv_remove idem_inv_clear idem_inv_prune idem_inv_waiter resetRelayIdempotencyStore_def idem_inv_new)
qed

section \<open>Properties\<close>

text \<open>the idempotency caps hold. In every reachable store no conversation holds more entries than its
  cap, the number of entries stored never exceeds \<^verbatim>\<open>totalEntries\<close>, and with a positive global cap
  neither exceeds it.\<close>

theorem idempotency_caps_hold:
  assumes "reachable new_idem_store (idem_step env) st"
  shows "jm_size (conv_map cid st) \<le> max 0 (maxEntriesPerConversation env) \<and>
    idem_count st \<le> totalEntries st \<and>
    (0 < maxTotalEntries env \<longrightarrow> totalEntries st \<le> maxTotalEntries env)"
  using idem.inv_reachable[OF assms]
  by (auto simp: idem_inv_def idem_ok_iff leak_def conv_map_def conv_cap_def split: option.splits)

definition sample_idem_env :: idem_env where
  "sample_idem_env = \<lparr>maxEntriesPerConversation = 2, maxTotalEntries = 1\<rparr>"

definition done_entry :: idem_entry where
  "done_entry = \<lparr>ie_requestId = ''r1'', ie_expiresAtMs = 100, ie_responseFrame = Some ''f'',
     ie_pendingReplayConsumerSocketIds = None\<rparr>"

definition flying_entry :: idem_entry where
  "flying_entry = done_entry\<lparr>ie_requestId := ''r2'', ie_responseFrame := None\<rparr>"

definition sample_idem_store :: "idem_entry \<Rightarrow> idem_store" where
  "sample_idem_store e = snd (setRelayIdempotencyEntry sample_idem_env ''c1'' ''k1'' e new_idem_store)"

lemma sample_idem_reachable: "reachable new_idem_store (idem_step sample_idem_env) (sample_idem_store e)"
  unfolding sample_idem_store_def by (rule reachable.reach_step[OF reachable.reach_init]) (rule is_set)

theorem idempotency_caps_hold_witness:
  "reachable new_idem_store (idem_step sample_idem_env) (sample_idem_store done_entry) \<and>
   totalEntries (sample_idem_store done_entry) = 1 \<and>
   jm_size (conv_map ''c1'' (sample_idem_store done_entry)) \<le> 2"
proof -
  have "totalEntries (sample_idem_store done_entry) = 1" by code_simp
  then show ?thesis
    using idempotency_caps_hold[OF sample_idem_reachable, of "''c1''" done_entry] sample_idem_reachable
    by (auto simp: sample_idem_env_def)
qed

text \<open>C9: storing never disturbs a request in flight, and an accepted entry is found again. From any
  reachable store, every entry still in flight other than the written one survives the evictions
  unchanged; a refused entry is not stored; an accepted entry is stored, with the count exact,
  when it updates a present key, when the store is below the global cap, or when its conversation
  has an entry in flight.\<close>

theorem idempotency_set_stores_and_pins:
  assumes "reachable new_idem_store (idem_step env) st"
    and "r = setRelayIdempotencyEntry env cid crid entry st"
  shows "(\<forall>c k e. (c, k) \<noteq> (cid, crid) \<longrightarrow> idem_lookup c k st = Some e \<longrightarrow> \<not> isCompletedIdempotencyEntry e \<longrightarrow>
      idem_lookup c k (snd r) = Some e) \<and>
    (fst r \<noteq> Inr () \<longrightarrow> idem_lookup cid crid (snd r) = None) \<and>
    (fst r = Inr () \<longrightarrow> idem_lookup cid crid st \<noteq> None \<or> \<not> at_global_cap env st \<or> pins cid st \<longrightarrow>
      idem_lookup cid crid (snd r) = Some entry \<and> leak (snd r) = leak st)"
proof (cases "idem_lookup cid crid st")
  case (Some e)
  then obtain m where m: "jm_get (relayIdempotencyByConversation st) cid = Some m" "jm_get m crid = Some e"
    by (auto simp: idem_lookup_def split: option.splits)
  show ?thesis
    unfolding assms(2) set_update_case[OF m] using m
    by (auto simp: idem_lookup_def leak_def idem_count_def jm_sum_set jm_size_set)
next
  case None
  have ok: "idem_ok (conv_cap env) st" using idem.inv_reachable[OF assms(1)] by (simp add: idem_inv_def)
  have none: "idem_lookup cid crid st' = None" if "evicts_to (conv_cap env) st st'" for st'
    using that None by (cases "idem_lookup cid crid st'") (auto simp: evicts_to_def adds_none_def)
  have keep: "idem_lookup c k st' = Some e" if "evicts_to (conv_cap env) st st'" "idem_lookup c k st = Some e"
    "\<not> isCompletedIdempotencyEntry e" for st' c k e
    using that by (auto simp: evicts_to_def keeps_inflight_def)
  show ?thesis
  proof (cases rule: set_new_result[OF ok None, of entry])
    case (1 err st')
    then show ?thesis using none keep assms(2) by simp
  next
    case (2 st' B)
    have lk: "leak st' = leak st" using 2(2) by (simp add: evicts_to_def)
    show ?thesis
    proof (cases "jm_has (relayIdempotencyByConversation st') cid")
      case True
      obtain m where m: "jm_get (relayIdempotencyByConversation st') cid = Some m" "jm_get m crid = None"
        "jm_size m \<le> B cid" by (rule attached_map[OF 2(4) True none[OF 2(2)]])
      have sz: "jm_size m + 1 \<le> conv_cap env cid" using m(3) 2(5) by simp
      show ?thesis
        using write_entry_attached(2,3)[OF 2(4) m(1,2) sz 2(6), where entry = entry] lk keep[OF 2(2)] 2(1) assms(2) by auto
    next
      case False
      then have "jm_get (relayIdempotencyByConversation st') cid = None" by (simp add: jm_has_def)
      then show ?thesis
        using write_entry_detached(3)[of st' cid] keep[OF 2(2)] 2(1) 2(7) False None assms(2) by auto
    qed
  qed
qed

theorem idempotency_set_stores_and_pins_witness:
  "fst (setRelayIdempotencyEntry sample_idem_env ''c2'' ''k2'' flying_entry (sample_idem_store done_entry)) = Inr () \<and>
   idem_lookup ''c2'' ''k2'' (snd (setRelayIdempotencyEntry sample_idem_env ''c2'' ''k2'' flying_entry
     (sample_idem_store done_entry))) = Some flying_entry \<and>
   fst (setRelayIdempotencyEntry sample_idem_env ''c2'' ''k2'' done_entry (sample_idem_store flying_entry)) =
     Inl GlobalIdempotencyCapReached \<and>
   idem_lookup ''c1'' ''k1'' (snd (setRelayIdempotencyEntry sample_idem_env ''c2'' ''k2'' done_entry
     (sample_idem_store flying_entry))) = Some flying_entry"
proof -
  have v: "fst (setRelayIdempotencyEntry sample_idem_env ''c2'' ''k2'' flying_entry
      (sample_idem_store done_entry)) = Inr ()"
    "idem_lookup ''c2'' ''k2'' (snd (setRelayIdempotencyEntry sample_idem_env ''c2'' ''k2'' flying_entry
      (sample_idem_store done_entry))) = Some flying_entry"
    "fst (setRelayIdempotencyEntry sample_idem_env ''c2'' ''k2'' done_entry (sample_idem_store flying_entry)) =
      Inl GlobalIdempotencyCapReached"
    "idem_lookup ''c1'' ''k1'' (sample_idem_store flying_entry) = Some flying_entry"
    "\<not> isCompletedIdempotencyEntry flying_entry"
    by code_simp+
  show ?thesis
    using idempotency_set_stores_and_pins[OF sample_idem_reachable[of flying_entry] refl,
        where cid = "''c2''" and crid = "''k2''" and entry = done_entry] v
    by auto
qed


text \<open>the periodic prune removes exactly the dead entries: those past their expiry which are completed,
  or whose request is no longer registered. In particular an entry whose request is still
  registered in the relay registry survives however late it is, unless it already has its response.\<close>

theorem idempotency_prune_exact:
  assumes "reachable new_idem_store (idem_step env) st"
  shows "idem_lookup cid crid (pruneExpiredRelayIdempotencyEntries routes nowMs st) =
    (case idem_lookup cid crid st of
       None \<Rightarrow> None
     | Some e \<Rightarrow>
         if ie_expiresAtMs e \<le> nowMs \<and>
            (isCompletedIdempotencyEntry e \<or> getRelayRequestRoute (ie_requestId e) routes = None)
         then None else Some e)"
proof -
  have "idem_ok (conv_cap env) st" using idem.inv_reachable[OF assms] by (simp add: idem_inv_def)
  then have "jm_wf (relayIdempotencyByConversation st)" "\<forall>p\<in>set (relayIdempotencyByConversation st). jm_wf (snd p)"
    by (auto simp: idem_ok_def)
  from prune_scan_lookup[OF this] show ?thesis
    by (auto simp: idem_lookup_conv prune_eqs idem_expired_def split: option.splits)
qed

theorem idempotency_prune_exact_witness:
  "idem_lookup ''c1'' ''k1'' (sample_idem_store flying_entry) = Some flying_entry \<and>
   idem_lookup ''c1'' ''k1'' (pruneExpiredRelayIdempotencyEntries new_relay_registry 200
     (sample_idem_store flying_entry)) = None"
proof -
  have "idem_lookup ''c1'' ''k1'' (sample_idem_store flying_entry) = Some flying_entry"
    "ie_expiresAtMs flying_entry \<le> 200"
    "getRelayRequestRoute (ie_requestId flying_entry) new_relay_registry = None"
    by code_simp+
  then show ?thesis
    using idempotency_prune_exact[OF sample_idem_reachable, of "''c1''" "''k1''" new_relay_registry 200 flying_entry]
    by simp
qed

text \<open>C27: a duplicate that waited is answered, and so is one that comes later. A consumer socket that joined
  an entry in flight is among the sockets returned for replay when the response is persisted, with
  every socket that joined before it, and until the entry expires any later duplicate finds that
  response.\<close>

theorem idempotent_replay_reaches_waiters:
  assumes "idem_lookup cid crid st = Some e" "crid \<noteq> []"
    and "joined = joinWaiters cid crid sid st"
    and "(waiters, st') =
      persistRelayIdempotentResponseFrame env ttlMs nowMs True cid (Some crid) requestId frame joined"
  shows "(\<exists>ws. waiters = Some ws \<and> sid \<in> set ws \<and>
      (\<forall>old. ie_pendingReplayConsumerSocketIds e = Some old \<longrightarrow> set old \<subseteq> set ws)) \<and>
    (laterMs < nowMs + ttlMs \<longrightarrow>
      (\<exists>dup. findDuplicate laterMs cid crid st' = Some dup \<and> ie_responseFrame dup = Some frame))"
proof -
  obtain m where m: "jm_get (relayIdempotencyByConversation st) cid = Some m" "jm_get m crid = Some e"
    using assms(1) by (auto simp: idem_lookup_def split: option.splits)
  show ?thesis
    using assms m
    by (auto simp: joinWaiters_def conv_map_def Let_def persistRelayIdempotentResponseFrame_def
        getOrCreateRelayIdempotencyMap_def setRelayIdempotencyEntry_def findDuplicate_def idem_lookup_def
        split: option.splits)
qed

theorem idempotent_replay_reaches_waiters_witness:
  "\<exists>ws. fst (persistRelayIdempotentResponseFrame sample_idem_env 50 10 True ''c1'' (Some ''k1'') ''r2'' ''frame''
     (joinWaiters ''c1'' ''k1'' ''s9'' (sample_idem_store flying_entry))) = Some ws \<and> ''s9'' \<in> set ws"
proof -
  have "idem_lookup ''c1'' ''k1'' (sample_idem_store flying_entry) = Some flying_entry" by code_simp
  from idempotent_replay_reaches_waiters[OF this _ refl, where sid = "''s9''" and env = sample_idem_env
      and ttlMs = 50 and nowMs = 10 and requestId = "''r2''" and frame = "''frame''", OF _ prod.collapse]
  show ?thesis by blast
qed

end
