(* ===== verification/Active_Stream_Registry.thy ===== *)
theory Active_Stream_Registry
  imports Registry_Index
begin

text \<open>
  \<^verbatim>\<open>src/presentation/socket/hub/registries/active_stream_registry.ts\<close>: the streams being relayed or
  materialized, by request id and by stream id, with the indexes used on disconnect, the
  open-stream counter per agent socket and the gauge of REST materializations in flight. With
  it \<^verbatim>\<open>relay_stream_timeout_registry.ts\<close> (idle and lifetime timers), the credit window of
  \<^verbatim>\<open>relay/rest_sql_stream_materialize.ts\<close>, and the materialization branch of
  \<^verbatim>\<open>failFastInvalidAgentStreamFrame\<close> in \<^verbatim>\<open>relay/rpc_bridge_relay_fail_fast.ts\<close>.

  Both maps of the source hold the same route objects. Here the request-id map holds the route
  and the stream-id map holds the request id of its route, and the operations that take a
  route take the registered one by its request id, which is how the callers obtain it. An id
  read from a payload is \<open>None\<close> when \<^verbatim>\<open>toRequestId\<close> gives \<^verbatim>\<open>null\<close>; the empty string counts as absent,
  as in the source's truthiness tests. The chunk handlers of a route are not carried.
\<close>

datatype stream_mode = LegacyMode | RelayMode

record mat_state =
  mt_settled :: bool
  mt_timeoutHandle :: nat
  mt_agentId :: string

record stream_route =
  sr_consumerSocketId :: string
  sr_agentSocketId :: string
  sr_agentId :: string
  sr_requestId :: string
  sr_conversationId :: "string option"
  sr_mode :: stream_mode
  sr_streamId :: "string option"
  sr_restMaterializeState :: "mat_state option"

record stream_registry =
  activeStreamsByRequestId :: "(string, stream_route) jsmap"
  activeStreamsByStreamId :: "(string, string) jsmap"
  activeStreamRequestIdsByConversation :: "(string, string) index"
  streamRequestIdsByConsumer :: "(string, string) index"
  streamRequestIdsByAgent :: "(string, string) index"
  openStreamCountByAgentSocketId :: "string counter"
  restMaterializeStreamsInFlight :: int

record stream_input =
  si_requestId :: string
  si_agentSocketId :: string
  si_agentId :: string
  si_consumerSocketId :: string
  si_conversationId :: "string option"
  si_mode :: "stream_mode option"
  si_streamId :: "string option"
  si_restMaterializeState :: "mat_state option"

datatype stream_error = StreamIdTaken | AgentSocketMismatch | AgentIdMismatch

datatype stream_effect =
  ClearRelayStreamTimeouts string
| ClearMaterializeTimer nat
| RegisterAgentFailure string
| RejectMaterialize string
| RestSqlStreamMaterializeClearRequest string

datatype remove_mode = AbortMaterialize | DetachMaterialize

section \<open>Operations\<close>

definition new_stream_registry :: stream_registry where
  "new_stream_registry = \<lparr>activeStreamsByRequestId = [], activeStreamsByStreamId = [],
     activeStreamRequestIdsByConversation = [], streamRequestIdsByConsumer = [],
     streamRequestIdsByAgent = [], openStreamCountByAgentSocketId = [],
     restMaterializeStreamsInFlight = 0\<rparr>"

definition truthy :: "string option \<Rightarrow> string option" where
  "truthy x = (case x of None \<Rightarrow> None | Some s \<Rightarrow> if s = [] then None else Some s)"

definition incrementOpenStreamCount :: "string \<Rightarrow> string counter \<Rightarrow> string counter" where
  "incrementOpenStreamCount agentSocketId c =
     jm_set agentSocketId ((case jm_get c agentSocketId of None \<Rightarrow> 0 | Some n \<Rightarrow> n) + 1) c"

definition decrementOpenStreamCount :: "string \<Rightarrow> string counter \<Rightarrow> string counter" where
  "decrementOpenStreamCount agentSocketId c =
     (case jm_get c agentSocketId of
        None \<Rightarrow> jm_del agentSocketId c
      | Some current \<Rightarrow>
          if current \<le> 1 then jm_del agentSocketId c else jm_set agentSocketId (current - 1) c)"

definition getActiveStreamRouteByRequestId :: "string \<Rightarrow> stream_registry \<Rightarrow> stream_route option" where
  "getActiveStreamRouteByRequestId rid st = jm_get (activeStreamsByRequestId st) rid"

definition getActiveStreamRouteByStreamId :: "string \<Rightarrow> stream_registry \<Rightarrow> stream_route option" where
  "getActiveStreamRouteByStreamId sid st =
     (case jm_get (activeStreamsByStreamId st) sid of
        None \<Rightarrow> None | Some rid \<Rightarrow> jm_get (activeStreamsByRequestId st) rid)"

definition listStreamRequestIdsForConsumer :: "string \<Rightarrow> stream_registry \<Rightarrow> string list" where
  "listStreamRequestIdsForConsumer sid st = idx_get (streamRequestIdsByConsumer st) sid"

definition listStreamRequestIdsForAgent :: "string \<Rightarrow> stream_registry \<Rightarrow> string list" where
  "listStreamRequestIdsForAgent sid st = idx_get (streamRequestIdsByAgent st) sid"

definition countStreamRoutesForAgent :: "string \<Rightarrow> stream_registry \<Rightarrow> int" where
  "countStreamRoutesForAgent sid st = int (length (idx_get (streamRequestIdsByAgent st) sid))"

definition countOpenStreamRoutesForAgent :: "string \<Rightarrow> stream_registry \<Rightarrow> int" where
  "countOpenStreamRoutesForAgent sid st = cnt_get (openStreamCountByAgentSocketId st) sid"

definition listActiveStreamRequestIdsForConversation :: "string \<Rightarrow> stream_registry \<Rightarrow> string list" where
  "listActiveStreamRequestIdsForConversation cid st = idx_get (activeStreamRequestIdsByConversation st) cid"

text \<open>
  Settling a pending materialization: the flag on the route's state, the gauge and the timer;
  the abort also reports the failure and rejects the HTTP promise.
\<close>

definition settle_mat :: "mat_state \<Rightarrow> string \<Rightarrow> stream_registry \<Rightarrow> stream_registry" where
  "settle_mat mat rid st =
     (case jm_get (activeStreamsByRequestId st) rid of
        None \<Rightarrow> st
      | Some route \<Rightarrow>
          st\<lparr>activeStreamsByRequestId :=
               jm_set rid (route\<lparr>sr_restMaterializeState := Some (mat\<lparr>mt_settled := True\<rparr>)\<rparr>)
                 (activeStreamsByRequestId st),
             restMaterializeStreamsInFlight := max 0 (restMaterializeStreamsInFlight st - 1)\<rparr>)"

definition abortRestMaterializeIfPending ::
  "stream_route \<Rightarrow> stream_registry \<Rightarrow> stream_effect list \<times> stream_registry" where
  "abortRestMaterializeIfPending route st =
     (case sr_restMaterializeState route of
        None \<Rightarrow> ([], st)
      | Some mat \<Rightarrow>
          if mt_settled mat then ([], st)
          else ([ClearMaterializeTimer (mt_timeoutHandle mat), RegisterAgentFailure (mt_agentId mat),
                 RejectMaterialize (sr_requestId route)],
                settle_mat mat (sr_requestId route) st))"

definition detachRestMaterializeIfPending ::
  "stream_route \<Rightarrow> stream_registry \<Rightarrow> stream_effect list \<times> stream_registry" where
  "detachRestMaterializeIfPending route st =
     (case sr_restMaterializeState route of
        None \<Rightarrow> ([], st)
      | Some mat \<Rightarrow>
          if mt_settled mat then ([], st)
          else ([ClearMaterializeTimer (mt_timeoutHandle mat)], settle_mat mat (sr_requestId route) st))"

definition settleRestMaterializeSuccess ::
  "string \<Rightarrow> stream_registry \<Rightarrow> stream_effect list \<times> stream_registry" where
  "settleRestMaterializeSuccess rid st =
     (case getActiveStreamRouteByRequestId rid st of
        None \<Rightarrow> ([], st) | Some route \<Rightarrow> detachRestMaterializeIfPending route st)"

definition drop_route :: "stream_route \<Rightarrow> stream_registry \<Rightarrow> stream_registry" where
  "drop_route route st =
     st\<lparr>activeStreamsByRequestId := jm_del (sr_requestId route) (activeStreamsByRequestId st),
        activeStreamsByStreamId :=
          (case truthy (sr_streamId route) of
             None \<Rightarrow> activeStreamsByStreamId st | Some sid \<Rightarrow> jm_del sid (activeStreamsByStreamId st)),
        openStreamCountByAgentSocketId :=
          (case truthy (sr_streamId route) of
             None \<Rightarrow> openStreamCountByAgentSocketId st
           | Some sid \<Rightarrow> decrementOpenStreamCount (sr_agentSocketId route) (openStreamCountByAgentSocketId st)),
        activeStreamRequestIdsByConversation :=
          (case truthy (sr_conversationId route) of
             None \<Rightarrow> activeStreamRequestIdsByConversation st
           | Some cid \<Rightarrow> removeIndexValue (activeStreamRequestIdsByConversation st) cid (sr_requestId route)),
        streamRequestIdsByConsumer :=
          removeIndexValue (streamRequestIdsByConsumer st) (sr_consumerSocketId route) (sr_requestId route),
        streamRequestIdsByAgent :=
          removeIndexValue (streamRequestIdsByAgent st) (sr_agentSocketId route) (sr_requestId route)\<rparr>"

definition removeActiveStreamRoute ::
  "remove_mode \<Rightarrow> string \<Rightarrow> stream_registry \<Rightarrow> stream_effect list \<times> stream_registry" where
  "removeActiveStreamRoute mode rid st =
     (case getActiveStreamRouteByRequestId rid st of
        None \<Rightarrow> ([], st)
      | Some route \<Rightarrow>
          (let (eff, st1) = (case mode of
                  DetachMaterialize \<Rightarrow> detachRestMaterializeIfPending route st
                | AbortMaterialize \<Rightarrow> abortRestMaterializeIfPending route st)
           in (ClearRelayStreamTimeouts rid # eff @ [RestSqlStreamMaterializeClearRequest rid],
               drop_route route st1)))"

definition update_existing :: "stream_input \<Rightarrow> stream_route \<Rightarrow> stream_registry \<Rightarrow> stream_route \<times> stream_registry"
where
  "update_existing input existing st =
     (let gauge = (if si_restMaterializeState input \<noteq> None \<and> sr_restMaterializeState existing = None
                   then restMaterializeStreamsInFlight st + 1 else restMaterializeStreamsInFlight st)
      in case truthy (si_streamId input) of
           None \<Rightarrow>
             (existing,
              st\<lparr>restMaterializeStreamsInFlight := gauge,
                 activeStreamsByStreamId :=
                   (case truthy (sr_streamId existing) of
                      None \<Rightarrow> activeStreamsByStreamId st
                    | Some old \<Rightarrow> jm_set old (si_requestId input) (activeStreamsByStreamId st))\<rparr>)
         | Some sid \<Rightarrow>
             (let byStream = (case truthy (sr_streamId existing) of
                     None \<Rightarrow> activeStreamsByStreamId st
                   | Some old \<Rightarrow> if old \<noteq> sid then jm_del old (activeStreamsByStreamId st)
                                 else activeStreamsByStreamId st);
                  counts = (case truthy (sr_streamId existing) of
                     None \<Rightarrow> incrementOpenStreamCount (si_agentSocketId input) (openStreamCountByAgentSocketId st)
                   | Some _ \<Rightarrow> openStreamCountByAgentSocketId st);
                  route = existing\<lparr>sr_streamId := Some sid\<rparr>
              in (route,
                  st\<lparr>restMaterializeStreamsInFlight := gauge,
                     activeStreamsByRequestId := jm_set (si_requestId input) route (activeStreamsByRequestId st),
                     activeStreamsByStreamId := jm_set sid (si_requestId input) byStream,
                     openStreamCountByAgentSocketId := counts\<rparr>)))"

definition create_route :: "stream_input \<Rightarrow> stream_registry \<Rightarrow> stream_route \<times> stream_registry" where
  "create_route input st =
     (let route = \<lparr>sr_consumerSocketId = si_consumerSocketId input, sr_agentSocketId = si_agentSocketId input,
            sr_agentId = si_agentId input, sr_requestId = si_requestId input,
            sr_conversationId = truthy (si_conversationId input),
            sr_mode = (case si_mode input of None \<Rightarrow> LegacyMode | Some m \<Rightarrow> m),
            sr_streamId = truthy (si_streamId input),
            sr_restMaterializeState = si_restMaterializeState input\<rparr>
      in (route,
          st\<lparr>restMaterializeStreamsInFlight :=
               (if si_restMaterializeState input \<noteq> None then restMaterializeStreamsInFlight st + 1
                else restMaterializeStreamsInFlight st),
             streamRequestIdsByConsumer :=
               addIndexValue (streamRequestIdsByConsumer st) (sr_consumerSocketId route) (sr_requestId route),
             streamRequestIdsByAgent :=
               addIndexValue (streamRequestIdsByAgent st) (sr_agentSocketId route) (sr_requestId route),
             openStreamCountByAgentSocketId :=
               (case sr_streamId route of
                  None \<Rightarrow> openStreamCountByAgentSocketId st
                | Some _ \<Rightarrow> incrementOpenStreamCount (sr_agentSocketId route) (openStreamCountByAgentSocketId st)),
             activeStreamsByRequestId := jm_set (sr_requestId route) route (activeStreamsByRequestId st),
             activeStreamsByStreamId :=
               (case sr_streamId route of
                  None \<Rightarrow> activeStreamsByStreamId st
                | Some sid \<Rightarrow> jm_set sid (sr_requestId route) (activeStreamsByStreamId st)),
             activeStreamRequestIdsByConversation :=
               (case sr_conversationId route of
                  None \<Rightarrow> activeStreamRequestIdsByConversation st
                | Some cid \<Rightarrow>
                    addIndexValue (activeStreamRequestIdsByConversation st) cid (sr_requestId route))\<rparr>))"

definition upsertActiveStreamRoute ::
  "stream_input \<Rightarrow> stream_registry \<Rightarrow> (stream_error + stream_route) \<times> stream_registry" where
  "upsertActiveStreamRoute input st =
     (let existing = jm_get (activeStreamsByRequestId st) (si_requestId input);
          existingByStreamId = (case truthy (si_streamId input) of
             None \<Rightarrow> None | Some sid \<Rightarrow> getActiveStreamRouteByStreamId sid st)
      in if (case existingByStreamId of None \<Rightarrow> False | Some r \<Rightarrow> sr_requestId r \<noteq> si_requestId input)
         then (Inl StreamIdTaken, st)
         else case existing of
                Some route \<Rightarrow>
                  if sr_agentSocketId route \<noteq> si_agentSocketId input then (Inl AgentSocketMismatch, st)
                  else if sr_agentId route \<noteq> si_agentId input then (Inl AgentIdMismatch, st)
                  else let (r, st') = update_existing input route st in (Inr r, st')
              | None \<Rightarrow> let (r, st') = create_route input st in (Inr r, st'))"

definition resolveActiveStreamRoute ::
  "string \<Rightarrow> string option \<Rightarrow> string option \<Rightarrow> stream_registry \<Rightarrow> stream_route option \<times> stream_registry" where
  "resolveActiveStreamRoute socketId streamId requestId st =
     (let byStream = (case truthy streamId of None \<Rightarrow> None | Some sid \<Rightarrow> getActiveStreamRouteByStreamId sid st);
          byRequest = (case truthy requestId of None \<Rightarrow> None | Some rid \<Rightarrow> getActiveStreamRouteByRequestId rid st)
      in if (case (byStream, byRequest) of
               (Some a, Some b) \<Rightarrow> sr_requestId a \<noteq> sr_requestId b | _ \<Rightarrow> False)
         then (None, st)
         else case (case byStream of Some a \<Rightarrow> Some a | None \<Rightarrow> byRequest) of
                None \<Rightarrow> (None, st)
              | Some route \<Rightarrow>
                  if sr_agentSocketId route \<noteq> socketId then (None, st)
                  else case (truthy streamId, truthy (sr_streamId route)) of
                         (Some sid, None) \<Rightarrow>
                           (let route' = route\<lparr>sr_streamId := Some sid\<rparr>
                            in (Some route',
                                st\<lparr>activeStreamsByRequestId :=
                                     jm_set (sr_requestId route) route' (activeStreamsByRequestId st),
                                   activeStreamsByStreamId :=
                                     jm_set sid (sr_requestId route) (activeStreamsByStreamId st),
                                   openStreamCountByAgentSocketId :=
                                     incrementOpenStreamCount (sr_agentSocketId route)
                                       (openStreamCountByAgentSocketId st)\<rparr>))
                       | _ \<Rightarrow> (Some route, st))"

definition resetActiveStreamRegistry :: "stream_registry \<Rightarrow> stream_effect list \<times> stream_registry" where
  "resetActiveStreamRegistry st =
     (concat (map (\<lambda>(_, route). fst (abortRestMaterializeIfPending route st)) (activeStreamsByRequestId st)),
      new_stream_registry)"

text \<open>\<^verbatim>\<open>failFastInvalidAgentStreamFrame\<close>, the branch for a stream that is being materialized: it sets
  \<^verbatim>\<open>settled\<close> itself before it removes the route in detach mode.\<close>

definition failFastMaterialize ::
  "string \<Rightarrow> string \<Rightarrow> stream_registry \<Rightarrow> stream_effect list \<times> stream_registry" where
  "failFastMaterialize socketId rid st =
     (case getActiveStreamRouteByRequestId rid st of
        None \<Rightarrow> ([], st)
      | Some route \<Rightarrow>
          if sr_agentSocketId route \<noteq> socketId then ([], st)
          else case sr_restMaterializeState route of
                 None \<Rightarrow> ([], st)
               | Some mat \<Rightarrow>
                   if mt_settled mat then ([], st)
                   else let st1 = st\<lparr>activeStreamsByRequestId :=
                               jm_set rid (route\<lparr>sr_restMaterializeState := Some (mat\<lparr>mt_settled := True\<rparr>)\<rparr>)
                                 (activeStreamsByRequestId st)\<rparr>;
                            (eff, st2) = removeActiveStreamRoute DetachMaterialize rid st1
                        in ([ClearMaterializeTimer (mt_timeoutHandle mat), RegisterAgentFailure (mt_agentId mat)]
                              @ eff @ [RejectMaterialize rid], st2))"

section \<open>Invariant\<close>

definition open_agent :: "stream_route \<Rightarrow> string option" where
  "open_agent r = (if sr_streamId r = None then None else Some (sr_agentSocketId r))"

definition mat_pending :: "stream_route \<Rightarrow> int" where
  "mat_pending r = (case sr_restMaterializeState r of None \<Rightarrow> 0 | Some m \<Rightarrow> if mt_settled m then 0 else 1)"

definition pending_mats :: "stream_registry \<Rightarrow> int" where
  "pending_mats st = jm_sum mat_pending (activeStreamsByRequestId st)"

definition routes_ok :: "stream_registry \<Rightarrow> bool" where
  "routes_ok st \<longleftrightarrow> jm_wf (activeStreamsByRequestId st) \<and>
     (\<forall>i r. jm_get (activeStreamsByRequestId st) i = Some r \<longrightarrow>
        sr_requestId r = i \<and> sr_streamId r \<noteq> Some [] \<and> sr_conversationId r \<noteq> Some [])"

definition sid_of :: "stream_registry \<Rightarrow> string \<Rightarrow> string option" where
  "sid_of st rid =
     (case jm_get (activeStreamsByRequestId st) rid of None \<Rightarrow> None | Some r \<Rightarrow> sr_streamId r)"

definition stream_ids_ok :: "stream_registry \<Rightarrow> bool" where
  "stream_ids_ok st \<longleftrightarrow>
     (\<forall>sid rid. jm_get (activeStreamsByStreamId st) sid = Some rid \<longleftrightarrow> sid_of st rid = Some sid)"

definition stream_indexes_ok :: "stream_registry \<Rightarrow> bool" where
  "stream_indexes_ok st \<longleftrightarrow>
     index_ok sr_conversationId (activeStreamsByRequestId st) (activeStreamRequestIdsByConversation st) \<and>
     index_ok (\<lambda>r. Some (sr_consumerSocketId r)) (activeStreamsByRequestId st) (streamRequestIdsByConsumer st) \<and>
     index_ok (\<lambda>r. Some (sr_agentSocketId r)) (activeStreamsByRequestId st) (streamRequestIdsByAgent st)"

definition open_counts_ok :: "stream_registry \<Rightarrow> bool" where
  "open_counts_ok st \<longleftrightarrow> cnt_wf (openStreamCountByAgentSocketId st) \<and>
     (\<forall>a. cnt_get (openStreamCountByAgentSocketId st) a = attr_count open_agent (activeStreamsByRequestId st) a)"

definition stream_inv :: "stream_registry \<Rightarrow> bool" where
  "stream_inv st \<longleftrightarrow> routes_ok st \<and> stream_ids_ok st \<and> stream_indexes_ok st \<and> open_counts_ok st \<and>
     pending_mats st \<le> restMaterializeStreamsInFlight st"

lemma truthy_simps [simp]:
  "truthy None = None" "truthy (Some s) = (if s = [] then None else Some s)"
  "x \<noteq> Some [] \<Longrightarrow> truthy x = x" "truthy x \<noteq> Some []"
  by (auto simp: truthy_def split: option.splits)

lemma increment_open [simp]: "incrementOpenStreamCount a c = incrementCounter c a"
  by (simp add: incrementOpenStreamCount_def incrementCounter_def)

lemma decrement_open [simp]: "decrementOpenStreamCount a c = decrementCounter c a"
  by (auto simp: decrementOpenStreamCount_def decrementCounter_def Let_def split: option.splits)

lemma mat_pending_nonneg [simp]: "0 \<le> mat_pending r"
  by (simp add: mat_pending_def split: option.splits)

lemma mat_pending_le:
  assumes "routes_ok st" "jm_get (activeStreamsByRequestId st) rid = Some r"
  shows "mat_pending r \<le> pending_mats st"
  unfolding pending_mats_def using assms by (intro jm_sum_ge_one) (auto simp: routes_ok_def)

lemma stream_inv_new: "stream_inv new_stream_registry"
  by (simp add: stream_inv_def routes_ok_def stream_ids_ok_def stream_indexes_ok_def open_counts_ok_def
      pending_mats_def new_stream_registry_def sid_of_def)

lemmas stream_parts = stream_inv_def routes_ok_def stream_ids_ok_def stream_indexes_ok_def
  open_counts_ok_def pending_mats_def

text \<open>Replacing a registered route by one that differs in its materialization only.\<close>

lemma stream_inv_mat:
  assumes "stream_inv st" "jm_get (activeStreamsByRequestId st) rid = Some r"
    and "pending_mats st - mat_pending r + mat_pending (r\<lparr>sr_restMaterializeState := m\<rparr>) \<le> g"
  shows "stream_inv (st\<lparr>activeStreamsByRequestId :=
      jm_set rid (r\<lparr>sr_restMaterializeState := m\<rparr>) (activeStreamsByRequestId st),
    restMaterializeStreamsInFlight := g\<rparr>)"
proof -
  let ?r = "r\<lparr>sr_restMaterializeState := m\<rparr>"
  let ?m = "activeStreamsByRequestId st"
  have attr: "attr_count open_agent (jm_set rid ?r ?m) a = attr_count open_agent ?m a" for a
    using assms(2) by (simp add: attr_count_set open_agent_def)
  have ids: "sid_of (st\<lparr>activeStreamsByRequestId := jm_set rid ?r ?m, restMaterializeStreamsInFlight := g\<rparr>) i =
      sid_of st i" for i
    using assms(2) by (simp add: sid_of_def)
  show ?thesis
    using assms attr ids
    unfolding stream_inv_def routes_ok_def stream_ids_ok_def stream_indexes_ok_def open_counts_ok_def
    by (auto simp: pending_mats_def jm_sum_set intro!: index_ok_update)
qed

lemma settle_mat_inv:
  assumes "stream_inv st" "jm_get (activeStreamsByRequestId st) rid = Some r"
    and "sr_restMaterializeState r = Some mat" "\<not> mt_settled mat"
  shows "stream_inv (settle_mat mat rid st)"
    and "restMaterializeStreamsInFlight (settle_mat mat rid st) - pending_mats (settle_mat mat rid st) =
      restMaterializeStreamsInFlight st - pending_mats st"
    and "jm_get (activeStreamsByRequestId (settle_mat mat rid st)) rid =
      Some (r\<lparr>sr_restMaterializeState := Some (mat\<lparr>mt_settled := True\<rparr>)\<rparr>)"
proof -
  have p: "mat_pending r = 1" using assms(3,4) by (simp add: mat_pending_def)
  have le: "1 \<le> pending_mats st" "pending_mats st \<le> restMaterializeStreamsInFlight st"
    using mat_pending_le[of st rid r] assms p by (auto simp: stream_inv_def)
  let ?s = "mat\<lparr>mt_settled := True\<rparr>"
  have q: "mat_pending (r\<lparr>sr_restMaterializeState := Some ?s\<rparr>) = 0" by (simp add: mat_pending_def)
  have e: "settle_mat mat rid st = st\<lparr>activeStreamsByRequestId :=
      jm_set rid (r\<lparr>sr_restMaterializeState := Some ?s\<rparr>) (activeStreamsByRequestId st),
    restMaterializeStreamsInFlight := restMaterializeStreamsInFlight st - 1\<rparr>"
    using assms(2) le by (simp add: settle_mat_def)
  show "stream_inv (settle_mat mat rid st)"
    unfolding e using le p q by (intro stream_inv_mat[OF assms(1,2)]) simp
  show "restMaterializeStreamsInFlight (settle_mat mat rid st) - pending_mats (settle_mat mat rid st) =
      restMaterializeStreamsInFlight st - pending_mats st"
    unfolding e using assms(2) p q by (simp add: pending_mats_def jm_sum_set)
  show "jm_get (activeStreamsByRequestId (settle_mat mat rid st)) rid =
      Some (r\<lparr>sr_restMaterializeState := Some ?s\<rparr>)"
    unfolding e by simp
qed

text \<open>Dropping a registered route.\<close>

lemma drop_route_inv:
  assumes inv: "stream_inv st" and g: "jm_get (activeStreamsByRequestId st) rid = Some q"
    and same: "sr_requestId r = rid" "sr_streamId r = sr_streamId q" "sr_agentSocketId r = sr_agentSocketId q"
      "sr_conversationId r = sr_conversationId q" "sr_consumerSocketId r = sr_consumerSocketId q"
  shows "stream_inv (drop_route r st)"
    and "pending_mats (drop_route r st) = pending_mats st - mat_pending q"
    and "restMaterializeStreamsInFlight (drop_route r st) = restMaterializeStreamsInFlight st"
proof -
  have ok: "routes_ok st" "stream_ids_ok st" "stream_indexes_ok st" "open_counts_ok st"
    "pending_mats st \<le> restMaterializeStreamsInFlight st"
    using inv by (auto simp: stream_inv_def)
  have wf: "jm_wf (activeStreamsByRequestId st)" and ne: "sr_streamId q \<noteq> Some []" "sr_conversationId q \<noteq> Some []"
    using ok(1) g by (auto simp: routes_ok_def)
  note D = drop_route_def same ne
  show pm: "pending_mats (drop_route r st) = pending_mats st - mat_pending q"
    using g wf by (simp add: D pending_mats_def jm_sum_del)
  show gu: "restMaterializeStreamsInFlight (drop_route r st) = restMaterializeStreamsInFlight st"
    by (simp add: D)
  have "pending_mats (drop_route r st) \<le> restMaterializeStreamsInFlight (drop_route r st)"
    using ok(5) pm gu mat_pending_nonneg[of q] by linarith
  moreover have "routes_ok (drop_route r st)" using ok(1) by (auto simp: routes_ok_def D)
  moreover have "stream_ids_ok (drop_route r st)"
    unfolding stream_ids_ok_def
  proof (intro allI)
    fix sid i
    have iff: "jm_get (activeStreamsByStreamId st) sid = Some j \<longleftrightarrow> sid_of st j = Some sid" for j
      using ok(2) by (simp add: stream_ids_ok_def)
    have own: "sid_of st rid = sr_streamId q" using g by (simp add: sid_of_def)
    have new: "sid_of (drop_route r st) i = (if i = rid then None else sid_of st i)"
      "jm_get (activeStreamsByStreamId (drop_route r st)) sid =
         (if sr_streamId q = Some sid then None else jm_get (activeStreamsByStreamId st) sid)"
      by (auto simp: sid_of_def D split: option.splits)
    show "jm_get (activeStreamsByStreamId (drop_route r st)) sid = Some i \<longleftrightarrow>
        sid_of (drop_route r st) i = Some sid"
      unfolding new using iff[of i] iff[of rid] own by (cases "i = rid") auto
  qed
  moreover have "stream_indexes_ok (drop_route r st)"
    using ok(3) g by (auto simp: stream_indexes_ok_def D intro: index_ok_remove index_ok_remove_none
        split: option.splits)
  moreover have "open_counts_ok (drop_route r st)"
    using ok(4) g wf attr_count_pos[OF wf g, of open_agent]
    by (auto simp: open_counts_ok_def D attr_count_del open_agent_def split: option.splits)
  ultimately show "stream_inv (drop_route r st)"
    by (simp add: stream_inv_def)
qed

text \<open>Removal keeps the invariant and, with \<open>settle_mat\<close> before it, the distance between the gauge and
  the materializations really pending.\<close>

definition gauge_leak :: "stream_registry \<Rightarrow> int" where
  "gauge_leak st = restMaterializeStreamsInFlight st - pending_mats st"

lemma settle_cases:
  assumes inv: "stream_inv st" and g: "jm_get (activeStreamsByRequestId st) rid = Some r"
    and eq: "snd (f r st) = (case sr_restMaterializeState r of None \<Rightarrow> st
       | Some mat \<Rightarrow> if mt_settled mat then st else settle_mat mat (sr_requestId r) st)"
  shows "stream_inv (snd (f r st))" "gauge_leak (snd (f r st)) = gauge_leak st"
    "\<exists>q. jm_get (activeStreamsByRequestId (snd (f r st))) rid = Some q \<and> mat_pending q = 0 \<and>
       sr_requestId q = rid \<and> sr_streamId r = sr_streamId q \<and> sr_agentSocketId r = sr_agentSocketId q \<and>
       sr_conversationId r = sr_conversationId q \<and> sr_consumerSocketId r = sr_consumerSocketId q"
proof -
  have rid: "sr_requestId r = rid" using inv g by (auto simp: stream_inv_def routes_ok_def)
  consider "snd (f r st) = st" "mat_pending r = 0"
    | mat where "snd (f r st) = settle_mat mat rid st" "sr_restMaterializeState r = Some mat" "\<not> mt_settled mat"
    using eq rid by (cases "sr_restMaterializeState r") (auto simp: mat_pending_def split: if_splits)
  then have "stream_inv (snd (f r st)) \<and> gauge_leak (snd (f r st)) = gauge_leak st \<and>
    (\<exists>q. jm_get (activeStreamsByRequestId (snd (f r st))) rid = Some q \<and> mat_pending q = 0 \<and>
       sr_requestId q = rid \<and> sr_streamId r = sr_streamId q \<and> sr_agentSocketId r = sr_agentSocketId q \<and>
       sr_conversationId r = sr_conversationId q \<and> sr_consumerSocketId r = sr_consumerSocketId q)"
  proof cases
    case 1
    then show ?thesis using inv g rid by auto
  next
    case (2 mat)
    note m = settle_mat_inv[OF inv g 2(2,3)]
    show ?thesis using m rid 2(1) by (auto simp: gauge_leak_def mat_pending_def)
  qed
  then show "stream_inv (snd (f r st))" "gauge_leak (snd (f r st)) = gauge_leak st"
    "\<exists>q. jm_get (activeStreamsByRequestId (snd (f r st))) rid = Some q \<and> mat_pending q = 0 \<and>
       sr_requestId q = rid \<and> sr_streamId r = sr_streamId q \<and> sr_agentSocketId r = sr_agentSocketId q \<and>
       sr_conversationId r = sr_conversationId q \<and> sr_consumerSocketId r = sr_consumerSocketId q"
    by blast+
qed

lemma detach_snd:
  "snd (detachRestMaterializeIfPending r st) = (case sr_restMaterializeState r of None \<Rightarrow> st
     | Some mat \<Rightarrow> if mt_settled mat then st else settle_mat mat (sr_requestId r) st)"
  by (simp add: detachRestMaterializeIfPending_def split: option.splits)

lemma abort_snd:
  "snd (abortRestMaterializeIfPending r st) = (case sr_restMaterializeState r of None \<Rightarrow> st
     | Some mat \<Rightarrow> if mt_settled mat then st else settle_mat mat (sr_requestId r) st)"
  by (simp add: abortRestMaterializeIfPending_def split: option.splits)

lemma remove_snd:
  "snd (removeActiveStreamRoute mode rid st) =
     (case jm_get (activeStreamsByRequestId st) rid of None \<Rightarrow> st
      | Some r \<Rightarrow> drop_route r (snd (detachRestMaterializeIfPending r st)))"
  by (simp add: removeActiveStreamRoute_def getActiveStreamRouteByRequestId_def case_prod_beta Let_def
      detach_snd abort_snd split: option.splits remove_mode.splits)

lemma stream_remove:
  assumes "stream_inv st"
  shows "stream_inv (snd (removeActiveStreamRoute mode rid st))"
    and "gauge_leak (snd (removeActiveStreamRoute mode rid st)) = gauge_leak st"
proof -
  have "stream_inv (drop_route r (snd (detachRestMaterializeIfPending r st))) \<and>
      gauge_leak (drop_route r (snd (detachRestMaterializeIfPending r st))) = gauge_leak st"
    if g: "jm_get (activeStreamsByRequestId st) rid = Some r" for r
  proof -
    note s = settle_cases[OF assms g, of detachRestMaterializeIfPending, OF detach_snd]
    obtain q where q: "jm_get (activeStreamsByRequestId (snd (detachRestMaterializeIfPending r st))) rid = Some q"
      "mat_pending q = 0" "sr_requestId q = rid" "sr_streamId r = sr_streamId q"
      "sr_agentSocketId r = sr_agentSocketId q" "sr_conversationId r = sr_conversationId q"
      "sr_consumerSocketId r = sr_consumerSocketId q" using s(3) by blast
    have rid: "sr_requestId r = rid" using assms g by (auto simp: stream_inv_def routes_ok_def)
    note d = drop_route_inv[OF s(1) q(1) rid q(4,5,6,7)]
    show ?thesis using d s(2) q(2) by (simp add: gauge_leak_def)
  qed
  then show "stream_inv (snd (removeActiveStreamRoute mode rid st))"
    "gauge_leak (snd (removeActiveStreamRoute mode rid st)) = gauge_leak st"
    using assms by (auto simp: remove_snd split: option.splits)
qed

lemma stream_settle:
  assumes "stream_inv st"
  shows "stream_inv (snd (settleRestMaterializeSuccess rid st))"
    and "gauge_leak (snd (settleRestMaterializeSuccess rid st)) = gauge_leak st"
  using assms settle_cases(1,2)[OF assms, of rid _ detachRestMaterializeIfPending, OF _ detach_snd]
  by (auto simp: settleRestMaterializeSuccess_def getActiveStreamRouteByRequestId_def split: option.splits)

text \<open>Assigning a stream id to a registered route that has none, or replacing it.\<close>

lemma stream_assign_id:
  assumes inv: "stream_inv st" and g: "jm_get (activeStreamsByRequestId st) rid = Some r"
    and sid: "sid \<noteq> []" and free: "\<And>i. jm_get (activeStreamsByStreamId st) sid = Some i \<Longrightarrow> i = rid"
    and gauge: "restMaterializeStreamsInFlight st \<le> gg"
  shows "stream_inv (st\<lparr>restMaterializeStreamsInFlight := gg,
    activeStreamsByRequestId := jm_set rid (r\<lparr>sr_streamId := Some sid\<rparr>) (activeStreamsByRequestId st),
    activeStreamsByStreamId := jm_set sid rid (case sr_streamId r of None \<Rightarrow> activeStreamsByStreamId st
      | Some old \<Rightarrow> if old \<noteq> sid then jm_del old (activeStreamsByStreamId st) else activeStreamsByStreamId st),
    openStreamCountByAgentSocketId := (case sr_streamId r of
        None \<Rightarrow> incrementCounter (openStreamCountByAgentSocketId st) (sr_agentSocketId r)
      | Some _ \<Rightarrow> openStreamCountByAgentSocketId st)\<rparr>)" (is "stream_inv ?st")
proof -
  have ok: "routes_ok st" "stream_ids_ok st" "stream_indexes_ok st" "open_counts_ok st"
    "pending_mats st \<le> restMaterializeStreamsInFlight st"
    using inv by (auto simp: stream_inv_def)
  have "routes_ok ?st" using ok(1) g sid by (auto simp: routes_ok_def)
  moreover have "stream_ids_ok ?st"
    unfolding stream_ids_ok_def
  proof (intro allI)
    fix s i
    have iff: "jm_get (activeStreamsByStreamId st) t = Some j \<longleftrightarrow> sid_of st j = Some t" for t j
      using ok(2) by (simp add: stream_ids_ok_def)
    have own: "sid_of st rid = sr_streamId r" using g by (simp add: sid_of_def)
    have new: "sid_of ?st i = (if i = rid then Some sid else sid_of st i)"
      "jm_get (activeStreamsByStreamId ?st) s = (if s = sid then Some rid
         else if sr_streamId r = Some s then None else jm_get (activeStreamsByStreamId st) s)"
      by (auto simp: sid_of_def split: option.splits)
    show "jm_get (activeStreamsByStreamId ?st) s = Some i \<longleftrightarrow> sid_of ?st i = Some s"
      unfolding new using iff[of s i] iff[of s rid] iff[of sid i] free[of i] own by (cases "i = rid") auto
  qed
  moreover have "stream_indexes_ok ?st"
    using ok(3) g by (auto simp: stream_indexes_ok_def intro!: index_ok_update)
  moreover have "open_counts_ok ?st"
    using ok(4) g by (auto simp: open_counts_ok_def attr_count_set open_agent_def split: option.splits)
  moreover have "pending_mats ?st = pending_mats st"
    using g by (simp add: pending_mats_def jm_sum_set mat_pending_def)
  ultimately show ?thesis using ok(5) gauge by (simp add: stream_inv_def)
qed

lemma stream_input_free:
  assumes "stream_inv st" "truthy (si_streamId input) = Some sid"
    and "\<not> (case getActiveStreamRouteByStreamId sid st of None \<Rightarrow> False | Some r \<Rightarrow> sr_requestId r \<noteq> si_requestId input)"
    and "jm_get (activeStreamsByStreamId st) sid = Some i"
  shows "i = si_requestId input"
proof -
  have "sid_of st i = Some sid" using assms(1,4) by (auto simp: stream_inv_def stream_ids_ok_def)
  then obtain r where r: "jm_get (activeStreamsByRequestId st) i = Some r"
    by (auto simp: sid_of_def split: option.splits)
  then have "sr_requestId r = i" using assms(1) by (auto simp: stream_inv_def routes_ok_def)
  then show ?thesis using assms(3,4) r by (simp add: getActiveStreamRouteByStreamId_def)
qed

lemma stream_gauge: "stream_inv st \<Longrightarrow> restMaterializeStreamsInFlight st \<le> g \<Longrightarrow>
    stream_inv (st\<lparr>restMaterializeStreamsInFlight := g\<rparr>)"
  by (auto simp: stream_inv_def routes_ok_def stream_ids_ok_def stream_indexes_ok_def open_counts_ok_def
      pending_mats_def sid_of_def)

lemma stream_same_id:
  assumes "stream_inv st" "jm_get (activeStreamsByRequestId st) rid = Some r" "sr_streamId r = Some old"
  shows "jm_set old rid (activeStreamsByStreamId st) = activeStreamsByStreamId st"
proof -
  have "sid_of st rid = Some old" using assms(2,3) by (simp add: sid_of_def)
  then have g: "jm_get (activeStreamsByStreamId st) old = Some rid"
    using assms(1) by (auto simp: stream_inv_def stream_ids_ok_def)
  have "jm_get m k = Some v \<Longrightarrow> jm_set k v m = m" for m :: "(string, string) jsmap" and k v
    by (induction m) (auto simp: jm_set_unfold split: if_splits)
  then show ?thesis using g by blast
qed

lemma stream_update_existing:
  assumes inv: "stream_inv st" and g: "jm_get (activeStreamsByRequestId st) (si_requestId input) = Some r"
    and agent: "sr_agentSocketId r = si_agentSocketId input"
    and free: "\<And>sid i. truthy (si_streamId input) = Some sid \<Longrightarrow>
      jm_get (activeStreamsByStreamId st) sid = Some i \<Longrightarrow> i = si_requestId input"
  shows "stream_inv (snd (update_existing input r st))"
proof -
  define gg where "gg = (if si_restMaterializeState input \<noteq> None \<and> sr_restMaterializeState r = None
    then restMaterializeStreamsInFlight st + 1 else restMaterializeStreamsInFlight st)"
  have le: "restMaterializeStreamsInFlight st \<le> gg" by (simp add: gg_def)
  have ne: "sr_streamId r \<noteq> Some []" using inv g by (auto simp: stream_inv_def routes_ok_def)
  show ?thesis
  proof (cases "truthy (si_streamId input)")
    case None
    then have "snd (update_existing input r st) = st\<lparr>restMaterializeStreamsInFlight := gg\<rparr>"
      using stream_same_id[OF inv g] ne
      by (auto simp: update_existing_def gg_def Let_def split: option.splits)
    then show ?thesis using stream_gauge[OF inv le] by simp
  next
    case (Some sid)
    then have sid: "sid \<noteq> []" using truthy_simps(4)[of "si_streamId input"] by auto
    show ?thesis
      using stream_assign_id[OF inv g sid free[OF Some] le] agent ne Some
      unfolding update_existing_def gg_def[symmetric] Let_def by (cases "sr_streamId r") simp_all
  qed
qed

lemma stream_create:
  assumes inv: "stream_inv st" and g: "jm_get (activeStreamsByRequestId st) (si_requestId input) = None"
    and free: "\<And>sid i. truthy (si_streamId input) = Some sid \<Longrightarrow>
      jm_get (activeStreamsByStreamId st) sid = Some i \<Longrightarrow> i = si_requestId input"
  shows "stream_inv (snd (create_route input st))" (is "stream_inv ?st")
proof -
  let ?rid = "si_requestId input"
  have ok: "routes_ok st" "stream_ids_ok st" "stream_indexes_ok st" "open_counts_ok st"
    "pending_mats st \<le> restMaterializeStreamsInFlight st"
    using inv by (auto simp: stream_inv_def)
  have "routes_ok ?st" using ok(1) by (auto simp: routes_ok_def create_route_def Let_def)
  moreover have "stream_ids_ok ?st"
    unfolding stream_ids_ok_def
  proof (intro allI)
    fix s i
    have iff: "jm_get (activeStreamsByStreamId st) t = Some j \<longleftrightarrow> sid_of st j = Some t" for t j
      using ok(2) by (simp add: stream_ids_ok_def)
    have own: "sid_of st ?rid = None" using g by (simp add: sid_of_def)
    have new: "sid_of ?st i = (if i = ?rid then truthy (si_streamId input) else sid_of st i)"
      "jm_get (activeStreamsByStreamId ?st) s = (if truthy (si_streamId input) = Some s then Some ?rid
         else jm_get (activeStreamsByStreamId st) s)"
      by (auto simp: sid_of_def create_route_def Let_def split: option.splits)
    show "jm_get (activeStreamsByStreamId ?st) s = Some i \<longleftrightarrow> sid_of ?st i = Some s"
      unfolding new using iff[of s i] iff[of s ?rid] free[of s i] own by (cases "i = ?rid") auto
  qed
  moreover have "stream_indexes_ok ?st"
    using ok(3) g by (auto simp: stream_indexes_ok_def create_route_def Let_def
        intro: index_ok_add index_ok_add_none split: option.splits)
  moreover have "open_counts_ok ?st"
    using ok(4) g by (auto simp: open_counts_ok_def create_route_def Let_def attr_count_set open_agent_def
        split: option.splits)
  moreover have "pending_mats ?st \<le> restMaterializeStreamsInFlight ?st"
    using ok(5) g by (auto simp: pending_mats_def create_route_def Let_def jm_sum_set mat_pending_def
        split: option.splits)
  ultimately show ?thesis by (simp add: stream_inv_def)
qed

lemma stream_upsert:
  assumes "stream_inv st"
  shows "stream_inv (snd (upsertActiveStreamRoute input st))"
proof (cases "case truthy (si_streamId input) of None \<Rightarrow> False
    | Some sid \<Rightarrow> (case getActiveStreamRouteByStreamId sid st of None \<Rightarrow> False
        | Some r \<Rightarrow> sr_requestId r \<noteq> si_requestId input)")
  case True
  then show ?thesis using assms
    by (auto simp: upsertActiveStreamRoute_def Let_def split: option.splits)
next
  case False
  have free: "i = si_requestId input" if "truthy (si_streamId input) = Some sid"
    "jm_get (activeStreamsByStreamId st) sid = Some i" for sid i
    using stream_input_free[OF assms that(1) _ that(2)] False that by simp
  have up: "upsertActiveStreamRoute input st =
    (case jm_get (activeStreamsByRequestId st) (si_requestId input) of
        Some route \<Rightarrow>
          if sr_agentSocketId route \<noteq> si_agentSocketId input then (Inl AgentSocketMismatch, st)
          else if sr_agentId route \<noteq> si_agentId input then (Inl AgentIdMismatch, st)
          else (Inr (fst (update_existing input route st)), snd (update_existing input route st))
      | None \<Rightarrow> (Inr (fst (create_route input st)), snd (create_route input st)))"
    using False by (auto simp: upsertActiveStreamRoute_def Let_def case_prod_beta split: option.splits)
  show ?thesis
    unfolding up using assms stream_update_existing[OF assms _ _ free] stream_create[OF assms _ free]
    by (auto split: option.splits)
qed

text \<open>\<open>resolveActiveStreamRoute\<close> in terms of the two lookups.\<close>

definition found_by_stream :: "string option \<Rightarrow> stream_registry \<Rightarrow> stream_route option" where
  "found_by_stream streamId st =
     (case truthy streamId of None \<Rightarrow> None | Some sid \<Rightarrow> getActiveStreamRouteByStreamId sid st)"

definition found_by_request :: "string option \<Rightarrow> stream_registry \<Rightarrow> stream_route option" where
  "found_by_request requestId st =
     (case truthy requestId of None \<Rightarrow> None | Some rid \<Rightarrow> getActiveStreamRouteByRequestId rid st)"

lemma registered_route:
  assumes "stream_inv st" "jm_get (activeStreamsByRequestId st) rid = Some r"
  shows "sr_requestId r = rid" "jm_get (activeStreamsByRequestId st) (sr_requestId r) = Some r"
    "truthy (sr_streamId r) = sr_streamId r"
  using assms by (auto simp: stream_inv_def routes_ok_def)

lemma found_registered:
  assumes "stream_inv st"
  shows "found_by_stream streamId st = Some r \<Longrightarrow>
      jm_get (activeStreamsByRequestId st) (sr_requestId r) = Some r \<and> sr_streamId r = truthy streamId \<and>
      sr_streamId r \<noteq> None"
    and "found_by_request requestId st = Some r \<Longrightarrow>
      jm_get (activeStreamsByRequestId st) (sr_requestId r) = Some r \<and> Some (sr_requestId r) = truthy requestId"
proof -
  assume "found_by_stream streamId st = Some r"
  then obtain sid rid where s: "truthy streamId = Some sid" "jm_get (activeStreamsByStreamId st) sid = Some rid"
    "jm_get (activeStreamsByRequestId st) rid = Some r"
    by (auto simp: found_by_stream_def getActiveStreamRouteByStreamId_def split: option.splits)
  then have "sid_of st rid = Some sid" using assms by (auto simp: stream_inv_def stream_ids_ok_def)
  then show "jm_get (activeStreamsByRequestId st) (sr_requestId r) = Some r \<and> sr_streamId r = truthy streamId \<and>
      sr_streamId r \<noteq> None"
    using s registered_route[OF assms s(3)] by (auto simp: sid_of_def)
next
  assume "found_by_request requestId st = Some r"
  then show "jm_get (activeStreamsByRequestId st) (sr_requestId r) = Some r \<and>
      Some (sr_requestId r) = truthy requestId"
    using registered_route[OF assms]
    by (auto simp: found_by_request_def getActiveStreamRouteByRequestId_def split: option.splits)
qed

lemma resolve_cases:
  assumes "stream_inv st"
  shows "resolveActiveStreamRoute socketId streamId requestId st =
    (case (found_by_stream streamId st, found_by_request requestId st) of
       (None, None) \<Rightarrow> (None, st)
     | (Some a, b) \<Rightarrow>
         if (\<exists>r. b = Some r \<and> sr_requestId a \<noteq> sr_requestId r) \<or> sr_agentSocketId a \<noteq> socketId
         then (None, st) else (Some a, st)
     | (None, Some r) \<Rightarrow>
         if sr_agentSocketId r \<noteq> socketId then (None, st)
         else (case (truthy streamId, sr_streamId r) of
            (Some sid, None) \<Rightarrow>
              (Some (r\<lparr>sr_streamId := Some sid\<rparr>),
               st\<lparr>activeStreamsByRequestId :=
                    jm_set (sr_requestId r) (r\<lparr>sr_streamId := Some sid\<rparr>) (activeStreamsByRequestId st),
                  activeStreamsByStreamId := jm_set sid (sr_requestId r) (activeStreamsByStreamId st),
                  openStreamCountByAgentSocketId :=
                    incrementCounter (openStreamCountByAgentSocketId st) (sr_agentSocketId r)\<rparr>)
          | _ \<Rightarrow> (Some r, st)))"
proof -
  have a: "truthy (sr_streamId r) = sr_streamId r \<and> sr_streamId r = truthy streamId"
    if "found_by_stream streamId st = Some r" for r
    using found_registered(1)[OF assms that] by (auto split: option.splits)
  have b: "truthy (sr_streamId r) = sr_streamId r" if "found_by_request requestId st = Some r" for r
    using found_registered(2)[OF assms that] registered_route(3)[OF assms] by blast
  show ?thesis
    unfolding resolveActiveStreamRoute_def found_by_stream_def[symmetric] found_by_request_def[symmetric] Let_def
    using a b by (auto split: option.splits)
qed

lemma stream_resolve:
  assumes "stream_inv st"
  shows "stream_inv (snd (resolveActiveStreamRoute socketId streamId requestId st))"
proof -
  have "stream_inv (st\<lparr>activeStreamsByRequestId :=
        jm_set (sr_requestId r) (r\<lparr>sr_streamId := Some sid\<rparr>) (activeStreamsByRequestId st),
      activeStreamsByStreamId := jm_set sid (sr_requestId r) (activeStreamsByStreamId st),
      openStreamCountByAgentSocketId :=
        incrementCounter (openStreamCountByAgentSocketId st) (sr_agentSocketId r)\<rparr>)"
    if f: "found_by_stream streamId st = None" "found_by_request requestId st = Some r"
      and t: "truthy streamId = Some sid" "sr_streamId r = None" for r sid
  proof -
    have g: "jm_get (activeStreamsByRequestId st) (sr_requestId r) = Some r"
      using found_registered(2)[OF assms f(2)] by blast
    have ne: "sid \<noteq> []" using t(1) truthy_simps(4)[of streamId] by auto
    have free: "i = sr_requestId r" if "jm_get (activeStreamsByStreamId st) sid = Some i" for i
    proof -
      have "sid_of st i = Some sid" using assms that by (auto simp: stream_inv_def stream_ids_ok_def)
      then obtain q where "jm_get (activeStreamsByRequestId st) i = Some q"
        by (auto simp: sid_of_def split: option.splits)
      then show ?thesis using f(1) t(1) that
        by (simp add: found_by_stream_def getActiveStreamRouteByStreamId_def)
    qed
    show ?thesis using stream_assign_id[OF assms g ne free order_refl] t(2) by simp
  qed
  then show ?thesis
    using assms unfolding resolve_cases[OF assms] by (auto split: option.splits)
qed

lemma failFast_eqs:
  assumes "stream_inv st" "getActiveStreamRouteByRequestId rid st = Some r" "sr_agentSocketId r = socketId"
    and "sr_restMaterializeState r = Some mat" "\<not> mt_settled mat"
  defines "st1 \<equiv> st\<lparr>activeStreamsByRequestId :=
      jm_set rid (r\<lparr>sr_restMaterializeState := Some (mat\<lparr>mt_settled := True\<rparr>)\<rparr>) (activeStreamsByRequestId st)\<rparr>"
  shows "snd (failFastMaterialize socketId rid st) = snd (removeActiveStreamRoute DetachMaterialize rid st1)"
    "stream_inv st1" "gauge_leak st1 = gauge_leak st + 1"
proof -
  have g: "jm_get (activeStreamsByRequestId st) rid = Some r"
    using assms(2) by (simp add: getActiveStreamRouteByRequestId_def)
  have p: "mat_pending r = 1"
    "mat_pending (r\<lparr>sr_restMaterializeState := Some (mat\<lparr>mt_settled := True\<rparr>)\<rparr>) = 0"
    using assms(4,5) by (simp_all add: mat_pending_def)
  show "snd (failFastMaterialize socketId rid st) = snd (removeActiveStreamRoute DetachMaterialize rid st1)"
    using assms by (simp add: failFastMaterialize_def Let_def case_prod_beta)
  have "stream_inv (st\<lparr>activeStreamsByRequestId :=
      jm_set rid (r\<lparr>sr_restMaterializeState := Some (mat\<lparr>mt_settled := True\<rparr>)\<rparr>) (activeStreamsByRequestId st),
      restMaterializeStreamsInFlight := restMaterializeStreamsInFlight st\<rparr>)"
    using assms(1) p by (intro stream_inv_mat[OF assms(1) g]) (simp add: stream_inv_def)
  then show "stream_inv st1" by (simp add: st1_def)
  show "gauge_leak st1 = gauge_leak st + 1"
    using g p by (simp add: gauge_leak_def pending_mats_def st1_def jm_sum_set)
qed

lemma stream_failFast:
  assumes "stream_inv st"
  shows "stream_inv (snd (failFastMaterialize socketId rid st))"
  using assms failFast_eqs(1,2)[OF assms] stream_remove(1)
  by (auto simp: failFastMaterialize_def case_prod_beta Let_def split: option.splits)

inductive stream_step :: "stream_registry \<Rightarrow> stream_registry \<Rightarrow> bool" where
  ss_upsert: "stream_step st (snd (upsertActiveStreamRoute input st))"
| ss_remove: "stream_step st (snd (removeActiveStreamRoute mode rid st))"
| ss_settle: "stream_step st (snd (settleRestMaterializeSuccess rid st))"
| ss_resolve: "stream_step st (snd (resolveActiveStreamRoute socketId streamId requestId st))"
| ss_failFast: "stream_step st (snd (failFastMaterialize socketId rid st))"
| ss_reset: "stream_step st (snd (resetActiveStreamRegistry st))"

interpretation streams: invariant_system new_stream_registry stream_step stream_inv
proof
  show "stream_inv new_stream_registry" by (rule stream_inv_new)
next
  fix s t assume "stream_step s t" "stream_inv s"
  then show "stream_inv t"
    by (induction rule: stream_step.induct)
      (simp_all add: stream_upsert stream_remove stream_settle stream_resolve stream_failFast
        resetActiveStreamRegistry_def stream_inv_new)
qed

section \<open>Idle and lifetime timers of a relayed stream\<close>

text \<open>
  \<^verbatim>\<open>relay_stream_timeout_registry.ts\<close>. A timer is a number; \<open>armed\<close> holds the timers the runtime will
  fire, with the request and the reason their callback reports, and \<open>nextTimer\<close> the next number
  \<^verbatim>\<open>setTimeout\<close> returns.
\<close>

datatype timeout_reason = IdleTimeout | LifetimeTimeout

record timeout_entry =
  idleHandle :: "nat option"
  lifetimeHandle :: "nat option"

record timeout_registry =
  timeoutByRequestId :: "(string, timeout_entry) jsmap"
  armed :: "(nat, string \<times> timeout_reason) jsmap"
  nextTimer :: nat

definition new_timeout_registry :: timeout_registry where
  "new_timeout_registry = \<lparr>timeoutByRequestId = [], armed = [], nextTimer = 0\<rparr>"

definition clearTimer :: "nat option \<Rightarrow> timeout_registry \<Rightarrow> timeout_registry" where
  "clearTimer h st = (case h of None \<Rightarrow> st | Some t \<Rightarrow> st\<lparr>armed := jm_del t (armed st)\<rparr>)"

definition armIdleTimer :: "string \<Rightarrow> timeout_entry \<Rightarrow> timeout_registry \<Rightarrow> timeout_registry" where
  "armIdleTimer rid entry st =
     (let st1 = clearTimer (idleHandle entry) st; h = nextTimer st1
      in st1\<lparr>armed := jm_set h (rid, IdleTimeout) (armed st1), nextTimer := Suc h,
             timeoutByRequestId := jm_set rid (entry\<lparr>idleHandle := Some h\<rparr>) (timeoutByRequestId st1)\<rparr>)"

definition clearRelayStreamTimeouts :: "string \<Rightarrow> timeout_registry \<Rightarrow> timeout_registry" where
  "clearRelayStreamTimeouts rid st =
     (case jm_get (timeoutByRequestId st) rid of
        None \<Rightarrow> st
      | Some entry \<Rightarrow>
          (let st1 = clearTimer (lifetimeHandle entry) (clearTimer (idleHandle entry) st)
           in st1\<lparr>timeoutByRequestId := jm_del rid (timeoutByRequestId st1)\<rparr>))"

definition registerRelayStreamTimeouts :: "string \<Rightarrow> timeout_registry \<Rightarrow> timeout_registry" where
  "registerRelayStreamTimeouts rid st =
     (let st1 = clearRelayStreamTimeouts rid st;
          st2 = armIdleTimer rid \<lparr>idleHandle = None, lifetimeHandle = None\<rparr> st1;
          h = nextTimer st2
      in st2\<lparr>armed := jm_set h (rid, LifetimeTimeout) (armed st2), nextTimer := Suc h,
             timeoutByRequestId := (case jm_get (timeoutByRequestId st2) rid of
                 None \<Rightarrow> timeoutByRequestId st2
               | Some entry \<Rightarrow> jm_set rid (entry\<lparr>lifetimeHandle := Some h\<rparr>) (timeoutByRequestId st2))\<rparr>)"

definition touchRelayStreamTimeout :: "string \<Rightarrow> timeout_registry \<Rightarrow> timeout_registry" where
  "touchRelayStreamTimeout rid st =
     (case jm_get (timeoutByRequestId st) rid of None \<Rightarrow> st | Some entry \<Rightarrow> armIdleTimer rid entry st)"

text \<open>A timer fires: its handle on the entry is reset and the callback reports the reason.\<close>

definition timer_fires :: "nat \<Rightarrow> timeout_registry \<Rightarrow> (string \<times> timeout_reason) option \<times> timeout_registry" where
  "timer_fires t st =
     (case jm_get (armed st) t of
        None \<Rightarrow> (None, st)
      | Some (rid, reason) \<Rightarrow>
          (Some (rid, reason),
           st\<lparr>armed := jm_del t (armed st),
              timeoutByRequestId := (case jm_get (timeoutByRequestId st) rid of
                 None \<Rightarrow> timeoutByRequestId st
               | Some entry \<Rightarrow>
                   jm_set rid (case reason of IdleTimeout \<Rightarrow> entry\<lparr>idleHandle := None\<rparr>
                                 | LifetimeTimeout \<Rightarrow> entry\<lparr>lifetimeHandle := None\<rparr>)
                     (timeoutByRequestId st))\<rparr>))"

definition resetRelayStreamTimeouts :: "timeout_registry \<Rightarrow> timeout_registry" where
  "resetRelayStreamTimeouts st = fold clearRelayStreamTimeouts (map fst (timeoutByRequestId st)) st"

text \<open>The handle an entry keeps for a reason, and the invariant: the armed timers are exactly the
  handles of the entries.\<close>

definition handle_of :: "timeout_reason \<Rightarrow> timeout_entry \<Rightarrow> nat option" where
  "handle_of reason e = (case reason of IdleTimeout \<Rightarrow> idleHandle e | LifetimeTimeout \<Rightarrow> lifetimeHandle e)"

definition entry_handle :: "timeout_registry \<Rightarrow> string \<Rightarrow> timeout_reason \<Rightarrow> nat option" where
  "entry_handle st rid reason =
     (case jm_get (timeoutByRequestId st) rid of None \<Rightarrow> None | Some e \<Rightarrow> handle_of reason e)"

definition timers_inv :: "timeout_registry \<Rightarrow> bool" where
  "timers_inv st \<longleftrightarrow>
     (\<forall>t rid reason. jm_get (armed st) t = Some (rid, reason) \<longleftrightarrow> entry_handle st rid reason = Some t) \<and>
     (\<forall>t rid reason. entry_handle st rid reason = Some t \<longrightarrow> t < nextTimer st)"

lemma timers_iff: "timers_inv st \<Longrightarrow> jm_get (armed st) t = Some (rid, reason) \<longleftrightarrow> entry_handle st rid reason = Some t"
  by (simp add: timers_inv_def)

lemma timers_fresh: "timers_inv st \<Longrightarrow> entry_handle st rid reason = Some t \<Longrightarrow> t < nextTimer st"
  unfolding timers_inv_def by blast

text \<open>One handle is replaced (by a new timer, or by none) and the timer it held is disarmed.\<close>

lemma timers_inv_set:
  assumes inv: "timers_inv st" and h: "h = None \<or> h = Some (nextTimer st)"
    and n: "nextTimer st \<le> nextTimer st'" "h \<noteq> None \<Longrightarrow> nextTimer st < nextTimer st'"
    and a: "\<And>t. jm_get (armed st') t = (if Some t = h then Some (rid, reason)
       else if entry_handle st rid reason = Some t then None else jm_get (armed st) t)"
    and e: "\<And>r q. entry_handle st' r q = (if r = rid \<and> q = reason then h else entry_handle st r q)"
  shows "timers_inv st'"
proof -
  have "jm_get (armed st') t = Some (r, q) \<longleftrightarrow> entry_handle st' r q = Some t" for t r q
  proof (cases "Some t = h")
    case True
    then have "t = nextTimer st" using h by auto
    then have "entry_handle st r q \<noteq> Some t" using timers_fresh[OF inv, of r q t] by auto
    then show ?thesis using True by (auto simp: a e)
  next
    case False
    show ?thesis
      using False timers_iff[OF inv, of t r q] timers_iff[OF inv, of t rid reason] by (auto simp: a e)
  qed
  moreover have "t < nextTimer st'" if "entry_handle st' r q = Some t" for t r q
    using that h n timers_fresh[OF inv, of r q t] by (auto simp: e split: if_splits)
  ultimately show ?thesis by (simp add: timers_inv_def)
qed

lemma clearTimer_simps [simp]:
  "jm_get (armed (clearTimer h st)) t = (if h = Some t then None else jm_get (armed st) t)"
  "timeoutByRequestId (clearTimer h st) = timeoutByRequestId st" "nextTimer (clearTimer h st) = nextTimer st"
  by (auto simp: clearTimer_def split: option.splits)

lemma clear_armed:
  "jm_get (armed (clearRelayStreamTimeouts rid st)) t =
     (if entry_handle st rid IdleTimeout = Some t \<or> entry_handle st rid LifetimeTimeout = Some t
      then None else jm_get (armed st) t)"
  "entry_handle (clearRelayStreamTimeouts rid st) r q = (if r = rid then None else entry_handle st r q)"
  "nextTimer (clearRelayStreamTimeouts rid st) = nextTimer st"
  by (auto simp: clearRelayStreamTimeouts_def entry_handle_def handle_of_def Let_def split: option.splits)

lemma timers_inv_clear:
  assumes "timers_inv st"
  shows "timers_inv (clearRelayStreamTimeouts rid st)"
proof -
  have "jm_get (armed (clearRelayStreamTimeouts rid st)) t = Some (r, q) \<longleftrightarrow>
      entry_handle (clearRelayStreamTimeouts rid st) r q = Some t" for t r q
    using timers_iff[OF assms, of t r q] timers_iff[OF assms, of t rid IdleTimeout]
      timers_iff[OF assms, of t rid LifetimeTimeout]
    by (cases q) (auto simp: clear_armed)
  moreover have "t < nextTimer (clearRelayStreamTimeouts rid st)"
    if "entry_handle (clearRelayStreamTimeouts rid st) r q = Some t" for t r q
    using that timers_fresh[OF assms, of r q t] by (simp add: clear_armed split: if_splits)
  ultimately show ?thesis by (simp add: timers_inv_def)
qed

lemma timers_inv_arm:
  assumes "timers_inv st" and "handle_of IdleTimeout entry = entry_handle st rid IdleTimeout"
    and "handle_of LifetimeTimeout entry = entry_handle st rid LifetimeTimeout"
  shows "timers_inv (armIdleTimer rid entry st)"
    and "entry_handle (armIdleTimer rid entry st) r q =
      (if r = rid \<and> q = IdleTimeout then Some (nextTimer st) else entry_handle st r q)"
proof -
  show e: "entry_handle (armIdleTimer rid entry st) r q =
      (if r = rid \<and> q = IdleTimeout then Some (nextTimer st) else entry_handle st r q)" for r q
    using assms(2,3)
    by (cases q) (auto simp: armIdleTimer_def entry_handle_def handle_of_def Let_def split: option.splits)
  show "timers_inv (armIdleTimer rid entry st)"
    by (rule timers_inv_set[OF assms(1), of "Some (nextTimer st)" _ rid IdleTimeout])
      (use assms(2) e in \<open>auto simp: armIdleTimer_def Let_def handle_of_def\<close>)
qed

lemma timers_inv_touch: "timers_inv st \<Longrightarrow> timers_inv (touchRelayStreamTimeout rid st)"
  by (auto simp: touchRelayStreamTimeout_def entry_handle_def intro!: timers_inv_arm(1) split: option.splits)

lemma timers_inv_register:
  assumes "timers_inv st"
  shows "timers_inv (registerRelayStreamTimeouts rid st)"
proof -
  define st1 where "st1 = clearRelayStreamTimeouts rid st"
  define st2 where "st2 = armIdleTimer rid \<lparr>idleHandle = None, lifetimeHandle = None\<rparr> st1"
  have i1: "timers_inv st1" unfolding st1_def by (rule timers_inv_clear[OF assms])
  have none: "entry_handle st1 rid q = None" for q by (simp add: st1_def clear_armed)
  have i2: "timers_inv st2"
    and e2: "entry_handle st2 r q = (if r = rid \<and> q = IdleTimeout then Some (nextTimer st1) else entry_handle st1 r q)" for r q
    using timers_inv_arm[OF i1, of "\<lparr>idleHandle = None, lifetimeHandle = None\<rparr>" rid] none
    by (simp_all add: handle_of_def st2_def)
  obtain entry where g: "jm_get (timeoutByRequestId st2) rid = Some entry"
    by (simp add: st2_def armIdleTimer_def Let_def)
  have "entry_handle (registerRelayStreamTimeouts rid st) r q =
      (if r = rid \<and> q = LifetimeTimeout then Some (nextTimer st2) else entry_handle st2 r q)" for r q
    using g unfolding registerRelayStreamTimeouts_def st1_def[symmetric] st2_def[symmetric] Let_def
    by (cases q) (auto simp: entry_handle_def handle_of_def)
  then show ?thesis
    by (intro timers_inv_set[OF i2, of "Some (nextTimer st2)" _ rid LifetimeTimeout])
      (auto simp: registerRelayStreamTimeouts_def st1_def[symmetric] st2_def[symmetric] Let_def e2 none)
qed

lemma timers_inv_fires:
  assumes "timers_inv st"
  shows "timers_inv (snd (timer_fires t st))"
proof (cases "jm_get (armed st) t")
  case None
  then show ?thesis using assms by (simp add: timer_fires_def)
next
  case (Some v)
  obtain rid reason where v: "v = (rid, reason)" by (cases v)
  have h: "entry_handle st rid reason = Some t" using timers_iff[OF assms] Some v by simp
  then obtain entry where g: "jm_get (timeoutByRequestId st) rid = Some entry"
    by (auto simp: entry_handle_def split: option.splits)
  show ?thesis
  proof (rule timers_inv_set[OF assms, of None _ rid reason])
    show "entry_handle (snd (timer_fires t st)) r q =
        (if r = rid \<and> q = reason then None else entry_handle st r q)" for r q
      using Some v g by (cases q; cases reason) (auto simp: timer_fires_def entry_handle_def handle_of_def)
  qed (use Some v h in \<open>auto simp: timer_fires_def\<close>)
qed

lemma timers_inv_reset: "timers_inv st \<Longrightarrow> timers_inv (resetRelayStreamTimeouts st)"
proof -
  have "timers_inv st \<Longrightarrow> timers_inv (fold clearRelayStreamTimeouts rids st)" for rids
    by (induction rids arbitrary: st) (simp_all add: timers_inv_clear)
  then show "timers_inv st \<Longrightarrow> timers_inv (resetRelayStreamTimeouts st)"
    by (simp add: resetRelayStreamTimeouts_def)
qed

inductive timeout_step :: "timeout_registry \<Rightarrow> timeout_registry \<Rightarrow> bool" where
  ts_register: "timeout_step st (registerRelayStreamTimeouts rid st)"
| ts_touch: "timeout_step st (touchRelayStreamTimeout rid st)"
| ts_clear: "timeout_step st (clearRelayStreamTimeouts rid st)"
| ts_fires: "timeout_step st (snd (timer_fires t st))"
| ts_reset: "timeout_step st (resetRelayStreamTimeouts st)"

interpretation timers: invariant_system new_timeout_registry timeout_step timers_inv
proof
  show "timers_inv new_timeout_registry"
    by (simp add: timers_inv_def new_timeout_registry_def entry_handle_def)
next
  fix s t assume "timeout_step s t" "timers_inv s"
  then show "timers_inv t"
    by (induction rule: timeout_step.induct)
      (simp_all add: timers_inv_register timers_inv_touch timers_inv_clear timers_inv_fires timers_inv_reset)
qed

section \<open>Credit window of a REST materialization\<close>

text \<open>\<^verbatim>\<open>rest_sql_stream_materialize.ts\<close>.\<close>

definition stepRestSqlStreamMaterializeCredits :: "int option \<Rightarrow> int \<Rightarrow> int \<times> bool" where
  "stepRestSqlStreamMaterializeCredits storedCredits windowSize =
     (let c = (case storedCredits of None \<Rightarrow> 0 | Some n \<Rightarrow> n) - 1
      in if c \<le> 0 then (windowSize, True) else (c, False))"

definition restSqlStreamMaterializeSeedCredits ::
  "string \<Rightarrow> int \<Rightarrow> (string, int) jsmap \<Rightarrow> (string, int) jsmap" where
  "restSqlStreamMaterializeSeedCredits rid windowSize credits = jm_set rid windowSize credits"

definition restSqlStreamMaterializeConsumeChunk ::
  "string \<Rightarrow> int \<Rightarrow> (string, int) jsmap \<Rightarrow> bool \<times> (string, int) jsmap" where
  "restSqlStreamMaterializeConsumeChunk rid windowSize credits =
     (let (nextStoredCredits, shouldEmitPull) =
            stepRestSqlStreamMaterializeCredits (jm_get credits rid) windowSize
      in (shouldEmitPull, jm_set rid nextStoredCredits credits))"

definition restSqlStreamMaterializeClearRequest ::
  "string \<Rightarrow> (string, int) jsmap \<Rightarrow> (string, int) jsmap" where
  "restSqlStreamMaterializeClearRequest rid credits = jm_del rid credits"

text \<open>\<open>n\<close> chunks of one stream: how many pulls they emit, and the credits left.\<close>

fun consume_chunks :: "nat \<Rightarrow> string \<Rightarrow> int \<Rightarrow> (string, int) jsmap \<Rightarrow> nat \<times> (string, int) jsmap" where
  "consume_chunks 0 rid w credits = (0, credits)"
| "consume_chunks (Suc n) rid w credits =
     (let (pulls, credits') = consume_chunks n rid w credits;
          (pull, credits'') = restSqlStreamMaterializeConsumeChunk rid w credits'
      in (pulls + (if pull then 1 else 0), credits''))"

section \<open>Properties\<close>

text \<open>C13: the stream registry is consistent in every reachable state. A stream id finds a route exactly when
  that route is registered and carries it; the open-stream counter that the capacity check reads
  is the exact number of the agent's routes with a stream id; the listings for a consumer, an
  agent and a conversation are exact.\<close>

theorem stream_registry_consistent:
  assumes "reachable new_stream_registry stream_step st"
  shows "(getActiveStreamRouteByStreamId sid st = Some r \<longleftrightarrow>
      (\<exists>rid. getActiveStreamRouteByRequestId rid st = Some r \<and> sr_streamId r = Some sid)) \<and>
    countOpenStreamRoutesForAgent a st = int (card {rid. \<exists>r. getActiveStreamRouteByRequestId rid st = Some r \<and>
      sr_agentSocketId r = a \<and> sr_streamId r \<noteq> None}) \<and>
    set (listStreamRequestIdsForAgent a st) =
      {rid. \<exists>r. getActiveStreamRouteByRequestId rid st = Some r \<and> sr_agentSocketId r = a} \<and>
    set (listStreamRequestIdsForConsumer c st) =
      {rid. \<exists>r. getActiveStreamRouteByRequestId rid st = Some r \<and> sr_consumerSocketId r = c} \<and>
    set (listActiveStreamRequestIdsForConversation k st) =
      {rid. \<exists>r. getActiveStreamRouteByRequestId rid st = Some r \<and> sr_conversationId r = Some k}"
proof -
  have inv: "stream_inv st" by (rule streams.inv_reachable[OF assms])
  have ok: "routes_ok st" "stream_ids_ok st" "stream_indexes_ok st" "open_counts_ok st"
    using inv by (auto simp: stream_inv_def)
  have ix: "index_ok sr_conversationId (activeStreamsByRequestId st) (activeStreamRequestIdsByConversation st)"
    "index_ok (\<lambda>r. Some (sr_consumerSocketId r)) (activeStreamsByRequestId st) (streamRequestIdsByConsumer st)"
    "index_ok (\<lambda>r. Some (sr_agentSocketId r)) (activeStreamsByRequestId st) (streamRequestIdsByAgent st)"
    using ok(3) by (simp_all add: stream_indexes_ok_def)
  have iff: "jm_get (activeStreamsByStreamId st) sid = Some rid \<longleftrightarrow> sid_of st rid = Some sid" for rid
    using ok(2) by (simp add: stream_ids_ok_def)
  have "getActiveStreamRouteByStreamId sid st = Some r \<longleftrightarrow>
      (\<exists>rid. sid_of st rid = Some sid \<and> jm_get (activeStreamsByRequestId st) rid = Some r)"
    by (auto simp: getActiveStreamRouteByStreamId_def iff[symmetric] split: option.splits)
  then have "getActiveStreamRouteByStreamId sid st = Some r \<longleftrightarrow>
      (\<exists>rid. getActiveStreamRouteByRequestId rid st = Some r \<and> sr_streamId r = Some sid)"
    by (auto simp: getActiveStreamRouteByRequestId_def sid_of_def split: option.splits)
  moreover have "countOpenStreamRoutesForAgent a st = int (card {rid. \<exists>r. getActiveStreamRouteByRequestId rid st = Some r \<and>
      sr_agentSocketId r = a \<and> sr_streamId r \<noteq> None})"
  proof -
    have eq: "(open_agent r = Some a) = (sr_agentSocketId r = a \<and> sr_streamId r \<noteq> None)" for r
      by (auto simp: open_agent_def)
    have "countOpenStreamRoutesForAgent a st = attr_count open_agent (activeStreamsByRequestId st) a"
      using ok(4) by (simp add: open_counts_ok_def countOpenStreamRoutesForAgent_def)
    also have "\<dots> = int (card {i. \<exists>r. jm_get (activeStreamsByRequestId st) i = Some r \<and> open_agent r = Some a})"
      using ok(1) by (intro attr_count_card) (simp add: routes_ok_def)
    finally show ?thesis by (simp only: eq getActiveStreamRouteByRequestId_def)
  qed
  moreover have "set (listStreamRequestIdsForAgent a st) =
      {rid. \<exists>r. getActiveStreamRouteByRequestId rid st = Some r \<and> sr_agentSocketId r = a}"
    "set (listStreamRequestIdsForConsumer c st) =
      {rid. \<exists>r. getActiveStreamRouteByRequestId rid st = Some r \<and> sr_consumerSocketId r = c}"
    "set (listActiveStreamRequestIdsForConversation k st) =
      {rid. \<exists>r. getActiveStreamRouteByRequestId rid st = Some r \<and> sr_conversationId r = Some k}"
    using index_ok_mem[OF ix(1)] index_ok_mem[OF ix(2)] index_ok_mem[OF ix(3)]
    by (auto simp: listStreamRequestIdsForAgent_def listStreamRequestIdsForConsumer_def
        listActiveStreamRequestIdsForConversation_def getActiveStreamRouteByRequestId_def)
  ultimately show ?thesis by blast
qed

definition sample_stream_input :: stream_input where
  "sample_stream_input = \<lparr>si_requestId = ''r1'', si_agentSocketId = ''a1'', si_agentId = ''ag'',
     si_consumerSocketId = ''s1'', si_conversationId = Some ''c1'', si_mode = None, si_streamId = Some ''st1'',
     si_restMaterializeState = Some \<lparr>mt_settled = False, mt_timeoutHandle = 7, mt_agentId = ''ag''\<rparr>\<rparr>"

definition sample_streams :: stream_registry where
  "sample_streams = snd (upsertActiveStreamRoute sample_stream_input new_stream_registry)"

lemma sample_streams_reachable: "reachable new_stream_registry stream_step sample_streams"
  unfolding sample_streams_def by (rule reachable.reach_step[OF reachable.reach_init]) (rule ss_upsert)

theorem stream_registry_consistent_witness:
  "getActiveStreamRouteByStreamId ''st1'' sample_streams \<noteq> None \<and>
   countOpenStreamRoutesForAgent ''a1'' sample_streams = 1 \<and>
   set (listStreamRequestIdsForAgent ''a1'' sample_streams) =
     {rid. \<exists>r. getActiveStreamRouteByRequestId rid sample_streams = Some r \<and> sr_agentSocketId r = ''a1''}"
proof -
  have "getActiveStreamRouteByStreamId ''st1'' sample_streams \<noteq> None"
    "countOpenStreamRoutesForAgent ''a1'' sample_streams = 1"
    by code_simp+
  then show ?thesis
    using stream_registry_consistent[OF sample_streams_reachable] by blast
qed

text \<open>a stream event reaches only the agent that owns the stream. Whatever ids the payload carries, a
  route is returned only if it is registered, belongs to the socket the event came from, and
  agrees with the stream id when that id is known and with the request id when that is known;
  two ids that name different streams resolve to nothing; and a stream id seen for the first
  time finds the same route from then on.\<close>

theorem stream_resolution_sound:
  assumes "reachable new_stream_registry stream_step st"
    and "resolveActiveStreamRoute socketId streamId requestId st = (Some r, st')"
  shows "sr_agentSocketId r = socketId \<and>
    getActiveStreamRouteByRequestId (sr_requestId r) st' = Some r \<and>
    getActiveStreamRouteByRequestId (sr_requestId r) st \<noteq> None \<and>
    (\<forall>a. found_by_stream streamId st = Some a \<longrightarrow> sr_requestId a = sr_requestId r) \<and>
    (\<forall>b. found_by_request requestId st = Some b \<longrightarrow> sr_requestId b = sr_requestId r) \<and>
    (truthy streamId \<noteq> None \<and> sr_streamId r = truthy streamId \<longrightarrow> found_by_stream streamId st' = Some r)"
proof -
  have inv: "stream_inv st" by (rule streams.inv_reachable[OF assms(1)])
  have inv': "stream_inv st'" using stream_resolve[OF inv, of socketId streamId requestId] assms(2) by simp
  have base: "sr_agentSocketId r = socketId \<and>
    jm_get (activeStreamsByRequestId st') (sr_requestId r) = Some r \<and>
    jm_get (activeStreamsByRequestId st) (sr_requestId r) \<noteq> None \<and>
    (\<forall>a. found_by_stream streamId st = Some a \<longrightarrow> sr_requestId a = sr_requestId r) \<and>
    (\<forall>b. found_by_request requestId st = Some b \<longrightarrow> sr_requestId b = sr_requestId r)"
    using assms(2) found_registered[OF inv] unfolding resolve_cases[OF inv]
    by (auto split: option.splits if_splits)
  have "found_by_stream streamId st' = Some r" if t: "truthy streamId = Some sid" "sr_streamId r = Some sid" for sid
  proof -
    have "sid_of st' (sr_requestId r) = Some sid" using base t(2) by (simp add: sid_of_def)
    then have "jm_get (activeStreamsByStreamId st') sid = Some (sr_requestId r)"
      using inv' by (simp add: stream_inv_def stream_ids_ok_def)
    then show ?thesis using base t(1) by (simp add: found_by_stream_def getActiveStreamRouteByStreamId_def)
  qed
  then show ?thesis using base by (auto simp: getActiveStreamRouteByRequestId_def)
qed

theorem stream_resolution_sound_witness:
  "\<exists>r. resolveActiveStreamRoute ''a1'' (Some ''st1'') (Some ''r1'') sample_streams = (Some r, sample_streams) \<and>
     sr_agentSocketId r = ''a1''"
proof -
  obtain r where "resolveActiveStreamRoute ''a1'' (Some ''st1'') (Some ''r1'') sample_streams =
      (Some r, sample_streams)"
    by (simp add: sample_streams_def sample_stream_input_def upsertActiveStreamRoute_def create_route_def
        new_stream_registry_def resolveActiveStreamRoute_def getActiveStreamRouteByStreamId_def
        getActiveStreamRouteByRequestId_def Let_def)
  with stream_resolution_sound[OF sample_streams_reachable this] show ?thesis by blast
qed

text \<open>failing fast on an undecodable frame leaks the in-flight gauge. Removing a route, settling it and
  resolving it keep the gauge exactly as far from the number of materializations pending as it
  was; but when a frame of a stream under materialization cannot be decoded, the route is marked
  settled before it is removed, the removal then skips the gauge, and the gauge stays one too high
  although the route is gone.\<close>

theorem stream_gauge_leak:
  assumes "reachable new_stream_registry stream_step st"
    and "getActiveStreamRouteByRequestId rid st = Some r" "sr_agentSocketId r = socketId"
    and "sr_restMaterializeState r = Some mat" "\<not> mt_settled mat"
  shows "gauge_leak (snd (removeActiveStreamRoute mode rid st)) = gauge_leak st \<and>
    gauge_leak (snd (settleRestMaterializeSuccess rid st)) = gauge_leak st \<and>
    gauge_leak (snd (failFastMaterialize socketId rid st)) = gauge_leak st + 1 \<and>
    getActiveStreamRouteByRequestId rid (snd (failFastMaterialize socketId rid st)) = None"
proof -
  have inv: "stream_inv st" by (rule streams.inv_reachable[OF assms(1)])
  note f = failFast_eqs[OF inv assms(2-5)]
  have "getActiveStreamRouteByRequestId rid (snd (removeActiveStreamRoute DetachMaterialize rid s)) = None"
    if "stream_inv s" for s
    using registered_route(1)[OF that, of rid]
    by (auto simp: remove_snd getActiveStreamRouteByRequestId_def drop_route_def split: option.splits)
  then show ?thesis
    using stream_remove(2)[OF inv] stream_settle(2)[OF inv] stream_remove(2)[OF f(2)] f by simp
qed

theorem stream_gauge_leak_witness:
  "restMaterializeStreamsInFlight (snd (failFastMaterialize ''a1'' ''r1'' sample_streams)) = 1 \<and>
   activeStreamsByRequestId (snd (failFastMaterialize ''a1'' ''r1'' sample_streams)) = [] \<and>
   gauge_leak (snd (failFastMaterialize ''a1'' ''r1'' sample_streams)) = gauge_leak sample_streams + 1"
proof -
  have v: "restMaterializeStreamsInFlight (snd (failFastMaterialize ''a1'' ''r1'' sample_streams)) = 1"
    "activeStreamsByRequestId (snd (failFastMaterialize ''a1'' ''r1'' sample_streams)) = []"
    by code_simp+
  obtain r mat where r: "getActiveStreamRouteByRequestId ''r1'' sample_streams = Some r"
    "sr_agentSocketId r = ''a1''" "sr_restMaterializeState r = Some mat" "\<not> mt_settled mat"
    by (simp add: sample_streams_def sample_stream_input_def upsertActiveStreamRoute_def create_route_def
        new_stream_registry_def getActiveStreamRouteByStreamId_def getActiveStreamRouteByRequestId_def Let_def)
  show ?thesis using stream_gauge_leak[OF sample_streams_reachable r] v by blast
qed

text \<open>the timers of a stream. In every reachable state the runtime holds exactly the timers the
  entries refer to, so there is at most one idle and one lifetime timer per stream; a touch
  replaces the idle timer and keeps the lifetime timer; and once a stream's timers are cleared
  none of its timers is left to fire.\<close>

theorem stream_timers_exact:
  assumes "reachable new_timeout_registry timeout_step st"
  shows "(jm_get (armed st) t = Some (rid, reason) \<longleftrightarrow> entry_handle st rid reason = Some t) \<and>
    (jm_get (armed (clearRelayStreamTimeouts rid st)) t \<noteq> Some (rid, reason)) \<and>
    (entry_handle st rid IdleTimeout = Some t \<longrightarrow>
       jm_get (armed (touchRelayStreamTimeout rid st)) t = None \<and>
       jm_get (armed (touchRelayStreamTimeout rid st)) (nextTimer st) = Some (rid, IdleTimeout) \<and>
       entry_handle (touchRelayStreamTimeout rid st) rid LifetimeTimeout = entry_handle st rid LifetimeTimeout)"
proof -
  have inv: "timers_inv st" by (rule timers.inv_reachable[OF assms])
  have "jm_get (armed (clearRelayStreamTimeouts rid st)) t \<noteq> Some (rid, reason)"
    using timers_iff[OF timers_inv_clear[OF inv, of rid], of t rid reason] by (simp add: clear_armed)
  moreover have "jm_get (armed (touchRelayStreamTimeout rid st)) t = None \<and>
       jm_get (armed (touchRelayStreamTimeout rid st)) (nextTimer st) = Some (rid, IdleTimeout) \<and>
       entry_handle (touchRelayStreamTimeout rid st) rid LifetimeTimeout = entry_handle st rid LifetimeTimeout"
    if h: "entry_handle st rid IdleTimeout = Some t"
    using h timers_fresh[OF inv h]
    by (auto simp: touchRelayStreamTimeout_def armIdleTimer_def entry_handle_def handle_of_def Let_def
        split: option.splits)
  ultimately show ?thesis using timers_iff[OF inv] by blast
qed

definition sample_timers :: timeout_registry where
  "sample_timers = registerRelayStreamTimeouts ''r1'' new_timeout_registry"

theorem stream_timers_exact_witness:
  "entry_handle sample_timers ''r1'' IdleTimeout = Some 0 \<and>
   jm_get (armed (touchRelayStreamTimeout ''r1'' sample_timers)) 0 = None \<and>
   jm_get (armed (clearRelayStreamTimeouts ''r1'' sample_timers)) 1 \<noteq> Some (''r1'', LifetimeTimeout)"
proof -
  have r: "reachable new_timeout_registry timeout_step sample_timers"
    unfolding sample_timers_def by (rule reachable.reach_step[OF reachable.reach_init]) (rule ts_register)
  have h: "entry_handle sample_timers ''r1'' IdleTimeout = Some 0" by code_simp
  show ?thesis
    using h stream_timers_exact[OF r, of 0 "''r1''" IdleTimeout]
      stream_timers_exact[OF r, of 1 "''r1''" LifetimeTimeout] by blast
qed

text \<open>The credit window of a materialized stream. After the initial pull of \<open>w\<close> chunks, the hub asks for
  a new window exactly when the previous one has been consumed: \<open>n\<close> chunks emit \<open>n div w\<close> further
  pulls, and the credits stored are what is left of the current window.\<close>

theorem materialize_credit_window:
  assumes "0 < w"
  shows "fst (consume_chunks n rid (int w) (restSqlStreamMaterializeSeedCredits rid (int w) credits)) = n div w \<and>
    jm_get (snd (consume_chunks n rid (int w) (restSqlStreamMaterializeSeedCredits rid (int w) credits))) rid =
      Some (int w - int (n mod w))"
proof (induction n)
  case 0
  show ?case by (simp add: restSqlStreamMaterializeSeedCredits_def)
next
  case (Suc n)
  have lt: "n mod w < w" using assms by simp
  show ?case
  proof (cases "Suc (n mod w) = w")
    case True
    then have "Suc n mod w = 0" "Suc n div w = Suc (n div w)" by (simp_all add: mod_Suc div_Suc)
    then show ?thesis using Suc True
      by (auto simp: Let_def case_prod_beta restSqlStreamMaterializeConsumeChunk_def
          stepRestSqlStreamMaterializeCredits_def)
  next
    case False
    then have "Suc n mod w = Suc (n mod w)" "Suc n div w = n div w" by (simp_all add: mod_Suc div_Suc)
    then show ?thesis using Suc False lt
      by (auto simp: Let_def case_prod_beta restSqlStreamMaterializeConsumeChunk_def
          stepRestSqlStreamMaterializeCredits_def)
  qed
qed

theorem materialize_credit_window_witness:
  "fst (consume_chunks 7 ''r'' 3 (restSqlStreamMaterializeSeedCredits ''r'' 3 [])) = 2 \<and>
   jm_get (snd (consume_chunks 7 ''r'' 3 (restSqlStreamMaterializeSeedCredits ''r'' 3 []))) ''r'' = Some 2"
  using materialize_credit_window[of 3 7 "''r''" "[]"] by simp

end
