(* ===== verification/Agent_Dispatch_Queue.thy ===== *)
theory Agent_Dispatch_Queue
  imports Registry_Index
begin

text \<open>
  \<^verbatim>\<open>relay/rest_agent_dispatch_queue.ts\<close> and \<^verbatim>\<open>relay/relay_agent_dispatch_queue.ts\<close>: the limit on requests
  in flight per agent, with a first-in first-out wait queue, for the REST bridge and for the
  relay; and \<^verbatim>\<open>scheduling/agent_dispatch_saturation.ts\<close>, which reads both.

  The two modules keep the same state: a counter per agent, a generation number that a reset
  increments, and a queue of waiters per agent. A waiter is a number; its promise is settled
  once, which \<open>settledWaiters\<close> records. \<open>slots\<close> are the release closures handed out, each with the
  captured agent id and generation and its private \<^verbatim>\<open>released\<close> flag. Each operation is given once per
  module, as the two sources write it. The contract is stated in the locale \<open>slot_queue\<close>, proved
  there for any module that has the five operations and their laws, and interpreted on both.
\<close>

record dispatch_slot =
  sl_agentId :: string
  sl_generation :: nat
  sl_released :: bool

record dispatch_queue =
  agentInflightById :: "string counter"
  queueGeneration :: nat
  agentQueueById :: "(string, nat) index"
  slots :: "(nat, dispatch_slot) jsmap"
  nextSlot :: nat
  nextWaiter :: nat
  settledWaiters :: "nat list"
  queueFullRejected :: int
  queueWaitTimeoutRejected :: int

record dispatch_limits =
  maxInflight :: int
  maxQueue :: int

datatype reject_reason = WaitTimeout | Aborted | BridgeReset

datatype dispatch_event = Resolved nat nat | Rejected nat reject_reason

datatype acquire_result =
  AcquireAborted
| Unlimited
| Acquired nat
| QueueFull
| Queued nat

definition new_dispatch_queue :: dispatch_queue where
  "new_dispatch_queue = \<lparr>agentInflightById = [], queueGeneration = 0, agentQueueById = [], slots = [],
     nextSlot = 0, nextWaiter = 0, settledWaiters = [], queueFullRejected = 0,
     queueWaitTimeoutRejected = 0\<rparr>"

section \<open>The REST queue\<close>

definition rest_getAgentInflight :: "string \<Rightarrow> dispatch_queue \<Rightarrow> int" where
  "rest_getAgentInflight agentId st = cnt_get (agentInflightById st) agentId"

definition rest_getQueueDepth :: "string \<Rightarrow> dispatch_queue \<Rightarrow> int" where
  "rest_getQueueDepth agentId st = int (length (idx_get (agentQueueById st) agentId))"

definition rest_setAgentInflight :: "string \<Rightarrow> int \<Rightarrow> dispatch_queue \<Rightarrow> dispatch_queue" where
  "rest_setAgentInflight agentId v st =
     (if v \<le> 0 then st\<lparr>agentInflightById := jm_del agentId (agentInflightById st)\<rparr>
      else st\<lparr>agentInflightById := jm_set agentId v (agentInflightById st)\<rparr>)"

definition rest_idempotentRelease :: "string \<Rightarrow> dispatch_queue \<Rightarrow> nat \<times> dispatch_queue" where
  "rest_idempotentRelease agentId st =
     (nextSlot st,
      st\<lparr>slots := jm_set (nextSlot st)
           \<lparr>sl_agentId = agentId, sl_generation = queueGeneration st, sl_released = False\<rparr> (slots st),
         nextSlot := Suc (nextSlot st)\<rparr>)"

definition rest_resolveOnce :: "string \<Rightarrow> nat \<Rightarrow> dispatch_queue \<Rightarrow> dispatch_event list \<times> dispatch_queue" where
  "rest_resolveOnce agentId w st =
     (if w \<in> set (settledWaiters st) then ([], st)
      else let (tok, st') = rest_idempotentRelease agentId (st\<lparr>settledWaiters := js_add w (settledWaiters st)\<rparr>)
           in ([Resolved w tok], st'))"

definition rest_rejectOnce :: "nat \<Rightarrow> reject_reason \<Rightarrow> dispatch_queue \<Rightarrow> dispatch_event list \<times> dispatch_queue" where
  "rest_rejectOnce w reason st =
     (if w \<in> set (settledWaiters st) then ([], st)
      else ([Rejected w reason], st\<lparr>settledWaiters := js_add w (settledWaiters st)\<rparr>))"

definition rest_removeQueuedWaiter :: "string \<Rightarrow> nat \<Rightarrow> dispatch_queue \<Rightarrow> dispatch_queue" where
  "rest_removeQueuedWaiter agentId w st =
     (case jm_get (agentQueueById st) agentId of
        None \<Rightarrow> st
      | Some queue \<Rightarrow>
          (let queue' = js_rem w queue
           in st\<lparr>agentQueueById := (if queue' = [] then jm_del agentId (agentQueueById st)
                                    else jm_set agentId queue' (agentQueueById st))\<rparr>))"

definition rest_drainAgentQueue ::
  "dispatch_limits \<Rightarrow> string \<Rightarrow> dispatch_queue \<Rightarrow> dispatch_event list \<times> dispatch_queue" where
  "rest_drainAgentQueue env agentId st =
     (if maxInflight env \<le> 0 then ([], st)
      else let inflight = rest_getAgentInflight agentId st
           in if inflight \<ge> maxInflight env then ([], st)
              else case jm_get (agentQueueById st) agentId of
                     None \<Rightarrow> ([], st)
                   | Some [] \<Rightarrow> ([], st\<lparr>agentQueueById := jm_del agentId (agentQueueById st)\<rparr>)
                   | Some (w # queue) \<Rightarrow>
                       (let st1 = st\<lparr>agentQueueById := (if queue = [] then jm_del agentId (agentQueueById st)
                                       else jm_set agentId queue (agentQueueById st))\<rparr>
                        in rest_resolveOnce agentId w (rest_setAgentInflight agentId (inflight + 1) st1)))"

definition rest_releaseAgentDispatchSlot ::
  "dispatch_limits \<Rightarrow> string \<Rightarrow> dispatch_queue \<Rightarrow> dispatch_event list \<times> dispatch_queue" where
  "rest_releaseAgentDispatchSlot env agentId st =
     rest_drainAgentQueue env agentId (rest_setAgentInflight agentId (rest_getAgentInflight agentId st - 1) st)"

text \<open>Calling the release closure of a slot.\<close>

definition rest_release ::
  "dispatch_limits \<Rightarrow> nat \<Rightarrow> dispatch_queue \<Rightarrow> dispatch_event list \<times> dispatch_queue" where
  "rest_release env tok st =
     (case jm_get (slots st) tok of
        None \<Rightarrow> ([], st)
      | Some s \<Rightarrow>
          if sl_released s \<or> sl_generation s \<noteq> queueGeneration st then ([], st)
          else rest_releaseAgentDispatchSlot env (sl_agentId s)
                 (st\<lparr>slots := jm_set tok (s\<lparr>sl_released := True\<rparr>) (slots st)\<rparr>))"

definition rest_acquire ::
  "dispatch_limits \<Rightarrow> string \<Rightarrow> bool \<Rightarrow> dispatch_queue \<Rightarrow> acquire_result \<times> dispatch_queue" where
  "rest_acquire env agentId aborted st =
     (if aborted then (AcquireAborted, st)
      else if maxInflight env \<le> 0 then (Unlimited, st)
      else let inflight = rest_getAgentInflight agentId st
           in if inflight < maxInflight env
              then let (tok, st') = rest_idempotentRelease agentId (rest_setAgentInflight agentId (inflight + 1) st)
                   in (Acquired tok, st')
              else let queue = (case jm_get (agentQueueById st) agentId of None \<Rightarrow> [] | Some q \<Rightarrow> q)
                   in if maxQueue env > 0 \<and> int (length queue) \<ge> maxQueue env
                      then (QueueFull, st\<lparr>queueFullRejected := queueFullRejected st + 1\<rparr>)
                      else (Queued (nextWaiter st),
                            st\<lparr>agentQueueById := jm_set agentId (js_add (nextWaiter st) queue) (agentQueueById st),
                               nextWaiter := Suc (nextWaiter st)\<rparr>))"

text \<open>The wait timer and the abort listener of a waiter of \<open>agentId\<close>. Both are removed when the waiter is
  settled, so they fire only for a waiter that is still queued.\<close>

definition rest_wait_timeout :: "string \<Rightarrow> nat \<Rightarrow> dispatch_queue \<Rightarrow> dispatch_event list \<times> dispatch_queue" where
  "rest_wait_timeout agentId w st =
     (if w \<notin> set (idx_get (agentQueueById st) agentId) then ([], st)
      else let st1 = rest_removeQueuedWaiter agentId w st
           in rest_rejectOnce w WaitTimeout
                (st1\<lparr>queueWaitTimeoutRejected := queueWaitTimeoutRejected st1 + 1\<rparr>))"

definition rest_abort :: "string \<Rightarrow> nat \<Rightarrow> dispatch_queue \<Rightarrow> dispatch_event list \<times> dispatch_queue" where
  "rest_abort agentId w st =
     (if w \<notin> set (idx_get (agentQueueById st) agentId) then ([], st)
      else rest_rejectOnce w Aborted (rest_removeQueuedWaiter agentId w st))"

fun rest_rejectAll :: "nat list \<Rightarrow> dispatch_queue \<Rightarrow> dispatch_event list \<times> dispatch_queue" where
  "rest_rejectAll [] st = ([], st)"
| "rest_rejectAll (w # ws) st =
     (let (e1, st1) = rest_rejectOnce w BridgeReset st; (e2, st2) = rest_rejectAll ws st1 in (e1 @ e2, st2))"

definition rest_reset :: "dispatch_queue \<Rightarrow> dispatch_event list \<times> dispatch_queue" where
  "rest_reset st =
     (let st1 = st\<lparr>queueGeneration := Suc (queueGeneration st), agentInflightById := []\<rparr>;
          (eff, st2) = rest_rejectAll (concat (map snd (agentQueueById st1))) st1
      in (eff, st2\<lparr>agentQueueById := []\<rparr>))"

definition rest_snapshot :: "dispatch_queue \<Rightarrow> int \<times> int \<times> int \<times> int" where
  "rest_snapshot st =
     (jm_size (agentQueueById st),
      jm_sum (\<lambda>q. int (length q)) (agentQueueById st),
      jm_sum (\<lambda>v. v) (agentInflightById st),
      fold (\<lambda>(_, q) d. max d (int (length q))) (agentQueueById st) 0)"

section \<open>The relay queue\<close>

definition relay_getAgentInflight :: "string \<Rightarrow> dispatch_queue \<Rightarrow> int" where
  "relay_getAgentInflight agentId st = cnt_get (agentInflightById st) agentId"

definition relay_getQueueDepth :: "string \<Rightarrow> dispatch_queue \<Rightarrow> int" where
  "relay_getQueueDepth agentId st = int (length (idx_get (agentQueueById st) agentId))"

definition relay_setAgentInflight :: "string \<Rightarrow> int \<Rightarrow> dispatch_queue \<Rightarrow> dispatch_queue" where
  "relay_setAgentInflight agentId v st =
     (if v \<le> 0 then st\<lparr>agentInflightById := jm_del agentId (agentInflightById st)\<rparr>
      else st\<lparr>agentInflightById := jm_set agentId v (agentInflightById st)\<rparr>)"

definition relay_idempotentRelease :: "string \<Rightarrow> dispatch_queue \<Rightarrow> nat \<times> dispatch_queue" where
  "relay_idempotentRelease agentId st =
     (nextSlot st,
      st\<lparr>slots := jm_set (nextSlot st)
           \<lparr>sl_agentId = agentId, sl_generation = queueGeneration st, sl_released = False\<rparr> (slots st),
         nextSlot := Suc (nextSlot st)\<rparr>)"

definition relay_resolveOnce :: "string \<Rightarrow> nat \<Rightarrow> dispatch_queue \<Rightarrow> dispatch_event list \<times> dispatch_queue" where
  "relay_resolveOnce agentId w st =
     (if w \<in> set (settledWaiters st) then ([], st)
      else let (tok, st') = relay_idempotentRelease agentId (st\<lparr>settledWaiters := js_add w (settledWaiters st)\<rparr>)
           in ([Resolved w tok], st'))"

definition relay_rejectOnce :: "nat \<Rightarrow> reject_reason \<Rightarrow> dispatch_queue \<Rightarrow> dispatch_event list \<times> dispatch_queue" where
  "relay_rejectOnce w reason st =
     (if w \<in> set (settledWaiters st) then ([], st)
      else ([Rejected w reason], st\<lparr>settledWaiters := js_add w (settledWaiters st)\<rparr>))"

definition relay_removeQueuedWaiter :: "string \<Rightarrow> nat \<Rightarrow> dispatch_queue \<Rightarrow> dispatch_queue" where
  "relay_removeQueuedWaiter agentId w st =
     (case jm_get (agentQueueById st) agentId of
        None \<Rightarrow> st
      | Some queue \<Rightarrow>
          (let queue' = js_rem w queue
           in st\<lparr>agentQueueById := (if queue' = [] then jm_del agentId (agentQueueById st)
                                    else jm_set agentId queue' (agentQueueById st))\<rparr>))"

definition relay_drainAgentQueue ::
  "dispatch_limits \<Rightarrow> string \<Rightarrow> dispatch_queue \<Rightarrow> dispatch_event list \<times> dispatch_queue" where
  "relay_drainAgentQueue env agentId st =
     (if maxInflight env \<le> 0 \<or> relay_getAgentInflight agentId st \<ge> maxInflight env then ([], st)
      else case jm_get (agentQueueById st) agentId of
             None \<Rightarrow> ([], st)
           | Some [] \<Rightarrow> ([], st\<lparr>agentQueueById := jm_del agentId (agentQueueById st)\<rparr>)
           | Some (w # queue) \<Rightarrow>
               (let st1 = st\<lparr>agentQueueById := (if queue = [] then jm_del agentId (agentQueueById st)
                               else jm_set agentId queue (agentQueueById st))\<rparr>
                in relay_resolveOnce agentId w
                     (relay_setAgentInflight agentId (relay_getAgentInflight agentId st1 + 1) st1)))"

definition relay_releaseAgentDispatchSlot ::
  "dispatch_limits \<Rightarrow> string \<Rightarrow> dispatch_queue \<Rightarrow> dispatch_event list \<times> dispatch_queue" where
  "relay_releaseAgentDispatchSlot env agentId st =
     relay_drainAgentQueue env agentId (relay_setAgentInflight agentId (relay_getAgentInflight agentId st - 1) st)"

text \<open>Calling the release closure of a slot.\<close>

definition relay_release ::
  "dispatch_limits \<Rightarrow> nat \<Rightarrow> dispatch_queue \<Rightarrow> dispatch_event list \<times> dispatch_queue" where
  "relay_release env tok st =
     (case jm_get (slots st) tok of
        None \<Rightarrow> ([], st)
      | Some s \<Rightarrow>
          if sl_released s \<or> sl_generation s \<noteq> queueGeneration st then ([], st)
          else relay_releaseAgentDispatchSlot env (sl_agentId s)
                 (st\<lparr>slots := jm_set tok (s\<lparr>sl_released := True\<rparr>) (slots st)\<rparr>))"

definition relay_acquire ::
  "dispatch_limits \<Rightarrow> string \<Rightarrow> bool \<Rightarrow> dispatch_queue \<Rightarrow> acquire_result \<times> dispatch_queue" where
  "relay_acquire env agentId aborted st =
     (if aborted then (AcquireAborted, st)
      else if maxInflight env \<le> 0 then (Unlimited, st)
      else let inflight = relay_getAgentInflight agentId st
           in if inflight < maxInflight env
              then let (tok, st') = relay_idempotentRelease agentId (relay_setAgentInflight agentId (inflight + 1) st)
                   in (Acquired tok, st')
              else let queue = (case jm_get (agentQueueById st) agentId of None \<Rightarrow> [] | Some q \<Rightarrow> q)
                   in if maxQueue env > 0 \<and> int (length queue) \<ge> maxQueue env
                      then (QueueFull, st\<lparr>queueFullRejected := queueFullRejected st + 1\<rparr>)
                      else (Queued (nextWaiter st),
                            st\<lparr>agentQueueById := jm_set agentId (js_add (nextWaiter st) queue) (agentQueueById st),
                               nextWaiter := Suc (nextWaiter st)\<rparr>))"

text \<open>The wait timer and the abort listener of a waiter of \<open>agentId\<close>. Both are removed when the waiter is
  settled, so they fire only for a waiter that is still queued.\<close>

definition relay_wait_timeout :: "string \<Rightarrow> nat \<Rightarrow> dispatch_queue \<Rightarrow> dispatch_event list \<times> dispatch_queue" where
  "relay_wait_timeout agentId w st =
     (if w \<notin> set (idx_get (agentQueueById st) agentId) then ([], st)
      else let st1 = relay_removeQueuedWaiter agentId w st
           in relay_rejectOnce w WaitTimeout
                (st1\<lparr>queueWaitTimeoutRejected := queueWaitTimeoutRejected st1 + 1\<rparr>))"

definition relay_abort :: "string \<Rightarrow> nat \<Rightarrow> dispatch_queue \<Rightarrow> dispatch_event list \<times> dispatch_queue" where
  "relay_abort agentId w st =
     (if w \<notin> set (idx_get (agentQueueById st) agentId) then ([], st)
      else relay_rejectOnce w Aborted (relay_removeQueuedWaiter agentId w st))"

fun relay_rejectAll :: "nat list \<Rightarrow> dispatch_queue \<Rightarrow> dispatch_event list \<times> dispatch_queue" where
  "relay_rejectAll [] st = ([], st)"
| "relay_rejectAll (w # ws) st =
     (let (e1, st1) = relay_rejectOnce w BridgeReset st; (e2, st2) = relay_rejectAll ws st1 in (e1 @ e2, st2))"

definition relay_reset :: "dispatch_queue \<Rightarrow> dispatch_event list \<times> dispatch_queue" where
  "relay_reset st =
     (let st1 = st\<lparr>queueGeneration := Suc (queueGeneration st), agentInflightById := []\<rparr>;
          (eff, st2) = relay_rejectAll (concat (map snd (agentQueueById st1))) st1
      in (eff, st2\<lparr>agentQueueById := [], queueFullRejected := 0, queueWaitTimeoutRejected := 0\<rparr>))"

definition relay_snapshot :: "dispatch_queue \<Rightarrow> int \<times> int \<times> int \<times> int \<times> int \<times> int" where
  "relay_snapshot st =
     (jm_size (agentQueueById st),
      jm_sum (\<lambda>q. int (length q)) (agentQueueById st),
      jm_sum (\<lambda>v. v) (agentInflightById st),
      fold (\<lambda>(_, q) d. max d (int (length q))) (agentQueueById st) 0,
      queueFullRejected st, queueWaitTimeoutRejected st)"

section \<open>Saturation\<close>

definition shouldSkipAgentHealthPollDueToDispatchSaturation ::
  "dispatch_limits \<Rightarrow> dispatch_limits \<Rightarrow> string \<Rightarrow> dispatch_queue \<Rightarrow> dispatch_queue \<Rightarrow> bool" where
  "shouldSkipAgentHealthPollDueToDispatchSaturation restEnv relayEnv agentId rest relay =
     (if maxInflight restEnv > 0 \<and>
         (rest_getAgentInflight agentId rest \<ge> maxInflight restEnv \<or> rest_getQueueDepth agentId rest > 0)
      then True
      else if maxInflight relayEnv > 0 \<and>
         (relay_getAgentInflight agentId relay \<ge> maxInflight relayEnv \<or> relay_getQueueDepth agentId relay > 0)
      then True
      else False)"

section \<open>Invariant\<close>

abbreviation inflight :: "dispatch_queue \<Rightarrow> string \<Rightarrow> int" where
  "inflight st a \<equiv> cnt_get (agentInflightById st) a"

abbreviation waiting :: "dispatch_queue \<Rightarrow> string \<Rightarrow> nat list" where
  "waiting st a \<equiv> idx_get (agentQueueById st) a"

text \<open>The agent a slot still counts for: not released and handed out in the current generation.\<close>

definition live_agent :: "nat \<Rightarrow> dispatch_slot \<Rightarrow> string option" where
  "live_agent gen s = (if sl_released s \<or> sl_generation s \<noteq> gen then None else Some (sl_agentId s))"

definition holds_slot :: "dispatch_queue \<Rightarrow> nat \<Rightarrow> string \<Rightarrow> bool" where
  "holds_slot st tok a \<longleftrightarrow>
     (\<exists>s. jm_get (slots st) tok = Some s \<and> live_agent (queueGeneration st) s = Some a)"

definition slots_ok :: "dispatch_queue \<Rightarrow> bool" where
  "slots_ok st \<longleftrightarrow> jm_wf (slots st) \<and>
     (\<forall>tok s. jm_get (slots st) tok = Some s \<longrightarrow> tok < nextSlot st \<and> sl_generation s \<le> queueGeneration st)"

definition cap_of :: "dispatch_limits \<Rightarrow> int" where
  "cap_of env = max 0 (maxInflight env)"

definition inflight_ok :: "dispatch_limits \<Rightarrow> dispatch_queue \<Rightarrow> bool" where
  "inflight_ok env st \<longleftrightarrow> cnt_wf (agentInflightById st) \<and>
     (\<forall>a. attr_count (live_agent (queueGeneration st)) (slots st) a = inflight st a) \<and>
     (\<forall>a. inflight st a \<le> cap_of env)"

definition queues_ok :: "dispatch_limits \<Rightarrow> dispatch_queue \<Rightarrow> bool" where
  "queues_ok env st \<longleftrightarrow> idx_wf (agentQueueById st) \<and>
     (\<forall>a. waiting st a \<noteq> [] \<longrightarrow> 0 < maxInflight env \<and> inflight st a = maxInflight env) \<and>
     (\<forall>a. 0 < maxQueue env \<longrightarrow> int (length (waiting st a)) \<le> maxQueue env)"

definition waiters_ok :: "dispatch_queue \<Rightarrow> bool" where
  "waiters_ok st \<longleftrightarrow>
     (\<forall>a w. w \<in> set (waiting st a) \<longrightarrow> w < nextWaiter st \<and> w \<notin> set (settledWaiters st)) \<and>
     (\<forall>a b w. w \<in> set (waiting st a) \<longrightarrow> w \<in> set (waiting st b) \<longrightarrow> a = b) \<and>
     (\<forall>w\<in>set (settledWaiters st). w < nextWaiter st)"

definition dq_inv :: "dispatch_limits \<Rightarrow> dispatch_queue \<Rightarrow> bool" where
  "dq_inv env st \<longleftrightarrow> slots_ok st \<and> inflight_ok env st \<and> queues_ok env st \<and> waiters_ok st"

lemma dq_inv_new: "dq_inv env new_dispatch_queue"
  by (simp add: dq_inv_def slots_ok_def inflight_ok_def queues_ok_def waiters_ok_def new_dispatch_queue_def
      cap_of_def)

section \<open>The contract\<close>

text \<open>Any interleaving of acquisitions, releases, wait timeouts, aborts and resets of a module.\<close>

inductive dispatch_step for acquire release wait_timeout abort reset env where
  ds_acquire: "dispatch_step acquire release wait_timeout abort reset env st
     (snd (acquire env (a :: string) (aborted :: bool) (st :: dispatch_queue) :: acquire_result \<times> dispatch_queue))"
| ds_release: "dispatch_step acquire release wait_timeout abort reset env st
     (snd (release env (tok :: nat) st :: dispatch_event list \<times> dispatch_queue))"
| ds_timeout: "dispatch_step acquire release wait_timeout abort reset env st
     (snd (wait_timeout (a :: string) (w :: nat) st :: dispatch_event list \<times> dispatch_queue))"
| ds_abort: "dispatch_step acquire release wait_timeout abort reset env st
     (snd (abort (a :: string) (w :: nat) st :: dispatch_event list \<times> dispatch_queue))"
| ds_reset: "dispatch_step acquire release wait_timeout abort reset env st
     (snd (reset st :: dispatch_event list \<times> dispatch_queue))"

primrec release_all ::
  "('e \<Rightarrow> nat \<Rightarrow> 's \<Rightarrow> dispatch_event list \<times> 's) \<Rightarrow> 'e \<Rightarrow> nat list \<Rightarrow> 's \<Rightarrow> dispatch_event list \<times> 's" where
  "release_all release env [] st = ([], st)"
| "release_all release env (tok # toks) st =
     (fst (release env tok st) @ fst (release_all release env toks (snd (release env tok st))),
      snd (release_all release env toks (snd (release env tok st))))"

locale slot_queue =
  fixes acquire :: "dispatch_limits \<Rightarrow> string \<Rightarrow> bool \<Rightarrow> dispatch_queue \<Rightarrow> acquire_result \<times> dispatch_queue"
    and release :: "dispatch_limits \<Rightarrow> nat \<Rightarrow> dispatch_queue \<Rightarrow> dispatch_event list \<times> dispatch_queue"
    and wait_timeout :: "string \<Rightarrow> nat \<Rightarrow> dispatch_queue \<Rightarrow> dispatch_event list \<times> dispatch_queue"
    and abort :: "string \<Rightarrow> nat \<Rightarrow> dispatch_queue \<Rightarrow> dispatch_event list \<times> dispatch_queue"
    and reset :: "dispatch_queue \<Rightarrow> dispatch_event list \<times> dispatch_queue"
  assumes inv_acquire: "dq_inv env st \<Longrightarrow> dq_inv env (snd (acquire env a aborted st))"
    and inv_release: "dq_inv env st \<Longrightarrow> dq_inv env (snd (release env tok st))"
    and inv_timeout: "dq_inv env st \<Longrightarrow> dq_inv env (snd (wait_timeout a w st))"
    and inv_abort: "dq_inv env st \<Longrightarrow> dq_inv env (snd (abort a w st))"
    and inv_reset: "dq_inv env st \<Longrightarrow> dq_inv env (snd (reset st))"
    and release_handoff: "dq_inv env st \<Longrightarrow> holds_slot st tok a \<Longrightarrow> waiting st a = w # ws \<Longrightarrow>
      fst (release env tok st) = [Resolved w (nextSlot st)] \<and> waiting (snd (release env tok st)) a = ws \<and>
      holds_slot (snd (release env tok st)) (nextSlot st) a \<and>
      inflight (snd (release env tok st)) a = inflight st a"
    and release_idle: "dq_inv env st \<Longrightarrow> holds_slot st tok a \<Longrightarrow> waiting st a = [] \<Longrightarrow>
      fst (release env tok st) = [] \<and> inflight (snd (release env tok st)) a = inflight st a - 1"
    and release_again: "\<not> (\<exists>a. holds_slot st tok a) \<Longrightarrow> release env tok st = ([], st)"
    and release_gone: "dq_inv env st \<Longrightarrow> holds_slot st tok a \<Longrightarrow> \<not> holds_slot (snd (release env tok st)) tok b"
    and release_keeps: "dq_inv env st \<Longrightarrow> holds_slot st tok' a \<Longrightarrow> tok' \<noteq> tok \<Longrightarrow>
      holds_slot (snd (release env tok st)) tok' a"
begin

lemma step_inv: "dispatch_step acquire release wait_timeout abort reset env st st' \<Longrightarrow> dq_inv env st \<Longrightarrow> dq_inv env st'"
  by (induction rule: dispatch_step.induct) (auto intro: inv_acquire inv_release inv_timeout inv_abort inv_reset)

lemma reachable_inv:
  "reachable new_dispatch_queue (dispatch_step acquire release wait_timeout abort reset env) st \<Longrightarrow> dq_inv env st"
  by (induction rule: reachable.induct) (auto intro: dq_inv_new step_inv)

text \<open>A second call of the same release closure does nothing.\<close>

lemma release_twice: "dq_inv env st \<Longrightarrow> release env tok (snd (release env tok st)) = ([], snd (release env tok st))"
  by (metis release_again release_gone snd_conv)

text \<open>Releases of \<open>n\<close> slots of one agent serve the \<open>n\<close> oldest waiters, in their order.\<close>

lemma served_in_order:
  assumes "dq_inv env st" "distinct toks" "\<forall>tok\<in>set toks. holds_slot st tok a"
    and "length toks \<le> length (waiting st a)"
  shows "map (\<lambda>e. case e of Resolved w _ \<Rightarrow> Some w | Rejected _ _ \<Rightarrow> None) (fst (release_all release env toks st)) =
      map Some (take (length toks) (waiting st a)) \<and>
    waiting (snd (release_all release env toks st)) a = drop (length toks) (waiting st a)"
  using assms
proof (induction toks arbitrary: st)
  case Nil
  then show ?case by simp
next
  case (Cons tok toks)
  obtain w ws where q: "waiting st a = w # ws" using Cons.prems(4) by (cases "waiting st a") auto
  let ?st = "snd (release env tok st)"
  have h: "fst (release env tok st) = [Resolved w (nextSlot st)]" "waiting ?st a = ws"
    using release_handoff[OF Cons.prems(1) _ q] Cons.prems(3) by auto
  have "\<forall>t\<in>set toks. holds_slot ?st t a"
    by (intro ballI release_keeps[OF Cons.prems(1)]) (use Cons.prems(2,3) in auto)
  then show ?case
    using Cons.IH[OF inv_release[OF Cons.prems(1)], of tok] Cons.prems(2,4) h q by simp
qed

end

section \<open>The REST queue meets the contract\<close>

text \<open>The new counter map of \<open>setAgentInflight\<close>, and the queue map once its head or a waiter is gone.\<close>

definition put_count :: "string \<Rightarrow> int \<Rightarrow> string counter \<Rightarrow> string counter" where
  "put_count a v c = (if v \<le> 0 then jm_del a c else jm_set a v c)"

lemma put_count_simps [simp]:
  "cnt_get (put_count a v c) b = (if b = a then max 0 v else cnt_get c b)"
  "cnt_wf c \<Longrightarrow> cnt_wf (put_count a v c)"
  by (auto simp: put_count_def cnt_get_def cnt_wf_def split: if_splits)

definition put_queue :: "string \<Rightarrow> nat list \<Rightarrow> (string, nat) index \<Rightarrow> (string, nat) index" where
  "put_queue a q m = (if q = [] then jm_del a m else jm_set a q m)"

lemma put_queue_simps [simp]:
  "idx_get (put_queue a q m) b = (if b = a then q else idx_get m b)"
  "idx_wf m \<Longrightarrow> distinct q \<Longrightarrow> idx_wf (put_queue a q m)"
  by (auto simp: put_queue_def idx_get_def idx_wf_def split: if_splits)

lemma rest_set_eq: "rest_setAgentInflight a v st = st\<lparr>agentInflightById := put_count a v (agentInflightById st)\<rparr>"
  by (simp add: rest_setAgentInflight_def put_count_def)

lemma waiting_Cons:
  "idx_wf m \<Longrightarrow> idx_get m a = w # ws \<longleftrightarrow> jm_get m a = Some (w # ws)"
  by (auto simp: idx_get_def split: option.splits)

lemma waiting_Nil: "idx_wf m \<Longrightarrow> idx_get m a = [] \<longleftrightarrow> jm_get m a = None"
  by (auto simp: idx_get_def idx_wf_def split: option.splits)

lemma rest_remove_eq:
  assumes "idx_wf (agentQueueById st)"
  shows "rest_removeQueuedWaiter a w st =
    (if waiting st a = [] then st
     else st\<lparr>agentQueueById := put_queue a (js_rem w (waiting st a)) (agentQueueById st)\<rparr>)"
  using assms waiting_Nil[OF assms, of a]
  by (auto simp: rest_removeQueuedWaiter_def put_queue_def idx_get_def Let_def split: option.splits)

definition fresh_slot :: "string \<Rightarrow> dispatch_queue \<Rightarrow> dispatch_slot" where
  "fresh_slot a st = \<lparr>sl_agentId = a, sl_generation = queueGeneration st, sl_released = False\<rparr>"

lemma dq_invD:
  assumes "dq_inv env st"
  shows "jm_wf (slots st)" "jm_get (slots st) tok = Some s \<Longrightarrow> tok < nextSlot st"
    "jm_get (slots st) (nextSlot st) = None" "cnt_wf (agentInflightById st)" "idx_wf (agentQueueById st)"
    "attr_count (live_agent (queueGeneration st)) (slots st) a = inflight st a"
    "inflight st a \<le> cap_of env"
    "waiting st a \<noteq> [] \<Longrightarrow> 0 < maxInflight env \<and> inflight st a = maxInflight env"
    "w \<in> set (waiting st a) \<Longrightarrow> w < nextWaiter st \<and> w \<notin> set (settledWaiters st)"
    "distinct (waiting st a)"
proof -
  show "jm_get (slots st) (nextSlot st) = None"
    using assms by (cases "jm_get (slots st) (nextSlot st)") (auto simp: dq_inv_def slots_ok_def)
  show "distinct (waiting st a)"
    using assms by (simp add: dq_inv_def queues_ok_def)
qed (use assms in \<open>auto simp: dq_inv_def slots_ok_def inflight_ok_def queues_ok_def waiters_ok_def\<close>)

lemma holds_inflight:
  assumes "dq_inv env st" "holds_slot st tok a"
  shows "1 \<le> inflight st a" "0 < maxInflight env" "inflight st a \<le> maxInflight env"
proof -
  obtain s where s: "jm_get (slots st) tok = Some s" "live_agent (queueGeneration st) s = Some a"
    using assms(2) by (auto simp: holds_slot_def)
  show "1 \<le> inflight st a"
    using attr_count_pos[OF dq_invD(1)[OF assms(1)] s(1), of "live_agent (queueGeneration st)" a] s(2)
      dq_invD(6)[OF assms(1)] by simp
  then show "0 < maxInflight env" "inflight st a \<le> maxInflight env"
    using dq_invD(7)[OF assms(1), of a] by (auto simp: cap_of_def max_def split: if_splits)
qed

text \<open>Releasing a slot that is held: with a waiter, the slot goes to the oldest one; without, the count drops.\<close>

lemma rest_release_handoff:
  assumes inv: "dq_inv env st" and s: "jm_get (slots st) tok = Some s" "live_agent (queueGeneration st) s = Some a"
    and q: "waiting st a = w # ws"
  shows "rest_release env tok st =
    ([Resolved w (nextSlot st)],
     st\<lparr>slots := jm_set (nextSlot st) (fresh_slot a st) (jm_set tok (s\<lparr>sl_released := True\<rparr>) (slots st)),
        agentInflightById := put_count a (inflight st a) (put_count a (inflight st a - 1) (agentInflightById st)),
        agentQueueById := put_queue a ws (agentQueueById st),
        settledWaiters := js_add w (settledWaiters st), nextSlot := Suc (nextSlot st)\<rparr>)"
proof -
  have hs: "holds_slot st tok a" using s by (auto simp: holds_slot_def)
  note h = holds_inflight[OF inv hs]
  have g: "jm_get (agentQueueById st) a = Some (w # ws)"
    using q waiting_Cons[OF dq_invD(5)[OF inv]] by simp
  have l: "\<not> sl_released s" "sl_generation s = queueGeneration st" "sl_agentId s = a"
    using s(2) by (auto simp: live_agent_def split: if_splits)
  have "w \<notin> set (settledWaiters st)" using dq_invD(9)[OF inv, of w a] q by simp
  then show ?thesis
    using s(1) l h g
    by (auto simp: rest_release_def rest_releaseAgentDispatchSlot_def rest_set_eq rest_getAgentInflight_def
        rest_drainAgentQueue_def rest_resolveOnce_def rest_idempotentRelease_def put_queue_def fresh_slot_def Let_def)
qed

lemma rest_release_idle:
  assumes inv: "dq_inv env st" and s: "jm_get (slots st) tok = Some s" "live_agent (queueGeneration st) s = Some a"
    and q: "waiting st a = []"
  shows "rest_release env tok st =
    ([], st\<lparr>slots := jm_set tok (s\<lparr>sl_released := True\<rparr>) (slots st),
        agentInflightById := put_count a (inflight st a - 1) (agentInflightById st)\<rparr>)"
proof -
  have hs: "holds_slot st tok a" using s by (auto simp: holds_slot_def)
  note h = holds_inflight[OF inv hs]
  have g: "jm_get (agentQueueById st) a = None" using q waiting_Nil[OF dq_invD(5)[OF inv]] by simp
  have l: "\<not> sl_released s" "sl_generation s = queueGeneration st" "sl_agentId s = a"
    using s(2) by (auto simp: live_agent_def split: if_splits)
  show ?thesis
    using s(1) l h g
    by (auto simp: rest_release_def rest_releaseAgentDispatchSlot_def rest_set_eq rest_getAgentInflight_def
        rest_drainAgentQueue_def Let_def)
qed

lemma rest_release_again:
  "\<not> (\<exists>a. holds_slot st tok a) \<Longrightarrow> rest_release env tok st = ([], st)"
  by (auto simp: rest_release_def holds_slot_def live_agent_def split: option.splits if_splits)

lemma live_agent_simps [simp]:
  "live_agent (queueGeneration st) (fresh_slot a st) = Some a"
  "live_agent gen (s\<lparr>sl_released := True\<rparr>) = None"
  "sl_generation (fresh_slot a st) = queueGeneration st"
  by (simp_all add: live_agent_def fresh_slot_def)

lemma rest_inv_handoff:
  assumes inv: "dq_inv env st" and s: "jm_get (slots st) tok = Some s" "live_agent (queueGeneration st) s = Some a"
    and q: "waiting st a = w # ws"
  shows "dq_inv env (snd (rest_release env tok st))"
proof -
  have hs: "holds_slot st tok a" using s by (auto simp: holds_slot_def)
  note h = holds_inflight[OF inv hs] and D = dq_invD[OF inv]
  have ne: "tok \<noteq> nextSlot st" using D(2)[OF s(1)] by simp
  have full: "inflight st a = maxInflight env" using D(8)[of a] q by simp
  have ok: "slots_ok st" "inflight_ok env st" "queues_ok env st" "waiters_ok st"
    using inv by (auto simp: dq_inv_def)
  let ?st = "snd (rest_release env tok st)"
  note e = rest_release_handoff[OF inv s q]
  have "slots_ok ?st" using ok(1) s(1) unfolding e by (auto simp: slots_ok_def less_Suc_eq)
  moreover have "inflight_ok env ?st"
    using ok(2) s ne D(3) h D(7)[of a] unfolding e by (auto simp: inflight_ok_def attr_count_set)
  moreover have "queues_ok env ?st"
  proof -
    have "0 < maxQueue env \<longrightarrow> int (length ws) \<le> maxQueue env"
    proof
      assume "0 < maxQueue env"
      then have "int (length (waiting st a)) \<le> maxQueue env" using ok(3) unfolding queues_ok_def by blast
      then show "int (length ws) \<le> maxQueue env" using q by simp
    qed
    then show ?thesis
      using ok(3) q full h D(10)[of a] unfolding e by (auto simp: queues_ok_def)
  qed
  moreover have "waiters_ok ?st"
  proof -
    have w: "w < nextWaiter st" "w \<notin> set ws" using D(9)[of w a] D(10)[of a] q by auto
    have other: "w \<notin> set (waiting st b)" if "b \<noteq> a" for b
      using ok(4) q that by (auto simp: waiters_ok_def)
    have sub: "v \<in> set ws \<Longrightarrow> v \<in> set (waiting st a)" for v using q by simp
    show ?thesis
      using ok(4) w other sub unfolding e waiters_ok_def by (auto split: if_splits)
  qed
  ultimately show ?thesis by (simp add: dq_inv_def)
qed

lemma rest_inv_idle:
  assumes inv: "dq_inv env st" and s: "jm_get (slots st) tok = Some s" "live_agent (queueGeneration st) s = Some a"
    and q: "waiting st a = []"
  shows "dq_inv env (snd (rest_release env tok st))"
proof -
  have hs: "holds_slot st tok a" using s by (auto simp: holds_slot_def)
  note h = holds_inflight[OF inv hs]
  have ok: "slots_ok st" "inflight_ok env st" "queues_ok env st" "waiters_ok st"
    using inv by (auto simp: dq_inv_def)
  let ?st = "snd (rest_release env tok st)"
  note e = rest_release_idle[OF inv s q]
  have "slots_ok ?st" using ok(1) s(1) unfolding e by (auto simp: slots_ok_def)
  moreover have "inflight st a - 1 \<le> cap_of env" using dq_invD(7)[OF inv, of a] by simp
  then have "inflight_ok env ?st"
    using ok(2) s h unfolding e by (auto simp: inflight_ok_def attr_count_set)
  moreover have "queues_ok env ?st" using ok(3) q unfolding e by (auto simp: queues_ok_def)
  moreover have "waiters_ok ?st" using ok(4) unfolding e by (simp add: waiters_ok_def)
  ultimately show ?thesis by (simp add: dq_inv_def)
qed

lemma rest_inv_release:
  assumes "dq_inv env st"
  shows "dq_inv env (snd (rest_release env tok st))"
proof (cases "\<exists>a. holds_slot st tok a")
  case True
  then obtain a s where s: "jm_get (slots st) tok = Some s" "live_agent (queueGeneration st) s = Some a"
    by (auto simp: holds_slot_def)
  then show ?thesis
    using rest_inv_idle[OF assms s] rest_inv_handoff[OF assms s] by (cases "waiting st a") auto
next
  case False
  then show ?thesis using assms rest_release_again[OF False] by simp
qed

lemma rest_acquire_eq:
  "rest_acquire env a aborted st =
     (if aborted then (AcquireAborted, st)
      else if maxInflight env \<le> 0 then (Unlimited, st)
      else if inflight st a < maxInflight env
      then (Acquired (nextSlot st),
            st\<lparr>agentInflightById := put_count a (inflight st a + 1) (agentInflightById st),
               slots := jm_set (nextSlot st) (fresh_slot a st) (slots st), nextSlot := Suc (nextSlot st)\<rparr>)
      else if maxQueue env > 0 \<and> int (length (waiting st a)) \<ge> maxQueue env
      then (QueueFull, st\<lparr>queueFullRejected := queueFullRejected st + 1\<rparr>)
      else (Queued (nextWaiter st),
            st\<lparr>agentQueueById := put_queue a (js_add (nextWaiter st) (waiting st a)) (agentQueueById st),
               nextWaiter := Suc (nextWaiter st)\<rparr>))"
  by (simp add: rest_acquire_def rest_set_eq rest_getAgentInflight_def rest_idempotentRelease_def put_queue_def
      idx_get_def Let_def fresh_slot_def)

lemma rest_inv_acquired:
  assumes inv: "dq_inv env st" and lt: "inflight st a < maxInflight env"
  shows "dq_inv env (st\<lparr>agentInflightById := put_count a (inflight st a + 1) (agentInflightById st),
    slots := jm_set (nextSlot st) (fresh_slot a st) (slots st), nextSlot := Suc (nextSlot st)\<rparr>)"
proof -
  note D = dq_invD[OF inv]
  have ok: "slots_ok st" "inflight_ok env st" "queues_ok env st" "waiters_ok st"
    using inv by (auto simp: dq_inv_def)
  have nn: "0 \<le> inflight st a" "inflight st a + 1 \<le> cap_of env"
    using D(4) lt by (simp_all add: cap_of_def)
  have w: "waiting st a = []" using D(8)[of a] lt by fastforce
  let ?st = "st\<lparr>agentInflightById := put_count a (inflight st a + 1) (agentInflightById st),
    slots := jm_set (nextSlot st) (fresh_slot a st) (slots st), nextSlot := Suc (nextSlot st)\<rparr>"
  have "slots_ok ?st" using ok(1) by (auto simp: slots_ok_def less_Suc_eq)
  moreover have "inflight_ok env ?st" using ok(2) nn D(3) by (auto simp: inflight_ok_def attr_count_set)
  moreover have "queues_ok env ?st" using ok(3) w unfolding queues_ok_def by auto
  moreover have "waiters_ok ?st" using ok(4) by (simp add: waiters_ok_def)
  ultimately show ?thesis by (simp add: dq_inv_def)
qed

lemma rest_inv_queued:
  assumes inv: "dq_inv env st" and pos: "0 < maxInflight env" and ge: "\<not> inflight st a < maxInflight env"
    and room: "\<not> (maxQueue env > 0 \<and> int (length (waiting st a)) \<ge> maxQueue env)"
  shows "dq_inv env (st\<lparr>agentQueueById := put_queue a (js_add (nextWaiter st) (waiting st a)) (agentQueueById st),
    nextWaiter := Suc (nextWaiter st)\<rparr>)"
proof -
  note D = dq_invD[OF inv]
  have ok: "slots_ok st" "inflight_ok env st" "queues_ok env st" "waiters_ok st"
    using inv by (auto simp: dq_inv_def)
  have fresh: "nextWaiter st \<notin> set (waiting st b)" for b using D(9)[of "nextWaiter st" b] by auto
  have full: "inflight st a = maxInflight env" using D(7)[of a] pos ge by (simp add: cap_of_def)
  let ?st = "st\<lparr>agentQueueById := put_queue a (js_add (nextWaiter st) (waiting st a)) (agentQueueById st),
    nextWaiter := Suc (nextWaiter st)\<rparr>"
  have "slots_ok ?st" "inflight_ok env ?st" using ok(1,2) by (simp_all add: slots_ok_def inflight_ok_def)
  moreover have "queues_ok env ?st"
    using ok(3) pos room full D(10)[of a] fresh[of a] by (auto simp: queues_ok_def js_add_def)
  moreover have "waiters_ok ?st"
    using ok(4) fresh by (auto simp: waiters_ok_def less_Suc_eq split: if_splits)
  ultimately show ?thesis by (simp add: dq_inv_def)
qed

lemma rest_inv_acquire: "dq_inv env st \<Longrightarrow> dq_inv env (snd (rest_acquire env a aborted st))"
  using rest_inv_acquired[of env st a] rest_inv_queued[of env st a]
  by (auto simp: rest_acquire_eq, simp add: dq_inv_def slots_ok_def inflight_ok_def queues_ok_def waiters_ok_def)

lemma rest_inv_leave:
  assumes inv: "dq_inv env st" and w: "w \<in> set (waiting st a)"
  shows "dq_inv env (st\<lparr>agentQueueById := put_queue a (js_rem w (waiting st a)) (agentQueueById st),
    settledWaiters := js_add w (settledWaiters st), queueWaitTimeoutRejected := n\<rparr>)"
proof -
  note D = dq_invD[OF inv]
  have ok: "slots_ok st" "inflight_ok env st" "queues_ok env st" "waiters_ok st"
    using inv by (auto simp: dq_inv_def)
  have "waiting st a \<noteq> []" using w by auto
  then have full: "0 < maxInflight env" "inflight st a = maxInflight env" using D(8)[of a] by auto
  have len: "length (js_rem w (waiting st a)) \<le> length (waiting st a)" by (simp add: js_rem_def)
  have other: "w \<notin> set (waiting st b)" if "b \<noteq> a" for b
    using ok(4) w that unfolding waiters_ok_def by blast
  have bound: "int (length (js_rem w (waiting st a))) \<le> maxQueue env" if "0 < maxQueue env"
  proof -
    have "int (length (waiting st a)) \<le> maxQueue env" using ok(3) that unfolding queues_ok_def by blast
    then show ?thesis using len by linarith
  qed
  show ?thesis
    using ok full len D(9)[OF w] D(10)[of a] other bound
    by (auto simp: dq_inv_def slots_ok_def inflight_ok_def queues_ok_def waiters_ok_def split: if_splits)
qed

lemma rest_timeout_eq:
  assumes "dq_inv env st" "w \<in> set (waiting st a)"
  shows "rest_wait_timeout a w st = ([Rejected w WaitTimeout],
      st\<lparr>agentQueueById := put_queue a (js_rem w (waiting st a)) (agentQueueById st),
         settledWaiters := js_add w (settledWaiters st),
         queueWaitTimeoutRejected := queueWaitTimeoutRejected st + 1\<rparr>)"
    and "rest_abort a w st = ([Rejected w Aborted],
      st\<lparr>agentQueueById := put_queue a (js_rem w (waiting st a)) (agentQueueById st),
         settledWaiters := js_add w (settledWaiters st),
         queueWaitTimeoutRejected := queueWaitTimeoutRejected st\<rparr>)"
proof -
  have "waiting st a \<noteq> []" "w \<notin> set (settledWaiters st)" using assms dq_invD(9)[OF assms] by auto
  then show "rest_wait_timeout a w st = ([Rejected w WaitTimeout],
      st\<lparr>agentQueueById := put_queue a (js_rem w (waiting st a)) (agentQueueById st),
         settledWaiters := js_add w (settledWaiters st),
         queueWaitTimeoutRejected := queueWaitTimeoutRejected st + 1\<rparr>)"
    "rest_abort a w st = ([Rejected w Aborted],
      st\<lparr>agentQueueById := put_queue a (js_rem w (waiting st a)) (agentQueueById st),
         settledWaiters := js_add w (settledWaiters st),
         queueWaitTimeoutRejected := queueWaitTimeoutRejected st\<rparr>)"
    using assms(2) rest_remove_eq[OF dq_invD(5)[OF assms(1)], of a w]
    by (simp_all add: rest_wait_timeout_def rest_abort_def rest_rejectOnce_def Let_def)
qed

lemma rest_inv_timeout:
  "dq_inv env st \<Longrightarrow> dq_inv env (snd (rest_wait_timeout a w st))"
  "dq_inv env st \<Longrightarrow> dq_inv env (snd (rest_abort a w st))"
proof -
  assume inv: "dq_inv env st"
  show "dq_inv env (snd (rest_wait_timeout a w st))"
    using inv rest_timeout_eq(1)[OF inv, of w a] rest_inv_leave[OF inv, of w a]
    by (cases "w \<in> set (waiting st a)") (auto simp: rest_wait_timeout_def)
  show "dq_inv env (snd (rest_abort a w st))"
    using inv rest_timeout_eq(2)[OF inv, of w a] rest_inv_leave[OF inv, of w a "queueWaitTimeoutRejected st"]
    by (cases "w \<in> set (waiting st a)") (auto simp: rest_abort_def)
qed

lemma rest_rejectAll_snd:
  "\<exists>ss. snd (rest_rejectAll ws st) = st\<lparr>settledWaiters := ss\<rparr> \<and> set ss = set ws \<union> set (settledWaiters st)"
proof (induction ws arbitrary: st)
  case Nil
  show ?case by (rule exI[of _ "settledWaiters st"]) simp
next
  case (Cons w ws)
  have "\<exists>ss. snd (rest_rejectOnce w BridgeReset st) = st\<lparr>settledWaiters := ss\<rparr> \<and>
      set ss = insert w (set (settledWaiters st))"
    by (cases "w \<in> set (settledWaiters st)")
      (auto simp: rest_rejectOnce_def intro: exI[of _ "settledWaiters st"])
  then obtain ss where ss: "snd (rest_rejectOnce w BridgeReset st) = st\<lparr>settledWaiters := ss\<rparr>"
    "set ss = insert w (set (settledWaiters st))" by blast
  from Cons.IH[of "st\<lparr>settledWaiters := ss\<rparr>"] ss show ?case
    by (auto simp: Let_def case_prod_beta)
qed

lemma rest_inv_reset:
  assumes inv: "dq_inv env st"
  shows "dq_inv env (snd (rest_reset st))"
proof -
  let ?ws = "concat (map snd (agentQueueById st))"
  obtain ss where ss: "snd (rest_rejectAll ?ws (st\<lparr>queueGeneration := Suc (queueGeneration st), agentInflightById := []\<rparr>)) =
      st\<lparr>queueGeneration := Suc (queueGeneration st), agentInflightById := [], settledWaiters := ss\<rparr>"
    "set ss = set ?ws \<union> set (settledWaiters st)"
    using rest_rejectAll_snd[of ?ws "st\<lparr>queueGeneration := Suc (queueGeneration st), agentInflightById := []\<rparr>"] by auto
  have ok: "slots_ok st" "waiters_ok st" "idx_wf (agentQueueById st)"
    using inv by (auto simp: dq_inv_def queues_ok_def)
  have "w < nextWaiter st" if w: "w \<in> set ss" for w
  proof (cases "w \<in> set ?ws")
    case True
    then obtain a q where "(a, q) \<in> set (agentQueueById st)" "w \<in> set q" by auto
    then have "w \<in> set (waiting st a)"
      using ok(3) by (simp add: idx_get_def idx_wf_def jm_in_set_get)
    then show ?thesis using dq_invD(9)[OF inv] by blast
  next
    case False
    then show ?thesis using w ss(2) ok(2) by (auto simp: waiters_ok_def)
  qed
  moreover have "attr_count (live_agent (Suc (queueGeneration st))) (slots st) a = 0" for a
  proof -
    have none: "live_agent (Suc (queueGeneration st)) s = None" if "jm_get (slots st) tok = Some s" for tok s
      using ok(1) that by (fastforce simp: slots_ok_def live_agent_def)
    have wf: "jm_wf (slots st)" using ok(1) by (simp add: slots_ok_def)
    have empty: "{i. \<exists>r. jm_get (slots st) i = Some r \<and> live_agent (Suc (queueGeneration st)) r = Some a} = {}"
      using none by fastforce
    show ?thesis
      using attr_count_card[OF wf, of "live_agent (Suc (queueGeneration st))" a] unfolding empty by simp
  qed
  moreover have "sl_generation s \<le> Suc (queueGeneration st)" if "jm_get (slots st) tok = Some s" for tok s
    using ok(1) that unfolding slots_ok_def by (meson le_SucI)
  ultimately show ?thesis
    using ok(1)
    by (auto simp: rest_reset_def Let_def case_prod_beta ss(1) dq_inv_def slots_ok_def inflight_ok_def
        queues_ok_def waiters_ok_def cap_of_def)
qed

lemma rest_contract: "slot_queue rest_acquire rest_release rest_wait_timeout rest_abort rest_reset"
proof
  fix env st tok a w ws
  assume inv: "dq_inv env st" and hs: "holds_slot st tok a" and q: "waiting st a = w # ws"
  obtain s where s: "jm_get (slots st) tok = Some s" "live_agent (queueGeneration st) s = Some a"
    using hs by (auto simp: holds_slot_def)
  show "fst (rest_release env tok st) = [Resolved w (nextSlot st)] \<and>
      waiting (snd (rest_release env tok st)) a = ws \<and>
      holds_slot (snd (rest_release env tok st)) (nextSlot st) a \<and>
      inflight (snd (rest_release env tok st)) a = inflight st a"
    using holds_inflight[OF inv hs] live_agent_simps(1)[of st a]
    unfolding rest_release_handoff[OF inv s q] by (simp add: holds_slot_def)
next
  fix env st tok a
  assume inv: "dq_inv env st" and hs: "holds_slot st tok a" and q: "waiting st a = []"
  obtain s where s: "jm_get (slots st) tok = Some s" "live_agent (queueGeneration st) s = Some a"
    using hs by (auto simp: holds_slot_def)
  show "fst (rest_release env tok st) = [] \<and> inflight (snd (rest_release env tok st)) a = inflight st a - 1"
    using holds_inflight[OF inv hs] unfolding rest_release_idle[OF inv s q] by simp
next
  fix env st tok a b
  assume inv: "dq_inv env st" and hs: "holds_slot st tok a"
  obtain s where s: "jm_get (slots st) tok = Some s" "live_agent (queueGeneration st) s = Some a"
    using hs by (auto simp: holds_slot_def)
  have "tok \<noteq> nextSlot st" using dq_invD(2)[OF inv s(1)] by simp
  then show "\<not> holds_slot (snd (rest_release env tok st)) tok b"
    using rest_release_idle[OF inv s] rest_release_handoff[OF inv s]
    by (cases "waiting st a") (auto simp: holds_slot_def)
next
  fix env st tok' a tok
  assume inv: "dq_inv env st" and hs: "holds_slot st tok' a" and ne: "tok' \<noteq> tok"
  show "holds_slot (snd (rest_release env tok st)) tok' a"
  proof (cases "\<exists>b. holds_slot st tok b")
    case True
    then obtain b s where s: "jm_get (slots st) tok = Some s" "live_agent (queueGeneration st) s = Some b"
      by (auto simp: holds_slot_def)
    have "tok' \<noteq> nextSlot st" using hs dq_invD(2)[OF inv, of tok'] by (auto simp: holds_slot_def)
    then show ?thesis
      using hs ne rest_release_idle[OF inv s] rest_release_handoff[OF inv s]
      by (cases "waiting st b") (auto simp: holds_slot_def)
  next
    case False
    then show ?thesis using hs rest_release_again[OF False] by simp
  qed
qed (auto simp: rest_inv_acquire rest_inv_release rest_inv_timeout rest_inv_reset rest_release_again)

interpretation rest: slot_queue rest_acquire rest_release rest_wait_timeout rest_abort rest_reset
  by (rule rest_contract)

section \<open>The relay queue meets the contract\<close>

text \<open>Operation by operation the relay module computes what the REST module computes; only its reset also
  clears the two rejection counters.\<close>

lemma relay_same_basics:
  "relay_getAgentInflight = rest_getAgentInflight" "relay_getQueueDepth = rest_getQueueDepth"
  "relay_setAgentInflight = rest_setAgentInflight" "relay_idempotentRelease = rest_idempotentRelease"
  "relay_rejectOnce = rest_rejectOnce" "relay_removeQueuedWaiter = rest_removeQueuedWaiter"
  by (simp_all add: fun_eq_iff relay_getAgentInflight_def rest_getAgentInflight_def relay_getQueueDepth_def
      rest_getQueueDepth_def relay_setAgentInflight_def rest_setAgentInflight_def relay_idempotentRelease_def
      rest_idempotentRelease_def relay_rejectOnce_def rest_rejectOnce_def relay_removeQueuedWaiter_def
      rest_removeQueuedWaiter_def)

lemma relay_same_resolve: "relay_resolveOnce = rest_resolveOnce"
  by (simp add: fun_eq_iff relay_resolveOnce_def rest_resolveOnce_def relay_same_basics)

lemma relay_same_drain: "relay_drainAgentQueue = rest_drainAgentQueue"
  by (auto simp: fun_eq_iff relay_drainAgentQueue_def rest_drainAgentQueue_def relay_same_basics
      relay_same_resolve rest_getAgentInflight_def Let_def split: option.splits list.splits)

lemma relay_same_slot: "relay_releaseAgentDispatchSlot = rest_releaseAgentDispatchSlot"
  by (intro ext) (simp only: relay_releaseAgentDispatchSlot_def rest_releaseAgentDispatchSlot_def
      relay_same_basics relay_same_drain)

lemma relay_same_ops:
  "relay_release = rest_release" "relay_acquire = rest_acquire"
  "relay_wait_timeout = rest_wait_timeout" "relay_abort = rest_abort"
  by (intro ext, simp only: relay_release_def rest_release_def relay_same_slot,
      intro ext, simp only: relay_acquire_def rest_acquire_def relay_same_basics,
      intro ext, simp only: relay_wait_timeout_def rest_wait_timeout_def relay_same_basics,
      intro ext, simp only: relay_abort_def rest_abort_def relay_same_basics)

lemma relay_same_rejectAll: "relay_rejectAll ws st = rest_rejectAll ws st"
  by (induction ws arbitrary: st) (simp_all add: relay_same_basics)

lemma relay_inv_reset: "dq_inv env st \<Longrightarrow> dq_inv env (snd (relay_reset st))"
  using rest_inv_reset[of env st]
  by (simp add: relay_reset_def rest_reset_def relay_same_rejectAll Let_def case_prod_beta dq_inv_def
      slots_ok_def inflight_ok_def queues_ok_def waiters_ok_def)

lemma relay_contract: "slot_queue relay_acquire relay_release relay_wait_timeout relay_abort relay_reset"
  unfolding relay_same_ops
  by unfold_locales
    (auto intro: rest.inv_acquire rest.inv_release rest.inv_timeout rest.inv_abort relay_inv_reset
      simp: rest.release_handoff rest.release_idle rest.release_again rest.release_gone rest.release_keeps)

interpretation relay: slot_queue relay_acquire relay_release relay_wait_timeout relay_abort relay_reset
  by (rule relay_contract)

section \<open>Properties\<close>

text \<open>C15: both dispatch queues respect their limits and never idle. In every reachable state of either
  module, the requests in flight of an agent are exactly the slots handed out and not yet
  released, they never exceed the limit, the wait queue never exceeds its bound, and a
  non-empty queue means that the agent is at its limit: no waiter is left behind while a slot is free.\<close>

theorem dispatch_queue_limits:
  assumes "reachable new_dispatch_queue
      (dispatch_step rest_acquire rest_release rest_wait_timeout rest_abort rest_reset env) st \<or>
    reachable new_dispatch_queue
      (dispatch_step relay_acquire relay_release relay_wait_timeout relay_abort relay_reset env) st"
  shows "rest_getAgentInflight a st = int (card {tok. holds_slot st tok a}) \<and>
    rest_getAgentInflight a st \<le> max 0 (maxInflight env) \<and>
    (0 < maxQueue env \<longrightarrow> rest_getQueueDepth a st \<le> maxQueue env) \<and>
    (0 < rest_getQueueDepth a st \<longrightarrow> rest_getAgentInflight a st = maxInflight env)"
proof -
  have inv: "dq_inv env st" using assms rest.reachable_inv relay.reachable_inv by blast
  have "inflight st a = int (card {tok. holds_slot st tok a})"
    using attr_count_card[OF dq_invD(1)[OF inv], of "live_agent (queueGeneration st)" a] dq_invD(6)[OF inv, of a]
    by (simp add: holds_slot_def)
  moreover have "0 < maxQueue env \<longrightarrow> int (length (waiting st a)) \<le> maxQueue env"
    using inv unfolding dq_inv_def queues_ok_def by blast
  ultimately show ?thesis
    using dq_invD(7,8)[OF inv, of a]
    by (auto simp: rest_getAgentInflight_def rest_getQueueDepth_def cap_of_def)
qed

definition sample_limits :: dispatch_limits where
  "sample_limits = \<lparr>maxInflight = 1, maxQueue = 5\<rparr>"

definition sample_queue :: dispatch_queue where
  "sample_queue =
     snd (rest_acquire sample_limits ''a'' False (snd (rest_acquire sample_limits ''a'' False
       (snd (rest_acquire sample_limits ''a'' False new_dispatch_queue)))))"

lemma sample_queue_reachable:
  "reachable new_dispatch_queue
     (dispatch_step rest_acquire rest_release rest_wait_timeout rest_abort rest_reset sample_limits) sample_queue"
  unfolding sample_queue_def by (rule reachable.reach_step[OF reachable.reach_step[OF reachable.reach_step[OF reach_init]]]) (rule ds_acquire)+

theorem dispatch_queue_limits_witness:
  "rest_getQueueDepth ''a'' sample_queue = 2 \<and> rest_getAgentInflight ''a'' sample_queue = 1"
proof -
  have "rest_getQueueDepth ''a'' sample_queue = 2" by code_simp
  then show ?thesis
    using dispatch_queue_limits[of sample_limits sample_queue "''a''"] sample_queue_reachable
    by (simp add: sample_limits_def)
qed

text \<open>C28: waiters are served first come, first served, and a release counts once. When slots of an agent
  are released, in any reachable state of either module, the waiters of that agent are resolved in
  exactly the order in which they queued, one per release; and calling a release closure a second
  time changes nothing.\<close>

theorem dispatch_queue_fifo:
  assumes "reachable new_dispatch_queue
      (dispatch_step rest_acquire rest_release rest_wait_timeout rest_abort rest_reset env) st \<or>
    reachable new_dispatch_queue
      (dispatch_step relay_acquire relay_release relay_wait_timeout relay_abort relay_reset env) st"
    and "distinct toks" "\<forall>tok\<in>set toks. holds_slot st tok a"
    and "length toks \<le> length (idx_get (agentQueueById st) a)"
    and "release = rest_release \<or> release = relay_release"
  shows "map (\<lambda>e. case e of Resolved w _ \<Rightarrow> Some w | Rejected _ _ \<Rightarrow> None) (fst (release_all release env toks st)) =
      map Some (take (length toks) (idx_get (agentQueueById st) a)) \<and>
    idx_get (agentQueueById (snd (release_all release env toks st))) a =
      drop (length toks) (idx_get (agentQueueById st) a) \<and>
    release env tok (snd (release env tok st)) = ([], snd (release env tok st))"
proof -
  have inv: "dq_inv env st" using assms(1) rest.reachable_inv relay.reachable_inv by blast
  show ?thesis
    using assms(5) rest.served_in_order[OF inv assms(2-4)] relay.served_in_order[OF inv assms(2-4)]
      rest.release_twice[OF inv, of tok] relay.release_twice[OF inv, of tok]
    by auto
qed

theorem dispatch_queue_fifo_witness:
  "idx_get (agentQueueById sample_queue) ''a'' = [0, 1] \<and>
   map (\<lambda>e. case e of Resolved w _ \<Rightarrow> Some w | Rejected _ _ \<Rightarrow> None)
     (fst (release_all rest_release sample_limits [0] sample_queue)) = [Some 0]"
proof -
  have q: "idx_get (agentQueueById sample_queue) ''a'' = [0, 1]" by code_simp
  have s: "jm_get (slots sample_queue) 0 = Some \<lparr>sl_agentId = ''a'', sl_generation = 0, sl_released = False\<rparr>"
    "queueGeneration sample_queue = 0" by code_simp+
  have h: "holds_slot sample_queue 0 ''a''" using s by (simp add: holds_slot_def live_agent_def)
  show ?thesis
    using dispatch_queue_fifo[of sample_limits sample_queue "[0]" "''a''" rest_release] sample_queue_reachable q h
    by simp
qed

text \<open>The health poll is skipped exactly for agents that have no room. With both limits enabled, in
  states reached by the REST and the relay queue, polling is skipped if and only if one of the
  two has handed out all its slots for the agent; reading the queue depth adds nothing,
  because a waiter implies a full queue.\<close>

theorem health_poll_skip_exact:
  assumes "reachable new_dispatch_queue
      (dispatch_step rest_acquire rest_release rest_wait_timeout rest_abort rest_reset restEnv) rst"
    and "reachable new_dispatch_queue
      (dispatch_step relay_acquire relay_release relay_wait_timeout relay_abort relay_reset relayEnv) lst"
    and "0 < maxInflight restEnv" "0 < maxInflight relayEnv"
  shows "shouldSkipAgentHealthPollDueToDispatchSaturation restEnv relayEnv a rst lst \<longleftrightarrow>
    int (card {tok. holds_slot rst tok a}) = maxInflight restEnv \<or>
    int (card {tok. holds_slot lst tok a}) = maxInflight relayEnv"
proof -
  have exact: "(inflight st a \<ge> maxInflight env \<or> 0 < length (waiting st a)) \<longleftrightarrow>
      int (card {tok. holds_slot st tok a}) = maxInflight env"
    if inv: "dq_inv env st" and pos: "0 < maxInflight env" for env st
    using attr_count_card[OF dq_invD(1)[OF inv], of "live_agent (queueGeneration st)" a] dq_invD(6)[OF inv, of a]
      dq_invD(7,8)[OF inv, of a] pos
    by (auto simp: holds_slot_def cap_of_def)
  show ?thesis
    using exact[OF rest.reachable_inv[OF assms(1)] assms(3)] exact[OF relay.reachable_inv[OF assms(2)] assms(4)]
      assms(3,4)
    by (simp add: shouldSkipAgentHealthPollDueToDispatchSaturation_def rest_getAgentInflight_def
        rest_getQueueDepth_def relay_getAgentInflight_def relay_getQueueDepth_def)
qed

theorem health_poll_skip_exact_witness:
  "shouldSkipAgentHealthPollDueToDispatchSaturation sample_limits sample_limits ''a'' sample_queue
     new_dispatch_queue \<and>
   (int (card {tok. holds_slot sample_queue tok ''a''}) = 1 \<or>
    int (card {tok. holds_slot new_dispatch_queue tok ''a''}) = 1)"
proof -
  have "shouldSkipAgentHealthPollDueToDispatchSaturation sample_limits sample_limits ''a'' sample_queue
      new_dispatch_queue" by code_simp
  then show ?thesis
    using health_poll_skip_exact[OF sample_queue_reachable reach_init, of sample_limits "''a''"]
    by (simp add: sample_limits_def)
qed

end
