(* ===== verification/Fixed_Window_Limiter.thy ===== *)
theory Fixed_Window_Limiter
  imports Prelude
begin

text \<open>
  \<^verbatim>\<open>rate_limits/fixed_window_socket_rate_limiter.ts\<close>: the fixed-window limiter shared by the socket
  channels, and \<^verbatim>\<open>rate_limits/socket_rate_limit_redis_local_first.ts\<close>, the protocol between a local
  window and the shared Redis counter.

  The clock is an argument. A cost is an integer (the source floors it). What the Redis adapter
  answered is an argument too: \<open>None\<close> when Redis is unavailable, otherwise the decision.
\<close>

record window_state =
  ws_windowStartMs :: int
  ws_count :: int
  ws_lastSeenAtMs :: int

record limiter =
  statesByKey :: "(string, window_state) jsmap"
  lm_allowed :: int
  lm_rejected :: int

record limiter_config =
  windowMs :: int
  limitMax :: int
  redisScope :: "string option"
  staleMultiplier :: int

section \<open>Operations\<close>

definition new_limiter :: limiter where
  "new_limiter = \<lparr>statesByKey = [], lm_allowed = 0, lm_rejected = 0\<rparr>"

definition staleAfterMs :: "limiter_config \<Rightarrow> int" where
  "staleAfterMs cfg = windowMs cfg * staleMultiplier cfg"

definition ensureState :: "limiter_config \<Rightarrow> int \<Rightarrow> string \<Rightarrow> limiter \<Rightarrow> window_state \<times> limiter" where
  "ensureState cfg nowMs key lim =
     (case jm_get (statesByKey lim) key of
        None \<Rightarrow>
          (let created = \<lparr>ws_windowStartMs = nowMs, ws_count = 0, ws_lastSeenAtMs = nowMs\<rparr>
           in (created, lim\<lparr>statesByKey := jm_set key created (statesByKey lim)\<rparr>))
      | Some existing \<Rightarrow>
          (let rolled = (if nowMs - ws_windowStartMs existing \<ge> windowMs cfg
                         then existing\<lparr>ws_windowStartMs := nowMs, ws_count := 0\<rparr> else existing);
               seen = rolled\<lparr>ws_lastSeenAtMs := nowMs\<rparr>
           in (seen, lim\<lparr>statesByKey := jm_set key seen (statesByKey lim)\<rparr>)))"

definition allow :: "limiter_config \<Rightarrow> int \<Rightarrow> string \<Rightarrow> int \<Rightarrow> limiter \<Rightarrow> bool \<times> limiter" where
  "allow cfg nowMs key cost lim =
     (if limitMax cfg = 0 then (True, lim)
      else let (state, lim1) = ensureState cfg nowMs key lim;
               safeCost = max 1 cost
           in if ws_count state + safeCost > limitMax cfg
              then (False, lim1\<lparr>lm_rejected := lm_rejected lim1 + 1\<rparr>)
              else (True, lim1\<lparr>statesByKey :=
                                 jm_set key (state\<lparr>ws_count := ws_count state + safeCost\<rparr>) (statesByKey lim1),
                               lm_allowed := lm_allowed lim1 + 1\<rparr>))"

definition allowAsync ::
  "limiter_config \<Rightarrow> int \<Rightarrow> string \<Rightarrow> int \<Rightarrow> bool option \<Rightarrow> limiter \<Rightarrow> bool \<times> limiter" where
  "allowAsync cfg nowMs key cost redisDecision lim =
     (if limitMax cfg = 0 then (True, lim)
      else if redisScope cfg = None then allow cfg nowMs key cost lim
      else let safeCost = max 1 cost
           in case redisDecision of
                Some True \<Rightarrow> (True, lim\<lparr>lm_allowed := lm_allowed lim + 1\<rparr>)
              | Some False \<Rightarrow> (False, lim\<lparr>lm_rejected := lm_rejected lim + 1\<rparr>)
              | None \<Rightarrow> allow cfg nowMs key safeCost lim)"

definition refund :: "string \<Rightarrow> int \<Rightarrow> limiter \<Rightarrow> limiter" where
  "refund key cost lim =
     (case jm_get (statesByKey lim) key of
        None \<Rightarrow> lim
      | Some state \<Rightarrow>
          if ws_count state \<le> 0 then lim
          else lim\<lparr>statesByKey := jm_set key
                     (state\<lparr>ws_count := max 0 (ws_count state - max 1 cost)\<rparr>) (statesByKey lim)\<rparr>)"

text \<open>The local half of \<^verbatim>\<open>refundAsync\<close>; the other half is the refund the Redis adapter receives.\<close>

definition refundAsync :: "string \<Rightarrow> int \<Rightarrow> limiter \<Rightarrow> limiter" where
  "refundAsync key cost lim = refund key (max 1 cost) lim"

definition sweep :: "limiter_config \<Rightarrow> int \<Rightarrow> limiter \<Rightarrow> limiter" where
  "sweep cfg nowMs lim =
     lim\<lparr>statesByKey :=
           filter (\<lambda>(_, state). \<not> (nowMs - ws_lastSeenAtMs state \<ge> staleAfterMs cfg)) (statesByKey lim)\<rparr>"

definition deleteKey :: "string \<Rightarrow> limiter \<Rightarrow> limiter" where
  "deleteKey key lim = lim\<lparr>statesByKey := jm_del key (statesByKey lim)\<rparr>"

definition limiter_reset :: "limiter \<Rightarrow> limiter" where
  "limiter_reset lim = lim\<lparr>statesByKey := [], lm_allowed := 0, lm_rejected := 0\<rparr>"

definition trackedKeyCount :: "limiter \<Rightarrow> int" where
  "trackedKeyCount lim = jm_size (statesByKey lim)"

section \<open>Local first, Redis in the background\<close>

text \<open>
  \<^verbatim>\<open>consumeSocketRateLimitLocalFirstAsync\<close> over any local limiter, given by its three handlers on a
  state \<open>'s\<close>. It returns the decision, the state, and the reconciliation left running in the
  background, which \<open>reconcileSocketRateLimitRedisConsume\<close> completes when Redis answers.
\<close>

record 's local_handlers =
  allowLocal :: "'s \<Rightarrow> bool \<times> 's"
  refundLocal :: "'s \<Rightarrow> 's"
  onLegacyRedisDecision :: "bool \<Rightarrow> 's \<Rightarrow> 's"

definition isLocalFirstActive :: "bool \<Rightarrow> bool \<Rightarrow> bool" where
  "isLocalFirstActive localFirstFlag redisUrlConfigured \<longleftrightarrow> localFirstFlag \<and> redisUrlConfigured"

definition consumeSocketRateLimitLocalFirstAsync ::
  "bool \<Rightarrow> bool option \<Rightarrow> 's local_handlers \<Rightarrow> 's \<Rightarrow> bool \<times> bool \<times> 's" where
  "consumeSocketRateLimitLocalFirstAsync localFirst redisDecision h s =
     (if \<not> localFirst then
        (case redisDecision of
           Some allowed \<Rightarrow> (allowed, False, onLegacyRedisDecision h allowed s)
         | None \<Rightarrow> (let (ok, s') = allowLocal h s in (ok, False, s')))
      else let (ok, s') = allowLocal h s in if \<not> ok then (False, False, s') else (True, True, s'))"

definition reconcileSocketRateLimitRedisConsume :: "bool option \<Rightarrow> 's local_handlers \<Rightarrow> 's \<Rightarrow> 's" where
  "reconcileSocketRateLimitRedisConsume redisDecision h s =
     (case redisDecision of None \<Rightarrow> s | Some allowed \<Rightarrow> if \<not> allowed then refundLocal h s else s)"

section \<open>Runs and the ledger\<close>

datatype limiter_event = EvAllow string int | EvSweep

text \<open>A run at the given times; the ledger records what was admitted: key, time and cost.\<close>

fun limiter_run ::
  "limiter_config \<Rightarrow> (int \<times> limiter_event) list \<Rightarrow> limiter \<Rightarrow> (string \<times> int \<times> int) list \<times> limiter" where
  "limiter_run cfg [] lim = ([], lim)"
| "limiter_run cfg ((t, EvSweep) # evs) lim = limiter_run cfg evs (sweep cfg t lim)"
| "limiter_run cfg ((t, EvAllow key cost) # evs) lim =
     (let (ok, lim') = allow cfg t key cost lim; (adm, lim'') = limiter_run cfg evs lim'
      in (if ok then (key, t, max 1 cost) # adm else adm, lim''))"

text \<open>The cost admitted for a key at the times that satisfy \<open>P\<close>.\<close>

definition admitted :: "string \<Rightarrow> (int \<Rightarrow> bool) \<Rightarrow> (string \<times> int \<times> int) list \<Rightarrow> int" where
  "admitted key P adm = sum_list (map (\<lambda>(k, t, c). if k = key \<and> P t then c else 0) adm)"

lemma admitted_simps [simp]:
  "admitted key P [] = 0"
  "admitted key P (adm @ [(k, t, c)]) = admitted key P adm + (if k = key \<and> P t then c else 0)"
  by (simp_all add: admitted_def)

definition ledger_wf :: "int \<Rightarrow> (string \<times> int \<times> int) list \<Rightarrow> bool" where
  "ledger_wf now adm \<longleftrightarrow> (\<forall>(k, t, c)\<in>set adm. t \<le> now \<and> 1 \<le> c)"

lemma admitted_mono:
  assumes "ledger_wf now adm" "\<And>t. t \<le> now \<Longrightarrow> P t \<Longrightarrow> Q t"
  shows "admitted key P adm \<le> admitted key Q adm"
  unfolding admitted_def
  by (rule sum_list_mono) (use assms in \<open>auto simp: ledger_wf_def\<close>)

lemma admitted_nonneg: "ledger_wf now adm \<Longrightarrow> 0 \<le> admitted key P adm"
  unfolding admitted_def by (rule sum_list_nonneg) (auto simp: ledger_wf_def)

lemma admitted_split: "admitted key P adm = admitted key (\<lambda>t. P t \<and> Q t) adm + admitted key (\<lambda>t. P t \<and> \<not> Q t) adm"
  by (induction adm) (auto simp: admitted_def)

lemma admitted_cong: "ledger_wf now adm \<Longrightarrow> (\<And>t. t \<le> now \<Longrightarrow> P t = Q t) \<Longrightarrow> admitted key P adm = admitted key Q adm"
  by (rule antisym; rule admitted_mono) auto

text \<open>
  The ledger against the state of one key at time \<open>now\<close>. With a window open since \<open>s\<close>: its count is what
  was admitted since \<open>s\<close>, nothing was admitted after its end, and what was admitted less than a window before \<open>s\<close> is at most the
  limit. Without a window: nothing was admitted at \<open>now\<close> or later, and what was admitted during the last window is at most the limit.
\<close>

definition key_ok :: "limiter_config \<Rightarrow> int \<Rightarrow> (string \<times> int \<times> int) list \<Rightarrow> limiter \<Rightarrow> string \<Rightarrow> bool" where
  "key_ok cfg now adm lim key \<longleftrightarrow>
     (case jm_get (statesByKey lim) key of
        Some st \<Rightarrow>
          ws_windowStartMs st \<le> ws_lastSeenAtMs st \<and> ws_lastSeenAtMs st \<le> now \<and>
          ws_count st = admitted key (\<lambda>t. ws_windowStartMs st \<le> t) adm \<and> ws_count st \<le> limitMax cfg \<and>
          admitted key (\<lambda>t. ws_windowStartMs st + windowMs cfg \<le> t) adm = 0 \<and>
          (\<forall>T. T > ws_windowStartMs st - windowMs cfg \<longrightarrow>
             admitted key (\<lambda>t. T \<le> t \<and> t < ws_windowStartMs st) adm \<le> limitMax cfg)
      | None \<Rightarrow> admitted key (\<lambda>t. now \<le> t) adm = 0 \<and> (\<forall>T. T > now - windowMs cfg \<longrightarrow> admitted key (\<lambda>t. T \<le> t) adm \<le> limitMax cfg))"

definition twice_ok :: "limiter_config \<Rightarrow> (string \<times> int \<times> int) list \<Rightarrow> string \<Rightarrow> bool" where
  "twice_ok cfg adm key \<longleftrightarrow>
     (\<forall>T. admitted key (\<lambda>t. T \<le> t \<and> t < T + windowMs cfg) adm \<le> 2 * limitMax cfg)"

definition run_ok :: "limiter_config \<Rightarrow> int \<Rightarrow> (string \<times> int \<times> int) list \<Rightarrow> limiter \<Rightarrow> bool" where
  "run_ok cfg now adm lim \<longleftrightarrow> jm_wf (statesByKey lim) \<and> ledger_wf now adm \<and>
     (\<forall>key. key_ok cfg now adm lim key \<and> twice_ok cfg adm key)"

definition config_ok :: "limiter_config \<Rightarrow> bool" where
  "config_ok cfg \<longleftrightarrow> 0 < windowMs cfg \<and> 0 < limitMax cfg \<and> 1 \<le> staleMultiplier cfg"

lemma stale_ge: "config_ok cfg \<Longrightarrow> windowMs cfg \<le> staleAfterMs cfg"
  by (simp add: config_ok_def staleAfterMs_def)

text \<open>Opening a window at \<open>now\<close>, from an expired window or from none: what was admitted during the last
  window is at most the limit.\<close>

lemma recent_bound:
  assumes c: "config_ok cfg" and l: "ledger_wf t0 adm" and k: "key_ok cfg t0 adm lim key" and le: "t0 \<le> now"
    and old: "\<And>st. jm_get (statesByKey lim) key = Some st \<Longrightarrow> now - ws_windowStartMs st \<ge> windowMs cfg"
    and T: "T > now - windowMs cfg"
  shows "admitted key (\<lambda>t. T \<le> t) adm \<le> limitMax cfg"
proof (cases "jm_get (statesByKey lim) key")
  case None
  then show ?thesis using k T le by (simp add: key_ok_def)
next
  case (Some st)
  have "admitted key (\<lambda>t. T \<le> t) adm \<le> admitted key (\<lambda>t. ws_windowStartMs st \<le> t) adm"
    using old[OF Some] T by (intro admitted_mono[OF l]) linarith
  then show ?thesis using k Some by (simp add: key_ok_def)
qed

lemma none_admitted:
  assumes "config_ok cfg" "ledger_wf t0 adm" "key_ok cfg t0 adm lim key" "t0 \<le> now"
    and "\<And>st. jm_get (statesByKey lim) key = Some st \<Longrightarrow> now - ws_windowStartMs st \<ge> windowMs cfg"
  shows "admitted key (\<lambda>t. now \<le> t) adm = 0"
proof -
  obtain P where P: "\<And>t. now \<le> t \<Longrightarrow> P t" "admitted key P adm = 0"
  proof (cases "jm_get (statesByKey lim) key")
    case None
    then show ?thesis using that[of "\<lambda>t. t0 \<le> t"] assms by (simp add: key_ok_def)
  next
    case (Some st)
    then show ?thesis using that[of "\<lambda>t. ws_windowStartMs st + windowMs cfg \<le> t"] assms(3) assms(5)[OF Some]
      by (simp add: key_ok_def)
  qed
  have "admitted key (\<lambda>t. now \<le> t) adm \<le> admitted key P adm" by (rule admitted_mono[OF assms(2)]) (rule P(1))
  then show ?thesis using P(2) admitted_nonneg[OF assms(2), of key "\<lambda>t. now \<le> t"] by linarith
qed

lemma key_ok_later:
  assumes "config_ok cfg" "ledger_wf t0 adm" "key_ok cfg t0 adm lim key" "t0 \<le> now"
  shows "key_ok cfg now adm lim key"
proof (cases "jm_get (statesByKey lim) key")
  case None
  then show ?thesis using assms(3,4) none_admitted[OF assms] by (simp add: key_ok_def)
next
  case (Some st)
  then show ?thesis using assms(3,4) by (simp add: key_ok_def)
qed

lemma ledger_wf_later: "ledger_wf t0 adm \<Longrightarrow> t0 \<le> now \<Longrightarrow> ledger_wf now adm"
  by (fastforce simp: ledger_wf_def)

text \<open>A sweep only drops windows that are over.\<close>

lemma run_ok_sweep:
  assumes c: "config_ok cfg" and r: "run_ok cfg t0 adm lim" and le: "t0 \<le> now"
  shows "run_ok cfg now adm (sweep cfg now lim)"
proof -
  have wf: "jm_wf (statesByKey lim)" and l: "ledger_wf t0 adm" and k: "\<And>key. key_ok cfg t0 adm lim key"
    using r by (auto simp: run_ok_def)
  have g: "jm_get (statesByKey (sweep cfg now lim)) key =
      (case jm_get (statesByKey lim) key of None \<Rightarrow> None
       | Some st \<Rightarrow> if \<not> (now - ws_lastSeenAtMs st \<ge> staleAfterMs cfg) then Some st else None)" for key
    unfolding sweep_def using jm_get_filter[OF wf, of "\<lambda>_ st. \<not> (now - ws_lastSeenAtMs st \<ge> staleAfterMs cfg)"] by simp
  have "key_ok cfg now adm (sweep cfg now lim) key" for key
  proof (cases "jm_get (statesByKey (sweep cfg now lim)) key")
    case (Some st)
    then have "jm_get (statesByKey lim) key = Some st" by (auto simp: g split: option.splits if_splits)
    then show ?thesis using key_ok_later[OF c l k le, of key] Some by (simp add: key_ok_def)
  next
    case None
    have "now - ws_windowStartMs st \<ge> windowMs cfg" if st: "jm_get (statesByKey lim) key = Some st" for st
    proof -
      have "now - ws_lastSeenAtMs st \<ge> staleAfterMs cfg" using None st by (simp add: g split: if_splits)
      moreover have "ws_windowStartMs st \<le> ws_lastSeenAtMs st" using k[of key] st by (simp add: key_ok_def)
      ultimately show ?thesis using stale_ge[OF c] by linarith
    qed
    then show ?thesis using None recent_bound[OF c l k le] none_admitted[OF c l k le] by (simp add: key_ok_def)
  qed
  then show ?thesis
    using r wf ledger_wf_later[OF l le] by (simp add: run_ok_def sweep_def)
qed


text \<open>After \<open>ensureState\<close> the key has an open window that is not over.\<close>

lemma ensureState_get:
  "jm_get (statesByKey (snd (ensureState cfg now key lim))) key = Some (fst (ensureState cfg now key lim))"
  "key' \<noteq> key \<Longrightarrow> jm_get (statesByKey (snd (ensureState cfg now key lim))) key' = jm_get (statesByKey lim) key'"
  "jm_wf (statesByKey lim) \<Longrightarrow> jm_wf (statesByKey (snd (ensureState cfg now key lim)))"
  by (auto simp: ensureState_def Let_def split: option.splits)

lemma ensureState_cases [consumes 1]:
  assumes "st = fst (ensureState cfg now key lim)"
  obtains (Opened) "ws_windowStartMs st = now" "ws_lastSeenAtMs st = now" "ws_count st = 0"
      "\<And>old. jm_get (statesByKey lim) key = Some old \<Longrightarrow> now - ws_windowStartMs old \<ge> windowMs cfg"
  | (Kept) old where "jm_get (statesByKey lim) key = Some old" "now - ws_windowStartMs old < windowMs cfg"
      "ws_windowStartMs st = ws_windowStartMs old" "ws_lastSeenAtMs st = now" "ws_count st = ws_count old"
  using assms by (fastforce simp: ensureState_def Let_def split: option.splits if_splits)

lemma ensureState_fresh:
  assumes "config_ok cfg"
  shows "now - ws_windowStartMs (fst (ensureState cfg now key lim)) < windowMs cfg"
  using assms by (cases rule: ensureState_cases[of _ cfg now key lim, OF refl]) (auto simp: config_ok_def)

lemma run_ok_ensure:
  assumes c: "config_ok cfg" and r: "run_ok cfg t0 adm lim" and le: "t0 \<le> now"
  shows "run_ok cfg now adm (snd (ensureState cfg now key lim))"
proof -
  have l: "ledger_wf t0 adm" and k: "\<And>x. key_ok cfg t0 adm lim x" and tw: "\<And>x. twice_ok cfg adm x"
    and wf: "jm_wf (statesByKey lim)"
    using r by (auto simp: run_ok_def)
  define st where "st = fst (ensureState cfg now key lim)"
  have get: "jm_get (statesByKey (snd (ensureState cfg now key lim))) key = Some st"
    by (simp add: ensureState_get st_def)
  have "key_ok cfg now adm (snd (ensureState cfg now key lim)) key"
    using st_def
  proof (cases rule: ensureState_cases)
    case Opened
    have "admitted key (\<lambda>t. T \<le> t \<and> t < now) adm \<le> limitMax cfg" if "T > now - windowMs cfg" for T
      using admitted_mono[OF l, of "\<lambda>t. T \<le> t \<and> t < now" "\<lambda>t. T \<le> t" key]
        recent_bound[OF c l k[of key] le Opened(4) that] by linarith
    moreover have "admitted key (\<lambda>t. now + windowMs cfg \<le> t) adm = 0"
    proof -
      have "admitted key (\<lambda>t. now + windowMs cfg \<le> t) adm \<le> admitted key (\<lambda>t. now \<le> t) adm"
        using c by (intro admitted_mono[OF l]) (simp add: config_ok_def)
      then show ?thesis
        using none_admitted[OF c l k[of key] le Opened(4)] admitted_nonneg[OF l, of key "\<lambda>t. now + windowMs cfg \<le> t"]
        by linarith
    qed
    ultimately show ?thesis
      using get Opened c none_admitted[OF c l k[of key] le Opened(4)] by (simp add: key_ok_def config_ok_def)
  next
    case (Kept old)
    then show ?thesis using key_ok_later[OF c l k[of key] le] get by (simp add: key_ok_def)
  qed
  moreover have "key_ok cfg now adm (snd (ensureState cfg now key lim)) x" if "x \<noteq> key" for x
    using key_ok_later[OF c l k[of x] le] that by (simp add: key_ok_def ensureState_get)
  ultimately show ?thesis
    using tw wf ledger_wf_later[OF l le] by (metis ensureState_get(3) run_ok_def)
qed

text \<open>Admitting a cost that fits the open window.\<close>

lemma run_ok_admit:
  assumes c: "config_ok cfg" and r: "run_ok cfg now adm lim" and st: "jm_get (statesByKey lim) key = Some st"
    and fresh: "now - ws_windowStartMs st < windowMs cfg"
    and cost: "1 \<le> cost" "ws_count st + cost \<le> limitMax cfg"
    and lim': "statesByKey lim' = jm_set key (st\<lparr>ws_count := ws_count st + cost\<rparr>) (statesByKey lim)"
  shows "run_ok cfg now (adm @ [(key, now, cost)]) lim'"
proof -
  have l: "ledger_wf now adm" and k: "\<And>x. key_ok cfg now adm lim x" and tw: "\<And>x. twice_ok cfg adm x"
    and wf: "jm_wf (statesByKey lim)"
    using r by (auto simp: run_ok_def)
  have ks: "ws_windowStartMs st \<le> now" "ws_count st = admitted key (\<lambda>t. ws_windowStartMs st \<le> t) adm"
      "\<And>T. T > ws_windowStartMs st - windowMs cfg \<Longrightarrow>
             admitted key (\<lambda>t. T \<le> t \<and> t < ws_windowStartMs st) adm \<le> limitMax cfg"
    using k[of key] st by (auto simp: key_ok_def)
  have "key_ok cfg now (adm @ [(key, now, cost)]) lim' x" for x
    using k[of x] st cost ks(1) fresh by (cases "x = key") (auto simp: key_ok_def lim' split: option.splits)
  moreover have "twice_ok cfg (adm @ [(key, now, cost)]) key"
  proof -
    have "admitted key (\<lambda>t. T \<le> t \<and> t < T + windowMs cfg) adm + cost \<le> 2 * limitMax cfg"
      if T: "T \<le> now" "now < T + windowMs cfg" for T
    proof -
      have "admitted key (\<lambda>t. T \<le> t \<and> t < T + windowMs cfg) adm = admitted key (\<lambda>t. T \<le> t) adm"
        using T by (intro admitted_cong[OF l]) linarith
      also have "\<dots> = admitted key (\<lambda>t. T \<le> t \<and> t < ws_windowStartMs st) adm
                    + admitted key (\<lambda>t. T \<le> t \<and> \<not> t < ws_windowStartMs st) adm"
        by (rule admitted_split)
      also have "admitted key (\<lambda>t. T \<le> t \<and> \<not> t < ws_windowStartMs st) adm
                 \<le> admitted key (\<lambda>t. ws_windowStartMs st \<le> t) adm"
        by (intro admitted_mono[OF l]) simp
      finally show ?thesis using ks(2) ks(3)[of T] ks(1) T cost by linarith
    qed
    then show ?thesis using tw[of key] by (simp add: twice_ok_def)
  qed
  moreover have "twice_ok cfg (adm @ [(key, now, cost)]) x" if "x \<noteq> key" for x
    using tw[of x] that by (simp add: twice_ok_def)
  moreover have "ledger_wf now (adm @ [(key, now, cost)])" using l cost by (auto simp: ledger_wf_def)
  ultimately show ?thesis using wf by (metis jm_wf_set lim' run_ok_def)
qed


lemma allow_unfold:
  assumes "limitMax cfg \<noteq> 0" "st = fst (ensureState cfg now key lim)" "lim1 = snd (ensureState cfg now key lim)"
  shows "allow cfg now key cost lim =
     (if ws_count st + max 1 cost > limitMax cfg then (False, lim1\<lparr>lm_rejected := lm_rejected lim1 + 1\<rparr>)
      else (True, lim1\<lparr>statesByKey := jm_set key (st\<lparr>ws_count := ws_count st + max 1 cost\<rparr>) (statesByKey lim1),
                      lm_allowed := lm_allowed lim1 + 1\<rparr>))"
  using assms by (simp add: allow_def Let_def case_prod_beta)

lemma run_ok_cong: "statesByKey lim' = statesByKey lim \<Longrightarrow> run_ok cfg now adm lim' = run_ok cfg now adm lim"
  by (simp add: run_ok_def key_ok_def)

lemma run_ok_allow:
  assumes c: "config_ok cfg" and r: "run_ok cfg t0 adm lim" and le: "t0 \<le> now"
    and a: "allow cfg now key cost lim = (ok, lim')"
  shows "run_ok cfg now (if ok then adm @ [(key, now, max 1 cost)] else adm) lim'"
proof -
  define st lim1 where "st = fst (ensureState cfg now key lim)" and "lim1 = snd (ensureState cfg now key lim)"
  have max0: "limitMax cfg \<noteq> 0" using c by (simp add: config_ok_def)
  note unf = allow_unfold[OF max0 st_def lim1_def, of cost, unfolded a]
  have r1: "run_ok cfg now adm lim1" unfolding lim1_def by (rule run_ok_ensure[OF c r le])
  show ?thesis
  proof (cases ok)
    case True
    then have fits: "ws_count st + max 1 cost \<le> limitMax cfg"
      and l': "statesByKey lim' = jm_set key (st\<lparr>ws_count := ws_count st + max 1 cost\<rparr>) (statesByKey lim1)"
      using unf by (auto split: if_splits)
    have get: "jm_get (statesByKey lim1) key = Some st" by (simp add: ensureState_get st_def lim1_def)
    have fresh: "now - ws_windowStartMs st < windowMs cfg" unfolding st_def by (rule ensureState_fresh[OF c])
    have "run_ok cfg now (adm @ [(key, now, max 1 cost)]) lim'"
      by (rule run_ok_admit[OF c r1 get fresh _ fits l']) simp
    then show ?thesis using True by simp
  next
    case False
    then have "statesByKey lim' = statesByKey lim1" using unf by (auto split: if_splits)
    then have "run_ok cfg now adm lim'" using r1 run_ok_cong by blast
    then show ?thesis using False by simp
  qed
qed

lemma run_ok_init: "config_ok cfg \<Longrightarrow> run_ok cfg now [] new_limiter"
  by (simp add: run_ok_def key_ok_def twice_ok_def ledger_wf_def new_limiter_def config_ok_def)

lemma run_ok_run:
  assumes "config_ok cfg" "run_ok cfg t0 adm0 lim" "sorted (t0 # map fst evs)" "limiter_run cfg evs lim = (adm, lim')"
  shows "run_ok cfg (last (t0 # map fst evs)) (adm0 @ adm) lim'"
  using assms
proof (induction cfg evs lim arbitrary: t0 adm0 adm lim' rule: limiter_run.induct)
  case (1 cfg lim)
  then show ?case by auto
next
  case (2 cfg t evs lim)
  have "t0 \<le> t" "sorted (t # map fst evs)" using 2(4) by auto
  then show ?case using 2(1)[OF 2(2) run_ok_sweep[OF 2(2) 2(3)]] 2(5) by simp
next
  case (3 cfg t key cost evs lim)
  obtain ok lim1 where al: "allow cfg t key cost lim = (ok, lim1)" by (cases "allow cfg t key cost lim")
  obtain adm1 lim2 where rn: "limiter_run cfg evs lim1 = (adm1, lim2)" by (cases "limiter_run cfg evs lim1")
  have le: "t0 \<le> t" "sorted (t # map fst evs)" using 3(4) by auto
  have "run_ok cfg (last (t # map fst evs)) ((if ok then adm0 @ [(key, t, max 1 cost)] else adm0) @ adm1) lim2"
    by (rule 3(1)[OF al[symmetric] refl 3(2) run_ok_allow[OF 3(2) 3(3) le(1) al] le(2) rn])
  then show ?case using 3(5) al rn by (auto split: if_splits)
qed

text \<open>C29: Running any sequence of requests and sweeps at non-decreasing times over a fresh limiter, for every
  key: the cost admitted in any interval of one window length is at most twice the limit; the open window of
  the key has admitted exactly its counter, which is at most the limit; and a key without a window
  (never seen, or swept) has admitted at most the limit during the last window, so a sweep never
  hands out budget early.\<close>

theorem fixed_window_admission_bound:
  assumes "0 < windowMs cfg" "0 < limitMax cfg" "1 \<le> staleMultiplier cfg"
    and "sorted (map fst evs)" "evs \<noteq> []" and "limiter_run cfg evs new_limiter = (adm, lim)"
  shows "admitted key (\<lambda>t. T \<le> t \<and> t < T + windowMs cfg) adm \<le> 2 * limitMax cfg \<and>
    (case jm_get (statesByKey lim) key of
       Some st \<Rightarrow> ws_count st = admitted key (\<lambda>t. ws_windowStartMs st \<le> t) adm \<and> ws_count st \<le> limitMax cfg
     | None \<Rightarrow> admitted key (\<lambda>t. fst (last evs) - windowMs cfg < t) adm \<le> limitMax cfg)"
proof -
  have c: "config_ok cfg" using assms by (simp add: config_ok_def)
  have "sorted (fst (hd evs) # map fst evs)" using assms(4,5) by (cases evs) auto
  from run_ok_run[OF c run_ok_init[OF c] this assms(6)]
  have r: "run_ok cfg (fst (last evs)) adm lim" using assms(5) by (simp add: last_map)
  then have k: "key_ok cfg (fst (last evs)) adm lim key" and "twice_ok cfg adm key" by (auto simp: run_ok_def)
  moreover have "admitted key (\<lambda>t. fst (last evs) - windowMs cfg < t) adm \<le> limitMax cfg"
    if "jm_get (statesByKey lim) key = None"
  proof -
    have "(\<lambda>t. fst (last evs) - windowMs cfg < t) = (\<lambda>t. fst (last evs) - windowMs cfg + 1 \<le> t)" by auto
    moreover have "admitted key (\<lambda>t. fst (last evs) - windowMs cfg + 1 \<le> t) adm \<le> limitMax cfg"
      using k that by (simp add: key_ok_def)
    ultimately show ?thesis by (simp only:)
  qed
  ultimately show ?thesis by (auto simp: key_ok_def twice_ok_def split: option.splits)
qed

theorem fixed_window_admission_bound_witness:
  "admitted ''a'' (\<lambda>t. 3 \<le> t \<and> t < 3 + 10)
     (fst (limiter_run \<lparr>windowMs = 10, limitMax = 2, redisScope = None, staleMultiplier = 1\<rparr>
        [(0, EvAllow ''a'' 1), (9, EvAllow ''a'' 1), (9, EvAllow ''a'' 1), (10, EvAllow ''a'' 2), (25, EvSweep)]
        new_limiter)) \<le> 4"
  using fixed_window_admission_bound[of "\<lparr>windowMs = 10, limitMax = 2, redisScope = None, staleMultiplier = 1\<rparr>"
      "[(0, EvAllow ''a'' 1), (9, EvAllow ''a'' 1), (9, EvAllow ''a'' 1), (10, EvAllow ''a'' 2), (25, EvSweep)]"
      _ _ "''a''" 3, OF _ _ _ _ _ prod.collapse[symmetric]]
  by simp

end
