(* ===== verification/Relay_Rate_Limiter.thy ===== *)
theory Relay_Rate_Limiter
  imports Fixed_Window_Limiter
begin

text \<open>
  \<^verbatim>\<open>rate_limits/consumer_relay_rate_limiter.ts\<close>: the budgets of a consumer on the relay channel.
  One window per identity (the user of the token, or the socket when there is none) counts
  conversation starts, requests, and the stream pull credits of the relay and of the agents channel.

  The clock is an argument, the limits of \<^verbatim>\<open>env\<close> are a record, and what the Redis adapter answered is
  an argument of the asynchronous operations (\<open>None\<close>: Redis unavailable). The refunds the adapter is
  asked for are returned as values. Costs and credits are integers (the source floors them).
\<close>

record consumer_window =
  cw_windowStartMs :: int
  conversationStarts :: int
  relayRequests :: int
  streamPullCreditsGranted :: int
  agentsStreamPullCreditsGranted :: int
  cw_lastSeenAtMs :: int

record relay_rl_metrics =
  conversationStartAllowedUser :: int
  conversationStartRejectedUser :: int
  conversationStartAllowedAnon :: int
  conversationStartRejectedAnon :: int
  relayRequestAllowedUser :: int
  relayRequestRejectedUser :: int
  relayRequestAllowedAnon :: int
  relayRequestRejectedAnon :: int
  streamPullCreditsGrantedUser :: int
  streamPullCreditsRejectedUser :: int
  streamPullCreditsGrantedAnon :: int
  streamPullCreditsRejectedAnon :: int
  agentsStreamPullCreditsGrantedUser :: int
  agentsStreamPullCreditsRejectedUser :: int
  agentsStreamPullCreditsGrantedAnon :: int
  agentsStreamPullCreditsRejectedAnon :: int

record relay_limiter =
  statesByIdentityKey :: "(string, consumer_window) jsmap"
  relayRateLimitMetrics :: relay_rl_metrics

record relay_rl_env =
  socketRelayRateLimitWindowMs :: int
  socketRelayRateLimitMaxConversationStarts :: int
  socketRelayRateLimitMaxRequests :: int
  socketRelayRateLimitMaxStreamPullCredits :: int
  socketAgentsStreamPullRateLimitMaxCredits :: int
  socketRelayRateLimitSweepStaleMultiplier :: int

datatype identity_scope = ScopeUser | ScopeAnon

record stream_pull_allowance =
  sp_allowed :: bool
  sp_scope :: identity_scope
  sp_limit :: int
  requestedCredits :: int
  grantedCredits :: int
  remainingCredits :: int

record redis_decision =
  rd_allowed :: bool
  rd_remaining :: int

text \<open>A refund the Redis adapter is asked for: its scope, the key and the cost when one is given.\<close>

type_synonym redis_refund = "string \<times> string \<times> int option"

section \<open>Identity, window and counters\<close>

definition zero_metrics :: relay_rl_metrics where
  "zero_metrics = \<lparr>
     conversationStartAllowedUser = 0,
     conversationStartRejectedUser = 0,
     conversationStartAllowedAnon = 0,
     conversationStartRejectedAnon = 0,
     relayRequestAllowedUser = 0,
     relayRequestRejectedUser = 0,
     relayRequestAllowedAnon = 0,
     relayRequestRejectedAnon = 0,
     streamPullCreditsGrantedUser = 0,
     streamPullCreditsRejectedUser = 0,
     streamPullCreditsGrantedAnon = 0,
     streamPullCreditsRejectedAnon = 0,
     agentsStreamPullCreditsGrantedUser = 0,
     agentsStreamPullCreditsRejectedUser = 0,
     agentsStreamPullCreditsGrantedAnon = 0,
     agentsStreamPullCreditsRejectedAnon = 0\<rparr>"

definition new_relay_limiter :: relay_limiter where
  "new_relay_limiter = \<lparr>statesByIdentityKey = [], relayRateLimitMetrics = zero_metrics\<rparr>"

definition buildIdentityKey :: "string option \<Rightarrow> string \<Rightarrow> string \<times> identity_scope" where
  "buildIdentityKey userSub socketId =
     (case map_option js_trim userSub of
        Some trimmed \<Rightarrow>
          if trimmed \<noteq> [] then (''relay:user:'' @ trimmed, ScopeUser) else (''relay:anon:'' @ socketId, ScopeAnon)
      | None \<Rightarrow> (''relay:anon:'' @ socketId, ScopeAnon))"

definition put_window :: "string \<Rightarrow> consumer_window \<Rightarrow> relay_limiter \<Rightarrow> relay_limiter" where
  "put_window key w l = l\<lparr>statesByIdentityKey := jm_set key w (statesByIdentityKey l)\<rparr>"

definition ensureWindowState :: "relay_rl_env \<Rightarrow> int \<Rightarrow> string \<Rightarrow> relay_limiter \<Rightarrow> consumer_window \<times> relay_limiter" where
  "ensureWindowState env nowMs identityKey l =
     (case jm_get (statesByIdentityKey l) identityKey of
        None \<Rightarrow>
          (let created = \<lparr>cw_windowStartMs = nowMs, conversationStarts = 0, relayRequests = 0,
                          streamPullCreditsGranted = 0, agentsStreamPullCreditsGranted = 0, cw_lastSeenAtMs = nowMs\<rparr>
           in (created, put_window identityKey created l))
      | Some existing \<Rightarrow>
          (let rolled = (if nowMs - cw_windowStartMs existing \<ge> socketRelayRateLimitWindowMs env
                         then existing\<lparr>cw_windowStartMs := nowMs, conversationStarts := 0, relayRequests := 0,
                                streamPullCreditsGranted := 0, agentsStreamPullCreditsGranted := 0\<rparr>
                         else existing);
               seen = rolled\<lparr>cw_lastSeenAtMs := nowMs\<rparr>
           in (seen, put_window identityKey seen l)))"

definition noteConversationStartDecision ::
  "identity_scope \<Rightarrow> bool \<Rightarrow> relay_limiter \<Rightarrow> relay_limiter" where
  "noteConversationStartDecision scope allowed l =
     (let m = relayRateLimitMetrics l
      in l\<lparr>relayRateLimitMetrics :=
         (if scope = ScopeUser
          then if allowed then m\<lparr>conversationStartAllowedUser := conversationStartAllowedUser m + 1\<rparr>
               else m\<lparr>conversationStartRejectedUser := conversationStartRejectedUser m + 1\<rparr>
          else if allowed then m\<lparr>conversationStartAllowedAnon := conversationStartAllowedAnon m + 1\<rparr>
               else m\<lparr>conversationStartRejectedAnon := conversationStartRejectedAnon m + 1\<rparr>)\<rparr>)"

definition noteRelayRequestDecision ::
  "identity_scope \<Rightarrow> bool \<Rightarrow> relay_limiter \<Rightarrow> relay_limiter" where
  "noteRelayRequestDecision scope allowed l =
     (let m = relayRateLimitMetrics l
      in l\<lparr>relayRateLimitMetrics :=
         (if scope = ScopeUser
          then if allowed then m\<lparr>relayRequestAllowedUser := relayRequestAllowedUser m + 1\<rparr>
               else m\<lparr>relayRequestRejectedUser := relayRequestRejectedUser m + 1\<rparr>
          else if allowed then m\<lparr>relayRequestAllowedAnon := relayRequestAllowedAnon m + 1\<rparr>
               else m\<lparr>relayRequestRejectedAnon := relayRequestRejectedAnon m + 1\<rparr>)\<rparr>)"

definition noteRelayStreamPullCredits ::
  "identity_scope \<Rightarrow> bool \<Rightarrow> int \<Rightarrow> relay_limiter \<Rightarrow> relay_limiter" where
  "noteRelayStreamPullCredits scope allowed credits l =
     (let m = relayRateLimitMetrics l
      in l\<lparr>relayRateLimitMetrics :=
         (if scope = ScopeUser
          then if allowed then m\<lparr>streamPullCreditsGrantedUser := streamPullCreditsGrantedUser m + credits\<rparr>
               else m\<lparr>streamPullCreditsRejectedUser := streamPullCreditsRejectedUser m + credits\<rparr>
          else if allowed then m\<lparr>streamPullCreditsGrantedAnon := streamPullCreditsGrantedAnon m + credits\<rparr>
               else m\<lparr>streamPullCreditsRejectedAnon := streamPullCreditsRejectedAnon m + credits\<rparr>)\<rparr>)"

definition noteAgentsStreamPullCredits ::
  "identity_scope \<Rightarrow> bool \<Rightarrow> int \<Rightarrow> relay_limiter \<Rightarrow> relay_limiter" where
  "noteAgentsStreamPullCredits scope allowed credits l =
     (let m = relayRateLimitMetrics l
      in l\<lparr>relayRateLimitMetrics :=
         (if scope = ScopeUser
          then if allowed then m\<lparr>agentsStreamPullCreditsGrantedUser := agentsStreamPullCreditsGrantedUser m + credits\<rparr>
               else m\<lparr>agentsStreamPullCreditsRejectedUser := agentsStreamPullCreditsRejectedUser m + credits\<rparr>
          else if allowed then m\<lparr>agentsStreamPullCreditsGrantedAnon := agentsStreamPullCreditsGrantedAnon m + credits\<rparr>
               else m\<lparr>agentsStreamPullCreditsRejectedAnon := agentsStreamPullCreditsRejectedAnon m + credits\<rparr>)\<rparr>)"

section \<open>Conversation starts\<close>

definition allowRelayConversationStart ::
  "relay_rl_env \<Rightarrow> int \<Rightarrow> string option \<Rightarrow> string \<Rightarrow> relay_limiter \<Rightarrow> bool \<times> relay_limiter" where
  "allowRelayConversationStart env nowMs userSub socketId l =
     (if socketRelayRateLimitMaxConversationStarts env = 0 then (True, l)
      else let (key, scope) = buildIdentityKey userSub socketId;
               (state, l1) = ensureWindowState env nowMs key l
           in if conversationStarts state \<ge> socketRelayRateLimitMaxConversationStarts env
              then (False, noteConversationStartDecision scope False l1)
              else (True, noteConversationStartDecision scope True
                      (put_window key (state\<lparr>conversationStarts := conversationStarts state + 1\<rparr>) l1)))"

definition allowRelayConversationStartAsync ::
  "relay_rl_env \<Rightarrow> int \<Rightarrow> string option \<Rightarrow> string \<Rightarrow> redis_decision option \<Rightarrow> relay_limiter \<Rightarrow> bool \<times> relay_limiter" where
  "allowRelayConversationStartAsync env nowMs userSub socketId redisDecision l =
     (if socketRelayRateLimitMaxConversationStarts env = 0 then (True, l)
      else let (key, scope) = buildIdentityKey userSub socketId
           in case redisDecision of
                Some d \<Rightarrow> (rd_allowed d, noteConversationStartDecision scope (rd_allowed d) l)
              | None \<Rightarrow> allowRelayConversationStart env nowMs userSub socketId l)"

definition refundRelayConversationStart :: "string option \<Rightarrow> string \<Rightarrow> relay_limiter \<Rightarrow> relay_limiter" where
  "refundRelayConversationStart userSub socketId l =
     (let (key, _) = buildIdentityKey userSub socketId
      in case jm_get (statesByIdentityKey l) key of
           None \<Rightarrow> l
         | Some state \<Rightarrow>
             if conversationStarts state \<le> 0 then l
             else put_window key (state\<lparr>conversationStarts := conversationStarts state - 1\<rparr>) l)"

definition refundRelayConversationStartAsync ::
  "string option \<Rightarrow> string \<Rightarrow> relay_limiter \<Rightarrow> redis_refund \<times> relay_limiter" where
  "refundRelayConversationStartAsync userSub socketId l =
     ((''relay_conversation_start'', fst (buildIdentityKey userSub socketId), None),
      refundRelayConversationStart userSub socketId l)"

section \<open>Requests\<close>

definition allowRelayRpcRequest ::
  "relay_rl_env \<Rightarrow> int \<Rightarrow> string option \<Rightarrow> string \<Rightarrow> int \<Rightarrow> relay_limiter \<Rightarrow> bool \<times> relay_limiter" where
  "allowRelayRpcRequest env nowMs userSub socketId cost l =
     (if socketRelayRateLimitMaxRequests env = 0 then (True, l)
      else let safeCost = max 1 cost;
               (key, scope) = buildIdentityKey userSub socketId;
               (state, l1) = ensureWindowState env nowMs key l
           in if relayRequests state + safeCost > socketRelayRateLimitMaxRequests env
              then (False, noteRelayRequestDecision scope False l1)
              else (True, noteRelayRequestDecision scope True
                      (put_window key (state\<lparr>relayRequests := relayRequests state + safeCost\<rparr>) l1)))"

definition refundRelayRpcRequest :: "string option \<Rightarrow> string \<Rightarrow> int \<Rightarrow> relay_limiter \<Rightarrow> relay_limiter" where
  "refundRelayRpcRequest userSub socketId count l =
     (let refund = max 0 count
      in if refund = 0 then l
         else let (key, _) = buildIdentityKey userSub socketId
              in case jm_get (statesByIdentityKey l) key of
                   None \<Rightarrow> l
                 | Some state \<Rightarrow>
                     if relayRequests state \<le> 0 then l
                     else put_window key (state\<lparr>relayRequests := max 0 (relayRequests state - refund)\<rparr>) l)"

definition relay_rpc_handlers ::
  "relay_rl_env \<Rightarrow> int \<Rightarrow> string option \<Rightarrow> string \<Rightarrow> int \<Rightarrow> relay_limiter local_handlers" where
  "relay_rpc_handlers env nowMs userSub socketId safeCost =
     \<lparr>allowLocal = allowRelayRpcRequest env nowMs userSub socketId safeCost,
      refundLocal = refundRelayRpcRequest userSub socketId safeCost,
      onLegacyRedisDecision = (\<lambda>allowed. noteRelayRequestDecision (snd (buildIdentityKey userSub socketId)) allowed)\<rparr>"

text \<open>The result carries, besides the decision, whether a reconciliation with Redis is left running.\<close>

definition allowRelayRpcRequestAsync ::
  "relay_rl_env \<Rightarrow> bool \<Rightarrow> int \<Rightarrow> string option \<Rightarrow> string \<Rightarrow> int \<Rightarrow> bool option \<Rightarrow> relay_limiter
     \<Rightarrow> bool \<times> bool \<times> relay_limiter" where
  "allowRelayRpcRequestAsync env localFirst nowMs userSub socketId cost redisDecision l =
     (if socketRelayRateLimitMaxRequests env = 0 then (True, False, l)
      else consumeSocketRateLimitLocalFirstAsync localFirst redisDecision
             (relay_rpc_handlers env nowMs userSub socketId (max 1 cost)) l)"

definition refundRelayRpcRequestAsync ::
  "string option \<Rightarrow> string \<Rightarrow> int \<Rightarrow> relay_limiter \<Rightarrow> redis_refund option \<times> relay_limiter" where
  "refundRelayRpcRequestAsync userSub socketId count l =
     (let refund = max 0 count
      in if refund = 0 then (None, l)
         else (Some (''relay_rpc_request'', fst (buildIdentityKey userSub socketId), Some refund),
               refundRelayRpcRequest userSub socketId refund l))"

section \<open>Stream pull credits\<close>

datatype metric_kind = KindRelay | KindAgents

definition credits_used :: "metric_kind \<Rightarrow> consumer_window \<Rightarrow> int" where
  "credits_used memoryField w =
     (case memoryField of KindRelay \<Rightarrow> streamPullCreditsGranted w | KindAgents \<Rightarrow> agentsStreamPullCreditsGranted w)"

definition set_credits_used :: "metric_kind \<Rightarrow> int \<Rightarrow> consumer_window \<Rightarrow> consumer_window" where
  "set_credits_used memoryField n w =
     (case memoryField of KindRelay \<Rightarrow> w\<lparr>streamPullCreditsGranted := n\<rparr>
      | KindAgents \<Rightarrow> w\<lparr>agentsStreamPullCreditsGranted := n\<rparr>)"

definition note_credits :: "metric_kind \<Rightarrow> identity_scope \<Rightarrow> bool \<Rightarrow> int \<Rightarrow> relay_limiter \<Rightarrow> relay_limiter" where
  "note_credits metricKind scope allowed credits l =
     (if metricKind = KindRelay then noteRelayStreamPullCredits scope allowed credits l
      else noteAgentsStreamPullCredits scope allowed credits l)"

definition allowCreditWindow ::
  "relay_rl_env \<Rightarrow> int \<Rightarrow> string option \<Rightarrow> string \<Rightarrow> int \<Rightarrow> int \<Rightarrow> metric_kind \<Rightarrow> relay_limiter
     \<Rightarrow> stream_pull_allowance \<times> relay_limiter" where
  "allowCreditWindow env nowMs userSub socketId creditsRequested limit kind l =
     (let (key, scope) = buildIdentityKey userSub socketId; safe = max 0 creditsRequested
      in if limit = 0 then
           (\<lparr>sp_allowed = True, sp_scope = scope, sp_limit = 0, requestedCredits = safe, grantedCredits = safe,
             remainingCredits = MAX_SAFE_INTEGER\<rparr>,
            if safe > 0 then note_credits kind scope True safe l else l)
         else let (state, l1) = ensureWindowState env nowMs key l;
                  used = credits_used kind state;
                  remainingBefore = max 0 (limit - used)
              in if used + safe > limit then
                   (\<lparr>sp_allowed = False, sp_scope = scope, sp_limit = limit, requestedCredits = safe,
                     grantedCredits = 0, remainingCredits = remainingBefore\<rparr>,
                    note_credits kind scope False safe l1)
                 else
                   (\<lparr>sp_allowed = True, sp_scope = scope, sp_limit = limit, requestedCredits = safe,
                     grantedCredits = safe, remainingCredits = max 0 (limit - (used + safe))\<rparr>,
                    note_credits kind scope True safe (put_window key (set_credits_used kind (used + safe) state) l1)))"

definition allowRelayStreamPull ::
  "relay_rl_env \<Rightarrow> int \<Rightarrow> string option \<Rightarrow> string \<Rightarrow> int \<Rightarrow> relay_limiter \<Rightarrow> stream_pull_allowance \<times> relay_limiter" where
  "allowRelayStreamPull env nowMs userSub socketId creditsRequested l =
     allowCreditWindow env nowMs userSub socketId creditsRequested
       (socketRelayRateLimitMaxStreamPullCredits env) KindRelay l"

definition allowRelayStreamPullAsync ::
  "relay_rl_env \<Rightarrow> int \<Rightarrow> string option \<Rightarrow> string \<Rightarrow> int \<Rightarrow> redis_decision option \<Rightarrow> relay_limiter
     \<Rightarrow> stream_pull_allowance \<times> relay_limiter" where
  "allowRelayStreamPullAsync env nowMs userSub socketId creditsRequested redisDecision l =
     (let limit = socketRelayRateLimitMaxStreamPullCredits env; safe = max 0 creditsRequested;
          (_, scope) = buildIdentityKey userSub socketId
      in case (if limit > 0 then redisDecision else None) of
           Some d \<Rightarrow>
             (\<lparr>sp_allowed = rd_allowed d, sp_scope = scope, sp_limit = limit, requestedCredits = safe,
               grantedCredits = (if rd_allowed d then safe else 0), remainingCredits = rd_remaining d\<rparr>,
              noteRelayStreamPullCredits scope (rd_allowed d) safe l)
         | None \<Rightarrow> allowRelayStreamPull env nowMs userSub socketId creditsRequested l)"

definition refundRelayStreamPullCredits :: "string option \<Rightarrow> string \<Rightarrow> int \<Rightarrow> relay_limiter \<Rightarrow> relay_limiter" where
  "refundRelayStreamPullCredits userSub socketId creditsToRefund l =
     (let (key, _) = buildIdentityKey userSub socketId
      in case jm_get (statesByIdentityKey l) key of
           None \<Rightarrow> l
         | Some state \<Rightarrow> put_window key (state\<lparr>streamPullCreditsGranted :=
             max 0 (streamPullCreditsGranted state - max 0 creditsToRefund)\<rparr>) l)"

definition refundRelayStreamPullCreditsAsync ::
  "string option \<Rightarrow> string \<Rightarrow> int \<Rightarrow> relay_limiter \<Rightarrow> redis_refund \<times> relay_limiter" where
  "refundRelayStreamPullCreditsAsync userSub socketId creditsToRefund l =
     ((''relay_stream_pull_credits'', fst (buildIdentityKey userSub socketId), Some creditsToRefund),
      refundRelayStreamPullCredits userSub socketId creditsToRefund l)"

definition allowAgentsStreamPullCredits ::
  "relay_rl_env \<Rightarrow> int \<Rightarrow> string option \<Rightarrow> string \<Rightarrow> int \<Rightarrow> redis_decision option \<Rightarrow> relay_limiter
     \<Rightarrow> stream_pull_allowance \<times> relay_limiter" where
  "allowAgentsStreamPullCredits env nowMs userSub socketId creditsRequested redisDecision l =
     (let limit = socketAgentsStreamPullRateLimitMaxCredits env; safe = max 0 creditsRequested;
          (_, scope) = buildIdentityKey userSub socketId
      in case (if limit > 0 then redisDecision else None) of
           Some d \<Rightarrow>
             (\<lparr>sp_allowed = rd_allowed d, sp_scope = scope, sp_limit = limit, requestedCredits = safe,
               grantedCredits = (if rd_allowed d then safe else 0), remainingCredits = rd_remaining d\<rparr>,
              noteAgentsStreamPullCredits scope (rd_allowed d) safe l)
         | None \<Rightarrow> allowCreditWindow env nowMs userSub socketId creditsRequested limit KindAgents l)"

definition refundAgentsStreamPullCredits ::
  "string option \<Rightarrow> string \<Rightarrow> int \<Rightarrow> relay_limiter \<Rightarrow> redis_refund \<times> relay_limiter" where
  "refundAgentsStreamPullCredits userSub socketId creditsToRefund l =
     (let (key, _) = buildIdentityKey userSub socketId
      in ((''agents_stream_pull_credits'', key, Some creditsToRefund),
          case jm_get (statesByIdentityKey l) key of
            None \<Rightarrow> l
          | Some state \<Rightarrow> put_window key (state\<lparr>agentsStreamPullCreditsGranted :=
              max 0 (agentsStreamPullCreditsGranted state - max 0 creditsToRefund)\<rparr>) l))"

section \<open>Clear, sweep, snapshot and reset\<close>

definition clearRelayRateLimitStateByConsumerSocket :: "string \<Rightarrow> relay_limiter \<Rightarrow> relay_limiter" where
  "clearRelayRateLimitStateByConsumerSocket socketId l =
     l\<lparr>statesByIdentityKey := jm_del (''relay:anon:'' @ socketId) (statesByIdentityKey l)\<rparr>"

definition sweepRelayRateLimitState :: "relay_rl_env \<Rightarrow> int \<Rightarrow> relay_limiter \<Rightarrow> relay_limiter" where
  "sweepRelayRateLimitState env nowMs l =
     (let stale = socketRelayRateLimitWindowMs env * socketRelayRateLimitSweepStaleMultiplier env
      in l\<lparr>statesByIdentityKey :=
             filter (\<lambda>(_, state). \<not> (nowMs - cw_lastSeenAtMs state \<ge> stale)) (statesByIdentityKey l)\<rparr>)"

definition getRelayRateLimitMetricsSnapshot :: "relay_limiter \<Rightarrow> int \<times> relay_rl_metrics" where
  "getRelayRateLimitMetricsSnapshot l = (jm_size (statesByIdentityKey l), relayRateLimitMetrics l)"

definition resetRelayRateLimiterState :: "relay_limiter \<Rightarrow> relay_limiter" where
  "resetRelayRateLimiterState l = l\<lparr>statesByIdentityKey := [], relayRateLimitMetrics := zero_metrics\<rparr>"

section \<open>The limiter as a machine\<close>

text \<open>What one identity can ask for. Each case is one operation of the source; \<open>OpReconcile\<close> is the
  background half of a local-first request, when the answer of Redis arrives.\<close>

datatype budget_op =
    OpStart "redis_decision option"
  | OpRefundStart
  | OpRequest bool int "bool option"
  | OpReconcile int "bool option"
  | OpRefundRequest int
  | OpPull int "redis_decision option"
  | OpRefundPull int
  | OpAgentsPull int "redis_decision option"
  | OpRefundAgentsPull int

fun budget_exec :: "relay_rl_env \<Rightarrow> int \<Rightarrow> string option \<Rightarrow> string \<Rightarrow> budget_op \<Rightarrow> relay_limiter \<Rightarrow> relay_limiter" where
  "budget_exec env now u s (OpStart d) l = snd (allowRelayConversationStartAsync env now u s d l)"
| "budget_exec env now u s OpRefundStart l = snd (refundRelayConversationStartAsync u s l)"
| "budget_exec env now u s (OpRequest lf c d) l = snd (snd (allowRelayRpcRequestAsync env lf now u s c d l))"
| "budget_exec env now u s (OpReconcile c d) l =
     reconcileSocketRateLimitRedisConsume d (relay_rpc_handlers env now u s (max 1 c)) l"
| "budget_exec env now u s (OpRefundRequest c) l = snd (refundRelayRpcRequestAsync u s c l)"
| "budget_exec env now u s (OpPull c d) l = snd (allowRelayStreamPullAsync env now u s c d l)"
| "budget_exec env now u s (OpRefundPull c) l = snd (refundRelayStreamPullCreditsAsync u s c l)"
| "budget_exec env now u s (OpAgentsPull c d) l = snd (allowAgentsStreamPullCredits env now u s c d l)"
| "budget_exec env now u s (OpRefundAgentsPull c) l = snd (refundAgentsStreamPullCredits u s c l)"

inductive relay_rl_step :: "relay_rl_env \<Rightarrow> relay_limiter \<Rightarrow> relay_limiter \<Rightarrow> bool" for env where
  rl_op: "relay_rl_step env l (budget_exec env now u s op l)"
| rl_clear: "relay_rl_step env l (clearRelayRateLimitStateByConsumerSocket s l)"
| rl_sweep: "relay_rl_step env l (sweepRelayRateLimitState env now l)"
| rl_reset: "relay_rl_step env l (resetRelayRateLimiterState l)"

lemma note_states [simp]:
  "statesByIdentityKey (noteConversationStartDecision sc b l) = statesByIdentityKey l"
  "statesByIdentityKey (noteRelayRequestDecision sc b l) = statesByIdentityKey l"
  "statesByIdentityKey (noteRelayStreamPullCredits sc b c l) = statesByIdentityKey l"
  "statesByIdentityKey (noteAgentsStreamPullCredits sc b c l) = statesByIdentityKey l"
  "statesByIdentityKey (note_credits k sc b c l) = statesByIdentityKey l"
  by (simp_all add: noteConversationStartDecision_def noteRelayRequestDecision_def noteRelayStreamPullCredits_def
      noteAgentsStreamPullCredits_def note_credits_def Let_def)

lemma put_states [simp]: "statesByIdentityKey (put_window k w l) = jm_set k w (statesByIdentityKey l)"
  by (simp add: put_window_def)

definition rl_env_ok :: "relay_rl_env \<Rightarrow> bool" where
  "rl_env_ok env \<longleftrightarrow> 0 \<le> socketRelayRateLimitMaxConversationStarts env \<and> 0 \<le> socketRelayRateLimitMaxRequests env \<and>
     0 \<le> socketRelayRateLimitMaxStreamPullCredits env \<and> 0 \<le> socketAgentsStreamPullRateLimitMaxCredits env"

definition within_budget :: "relay_rl_env \<Rightarrow> consumer_window \<Rightarrow> bool" where
  "within_budget env w \<longleftrightarrow>
     0 \<le> conversationStarts w \<and> conversationStarts w \<le> socketRelayRateLimitMaxConversationStarts env \<and>
     0 \<le> relayRequests w \<and> relayRequests w \<le> socketRelayRateLimitMaxRequests env \<and>
     0 \<le> streamPullCreditsGranted w \<and> streamPullCreditsGranted w \<le> socketRelayRateLimitMaxStreamPullCredits env \<and>
     0 \<le> agentsStreamPullCreditsGranted w \<and>
       agentsStreamPullCreditsGranted w \<le> socketAgentsStreamPullRateLimitMaxCredits env"

definition rl_ok :: "relay_rl_env \<Rightarrow> relay_limiter \<Rightarrow> bool" where
  "rl_ok env l \<longleftrightarrow> jm_wf (statesByIdentityKey l) \<and>
     (\<forall>key w. jm_get (statesByIdentityKey l) key = Some w \<longrightarrow> within_budget env w)"

lemma rl_ok_getD: "rl_ok env l \<Longrightarrow> jm_get (statesByIdentityKey l) key = Some w \<Longrightarrow> within_budget env w"
  unfolding rl_ok_def by blast

lemma rl_ok_set:
  "statesByIdentityKey l' = jm_set key w (statesByIdentityKey l) \<Longrightarrow> rl_ok env l \<Longrightarrow> within_budget env w \<Longrightarrow> rl_ok env l'"
  by (simp add: rl_ok_def)

lemma rl_ok_cong: "statesByIdentityKey l' = statesByIdentityKey l \<Longrightarrow> rl_ok env l' = rl_ok env l"
  by (simp add: rl_ok_def)

lemma ensureWindow_state:
  "statesByIdentityKey (snd (ensureWindowState env now key l)) =
     jm_set key (fst (ensureWindowState env now key l)) (statesByIdentityKey l)"
  by (simp add: ensureWindowState_def Let_def split: option.splits)

lemma ensureWindow_budget:
  assumes "rl_env_ok env" "rl_ok env l"
  shows "within_budget env (fst (ensureWindowState env now key l))"
proof (cases "jm_get (statesByIdentityKey l) key")
  case None
  then show ?thesis using assms(1) by (simp add: ensureWindowState_def Let_def within_budget_def rl_env_ok_def)
next
  case (Some w)
  then show ?thesis
    using assms(1) rl_ok_getD[OF assms(2) Some] by (simp add: ensureWindowState_def Let_def within_budget_def rl_env_ok_def)
qed

text \<open>Every operation of an identity writes the window of its own key or nothing.\<close>

definition writes_key :: "string \<Rightarrow> (consumer_window \<Rightarrow> bool) \<Rightarrow> relay_limiter \<Rightarrow> relay_limiter \<Rightarrow> bool" where
  "writes_key key P l l' \<longleftrightarrow> statesByIdentityKey l' = statesByIdentityKey l \<or>
     (\<exists>w. P w \<and> statesByIdentityKey l' = jm_set key w (statesByIdentityKey l))"

lemma writes_key_rl_ok: "writes_key key (within_budget env) l l' \<Longrightarrow> rl_ok env l \<Longrightarrow> rl_ok env l'"
  unfolding writes_key_def using rl_ok_cong rl_ok_set by metis

lemma writes_key_other:
  "writes_key key P l l' \<Longrightarrow> key' \<noteq> key \<Longrightarrow> jm_get (statesByIdentityKey l') key' = jm_get (statesByIdentityKey l) key'"
  unfolding writes_key_def by auto

lemma writes_key_same: "statesByIdentityKey l' = statesByIdentityKey l \<Longrightarrow> writes_key key P l l'"
  by (simp add: writes_key_def)

lemma writes_key_put:
  "statesByIdentityKey l' = jm_set key w (statesByIdentityKey l) \<Longrightarrow> P w \<Longrightarrow> writes_key key P l l'"
  by (auto simp: writes_key_def)

text \<open>The window of an identity at a time, and what the operations that consume write to it.\<close>

definition window_now :: "relay_rl_env \<Rightarrow> int \<Rightarrow> string option \<Rightarrow> string \<Rightarrow> relay_limiter \<Rightarrow> consumer_window" where
  "window_now env now u s l = fst (ensureWindowState env now (fst (buildIdentityKey u s)) l)"

lemmas consume_unfold = window_now_def Let_def case_prod_beta ensureWindow_state

lemma allowStart_states:
  assumes "socketRelayRateLimitMaxConversationStarts env \<noteq> 0" "w = window_now env now u s l"
    "ok = (conversationStarts w < socketRelayRateLimitMaxConversationStarts env)"
  shows "fst (allowRelayConversationStart env now u s l) = ok"
    "statesByIdentityKey (snd (allowRelayConversationStart env now u s l)) = jm_set (fst (buildIdentityKey u s))
       (if ok then w\<lparr>conversationStarts := conversationStarts w + 1\<rparr> else w) (statesByIdentityKey l)"
  using assms by (auto simp: allowRelayConversationStart_def consume_unfold)

lemma allowRequest_states:
  assumes "socketRelayRateLimitMaxRequests env \<noteq> 0" "w = window_now env now u s l"
    "ok = (relayRequests w + max 1 c \<le> socketRelayRateLimitMaxRequests env)"
  shows "fst (allowRelayRpcRequest env now u s c l) = ok"
    "statesByIdentityKey (snd (allowRelayRpcRequest env now u s c l)) = jm_set (fst (buildIdentityKey u s))
       (if ok then w\<lparr>relayRequests := relayRequests w + max 1 c\<rparr> else w) (statesByIdentityKey l)"
  using assms by (auto simp: allowRelayRpcRequest_def consume_unfold)

lemma allowCredit_states:
  assumes "limit \<noteq> 0" "w = window_now env now u s l" "ok = (credits_used k w + max 0 c \<le> limit)"
  shows "sp_allowed (fst (allowCreditWindow env now u s c limit k l)) = ok"
    "grantedCredits (fst (allowCreditWindow env now u s c limit k l)) = (if ok then max 0 c else 0)"
    "remainingCredits (fst (allowCreditWindow env now u s c limit k l)) =
       max 0 (limit - (credits_used k w + (if ok then max 0 c else 0)))"
    "statesByIdentityKey (snd (allowCreditWindow env now u s c limit k l)) = jm_set (fst (buildIdentityKey u s))
       (if ok then set_credits_used k (credits_used k w + max 0 c) w else w) (statesByIdentityKey l)"
  using assms by (auto simp: allowCreditWindow_def consume_unfold)

lemma window_now_budget: "rl_env_ok env \<Longrightarrow> rl_ok env l \<Longrightarrow> within_budget env (window_now env now u s l)"
  unfolding window_now_def by (rule ensureWindow_budget)

lemma budget_updates:
  assumes "within_budget env w"
  shows "0 \<le> n \<Longrightarrow> n \<le> socketRelayRateLimitMaxConversationStarts env \<Longrightarrow> within_budget env (w\<lparr>conversationStarts := n\<rparr>)"
    "0 \<le> n \<Longrightarrow> n \<le> socketRelayRateLimitMaxRequests env \<Longrightarrow> within_budget env (w\<lparr>relayRequests := n\<rparr>)"
    "0 \<le> n \<Longrightarrow> n \<le> socketRelayRateLimitMaxStreamPullCredits env \<Longrightarrow> within_budget env (w\<lparr>streamPullCreditsGranted := n\<rparr>)"
    "0 \<le> n \<Longrightarrow> n \<le> socketAgentsStreamPullRateLimitMaxCredits env \<Longrightarrow>
       within_budget env (w\<lparr>agentsStreamPullCreditsGranted := n\<rparr>)"
  using assms by (simp_all add: within_budget_def)

lemma budget_bounds:
  assumes "within_budget env w"
  shows "0 \<le> conversationStarts w" "conversationStarts w \<le> socketRelayRateLimitMaxConversationStarts env"
    "0 \<le> relayRequests w" "relayRequests w \<le> socketRelayRateLimitMaxRequests env"
    "0 \<le> streamPullCreditsGranted w" "streamPullCreditsGranted w \<le> socketRelayRateLimitMaxStreamPullCredits env"
    "0 \<le> agentsStreamPullCreditsGranted w"
    "agentsStreamPullCreditsGranted w \<le> socketAgentsStreamPullRateLimitMaxCredits env"
  using assms by (simp_all add: within_budget_def)

definition credit_limit :: "relay_rl_env \<Rightarrow> metric_kind \<Rightarrow> int" where
  "credit_limit env k = (case k of KindRelay \<Rightarrow> socketRelayRateLimitMaxStreamPullCredits env
                         | KindAgents \<Rightarrow> socketAgentsStreamPullRateLimitMaxCredits env)"

lemma credits_budget:
  assumes "within_budget env w"
  shows "0 \<le> credits_used k w" "credits_used k w \<le> credit_limit env k"
    "0 \<le> n \<Longrightarrow> n \<le> credit_limit env k \<Longrightarrow> within_budget env (set_credits_used k n w)"
  using assms budget_updates[OF assms] budget_bounds[OF assms]
  by (cases k; simp add: credits_used_def credit_limit_def set_credits_used_def)+

lemma consume_writes:
  assumes e: "rl_env_ok env" and r: "rl_ok env l"
  shows "writes_key (fst (buildIdentityKey u s)) (within_budget env) l (snd (allowRelayConversationStart env now u s l))"
    "writes_key (fst (buildIdentityKey u s)) (within_budget env) l (snd (allowRelayRpcRequest env now u s c l))"
    "writes_key (fst (buildIdentityKey u s)) (within_budget env) l
       (snd (allowCreditWindow env now u s c (credit_limit env k) k l))"
proof -
  define w where "w = window_now env now u s l"
  have b: "within_budget env w" unfolding w_def by (rule window_now_budget[OF e r])
  note bb = budget_bounds[OF b] budget_updates[OF b] credits_budget[OF b]
  show "writes_key (fst (buildIdentityKey u s)) (within_budget env) l (snd (allowRelayConversationStart env now u s l))"
  proof (cases "socketRelayRateLimitMaxConversationStarts env = 0")
    case True
    then show ?thesis by (simp add: allowRelayConversationStart_def writes_key_same)
  next
    case False
    show ?thesis by (rule writes_key_put[OF allowStart_states(2)[OF False w_def refl]]) (use b bb in auto)
  qed
  show "writes_key (fst (buildIdentityKey u s)) (within_budget env) l (snd (allowRelayRpcRequest env now u s c l))"
  proof (cases "socketRelayRateLimitMaxRequests env = 0")
    case True
    then show ?thesis by (simp add: allowRelayRpcRequest_def writes_key_same)
  next
    case False
    show ?thesis by (rule writes_key_put[OF allowRequest_states(2)[OF False w_def refl]]) (use b bb in auto)
  qed
  show "writes_key (fst (buildIdentityKey u s)) (within_budget env) l
       (snd (allowCreditWindow env now u s c (credit_limit env k) k l))"
  proof (cases "credit_limit env k = 0")
    case True
    then show ?thesis by (simp add: allowCreditWindow_def Let_def case_prod_beta writes_key_same)
  next
    case False
    show ?thesis by (rule writes_key_put[OF allowCredit_states(4)[OF False w_def refl]]) (use b bb in auto)
  qed
qed

lemma refund_writes:
  assumes r: "rl_ok env l"
  shows "writes_key (fst (buildIdentityKey u s)) (within_budget env) l (refundRelayConversationStart u s l)"
    "writes_key (fst (buildIdentityKey u s)) (within_budget env) l (refundRelayRpcRequest u s c l)"
    "writes_key (fst (buildIdentityKey u s)) (within_budget env) l (refundRelayStreamPullCredits u s c l)"
    "writes_key (fst (buildIdentityKey u s)) (within_budget env) l (snd (refundAgentsStreamPullCredits u s c l))"
proof -
  note defs = refundRelayConversationStart_def refundRelayRpcRequest_def refundRelayStreamPullCredits_def
    refundAgentsStreamPullCredits_def Let_def case_prod_beta
  show "writes_key (fst (buildIdentityKey u s)) (within_budget env) l (refundRelayConversationStart u s l)"
    "writes_key (fst (buildIdentityKey u s)) (within_budget env) l (refundRelayRpcRequest u s c l)"
    "writes_key (fst (buildIdentityKey u s)) (within_budget env) l (refundRelayStreamPullCredits u s c l)"
    "writes_key (fst (buildIdentityKey u s)) (within_budget env) l (snd (refundAgentsStreamPullCredits u s c l))"
    using rl_ok_getD[OF r, of "fst (buildIdentityKey u s)"]
    by (auto simp: defs within_budget_def writes_key_same split: option.split intro!: writes_key_put[OF put_states])
qed

lemma rpcAsync_writes:
  assumes "rl_env_ok env" "rl_ok env l"
  shows "writes_key (fst (buildIdentityKey u s)) (within_budget env) l
           (snd (snd (allowRelayRpcRequestAsync env lf now u s c d l)))"
  using consume_writes(2)[OF assms, of u s now "max 1 c"]
  by (auto simp: allowRelayRpcRequestAsync_def consumeSocketRateLimitLocalFirstAsync_def relay_rpc_handlers_def
      case_prod_beta Let_def writes_key_same split: option.split)

lemma budget_exec_writes:
  assumes e: "rl_env_ok env" and r: "rl_ok env l"
  shows "writes_key (fst (buildIdentityKey u s)) (within_budget env) l (budget_exec env now u s op l)"
proof (cases op)
  case (OpStart d)
  then show ?thesis
    using consume_writes(1)[OF e r, of u s now]
    by (auto simp: allowRelayConversationStartAsync_def Let_def case_prod_beta writes_key_same split: option.split)
next
  case (OpPull c d)
  then show ?thesis
    using consume_writes(3)[OF e r, of u s now c KindRelay]
    by (auto simp: allowRelayStreamPullAsync_def allowRelayStreamPull_def credit_limit_def Let_def case_prod_beta
        writes_key_same split: option.split)
next
  case (OpAgentsPull c d)
  then show ?thesis
    using consume_writes(3)[OF e r, of u s now c KindAgents]
    by (auto simp: allowAgentsStreamPullCredits_def credit_limit_def Let_def case_prod_beta writes_key_same
        split: option.split)
next
  case (OpReconcile c d)
  then show ?thesis
    using refund_writes(2)[OF r, of u s "max 1 c"]
    by (auto simp: reconcileSocketRateLimitRedisConsume_def relay_rpc_handlers_def writes_key_same split: option.split)
next
  case (OpRefundRequest c)
  then show ?thesis
    using refund_writes(2)[OF r, of u s "max 0 c"] by (auto simp: refundRelayRpcRequestAsync_def Let_def writes_key_same)
qed (use refund_writes[OF r] rpcAsync_writes[OF e r] in
      \<open>auto simp: refundRelayConversationStartAsync_def refundRelayStreamPullCreditsAsync_def\<close>)

lemma rl_ok_step:
  assumes e: "rl_env_ok env" and r: "rl_ok env l" and st: "relay_rl_step env l l'"
  shows "rl_ok env l'"
  using st
proof cases
  case (rl_op now u s op)
  then show ?thesis using writes_key_rl_ok[OF budget_exec_writes[OF e r] r] by simp
next
  case (rl_clear s)
  then show ?thesis using r by (simp add: rl_ok_def clearRelayRateLimitStateByConsumerSocket_def)
next
  case (rl_sweep now)
  then show ?thesis using r
    by (auto simp: rl_ok_def sweepRelayRateLimitState_def Let_def jm_get_filter split: option.splits if_splits)
next
  case rl_reset
  then show ?thesis by (simp add: rl_ok_def resetRelayRateLimiterState_def)
qed

interpretation rl: invariant_system new_relay_limiter "relay_rl_step env" "\<lambda>l. rl_env_ok env \<longrightarrow> rl_ok env l" for env
proof unfold_locales
  show "rl_env_ok env \<longrightarrow> rl_ok env new_relay_limiter" by (simp add: rl_ok_def new_relay_limiter_def)
qed (blast intro: rl_ok_step)

lemma rl_ok_reachable: "rl_env_ok env \<Longrightarrow> reachable new_relay_limiter (relay_rl_step env) l \<Longrightarrow> rl_ok env l"
  using rl.inv_reachable by blast

text \<open>The identity an operation is charged to.\<close>

definition same_identity :: "string option \<Rightarrow> string \<Rightarrow> string option \<Rightarrow> string \<Rightarrow> bool" where
  "same_identity u s u' s' \<longleftrightarrow>
     (let sub = (\<lambda>x. case x of None \<Rightarrow> [] | Some y \<Rightarrow> js_trim y)
      in sub u = sub u' \<and> (sub u = [] \<longrightarrow> s = s'))"

lemma buildIdentityKey_eq: "fst (buildIdentityKey u s) = fst (buildIdentityKey u' s') \<longleftrightarrow> same_identity u s u' s'"
  by (auto simp: buildIdentityKey_def same_identity_def Let_def split: option.splits)

section \<open>Properties\<close>

text \<open>C20: In every reachable state of the relay limiter, whatever requests, pulls, refunds, reconciliations,
  sweeps and clears were made at whatever times and whatever Redis answered, each of the four
  counters of every identity is between zero and its limit.\<close>

theorem relay_budgets_hold:
  assumes "0 \<le> socketRelayRateLimitMaxConversationStarts env" "0 \<le> socketRelayRateLimitMaxRequests env"
    "0 \<le> socketRelayRateLimitMaxStreamPullCredits env" "0 \<le> socketAgentsStreamPullRateLimitMaxCredits env"
    and "reachable new_relay_limiter (relay_rl_step env) l"
    and "jm_get (statesByIdentityKey l) key = Some w"
  shows "conversationStarts w \<in> {0 .. socketRelayRateLimitMaxConversationStarts env} \<and>
    relayRequests w \<in> {0 .. socketRelayRateLimitMaxRequests env} \<and>
    streamPullCreditsGranted w \<in> {0 .. socketRelayRateLimitMaxStreamPullCredits env} \<and>
    agentsStreamPullCreditsGranted w \<in> {0 .. socketAgentsStreamPullRateLimitMaxCredits env}"
proof -
  have "rl_env_ok env" using assms(1-4) by (simp add: rl_env_ok_def)
  from rl_ok_getD[OF rl_ok_reachable[OF this assms(5)] assms(6)] show ?thesis by (simp add: within_budget_def)
qed

definition sample_rl_env :: relay_rl_env where
  "sample_rl_env = \<lparr>socketRelayRateLimitWindowMs = 10, socketRelayRateLimitMaxConversationStarts = 1,
     socketRelayRateLimitMaxRequests = 2, socketRelayRateLimitMaxStreamPullCredits = 5,
     socketAgentsStreamPullRateLimitMaxCredits = 4, socketRelayRateLimitSweepStaleMultiplier = 2\<rparr>"

theorem relay_budgets_hold_witness:
  "\<exists>w. jm_get (statesByIdentityKey (budget_exec sample_rl_env 3 (Some '' u '') ''s'' (OpRequest True 2 None) new_relay_limiter))
          ''relay:user:u'' = Some w \<and> relayRequests w \<in> {0 .. 2}"
proof -
  have r: "reachable new_relay_limiter (relay_rl_step sample_rl_env)
             (budget_exec sample_rl_env 3 (Some '' u '') ''s'' (OpRequest True 2 None) new_relay_limiter)"
    by (rule reachable.reach_step[OF reachable.reach_init]) (rule rl_op)
  have g: "jm_get (statesByIdentityKey (budget_exec sample_rl_env 3 (Some '' u '') ''s'' (OpRequest True 2 None) new_relay_limiter))
      ''relay:user:u'' = Some \<lparr>cw_windowStartMs = 3, conversationStarts = 0, relayRequests = 2,
        streamPullCreditsGranted = 0, agentsStreamPullCreditsGranted = 0, cw_lastSeenAtMs = 3\<rparr>"
    by code_simp
  show ?thesis
    using relay_budgets_hold[OF _ _ _ _ r g] g by (simp add: sample_rl_env_def)
qed

text \<open>Budgets are per identity. Two requests are charged to the same window exactly when their trimmed user
  names are equal and, for requests without a user, their sockets are the same (a user can never share
  an anonymous socket's window, whatever the names); and no operation of one identity changes the
  window of another.\<close>

theorem relay_budget_isolation:
  assumes "0 \<le> socketRelayRateLimitMaxConversationStarts env" "0 \<le> socketRelayRateLimitMaxRequests env"
    "0 \<le> socketRelayRateLimitMaxStreamPullCredits env" "0 \<le> socketAgentsStreamPullRateLimitMaxCredits env"
    and "reachable new_relay_limiter (relay_rl_step env) l"
  shows "(fst (buildIdentityKey u s) = fst (buildIdentityKey u' s') \<longleftrightarrow> same_identity u s u' s') \<and>
    (\<not> same_identity u s u' s' \<longrightarrow>
       jm_get (statesByIdentityKey (budget_exec env now u s op l)) (fst (buildIdentityKey u' s')) =
       jm_get (statesByIdentityKey l) (fst (buildIdentityKey u' s')))"
proof -
  have e: "rl_env_ok env" using assms(1-4) by (simp add: rl_env_ok_def)
  have "jm_get (statesByIdentityKey (budget_exec env now u s op l)) (fst (buildIdentityKey u' s')) =
       jm_get (statesByIdentityKey l) (fst (buildIdentityKey u' s'))" if "\<not> same_identity u s u' s'"
    using writes_key_other[OF budget_exec_writes[OF e rl_ok_reachable[OF e assms(5)]]] that
    by (metis buildIdentityKey_eq)
  then show ?thesis using buildIdentityKey_eq by blast
qed

theorem relay_budget_isolation_witness:
  "jm_get (statesByIdentityKey (budget_exec sample_rl_env 0 (Some ''a'') ''s'' (OpPull 3 None) new_relay_limiter))
     (fst (buildIdentityKey None ''s'')) = None"
  using relay_budget_isolation[OF _ _ _ _ reachable.reach_init, of sample_rl_env "Some ''a''" "''s''" None "''s''" 0 "OpPull 3 None"]
  by (simp add: sample_rl_env_def same_identity_def js_trim_def js_whitespace_def new_relay_limiter_def)

text \<open>A consumer that pulls stream credits, with the allowances it receives.\<close>

fun pull_run ::
  "relay_rl_env \<Rightarrow> string option \<Rightarrow> string \<Rightarrow> (int \<times> int) list \<Rightarrow> relay_limiter \<Rightarrow> stream_pull_allowance list \<times> relay_limiter" where
  "pull_run env u s [] l = ([], l)"
| "pull_run env u s ((t, c) # ps) l =
     (let (a, l1) = allowRelayStreamPull env t u s c l; (as, l2) = pull_run env u s ps l1 in (a # as, l2))"

lemma allowPull_step:
  assumes lim: "socketRelayRateLimitMaxStreamPullCredits env > 0"
    and w: "jm_get (statesByIdentityKey l) (fst (buildIdentityKey u s)) = Some w"
    and t: "t - cw_windowStartMs w < socketRelayRateLimitWindowMs env"
    and used: "0 \<le> streamPullCreditsGranted w" "streamPullCreditsGranted w \<le> socketRelayRateLimitMaxStreamPullCredits env"
    and r: "allowRelayStreamPull env t u s c l = (a, l')"
  obtains w' where "jm_get (statesByIdentityKey l') (fst (buildIdentityKey u s)) = Some w'"
    "cw_windowStartMs w' = cw_windowStartMs w"
    "streamPullCreditsGranted w' = streamPullCreditsGranted w + grantedCredits a"
    "0 \<le> grantedCredits a" "remainingCredits a = socketRelayRateLimitMaxStreamPullCredits env - streamPullCreditsGranted w'"
    "streamPullCreditsGranted w' \<le> socketRelayRateLimitMaxStreamPullCredits env"
proof -
  have l0: "socketRelayRateLimitMaxStreamPullCredits env \<noteq> 0" using lim by simp
  have wn: "window_now env t u s l = w\<lparr>cw_lastSeenAtMs := t\<rparr>"
    using w t by (simp add: window_now_def ensureWindowState_def Let_def)
  define ok where "ok = (credits_used KindRelay (window_now env t u s l) + max 0 c
    \<le> socketRelayRateLimitMaxStreamPullCredits env)"
  note st = allowCredit_states[OF l0 refl ok_def, unfolded allowRelayStreamPull_def[symmetric] r fst_conv snd_conv wn]
  show ?thesis
  proof (rule that)
    show "jm_get (statesByIdentityKey l') (fst (buildIdentityKey u s)) =
      Some (if ok then set_credits_used KindRelay (streamPullCreditsGranted w + max 0 c) (w\<lparr>cw_lastSeenAtMs := t\<rparr>)
            else w\<lparr>cw_lastSeenAtMs := t\<rparr>)"
      by (simp add: st(4) credits_used_def)
  qed (use st(2,3) used ok_def wn in \<open>auto simp: set_credits_used_def credits_used_def\<close>)
qed

lemma pull_run_credits:
  assumes "socketRelayRateLimitMaxStreamPullCredits env > 0"
    and "jm_get (statesByIdentityKey l) (fst (buildIdentityKey u s)) = Some w"
    and "\<forall>(t, c)\<in>set ps. t - cw_windowStartMs w < socketRelayRateLimitWindowMs env"
    and "0 \<le> streamPullCreditsGranted w" "streamPullCreditsGranted w \<le> socketRelayRateLimitMaxStreamPullCredits env"
    and "pull_run env u s ps l = (as, l')"
  shows "streamPullCreditsGranted w + sum_list (map grantedCredits as) \<le> socketRelayRateLimitMaxStreamPullCredits env \<and>
    (as \<noteq> [] \<longrightarrow> remainingCredits (last as) =
       socketRelayRateLimitMaxStreamPullCredits env - (streamPullCreditsGranted w + sum_list (map grantedCredits as)))"
  using assms(2-)
proof (induction ps arbitrary: l w as)
  case Nil
  then show ?case by simp
next
  case (Cons p ps)
  obtain t c where p: "p = (t, c)" by (cases p)
  obtain a l1 where a: "allowRelayStreamPull env t u s c l = (a, l1)" by (cases "allowRelayStreamPull env t u s c l")
  obtain as' l2 where rest: "pull_run env u s ps l1 = (as', l2)" by (cases "pull_run env u s ps l1")
  have as: "as = a # as'" "l' = l2" using Cons.prems(5) p a rest by auto
  have t: "t - cw_windowStartMs w < socketRelayRateLimitWindowMs env" using Cons.prems(2) p by simp
  obtain w' where w': "jm_get (statesByIdentityKey l1) (fst (buildIdentityKey u s)) = Some w'"
    "cw_windowStartMs w' = cw_windowStartMs w"
    "streamPullCreditsGranted w' = streamPullCreditsGranted w + grantedCredits a"
    "0 \<le> grantedCredits a" "remainingCredits a = socketRelayRateLimitMaxStreamPullCredits env - streamPullCreditsGranted w'"
    "streamPullCreditsGranted w' \<le> socketRelayRateLimitMaxStreamPullCredits env"
    by (rule allowPull_step[OF assms(1) Cons.prems(1) t Cons.prems(3,4) a])
  have "\<forall>(t, c)\<in>set ps. t - cw_windowStartMs w' < socketRelayRateLimitWindowMs env"
    using Cons.prems(2) w'(2) by simp
  from Cons.IH[OF w'(1) this _ w'(6) rest[folded as(2)]] w' Cons.prems(3)
  show ?case by (auto simp: as)
qed

text \<open>The stream pull credits of one window: a consumer whose window is open and who pulls any number of
  times before it ends is granted at most the limit in total, and the remaining credits it is told
  after the last pull are exactly the limit less all that was granted in the window.\<close>

theorem relay_pull_credit_conservation:
  assumes "socketRelayRateLimitMaxStreamPullCredits env > 0"
    and "reachable new_relay_limiter (relay_rl_step env) l" and "rl_env_ok env"
    and "jm_get (statesByIdentityKey l) (fst (buildIdentityKey u s)) = Some w"
    and "\<forall>(t, c)\<in>set ps. t - cw_windowStartMs w < socketRelayRateLimitWindowMs env"
    and "pull_run env u s ps l = (as, l')"
  shows "streamPullCreditsGranted w + sum_list (map grantedCredits as) \<le> socketRelayRateLimitMaxStreamPullCredits env \<and>
    (as \<noteq> [] \<longrightarrow> remainingCredits (last as) =
       socketRelayRateLimitMaxStreamPullCredits env - (streamPullCreditsGranted w + sum_list (map grantedCredits as)))"
proof -
  have "within_budget env w" by (rule rl_ok_getD[OF rl_ok_reachable[OF assms(3,2)] assms(4)])
  then show ?thesis using pull_run_credits[OF assms(1,4,5) _ _ assms(6)] by (simp add: budget_bounds)
qed

definition sample_pull_state :: relay_limiter where
  "sample_pull_state = budget_exec sample_rl_env 0 None ''s'' (OpPull 1 None) new_relay_limiter"

theorem relay_pull_credit_conservation_witness:
  "map grantedCredits (fst (pull_run sample_rl_env None ''s'' [(1, 2), (2, 3), (9, 1)] sample_pull_state)) = [2, 0, 1] \<and>
   remainingCredits (last (fst (pull_run sample_rl_env None ''s'' [(1, 2), (2, 3), (9, 1)] sample_pull_state))) = 1"
proof -
  have r: "reachable new_relay_limiter (relay_rl_step sample_rl_env) sample_pull_state"
    unfolding sample_pull_state_def by (rule reachable.reach_step[OF reachable.reach_init]) (rule rl_op)
  have g: "jm_get (statesByIdentityKey sample_pull_state) (fst (buildIdentityKey None ''s'')) =
      Some \<lparr>cw_windowStartMs = 0, conversationStarts = 0, relayRequests = 0,
        streamPullCreditsGranted = 1, agentsStreamPullCreditsGranted = 0, cw_lastSeenAtMs = 0\<rparr>"
    by code_simp
  have m: "map grantedCredits (fst (pull_run sample_rl_env None ''s'' [(1, 2), (2, 3), (9, 1)] sample_pull_state)) = [2, 0, 1]"
    by code_simp
  from relay_pull_credit_conservation[OF _ r _ g _ prod.collapse[symmetric], of "[(1, 2), (2, 3), (9, 1)]"] m
  show ?thesis by (auto simp: sample_rl_env_def rl_env_ok_def)
qed

text \<open>C30: Local-first requests. The answer is the local window's, whatever Redis says; a reconciliation is left
  running exactly when the request was admitted; if Redis then denies it within the same state, the
  requests counted for the identity are those before the request, and they stay as they are if Redis
  allows or is unavailable. In the legacy mode the answer is Redis's, and consumes no local budget, or the
  local one when Redis is unavailable.\<close>

theorem relay_local_first_reconciliation:
  assumes "0 < socketRelayRateLimitMaxRequests env" "rl_env_ok env"
    and "reachable new_relay_limiter (relay_rl_step env) l"
    and "allowRelayRpcRequestAsync env localFirst now u s cost redisDecision l = (ok, pending, l1)"
    and "h = relay_rpc_handlers env now u s (max 1 cost)" and "key = fst (buildIdentityKey u s)"
  shows "if localFirst then
      ok = fst (allowRelayRpcRequest env now u s cost l) \<and> pending = ok \<and>
      (pending \<longrightarrow>
         map_option relayRequests (jm_get (statesByIdentityKey (reconcileSocketRateLimitRedisConsume (Some False) h l1)) key) =
           Some (relayRequests (window_now env now u s l)) \<and>
         reconcileSocketRateLimitRedisConsume (Some True) h l1 = l1 \<and> reconcileSocketRateLimitRedisConsume None h l1 = l1)
    else \<not> pending \<and> (case redisDecision of
        Some allowed \<Rightarrow> ok = allowed \<and> statesByIdentityKey l1 = statesByIdentityKey l
      | None \<Rightarrow> (ok, l1) = allowRelayRpcRequest env now u s cost l)"
proof (cases localFirst)
  case True
  have l0: "socketRelayRateLimitMaxRequests env \<noteq> 0" using assms(1) by simp
  have eq: "allowRelayRpcRequest env now u s (max 1 cost) l = allowRelayRpcRequest env now u s cost l"
    by (simp add: allowRelayRpcRequest_def)
  define w where "w = window_now env now u s l"
  have nn: "0 \<le> relayRequests w"
    unfolding w_def by (rule budget_bounds(3)[OF window_now_budget[OF assms(2) rl_ok_reachable[OF assms(2,3)]]])
  have ok: "ok = fst (allowRelayRpcRequest env now u s cost l)" "pending = ok" "l1 = snd (allowRelayRpcRequest env now u s cost l)"
    using assms(4) l0 True eq
    by (auto simp: allowRelayRpcRequestAsync_def consumeSocketRateLimitLocalFirstAsync_def relay_rpc_handlers_def
        case_prod_beta Let_def split: if_splits)
  note st = allowRequest_states[OF l0 w_def refl, of cost, folded ok(1,3)]
  have pos: "\<not> relayRequests w + max 1 cost \<le> 0" "max 1 cost \<noteq> 0" using nn by linarith+
  have "map_option relayRequests (jm_get (statesByIdentityKey (refundRelayRpcRequest u s (max 1 cost) l1)) key) =
           Some (relayRequests w)" if ok
    using that st nn pos by (simp add: refundRelayRpcRequest_def Let_def case_prod_beta assms(6))
  then show ?thesis
    using True ok by (simp add: reconcileSocketRateLimitRedisConsume_def assms(5) relay_rpc_handlers_def w_def)
next
  case False
  have eq: "allowRelayRpcRequest env now u s (max 1 cost) l = allowRelayRpcRequest env now u s cost l"
    by (simp add: allowRelayRpcRequest_def)
  then show ?thesis
    using False assms(1,4)
    by (auto simp: allowRelayRpcRequestAsync_def consumeSocketRateLimitLocalFirstAsync_def relay_rpc_handlers_def
        case_prod_beta Let_def prod_eq_iff split: option.splits if_splits)
qed

theorem relay_local_first_reconciliation_witness:
  "map_option relayRequests (jm_get (statesByIdentityKey (reconcileSocketRateLimitRedisConsume (Some False)
       (relay_rpc_handlers sample_rl_env 0 None ''s'' (max 1 2))
       (snd (snd (allowRelayRpcRequestAsync sample_rl_env True 0 None ''s'' 2 None new_relay_limiter)))))
     (fst (buildIdentityKey None ''s''))) = Some 0"
proof -
  have a: "allowRelayRpcRequestAsync sample_rl_env True 0 None ''s'' 2 None new_relay_limiter =
    (True, True, snd (snd (allowRelayRpcRequestAsync sample_rl_env True 0 None ''s'' 2 None new_relay_limiter)))"
    by code_simp
  have w: "relayRequests (window_now sample_rl_env 0 None ''s'' new_relay_limiter) = 0" by code_simp
  show ?thesis
    using relay_local_first_reconciliation[OF _ _ reachable.reach_init a refl refl] w
    by (simp add: sample_rl_env_def rl_env_ok_def)
qed

text \<open>A refund does not know the window its request was counted in. A request of one window whose
  reconciliation is denied after the next window has opened is taken off the next window: with a
  limit of two requests per window, three are admitted in the window that opened at 10.\<close>

theorem relay_refund_crosses_windows:
  "let e = sample_rl_env; req = (\<lambda>t l. allowRelayRpcRequestAsync e True t None ''s'' 1 None l);
       (ok0, p0, l0) = req 0 new_relay_limiter;
       (ok1, p1, l1) = req 10 l0; (ok2, p2, l2) = req 11 l1;
       l3 = reconcileSocketRateLimitRedisConsume (Some False) (relay_rpc_handlers e 0 None ''s'' 1) l2;
       (ok3, p3, l4) = req 12 l3
   in socketRelayRateLimitMaxRequests e = 2 \<and> socketRelayRateLimitWindowMs e = 10 \<and> p0 \<and> ok1 \<and> ok2 \<and> ok3 \<and>
      map_option cw_windowStartMs (jm_get (statesByIdentityKey l4) ''relay:anon:s'') = Some 10"
  by code_simp

end
