(* ===== verification/Latency_Stats.thy ===== *)
theory Latency_Stats
  imports Prelude "HOL-Library.Multiset"
begin

text \<open>
  \<^verbatim>\<open>shared/utils/latency_ring_buffer.ts\<close> and \<^verbatim>\<open>shared/utils/percentile.ts\<close>: the fixed-capacity ring of
  latency samples and the quickselect that reads a percentile from it.

  Samples are of any linearly ordered type with a zero (the program's are finite numbers). The
  product \<^verbatim>\<open>Math.ceil((p / 100) * arr.length)\<close> is floating-point arithmetic: its value is an argument.
\<close>

section \<open>Ring buffer\<close>

record 'a ring =
  capacity :: nat
  samples :: "'a list"
  rb_next :: nat
  filled :: nat

definition createLatencyRingBuffer :: "nat \<Rightarrow> 'a::zero ring" where
  "createLatencyRingBuffer n = \<lparr>capacity = n, samples = replicate n 0, rb_next = 0, filled = 0\<rparr>"

definition pushLatencyRingBuffer :: "'a \<Rightarrow> 'a ring \<Rightarrow> 'a ring" where
  "pushLatencyRingBuffer v r =
     r\<lparr>samples := (samples r)[rb_next r := v], rb_next := (rb_next r + 1) mod capacity r,
       filled := min (capacity r) (filled r + 1)\<rparr>"

definition latencyRingBufferValues :: "'a ring \<Rightarrow> 'a list" where
  "latencyRingBufferValues r =
     (if filled r = 0 then []
      else if filled r < capacity r then take (filled r) (samples r)
      else map (\<lambda>i. samples r ! ((rb_next r + i) mod capacity r)) [0 ..< capacity r])"

text \<open>The ring holds the samples \<open>vs\<close>, oldest first.\<close>

definition ring_holds :: "nat \<Rightarrow> 'a list \<Rightarrow> 'a ring \<Rightarrow> bool" where
  "ring_holds n vs r \<longleftrightarrow> capacity r = n \<and> length (samples r) = n \<and> filled r = length vs \<and> length vs \<le> n \<and>
     rb_next r < n \<and>
     (if length vs < n then rb_next r = length vs \<and> take (length vs) (samples r) = vs
      else \<forall>i < n. samples r ! ((rb_next r + i) mod n) = vs ! i)"

lemma ring_holds_values: "ring_holds n vs r \<Longrightarrow> 0 < n \<Longrightarrow> latencyRingBufferValues r = vs"
  by (auto simp: ring_holds_def latencyRingBufferValues_def intro!: nth_equalityI split: if_splits)

lemma ring_holds_create: "0 < n \<Longrightarrow> ring_holds n [] (createLatencyRingBuffer n)"
  by (simp add: ring_holds_def createLatencyRingBuffer_def)

lemma mod_wrap: "a < n \<Longrightarrow> b < n \<Longrightarrow> (a + b) mod n = (if a + b < n then a + b else a + b - n)" for a b n :: nat
  by (simp add: le_mod_geq)

lemma ring_push_full:
  assumes h: "ring_holds n vs r" and full: "length vs = n"
  shows "ring_holds n (tl vs @ [v]) (pushLatencyRingBuffer v r)"
proof -
  have n: "capacity r = n" "length (samples r) = n" "rb_next r < n" "filled r = n" and
    at: "\<And>i. i < n \<Longrightarrow> samples r ! ((rb_next r + i) mod n) = vs ! i"
    using h full by (auto simp: ring_holds_def)
  have "(samples r)[rb_next r := v] ! ((((rb_next r + 1) mod n) + i) mod n) = (tl vs @ [v]) ! i" if i: "i < n" for i
  proof -
    have eq: "((rb_next r + 1) mod n + i) mod n = (rb_next r + Suc i) mod n" by (simp add: mod_add_left_eq)
    show ?thesis
    proof (cases "Suc i < n")
      case True
      have "(rb_next r + Suc i) mod n \<noteq> rb_next r" using mod_wrap[OF n(3) True] True n(3) by (auto split: if_splits)
      moreover have "(rb_next r + Suc i) mod n < n" using i by simp
      moreover have "i < n - Suc 0" using True by simp
      ultimately show ?thesis using at[OF True] True full eq by (simp add: nth_append nth_tl)
    next
      case False
      then have "Suc i = n" using i by simp
      then have "i = n - 1" "(rb_next r + Suc i) mod n = rb_next r" using n(3) by auto
      then show ?thesis using n full eq i by (simp add: nth_append)
    qed
  qed
  then show ?thesis using n full by (auto simp: ring_holds_def pushLatencyRingBuffer_def)
qed

lemma ring_push_partial:
  assumes h: "ring_holds n vs r" and part: "length vs < n"
  shows "ring_holds n (vs @ [v]) (pushLatencyRingBuffer v r)"
proof -
  have n: "capacity r = n" "length (samples r) = n" "rb_next r = length vs" "filled r = length vs" and
    tk: "take (length vs) (samples r) = vs"
    using h part by (auto simp: ring_holds_def)
  have tk': "take (Suc (length vs)) ((samples r)[length vs := v]) = vs @ [v]"
    using part n(2) tk by (simp add: take_Suc_conv_app_nth)
  show ?thesis
  proof (cases "Suc (length vs) = n")
    case True
    then have "(samples r)[length vs := v] = vs @ [v]" using tk' n(2) by simp
    then show ?thesis using True n by (simp add: ring_holds_def pushLatencyRingBuffer_def)
  next
    case False
    then show ?thesis using part n tk' by (simp add: ring_holds_def pushLatencyRingBuffer_def)
  qed
qed

text \<open>The last \<open>n\<close> samples.\<close>

definition last_n :: "nat \<Rightarrow> 'a list \<Rightarrow> 'a list" where
  "last_n n xs = drop (length xs - n) xs"

lemma ring_holds_fold:
  assumes "0 < n"
  shows "ring_holds n (last_n n vs) (fold pushLatencyRingBuffer vs (createLatencyRingBuffer n))"
proof (induction vs rule: rev_induct)
  case Nil
  then show ?case using ring_holds_create[OF assms] by (simp add: last_n_def)
next
  case (snoc v vs)
  show ?case
  proof (cases "length vs < n")
    case True
    then have "last_n n (vs @ [v]) = last_n n vs @ [v]" by (simp add: last_n_def)
    then show ?thesis using ring_push_partial[OF snoc] True by (simp add: last_n_def)
  next
    case False
    then have "last_n n (vs @ [v]) = tl (last_n n vs) @ [v]" using assms
      by (simp add: last_n_def Suc_diff_le drop_Suc tl_drop)
    then show ?thesis using ring_push_full[OF snoc] False by (simp add: last_n_def)
  qed
qed

section \<open>Percentile\<close>

text \<open>An element of the array, \<open>None\<close> for JavaScript's \<open>undefined\<close>, which no comparison accepts.\<close>

definition arr_at :: "'a list \<Rightarrow> int \<Rightarrow> 'a option" where
  "arr_at arr i = (if 0 \<le> i \<and> i < int (length arr) then Some (arr ! nat i) else None)"

function scan_left :: "'a::linorder list \<Rightarrow> 'a \<Rightarrow> int \<Rightarrow> int" where
  "scan_left arr pivot left =
     (case arr_at arr left of None \<Rightarrow> left | Some v \<Rightarrow> if v < pivot then scan_left arr pivot (left + 1) else left)"
  by pat_completeness auto
termination
  by (relation "measure (\<lambda>(arr, _, left). nat (int (length arr) - left))") (auto simp: arr_at_def split: if_splits)

function scan_right :: "'a::linorder list \<Rightarrow> 'a \<Rightarrow> int \<Rightarrow> int" where
  "scan_right arr pivot right =
     (case arr_at arr right of None \<Rightarrow> right | Some v \<Rightarrow> if v > pivot then scan_right arr pivot (right - 1) else right)"
  by pat_completeness auto
termination
  by (relation "measure (\<lambda>(arr, _, right). nat (right + 1))") (auto simp: arr_at_def split: if_splits)

declare scan_left.simps [simp del] scan_right.simps [simp del]

lemma scan_left_ge: "left \<le> scan_left arr pivot left"
  by (induction arr pivot left rule: scan_left.induct) (subst scan_left.simps, auto split: option.splits)

lemma scan_right_le: "scan_right arr pivot right \<le> right"
  by (induction arr pivot right rule: scan_right.induct) (subst scan_right.simps, auto split: option.splits)

text \<open>The exchange of two elements; both positions are always in the array.\<close>

definition exchange :: "'a list \<Rightarrow> int \<Rightarrow> int \<Rightarrow> 'a list" where
  "exchange arr i j = arr[nat i := arr ! nat j, nat j := arr ! nat i]"

function partition_loop :: "'a::linorder list \<Rightarrow> 'a \<Rightarrow> int \<Rightarrow> int \<Rightarrow> 'a list \<times> int \<times> int" where
  "partition_loop arr pivot left right =
     (if left \<le> right then
        let l = scan_left arr pivot left; r = scan_right arr pivot right
        in if l \<le> r then partition_loop (exchange arr l r) pivot (l + 1) (r - 1) else (arr, l, r)
      else (arr, left, right))"
  by pat_completeness auto
termination
proof (relation "measure (\<lambda>(_, _, left, right). nat (right - left + 1))")
  fix arr :: "'a list" and pivot left right l r
  assume "left \<le> right" "l = scan_left arr pivot left" "r = scan_right arr pivot right"
  then show "((exchange arr l r, pivot, l + 1, r - 1), arr, pivot, left, right)
     \<in> measure (\<lambda>(_, _, left, right). nat (right - left + 1))"
    using scan_left_ge[of left arr pivot] scan_right_le[of arr pivot right] by simp
qed simp

declare partition_loop.simps [simp del]

text \<open>The outer loop, with fuel; it returns \<open>None\<close> only when the fuel runs out.\<close>

fun quickselect :: "nat \<Rightarrow> 'a::linorder list \<Rightarrow> int \<Rightarrow> int \<Rightarrow> int \<Rightarrow> 'a list option" where
  "quickselect fuel arr rank lo hi =
     (if lo < hi then
        case (fuel, arr_at arr ((lo + hi) div 2)) of
          (Suc n, Some pivot) \<Rightarrow>
            (let (arr', left, right) = partition_loop arr pivot lo hi
             in if rank \<le> right then quickselect n arr' rank lo right
                else if rank \<ge> left then quickselect n arr' rank left hi
                else Some arr')
        | _ \<Rightarrow> None
      else Some arr)"

declare quickselect.simps [simp del]

definition percentile_rank :: "int \<Rightarrow> int \<Rightarrow> int" where
  "percentile_rank scaled n = min (n - 1) (max 0 (scaled - 1))"

definition percentile :: "'a::{linorder, zero} list \<Rightarrow> int \<Rightarrow> 'a option" where
  "percentile vals scaled =
     (if vals = [] then Some 0
      else let n = int (length vals); rank = percentile_rank scaled n
           in map_option (\<lambda>arr. case arr_at arr rank of Some v \<Rightarrow> v | None \<Rightarrow> 0)
                (quickselect (length vals) vals rank 0 (n - 1)))"

section \<open>Quickselect selects\<close>

lemma scan_left_spec:
  assumes "0 \<le> left" "left \<le> m" "m < int (length arr)" "pivot \<le> arr ! nat m"
  shows "scan_left arr pivot left \<le> m \<and> pivot \<le> arr ! nat (scan_left arr pivot left) \<and>
    (\<forall>i. left \<le> i \<and> i < scan_left arr pivot left \<longrightarrow> arr ! nat i < pivot)"
  using assms
proof (induction arr pivot left rule: scan_left.induct)
  case (1 arr pivot left)
  have at: "arr_at arr left = Some (arr ! nat left)" using 1 by (simp add: arr_at_def)
  show ?case
  proof (cases "arr ! nat left < pivot")
    case True
    then have "left \<noteq> m" using 1(5) by auto
    then have ih: "scan_left arr pivot (left + 1) \<le> m \<and> pivot \<le> arr ! nat (scan_left arr pivot (left + 1)) \<and>
      (\<forall>i. left + 1 \<le> i \<and> i < scan_left arr pivot (left + 1) \<longrightarrow> arr ! nat i < pivot)"
      using 1 at True by simp
    have "arr ! nat i < pivot" if "left \<le> i" "i < scan_left arr pivot (left + 1)" for i
      using ih that True by (cases "i = left") auto
    then show ?thesis using True at scan_left.simps[of arr pivot left] ih by simp
  next
    case False
    then show ?thesis using at scan_left.simps[of arr pivot left] 1(3) by auto
  qed
qed

lemma scan_right_spec:
  assumes "0 \<le> m" "m \<le> right" "right < int (length arr)" "arr ! nat m \<le> pivot"
  shows "m \<le> scan_right arr pivot right \<and> arr ! nat (scan_right arr pivot right) \<le> pivot \<and>
    (\<forall>i. scan_right arr pivot right < i \<and> i \<le> right \<longrightarrow> pivot < arr ! nat i)"
  using assms
proof (induction arr pivot right rule: scan_right.induct)
  case (1 arr pivot right)
  have at: "arr_at arr right = Some (arr ! nat right)" using 1 by (simp add: arr_at_def)
  show ?case
  proof (cases "pivot < arr ! nat right")
    case True
    then have "right \<noteq> m" using 1(5) by auto
    then have ih: "m \<le> scan_right arr pivot (right - 1) \<and> arr ! nat (scan_right arr pivot (right - 1)) \<le> pivot \<and>
      (\<forall>i. scan_right arr pivot (right - 1) < i \<and> i \<le> right - 1 \<longrightarrow> pivot < arr ! nat i)"
      using 1 at True by simp
    have "pivot < arr ! nat i" if "scan_right arr pivot (right - 1) < i" "i \<le> right" for i
      using ih that True by (cases "i = right") auto
    then show ?thesis using True at scan_right.simps[of arr pivot right] ih by simp
  next
    case False
    then show ?thesis using at scan_right.simps[of arr pivot right] 1(3) by auto
  qed
qed

text \<open>The invariant of the partition of positions \<open>lo\<close> to \<open>hi\<close>: what the cursors have passed is on its side of
  the pivot, and either nothing was passed and the pivot is there, or both cursors have moved.\<close>

definition permuted_within :: "'a list \<Rightarrow> 'a list \<Rightarrow> int \<Rightarrow> int \<Rightarrow> bool" where
  "permuted_within arr0 arr lo hi \<longleftrightarrow> mset arr = mset arr0 \<and>
     (\<forall>i. 0 \<le> i \<and> i < lo \<longrightarrow> arr ! nat i = arr0 ! nat i) \<and>
     (\<forall>i. hi < i \<and> i < int (length arr0) \<longrightarrow> arr ! nat i = arr0 ! nat i) \<and>
     (\<forall>i. lo \<le> i \<and> i \<le> hi \<longrightarrow> (\<exists>k. lo \<le> k \<and> k \<le> hi \<and> arr ! nat i = arr0 ! nat k))"

definition split_at :: "'a::linorder list \<Rightarrow> 'a \<Rightarrow> int \<Rightarrow> int \<Rightarrow> int \<Rightarrow> int \<Rightarrow> bool" where
  "split_at arr pivot lo hi left right \<longleftrightarrow> (\<forall>i. lo \<le> i \<and> i < left \<longrightarrow> arr ! nat i \<le> pivot) \<and>
     (\<forall>i. right < i \<and> i \<le> hi \<longrightarrow> pivot \<le> arr ! nat i)"

definition cursors_ok :: "'a::linorder list \<Rightarrow> 'a \<Rightarrow> int \<Rightarrow> int \<Rightarrow> int \<Rightarrow> int \<Rightarrow> bool" where
  "cursors_ok arr pivot lo hi left right \<longleftrightarrow>
     (left = lo \<and> right = hi \<and> (\<exists>m. lo \<le> m \<and> m \<le> hi \<and> arr ! nat m = pivot)) \<or> (lo < left \<and> right < hi)"

lemma permuted_refl: "permuted_within arr arr lo hi"
  by (auto simp: permuted_within_def)

lemma permuted_length: "permuted_within arr0 arr lo hi \<Longrightarrow> length arr = length arr0"
  by (metis permuted_within_def size_mset)

lemma exchange_nth:
  assumes "0 \<le> i" "i < int (length arr)" "0 \<le> a" "a < int (length arr)" "0 \<le> b" "b < int (length arr)"
  shows "exchange arr a b ! nat i = (if i = b then arr ! nat a else if i = a then arr ! nat b else arr ! nat i)"
  using assms by (auto simp: exchange_def nth_list_update)

lemma exchange_length [simp]: "length (exchange arr a b) = length arr"
  by (simp add: exchange_def)

lemma permuted_exchange:
  assumes p: "permuted_within arr0 arr lo hi" and "0 \<le> lo" "hi < int (length arr0)" "lo \<le> a" "a \<le> b" "b \<le> hi"
  shows "permuted_within arr0 (exchange arr a b) lo hi"
proof -
  have len: "length arr = length arr0" by (rule permuted_length[OF p])
  have nth: "exchange arr a b ! nat i = (if i = b then arr ! nat a else if i = a then arr ! nat b else arr ! nat i)"
    if "0 \<le> i" "i < int (length arr0)" for i
    using that assms len by (intro exchange_nth) auto
  have "mset (exchange arr a b) = mset arr" unfolding exchange_def using assms len by (intro mset_swap) auto
  moreover have "\<exists>k. lo \<le> k \<and> k \<le> hi \<and> exchange arr a b ! nat i = arr0 ! nat k" if "lo \<le> i" "i \<le> hi" for i
  proof -
    define j where "j = (if i = b then a else if i = a then b else i)"
    have "lo \<le> j" "j \<le> hi" "exchange arr a b ! nat i = arr ! nat j"
      using nth[of i] that assms by (auto simp: j_def)
    then show ?thesis using p unfolding permuted_within_def by metis
  qed
  ultimately show ?thesis
    using p nth assms by (auto simp: permuted_within_def)
qed

lemma scans_spec:
  assumes rng: "0 \<le> lo" "hi < int (length arr)" "lo \<le> left" "right \<le> hi" "left \<le> right"
    and sp: "split_at arr pivot lo hi left right" and cu: "cursors_ok arr pivot lo hi left right"
    and l: "l = scan_left arr pivot left" and r: "r = scan_right arr pivot right"
  shows "left \<le> l" "l \<le> hi" "pivot \<le> arr ! nat l" "\<forall>i. left \<le> i \<and> i < l \<longrightarrow> arr ! nat i < pivot"
    "lo \<le> r" "r \<le> right" "arr ! nat r \<le> pivot" "\<forall>i. r < i \<and> i \<le> right \<longrightarrow> pivot < arr ! nat i"
    "l \<le> r \<or> (lo < left \<and> right < hi)"
proof -
  obtain m1 m2 where m: "left \<le> m1" "m1 \<le> hi" "pivot \<le> arr ! nat m1" "lo \<le> m2" "m2 \<le> right" "arr ! nat m2 \<le> pivot"
    "m1 = m2 \<or> (lo < left \<and> right < hi)"
  proof (cases "lo < left \<and> right < hi")
    case True
    then have "pivot \<le> arr ! nat (right + 1)" "arr ! nat (left - 1) \<le> pivot" using sp by (auto simp: split_at_def)
    then show ?thesis using that[of "right + 1" "left - 1"] True rng by auto
  next
    case False
    then obtain m where "left = lo" "right = hi" "lo \<le> m" "m \<le> hi" "arr ! nat m = pivot"
      using cu by (auto simp: cursors_ok_def)
    then show ?thesis using that[of m m] by auto
  qed
  have sl: "l \<le> m1 \<and> pivot \<le> arr ! nat l \<and> (\<forall>i. left \<le> i \<and> i < l \<longrightarrow> arr ! nat i < pivot)"
    unfolding l by (rule scan_left_spec) (use m rng in auto)
  have sr: "m2 \<le> r \<and> arr ! nat r \<le> pivot \<and> (\<forall>i. r < i \<and> i \<le> right \<longrightarrow> pivot < arr ! nat i)"
    unfolding r by (rule scan_right_spec) (use m rng in auto)
  show "left \<le> l" unfolding l by (rule scan_left_ge)
  show "r \<le> right" unfolding r by (rule scan_right_le)
  show "l \<le> hi" "pivot \<le> arr ! nat l" "\<forall>i. left \<le> i \<and> i < l \<longrightarrow> arr ! nat i < pivot"
    "lo \<le> r" "arr ! nat r \<le> pivot" "\<forall>i. r < i \<and> i \<le> right \<longrightarrow> pivot < arr ! nat i"
    "l \<le> r \<or> (lo < left \<and> right < hi)"
    using sl sr m by auto
qed

lemma split_exchange:
  assumes rng: "0 \<le> lo" "hi < int (length arr)" "lo \<le> left" "right \<le> hi" and lr: "left \<le> l" "l \<le> r" "r \<le> right"
    and sp: "split_at arr pivot lo hi left right"
    and v: "pivot \<le> arr ! nat l" "arr ! nat r \<le> pivot"
      "\<forall>i. left \<le> i \<and> i < l \<longrightarrow> arr ! nat i < pivot" "\<forall>i. r < i \<and> i \<le> right \<longrightarrow> pivot < arr ! nat i"
  shows "split_at (exchange arr l r) pivot lo hi (l + 1) (r - 1)"
proof -
  have nth: "exchange arr l r ! nat i = (if i = r then arr ! nat l else if i = l then arr ! nat r else arr ! nat i)"
    if "lo \<le> i" "i \<le> hi" for i
    using that rng lr by (intro exchange_nth) auto
  have "exchange arr l r ! nat i \<le> pivot" if i: "lo \<le> i" "i < l + 1" for i
  proof -
    consider "i < left" | "left \<le> i" "i < l" | "i = l" using i by linarith
    then show ?thesis
    proof cases
      case 3
      then show ?thesis using nth[of i] i v lr rng by auto
    qed (use nth[of i] i lr rng sp v(3) in \<open>auto simp: split_at_def less_imp_le\<close>)
  qed
  moreover have "pivot \<le> exchange arr l r ! nat i" if i: "r - 1 < i" "i \<le> hi" for i
  proof -
    consider "right < i" | "r < i" "i \<le> right" | "i = r" using i by linarith
    then show ?thesis
    proof cases
      case 3
      then show ?thesis using nth[of i] i v lr rng by auto
    qed (use nth[of i] i lr rng sp v(4) in \<open>auto simp: split_at_def less_imp_le\<close>)
  qed
  ultimately show ?thesis by (simp add: split_at_def)
qed

lemma partition_loop_spec:
  assumes "permuted_within arr0 arr lo hi" "0 \<le> lo" "hi < int (length arr0)" "lo \<le> left" "right \<le> hi"
    "split_at arr pivot lo hi left right" "cursors_ok arr pivot lo hi left right" "lo \<le> hi"
    and "partition_loop arr pivot left right = (arr', l', r')"
  shows "permuted_within arr0 arr' lo hi \<and> split_at arr' pivot lo hi l' r' \<and> lo < l' \<and> r' < hi \<and> r' < l'"
  using assms
proof (induction arr pivot left right rule: partition_loop.induct)
  case (1 arr pivot left right)
  have len: "length arr = length arr0" by (rule permuted_length[OF 1(2)])
  show ?case
  proof (cases "left \<le> right")
    case False
    then show ?thesis using 1 by (auto simp: partition_loop.simps[of arr] cursors_ok_def)
  next
    case True
    define l r where l: "l = scan_left arr pivot left" and r: "r = scan_right arr pivot right"
    note sc = scans_spec[OF 1(3) 1(4)[folded len] 1(5,6) True 1(7,8) l r]
    show ?thesis
    proof (cases "l \<le> r")
      case lr: True
      have "partition_loop (exchange arr l r) pivot (l + 1) (r - 1) = (arr', l', r')"
        using 1(10) True lr by (simp add: partition_loop.simps[of arr] l r Let_def)
      moreover have "permuted_within arr0 (exchange arr l r) lo hi"
        using 1 sc lr by (intro permuted_exchange) auto
      moreover have "split_at (exchange arr l r) pivot lo hi (l + 1) (r - 1)"
        using 1(3-7) len sc lr by (intro split_exchange[of lo hi arr left right]) auto
      moreover have "cursors_ok (exchange arr l r) pivot lo hi (l + 1) (r - 1)"
        using sc lr 1(5,6) by (auto simp: cursors_ok_def)
      ultimately show ?thesis
        using 1(1)[OF True l r lr] 1(3-6,9) sc by auto
    next
      case False
      then have "arr' = arr" "l' = l" "r' = r" using 1(10) True by (auto simp: partition_loop.simps[of arr] l r Let_def)
      moreover have "split_at arr pivot lo hi l r"
        unfolding split_at_def
        by (metis 1(7) split_at_def less_imp_le not_less sc(4,8))
      ultimately show ?thesis using 1(2) sc False by auto
    qed
  qed
qed

text \<open>The invariant of the selection: the positions below \<open>lo\<close> and above \<open>hi\<close> are on their side of all others.\<close>

definition selecting :: "'a::linorder list \<Rightarrow> 'a list \<Rightarrow> int \<Rightarrow> int \<Rightarrow> bool" where
  "selecting arr0 arr lo hi \<longleftrightarrow> mset arr = mset arr0 \<and>
     (\<forall>i j. 0 \<le> i \<and> i < lo \<and> lo \<le> j \<and> j < int (length arr) \<longrightarrow> arr ! nat i \<le> arr ! nat j) \<and>
     (\<forall>i j. 0 \<le> i \<and> i \<le> hi \<and> hi < j \<and> j < int (length arr) \<longrightarrow> arr ! nat i \<le> arr ! nat j)"

definition selected :: "'a::linorder list \<Rightarrow> int \<Rightarrow> bool" where
  "selected arr k \<longleftrightarrow> (\<forall>i. 0 \<le> i \<and> i < k \<longrightarrow> arr ! nat i \<le> arr ! nat k) \<and>
     (\<forall>i. k < i \<and> i < int (length arr) \<longrightarrow> arr ! nat k \<le> arr ! nat i)"

lemma selecting_partition:
  assumes s: "selecting arr0 arr lo hi" and rng: "0 \<le> lo" "lo \<le> hi" "hi < int (length arr)"
    and p: "permuted_within arr arr' lo hi" and sp: "split_at arr' pivot lo hi l r" and lr: "lo < l" "r < hi" "r < l"
  shows "r \<ge> lo \<Longrightarrow> selecting arr0 arr' lo r" "l \<le> hi \<Longrightarrow> selecting arr0 arr' l hi"
    "r < k \<Longrightarrow> k < l \<Longrightarrow> lo \<le> k \<Longrightarrow> k \<le> hi \<Longrightarrow> selected arr' k"
proof -
  have len: "length arr' = length arr" by (rule permuted_length[OF p])
  have ms: "mset arr' = mset arr0" using s p by (simp add: selecting_def permuted_within_def)
  have inside: "\<exists>k. lo \<le> k \<and> k \<le> hi \<and> arr' ! nat i = arr ! nat k" if "lo \<le> i" "i \<le> hi" for i
    using p that by (simp add: permuted_within_def)
  have out: "arr' ! nat i = arr ! nat i" if "0 \<le> i \<and> i < lo \<or> hi < i \<and> i < int (length arr)" for i
    using p that by (auto simp: permuted_within_def)
  have below: "arr' ! nat i \<le> arr' ! nat j" if ij: "0 \<le> i" "i < lo" "lo \<le> j" "j < int (length arr)" for i j
  proof (cases "j \<le> hi")
    case True
    then obtain k where k: "lo \<le> k" "k \<le> hi" "arr' ! nat j = arr ! nat k" using inside ij by blast
    have "arr ! nat i \<le> arr ! nat k" using s ij k rng by (auto simp: selecting_def)
    then show ?thesis using out[of i] ij k by simp
  next
    case False
    have "arr ! nat i \<le> arr ! nat j" using s ij by (auto simp: selecting_def)
    then show ?thesis using out[of i] out[of j] ij False by simp
  qed
  have above: "arr' ! nat i \<le> arr' ! nat j" if ij: "0 \<le> i" "i \<le> hi" "hi < j" "j < int (length arr)" for i j
  proof (cases "lo \<le> i")
    case True
    then obtain k where k: "lo \<le> k" "k \<le> hi" "arr' ! nat i = arr ! nat k" using inside ij by blast
    have "arr ! nat k \<le> arr ! nat j" using s ij k rng by (auto simp: selecting_def)
    then show ?thesis using out[of j] ij k by simp
  next
    case False
    then show ?thesis using below[of i j] ij rng by simp
  qed
  have low: "arr' ! nat i \<le> pivot" if "lo \<le> i" "i < l" for i using sp that by (simp add: split_at_def)
  have high: "pivot \<le> arr' ! nat i" if "r < i" "i \<le> hi" for i using sp that by (simp add: split_at_def)
  have cross: "arr' ! nat i \<le> arr' ! nat j" if ij: "0 \<le> i" "i < l" "i \<le> hi" "r < j" "lo \<le> j" "j < int (length arr)" for i j
  proof -
    consider "i < lo" | "hi < j" | "lo \<le> i" "j \<le> hi" by linarith
    then show ?thesis
    proof cases
      case 3
      then show ?thesis using low[of i] high[of j] ij by (meson order.trans)
    qed (use below[of i j] above[of i j] ij in auto)
  qed
  show "selecting arr0 arr' lo r" if "r \<ge> lo"
    unfolding selecting_def using ms below cross that lr len by auto
  show "selecting arr0 arr' l hi" if "l \<le> hi"
    unfolding selecting_def using ms above cross that lr len rng by auto
  show "selected arr' k" if "r < k" "k < l" "lo \<le> k" "k \<le> hi"
    unfolding selected_def using cross[of _ k] cross[of k] that len rng by auto
qed

lemma quickselect_correct:
  assumes "selecting arr0 arr lo hi" "0 \<le> lo" "lo \<le> rank" "rank \<le> hi" "hi < int (length arr)"
    and "nat (hi - lo) \<le> fuel"
  shows "\<exists>arr'. quickselect fuel arr rank lo hi = Some arr' \<and> mset arr' = mset arr0 \<and> selected arr' rank"
  using assms
proof (induction fuel arr rank lo hi rule: quickselect.induct)
  case (1 fuel arr rank lo hi)
  show ?case
  proof (cases "lo < hi")
    case False
    then have "lo = rank" "hi = rank" using 1 by auto
    then show ?thesis using 1(3-7) by (auto simp: quickselect.simps[of fuel] selecting_def selected_def)
  next
    case lt: True
    define mid where "mid = (lo + hi) div 2"
    define pivot where "pivot = arr ! nat mid"
    have mid: "lo \<le> mid" "mid \<le> hi" using lt by (auto simp: mid_def)
    then have at: "arr_at arr mid = Some pivot" using 1 by (simp add: arr_at_def pivot_def)
    obtain n where n: "fuel = Suc n" using 1(8) lt by (cases fuel) auto
    obtain arr' l r where pl: "partition_loop arr pivot lo hi = (arr', l, r)" by (cases "partition_loop arr pivot lo hi")
    have "permuted_within arr arr' lo hi \<and> split_at arr' pivot lo hi l r \<and> lo < l \<and> r < hi \<and> r < l"
      using pl 1 mid lt
      by (intro partition_loop_spec[of arr arr lo hi lo hi pivot])
        (auto simp: permuted_refl split_at_def cursors_ok_def pivot_def)
    then have p: "permuted_within arr arr' lo hi" "split_at arr' pivot lo hi l r" "lo < l" "r < hi" "r < l" by auto
    note sel = selecting_partition[OF 1(3,4) _ 1(7) p]
    have len: "length arr' = length arr" by (rule permuted_length[OF p(1)])
    have q: "quickselect fuel arr rank lo hi =
      (if rank \<le> r then quickselect n arr' rank lo r else if rank \<ge> l then quickselect n arr' rank l hi else Some arr')"
      using lt n at pl by (simp add: quickselect.simps[of "Suc n" arr] mid_def)
    have eqs: "(fuel, arr_at arr ((lo + hi) div 2)) = (Suc n, Some pivot)" using n at by (simp add: mid_def)
    consider "rank \<le> r" | "l \<le> rank" "\<not> rank \<le> r" | "r < rank" "rank < l" by linarith
    then show ?thesis
    proof cases
      case a: 1
      have "\<exists>a'. quickselect n arr' rank lo r = Some a' \<and> mset a' = mset arr0 \<and> selected a' rank"
        using 1(3-8) a p lt n len sel(1)
        by (intro 1(1)[OF lt eqs[symmetric] refl refl pl[symmetric] refl refl a]) auto
      then show ?thesis using q a by simp
    next
      case a: 2
      have "\<exists>a'. quickselect n arr' rank l hi = Some a' \<and> mset a' = mset arr0 \<and> selected a' rank"
        using 1(3-8) a p lt n len sel(2)
        by (intro 1(2)[OF lt eqs[symmetric] refl refl pl[symmetric] refl refl a(2,1)]) auto
      then show ?thesis using q a by simp
    next
      case a: 3
      then show ?thesis using q sel(3)[of rank] 1 p lt by (auto simp: selecting_def permuted_within_def)
    qed
  qed
qed

lemma selected_sort:
  assumes "0 \<le> k" "k < int (length arr)" "selected arr k"
  shows "sort arr ! nat k = arr ! nat k"
proof -
  define n where "n = nat k"
  have n: "n < length arr" using assms by (simp add: n_def)
  have lo: "\<And>x. x \<in> set (take n arr) \<Longrightarrow> x \<le> arr ! n"
    using assms unfolding selected_def n_def in_set_conv_nth by (metis length_take min_less_iff_conj nat_int nth_take of_nat_0_le_iff zless_nat_conj nat_less_iff)
  have hi: "\<And>x. x \<in> set (drop (Suc n) arr) \<Longrightarrow> arr ! n \<le> x"
  proof -
    fix x assume "x \<in> set (drop (Suc n) arr)"
    then obtain j where j: "j < length (drop (Suc n) arr)" "x = drop (Suc n) arr ! j" unfolding in_set_conv_nth by auto
    have "arr ! nat k \<le> arr ! nat (int (Suc n + j))"
      using assms j unfolding selected_def n_def by (elim conjE allE[of _ "int (Suc (nat k) + j)"]) auto
    then have "arr ! n \<le> arr ! (Suc n + j)" by (simp only: nat_int n_def)
    then show "arr ! n \<le> x" using j n by simp
  qed
  have "sort arr = sort (take n arr) @ arr ! n # sort (drop (Suc n) arr)"
  proof (rule properties_for_sort[symmetric, THEN sym])
    show "mset (sort (take n arr) @ arr ! n # sort (drop (Suc n) arr)) = mset arr"
      using id_take_nth_drop[OF n] by (metis mset.simps(2) mset_append mset_sort)
    show "sorted (sort (take n arr) @ arr ! n # sort (drop (Suc n) arr))"
      using lo hi by (auto simp: sorted_append)  (meson lo hi order.trans)
  qed
  then show ?thesis using n by (simp add: n_def nth_append)
qed

lemma percentile_eq_sort:
  assumes "vals \<noteq> []"
  shows "percentile vals scaled = Some (sort vals ! nat (percentile_rank scaled (int (length vals))))"
proof -
  define rank where "rank = percentile_rank scaled (int (length vals))"
  have len: "0 < length vals" using assms by simp
  then have rank: "0 \<le> rank" "rank \<le> int (length vals) - 1" by (auto simp: rank_def percentile_rank_def)
  have "selecting vals vals 0 (int (length vals) - 1)" by (auto simp: selecting_def)
  from quickselect_correct[OF this, of rank "length vals"] rank len
  obtain arr where arr: "quickselect (length vals) vals rank 0 (int (length vals) - 1) = Some arr"
    "mset arr = mset vals" "selected arr rank" by (auto simp: nat_le_iff)
  have l: "length arr = length vals" using arr(2) by (metis size_mset)
  have "sort arr = sort vals" using arr(2) by (metis mset_sort properties_for_sort sorted_sort)
  then have "arr ! nat rank = sort vals ! nat rank"
    using selected_sort[of rank arr] arr rank l by simp
  then show ?thesis
    using assms arr(1) rank l by (simp add: percentile_def Let_def rank_def[symmetric] arr_at_def)
qed

section \<open>Properties\<close>

text \<open>C31: The quickselect of \<^verbatim>\<open>percentile\<close> always ends, with as many rounds of partitioning as there are values
  at most, and returns the value at the clamped rank of the sorted values; no value gives 0.\<close>

theorem percentile_is_order_statistic:
  "percentile vals scaled =
     Some (if vals = [] then 0
           else sort vals ! nat (min (int (length vals) - 1) (max 0 (scaled - 1))))"
  using percentile_eq_sort[of vals scaled] by (auto simp: percentile_rank_def percentile_def)

text \<open>After any pushes the ring returns the last samples, as many as its capacity, oldest first, so what a
  percentile is taken over is exactly the window of the most recent latencies.\<close>

theorem latency_ring_keeps_last:
  assumes "0 < n"
  shows "latencyRingBufferValues (fold pushLatencyRingBuffer vs (createLatencyRingBuffer n)) =
    drop (length vs - n) vs"
  using ring_holds_values[OF ring_holds_fold[OF assms] assms] by (simp add: last_n_def)

theorem latency_ring_keeps_last_witness:
  "latencyRingBufferValues (fold pushLatencyRingBuffer [5, 1, 4, 2 :: int] (createLatencyRingBuffer 3)) = [1, 4, 2]"
  using latency_ring_keeps_last[of 3 "[5, 1, 4, 2 :: int]"] by simp

end
