(* ===== verification/Agent_Inbound_Sequencer.thy ===== *)
theory Agent_Inbound_Sequencer
  imports Latency_Stats
begin

text \<open>
  \<^verbatim>\<open>relay/agent_inbound_sequencer.ts\<close>: frames of an agent socket are decoded concurrently and committed in
  the order they arrived. Each socket has a state with a generation; a frame takes a ticket when it
  arrives, waits for its turn after decoding, and completes the turn after committing.

  The second half is \<^verbatim>\<open>runSequencedInbound\<close> of \<^verbatim>\<open>relay/rpc_bridge_agent_inbound.ts\<close>, the only client: the
  life of a frame as steps that interleave freely with those of other frames and with disconnects.
  A promise is a number; what resolving it does to the frame that awaits it is \<open>resolve_frames\<close>.
\<close>

record inbound_waiter =
  iw_promise :: nat
  iw_startedWait :: int

record socket_sequencer =
  ss_generation :: nat
  nextAdmitSeq :: nat
  nextCommitSeq :: nat
  ss_waiters :: "(nat, inbound_waiter) jsmap"
  pendingBySeq :: "(nat, int) jsmap"

record ticket =
  tk_socketId :: string
  tk_seq :: nat
  tk_generation :: nat

record sequencer =
  stateBySocketId :: "(string, socket_sequencer) jsmap"
  nextGeneration :: nat
  waitMsSum :: int
  waitMsCount :: int
  waitMsMax :: int
  waitRing :: "int ring"
  outOfOrderPreventedTotal :: int
  chunkWithoutRouteTotal :: int
  sq_nextPromise :: nat

datatype turn = TurnLive | TurnStale | TurnWait nat

section \<open>Operations\<close>

definition new_sequencer :: sequencer where
  "new_sequencer = \<lparr>stateBySocketId = [], nextGeneration = 0, waitMsSum = 0, waitMsCount = 0, waitMsMax = 0,
     waitRing = createLatencyRingBuffer 256, outOfOrderPreventedTotal = 0, chunkWithoutRouteTotal = 0,
     sq_nextPromise = 0\<rparr>"

definition put_socket :: "string \<Rightarrow> socket_sequencer \<Rightarrow> sequencer \<Rightarrow> sequencer" where
  "put_socket socketId ss sq = sq\<lparr>stateBySocketId := jm_set socketId ss (stateBySocketId sq)\<rparr>"

definition getOrCreateState :: "string \<Rightarrow> sequencer \<Rightarrow> socket_sequencer \<times> sequencer" where
  "getOrCreateState socketId sq =
     (case jm_get (stateBySocketId sq) socketId of
        Some existing \<Rightarrow> (existing, sq)
      | None \<Rightarrow>
          (let created = \<lparr>ss_generation = Suc (nextGeneration sq), nextAdmitSeq = 0, nextCommitSeq = 0,
                          ss_waiters = [], pendingBySeq = []\<rparr>
           in (created, put_socket socketId created (sq\<lparr>nextGeneration := Suc (nextGeneration sq)\<rparr>))))"

definition pruneIfIdle :: "string \<Rightarrow> socket_sequencer \<Rightarrow> sequencer \<Rightarrow> sequencer" where
  "pruneIfIdle socketId ss sq =
     (if jm_size (pendingBySeq ss) > 0 \<or> jm_size (ss_waiters ss) > 0 then sq
      else if nextAdmitSeq ss = nextCommitSeq ss
      then sq\<lparr>stateBySocketId := jm_del socketId (stateBySocketId sq)\<rparr>
      else sq)"

definition admitAgentInboundFrameSeq :: "int \<Rightarrow> string \<Rightarrow> sequencer \<Rightarrow> ticket \<times> sequencer" where
  "admitAgentInboundFrameSeq now socketId sq =
     (let (ss, sq1) = getOrCreateState socketId sq; seq = nextAdmitSeq ss
      in (\<lparr>tk_socketId = socketId, tk_seq = seq, tk_generation = ss_generation ss\<rparr>,
          put_socket socketId
            (ss\<lparr>nextAdmitSeq := Suc seq, pendingBySeq := jm_set seq now (pendingBySeq ss)\<rparr>) sq1))"

definition observeWaitMs :: "int \<Rightarrow> sequencer \<Rightarrow> sequencer" where
  "observeWaitMs waitedMs sq =
     (let bounded = max 0 waitedMs
      in sq\<lparr>waitMsSum := waitMsSum sq + bounded, waitMsCount := waitMsCount sq + 1,
            waitMsMax := max (waitMsMax sq) bounded, waitRing := pushLatencyRingBuffer bounded (waitRing sq)\<rparr>)"

definition waitAgentInboundCommitTurn :: "int \<Rightarrow> ticket \<Rightarrow> sequencer \<Rightarrow> turn \<times> sequencer" where
  "waitAgentInboundCommitTurn now t sq =
     (case jm_get (stateBySocketId sq) (tk_socketId t) of
        None \<Rightarrow> (TurnStale, sq)
      | Some ss \<Rightarrow>
          if ss_generation ss \<noteq> tk_generation t then (TurnStale, sq)
          else if tk_seq t < nextCommitSeq ss then (TurnStale, sq)
          else if tk_seq t = nextCommitSeq ss then (TurnLive, observeWaitMs 0 sq)
          else let p = sq_nextPromise sq
               in (TurnWait p,
                   put_socket (tk_socketId t)
                     (ss\<lparr>ss_waiters := jm_set (tk_seq t) \<lparr>iw_promise = p, iw_startedWait = now\<rparr> (ss_waiters ss)\<rparr>)
                     (sq\<lparr>outOfOrderPreventedTotal := outOfOrderPreventedTotal sq + 1, sq_nextPromise := Suc p\<rparr>)))"

definition isAgentInboundTicketCurrent :: "ticket \<Rightarrow> sequencer \<Rightarrow> bool" where
  "isAgentInboundTicketCurrent t sq \<longleftrightarrow>
     (case jm_get (stateBySocketId sq) (tk_socketId t) of
        None \<Rightarrow> False | Some ss \<Rightarrow> ss_generation ss = tk_generation t)"

text \<open>The promises resolved by an operation, each with the verdict it is resolved with.\<close>

definition completeAgentInboundCommitTurn :: "int \<Rightarrow> ticket \<Rightarrow> sequencer \<Rightarrow> (nat \<times> bool) list \<times> sequencer" where
  "completeAgentInboundCommitTurn now t sq =
     (case jm_get (stateBySocketId sq) (tk_socketId t) of
        None \<Rightarrow> ([], sq)
      | Some ss \<Rightarrow>
          if ss_generation ss \<noteq> tk_generation t then ([], sq)
          else if tk_seq t \<noteq> nextCommitSeq ss then ([], sq)
          else let ss1 = ss\<lparr>pendingBySeq := jm_del (tk_seq t) (pendingBySeq ss), nextCommitSeq := Suc (nextCommitSeq ss)\<rparr>
               in case jm_get (ss_waiters ss1) (nextCommitSeq ss1) of
                    Some w \<Rightarrow>
                      (let ss2 = ss1\<lparr>ss_waiters := jm_del (nextCommitSeq ss1) (ss_waiters ss1)\<rparr>
                       in ([(iw_promise w, True)],
                           pruneIfIdle (tk_socketId t) ss2
                             (observeWaitMs (now - iw_startedWait w) (put_socket (tk_socketId t) ss2 sq))))
                  | None \<Rightarrow> ([], pruneIfIdle (tk_socketId t) ss1 (put_socket (tk_socketId t) ss1 sq)))"

definition noteAgentInboundChunkWithoutRoute :: "sequencer \<Rightarrow> sequencer" where
  "noteAgentInboundChunkWithoutRoute sq = sq\<lparr>chunkWithoutRouteTotal := chunkWithoutRouteTotal sq + 1\<rparr>"

definition cleanupAgentInboundSequencerSocket :: "int \<Rightarrow> string \<Rightarrow> sequencer \<Rightarrow> (nat \<times> bool) list \<times> sequencer" where
  "cleanupAgentInboundSequencerSocket now socketId sq =
     (case jm_get (stateBySocketId sq) socketId of
        None \<Rightarrow> ([], sq)
      | Some ss \<Rightarrow>
          (map (\<lambda>(_, w). (iw_promise w, False)) (ss_waiters ss),
           fold (\<lambda>(_, w). observeWaitMs (now - iw_startedWait w)) (ss_waiters ss)
             (sq\<lparr>stateBySocketId := jm_del socketId (stateBySocketId sq)\<rparr>)))"

definition sequencer_pendingJobs :: "sequencer \<Rightarrow> int" where
  "sequencer_pendingJobs sq = jm_sum (\<lambda>ss. jm_size (pendingBySeq ss)) (stateBySocketId sq)"

definition sequencer_oldestPendingAgeMs :: "int \<Rightarrow> sequencer \<Rightarrow> int" where
  "sequencer_oldestPendingAgeMs now sq =
     (case concat (map (\<lambda>(_, ss). map snd (pendingBySeq ss)) (stateBySocketId sq)) of
        [] \<Rightarrow> 0
      | a # as \<Rightarrow> max 0 (now - fold min as a))"

fun cleanup_all :: "int \<Rightarrow> string list \<Rightarrow> sequencer \<Rightarrow> (nat \<times> bool) list \<times> sequencer" where
  "cleanup_all now [] sq = ([], sq)"
| "cleanup_all now (s # ss) sq =
     (let (r1, sq1) = cleanupAgentInboundSequencerSocket now s sq; (r2, sq2) = cleanup_all now ss sq1
      in (r1 @ r2, sq2))"

definition resetAgentInboundSequencerForTests :: "int \<Rightarrow> sequencer \<Rightarrow> (nat \<times> bool) list \<times> sequencer" where
  "resetAgentInboundSequencerForTests now sq =
     (let (r, sq1) = cleanup_all now (map fst (stateBySocketId sq)) sq
      in (r, sq1\<lparr>waitMsSum := 0, waitMsCount := 0, waitMsMax := 0, waitRing := createLatencyRingBuffer 256,
                 outOfOrderPreventedTotal := 0, chunkWithoutRouteTotal := 0\<rparr>))"

definition getAgentInboundSequencerTrackedSocketCount :: "sequencer \<Rightarrow> int" where
  "getAgentInboundSequencerTrackedSocketCount sq = jm_size (stateBySocketId sq)"

section \<open>The life of a frame\<close>

text \<open>
  A frame is decoding, awaits its turn on a promise, has its turn, is committing, or is done. The log
  records the frames whose commit was started, in order.
\<close>

datatype frame_phase = Decoding | Waiting nat | HasTurn | Committing | Finished

record inbound =
  ib_seq :: sequencer
  ib_frames :: "(ticket, frame_phase) jsmap"
  ib_log :: "ticket list"

definition new_inbound :: inbound where
  "new_inbound = \<lparr>ib_seq = new_sequencer, ib_frames = [], ib_log = []\<rparr>"

definition resolve_phase :: "(nat \<times> bool) list \<Rightarrow> frame_phase \<Rightarrow> frame_phase" where
  "resolve_phase res ph =
     (case ph of
        Waiting p \<Rightarrow> (case map_of res p of None \<Rightarrow> ph | Some live \<Rightarrow> if live then HasTurn else Finished)
      | _ \<Rightarrow> ph)"

definition resolve_frames :: "(nat \<times> bool) list \<Rightarrow> (ticket, frame_phase) jsmap \<Rightarrow> (ticket, frame_phase) jsmap" where
  "resolve_frames res fs = map (\<lambda>(t, ph). (t, resolve_phase res ph)) fs"

definition frame_arrives :: "int \<Rightarrow> string \<Rightarrow> inbound \<Rightarrow> inbound" where
  "frame_arrives now socketId ib =
     (let (t, sq) = admitAgentInboundFrameSeq now socketId (ib_seq ib)
      in ib\<lparr>ib_seq := sq, ib_frames := jm_set t Decoding (ib_frames ib)\<rparr>)"

text \<open>Decoding ends (with a commit, without one, or with a failure turned into one): the frame asks for its turn.
  A stale frame is finished at once.\<close>

definition frame_decoded :: "int \<Rightarrow> ticket \<Rightarrow> inbound \<Rightarrow> inbound" where
  "frame_decoded now t ib =
     (if jm_get (ib_frames ib) t \<noteq> Some Decoding then ib
      else let (tn, sq) = waitAgentInboundCommitTurn now t (ib_seq ib)
           in ib\<lparr>ib_seq := sq,
                 ib_frames := jm_set t (case tn of TurnLive \<Rightarrow> HasTurn | TurnStale \<Rightarrow> Finished | TurnWait p \<Rightarrow> Waiting p)
                   (ib_frames ib)\<rparr>)"

definition frame_commits :: "bool \<Rightarrow> ticket \<Rightarrow> inbound \<Rightarrow> inbound" where
  "frame_commits hasCommit t ib =
     (if jm_get (ib_frames ib) t \<noteq> Some HasTurn then ib
      else ib\<lparr>ib_frames := jm_set t Committing (ib_frames ib),
              ib_log := (if hasCommit \<and> isAgentInboundTicketCurrent t (ib_seq ib) then ib_log ib @ [t] else ib_log ib)\<rparr>)"

definition frame_finishes :: "int \<Rightarrow> ticket \<Rightarrow> inbound \<Rightarrow> inbound" where
  "frame_finishes now t ib =
     (if jm_get (ib_frames ib) t \<noteq> Some Committing then ib
      else let (res, sq) = completeAgentInboundCommitTurn now t (ib_seq ib)
           in ib\<lparr>ib_seq := sq, ib_frames := resolve_frames res (jm_set t Finished (ib_frames ib))\<rparr>)"

definition socket_disconnects :: "int \<Rightarrow> string \<Rightarrow> inbound \<Rightarrow> inbound" where
  "socket_disconnects now socketId ib =
     (let (res, sq) = cleanupAgentInboundSequencerSocket now socketId (ib_seq ib)
      in ib\<lparr>ib_seq := sq, ib_frames := resolve_frames res (ib_frames ib)\<rparr>)"

inductive inbound_step :: "inbound \<Rightarrow> inbound \<Rightarrow> bool" where
  ib_arrives: "inbound_step ib (frame_arrives now s ib)"
| ib_decoded: "inbound_step ib (frame_decoded now t ib)"
| ib_commits: "inbound_step ib (frame_commits c t ib)"
| ib_finishes: "inbound_step ib (frame_finishes now t ib)"
| ib_disconnects: "inbound_step ib (socket_disconnects now s ib)"

section \<open>The state of one socket\<close>

text \<open>
  A socket state against the phases of its frames, by sequence number: the numbers below the next commit are
  finished, those up to the next admission are not, only the next commit may have the turn, and
  the waiters are exactly the frames that wait.
\<close>

definition turn_phase :: "frame_phase option \<Rightarrow> bool" where
  "turn_phase ph \<longleftrightarrow> ph = Some HasTurn \<or> ph = Some Committing"

definition waiters_match :: "(nat \<Rightarrow> frame_phase option) \<Rightarrow> socket_sequencer \<Rightarrow> bool" where
  "waiters_match phs ss \<longleftrightarrow> (\<forall>q p. phs q = Some (Waiting p) \<longleftrightarrow> map_option iw_promise (jm_get (ss_waiters ss) q) = Some p)"

definition seq_ok :: "(nat \<Rightarrow> frame_phase option) \<Rightarrow> socket_sequencer \<Rightarrow> bool" where
  "seq_ok phs ss \<longleftrightarrow>
     nextCommitSeq ss \<le> nextAdmitSeq ss \<and> jm_wf (ss_waiters ss) \<and> jm_wf (pendingBySeq ss) \<and>
     (\<forall>q. phs q = None \<longleftrightarrow> nextAdmitSeq ss \<le> q) \<and>
     (\<forall>q. phs q = Some Finished \<longleftrightarrow> q < nextCommitSeq ss) \<and>
     (\<forall>q. turn_phase (phs q) \<longrightarrow> q = nextCommitSeq ss) \<and>
     (\<forall>q p. phs q = Some (Waiting p) \<longrightarrow> nextCommitSeq ss < q) \<and>
     (\<forall>q. jm_has (pendingBySeq ss) q \<longleftrightarrow> nextCommitSeq ss \<le> q \<and> q < nextAdmitSeq ss) \<and>
     waiters_match phs ss"

lemma seq_okD:
  assumes "seq_ok phs ss"
  shows "nextCommitSeq ss \<le> nextAdmitSeq ss" "jm_wf (ss_waiters ss)" "jm_wf (pendingBySeq ss)"
    "phs q = None \<longleftrightarrow> nextAdmitSeq ss \<le> q" "phs q = Some Finished \<longleftrightarrow> q < nextCommitSeq ss"
    "turn_phase (phs q) \<Longrightarrow> q = nextCommitSeq ss" "phs q = Some (Waiting p) \<Longrightarrow> nextCommitSeq ss < q"
    "jm_has (pendingBySeq ss) q \<longleftrightarrow> nextCommitSeq ss \<le> q \<and> q < nextAdmitSeq ss" "waiters_match phs ss"
  using assms unfolding seq_ok_def by blast+

lemma waiters_matchD:
  "waiters_match phs ss \<Longrightarrow> phs q = Some (Waiting p) \<longleftrightarrow> map_option iw_promise (jm_get (ss_waiters ss) q) = Some p"
  unfolding waiters_match_def by blast

lemma no_waiter:
  assumes "waiters_match phs ss" "\<And>p. phs q \<noteq> Some (Waiting p)"
  shows "jm_get (ss_waiters ss) q = None"
  using waiters_matchD[OF assms(1), of q] assms(2) by (cases "jm_get (ss_waiters ss) q") auto

lemma seq_ok_admit:
  assumes "seq_ok phs ss"
  shows "seq_ok (phs(nextAdmitSeq ss := Some Decoding))
    (ss\<lparr>nextAdmitSeq := Suc (nextAdmitSeq ss), pendingBySeq := jm_set (nextAdmitSeq ss) now (pendingBySeq ss)\<rparr>)"
proof -
  note d = seq_okD[OF assms]
  have none: "phs (nextAdmitSeq ss) = None" using d(4) by blast
  then have "jm_get (ss_waiters ss) (nextAdmitSeq ss) = None"
    by (intro no_waiter[OF d(9)]) simp
  then have "waiters_match (phs(nextAdmitSeq ss := Some Decoding))
    (ss\<lparr>nextAdmitSeq := Suc (nextAdmitSeq ss), pendingBySeq := jm_set (nextAdmitSeq ss) now (pendingBySeq ss)\<rparr>)"
    using d(9) by (simp add: waiters_match_def)
  then show ?thesis
    using d(1-8) by (auto simp: seq_ok_def turn_phase_def Suc_le_eq le_less)
qed

lemma seq_ok_turn:
  assumes "seq_ok phs ss" "phs (nextCommitSeq ss) = Some ph" "ph = Decoding \<or> ph = HasTurn"
    "ph' = HasTurn \<or> ph' = Committing"
  shows "seq_ok (phs(nextCommitSeq ss := Some ph')) ss"
proof -
  note d = seq_okD[OF assms(1)]
  have "waiters_match (phs(nextCommitSeq ss := Some ph')) ss"
    unfolding waiters_match_def
    using waiters_matchD[OF d(9)] no_waiter[OF d(9), of "nextCommitSeq ss"] assms(2-4) by auto
  moreover have "nextCommitSeq ss < nextAdmitSeq ss" using d(4)[of "nextCommitSeq ss"] assms(2) by auto
  ultimately show ?thesis
    using d(1-8) assms(2-4) by (auto simp: seq_ok_def turn_phase_def)
qed

lemma seq_ok_wait:
  assumes "seq_ok phs ss" "phs q = Some Decoding" "q \<noteq> nextCommitSeq ss"
  shows "seq_ok (phs(q := Some (Waiting p)))
    (ss\<lparr>ss_waiters := jm_set q \<lparr>iw_promise = p, iw_startedWait = now\<rparr> (ss_waiters ss)\<rparr>)"
proof -
  note d = seq_okD[OF assms(1)]
  have "nextCommitSeq ss < q" "\<not> nextAdmitSeq ss \<le> q" using d(4,5)[of q] assms(2,3) by auto
  moreover have "waiters_match (phs(q := Some (Waiting p)))
    (ss\<lparr>ss_waiters := jm_set q \<lparr>iw_promise = p, iw_startedWait = now\<rparr> (ss_waiters ss)\<rparr>)"
    unfolding waiters_match_def using waiters_matchD[OF d(9)] by auto
  ultimately show ?thesis
    using d(1-8) assms(2,3) by (auto simp: seq_ok_def turn_phase_def)
qed

text \<open>The state after the turn of the next commit is completed, and the frames' phases with it.\<close>

definition after_commit :: "socket_sequencer \<Rightarrow> socket_sequencer" where
  "after_commit ss =
     ss\<lparr>pendingBySeq := jm_del (nextCommitSeq ss) (pendingBySeq ss), nextCommitSeq := Suc (nextCommitSeq ss),
        ss_waiters := jm_del (Suc (nextCommitSeq ss)) (ss_waiters ss)\<rparr>"

lemma seq_ok_commit:
  assumes ok: "seq_ok phs ss" and c: "phs (nextCommitSeq ss) = Some Committing"
    and nx: "phs' = (\<lambda>q. if q = nextCommitSeq ss then Some Finished
       else if q = Suc (nextCommitSeq ss) \<and> jm_get (ss_waiters ss) q \<noteq> None then Some HasTurn else phs q)"
  shows "seq_ok phs' (after_commit ss)"
proof -
  note d = seq_okD[OF ok]
  have lt: "nextCommitSeq ss < nextAdmitSeq ss" using d(4)[of "nextCommitSeq ss"] c by auto
  have turn: "turn_phase (phs q) \<longleftrightarrow> q = nextCommitSeq ss" for q using d(6)[of q] c by (auto simp: turn_phase_def)
  have w: "phs q = Some (Waiting p) \<longleftrightarrow> map_option iw_promise (jm_get (ss_waiters ss) q) = Some p" for q p
    by (rule waiters_matchD[OF d(9)])
  have "waiters_match phs' (after_commit ss)"
    unfolding waiters_match_def nx after_commit_def using w c no_waiter[OF d(9), of "nextCommitSeq ss"] by auto
  moreover have "phs' q = None \<longleftrightarrow> nextAdmitSeq ss \<le> q" for q
  proof (cases "jm_get (ss_waiters ss) q")
    case None
    then show ?thesis using d(4)[of q] lt by (auto simp: nx)
  next
    case (Some x)
    then have "phs q \<noteq> None" using w[of q "iw_promise x"] by auto
    then show ?thesis using d(4)[of q] lt by (auto simp: nx)
  qed
  moreover have "phs' q = Some Finished \<longleftrightarrow> q < Suc (nextCommitSeq ss)" for q
    using d(5)[of q] by (auto simp: nx less_Suc_eq)
  moreover have "turn_phase (phs' q) \<Longrightarrow> q = Suc (nextCommitSeq ss)" for q
    using turn[of q] by (auto simp: nx turn_phase_def split: if_splits)
  moreover have "phs' q = Some (Waiting p) \<Longrightarrow> Suc (nextCommitSeq ss) < q" for q p
    using d(7)[of q p] w[of q p] by (auto simp: nx split: if_splits intro: Suc_lessI)
  ultimately show ?thesis
    unfolding seq_ok_def using d(2,3,8) lt by (auto simp: after_commit_def Suc_le_eq)
qed

section \<open>All sockets and all frames\<close>

definition phase_of :: "(ticket, frame_phase) jsmap \<Rightarrow> string \<Rightarrow> nat \<Rightarrow> nat \<Rightarrow> frame_phase option" where
  "phase_of fs s g q = jm_get fs \<lparr>tk_socketId = s, tk_seq = q, tk_generation = g\<rparr>"

lemma phase_of_ticket: "phase_of fs (tk_socketId t) (tk_generation t) (tk_seq t) = jm_get fs t" for t :: ticket
  by (cases t) (simp add: phase_of_def)

lemma phase_of_set:
  "phase_of (jm_set t ph fs) s g = (if tk_socketId t = s \<and> tk_generation t = g
     then (phase_of fs s g)(tk_seq t := Some ph) else phase_of fs s g)" for t :: ticket
  by (cases t) (auto simp: phase_of_def fun_eq_iff)

lemma phase_of_resolve: "phase_of (resolve_frames res fs) s g q = map_option (resolve_phase res) (phase_of fs s g q)"
  by (simp add: phase_of_def resolve_frames_def)

definition sockets_ok :: "sequencer \<Rightarrow> (ticket, frame_phase) jsmap \<Rightarrow> bool" where
  "sockets_ok sq fs \<longleftrightarrow> jm_wf (stateBySocketId sq) \<and>
     (\<forall>s ss. jm_get (stateBySocketId sq) s = Some ss \<longrightarrow>
        ss_generation ss \<le> nextGeneration sq \<and> seq_ok (phase_of fs s (ss_generation ss)) ss)"

definition waits_ok :: "sequencer \<Rightarrow> (ticket, frame_phase) jsmap \<Rightarrow> bool" where
  "waits_ok sq fs \<longleftrightarrow>
     (\<forall>t p. jm_get fs t = Some (Waiting p) \<longrightarrow> p < sq_nextPromise sq \<and> isAgentInboundTicketCurrent t sq) \<and>
     (\<forall>t t' p. jm_get fs t = Some (Waiting p) \<longrightarrow> jm_get fs t' = Some (Waiting p) \<longrightarrow> t = t')"

definition gens_ok :: "sequencer \<Rightarrow> (ticket, frame_phase) jsmap \<Rightarrow> bool" where
  "gens_ok sq fs \<longleftrightarrow> (\<forall>t ph. jm_get fs t = Some ph \<longrightarrow> tk_generation t \<le> nextGeneration sq)"

text \<open>What is logged is committing or finished, and each generation of a socket is logged in order.\<close>

definition log_ok :: "(ticket, frame_phase) jsmap \<Rightarrow> ticket list \<Rightarrow> bool" where
  "log_ok fs log \<longleftrightarrow> (\<forall>t\<in>set log. jm_get fs t = Some Committing \<or> jm_get fs t = Some Finished) \<and>
     (\<forall>s g. sorted_wrt (<) (map tk_seq (filter (\<lambda>t. tk_socketId t = s \<and> tk_generation t = g) log)))"

definition inbound_inv :: "inbound \<Rightarrow> bool" where
  "inbound_inv ib \<longleftrightarrow> sockets_ok (ib_seq ib) (ib_frames ib) \<and> waits_ok (ib_seq ib) (ib_frames ib) \<and>
     gens_ok (ib_seq ib) (ib_frames ib) \<and> log_ok (ib_frames ib) (ib_log ib)"

lemma sockets_okD:
  "sockets_ok sq fs \<Longrightarrow> jm_get (stateBySocketId sq) s = Some ss \<Longrightarrow>
     ss_generation ss \<le> nextGeneration sq \<and> seq_ok (phase_of fs s (ss_generation ss)) ss"
  unfolding sockets_ok_def by blast

lemma waits_okD:
  assumes "waits_ok sq fs" "jm_get fs t = Some (Waiting p)"
  shows "p < sq_nextPromise sq" "isAgentInboundTicketCurrent t sq" "jm_get fs t' = Some (Waiting p) \<Longrightarrow> t' = t"
  using assms unfolding waits_ok_def by blast+

lemma gens_okD: "gens_ok sq fs \<Longrightarrow> jm_get fs t = Some ph \<Longrightarrow> tk_generation t \<le> nextGeneration sq"
  unfolding gens_ok_def by blast

text \<open>Statistics do not matter.\<close>

lemma observe_fields [simp]:
  "stateBySocketId (observeWaitMs n sq) = stateBySocketId sq" "nextGeneration (observeWaitMs n sq) = nextGeneration sq"
  "sq_nextPromise (observeWaitMs n sq) = sq_nextPromise sq"
  by (simp_all add: observeWaitMs_def Let_def)

lemma observe_fold [simp]:
  "stateBySocketId (fold (\<lambda>(_, w). observeWaitMs (f w)) ws sq) = stateBySocketId sq"
  "nextGeneration (fold (\<lambda>(_, w). observeWaitMs (f w)) ws sq) = nextGeneration sq"
  "sq_nextPromise (fold (\<lambda>(_, w). observeWaitMs (f w)) ws sq) = sq_nextPromise sq"
  by (induction ws arbitrary: sq) auto

lemma put_fields [simp]:
  "stateBySocketId (put_socket s ss sq) = jm_set s ss (stateBySocketId sq)"
  "nextGeneration (put_socket s ss sq) = nextGeneration sq" "sq_nextPromise (put_socket s ss sq) = sq_nextPromise sq"
  by (simp_all add: put_socket_def)

lemma current_iff:
  "isAgentInboundTicketCurrent t sq \<longleftrightarrow>
     (\<exists>ss. jm_get (stateBySocketId sq) (tk_socketId t) = Some ss \<and> ss_generation ss = tk_generation t)"
  by (auto simp: isAgentInboundTicketCurrent_def split: option.splits)

text \<open>Rewriting one socket and one frame of it keeps the other sockets.\<close>

lemma sockets_ok_update:
  assumes ok: "sockets_ok sq fs" and g: "tk_socketId t = s" "tk_generation t = ss_generation ss"
    and st: "stateBySocketId sq' = jm_set s ss (stateBySocketId sq)" "nextGeneration sq \<le> nextGeneration sq'"
    and gen: "ss_generation ss \<le> nextGeneration sq'"
    and s: "seq_ok ((phase_of fs s (ss_generation ss))(tk_seq t := Some ph)) ss"
  shows "sockets_ok sq' (jm_set t ph fs)"
  unfolding sockets_ok_def
proof (intro conjI allI impI)
  show "jm_wf (stateBySocketId sq')" using ok st by (simp add: sockets_ok_def)
next
  fix s' ss' assume a: "jm_get (stateBySocketId sq') s' = Some ss'"
  show "ss_generation ss' \<le> nextGeneration sq'"
    using a st gen sockets_okD[OF ok, of s' ss'] by (auto split: if_splits)
  show "seq_ok (phase_of (jm_set t ph fs) s' (ss_generation ss')) ss'"
    using a st g s sockets_okD[OF ok, of s' ss'] by (auto simp: phase_of_set split: if_splits)
qed

lemma sockets_ok_frame:
  assumes ok: "sockets_ok sq fs" and nc: "\<not> isAgentInboundTicketCurrent t sq" and sq: "stateBySocketId sq' = stateBySocketId sq"
    "nextGeneration sq \<le> nextGeneration sq'"
  shows "sockets_ok sq' (jm_set t ph fs)"
  unfolding sockets_ok_def
proof (intro conjI allI impI)
  show "jm_wf (stateBySocketId sq')" using ok sq by (simp add: sockets_ok_def)
next
  fix s' ss' assume a: "jm_get (stateBySocketId sq') s' = Some ss'"
  show "ss_generation ss' \<le> nextGeneration sq'" using a sq sockets_okD[OF ok, of s' ss'] by auto
  show "seq_ok (phase_of (jm_set t ph fs) s' (ss_generation ss')) ss'"
    using a sq nc sockets_okD[OF ok, of s' ss'] by (auto simp: phase_of_set current_iff)
qed

lemma waits_ok_sub:
  assumes ok: "waits_ok sq fs" and pr: "sq_nextPromise sq \<le> sq_nextPromise sq'"
    and sub: "\<And>x p. jm_get fs' x = Some (Waiting p) \<Longrightarrow> jm_get fs x = Some (Waiting p)"
    and cur: "\<And>x p. jm_get fs' x = Some (Waiting p) \<Longrightarrow> isAgentInboundTicketCurrent x sq'"
  shows "waits_ok sq' fs'"
  unfolding waits_ok_def using waits_okD[OF ok] sub cur pr by (meson order_less_le_trans)

lemma waits_ok_set:
  assumes ok: "waits_ok sq fs" and ph: "\<And>p. ph \<noteq> Waiting p" and pr: "sq_nextPromise sq \<le> sq_nextPromise sq'"
    and cur: "\<And>t'. t' \<noteq> t \<Longrightarrow> isAgentInboundTicketCurrent t' sq \<Longrightarrow> isAgentInboundTicketCurrent t' sq'"
  shows "waits_ok sq' (jm_set t ph fs)"
proof -
  have w: "t' \<noteq> t \<and> jm_get fs t' = Some (Waiting p)" if "jm_get (jm_set t ph fs) t' = Some (Waiting p)" for t' p
    using that ph by (auto split: if_splits)
  show ?thesis
    unfolding waits_ok_def using waits_okD[OF ok] w cur pr by (meson order_less_le_trans)
qed

lemma waits_ok_wait:
  assumes ok: "waits_ok sq fs" and p: "p = sq_nextPromise sq" "sq_nextPromise sq' = Suc (sq_nextPromise sq)"
    and cur: "\<And>t'. isAgentInboundTicketCurrent t' sq \<Longrightarrow> isAgentInboundTicketCurrent t' sq'" "isAgentInboundTicketCurrent t sq"
  shows "waits_ok sq' (jm_set t (Waiting p) fs)"
proof -
  have lt: "q < p" if "jm_get fs t' = Some (Waiting q)" for t' q using waits_okD(1)[OF ok that] p by simp
  show ?thesis
    unfolding waits_ok_def
  proof (intro conjI allI impI)
    fix t' q assume "jm_get (jm_set t (Waiting p) fs) t' = Some (Waiting q)"
    then show "q < sq_nextPromise sq'" "isAgentInboundTicketCurrent t' sq'"
      using lt[of t' q] waits_okD(2)[OF ok, of t' q] cur p by (auto split: if_splits)
  next
    fix t1 t2 q
    assume "jm_get (jm_set t (Waiting p) fs) t1 = Some (Waiting q)" "jm_get (jm_set t (Waiting p) fs) t2 = Some (Waiting q)"
    then show "t1 = t2" using lt[of t1 p] lt[of t2 p] waits_okD(3)[OF ok, of t2 q t1] by (auto split: if_splits)
  qed
qed

lemma log_ok_set:
  assumes "log_ok fs log" "t \<in> set log \<Longrightarrow> ph = Committing \<or> ph = Finished"
  shows "log_ok (jm_set t ph fs) log"
  using assms unfolding log_ok_def by (metis jm_get_set)

lemma gens_ok_set:
  assumes "gens_ok sq fs" "nextGeneration sq \<le> nextGeneration sq'" "tk_generation t \<le> nextGeneration sq'"
  shows "gens_ok sq' (jm_set t ph fs)"
  using assms unfolding gens_ok_def by (auto split: if_splits intro: order.trans)

lemma log_phase: "log_ok fs log \<Longrightarrow> jm_get fs t \<noteq> Some Committing \<Longrightarrow> jm_get fs t \<noteq> Some Finished \<Longrightarrow> t \<notin> set log"
  unfolding log_ok_def by blast

lemma getOrCreate_spec:
  assumes ok: "sockets_ok sq fs" "gens_ok sq fs"
    and ss: "ss = fst (getOrCreateState s sq)" and sq1: "sq1 = snd (getOrCreateState s sq)"
  shows "seq_ok (phase_of fs s (ss_generation ss)) ss" "ss_generation ss \<le> nextGeneration sq1"
    "jm_set s ss' (stateBySocketId sq1) = jm_set s ss' (stateBySocketId sq)"
    "nextGeneration sq \<le> nextGeneration sq1" "sq_nextPromise sq1 = sq_nextPromise sq"
    "jm_get (stateBySocketId sq) s = Some old \<Longrightarrow> old = ss"
proof -
  have none: "phase_of fs s (Suc (nextGeneration sq)) = (\<lambda>q. None)"
  proof
    fix q show "phase_of fs s (Suc (nextGeneration sq)) q = None"
      using gens_okD[OF ok(2)] by (cases "phase_of fs s (Suc (nextGeneration sq)) q") (fastforce simp: phase_of_def)+
  qed
  show "seq_ok (phase_of fs s (ss_generation ss)) ss"
  proof (cases "jm_get (stateBySocketId sq) s")
    case None
    then show ?thesis
      using none by (simp add: ss getOrCreateState_def Let_def seq_ok_def turn_phase_def waiters_match_def)
  next
    case (Some old)
    then show ?thesis using sockets_okD[OF ok(1) Some] by (simp add: ss getOrCreateState_def)
  qed
  show "ss_generation ss \<le> nextGeneration sq1" "nextGeneration sq \<le> nextGeneration sq1" "sq_nextPromise sq1 = sq_nextPromise sq"
    "jm_set s ss' (stateBySocketId sq1) = jm_set s ss' (stateBySocketId sq)"
    "jm_get (stateBySocketId sq) s = Some old \<Longrightarrow> old = ss"
    using sockets_okD[OF ok(1), of s] by (auto simp: ss sq1 getOrCreateState_def Let_def split: option.splits)
qed

lemma inv_arrives:
  assumes "inbound_inv ib"
  shows "inbound_inv (frame_arrives now s ib)"
proof -
  define sq fs where "sq = ib_seq ib" and "fs = ib_frames ib"
  have ok: "sockets_ok sq fs" "waits_ok sq fs" "gens_ok sq fs" "log_ok fs (ib_log ib)"
    using assms by (simp_all add: inbound_inv_def sq_def fs_def)
  define ss sq1 where "ss = fst (getOrCreateState s sq)" and "sq1 = snd (getOrCreateState s sq)"
  define ss' where "ss' = ss\<lparr>nextAdmitSeq := Suc (nextAdmitSeq ss), pendingBySeq := jm_set (nextAdmitSeq ss) now (pendingBySeq ss)\<rparr>"
  define t where "t = \<lparr>tk_socketId = s, tk_seq = nextAdmitSeq ss, tk_generation = ss_generation ss\<rparr>"
  have eq: "frame_arrives now s ib = ib\<lparr>ib_seq := put_socket s ss' sq1, ib_frames := jm_set t Decoding fs\<rparr>"
    by (simp add: frame_arrives_def admitAgentInboundFrameSeq_def Let_def case_prod_beta sq_def fs_def ss_def sq1_def ss'_def t_def)
  note gs = getOrCreate_spec[OF ok(1,3) ss_def sq1_def]
  note sok = gs(1) and gen = gs(2) and st = gs(3)[of ss'] and ng = gs(4) and np = gs(5) and fresh = gs(6)
  have none: "jm_get fs t = None" using seq_okD(4)[OF sok, of "nextAdmitSeq ss"] by (simp add: phase_of_def t_def)
  have "seq_ok ((phase_of fs s (ss_generation ss'))(tk_seq t := Some Decoding)) ss'"
    using seq_ok_admit[OF sok, of now] by (simp add: ss'_def t_def)
  then have "sockets_ok (put_socket s ss' sq1) (jm_set t Decoding fs)"
    using ok(1) st ng gen by (intro sockets_ok_update[where ss = ss' and s = s]) (auto simp: t_def ss'_def)
  moreover have "waits_ok (put_socket s ss' sq1) (jm_set t Decoding fs)"
    using ok(2) np fresh st by (intro waits_ok_set) (auto simp: current_iff ss'_def)
  moreover have "gens_ok (put_socket s ss' sq1) (jm_set t Decoding fs)"
    using ok(3) ng gen by (intro gens_ok_set) (auto simp: t_def)
  moreover have "log_ok (jm_set t Decoding fs) (ib_log ib)"
    by (rule log_ok_set[OF ok(4)]) (use log_phase[OF ok(4), of t] none in auto)
  ultimately show ?thesis by (simp add: eq inbound_inv_def)
qed

lemma inv_decoded:
  assumes "inbound_inv ib"
  shows "inbound_inv (frame_decoded now t ib)"
proof (cases "jm_get (ib_frames ib) t = Some Decoding")
  case False
  then show ?thesis using assms by (simp add: frame_decoded_def)
next
  case dec: True
  define sq fs where "sq = ib_seq ib" and "fs = ib_frames ib"
  have ok: "sockets_ok sq fs" "waits_ok sq fs" "gens_ok sq fs" "log_ok fs (ib_log ib)"
    using assms by (simp_all add: inbound_inv_def sq_def fs_def)
  have dec': "jm_get fs t = Some Decoding" using dec by (simp add: fs_def)
  have nl: "t \<notin> set (ib_log ib)" using log_phase[OF ok(4), of t] dec' by simp
  have gen: "tk_generation t \<le> nextGeneration sq" by (rule gens_okD[OF ok(3) dec'])
  show ?thesis
  proof (cases "isAgentInboundTicketCurrent t sq")
    case False
    then have "frame_decoded now t ib = ib\<lparr>ib_seq := sq, ib_frames := jm_set t Finished fs\<rparr>"
      using dec by (auto simp: frame_decoded_def waitAgentInboundCommitTurn_def current_iff sq_def fs_def split: option.splits)
    moreover have "sockets_ok sq (jm_set t Finished fs)" by (rule sockets_ok_frame[OF ok(1) False]) simp_all
    ultimately show ?thesis
      using ok gen by (simp add: inbound_inv_def waits_ok_set gens_ok_set log_ok_set)
  next
    case True
    then obtain ss where ss: "jm_get (stateBySocketId sq) (tk_socketId t) = Some ss" "ss_generation ss = tk_generation t"
      by (auto simp: current_iff)
    have sok: "seq_ok (phase_of fs (tk_socketId t) (ss_generation ss)) ss" "ss_generation ss \<le> nextGeneration sq"
      using sockets_okD[OF ok(1) ss(1)] by auto
    have ph: "phase_of fs (tk_socketId t) (ss_generation ss) (tk_seq t) = Some Decoding"
      using dec' ss(2) by (simp add: phase_of_ticket)
    have nlt: "\<not> tk_seq t < nextCommitSeq ss" using seq_okD(5)[OF sok(1), of "tk_seq t"] ph by simp
    show ?thesis
    proof (cases "tk_seq t = nextCommitSeq ss")
      case live: True
      have eq: "frame_decoded now t ib = ib\<lparr>ib_seq := observeWaitMs 0 sq, ib_frames := jm_set t HasTurn fs\<rparr>"
        using dec ss live by (simp add: frame_decoded_def waitAgentInboundCommitTurn_def sq_def fs_def)
      have "seq_ok ((phase_of fs (tk_socketId t) (ss_generation ss))(nextCommitSeq ss := Some HasTurn)) ss"
        using ph live by (intro seq_ok_turn[OF sok(1)]) auto
      then have "sockets_ok (observeWaitMs 0 sq) (jm_set t HasTurn fs)"
        using ss sok live by (intro sockets_ok_update[OF ok(1), where ss = ss and s = "tk_socketId t"]) (auto simp: jm_set_id)
      moreover have "waits_ok (observeWaitMs 0 sq) (jm_set t HasTurn fs)"
        by (rule waits_ok_set[OF ok(2)]) (auto simp: current_iff)
      moreover have "gens_ok (observeWaitMs 0 sq) (jm_set t HasTurn fs)" using gen by (intro gens_ok_set[OF ok(3)]) auto
      moreover have "log_ok (jm_set t HasTurn fs) (ib_log ib)" by (rule log_ok_set[OF ok(4)]) (use nl in auto)
      ultimately show ?thesis by (simp add: eq inbound_inv_def)
    next
      case wait: False
      define p ss' where "p = sq_nextPromise sq"
        and "ss' = ss\<lparr>ss_waiters := jm_set (tk_seq t) \<lparr>iw_promise = p, iw_startedWait = now\<rparr> (ss_waiters ss)\<rparr>"
      define sq' where "sq' = put_socket (tk_socketId t) ss'
        (sq\<lparr>outOfOrderPreventedTotal := outOfOrderPreventedTotal sq + 1, sq_nextPromise := Suc p\<rparr>)"
      have eq: "frame_decoded now t ib = ib\<lparr>ib_seq := sq', ib_frames := jm_set t (Waiting p) fs\<rparr>"
        using dec ss nlt wait
        by (simp add: frame_decoded_def waitAgentInboundCommitTurn_def sq_def fs_def Let_def p_def ss'_def sq'_def)
      have f: "stateBySocketId sq' = jm_set (tk_socketId t) ss' (stateBySocketId sq)" "nextGeneration sq' = nextGeneration sq"
        "sq_nextPromise sq' = Suc (sq_nextPromise sq)" "ss_generation ss' = ss_generation ss"
        by (simp_all add: sq'_def p_def ss'_def)
      have "seq_ok ((phase_of fs (tk_socketId t) (ss_generation ss'))(tk_seq t := Some (Waiting p))) ss'"
        unfolding ss'_def using ph wait seq_ok_wait[OF sok(1)] by simp
      then have "sockets_ok sq' (jm_set t (Waiting p) fs)"
        using ss sok f by (intro sockets_ok_update[OF ok(1), where ss = ss' and s = "tk_socketId t"]) auto
      moreover have "waits_ok sq' (jm_set t (Waiting p) fs)"
        using True ss f by (intro waits_ok_wait[OF ok(2) p_def]) (auto simp: current_iff)
      moreover have "gens_ok sq' (jm_set t (Waiting p) fs)" using gen f by (intro gens_ok_set[OF ok(3)]) auto
      moreover have "log_ok (jm_set t (Waiting p) fs) (ib_log ib)" by (rule log_ok_set[OF ok(4)]) (use nl in auto)
      ultimately show ?thesis by (simp add: eq inbound_inv_def)
    qed
  qed
qed

lemma turn_seq:
  assumes ok: "sockets_ok sq fs" and ss: "jm_get (stateBySocketId sq) (tk_socketId t) = Some ss" "ss_generation ss = tk_generation t"
    and ph: "turn_phase (jm_get fs t)"
  shows "tk_seq t = nextCommitSeq ss"
proof -
  have "seq_ok (phase_of fs (tk_socketId t) (ss_generation ss)) ss" using sockets_okD[OF ok ss(1)] by simp
  from seq_okD(6)[OF this, of "tk_seq t"] show ?thesis using ph ss(2) by (simp add: phase_of_ticket)
qed

text \<open>The frame that commits comes after all that its generation has logged.\<close>

lemma log_ok_append:
  assumes ok: "sockets_ok sq fs" "log_ok fs log" and cur: "isAgentInboundTicketCurrent t sq" and ph: "jm_get fs t = Some HasTurn"
  shows "log_ok (jm_set t Committing fs) (log @ [t])"
proof -
  obtain ss where ss: "jm_get (stateBySocketId sq) (tk_socketId t) = Some ss" "ss_generation ss = tk_generation t"
    using cur by (auto simp: current_iff)
  have sok: "seq_ok (phase_of fs (tk_socketId t) (ss_generation ss)) ss" using sockets_okD[OF ok(1) ss(1)] by simp
  have sq: "tk_seq t = nextCommitSeq ss" using turn_seq[OF ok(1) ss] ph by (simp add: turn_phase_def)
  have "tk_seq t' < tk_seq t"
    if t': "t' \<in> set log" "tk_socketId t' = tk_socketId t" "tk_generation t' = tk_generation t" for t'
  proof -
    have ph': "jm_get fs t' = Some Committing \<or> jm_get fs t' = Some Finished" using ok(2) t'(1) by (simp add: log_ok_def)
    have "jm_get fs t' \<noteq> Some Committing"
    proof
      assume c: "jm_get fs t' = Some Committing"
      then have "tk_seq t' = tk_seq t" using turn_seq[OF ok(1), of t' ss] ss t' sq by (simp add: turn_phase_def)
      then have "t' = t" using t' by simp
      then show False using c ph by simp
    qed
    then have "phase_of fs (tk_socketId t) (ss_generation ss) (tk_seq t') = Some Finished"
      using ph' t' ss(2) phase_of_ticket[of fs t'] by simp
    then show ?thesis using seq_okD(5)[OF sok] sq by simp
  qed
  moreover have "\<forall>x\<in>set (log @ [t]). jm_get (jm_set t Committing fs) x = Some Committing \<or> jm_get (jm_set t Committing fs) x = Some Finished"
    using ok(2) by (simp add: log_ok_def)
  ultimately show ?thesis using ok(2) by (auto simp: log_ok_def sorted_wrt_append)
qed

lemma inv_commits:
  assumes "inbound_inv ib"
  shows "inbound_inv (frame_commits c t ib)"
proof (cases "jm_get (ib_frames ib) t = Some HasTurn")
  case False
  then show ?thesis using assms by (simp add: frame_commits_def)
next
  case turn: True
  define sq fs where "sq = ib_seq ib" and "fs = ib_frames ib"
  have ok: "sockets_ok sq fs" "waits_ok sq fs" "gens_ok sq fs" "log_ok fs (ib_log ib)"
    using assms by (simp_all add: inbound_inv_def sq_def fs_def)
  have turn': "jm_get fs t = Some HasTurn" using turn by (simp add: fs_def)
  have eq: "frame_commits c t ib = ib\<lparr>ib_frames := jm_set t Committing fs,
      ib_log := (if c \<and> isAgentInboundTicketCurrent t sq then ib_log ib @ [t] else ib_log ib)\<rparr>"
    using turn by (simp add: frame_commits_def sq_def fs_def)
  have "sockets_ok sq (jm_set t Committing fs)"
  proof (cases "isAgentInboundTicketCurrent t sq")
    case False
    then show ?thesis by (intro sockets_ok_frame[OF ok(1)]) simp_all
  next
    case True
    then obtain ss where ss: "jm_get (stateBySocketId sq) (tk_socketId t) = Some ss" "ss_generation ss = tk_generation t"
      by (auto simp: current_iff)
    have sok: "seq_ok (phase_of fs (tk_socketId t) (ss_generation ss)) ss" "ss_generation ss \<le> nextGeneration sq"
      using sockets_okD[OF ok(1) ss(1)] by auto
    have sq: "tk_seq t = nextCommitSeq ss" using turn_seq[OF ok(1) ss] turn' by (simp add: turn_phase_def)
    have "seq_ok ((phase_of fs (tk_socketId t) (ss_generation ss))(nextCommitSeq ss := Some Committing)) ss"
      using turn' ss(2) sq phase_of_ticket[of fs t] by (intro seq_ok_turn[OF sok(1)]) auto
    then show ?thesis
      using ss sok sq by (intro sockets_ok_update[OF ok(1), where ss = ss and s = "tk_socketId t"]) (auto simp: jm_set_id)
  qed
  moreover have "waits_ok sq (jm_set t Committing fs)" by (rule waits_ok_set[OF ok(2)]) auto
  moreover have "gens_ok sq (jm_set t Committing fs)" using gens_okD[OF ok(3) turn'] by (intro gens_ok_set[OF ok(3)]) auto
  moreover have "log_ok (jm_set t Committing fs) (if c \<and> isAgentInboundTicketCurrent t sq then ib_log ib @ [t] else ib_log ib)"
    using log_ok_append[OF ok(1,4) _ turn'] log_ok_set[OF ok(4), of t Committing] by auto
  ultimately show ?thesis by (simp add: eq inbound_inv_def sq_def)
qed

text \<open>The promise a completed turn resolves, and the socket states it leaves.\<close>

definition wakes :: "socket_sequencer \<Rightarrow> (nat \<times> bool) list" where
  "wakes ss = (case jm_get (ss_waiters ss) (Suc (nextCommitSeq ss)) of None \<Rightarrow> [] | Some w \<Rightarrow> [(iw_promise w, True)])"

definition idle :: "socket_sequencer \<Rightarrow> bool" where
  "idle ss \<longleftrightarrow> \<not> (jm_size (pendingBySeq ss) > 0 \<or> jm_size (ss_waiters ss) > 0) \<and> nextAdmitSeq ss = nextCommitSeq ss"

lemma prune_fields [simp]:
  "nextGeneration (pruneIfIdle s ss sq) = nextGeneration sq" "sq_nextPromise (pruneIfIdle s ss sq) = sq_nextPromise sq"
  "stateBySocketId (pruneIfIdle s ss sq) = (if idle ss then jm_del s (stateBySocketId sq) else stateBySocketId sq)"
  by (auto simp: pruneIfIdle_def idle_def)

lemma complete_spec:
  assumes ss: "jm_get (stateBySocketId sq) (tk_socketId t) = Some ss" "ss_generation ss = tk_generation t" "tk_seq t = nextCommitSeq ss"
    and r: "completeAgentInboundCommitTurn now t sq = (res, sq')"
  shows "res = wakes ss" "nextGeneration sq' = nextGeneration sq" "sq_nextPromise sq' = sq_nextPromise sq"
    "stateBySocketId sq' = (if idle (after_commit ss) then jm_del (tk_socketId t) (stateBySocketId sq)
       else jm_set (tk_socketId t) (after_commit ss) (stateBySocketId sq))"
proof -
  have ac: "after_commit ss = ss\<lparr>pendingBySeq := jm_del (nextCommitSeq ss) (pendingBySeq ss), nextCommitSeq := Suc (nextCommitSeq ss)\<rparr>"
    if "jm_get (ss_waiters ss) (Suc (nextCommitSeq ss)) = None"
    using jm_del_fresh[OF that] by (simp add: after_commit_def)
  show "res = wakes ss" "nextGeneration sq' = nextGeneration sq" "sq_nextPromise sq' = sq_nextPromise sq"
    "stateBySocketId sq' = (if idle (after_commit ss) then jm_del (tk_socketId t) (stateBySocketId sq)
       else jm_set (tk_socketId t) (after_commit ss) (stateBySocketId sq))"
    using r ss ac
    by (auto simp: completeAgentInboundCommitTurn_def Let_def wakes_def after_commit_def split: option.splits)
qed

lemma resolve_get: "jm_get (resolve_frames res fs) x = map_option (resolve_phase res) (jm_get fs x)"
  by (simp add: resolve_frames_def)

lemma resolve_other:
  assumes "\<And>p. ph = Waiting p \<Longrightarrow> p \<notin> fst ` set res"
  shows "resolve_phase res ph = ph"
proof (cases ph)
  case (Waiting p)
  then have "map_of res p = None" using assms by (simp add: map_of_eq_None_iff)
  then show ?thesis using Waiting by (simp add: resolve_phase_def)
qed (simp_all add: resolve_phase_def)

lemma resolve_waiting: "resolve_phase res ph = Waiting p \<Longrightarrow> ph = Waiting p \<and> map_of res p = None"
  by (cases ph) (auto simp: resolve_phase_def split: option.splits if_splits)

lemma woken_frames:
  assumes w: "waits_ok sq fs" and m: "waiters_match (phase_of fs s g) ss"
    and t: "jm_get fs t = Some Committing" and tn: "tn = \<lparr>tk_socketId = s, tk_seq = Suc (nextCommitSeq ss), tk_generation = g\<rparr>"
  shows "jm_get (resolve_frames (wakes ss) (jm_set t Finished fs)) x =
    (if x = t then Some Finished
     else if x = tn \<and> jm_get (ss_waiters ss) (Suc (nextCommitSeq ss)) \<noteq> None then Some HasTurn else jm_get fs x)"
proof -
  have other: "jm_get (resolve_frames (wakes ss) (jm_set t Finished fs)) x = jm_get fs x"
    if x: "x \<noteq> t" "\<And>p. jm_get fs x = Some (Waiting p) \<Longrightarrow> p \<notin> fst ` set (wakes ss)"
    using x(1) resolve_other[of _ "wakes ss"] x(2) by (cases "jm_get fs x") (simp_all add: resolve_get)
  have self: "jm_get (resolve_frames (wakes ss) (jm_set t Finished fs)) t = Some Finished"
    by (simp add: resolve_get resolve_phase_def)
  show ?thesis
  proof (cases "jm_get (ss_waiters ss) (Suc (nextCommitSeq ss))")
    case None
    then show ?thesis using self other by (cases "x = t") (simp_all add: wakes_def)
  next
    case (Some wt)
    then have k: "wakes ss = [(iw_promise wt, True)]" by (simp add: wakes_def)
    have tnw: "jm_get fs tn = Some (Waiting (iw_promise wt))"
      using waiters_matchD[OF m, of "Suc (nextCommitSeq ss)" "iw_promise wt"] Some by (simp add: phase_of_def tn)
    have only: "x = tn" if "jm_get fs x = Some (Waiting (iw_promise wt))" by (rule waits_okD(3)[OF w tnw that])
    consider "x = t" | "x \<noteq> t" "x = tn" | "x \<noteq> t" "x \<noteq> tn" by blast
    then show ?thesis
    proof cases
      case 1
      then show ?thesis using self by simp
    next
      case 2
      then show ?thesis using tnw k Some by (simp add: resolve_get resolve_phase_def)
    next
      case 3
      then show ?thesis using only other k by auto
    qed
  qed
qed

lemma log_ok_resolve: "log_ok fs log \<Longrightarrow> log_ok (resolve_frames res fs) log"
  by (auto simp: log_ok_def resolve_frames_def resolve_phase_def)

lemma gens_ok_resolve: "gens_ok sq fs \<Longrightarrow> nextGeneration sq' = nextGeneration sq \<Longrightarrow> gens_ok sq' (resolve_frames res fs)"
  by (auto simp: gens_ok_def resolve_frames_def)

lemma finish_current:
  assumes ok: "sockets_ok sq fs" "waits_ok sq fs" and com: "jm_get fs t = Some Committing"
    and ss: "jm_get (stateBySocketId sq) (tk_socketId t) = Some ss" "ss_generation ss = tk_generation t" "tk_seq t = nextCommitSeq ss"
    and r: "completeAgentInboundCommitTurn now t sq = (res, sq')"
    and fs': "fs' = resolve_frames res (jm_set t Finished fs)"
  shows "sockets_ok sq' fs' \<and> waits_ok sq' fs'"
proof -
  note cs = complete_spec[OF ss r]
  define s g where "s = tk_socketId t" and "g = tk_generation t"
  define tn where "tn = \<lparr>tk_socketId = s, tk_seq = Suc (nextCommitSeq ss), tk_generation = g\<rparr>"
  have sok: "seq_ok (phase_of fs s g) ss" "g \<le> nextGeneration sq" using sockets_okD[OF ok(1) ss(1)] ss(2) by (auto simp: s_def g_def)
  have get: "jm_get fs' x = (if x = t then Some Finished
     else if x = tn \<and> jm_get (ss_waiters ss) (Suc (nextCommitSeq ss)) \<noteq> None then Some HasTurn else jm_get fs x)" for x
    unfolding fs' cs(1) by (rule woken_frames[OF ok(2) seq_okD(9)[OF sok(1)] com tn_def])
  have tq: "t = \<lparr>tk_socketId = s, tk_seq = nextCommitSeq ss, tk_generation = g\<rparr>" using ss(3) by (simp add: s_def g_def)
  have here: "phase_of fs' s g = (\<lambda>q. if q = nextCommitSeq ss then Some Finished
       else if q = Suc (nextCommitSeq ss) \<and> jm_get (ss_waiters ss) q \<noteq> None then Some HasTurn else phase_of fs s g q)"
    unfolding phase_of_def get by (auto simp: tq tn_def fun_eq_iff)
  have there: "phase_of fs' s' g' = phase_of fs s' g'" if "s' \<noteq> s \<or> g' \<noteq> g" for s' g'
    unfolding phase_of_def get using that by (auto simp: tq tn_def fun_eq_iff)
  have sok': "seq_ok (phase_of fs' s g) (after_commit ss)"
    using com tq by (intro seq_ok_commit[OF sok(1) _ here]) (simp add: phase_of_def)
  have ga: "ss_generation (after_commit ss) = g" using ss(2) by (simp add: after_commit_def g_def)
  have so: "sockets_ok sq' fs'"
    unfolding sockets_ok_def
  proof (intro conjI allI impI)
    show "jm_wf (stateBySocketId sq')" using ok(1) cs(4) by (simp add: sockets_ok_def)
  next
    fix s' ss' assume a: "jm_get (stateBySocketId sq') s' = Some ss'"
    then have "s' = s \<and> ss' = after_commit ss \<or> s' \<noteq> s \<and> jm_get (stateBySocketId sq) s' = Some ss'"
      using cs(4) by (auto simp: s_def split: if_splits)
    then show "ss_generation ss' \<le> nextGeneration sq'" "seq_ok (phase_of fs' s' (ss_generation ss')) ss'"
      using sok' sok(2) cs(2) ga sockets_okD[OF ok(1), of s' ss'] there by auto
  qed
  have cur: "isAgentInboundTicketCurrent x sq'" if x: "jm_get fs' x = Some (Waiting p)" for x p
  proof -
    have old: "jm_get fs x = Some (Waiting p)" using x get by (auto split: if_splits)
    then have c: "isAgentInboundTicketCurrent x sq" by (rule waits_okD(2)[OF ok(2)])
    show ?thesis
    proof (cases "tk_socketId x = s")
      case True
      then have "phase_of fs' s g (tk_seq x) = Some (Waiting p)"
        using x c ss phase_of_ticket[of fs' x] by (simp add: current_iff s_def g_def)
      then have "\<not> idle (after_commit ss)" using seq_okD(4,5,7)[OF sok', of "tk_seq x"] by (auto simp: idle_def)
      then show ?thesis using c cs(4) True ss ga by (auto simp: current_iff s_def g_def)
    next
      case False
      then show ?thesis using c cs(4) by (auto simp: current_iff s_def)
    qed
  qed
  have "waits_ok sq' fs'"
    by (rule waits_ok_sub[OF ok(2)]) (use get cur cs(3) in \<open>auto split: if_splits\<close>)
  then show ?thesis using so by simp
qed

lemma inv_finishes:
  assumes "inbound_inv ib"
  shows "inbound_inv (frame_finishes now t ib)"
proof (cases "jm_get (ib_frames ib) t = Some Committing")
  case False
  then show ?thesis using assms by (simp add: frame_finishes_def)
next
  case com: True
  define sq fs where "sq = ib_seq ib" and "fs = ib_frames ib"
  have ok: "sockets_ok sq fs" "waits_ok sq fs" "gens_ok sq fs" "log_ok fs (ib_log ib)"
    using assms by (simp_all add: inbound_inv_def sq_def fs_def)
  have com': "jm_get fs t = Some Committing" using com by (simp add: fs_def)
  obtain res sq' where r: "completeAgentInboundCommitTurn now t sq = (res, sq')"
    by (cases "completeAgentInboundCommitTurn now t sq")
  define fs' where "fs' = resolve_frames res (jm_set t Finished fs)"
  have eq: "frame_finishes now t ib = ib\<lparr>ib_seq := sq', ib_frames := fs'\<rparr>"
    using com r by (simp add: frame_finishes_def sq_def fs_def fs'_def)
  have gen: "tk_generation t \<le> nextGeneration sq" by (rule gens_okD[OF ok(3) com'])
  have log: "log_ok fs' (ib_log ib)" unfolding fs'_def by (rule log_ok_resolve[OF log_ok_set[OF ok(4)]]) simp
  have "sockets_ok sq' fs' \<and> waits_ok sq' fs' \<and> nextGeneration sq' = nextGeneration sq"
  proof (cases "isAgentInboundTicketCurrent t sq")
    case False
    then have "res = []" "sq' = sq"
      using r by (auto simp: completeAgentInboundCommitTurn_def current_iff split: option.splits)
    moreover have "resolve_frames [] fs1 = fs1" for fs1
      by (auto simp: resolve_frames_def resolve_other intro!: map_idI)
    ultimately show ?thesis
      using sockets_ok_frame[OF ok(1) False, of sq Finished] waits_ok_set[OF ok(2), of Finished sq t] by (simp add: fs'_def)
  next
    case True
    then obtain ss where ss: "jm_get (stateBySocketId sq) (tk_socketId t) = Some ss" "ss_generation ss = tk_generation t"
      by (auto simp: current_iff)
    have "tk_seq t = nextCommitSeq ss" using turn_seq[OF ok(1) ss] com' by (simp add: turn_phase_def)
    then show ?thesis using finish_current[OF ok(1,2) com' ss _ r fs'_def] complete_spec(2)[OF ss _ r] by simp
  qed
  moreover have "gens_ok sq' fs'" if "nextGeneration sq' = nextGeneration sq"
    unfolding fs'_def using gen that by (intro gens_ok_resolve[OF gens_ok_set[OF ok(3)]]) auto
  ultimately show ?thesis using log by (simp add: eq inbound_inv_def)
qed

text \<open>A waiting frame waits on a promise of the socket's waiters exactly when it is a frame of that socket.\<close>

lemma waiting_socket_iff:
  assumes w: "waits_ok sq fs" and x: "jm_get fs x = Some (Waiting p)" and ss: "jm_get (stateBySocketId sq) s = Some ss"
    and wf: "jm_wf (ss_waiters ss)" and m: "waiters_match (phase_of fs s (ss_generation ss)) ss"
  shows "p \<in> (\<lambda>e. iw_promise (snd e)) ` set (ss_waiters ss) \<longleftrightarrow> tk_socketId x = s"
proof
  assume "p \<in> (\<lambda>e. iw_promise (snd e)) ` set (ss_waiters ss)"
  then obtain q wt where "(q, wt) \<in> set (ss_waiters ss)" "p = iw_promise wt" by auto
  then have "phase_of fs s (ss_generation ss) q = Some (Waiting p)"
    using waiters_matchD[OF m, of q p] jm_in_set_get[OF wf] by simp
  then have "\<lparr>tk_socketId = s, tk_seq = q, tk_generation = ss_generation ss\<rparr> = x"
    using waits_okD(3)[OF w x] by (simp add: phase_of_def)
  then show "tk_socketId x = s" by auto
next
  assume s: "tk_socketId x = s"
  then have g: "tk_generation x = ss_generation ss" using waits_okD(2)[OF w x] ss by (simp add: current_iff)
  then have "phase_of fs s (ss_generation ss) (tk_seq x) = Some (Waiting p)" using x s phase_of_ticket[of fs x] by simp
  then obtain wt where "jm_get (ss_waiters ss) (tk_seq x) = Some wt" "iw_promise wt = p"
    using waiters_matchD[OF m, of "tk_seq x" p] by auto
  then show "p \<in> (\<lambda>e. iw_promise (snd e)) ` set (ss_waiters ss)" using jm_get_in_set by force
qed

lemma inv_disconnects:
  assumes "inbound_inv ib"
  shows "inbound_inv (socket_disconnects now s ib)"
proof (cases "jm_get (stateBySocketId (ib_seq ib)) s")
  case None
  have "resolve_frames [] fs1 = fs1" for fs1 by (auto simp: resolve_frames_def resolve_other intro!: map_idI)
  then show ?thesis using None assms by (simp add: socket_disconnects_def cleanupAgentInboundSequencerSocket_def)
next
  case ss: (Some ss)
  define sq fs where "sq = ib_seq ib" and "fs = ib_frames ib"
  have ok: "sockets_ok sq fs" "waits_ok sq fs" "gens_ok sq fs" "log_ok fs (ib_log ib)"
    using assms by (simp_all add: inbound_inv_def sq_def fs_def)
  have ss': "jm_get (stateBySocketId sq) s = Some ss" using ss by (simp add: sq_def)
  obtain res sq' where r: "cleanupAgentInboundSequencerSocket now s sq = (res, sq')"
    by (cases "cleanupAgentInboundSequencerSocket now s sq")
  define fs' where "fs' = resolve_frames res fs"
  have eq: "socket_disconnects now s ib = ib\<lparr>ib_seq := sq', ib_frames := fs'\<rparr>"
    using r by (simp add: socket_disconnects_def sq_def fs_def fs'_def)
  have res: "res = map (\<lambda>(_, w). (iw_promise w, False)) (ss_waiters ss)"
    and sq': "stateBySocketId sq' = jm_del s (stateBySocketId sq)" "nextGeneration sq' = nextGeneration sq"
      "sq_nextPromise sq' = sq_nextPromise sq"
    using r ss' by (auto simp: cleanupAgentInboundSequencerSocket_def)
  have sok: "seq_ok (phase_of fs s (ss_generation ss)) ss" using sockets_okD[OF ok(1) ss'] by simp
  have inres: "p \<in> fst ` set res \<longleftrightarrow> tk_socketId x = s" if x: "jm_get fs x = Some (Waiting p)" for x p
    using waiting_socket_iff[OF ok(2) x ss' seq_okD(2,9)[OF sok]] by (simp add: res image_image case_prod_beta)
  have keep: "jm_get fs' x = jm_get fs x" if "tk_socketId x \<noteq> s" for x
    unfolding fs'_def resolve_get using resolve_other[of _ res] inres[of x] that by (cases "jm_get fs x") auto
  have gone: "tk_socketId x \<noteq> s" if x: "jm_get fs' x = Some (Waiting p)" for x p
  proof -
    obtain ph where "jm_get fs x = Some ph" "resolve_phase res ph = Waiting p" using x by (auto simp: fs'_def resolve_get)
    then have "jm_get fs x = Some (Waiting p)" "p \<notin> fst ` set res" using resolve_waiting[of res ph p] by (auto simp: map_of_eq_None_iff)
    then show ?thesis using inres by blast
  qed
  have "sockets_ok sq' fs'"
    unfolding sockets_ok_def
  proof (intro conjI allI impI)
    show "jm_wf (stateBySocketId sq')" using ok(1) sq' by (simp add: sockets_ok_def)
  next
    fix s2 ss2 assume "jm_get (stateBySocketId sq') s2 = Some ss2"
    then have a: "s2 \<noteq> s" "jm_get (stateBySocketId sq) s2 = Some ss2" using sq' by (auto split: if_splits)
    have "phase_of fs' s2 g = phase_of fs s2 g" for g using a(1) keep by (simp add: phase_of_def fun_eq_iff)
    then show "ss_generation ss2 \<le> nextGeneration sq'" "seq_ok (phase_of fs' s2 (ss_generation ss2)) ss2"
      using sockets_okD[OF ok(1) a(2)] sq' by auto
  qed
  moreover have "waits_ok sq' fs'"
  proof (rule waits_ok_sub[OF ok(2)])
    fix x p assume x: "jm_get fs' x = Some (Waiting p)"
    show old: "jm_get fs x = Some (Waiting p)" using keep gone[OF x] x by simp
    show "isAgentInboundTicketCurrent x sq'" using waits_okD(2)[OF ok(2) old] gone[OF x] sq' by (auto simp: current_iff)
  qed (use sq' in simp)
  moreover have "gens_ok sq' fs'" "log_ok fs' (ib_log ib)"
    unfolding fs'_def using gens_ok_resolve[OF ok(3) sq'(2)] log_ok_resolve[OF ok(4)] by auto
  ultimately show ?thesis by (simp add: eq inbound_inv_def)
qed

interpretation inbound: invariant_system new_inbound inbound_step inbound_inv
proof unfold_locales
  show "inbound_inv new_inbound"
    by (simp add: inbound_inv_def new_inbound_def new_sequencer_def sockets_ok_def waits_ok_def gens_ok_def log_ok_def)
next
  fix ib ib' assume "inbound_inv ib" "inbound_step ib ib'"
  then show "inbound_inv ib'"
    by (auto elim!: inbound_step.cases intro: inv_arrives inv_decoded inv_commits inv_finishes inv_disconnects)
qed

section \<open>Properties\<close>


text \<open>Two frames of one socket, the second decoded first.\<close>

definition sample_inbound :: inbound where
  "sample_inbound =
     (let t0 = \<lparr>tk_socketId = ''a'', tk_seq = 0, tk_generation = 1\<rparr>; t1 = \<lparr>tk_socketId = ''a'', tk_seq = 1, tk_generation = 1\<rparr>
      in frame_commits True t1 (frame_finishes 9 t0 (frame_commits True t0 (frame_decoded 5 t0
           (frame_decoded 3 t1 (frame_arrives 1 ''a'' (frame_arrives 0 ''a'' new_inbound)))))))"

lemma sample_inbound_reachable: "reachable new_inbound inbound_step sample_inbound"
  unfolding sample_inbound_def Let_def
  by (rule reachable.reach_step[rotated], rule ib_commits, rule reachable.reach_step[rotated], rule ib_finishes,
      rule reachable.reach_step[rotated], rule ib_commits, rule reachable.reach_step[rotated], rule ib_decoded,
      rule reachable.reach_step[rotated], rule ib_decoded, rule reachable.reach_step[rotated], rule ib_arrives,
      rule reachable.reach_step[rotated], rule ib_arrives, rule reachable.reach_init)


text \<open>C32: No frame waits in vain. For a connected socket with unfinished frames, the oldest of them is decoding,
  has the turn or is committing, never waiting; when its decoding ends it gets the turn at once; when
  it finishes, the next frame gets the turn if it was waiting; and when the socket disconnects, no
  frame of the socket is left waiting.\<close>

theorem agent_frames_never_stuck:
  assumes "reachable new_inbound inbound_step ib" "jm_get (stateBySocketId (ib_seq ib)) s = Some ss"
    and "head = \<lparr>tk_socketId = s, tk_seq = nextCommitSeq ss, tk_generation = ss_generation ss\<rparr>"
    and "nxt = \<lparr>tk_socketId = s, tk_seq = Suc (nextCommitSeq ss), tk_generation = ss_generation ss\<rparr>"
  shows "(nextCommitSeq ss < nextAdmitSeq ss \<longrightarrow>
      jm_get (ib_frames ib) head \<in> {Some Decoding, Some HasTurn, Some Committing}) \<and>
    (jm_get (ib_frames ib) head = Some Decoding \<longrightarrow>
      jm_get (ib_frames (frame_decoded now head ib)) head = Some HasTurn) \<and>
    (jm_get (ib_frames ib) head = Some Committing \<and> jm_get (ib_frames ib) nxt = Some (Waiting p) \<longrightarrow>
      jm_get (ib_frames (frame_finishes now head ib)) nxt = Some HasTurn) \<and>
    (tk_socketId t = s \<longrightarrow> jm_get (ib_frames (socket_disconnects now s ib)) t \<noteq> Some (Waiting q))"
proof -
  have inv: "inbound_inv ib" by (rule inbound.inv_reachable[OF assms(1)])
  then have ok: "sockets_ok (ib_seq ib) (ib_frames ib)" "waits_ok (ib_seq ib) (ib_frames ib)" by (simp_all add: inbound_inv_def)
  have sok: "seq_ok (phase_of (ib_frames ib) s (ss_generation ss)) ss" using sockets_okD[OF ok(1) assms(2)] by simp
  note d = seq_okD[OF sok, unfolded phase_of_def]
  have "jm_get (ib_frames ib) head \<in> {Some Decoding, Some HasTurn, Some Committing}" if "nextCommitSeq ss < nextAdmitSeq ss"
  proof (cases "jm_get (ib_frames ib) head")
    case None
    then show ?thesis using d(4)[of "nextCommitSeq ss"] that assms(3) by simp
  next
    case (Some ph)
    then show ?thesis using d(5)[of "nextCommitSeq ss"] d(7)[of "nextCommitSeq ss"] assms(3) by (cases ph) auto
  qed
  moreover have "jm_get (ib_frames (frame_decoded now head ib)) head = Some HasTurn" if "jm_get (ib_frames ib) head = Some Decoding"
    using that assms(2,3) by (simp add: frame_decoded_def waitAgentInboundCommitTurn_def)
  moreover have "jm_get (ib_frames (frame_finishes now head ib)) nxt = Some HasTurn"
    if h: "jm_get (ib_frames ib) head = Some Committing" "jm_get (ib_frames ib) nxt = Some (Waiting p)"
  proof -
    obtain res sq' where r: "completeAgentInboundCommitTurn now head (ib_seq ib) = (res, sq')"
      by (cases "completeAgentInboundCommitTurn now head (ib_seq ib)")
    have res: "res = wakes ss" by (rule complete_spec(1)[OF _ _ _ r]) (use assms in auto)
    have w: "jm_get (ss_waiters ss) (Suc (nextCommitSeq ss)) \<noteq> None"
      using waiters_matchD[OF seq_okD(9)[OF sok], of "Suc (nextCommitSeq ss)" p] h(2) assms(4) by (auto simp: phase_of_def)
    have "nxt \<noteq> head" using assms(3,4) by simp
    then show ?thesis
      using woken_frames[OF ok(2) seq_okD(9)[OF sok] h(1) assms(4), of nxt] r h(1) res w
      by (simp add: frame_finishes_def)
  qed
  moreover have "jm_get (ib_frames (socket_disconnects now s ib)) t \<noteq> Some (Waiting q)" if t: "tk_socketId t = s"
  proof
    assume a: "jm_get (ib_frames (socket_disconnects now s ib)) t = Some (Waiting q)"
    have "inbound_inv (socket_disconnects now s ib)" by (rule inv_disconnects[OF inv])
    then have "isAgentInboundTicketCurrent t (ib_seq (socket_disconnects now s ib))"
      using a waits_okD(2) by (auto simp: inbound_inv_def)
    then show False
      using t assms(2)
      by (simp add: current_iff socket_disconnects_def cleanupAgentInboundSequencerSocket_def)
  qed
  ultimately show ?thesis by blast
qed

theorem agent_frames_never_stuck_witness:
  "jm_get (ib_frames (frame_decoded 5 \<lparr>tk_socketId = ''a'', tk_seq = 0, tk_generation = 1\<rparr> (frame_arrives 0 ''a'' new_inbound)))
     \<lparr>tk_socketId = ''a'', tk_seq = 0, tk_generation = 1\<rparr> = Some HasTurn"
proof -
  have r: "reachable new_inbound inbound_step (frame_arrives 0 ''a'' new_inbound)"
    by (rule reachable.reach_step[OF reachable.reach_init]) (rule ib_arrives)
  define ss where "ss = \<lparr>ss_generation = 1, nextAdmitSeq = 1, nextCommitSeq = 0, ss_waiters = [], pendingBySeq = [(0, 0)]\<rparr>"
  have g: "jm_get (stateBySocketId (ib_seq (frame_arrives 0 ''a'' new_inbound))) ''a'' = Some ss"
    unfolding ss_def by code_simp
  have "jm_get (ib_frames (frame_arrives 0 ''a'' new_inbound)) \<lparr>tk_socketId = ''a'', tk_seq = 0, tk_generation = 1\<rparr> = Some Decoding"
    by code_simp
  then show ?thesis using agent_frames_never_stuck[OF r g refl refl, of 5] by (simp add: ss_def)
qed

end
