(* ===== verification/Rest_Pending_Requests.thy ===== *)
theory Rest_Pending_Requests
  imports Prelude
begin

text \<open>
  \<^verbatim>\<open>registries/rest_pending_requests.ts\<close>: the REST requests that await a response of an agent, found by any
  of their correlation ids. A request is an object: the registry stores references, several ids
  may refer to the same object, and the acknowledgement fields of the object change. Objects are
  numbers into a heap.
\<close>

record pending_request =
  primaryRequestId :: string
  correlationIds :: "string list"
  pr_socketId :: string
  pr_agentId :: string
  createdAtMs :: int
  timeoutHandle :: nat
  acked :: bool
  ackRetryTimer :: "nat option"
  ackRetriesAttempted :: int

record rest_pending =
  pr_heap :: "nat \<Rightarrow> pending_request"
  pendingByCorrelationId :: "(string, nat) jsmap"
  logicalPendingCount :: int

section \<open>Operations\<close>

definition new_rest_pending :: "(nat \<Rightarrow> pending_request) \<Rightarrow> rest_pending" where
  "new_rest_pending heap = \<lparr>pr_heap = heap, pendingByCorrelationId = [], logicalPendingCount = 0\<rparr>"

definition ids_of :: "rest_pending \<Rightarrow> nat \<Rightarrow> string list" where
  "ids_of st p = correlationIds (pr_heap st p)"

definition owned_by_other :: "nat \<Rightarrow> rest_pending \<Rightarrow> string \<Rightarrow> bool" where
  "owned_by_other p st requestId \<longleftrightarrow>
     (case jm_get (pendingByCorrelationId st) requestId of None \<Rightarrow> False | Some existing \<Rightarrow> existing \<noteq> p)"

text \<open>\<open>None\<close> is the error: an id is already registered.\<close>

definition registerRestPendingRequest :: "nat \<Rightarrow> rest_pending \<Rightarrow> rest_pending option" where
  "registerRestPendingRequest p st =
     (if list_ex (owned_by_other p st) (ids_of st p) then None
      else let isAlreadyRegistered = list_ex (\<lambda>i. jm_get (pendingByCorrelationId st) i = Some p) (ids_of st p);
               st1 = st\<lparr>pendingByCorrelationId := fold (\<lambda>i m. jm_set i p m) (ids_of st p) (pendingByCorrelationId st)\<rparr>
           in Some (if \<not> isAlreadyRegistered then st1\<lparr>logicalPendingCount := logicalPendingCount st1 + 1\<rparr> else st1))"

text \<open>The timers cleared are the first result.\<close>

definition clear_ids :: "nat \<Rightarrow> string list \<Rightarrow> bool \<times> (string, nat) jsmap \<Rightarrow> bool \<times> (string, nat) jsmap" where
  "clear_ids p ids s =
     fold (\<lambda>i (removed, m). if jm_get m i = Some p then (True, jm_del i m) else (removed, m)) ids s"

definition clearRestPendingRequest :: "nat \<Rightarrow> rest_pending \<Rightarrow> nat list \<times> rest_pending" where
  "clearRestPendingRequest p st =
     (let (cleared, st1) =
        (case ackRetryTimer (pr_heap st p) of
           None \<Rightarrow> ([], st)
         | Some h \<Rightarrow> ([h], st\<lparr>pr_heap := (pr_heap st)(p := (pr_heap st p)\<lparr>ackRetryTimer := None\<rparr>)\<rparr>));
          (removed, m) = clear_ids p (ids_of st1 p) (False, pendingByCorrelationId st1);
          st2 = st1\<lparr>pendingByCorrelationId := m\<rparr>
      in (cleared, if removed then st2\<lparr>logicalPendingCount := max 0 (logicalPendingCount st2 - 1)\<rparr> else st2))"

fun findRestPendingRequestByIds :: "string \<Rightarrow> string list \<Rightarrow> rest_pending \<Rightarrow> nat option" where
  "findRestPendingRequestByIds socketId [] st = None"
| "findRestPendingRequestByIds socketId (i # is) st =
     (case jm_get (pendingByCorrelationId st) i of
        None \<Rightarrow> findRestPendingRequestByIds socketId is st
      | Some p \<Rightarrow> if pr_socketId (pr_heap st p) = socketId then Some p else findRestPendingRequestByIds socketId is st)"

definition getRestPendingRequestByCorrelationId :: "string \<Rightarrow> rest_pending \<Rightarrow> nat option" where
  "getRestPendingRequestByCorrelationId correlationId st = jm_get (pendingByCorrelationId st) correlationId"

definition hasRestPendingCorrelationId :: "string \<Rightarrow> rest_pending \<Rightarrow> bool" where
  "hasRestPendingCorrelationId correlationId st = jm_has (pendingByCorrelationId st) correlationId"

text \<open>The two other registries the ids must be free in are arguments. \<open>None\<close> is the error of the registration,
  which the loop before it excludes.\<close>

definition tryRegisterRestPendingRequest ::
  "(string \<Rightarrow> bool) \<Rightarrow> (string \<Rightarrow> bool) \<Rightarrow> nat \<Rightarrow> rest_pending \<Rightarrow> (bool \<times> rest_pending) option" where
  "tryRegisterRestPendingRequest hasActiveStreamRouteForRequestId hasRelayRequestRoute p st =
     (if list_ex (\<lambda>i. owned_by_other p st i \<or> hasActiveStreamRouteForRequestId i \<or> hasRelayRequestRoute i) (ids_of st p)
      then Some (False, st)
      else map_option (\<lambda>st'. (True, st')) (registerRestPendingRequest p st))"

definition getRestPendingRequestCount :: "rest_pending \<Rightarrow> int" where
  "getRestPendingRequestCount st = logicalPendingCount st"

text \<open>The objects \<^verbatim>\<open>forEachUniqueRestPendingRequest\<close> visits, in order.\<close>

fun visit_unique :: "nat list \<Rightarrow> nat list \<Rightarrow> nat list" where
  "visit_unique [] seen = []"
| "visit_unique (p # ps) seen = (if p \<in> set seen then visit_unique ps seen else p # visit_unique ps (seen @ [p]))"

definition forEachUniqueRestPendingRequest :: "rest_pending \<Rightarrow> nat list" where
  "forEachUniqueRestPendingRequest st = visit_unique (map snd (pendingByCorrelationId st)) []"

definition resetRestPendingRequestsStore :: "rest_pending \<Rightarrow> nat list \<times> rest_pending" where
  "resetRestPendingRequestsStore st =
     (let ps = forEachUniqueRestPendingRequest st
      in (concat (map (\<lambda>p. (case ackRetryTimer (pr_heap st p) of None \<Rightarrow> [] | Some h \<Rightarrow> [h]) @ [timeoutHandle (pr_heap st p)]) ps),
          st\<lparr>pr_heap := fold (\<lambda>p heap. heap(p := (heap p)\<lparr>ackRetryTimer := None\<rparr>)) ps (pr_heap st),
             pendingByCorrelationId := [], logicalPendingCount := 0\<rparr>))"

section \<open>The registry as a machine\<close>

text \<open>The acknowledgement of a request, made by the handlers that hold the object.\<close>

definition set_ack :: "nat \<Rightarrow> bool \<Rightarrow> nat option \<Rightarrow> int \<Rightarrow> rest_pending \<Rightarrow> rest_pending" where
  "set_ack p a timer n st =
     st\<lparr>pr_heap := (pr_heap st)(p := (pr_heap st p)\<lparr>acked := a, ackRetryTimer := timer, ackRetriesAttempted := n\<rparr>)\<rparr>"

inductive rp_step :: "rest_pending \<Rightarrow> rest_pending \<Rightarrow> bool" where
  rp_register: "ids_of st p \<noteq> [] \<Longrightarrow> registerRestPendingRequest p st = Some st' \<Longrightarrow> rp_step st st'"
| rp_try: "ids_of st p \<noteq> [] \<Longrightarrow> tryRegisterRestPendingRequest f g p st = Some (b, st') \<Longrightarrow> rp_step st st'"
| rp_clear: "rp_step st (snd (clearRestPendingRequest p st))"
| rp_ack: "rp_step st (set_ack p a timer n st)"
| rp_reset: "rp_step st (snd (resetRestPendingRequestsStore st))"

text \<open>A registered object is registered under all its ids and no others, and the count is the number of objects.\<close>

definition rp_inv :: "rest_pending \<Rightarrow> bool" where
  "rp_inv st \<longleftrightarrow> jm_wf (pendingByCorrelationId st) \<and>
     (\<forall>i p. jm_get (pendingByCorrelationId st) i = Some p \<longrightarrow> i \<in> set (ids_of st p)) \<and>
     (\<forall>i j p. jm_get (pendingByCorrelationId st) i = Some p \<longrightarrow> j \<in> set (ids_of st p) \<longrightarrow>
        jm_get (pendingByCorrelationId st) j = Some p) \<and>
     logicalPendingCount st = int (card (snd ` set (pendingByCorrelationId st)))"

lemma fold_set_get: "jm_get (fold (\<lambda>i m. jm_set i p m) ids m) k = (if k \<in> set ids then Some p else jm_get m k)"
  by (induction ids arbitrary: m) auto

lemma fold_set_wf: "jm_wf m \<Longrightarrow> jm_wf (fold (\<lambda>i m. jm_set i p m) ids m)"
  by (induction ids arbitrary: m) auto

lemma clear_ids_spec:
  assumes "jm_wf m" "clear_ids p ids (r, m) = (r', m')"
  shows "jm_wf m' \<and> (\<forall>k. jm_get m' k = (if k \<in> set ids \<and> jm_get m k = Some p then None else jm_get m k)) \<and>
    (r' \<longleftrightarrow> r \<or> (\<exists>k\<in>set ids. jm_get m k = Some p))"
  using assms
proof (induction ids arbitrary: r m)
  case Nil
  then show ?case by (auto simp: clear_ids_def)
next
  case (Cons i ids)
  have unf: "clear_ids p (i # ids) (r, m) = clear_ids p ids (if jm_get m i = Some p then (True, jm_del i m) else (r, m))"
    by (simp add: clear_ids_def)
  show ?case
  proof (cases "jm_get m i = Some p")
    case True
    then show ?thesis using Cons.prems unf Cons.IH[of "jm_del i m" True] by auto
  next
    case False
    then show ?thesis using Cons.prems unf Cons.IH[of m r] by auto
  qed
qed

lemma values_image: "jm_wf m \<Longrightarrow> snd ` set m = {p. \<exists>i. jm_get m i = Some p}"
  by (force simp: jm_get_iff_in_set)

lemma rp_invD:
  assumes "rp_inv st" "jm_get (pendingByCorrelationId st) i = Some p"
  shows "i \<in> set (ids_of st p)" "j \<in> set (ids_of st p) \<Longrightarrow> jm_get (pendingByCorrelationId st) j = Some p"
  using assms unfolding rp_inv_def by blast+

lemma rp_inv_cong:
  "ids_of st' = ids_of st \<Longrightarrow> pendingByCorrelationId st' = pendingByCorrelationId st \<Longrightarrow>
     logicalPendingCount st' = logicalPendingCount st \<Longrightarrow> rp_inv st' = rp_inv st"
  by (simp add: rp_inv_def)

lemma rp_inv_register:
  assumes inv: "rp_inv st" and ne: "ids_of st p \<noteq> []" and r: "registerRestPendingRequest p st = Some st'"
  shows "rp_inv st'"
proof -
  define m m' where "m = pendingByCorrelationId st" and "m' = fold (\<lambda>i m. jm_set i p m) (ids_of st p) m"
  have wf: "jm_wf m" using inv by (simp add: rp_inv_def m_def)
  then have wf': "jm_wf m'" unfolding m'_def by (rule fold_set_wf)
  have free: "\<not> owned_by_other p st i" if "i \<in> set (ids_of st p)" for i
    using r that by (auto simp: registerRestPendingRequest_def list_ex_iff split: if_splits)
  have get: "jm_get m' k = (if k \<in> set (ids_of st p) then Some p else jm_get m k)" for k
    unfolding m'_def by (rule fold_set_get)
  have ids: "ids_of st' = ids_of st" and pm: "pendingByCorrelationId st' = m'"
    using r by (auto simp: registerRestPendingRequest_def ids_of_def m_def m'_def Let_def split: if_splits)
  have keep: "jm_get m' k = jm_get m k" if "jm_get m k \<noteq> None" for k
    using that free[of k] get by (auto simp: owned_by_other_def m_def split: option.splits)
  have vals: "snd ` set m' = insert p (snd ` set m)"
  proof -
    obtain k where "k \<in> set (ids_of st p)" using ne by (cases "ids_of st p") auto
    then have "jm_get m' k = Some p" using get by simp
    moreover have "\<exists>i. jm_get m' i = Some q" if "jm_get m i = Some q" for i q using keep[of i] that by auto
    moreover have "q = p \<or> jm_get m i = Some q" if "jm_get m' i = Some q" for i q using that get[of i] by (simp split: if_splits)
    ultimately show ?thesis unfolding values_image[OF wf] values_image[OF wf'] by blast
  qed
  have reg: "list_ex (\<lambda>i. jm_get m i = Some p) (ids_of st p) \<longleftrightarrow> p \<in> snd ` set m"
    unfolding values_image[OF wf] list_ex_iff using rp_invD(1)[OF inv, of _ p, folded m_def] by blast
  have "logicalPendingCount st' = logicalPendingCount st + (if p \<in> snd ` set m then 0 else 1)"
    unfolding reg[symmetric] using r by (auto simp: registerRestPendingRequest_def Let_def m_def split: if_splits)
  moreover have "logicalPendingCount st = int (card (snd ` set m))" using inv by (simp add: rp_inv_def m_def)
  ultimately have cnt: "logicalPendingCount st' = int (card (snd ` set m'))"
    unfolding vals by (simp add: card_insert_if)
  show ?thesis
    unfolding rp_inv_def ids pm
  proof (intro conjI allI impI)
    fix i j q assume a: "jm_get m' i = Some q"
    show "i \<in> set (ids_of st q)" using a get rp_invD(1)[OF inv, of i q] by (auto simp: m_def split: if_splits)
    assume j: "j \<in> set (ids_of st q)"
    show "jm_get m' j = Some q"
    proof (cases "q = p")
      case True
      then show ?thesis using j get by simp
    next
      case False
      then have "jm_get m i = Some q" using a get by (auto split: if_splits)
      then have "jm_get m j = Some q" using rp_invD(2)[OF inv, of i q j] j by (simp add: m_def)
      then show ?thesis using keep[of j] by simp
    qed
  qed (use wf' cnt in auto)
qed

lemma clear_fields:
  assumes "clear_ids p (ids_of st p) (False, pendingByCorrelationId st) = (removed, m')"
  shows "ids_of (snd (clearRestPendingRequest p st)) = ids_of st"
    "pendingByCorrelationId (snd (clearRestPendingRequest p st)) = m'"
    "logicalPendingCount (snd (clearRestPendingRequest p st)) =
       (if removed then max 0 (logicalPendingCount st - 1) else logicalPendingCount st)"
proof -
  define st1 where "st1 = (case ackRetryTimer (pr_heap st p) of None \<Rightarrow> st
     | Some h \<Rightarrow> st\<lparr>pr_heap := (pr_heap st)(p := (pr_heap st p)\<lparr>ackRetryTimer := None\<rparr>)\<rparr>)"
  have st1: "ids_of st1 = ids_of st" "pendingByCorrelationId st1 = pendingByCorrelationId st"
    "logicalPendingCount st1 = logicalPendingCount st"
    by (auto simp: st1_def ids_of_def fun_eq_iff split: option.splits)
  have "snd (clearRestPendingRequest p st) =
      (if removed then st1\<lparr>pendingByCorrelationId := m', logicalPendingCount := max 0 (logicalPendingCount st1 - 1)\<rparr>
       else st1\<lparr>pendingByCorrelationId := m'\<rparr>)"
    using assms st1 by (simp add: clearRestPendingRequest_def Let_def st1_def split: option.splits)
  then show "ids_of (snd (clearRestPendingRequest p st)) = ids_of st"
    "pendingByCorrelationId (snd (clearRestPendingRequest p st)) = m'"
    "logicalPendingCount (snd (clearRestPendingRequest p st)) =
       (if removed then max 0 (logicalPendingCount st - 1) else logicalPendingCount st)"
    using st1 by (auto simp: ids_of_def fun_eq_iff)
qed

lemma rp_inv_clear:
  assumes inv: "rp_inv st"
  shows "rp_inv (snd (clearRestPendingRequest p st))"
proof -
  define m where "m = pendingByCorrelationId st"
  obtain removed m' where c: "clear_ids p (ids_of st p) (False, m) = (removed, m')"
    by (cases "clear_ids p (ids_of st p) (False, m)")
  have wf: "jm_wf m" using inv by (simp add: rp_inv_def m_def)
  note cs = clear_ids_spec[OF wf c]
  define st' where "st' = snd (clearRestPendingRequest p st)"
  have st': "ids_of st' = ids_of st" "pendingByCorrelationId st' = m'"
      "logicalPendingCount st' = (if removed then max 0 (logicalPendingCount st - 1) else logicalPendingCount st)"
    unfolding st'_def using clear_fields[OF c[unfolded m_def]] by auto
  have get: "jm_get m' k = (if jm_get m k = Some p then None else jm_get m k)" for k
    using cs rp_invD(1)[OF inv, of k p, folded m_def] by (cases "jm_get m k = Some p") simp_all
  have rm: "removed \<longleftrightarrow> p \<in> snd ` set m"
    unfolding values_image[OF wf] using cs rp_invD(1)[OF inv, of _ p, folded m_def] by blast
  have vals: "snd ` set m' = snd ` set m - {p}"
  proof -
    have wf2: "jm_wf m'" using cs by blast
    have eq: "jm_get m' i = Some q \<longleftrightarrow> jm_get m i = Some q \<and> q \<noteq> p" for i q using get[of i] by auto
    show ?thesis unfolding values_image[OF wf] values_image[OF wf2] eq by blast
  qed
  have "logicalPendingCount st' = int (card (snd ` set m'))"
  proof (cases "p \<in> snd ` set m")
    case True
    then have "card (snd ` set m') = card (snd ` set m) - 1" "0 < card (snd ` set m)"
      unfolding vals by (auto simp: card_gt_0_iff)
    then show ?thesis using st'(3) rm True inv by (auto simp: rp_inv_def m_def)
  next
    case False
    then have "snd ` set m' = snd ` set m" using vals by auto
    then show ?thesis using st'(3) rm False inv by (simp add: rp_inv_def m_def)
  qed
  moreover have "i \<in> set (ids_of st q)" "j \<in> set (ids_of st q) \<Longrightarrow> jm_get m' j = Some q" if "jm_get m' i = Some q" for i j q
  proof -
    have old: "jm_get m i = Some q" "q \<noteq> p" using that get[of i] by (auto split: if_splits)
    show "i \<in> set (ids_of st q)" by (rule rp_invD(1)[OF inv old(1)[unfolded m_def]])
    assume "j \<in> set (ids_of st q)"
    then have "jm_get m j = Some q" unfolding m_def by (rule rp_invD(2)[OF inv old(1)[unfolded m_def]])
    then show "jm_get m' j = Some q" using get[of j] old(2) by simp
  qed
  ultimately show ?thesis unfolding rp_inv_def st'_def[symmetric] st' using cs by blast
qed

interpretation rp: invariant_system "new_rest_pending heap" rp_step rp_inv for heap
proof unfold_locales
  show "rp_inv (new_rest_pending heap)" by (simp add: rp_inv_def new_rest_pending_def)
next
  fix st st' assume inv: "rp_inv st" and "rp_step st st'"
  from this(2) show "rp_inv st'"
  proof cases
    case (rp_register p)
    then show ?thesis using rp_inv_register[OF inv] by blast
  next
    case (rp_try p f g b)
    then show ?thesis
      using inv rp_inv_register[OF inv, of p st'] by (auto simp: tryRegisterRestPendingRequest_def split: if_splits)
  next
    case (rp_clear p)
    then show ?thesis using rp_inv_clear[OF inv] by simp
  next
    case (rp_ack p a timer n)
    have "ids_of st' = ids_of st" using rp_ack by (auto simp: ids_of_def set_ack_def fun_eq_iff)
    then show ?thesis using inv rp_ack rp_inv_cong[of st' st] by (simp add: set_ack_def)
  next
    case rp_reset
    then show ?thesis by (simp add: rp_inv_def resetRestPendingRequestsStore_def Let_def)
  qed
qed

section \<open>Properties\<close>

lemma visit_unique_spec: "distinct (visit_unique ps seen) \<and> set (visit_unique ps seen) = set ps - set seen"
  by (induction ps seen rule: visit_unique.induct) auto

lemma find_sound:
  "findRestPendingRequestByIds s is st = Some p \<Longrightarrow>
     pr_socketId (pr_heap st p) = s \<and> (\<exists>i\<in>set is. jm_get (pendingByCorrelationId st) i = Some p)"
  by (induction s "is" st rule: findRestPendingRequestByIds.induct) (auto split: option.splits if_splits)

text \<open>In every reachable registry of pending REST requests, whose requests have at least one correlation id,
  the logical count is the number of distinct requests registered, the ones a traversal visits once
  each; a request is registered under all its ids or under none; and a response is matched only to
  a request of the socket it came from, registered under one of the ids given.\<close>

theorem rest_pending_registry_exact:
  assumes "reachable (new_rest_pending heap) rp_step st"
  shows "getRestPendingRequestCount st = int (length (forEachUniqueRestPendingRequest st)) \<and>
    distinct (forEachUniqueRestPendingRequest st) \<and>
    (\<forall>p i. jm_get (pendingByCorrelationId st) i = Some p \<longrightarrow>
       (\<forall>j. j \<in> set (ids_of st p) \<longleftrightarrow> jm_get (pendingByCorrelationId st) j = Some p)) \<and>
    (\<forall>p. findRestPendingRequestByIds s is st = Some p \<longrightarrow>
       pr_socketId (pr_heap st p) = s \<and> (\<exists>i\<in>set is. i \<in> set (ids_of st p)))"
proof -
  have inv: "rp_inv st" by (rule rp.inv_reachable[OF assms])
  have u: "distinct (forEachUniqueRestPendingRequest st)"
      "set (forEachUniqueRestPendingRequest st) = snd ` set (pendingByCorrelationId st)"
    using visit_unique_spec[of "map snd (pendingByCorrelationId st)" "[]"] by (simp_all add: forEachUniqueRestPendingRequest_def)
  have "getRestPendingRequestCount st = int (length (forEachUniqueRestPendingRequest st))"
    using inv u distinct_card[OF u(1)] by (simp add: getRestPendingRequestCount_def rp_inv_def)
  then show ?thesis using u(1) rp_invD[OF inv] find_sound by metis
qed

definition sample_request :: pending_request where
  "sample_request = \<lparr>primaryRequestId = ''r'', correlationIds = [''r'', ''b'', ''r''], pr_socketId = ''s'', pr_agentId = ''a'',
     createdAtMs = 0, timeoutHandle = 7, acked = False, ackRetryTimer = None, ackRetriesAttempted = 0\<rparr>"

theorem rest_pending_registry_exact_witness:
  "\<exists>st. registerRestPendingRequest 0 (new_rest_pending (\<lambda>_. sample_request)) = Some st \<and>
     getRestPendingRequestCount st = 1 \<and> getRestPendingRequestCount st = int (length (forEachUniqueRestPendingRequest st))"
proof -
  define st where "st = the (registerRestPendingRequest 0 (new_rest_pending (\<lambda>_. sample_request)))"
  have st: "registerRestPendingRequest 0 (new_rest_pending (\<lambda>_. sample_request)) = Some st"
    by (simp add: st_def registerRestPendingRequest_def new_rest_pending_def owned_by_other_def list_ex_iff Let_def)
  have "rp_step (new_rest_pending (\<lambda>_. sample_request)) st"
    by (rule rp_register[OF _ st]) (simp add: ids_of_def new_rest_pending_def sample_request_def)
  then have "reachable (new_rest_pending (\<lambda>_. sample_request)) rp_step st" by (rule reachable.reach_step[OF reachable.reach_init])
  moreover have "getRestPendingRequestCount st = 1" unfolding st_def by code_simp
  ultimately show ?thesis using rest_pending_registry_exact[of "\<lambda>_. sample_request" st] st by blast
qed

end
