(* ===== verification/Inflight_Gates.thy ===== *)
theory Inflight_Gates
  imports Prelude
begin

text \<open>
  \<^verbatim>\<open>consumers/per_socket_inflight_gate.ts\<close>: the bound on concurrent operations of a consumer socket, and
  \<^verbatim>\<open>redis/connection/redis_circuit_breaker.ts\<close>: the breaker in front of the Redis modules.

  The two counters of a socket live in its data object and are created on demand. An infinite number
  of available slots is \<open>None\<close>. The breaker's thresholds are values that may be missing or not
  finite (\<open>None\<close>), the clock is an argument and its callbacks are results.
\<close>

section \<open>The gate\<close>

record gate_socket =
  inflightCounter :: "int option"
  customPublishInflightCounter :: "int option"

definition new_gate_socket :: gate_socket where
  "new_gate_socket = \<lparr>inflightCounter = None, customPublishInflightCounter = None\<rparr>"

definition count_of :: "int option \<Rightarrow> int" where
  "count_of ctx = (case ctx of None \<Rightarrow> 0 | Some n \<Rightarrow> n)"

definition tryAcquireSocketInflightSlot :: "int \<Rightarrow> gate_socket \<Rightarrow> bool \<times> gate_socket" where
  "tryAcquireSocketInflightSlot mx sock =
     (if mx \<le> 0 then (True, sock)
      else let n = count_of (inflightCounter sock)
           in if n \<ge> mx then (False, sock\<lparr>inflightCounter := Some n\<rparr>)
              else (True, sock\<lparr>inflightCounter := Some (n + 1)\<rparr>))"

definition releaseSocketInflightSlot :: "gate_socket \<Rightarrow> gate_socket" where
  "releaseSocketInflightSlot sock =
     (case inflightCounter sock of None \<Rightarrow> sock | Some n \<Rightarrow> sock\<lparr>inflightCounter := Some (max 0 (n - 1))\<rparr>)"

record acquire_slots_result =
  as_ok :: bool
  availableSlots :: "int option"
  requestedSlots :: int

definition tryAcquireSocketInflightSlots :: "int \<Rightarrow> int \<Rightarrow> gate_socket \<Rightarrow> acquire_slots_result \<times> gate_socket" where
  "tryAcquireSocketInflightSlots cnt mx sock =
     (if cnt \<le> 0 then (\<lparr>as_ok = True, availableSlots = Some mx, requestedSlots = cnt\<rparr>, sock)
      else if mx \<le> 0 then (\<lparr>as_ok = True, availableSlots = None, requestedSlots = cnt\<rparr>, sock)
      else let n = count_of (inflightCounter sock); available = max 0 (mx - n)
           in if available < cnt
              then (\<lparr>as_ok = False, availableSlots = Some available, requestedSlots = cnt\<rparr>, sock\<lparr>inflightCounter := Some n\<rparr>)
              else (\<lparr>as_ok = True, availableSlots = Some available, requestedSlots = cnt\<rparr>,
                    sock\<lparr>inflightCounter := Some (n + cnt)\<rparr>))"

definition releaseSocketInflightSlots :: "int \<Rightarrow> gate_socket \<Rightarrow> gate_socket" where
  "releaseSocketInflightSlots cnt sock =
     (if cnt \<le> 0 then sock
      else case inflightCounter sock of None \<Rightarrow> sock | Some n \<Rightarrow> sock\<lparr>inflightCounter := Some (max 0 (n - cnt))\<rparr>)"

definition tryAcquireCustomPublishInflightSlot :: "int \<Rightarrow> gate_socket \<Rightarrow> bool \<times> gate_socket" where
  "tryAcquireCustomPublishInflightSlot mx sock =
     (if mx \<le> 0 then (True, sock)
      else let n = count_of (customPublishInflightCounter sock)
           in if n \<ge> mx then (False, sock\<lparr>customPublishInflightCounter := Some n\<rparr>)
              else (True, sock\<lparr>customPublishInflightCounter := Some (n + 1)\<rparr>))"

definition releaseCustomPublishInflightSlot :: "gate_socket \<Rightarrow> gate_socket" where
  "releaseCustomPublishInflightSlot sock =
     (case customPublishInflightCounter sock of None \<Rightarrow> sock
      | Some n \<Rightarrow> sock\<lparr>customPublishInflightCounter := Some (max 0 (n - 1))\<rparr>)"

section \<open>The circuit breaker\<close>

record breaker =
  failures :: int
  openUntilMs :: int

datatype breaker_callback = OnCommandError | OnOpened | OnClosed | OnRecovered

definition DEFAULT_FAILURE_THRESHOLD :: int where
  "DEFAULT_FAILURE_THRESHOLD = 3"

definition DEFAULT_OPEN_MS :: int where
  "DEFAULT_OPEN_MS = 5000"

definition new_breaker :: breaker where
  "new_breaker = \<lparr>failures = 0, openUntilMs = 0\<rparr>"

definition failureThreshold :: "int option \<Rightarrow> int" where
  "failureThreshold configured =
     (case configured of Some v \<Rightarrow> if v \<ge> 0 then v else DEFAULT_FAILURE_THRESHOLD | None \<Rightarrow> DEFAULT_FAILURE_THRESHOLD)"

definition openMs :: "int option \<Rightarrow> int" where
  "openMs configured = (case configured of Some v \<Rightarrow> if v > 0 then v else DEFAULT_OPEN_MS | None \<Rightarrow> DEFAULT_OPEN_MS)"

definition isOpen :: "int \<Rightarrow> breaker \<Rightarrow> bool" where
  "isOpen now b \<longleftrightarrow> now < openUntilMs b"

definition recordFailure ::
  "int option \<Rightarrow> int option \<Rightarrow> int \<Rightarrow> breaker \<Rightarrow> breaker_callback list \<times> breaker" where
  "recordFailure cfgThreshold cfgOpenMs now b =
     (let b1 = b\<lparr>failures := failures b + 1\<rparr>; threshold = failureThreshold cfgThreshold
      in if threshold > 0 \<and> failures b1 \<ge> threshold
         then ([OnCommandError, OnOpened], b1\<lparr>openUntilMs := now + openMs cfgOpenMs, failures := 0\<rparr>)
         else ([OnCommandError], b1))"

definition recordSuccess :: "breaker \<Rightarrow> breaker_callback list \<times> breaker" where
  "recordSuccess b =
     (let b1 = b\<lparr>failures := 0\<rparr>
      in if openUntilMs b1 \<noteq> 0 then ([OnClosed, OnRecovered], b1\<lparr>openUntilMs := 0\<rparr>) else ([OnRecovered], b1))"

definition breaker_reset :: "breaker \<Rightarrow> breaker" where
  "breaker_reset b = b\<lparr>failures := 0, openUntilMs := 0\<rparr>"

section \<open>Operations that hold slots\<close>

text \<open>
  A socket with the operations it is running, each with the slots it holds. An operation starts with an
  acquisition and, if it got its slots, releases them when it ends.
\<close>

record gate_run =
  gr_socket :: gate_socket
  gr_held :: "int list"
  gr_publishes :: nat

inductive gate_step :: "int \<Rightarrow> int \<Rightarrow> gate_run \<Rightarrow> gate_run \<Rightarrow> bool" for mx pmx where
  gs_acquire: "gate_step mx pmx r (let (ok, s) = tryAcquireSocketInflightSlot mx (gr_socket r)
     in r\<lparr>gr_socket := s, gr_held := (if ok then 1 # gr_held r else gr_held r)\<rparr>)"
| gs_batch: "0 < n \<Longrightarrow> gate_step mx pmx r (let (res, s) = tryAcquireSocketInflightSlots n mx (gr_socket r)
     in r\<lparr>gr_socket := s, gr_held := (if as_ok res then n # gr_held r else gr_held r)\<rparr>)"
| gs_release: "1 \<in> set (gr_held r) \<Longrightarrow>
     gate_step mx pmx r (r\<lparr>gr_socket := releaseSocketInflightSlot (gr_socket r), gr_held := remove1 1 (gr_held r)\<rparr>)"
| gs_release_batch: "n \<in> set (gr_held r) \<Longrightarrow>
     gate_step mx pmx r (r\<lparr>gr_socket := releaseSocketInflightSlots n (gr_socket r), gr_held := remove1 n (gr_held r)\<rparr>)"
| gs_publish: "gate_step mx pmx r (let (ok, s) = tryAcquireCustomPublishInflightSlot pmx (gr_socket r)
     in r\<lparr>gr_socket := s, gr_publishes := (if ok then Suc (gr_publishes r) else gr_publishes r)\<rparr>)"
| gs_publish_end: "0 < gr_publishes r \<Longrightarrow>
     gate_step mx pmx r (r\<lparr>gr_socket := releaseCustomPublishInflightSlot (gr_socket r), gr_publishes := gr_publishes r - 1\<rparr>)"

definition gate_inv :: "int \<Rightarrow> int \<Rightarrow> gate_run \<Rightarrow> bool" where
  "gate_inv mx pmx r \<longleftrightarrow>
     (\<forall>n\<in>set (gr_held r). 0 < n) \<and>
     (0 < mx \<longrightarrow> count_of (inflightCounter (gr_socket r)) = sum_list (gr_held r) \<and> sum_list (gr_held r) \<le> mx) \<and>
     (0 < pmx \<longrightarrow> count_of (customPublishInflightCounter (gr_socket r)) = int (gr_publishes r) \<and> int (gr_publishes r) \<le> pmx)"

definition new_gate_run :: gate_run where
  "new_gate_run = \<lparr>gr_socket = new_gate_socket, gr_held = [], gr_publishes = 0\<rparr>"

lemmas gate_defs = tryAcquireSocketInflightSlot_def tryAcquireSocketInflightSlots_def releaseSocketInflightSlot_def
  releaseSocketInflightSlots_def tryAcquireCustomPublishInflightSlot_def releaseCustomPublishInflightSlot_def count_of_def

lemma sum_list_remove1: "x \<in> set xs \<Longrightarrow> sum_list (remove1 x xs) = sum_list xs - x" for x :: int
  by (induction xs) auto

lemma sum_list_nonneg_int: "(\<forall>n\<in>set xs. 0 < n) \<Longrightarrow> 0 \<le> sum_list xs" for xs :: "int list"
  by (induction xs) auto

lemma release_fields:
  "inflightCounter (releaseSocketInflightSlots n sock) =
     (if n \<le> 0 then inflightCounter sock else map_option (\<lambda>c. max 0 (c - n)) (inflightCounter sock))"
  "customPublishInflightCounter (releaseSocketInflightSlots n sock) = customPublishInflightCounter sock"
  "releaseSocketInflightSlot sock = releaseSocketInflightSlots 1 sock"
  "inflightCounter (releaseCustomPublishInflightSlot sock) = inflightCounter sock"
  "customPublishInflightCounter (releaseCustomPublishInflightSlot sock) =
     map_option (\<lambda>c. max 0 (c - 1)) (customPublishInflightCounter sock)"
  by (auto simp: gate_defs split: option.splits)

lemma gate_inv_release:
  assumes inv: "gate_inv mx pmx r" and n: "n \<in> set (gr_held r)"
  shows "gate_inv mx pmx (r\<lparr>gr_socket := releaseSocketInflightSlots n (gr_socket r), gr_held := remove1 n (gr_held r)\<rparr>)"
proof -
  have pos: "0 < n" "\<forall>m\<in>set (remove1 n (gr_held r)). 0 < m" using inv n by (auto simp: gate_inv_def dest: notin_set_remove1)
  have "0 \<le> sum_list (remove1 n (gr_held r))" by (rule sum_list_nonneg_int[OF pos(2)])
  then show ?thesis
    using inv pos sum_list_remove1[OF n]
    by (auto simp: gate_inv_def release_fields count_of_def split: option.splits)
qed

interpretation gate: invariant_system new_gate_run "gate_step mx pmx" "gate_inv mx pmx" for mx pmx
proof unfold_locales
  show "gate_inv mx pmx new_gate_run" by (simp add: gate_inv_def new_gate_run_def new_gate_socket_def count_of_def)
next
  fix r r' assume inv: "gate_inv mx pmx r" and "gate_step mx pmx r r'"
  from this(2) show "gate_inv mx pmx r'"
  proof cases
    case gs_acquire
    then show ?thesis using inv by (auto simp: gate_inv_def gate_defs Let_def)
  next
    case (gs_batch n)
    then show ?thesis using inv by (auto simp: gate_inv_def gate_defs Let_def)
  next
    case gs_release
    then show ?thesis using gate_inv_release[OF inv] by (simp add: release_fields(3))
  next
    case (gs_release_batch n)
    then show ?thesis using gate_inv_release[OF inv] by simp
  next
    case gs_publish
    then show ?thesis using inv by (auto simp: gate_inv_def gate_defs Let_def)
  next
    case gs_publish_end
    then show ?thesis using inv by (auto simp: gate_inv_def release_fields count_of_def split: option.splits)
  qed
qed

section \<open>Properties\<close>

text \<open>With operations that release exactly what they acquired, the counter of a socket is the number of slots
  its running operations hold and never exceeds the maximum, the publish counter is the number of
  running publishes and never exceeds its own, and a batch that does not fit takes nothing and is
  told exactly how many slots are free.\<close>

theorem inflight_gate_bounds:
  assumes "0 < mx" "0 < pmx" "reachable new_gate_run (gate_step mx pmx) r"
  shows "count_of (inflightCounter (gr_socket r)) = sum_list (gr_held r) \<and> sum_list (gr_held r) \<le> mx \<and>
    count_of (customPublishInflightCounter (gr_socket r)) = int (gr_publishes r) \<and> int (gr_publishes r) \<le> pmx \<and>
    (\<forall>n. 0 < n \<longrightarrow>
       (let (res, s) = tryAcquireSocketInflightSlots n mx (gr_socket r)
        in availableSlots res = Some (mx - sum_list (gr_held r)) \<and>
           (as_ok res \<longleftrightarrow> n \<le> mx - sum_list (gr_held r)) \<and>
           count_of (inflightCounter s) = sum_list (gr_held r) + (if as_ok res then n else 0)))"
proof -
  have "gate_inv mx pmx r" by (rule gate.inv_reachable[OF assms(3)])
  then have i: "count_of (inflightCounter (gr_socket r)) = sum_list (gr_held r)" "sum_list (gr_held r) \<le> mx"
    "count_of (customPublishInflightCounter (gr_socket r)) = int (gr_publishes r)" "int (gr_publishes r) \<le> pmx"
    using assms(1,2) by (simp_all add: gate_inv_def)
  then show ?thesis using assms(1) by (auto simp: tryAcquireSocketInflightSlots_def Let_def) (auto simp: count_of_def)
qed

theorem inflight_gate_bounds_witness:
  "\<exists>r. reachable new_gate_run (gate_step 3 1) r \<and> gr_held r = [2] \<and> count_of (inflightCounter (gr_socket r)) = 2"
proof -
  define r where "r = (let (res, s) = tryAcquireSocketInflightSlots 2 3 (gr_socket new_gate_run)
     in new_gate_run\<lparr>gr_socket := s, gr_held := (if as_ok res then 2 # gr_held new_gate_run else gr_held new_gate_run)\<rparr>)"
  have reach: "reachable new_gate_run (gate_step 3 1) r"
    unfolding r_def by (rule reachable.reach_step[OF reachable.reach_init]) (rule gs_batch, simp)
  have held: "gr_held r = [2]" unfolding r_def by code_simp
  have "count_of (inflightCounter (gr_socket r)) = sum_list (gr_held r)"
    using inflight_gate_bounds[of 3 1 r] reach by simp
  then show ?thesis using reach held by auto
qed

text \<open>Releasing after an acquisition that failed is not harmless, although \<^verbatim>\<open>releaseSocketInflightSlot\<close> is
  documented as safe to call whether or not the acquisition succeeded: with a maximum of one, a second
  operation that is refused and releases anyway frees the slot of the first, and a third is
  admitted while the first still runs.\<close>

theorem release_after_refusal_frees_a_slot:
  "let (ok1, s1) = tryAcquireSocketInflightSlot 1 new_gate_socket;
       (ok2, s2) = tryAcquireSocketInflightSlot 1 s1;
       (ok3, s3) = tryAcquireSocketInflightSlot 1 (releaseSocketInflightSlot s2)
   in ok1 \<and> \<not> ok2 \<and> ok3"
  by code_simp

text \<open>The breaker after failures at the times \<open>ts\<close>.\<close>

definition after_failures :: "int option \<Rightarrow> int option \<Rightarrow> int list \<Rightarrow> breaker \<Rightarrow> breaker" where
  "after_failures thr om ts b = fold (\<lambda>t b. snd (recordFailure thr om t b)) ts b"

lemma after_failures_spec:
  assumes k: "failureThreshold thr = int k" "0 < k" and b: "failures b = 0"
  shows "failures (after_failures thr om ts b) = int (length ts mod k) \<and>
    openUntilMs (after_failures thr om ts b) =
      (if length ts < k then openUntilMs b else ts ! (k * (length ts div k) - 1) + openMs om)"
proof (induction ts rule: rev_induct)
  case Nil
  then show ?case using b k by (simp add: after_failures_def)
next
  case (snoc t ts)
  define b1 where "b1 = after_failures thr om ts b"
  have st: "after_failures thr om (ts @ [t]) b = snd (recordFailure thr om t b1)" by (simp add: after_failures_def b1_def)
  have f: "failures b1 = int (length ts mod k)" and o: "openUntilMs b1 =
      (if length ts < k then openUntilMs b else ts ! (k * (length ts div k) - 1) + openMs om)"
    using snoc by (simp_all add: b1_def)
  show ?case
  proof (cases "Suc (length ts mod k) = k")
    case True
    then have m: "Suc (length ts) mod k = 0" "Suc (length ts) div k = Suc (length ts div k)"
      by (simp_all add: mod_Suc div_Suc)
    have "k * (Suc (length ts) div k) = Suc (length ts)"
      using m(1) mult_div_mod_eq[of k "Suc (length ts)"] by linarith
    moreover have "k \<le> Suc (length ts)" using True by (metis mod_less_eq_dividend Suc_le_mono)
    ultimately show ?thesis
      using True f k m by (simp add: st recordFailure_def Let_def nth_append)
  next
    case False
    have lt: "Suc (length ts mod k) < k" using False k(2) by (meson Suc_lessI mod_less_divisor)
    then have m: "Suc (length ts) mod k = Suc (length ts mod k)" "Suc (length ts) div k = length ts div k"
      using False by (simp_all add: mod_Suc div_Suc)
    have no: "\<not> failures b1 + 1 \<ge> int k" using lt f by simp
    have lk: "length ts < k \<longleftrightarrow> Suc (length ts) < k" using lt by (metis False Suc_lessD Suc_lessI mod_less)
    have ix: "k * (length ts div k) - 1 < length ts" if "\<not> length ts < k"
    proof -
      have "k * (length ts div k) \<le> length ts" by simp
      moreover have "0 < length ts" using that k(2) by linarith
      ultimately show ?thesis by linarith
    qed
    show ?thesis
      using no f o k m lk ix by (simp add: st recordFailure_def Let_def nth_append)
  qed
qed

text \<open>The breaker of the Redis modules opens exactly at the threshold. From a state with no failure counted,
  after failures at the given times with no success between them, the breaker has opened at every
  multiple of the threshold: it is open at a time iff that time is within the open period after
  the last such failure, or, before the threshold is reached, iff it was; and a success closes it.\<close>

theorem circuit_opens_exactly_at_threshold:
  assumes "failureThreshold thr = int k" "0 < k" "failures b = 0"
  shows "(isOpen now (after_failures thr om ts b) \<longleftrightarrow>
      (if length ts < k then isOpen now b else now < ts ! (k * (length ts div k) - 1) + openMs om)) \<and>
    failures (after_failures thr om ts b) < int k \<and>
    (0 \<le> now \<longrightarrow> \<not> isOpen now (snd (recordSuccess (after_failures thr om ts b))))"
  using after_failures_spec[OF assms, of om ts] assms(2)
  by (auto simp: isOpen_def recordSuccess_def Let_def)

theorem circuit_opens_exactly_at_threshold_witness:
  "isOpen 5019 (after_failures None (Some (- 1)) [1, 7, 20] new_breaker) \<and>
   \<not> isOpen 5020 (after_failures None (Some (- 1)) [1, 7, 20] new_breaker) \<and>
   \<not> isOpen 20 (after_failures None (Some (- 1)) [1, 7] new_breaker)"
  using circuit_opens_exactly_at_threshold[of None 3 new_breaker 5019 "Some (- 1)" "[1, 7, 20]"]
    circuit_opens_exactly_at_threshold[of None 3 new_breaker 5020 "Some (- 1)" "[1, 7, 20]"]
    circuit_opens_exactly_at_threshold[of None 3 new_breaker 20 "Some (- 1)" "[1, 7]"]
  by (simp add: failureThreshold_def DEFAULT_FAILURE_THRESHOLD_def openMs_def DEFAULT_OPEN_MS_def new_breaker_def isOpen_def)

end
