(* ===== verification/Relay_Outbound_Queue.thy ===== *)
theory Relay_Outbound_Queue
  imports Registry_Index Latency_Stats
begin

text \<open>
  \<^verbatim>\<open>presentation/socket/hub/relay/relay_outbound_queue.ts\<close>: the queue that serializes the emits of the hub to a
  consumer, per request id, with its backlog and byte accounting and its overload state.

  Promises and tail entries are objects the code shares by reference, so both live in a heap: a tail entry
  is an index into \<open>ob_entries\<close>, and the promise of an enqueued job is the index of the job in \<open>ob_jobs\<close>. A job runs
  when the promise it was chained on has settled; its two halves, before and after the awaited work, are the steps
  \<open>job_start\<close> and \<open>job_finish\<close>. Clock readings and whether the work threw are arguments. Durations are
  integers in the resolution of \<^verbatim>\<open>performance.now()\<close>; the floating-point expressions (the rank of a percentile, the
  rounding by \<^verbatim>\<open>toFixed\<close>, the average) are functions of the environment record.
\<close>

section \<open>State\<close>

datatype job_phase = Chained | Running int | Settled

datatype job_priority = Normal | Control
datatype shed_policy = ShedReject | ShedAllow

record outbound_job =
  oj_requestId :: string
  oj_entry :: nat
  oj_consumer :: "string option"
  oj_bytes :: int
  oj_priority :: job_priority
  oj_prev :: "nat option"
  oj_phase :: job_phase

record tail_entry =
  te_tail :: "nat option"
  pendingJobs :: int
  activeJobs :: int
  lastActivityAtMs :: int
  backlogStartedAtMs :: int

datatype overload_reason = Backlog | P95Latency

record overload_cache =
  oc_overloaded :: bool
  oc_reason :: "overload_reason option"
  oc_retryAfterMs :: int
  oc_p95Ms :: int
  oc_p99Ms :: int
  oc_backlog :: int
  oc_computedAtMs :: int

record outbound_queue =
  tailByRequestId :: "(string, nat) jsmap"
  ob_entries :: "tail_entry list"
  ob_jobs :: "outbound_job list"
  jobsEnqueuedTotal :: int
  jobsFinishedTotal :: int
  jobsFailedTotal :: int
  jobsSweptOrphanedTotal :: int
  overloadRejectedTotal :: int
  orphanedTailsSweptTotal :: int
  jobDurationSumMs :: int
  jobDurationMaxMs :: int
  durationRing :: "int ring"
  overloadStateRefreshTotal :: int
  cachedOrphanedRequestIds :: int
  overloadStateCache :: overload_cache
  pendingBytes :: int
  shedRejectedTotal :: int
  hardRejectedTotal :: int
  pendingBytesByConsumer :: "string counter"
  requestIdsByConsumer :: "(string, string) index"

record ob_env =
  tailStaleMs :: int
  sweepIntervalMs :: int
  overloadBacklog :: int
  overloadBacklogExit :: int
  overloadP95Ms :: int
  overloadP95ExitMs :: int
  maxPendingBytes :: int
  maxPendingBytesPerConsumer :: int
  maxPendingRequestIdsPerConsumer :: int
  ceilRank :: "int \<Rightarrow> nat \<Rightarrow> int"
  fixed2 :: "int \<Rightarrow> int"
  avgFixed4 :: "int \<Rightarrow> int \<Rightarrow> int"

definition durationSamplesSize :: nat where
  "durationSamplesSize = 256"

definition initial_overload_cache :: overload_cache where
  "initial_overload_cache = \<lparr>oc_overloaded = False, oc_reason = None, oc_retryAfterMs = 0, oc_p95Ms = 0,
     oc_p99Ms = 0, oc_backlog = 0, oc_computedAtMs = 0\<rparr>"

definition new_outbound_queue :: outbound_queue where
  "new_outbound_queue = \<lparr>tailByRequestId = [], ob_entries = [], ob_jobs = [], jobsEnqueuedTotal = 0,
     jobsFinishedTotal = 0, jobsFailedTotal = 0, jobsSweptOrphanedTotal = 0, overloadRejectedTotal = 0,
     orphanedTailsSweptTotal = 0, jobDurationSumMs = 0, jobDurationMaxMs = 0,
     durationRing = createLatencyRingBuffer durationSamplesSize, overloadStateRefreshTotal = 0,
     cachedOrphanedRequestIds = 0, overloadStateCache = initial_overload_cache, pendingBytes = 0,
     shedRejectedTotal = 0, hardRejectedTotal = 0, pendingBytesByConsumer = [], requestIdsByConsumer = []\<rparr>"

section \<open>Backlog and overload state\<close>

definition deriveBacklog :: "outbound_queue \<Rightarrow> int" where
  "deriveBacklog q = max 0 (jobsEnqueuedTotal q - jobsFinishedTotal q - jobsSweptOrphanedTotal q)"

definition isTailEntryOrphaned :: "ob_env \<Rightarrow> int \<Rightarrow> tail_entry \<Rightarrow> bool" where
  "isTailEntryOrphaned env now e \<longleftrightarrow> pendingJobs e = 0 \<and> activeJobs e = 0 \<and> now - lastActivityAtMs e \<ge> tailStaleMs env"

definition countOrphanedRequestIds :: "ob_env \<Rightarrow> int \<Rightarrow> outbound_queue \<Rightarrow> int" where
  "countOrphanedRequestIds env now q =
     jm_size (filter (\<lambda>(_, h). isTailEntryOrphaned env now (ob_entries q ! h)) (tailByRequestId q))"

fun oldest_start :: "tail_entry list \<Rightarrow> int option \<Rightarrow> int option" where
  "oldest_start [] oldest = oldest"
| "oldest_start (e # es) oldest =
     oldest_start es
       (if pendingJobs e = 0 \<and> activeJobs e = 0 then oldest
        else case oldest of
               None \<Rightarrow> Some (backlogStartedAtMs e)
             | Some t \<Rightarrow> if backlogStartedAtMs e < t then Some (backlogStartedAtMs e) else oldest)"

definition oldestPendingAgeMs :: "int \<Rightarrow> outbound_queue \<Rightarrow> int" where
  "oldestPendingAgeMs now q =
     (case oldest_start (map (\<lambda>(_, h). ob_entries q ! h) (tailByRequestId q)) None of
        None \<Rightarrow> 0
      | Some t \<Rightarrow> max 0 (now - t))"

definition retryAfterFromSweep :: "ob_env \<Rightarrow> int" where
  "retryAfterFromSweep env = max 250 (min (sweepIntervalMs env) 1000)"

text \<open>The pair of the enter and the exit threshold.\<close>

definition resolveBacklogThresholds :: "ob_env \<Rightarrow> int \<times> int" where
  "resolveBacklogThresholds env =
     (overloadBacklog env, if overloadBacklogExit env > 0 then overloadBacklogExit env else overloadBacklog env)"

definition resolveP95Thresholds :: "ob_env \<Rightarrow> int \<times> int" where
  "resolveP95Thresholds env =
     (overloadP95Ms env, if overloadP95ExitMs env > 0 then overloadP95ExitMs env else overloadP95Ms env)"

definition computeOverloadSignals :: "ob_env \<Rightarrow> int \<Rightarrow> int \<Rightarrow> bool \<Rightarrow> bool \<times> bool" where
  "computeOverloadSignals env backlog p95 wasOverloaded =
     (let (bEnter, bExit) = resolveBacklogThresholds env; (pEnter, pExit) = resolveP95Thresholds env
      in (bEnter > 0 \<and> (if wasOverloaded then backlog \<ge> bExit else backlog \<ge> bEnter),
          pEnter > 0 \<and> (if wasOverloaded then p95 \<ge> pExit else p95 \<ge> pEnter)))"

definition overload_reason_of :: "bool \<times> bool \<Rightarrow> overload_reason option" where
  "overload_reason_of sig = (if fst sig then Some Backlog else if snd sig then Some P95Latency else None)"

definition updateOverloadStateCache ::
    "ob_env \<Rightarrow> int option \<Rightarrow> int option \<Rightarrow> int \<Rightarrow> outbound_queue \<Rightarrow> outbound_queue" where
  "updateOverloadStateCache env p95Input p99Input now q =
     (let backlog = deriveBacklog q;
          p95 = (case p95Input of Some p \<Rightarrow> p | None \<Rightarrow> oc_p95Ms (overloadStateCache q));
          p99 = (case p99Input of Some p \<Rightarrow> p | None \<Rightarrow> oc_p99Ms (overloadStateCache q));
          sig = computeOverloadSignals env backlog p95 (oc_overloaded (overloadStateCache q));
          over = (fst sig \<or> snd sig)
      in q\<lparr>overloadStateCache := \<lparr>oc_overloaded = over, oc_reason = overload_reason_of sig,
             oc_retryAfterMs = (if over then retryAfterFromSweep env else 0), oc_p95Ms = p95, oc_p99Ms = p99,
             oc_backlog = backlog, oc_computedAtMs = now\<rparr>\<rparr>)"

definition updateBacklogOnlyOverloadStateCache :: "ob_env \<Rightarrow> outbound_queue \<Rightarrow> outbound_queue" where
  "updateBacklogOnlyOverloadStateCache env q =
     (let backlog = deriveBacklog q; c = overloadStateCache q;
          sig = computeOverloadSignals env backlog (oc_p95Ms c) (oc_overloaded c);
          over = (fst sig \<or> snd sig)
      in q\<lparr>overloadStateCache := c\<lparr>oc_overloaded := over, oc_reason := overload_reason_of sig,
             oc_retryAfterMs := (if over then retryAfterFromSweep env else 0), oc_backlog := backlog\<rparr>\<rparr>)"

text \<open>The rounded percentile of the samples; the quickselect always returns (\<open>percentile_is_order_statistic\<close> of
  the theory of the statistics), so the default is never used.\<close>

definition ring_percentile :: "ob_env \<Rightarrow> int \<Rightarrow> outbound_queue \<Rightarrow> int" where
  "ring_percentile env p q =
     (let vals = latencyRingBufferValues (durationRing q)
      in fixed2 env (case percentile vals (ceilRank env p (length vals)) of Some v \<Rightarrow> v | None \<Rightarrow> 0))"

definition refreshRelayOutboundQueueOverloadState :: "ob_env \<Rightarrow> int \<Rightarrow> outbound_queue \<Rightarrow> outbound_queue" where
  "refreshRelayOutboundQueueOverloadState env now q =
     (let q1 = q\<lparr>cachedOrphanedRequestIds := countOrphanedRequestIds env now q\<rparr>;
          q2 = updateOverloadStateCache env (Some (ring_percentile env 95 q1)) (Some (ring_percentile env 99 q1)) now q1
      in q2\<lparr>overloadStateRefreshTotal := overloadStateRefreshTotal q2 + 1\<rparr>)"

definition sweepRelayOutboundQueueState :: "ob_env \<Rightarrow> int \<Rightarrow> outbound_queue \<Rightarrow> int \<times> outbound_queue" where
  "sweepRelayOutboundQueueState env now q =
     (let orphan = (\<lambda>(_, h). isTailEntryOrphaned env now (ob_entries q ! h));
          gone = filter orphan (tailByRequestId q); swept = jm_size gone;
          q1 = q\<lparr>tailByRequestId := filter (\<lambda>p. \<not> orphan p) (tailByRequestId q),
                 jobsSweptOrphanedTotal := jobsSweptOrphanedTotal q + jm_sum (\<lambda>h. pendingJobs (ob_entries q ! h)) gone,
                 orphanedTailsSweptTotal := orphanedTailsSweptTotal q + swept\<rparr>
      in (swept, refreshRelayOutboundQueueOverloadState env now q1))"

record outbound_snapshot =
  os_jobsEnqueuedTotal :: int
  os_jobsFinishedTotal :: int
  os_jobsFailedTotal :: int
  os_overloadRejectedTotal :: int
  os_orphanedTailsSweptTotal :: int
  os_jobDurationSumMs :: int
  os_jobDurationAvgMs :: int
  os_jobDurationMaxMs :: int
  os_jobDurationP95Ms :: int
  os_jobDurationP99Ms :: int
  os_inflightRequestIds :: int
  os_orphanedRequestIds :: int
  os_backlog :: int
  os_overloadStateRefreshTotal :: int
  os_overloadCacheP95Ms :: int
  os_overloadCacheComputedAtMs :: int
  os_pendingBytes :: int
  os_shedRejectedTotal :: int
  os_hardRejectedTotal :: int
  os_oldestPendingAgeMs :: int

definition getFastMetricsSnapshot :: "ob_env \<Rightarrow> int \<Rightarrow> outbound_queue \<Rightarrow> outbound_snapshot" where
  "getFastMetricsSnapshot env now q =
     (let finished = jobsFinishedTotal q; c = overloadStateCache q
      in \<lparr>os_jobsEnqueuedTotal = jobsEnqueuedTotal q, os_jobsFinishedTotal = finished,
          os_jobsFailedTotal = jobsFailedTotal q, os_overloadRejectedTotal = overloadRejectedTotal q,
          os_orphanedTailsSweptTotal = orphanedTailsSweptTotal q, os_jobDurationSumMs = jobDurationSumMs q,
          os_jobDurationAvgMs = (if finished > 0 then avgFixed4 env (jobDurationSumMs q) finished else 0),
          os_jobDurationMaxMs = jobDurationMaxMs q, os_jobDurationP95Ms = oc_p95Ms c, os_jobDurationP99Ms = oc_p99Ms c,
          os_inflightRequestIds = jm_size (tailByRequestId q), os_orphanedRequestIds = cachedOrphanedRequestIds q,
          os_backlog = oc_backlog c, os_overloadStateRefreshTotal = overloadStateRefreshTotal q,
          os_overloadCacheP95Ms = oc_p95Ms c, os_overloadCacheComputedAtMs = oc_computedAtMs c,
          os_pendingBytes = pendingBytes q, os_shedRejectedTotal = shedRejectedTotal q,
          os_hardRejectedTotal = hardRejectedTotal q, os_oldestPendingAgeMs = oldestPendingAgeMs now q\<rparr>)"

definition getRelayOutboundQueueMetricsSnapshot ::
    "ob_env \<Rightarrow> int \<Rightarrow> outbound_queue \<Rightarrow> outbound_snapshot \<times> outbound_queue" where
  "getRelayOutboundQueueMetricsSnapshot env now q =
     (let p95 = ring_percentile env 95 q; p99 = ring_percentile env 99 q;
          q1 = q\<lparr>cachedOrphanedRequestIds := countOrphanedRequestIds env now q\<rparr>;
          backlog = deriveBacklog q1;
          q2 = updateOverloadStateCache env (Some p95) (Some p99) now q1;
          q3 = q2\<lparr>overloadStateRefreshTotal := overloadStateRefreshTotal q2 + 1\<rparr>
      in ((getFastMetricsSnapshot env now q3)\<lparr>os_jobDurationP95Ms := p95, os_jobDurationP99Ms := p99,
            os_backlog := backlog\<rparr>, q3))"

definition OVERLOAD_STATE_MAX_STALE_MS :: int where
  "OVERLOAD_STATE_MAX_STALE_MS = 1000"

text \<open>The overload decision as the caller sees it: overloaded, reason, retry hint, snapshot.\<close>

definition getRelayOutboundQueueOverloadState ::
    "ob_env \<Rightarrow> int \<Rightarrow> outbound_queue \<Rightarrow> (bool \<times> overload_reason option \<times> int \<times> outbound_snapshot) \<times> outbound_queue" where
  "getRelayOutboundQueueOverloadState env now q =
     (let q1 = updateBacklogOnlyOverloadStateCache env q;
          q2 = (if oc_reason (overloadStateCache q1) \<noteq> Some Backlog \<and> overloadP95Ms env > 0 \<and>
                   now - oc_computedAtMs (overloadStateCache q1) \<ge> OVERLOAD_STATE_MAX_STALE_MS
                then refreshRelayOutboundQueueOverloadState env now q1 else q1);
          c = overloadStateCache q2
      in ((oc_overloaded c, oc_reason c, oc_retryAfterMs c, getFastMetricsSnapshot env now q2), q2))"

definition noteRelayOutboundQueueOverloadRejected :: "outbound_queue \<Rightarrow> outbound_queue" where
  "noteRelayOutboundQueueOverloadRejected q = q\<lparr>overloadRejectedTotal := overloadRejectedTotal q + 1\<rparr>"

section \<open>Byte budget and tracked request ids\<close>

text \<open>\<^verbatim>\<open>if (!consumerSocketId)\<close> also excludes the empty string.\<close>

definition real_consumer :: "string option \<Rightarrow> string option" where
  "real_consumer c = (if c = Some [] then None else c)"

definition addPendingBytes :: "string option \<Rightarrow> int \<Rightarrow> outbound_queue \<Rightarrow> outbound_queue" where
  "addPendingBytes consumer bytes q =
     (if bytes \<le> 0 then q
      else let q1 = q\<lparr>pendingBytes := pendingBytes q + bytes\<rparr>
           in case real_consumer consumer of
                None \<Rightarrow> q1
              | Some c \<Rightarrow> q1\<lparr>pendingBytesByConsumer :=
                  jm_set c (cnt_get (pendingBytesByConsumer q1) c + bytes) (pendingBytesByConsumer q1)\<rparr>)"

definition subtractPendingBytes :: "string option \<Rightarrow> int \<Rightarrow> outbound_queue \<Rightarrow> outbound_queue" where
  "subtractPendingBytes consumer bytes q =
     (if bytes \<le> 0 then q
      else let q1 = q\<lparr>pendingBytes := max 0 (pendingBytes q - bytes)\<rparr>
           in case real_consumer consumer of
                None \<Rightarrow> q1
              | Some c \<Rightarrow>
                  (let remaining = cnt_get (pendingBytesByConsumer q1) c - bytes
                   in if remaining \<le> 0 then q1\<lparr>pendingBytesByConsumer := jm_del c (pendingBytesByConsumer q1)\<rparr>
                      else q1\<lparr>pendingBytesByConsumer := jm_set c remaining (pendingBytesByConsumer q1)\<rparr>))"

definition trackRequestId :: "string option \<Rightarrow> string \<Rightarrow> outbound_queue \<Rightarrow> outbound_queue" where
  "trackRequestId consumer requestId q =
     (case real_consumer consumer of
        None \<Rightarrow> q
      | Some c \<Rightarrow> q\<lparr>requestIdsByConsumer := addIndexValue (requestIdsByConsumer q) c requestId\<rparr>)"

definition untrackRequestIdIfIdle :: "string option \<Rightarrow> string \<Rightarrow> tail_entry \<Rightarrow> outbound_queue \<Rightarrow> outbound_queue" where
  "untrackRequestIdIfIdle consumer requestId e q =
     (case real_consumer consumer of
        None \<Rightarrow> q
      | Some c \<Rightarrow>
          if pendingJobs e > 0 \<or> activeJobs e > 0 then q
          else q\<lparr>requestIdsByConsumer := removeIndexValue (requestIdsByConsumer q) c requestId\<rparr>)"

datatype byte_decision = BudgetOk | BudgetShed | BudgetHard

definition evaluateRelayOutboundByteBudget :: "ob_env \<Rightarrow> string \<Rightarrow> int \<Rightarrow> outbound_queue \<Rightarrow> byte_decision" where
  "evaluateRelayOutboundByteBudget env consumer extraBytes q =
     (let globalMax = maxPendingBytes env; perConsumerMax = maxPendingBytesPerConsumer env;
          maxRequestIds = maxPendingRequestIdsPerConsumer env;
          nextGlobal = pendingBytes q + max 0 extraBytes;
          nextConsumer = cnt_get (pendingBytesByConsumer q) consumer + max 0 extraBytes;
          requestIdCount = int (length (idx_get (requestIdsByConsumer q) consumer))
      in if (globalMax > 0 \<and> nextGlobal > globalMax) \<or> (perConsumerMax > 0 \<and> nextConsumer > perConsumerMax) then
           (if (globalMax > 0 \<and> nextGlobal > globalMax * 2) \<or> (perConsumerMax > 0 \<and> nextConsumer > perConsumerMax * 2)
            then BudgetHard else BudgetShed)
         else if maxRequestIds > 0 \<and> requestIdCount \<ge> maxRequestIds then BudgetShed
         else BudgetOk)"

text \<open>The counters of a refusal; the same at the admission of consumer work and at the enqueue.\<close>

definition note_budget_refusal :: "byte_decision \<Rightarrow> outbound_queue \<Rightarrow> outbound_queue" where
  "note_budget_refusal decision q =
     (case decision of
        BudgetShed \<Rightarrow> q\<lparr>shedRejectedTotal := shedRejectedTotal q + 1, overloadRejectedTotal := overloadRejectedTotal q + 1\<rparr>
      | BudgetHard \<Rightarrow> q\<lparr>hardRejectedTotal := hardRejectedTotal q + 1\<rparr>
      | BudgetOk \<Rightarrow> q)"

definition admitRelayOutboundConsumerWork :: "ob_env \<Rightarrow> string \<Rightarrow> outbound_queue \<Rightarrow> byte_decision \<times> outbound_queue" where
  "admitRelayOutboundConsumerWork env consumer q =
     (let decision = evaluateRelayOutboundByteBudget env consumer 0 q in (decision, note_budget_refusal decision q))"

section \<open>Enqueueing and running jobs\<close>

record enqueue_options =
  eo_consumerSocketId :: "string option"
  eo_pendingBytes :: "int option"
  eo_priority :: "job_priority option"
  eo_shedPolicy :: "shed_policy option"

definition no_options :: enqueue_options where
  "no_options = \<lparr>eo_consumerSocketId = None, eo_pendingBytes = None, eo_priority = None, eo_shedPolicy = None\<rparr>"

definition default_to :: "'a \<Rightarrow> 'a option \<Rightarrow> 'a" where
  "default_to d x = (case x of None \<Rightarrow> d | Some v \<Rightarrow> v)"

text \<open>The entry of a request id, created when there is none.\<close>

definition tail_entry_for :: "int \<Rightarrow> string \<Rightarrow> outbound_queue \<Rightarrow> nat \<times> tail_entry list" where
  "tail_entry_for now requestId q =
     (case jm_get (tailByRequestId q) requestId of
        Some h \<Rightarrow> (h, ob_entries q)
      | None \<Rightarrow> (length (ob_entries q), ob_entries q @ [\<lparr>te_tail = None, pendingJobs = 0, activeJobs = 0,
                                                        lastActivityAtMs = now, backlogStartedAtMs = now\<rparr>]))"

definition append_job ::
    "int \<Rightarrow> string \<Rightarrow> string option \<Rightarrow> int \<Rightarrow> job_priority \<Rightarrow> outbound_queue \<Rightarrow> outbound_queue" where
  "append_job now requestId consumer bytes priority q =
     (let (h, es) = tail_entry_for now requestId q; e = es ! h
      in q\<lparr>ob_entries := es[h := e\<lparr>te_tail := Some (length (ob_jobs q)), pendingJobs := pendingJobs e + 1,
               lastActivityAtMs := now,
               backlogStartedAtMs := (if pendingJobs e = 0 \<and> activeJobs e = 0 then now else backlogStartedAtMs e)\<rparr>],
             ob_jobs := ob_jobs q @ [\<lparr>oj_requestId = requestId, oj_entry = h, oj_consumer = consumer, oj_bytes = bytes,
               oj_priority = priority, oj_prev = te_tail e, oj_phase = Chained\<rparr>],
             tailByRequestId := jm_set requestId h (tailByRequestId q)\<rparr>)"

definition enqueueRelayOutbound ::
    "ob_env \<Rightarrow> int \<Rightarrow> string \<Rightarrow> enqueue_options \<Rightarrow> outbound_queue \<Rightarrow> byte_decision option \<times> outbound_queue" where
  "enqueueRelayOutbound env now requestId options q =
     (let bytes = default_to 0 (eo_pendingBytes options);
          consumer = eo_consumerSocketId options;
          priority = default_to Normal (eo_priority options);
          shedPolicy = default_to ShedReject (eo_shedPolicy options);
          decision = (case real_consumer consumer of
                        Some c \<Rightarrow> if bytes > 0 \<and> priority \<noteq> Control
                                  then evaluateRelayOutboundByteBudget env c bytes q else BudgetOk
                      | None \<Rightarrow> BudgetOk)
      in if decision = BudgetHard \<or> (decision = BudgetShed \<and> shedPolicy = ShedReject)
         then (Some decision, note_budget_refusal decision q)
         else let q1 = updateBacklogOnlyOverloadStateCache env (q\<lparr>jobsEnqueuedTotal := jobsEnqueuedTotal q + 1\<rparr>);
                  q2 = trackRequestId consumer requestId (addPendingBytes consumer bytes q1)
              in (None, append_job now requestId consumer bytes priority q2))"

text \<open>The two halves of a job. The first runs when the promise it is chained on has settled.\<close>

definition job_ready :: "outbound_queue \<Rightarrow> nat \<Rightarrow> bool" where
  "job_ready q j \<longleftrightarrow> j < length (ob_jobs q) \<and> oj_phase (ob_jobs q ! j) = Chained \<and>
     (case oj_prev (ob_jobs q ! j) of None \<Rightarrow> True | Some i \<Rightarrow> oj_phase (ob_jobs q ! i) = Settled)"

definition job_start :: "int \<Rightarrow> int \<Rightarrow> nat \<Rightarrow> outbound_queue \<Rightarrow> outbound_queue" where
  "job_start t0 now j q =
     (let job = ob_jobs q ! j; e = ob_entries q ! oj_entry job
      in q\<lparr>ob_entries := (ob_entries q)[oj_entry job := e\<lparr>activeJobs := activeJobs e + 1, lastActivityAtMs := now\<rparr>],
            ob_jobs := (ob_jobs q)[j := job\<lparr>oj_phase := Running t0\<rparr>]\<rparr>)"

definition note_finished :: "ob_env \<Rightarrow> bool \<Rightarrow> int \<Rightarrow> outbound_queue \<Rightarrow> outbound_queue" where
  "note_finished env failed ms q =
     updateBacklogOnlyOverloadStateCache env
       (q\<lparr>jobsFailedTotal := jobsFailedTotal q + (if failed then 1 else 0),
          jobsFinishedTotal := jobsFinishedTotal q + 1,
          jobDurationSumMs := jobDurationSumMs q + ms,
          jobDurationMaxMs := max (jobDurationMaxMs q) ms,
          durationRing := pushLatencyRingBuffer ms (durationRing q)\<rparr>)"

definition job_finish :: "ob_env \<Rightarrow> bool \<Rightarrow> int \<Rightarrow> int \<Rightarrow> nat \<Rightarrow> outbound_queue \<Rightarrow> outbound_queue" where
  "job_finish env failed t now j q =
     (let job = ob_jobs q ! j; e = ob_entries q ! oj_entry job;
          ms = (case oj_phase job of Running t0 \<Rightarrow> t - t0 | _ \<Rightarrow> 0);
          e' = e\<lparr>activeJobs := max 0 (activeJobs e - 1), pendingJobs := max 0 (pendingJobs e - 1), lastActivityAtMs := now\<rparr>;
          q1 = note_finished env failed ms q;
          q2 = q1\<lparr>ob_entries := (ob_entries q1)[oj_entry job := e'], ob_jobs := (ob_jobs q1)[j := job\<lparr>oj_phase := Settled\<rparr>]\<rparr>;
          q3 = untrackRequestIdIfIdle (oj_consumer job) (oj_requestId job) e'
                 (subtractPendingBytes (oj_consumer job) (oj_bytes job) q2)
      in if te_tail e' = Some j \<and> pendingJobs e' = 0
         then q3\<lparr>tailByRequestId := jm_del (oj_requestId job) (tailByRequestId q3)\<rparr> else q3)"

text \<open>The reset keeps the heap: jobs that run hold their entries.\<close>

definition resetRelayOutboundQueueState :: "outbound_queue \<Rightarrow> outbound_queue" where
  "resetRelayOutboundQueueState q = new_outbound_queue\<lparr>ob_entries := ob_entries q, ob_jobs := ob_jobs q\<rparr>"

section \<open>The queue in operation\<close>

inductive ob_step :: "ob_env \<Rightarrow> outbound_queue \<Rightarrow> outbound_queue \<Rightarrow> bool" for env where
  ob_enqueue: "ob_step env q (snd (enqueueRelayOutbound env now r opts q))"
| ob_start: "job_ready q j \<Longrightarrow> ob_step env q (job_start t0 now j q)"
| ob_finish: "j < length (ob_jobs q) \<Longrightarrow> oj_phase (ob_jobs q ! j) = Running t0 \<Longrightarrow>
    ob_step env q (job_finish env failed t now j q)"
| ob_admit: "ob_step env q (snd (admitRelayOutboundConsumerWork env c q))"
| ob_sweep: "ob_step env q (snd (sweepRelayOutboundQueueState env now q))"
| ob_overload: "ob_step env q (snd (getRelayOutboundQueueOverloadState env now q))"
| ob_snapshot: "ob_step env q (snd (getRelayOutboundQueueMetricsSnapshot env now q))"
| ob_note: "ob_step env q (noteRelayOutboundQueueOverloadRejected q)"

section \<open>Invariant\<close>

definition unsettled :: "outbound_job \<Rightarrow> bool" where
  "unsettled x \<longleftrightarrow> oj_phase x \<noteq> Settled"

definition is_running :: "outbound_job \<Rightarrow> bool" where
  "is_running x \<longleftrightarrow> oj_phase x \<noteq> Settled \<and> oj_phase x \<noteq> Chained"

definition pending_of :: "nat \<Rightarrow> outbound_job \<Rightarrow> int" where
  "pending_of h x = (if oj_entry x = h \<and> unsettled x then 1 else 0)"

definition active_of :: "nat \<Rightarrow> outbound_job \<Rightarrow> int" where
  "active_of h x = (if oj_entry x = h \<and> is_running x then 1 else 0)"

definition settled_of :: "outbound_job \<Rightarrow> int" where
  "settled_of x = (if unsettled x then 0 else 1)"

definition bytes_of :: "outbound_job \<Rightarrow> int" where
  "bytes_of x = (if unsettled x then max 0 (oj_bytes x) else 0)"

definition consumer_bytes_of :: "string \<Rightarrow> outbound_job \<Rightarrow> int" where
  "consumer_bytes_of c x = (if real_consumer (oj_consumer x) = Some c then bytes_of x else 0)"

text \<open>The last job of an entry among the first \<open>n\<close> jobs.\<close>

definition is_last :: "outbound_job list \<Rightarrow> nat \<Rightarrow> nat \<Rightarrow> nat option \<Rightarrow> bool" where
  "is_last js h n t \<longleftrightarrow>
     (case t of
        None \<Rightarrow> \<forall>i < n. oj_entry (js ! i) \<noteq> h
      | Some i \<Rightarrow> i < n \<and> oj_entry (js ! i) = h \<and> (\<forall>k. i < k \<and> k < n \<longrightarrow> oj_entry (js ! k) \<noteq> h))"

definition chain_ok :: "outbound_job list \<Rightarrow> bool" where
  "chain_ok js \<longleftrightarrow> (\<forall>j < length js. is_last js (oj_entry (js ! j)) j (oj_prev (js ! j)))"

definition order_ok :: "outbound_job list \<Rightarrow> bool" where
  "order_ok js \<longleftrightarrow> (\<forall>i j. i < j \<and> j < length js \<and> oj_requestId (js ! i) = oj_requestId (js ! j) \<and>
     oj_phase (js ! j) \<noteq> Chained \<longrightarrow> oj_phase (js ! i) = Settled)"

definition entry_ok :: "outbound_job list \<Rightarrow> nat \<Rightarrow> tail_entry \<Rightarrow> bool" where
  "entry_ok js h e \<longleftrightarrow> pendingJobs e = tally (pending_of h) js \<and> activeJobs e = tally (active_of h) js \<and>
     is_last js h (length js) (te_tail e)"

definition entries_ok :: "tail_entry list \<Rightarrow> outbound_job list \<Rightarrow> bool" where
  "entries_ok es js \<longleftrightarrow> (\<forall>j < length js. oj_entry (js ! j) < length es) \<and> (\<forall>h < length es. entry_ok js h (es ! h))"

text \<open>A mapped request id leads to an entry that has unsettled jobs, all of them of this request; an
  unsettled job is in the mapped entry of its request.\<close>

definition mapped_ok :: "tail_entry list \<Rightarrow> outbound_job list \<Rightarrow> string \<Rightarrow> nat \<Rightarrow> bool" where
  "mapped_ok es js r h \<longleftrightarrow> h < length es \<and> (\<exists>i < length js. oj_entry (js ! i) = h \<and> unsettled (js ! i)) \<and>
     (\<forall>i < length js. oj_entry (js ! i) = h \<longrightarrow> oj_requestId (js ! i) = r)"

definition tails_ok :: "(string, nat) jsmap \<Rightarrow> tail_entry list \<Rightarrow> outbound_job list \<Rightarrow> bool" where
  "tails_ok tails es js \<longleftrightarrow> jm_wf tails \<and> (\<forall>r h. jm_get tails r = Some h \<longrightarrow> mapped_ok es js r h) \<and>
     (\<forall>i < length js. unsettled (js ! i) \<longrightarrow> jm_get tails (oj_requestId (js ! i)) = Some (oj_entry (js ! i)))"

definition chains_inv :: "outbound_queue \<Rightarrow> bool" where
  "chains_inv q \<longleftrightarrow> chain_ok (ob_jobs q) \<and> order_ok (ob_jobs q) \<and> entries_ok (ob_entries q) (ob_jobs q) \<and>
     tails_ok (tailByRequestId q) (ob_entries q) (ob_jobs q)"

subsection \<open>Generic facts\<close>

lemma pending_of_nonneg: "0 \<le> pending_of h x"
  by (simp add: pending_of_def)

lemma active_of_nonneg: "0 \<le> active_of h x"
  by (simp add: active_of_def)

lemma bytes_of_nonneg: "0 \<le> bytes_of x"
  by (simp add: bytes_of_def)

lemma consumer_bytes_of_nonneg: "0 \<le> consumer_bytes_of c x"
  by (simp add: consumer_bytes_of_def bytes_of_nonneg)

lemma pending_zero_iff: "tally (pending_of h) js = 0 \<longleftrightarrow> (\<forall>i < length js. oj_entry (js ! i) = h \<longrightarrow> \<not> unsettled (js ! i))"
proof
  assume z: "tally (pending_of h) js = 0"
  show "\<forall>i < length js. oj_entry (js ! i) = h \<longrightarrow> \<not> unsettled (js ! i)"
    using tally_ge[of "pending_of h" _ js, OF pending_of_nonneg] z by (force simp: pending_of_def)
next
  assume "\<forall>i < length js. oj_entry (js ! i) = h \<longrightarrow> \<not> unsettled (js ! i)"
  then show "tally (pending_of h) js = 0" by (intro tally_zero) (auto simp: in_set_conv_nth pending_of_def)
qed

lemma is_last_append [simp]: "n \<le> length js \<Longrightarrow> is_last (js @ [x]) h n t = is_last js h n t"
  by (auto simp: is_last_def nth_append split: option.splits)

lemma is_last_snoc: "is_last (js @ [x]) (oj_entry x) (Suc (length js)) (Some (length js))"
  by (auto simp: is_last_def nth_append)

lemma is_last_other:
  "oj_entry x \<noteq> h \<Longrightarrow> is_last js h (length js) t \<Longrightarrow> is_last (js @ [x]) h (Suc (length js)) t"
  by (auto simp: is_last_def nth_append less_Suc_eq split: option.splits)

lemma is_last_update [simp]:
  "j < length js \<Longrightarrow> oj_entry y = oj_entry (js ! j) \<Longrightarrow> n \<le> length js \<Longrightarrow> is_last (js[j := y]) h n t = is_last js h n t"
  by (auto simp: is_last_def nth_list_update split: option.splits)

subsection \<open>The chains under enqueue, start and finish\<close>

lemma tail_entry_for_ok:
  assumes inv: "chains_inv q" and eq: "tail_entry_for now r q = (h, es)"
  shows "h < length es" "entries_ok es (ob_jobs q)" "tails_ok (tailByRequestId q) es (ob_jobs q)"
    "i < length (ob_jobs q) \<Longrightarrow> oj_entry (ob_jobs q ! i) = h \<Longrightarrow> oj_requestId (ob_jobs q ! i) = r"
    "i < length (ob_jobs q) \<Longrightarrow> unsettled (ob_jobs q ! i) \<Longrightarrow> oj_requestId (ob_jobs q ! i) = r \<Longrightarrow> oj_entry (ob_jobs q ! i) = h"
proof -
  let ?js = "ob_jobs q" and ?t = "tailByRequestId q"
  have ent: "entries_ok (ob_entries q) ?js" and tails: "tails_ok ?t (ob_entries q) ?js" using inv by (auto simp: chains_inv_def)
  have "h < length es \<and> entries_ok es ?js \<and> tails_ok ?t es ?js \<and>
    (\<forall>i < length ?js. oj_entry (?js ! i) = h \<longrightarrow> oj_requestId (?js ! i) = r) \<and>
    (\<forall>i < length ?js. unsettled (?js ! i) \<and> oj_requestId (?js ! i) = r \<longrightarrow> oj_entry (?js ! i) = h)"
  proof (cases "jm_get ?t r")
    case None
    then have h: "h = length (ob_entries q)" and es: "es = ob_entries q @ [\<lparr>te_tail = None, pendingJobs = 0, activeJobs = 0,
        lastActivityAtMs = now, backlogStartedAtMs = now\<rparr>]"
      using eq by (auto simp: tail_entry_for_def)
    have none: "oj_entry (?js ! i) < h" if "i < length ?js" for i using ent that h by (auto simp: entries_ok_def)
    have "tally (pending_of h) ?js = 0" "tally (active_of h) ?js = 0"
      using none by (fastforce intro!: tally_zero simp: in_set_conv_nth pending_of_def active_of_def)+
    moreover have "is_last ?js h (length ?js) None" using none by (fastforce simp: is_last_def)
    ultimately have new: "entry_ok ?js h (es ! h)" by (simp add: entry_ok_def es h)
    have "entries_ok es ?js"
      using ent new by (auto simp: entries_ok_def es h nth_append less_Suc_eq)
    moreover have "tails_ok ?t es ?js" using tails by (fastforce simp: tails_ok_def mapped_ok_def es)
    moreover have "oj_requestId (?js ! i) \<noteq> r" if "i < length ?js" "unsettled (?js ! i)" for i
      using tails None that by (auto simp: tails_ok_def)
    ultimately show ?thesis using none h es by fastforce
  next
    case (Some h')
    then have "h = h'" "es = ob_entries q" using eq by (auto simp: tail_entry_for_def)
    then show ?thesis using Some ent tails by (auto simp: tails_ok_def mapped_ok_def)
  qed
  then show "h < length es" "entries_ok es ?js" "tails_ok ?t es ?js"
    "i < length ?js \<Longrightarrow> oj_entry (?js ! i) = h \<Longrightarrow> oj_requestId (?js ! i) = r"
    "i < length ?js \<Longrightarrow> unsettled (?js ! i) \<Longrightarrow> oj_requestId (?js ! i) = r \<Longrightarrow> oj_entry (?js ! i) = h"
    by blast+
qed

lemma entries_ok_append:
  assumes ent: "entries_ok es js" and h: "h < length es" and x: "oj_entry x = h" "oj_phase x = Chained"
    and e: "pendingJobs e = pendingJobs (es ! h) + 1" "activeJobs e = activeJobs (es ! h)" "te_tail e = Some (length js)"
  shows "entries_ok (es[h := e]) (js @ [x])"
proof -
  have "entry_ok (js @ [x]) k (es[h := e] ! k)" if "k < length es" for k
  proof (cases "k = h")
    case True
    then show ?thesis using ent h x e is_last_snoc[of js x]
      by (auto simp: entry_ok_def entries_ok_def pending_of_def active_of_def unsettled_def is_running_def)
  next
    case False
    then show ?thesis using ent x that is_last_other[of x k js]
      by (auto simp: entry_ok_def entries_ok_def pending_of_def active_of_def)
  qed
  then show ?thesis using ent x h by (auto simp: entries_ok_def nth_append)
qed

lemma tails_ok_append:
  assumes t: "tails_ok tails es js" and h: "h < length es" and x: "oj_entry x = h" "oj_requestId x = r" "unsettled x"
    and one: "\<And>i. i < length js \<Longrightarrow> oj_entry (js ! i) = h \<Longrightarrow> oj_requestId (js ! i) = r"
    and other: "\<And>i. i < length js \<Longrightarrow> unsettled (js ! i) \<Longrightarrow> oj_requestId (js ! i) = r \<Longrightarrow> oj_entry (js ! i) = h"
  shows "tails_ok (jm_set r h tails) (es[h := e]) (js @ [x])"
proof -
  have "mapped_ok (es[h := e]) (js @ [x]) r h" using h x one
    unfolding mapped_ok_def by (auto simp: nth_append less_Suc_eq intro: exI[of _ "length js"])
  moreover have "mapped_ok (es[h := e]) (js @ [x]) r' h'" if get: "jm_get tails r' = Some h'" and ne: "r' \<noteq> r" for r' h'
  proof -
    have m: "mapped_ok es js r' h'" using t get by (simp add: tails_ok_def)
    then obtain i where i: "i < length js" "oj_entry (js ! i) = h'" "unsettled (js ! i)" by (auto simp: mapped_ok_def)
    then have "h' \<noteq> h" using m one ne by (auto simp: mapped_ok_def)
    moreover have "\<exists>i < Suc (length js). oj_entry ((js @ [x]) ! i) = h' \<and> unsettled ((js @ [x]) ! i)"
      using i by (intro exI[of _ i]) (simp add: nth_append)
    ultimately show ?thesis using m x by (auto simp: mapped_ok_def nth_append less_Suc_eq)
  qed
  moreover have "jm_get (jm_set r h tails) (oj_requestId ((js @ [x]) ! i)) = Some (oj_entry ((js @ [x]) ! i))"
    if "i < length (js @ [x])" "unsettled ((js @ [x]) ! i)" for i
    using that t x other by (auto simp: tails_ok_def nth_append less_Suc_eq split: if_splits)
  ultimately show ?thesis using t by (auto simp: tails_ok_def)
qed

lemma chains_append: "chains_inv q \<Longrightarrow> chains_inv (append_job now r c b pr q)"
proof -
  assume inv: "chains_inv q"
  obtain h es where eq: "tail_entry_for now r q = (h, es)" by (cases "tail_entry_for now r q")
  note ok = tail_entry_for_ok[OF inv eq]
  have ch: "chain_ok (ob_jobs q)" "order_ok (ob_jobs q)" using inv by (auto simp: chains_inv_def)
  have last: "is_last (ob_jobs q) h (length (ob_jobs q)) (te_tail (es ! h))"
    using ok(1,2) by (auto simp: entries_ok_def entry_ok_def)
  define x where "x = \<lparr>oj_requestId = r, oj_entry = h, oj_consumer = c, oj_bytes = b,
    oj_priority = pr, oj_prev = te_tail (es ! h), oj_phase = Chained\<rparr>"
  define e where "e = (es ! h)\<lparr>te_tail := Some (length (ob_jobs q)), pendingJobs := pendingJobs (es ! h) + 1, lastActivityAtMs := now,
     backlogStartedAtMs := (if pendingJobs (es ! h) = 0 \<and> activeJobs (es ! h) = 0 then now else backlogStartedAtMs (es ! h))\<rparr>"
  have app: "append_job now r c b pr q = q\<lparr>ob_entries := es[h := e], ob_jobs := ob_jobs q @ [x], tailByRequestId := jm_set r h (tailByRequestId q)\<rparr>"
    by (simp add: append_job_def eq x_def e_def Let_def)
  have "chain_ok (ob_jobs q @ [x])" using ch(1) last by (auto simp: chain_ok_def nth_append less_Suc_eq x_def)
  moreover have "order_ok (ob_jobs q @ [x])" using ch(2) by (auto simp: order_ok_def nth_append less_Suc_eq x_def)
  moreover have "entries_ok (es[h := e]) (ob_jobs q @ [x])"
    by (rule entries_ok_append[OF ok(2,1)]) (simp_all add: x_def e_def)
  moreover have "tails_ok (jm_set r h (tailByRequestId q)) (es[h := e]) (ob_jobs q @ [x])"
    using ok(4,5) by (intro tails_ok_append[OF ok(3,1)]) (auto simp: x_def unsettled_def)
  ultimately show ?thesis by (simp add: chains_inv_def app)
qed

text \<open>A job changes its phase and nothing else.\<close>

lemma entries_ok_phase:
  assumes ent: "entries_ok es js" and j: "j < length js" and h: "h = oj_entry (js ! j)" and y: "oj_entry y = h"
    and e: "pendingJobs e = pendingJobs (es ! h) - pending_of h (js ! j) + pending_of h y"
      "activeJobs e = activeJobs (es ! h) - active_of h (js ! j) + active_of h y" "te_tail e = te_tail (es ! h)"
  shows "entries_ok (es[h := e]) (js[j := y])"
proof -
  have "entry_ok (js[j := y]) k (es[h := e] ! k)" if "k < length es" for k
  proof (cases "k = h")
    case True
    then show ?thesis using ent j e y h that by (auto simp: entry_ok_def entries_ok_def tally_update)
  next
    case False
    then have "pending_of k y = pending_of k (js ! j)" "active_of k y = active_of k (js ! j)"
      using y h by (auto simp: pending_of_def active_of_def)
    then show ?thesis using ent False that j y h by (auto simp: entry_ok_def entries_ok_def tally_update)
  qed
  moreover have "oj_entry (js[j := y] ! i) < length es" if "i < length js" for i
    using ent y h j that by (cases "i = j") (auto simp: entries_ok_def)
  ultimately show ?thesis by (simp add: entries_ok_def)
qed

lemma chain_ok_phase: "chain_ok js \<Longrightarrow> j < length js \<Longrightarrow> chain_ok (js[j := (js ! j)\<lparr>oj_phase := p\<rparr>])"
  by (auto simp: chain_ok_def nth_list_update)

lemma order_okD:
  "order_ok js \<Longrightarrow> i < j \<Longrightarrow> j < length js \<Longrightarrow> oj_requestId (js ! j) = oj_requestId (js ! i) \<Longrightarrow>
     oj_phase (js ! j) \<noteq> Chained \<Longrightarrow> oj_phase (js ! i) = Settled"
  unfolding order_ok_def by metis

lemma unsettled_mapped:
  "tails_ok tails es js \<Longrightarrow> i < length js \<Longrightarrow> unsettled (js ! i) \<Longrightarrow> jm_get tails (oj_requestId (js ! i)) = Some (oj_entry (js ! i))"
  by (simp add: tails_ok_def)

lemma mapped_request:
  "tails_ok tails es js \<Longrightarrow> jm_get tails r = Some h \<Longrightarrow> i < length js \<Longrightarrow> oj_entry (js ! i) = h \<Longrightarrow> oj_requestId (js ! i) = r"
  by (simp add: tails_ok_def mapped_ok_def)

text \<open>When the promise a job is chained on has settled, so have all earlier jobs of the request.\<close>

lemma ready_earlier_settled:
  assumes inv: "chains_inv q" and ready: "job_ready q j" and i: "i < j" "oj_requestId (ob_jobs q ! i) = oj_requestId (ob_jobs q ! j)"
  shows "oj_phase (ob_jobs q ! i) = Settled"
proof (rule ccontr)
  let ?js = "ob_jobs q"
  assume "oj_phase (?js ! i) \<noteq> Settled"
  then have "unsettled (?js ! i)" "unsettled (?js ! j)" "j < length ?js" using ready by (auto simp: unsettled_def job_ready_def)
  moreover have t: "tails_ok (tailByRequestId q) (ob_entries q) ?js" using inv by (simp add: chains_inv_def)
  ultimately have m: "jm_get (tailByRequestId q) (oj_requestId (?js ! j)) = Some (oj_entry (?js ! i))"
    "jm_get (tailByRequestId q) (oj_requestId (?js ! j)) = Some (oj_entry (?js ! j))"
    using unsettled_mapped[of _ _ ?js i] unsettled_mapped[of _ _ ?js j] i by auto
  then have same: "oj_entry (?js ! i) = oj_entry (?js ! j)" by simp
  note req = mapped_request[OF t m(2)]
  have last: "is_last ?js (oj_entry (?js ! j)) j (oj_prev (?js ! j))" using inv ready by (auto simp: chains_inv_def chain_ok_def job_ready_def)
  then obtain p where p: "oj_prev (?js ! j) = Some p" using i(1) same by (auto simp: is_last_def split: option.splits)
  then have ph: "p < j" "oj_entry (?js ! p) = oj_entry (?js ! j)" "\<not> p < i" "oj_phase (?js ! p) = Settled"
    using last i(1) same ready by (auto simp: is_last_def job_ready_def)
  moreover from ph have "i < p" using \<open>oj_phase (?js ! i) \<noteq> Settled\<close> by (metis linorder_neqE_nat)
  moreover have pl: "p < length ?js" using ph(1) ready by (simp add: job_ready_def)
  moreover have "oj_requestId (?js ! p) = oj_requestId (?js ! i)" using req[OF pl ph(2)] i(2) by simp
  ultimately have "oj_phase (?js ! i) = Settled"
    using order_okD[of ?js i p] inv by (simp add: chains_inv_def)
  then show False using \<open>oj_phase (?js ! i) \<noteq> Settled\<close> by simp
qed

lemma tails_ok_same:
  assumes "tails_ok tails es js" and "length es' = length es" and "j < length js" and
    "oj_entry y = oj_entry (js ! j)" "oj_requestId y = oj_requestId (js ! j)" "unsettled y = unsettled (js ! j)"
  shows "tails_ok tails es' (js[j := y])"
proof -
  have eq: "oj_entry (js[j := y] ! i) = oj_entry (js ! i)" "oj_requestId (js[j := y] ! i) = oj_requestId (js ! i)"
    "unsettled (js[j := y] ! i) = unsettled (js ! i)" if "i < length js" for i
    using assms that by (auto simp: nth_list_update)
  have "mapped_ok es' (js[j := y]) r h = mapped_ok es js r h" for r h using eq assms(2) by (auto simp: mapped_ok_def)
  then show ?thesis using assms(1) eq by (auto simp: tails_ok_def)
qed

lemma chains_start: 
  assumes inv: "chains_inv q" and ready: "job_ready q j"
  shows "chains_inv (job_start t0 now j q)"
proof -
  let ?js = "ob_jobs q"
  define y where "y = (?js ! j)\<lparr>oj_phase := Running t0\<rparr>"
  define h where "h = oj_entry (?js ! j)"
  define e where "e = (ob_entries q ! h)\<lparr>activeJobs := activeJobs (ob_entries q ! h) + 1, lastActivityAtMs := now\<rparr>"
  have st: "job_start t0 now j q = q\<lparr>ob_entries := (ob_entries q)[h := e], ob_jobs := ?js[j := y]\<rparr>"
    by (simp add: job_start_def y_def h_def e_def Let_def)
  have j: "j < length ?js" "oj_phase (?js ! j) = Chained" using ready by (auto simp: job_ready_def)
  have ok: "chain_ok ?js" "order_ok ?js" "entries_ok (ob_entries q) ?js" "tails_ok (tailByRequestId q) (ob_entries q) ?js"
    using inv by (auto simp: chains_inv_def)
  have "chain_ok (?js[j := y])" using chain_ok_phase[OF ok(1) j(1)] by (simp add: y_def)
  moreover have "order_ok (?js[j := y])"
    using ok(2) ready_earlier_settled[OF inv ready] j unfolding order_ok_def
    by (auto simp: nth_list_update y_def)
  moreover have "entries_ok ((ob_entries q)[h := e]) (?js[j := y])"
    using j by (intro entries_ok_phase[OF ok(3)])
      (auto simp: y_def h_def e_def pending_of_def active_of_def unsettled_def is_running_def)
  moreover have "tails_ok (tailByRequestId q) ((ob_entries q)[h := e]) (?js[j := y])"
    using j by (intro tails_ok_same[OF ok(4)]) (auto simp: y_def unsettled_def)
  ultimately show ?thesis by (simp add: chains_inv_def st)
qed

text \<open>What the bookkeeping operations leave alone.\<close>

lemma bookkeeping_core [simp]:
  "tailByRequestId (updateBacklogOnlyOverloadStateCache env q) = tailByRequestId q"
  "ob_entries (updateBacklogOnlyOverloadStateCache env q) = ob_entries q"
  "ob_jobs (updateBacklogOnlyOverloadStateCache env q) = ob_jobs q"
  "tailByRequestId (addPendingBytes c b q) = tailByRequestId q"
  "ob_entries (addPendingBytes c b q) = ob_entries q"
  "ob_jobs (addPendingBytes c b q) = ob_jobs q"
  "tailByRequestId (subtractPendingBytes c b q) = tailByRequestId q"
  "ob_entries (subtractPendingBytes c b q) = ob_entries q"
  "ob_jobs (subtractPendingBytes c b q) = ob_jobs q"
  "tailByRequestId (trackRequestId c r q) = tailByRequestId q"
  "ob_entries (trackRequestId c r q) = ob_entries q"
  "ob_jobs (trackRequestId c r q) = ob_jobs q"
  "tailByRequestId (untrackRequestIdIfIdle c r e q) = tailByRequestId q"
  "ob_entries (untrackRequestIdIfIdle c r e q) = ob_entries q"
  "ob_jobs (untrackRequestIdIfIdle c r e q) = ob_jobs q"
  "tailByRequestId (note_budget_refusal d q) = tailByRequestId q"
  "ob_entries (note_budget_refusal d q) = ob_entries q"
  "ob_jobs (note_budget_refusal d q) = ob_jobs q"
  by (simp_all add: updateBacklogOnlyOverloadStateCache_def addPendingBytes_def subtractPendingBytes_def
      trackRequestId_def untrackRequestIdIfIdle_def note_budget_refusal_def Let_def split: option.split byte_decision.split)

lemma note_finished_core [simp]:
  "tailByRequestId (note_finished env failed ms q) = tailByRequestId q"
  "ob_entries (note_finished env failed ms q) = ob_entries q"
  "ob_jobs (note_finished env failed ms q) = ob_jobs q"
  by (simp_all add: note_finished_def)

definition finished_entry :: "int \<Rightarrow> nat \<Rightarrow> outbound_queue \<Rightarrow> tail_entry" where
  "finished_entry now j q =
     (let e = ob_entries q ! oj_entry (ob_jobs q ! j)
      in e\<lparr>activeJobs := max 0 (activeJobs e - 1), pendingJobs := max 0 (pendingJobs e - 1), lastActivityAtMs := now\<rparr>)"

lemma job_finish_core:
  "ob_jobs (job_finish env failed t now j q) = (ob_jobs q)[j := (ob_jobs q ! j)\<lparr>oj_phase := Settled\<rparr>]"
  "ob_entries (job_finish env failed t now j q) = (ob_entries q)[oj_entry (ob_jobs q ! j) := finished_entry now j q]"
  "tailByRequestId (job_finish env failed t now j q) =
     (if te_tail (finished_entry now j q) = Some j \<and> pendingJobs (finished_entry now j q) = 0
      then jm_del (oj_requestId (ob_jobs q ! j)) (tailByRequestId q) else tailByRequestId q)"
  by (simp_all add: job_finish_def finished_entry_def Let_def)

text \<open>The finishing job is the last of its entry exactly when no unsettled job of the request is left.\<close>

lemma running_facts:
  assumes inv: "chains_inv q" and j: "j < length (ob_jobs q)" "oj_phase (ob_jobs q ! j) = Running t0"
  shows "jm_get (tailByRequestId q) (oj_requestId (ob_jobs q ! j)) = Some (oj_entry (ob_jobs q ! j))"
    and "entry_ok (ob_jobs q) (oj_entry (ob_jobs q ! j)) (ob_entries q ! oj_entry (ob_jobs q ! j))"
    and "k < length (ob_jobs q) \<Longrightarrow> j < k \<Longrightarrow> oj_requestId (ob_jobs q ! k) = oj_requestId (ob_jobs q ! j) \<Longrightarrow> oj_phase (ob_jobs q ! k) = Chained"
proof -
  have "unsettled (ob_jobs q ! j)" using j by (simp add: unsettled_def)
  then show "jm_get (tailByRequestId q) (oj_requestId (ob_jobs q ! j)) = Some (oj_entry (ob_jobs q ! j))"
    using inv j by (auto simp: chains_inv_def tails_ok_def)
  show "entry_ok (ob_jobs q) (oj_entry (ob_jobs q ! j)) (ob_entries q ! oj_entry (ob_jobs q ! j))"
    using inv j by (auto simp: chains_inv_def entries_ok_def)
  show "oj_phase (ob_jobs q ! k) = Chained"
    if "k < length (ob_jobs q)" "j < k" "oj_requestId (ob_jobs q ! k) = oj_requestId (ob_jobs q ! j)"
    using order_okD[of "ob_jobs q" j k] inv that j by (cases "oj_phase (ob_jobs q ! k)") (auto simp: chains_inv_def)
qed

lemma finished_entry_fields:
  assumes inv: "chains_inv q" and j: "j < length (ob_jobs q)" "oj_phase (ob_jobs q ! j) = Running t0"
  defines "h \<equiv> oj_entry (ob_jobs q ! j)" and "js' \<equiv> (ob_jobs q)[j := (ob_jobs q ! j)\<lparr>oj_phase := Settled\<rparr>]"
  shows "pendingJobs (finished_entry now j q) = tally (pending_of h) js'"
    and "activeJobs (finished_entry now j q) = tally (active_of h) js'"
    and "te_tail (finished_entry now j q) = te_tail (ob_entries q ! h)"
proof -
  have ok: "entry_ok (ob_jobs q) h (ob_entries q ! h)" using running_facts(2)[OF inv j] by (simp add: h_def)
  have one: "pending_of h (ob_jobs q ! j) = 1" "active_of h (ob_jobs q ! j) = 1"
    using j by (auto simp: pending_of_def active_of_def h_def unsettled_def is_running_def)
  have "1 \<le> tally (pending_of h) (ob_jobs q)" "1 \<le> tally (active_of h) (ob_jobs q)"
    using tally_ge[of "pending_of h" j "ob_jobs q", OF pending_of_nonneg j(1)]
      tally_ge[of "active_of h" j "ob_jobs q", OF active_of_nonneg j(1)] one by auto
  then show "pendingJobs (finished_entry now j q) = tally (pending_of h) js'"
    "activeJobs (finished_entry now j q) = tally (active_of h) js'"
    using ok one j(1) by (simp_all add: finished_entry_def entry_ok_def js'_def h_def[symmetric] tally_update Let_def
        pending_of_def active_of_def unsettled_def is_running_def)
  show "te_tail (finished_entry now j q) = te_tail (ob_entries q ! h)" by (simp add: finished_entry_def h_def Let_def)
qed

lemma finish_last:
  assumes inv: "chains_inv q" and j: "j < length (ob_jobs q)" "oj_phase (ob_jobs q ! j) = Running t0"
    and z: "pendingJobs (finished_entry now j q) = 0"
  shows "te_tail (finished_entry now j q) = Some j"
proof -
  let ?js = "ob_jobs q" and ?h = "oj_entry (ob_jobs q ! j)"
  have t: "tails_ok (tailByRequestId q) (ob_entries q) ?js" using inv by (simp add: chains_inv_def)
  have last: "is_last ?js ?h (length ?js) (te_tail (ob_entries q ! ?h))"
    using running_facts(2)[OF inv j] by (simp add: entry_ok_def)
  then obtain k where k: "te_tail (ob_entries q ! ?h) = Some k" "k < length ?js" "oj_entry (?js ! k) = ?h" "\<not> k < j"
    using j(1) by (auto simp: is_last_def split: option.splits)
  have "k = j"
  proof (rule ccontr)
    assume "k \<noteq> j"
    moreover have "oj_requestId (?js ! k) = oj_requestId (?js ! j)"
      by (rule mapped_request[OF t running_facts(1)[OF inv j] k(2,3)])
    ultimately have "oj_phase (?js ! k) = Chained" using running_facts(3)[OF inv j k(2)] k(4) by simp
    then show False using z k \<open>k \<noteq> j\<close> j(1)
      by (auto simp: finished_entry_fields(1)[OF inv j] pending_zero_iff unsettled_def)
  qed
  then show ?thesis using k finished_entry_fields(3)[OF inv j] by simp
qed

lemma settle_job:
  assumes "i < length js" "j < length js"
  shows "oj_entry (js[j := (js ! j)\<lparr>oj_phase := Settled\<rparr>] ! i) = oj_entry (js ! i)"
    "oj_requestId (js[j := (js ! j)\<lparr>oj_phase := Settled\<rparr>] ! i) = oj_requestId (js ! i)"
    "oj_consumer (js[j := (js ! j)\<lparr>oj_phase := Settled\<rparr>] ! i) = oj_consumer (js ! i)"
    "unsettled (js[j := (js ! j)\<lparr>oj_phase := Settled\<rparr>] ! i) \<longleftrightarrow> i \<noteq> j \<and> unsettled (js ! i)"
  using assms by (auto simp: nth_list_update unsettled_def)

lemma tails_ok_finish:
  assumes t: "tails_ok tails es js" and j: "j < length js" and h: "h = oj_entry (js ! j)" and r: "r = oj_requestId (js ! j)"
    and m: "jm_get tails r = Some h" and y: "y = (js ! j)\<lparr>oj_phase := Settled\<rparr>" and len: "length es' = length es"
  shows "tails_ok (if tally (pending_of h) (js[j := y]) = 0 then jm_del r tails else tails) es' (js[j := y])"
proof -
  let ?js = "js[j := y]" and ?t = "if tally (pending_of h) (js[j := y]) = 0 then jm_del r tails else tails"
  have same: "oj_entry (?js ! i) = oj_entry (js ! i)" "oj_requestId (?js ! i) = oj_requestId (js ! i)"
    "unsettled (?js ! i) \<longleftrightarrow> i \<noteq> j \<and> unsettled (js ! i)" if "i < length js" for i
    using settle_job[OF that j] by (simp_all add: y)
  have "mapped_ok es' ?js r' h'" if get: "jm_get ?t r' = Some h'" for r' h'
  proof -
    have old: "jm_get tails r' = Some h'" using get by (auto split: if_splits)
    have mo: "mapped_ok es js r' h'" using t old by (simp add: tails_ok_def)
    have "\<exists>i < length ?js. oj_entry (?js ! i) = h' \<and> unsettled (?js ! i)"
    proof (cases "r' = r")
      case True
      then have "h' = h" "tally (pending_of h) ?js \<noteq> 0" using get old m by (auto split: if_splits)
      then show ?thesis by (simp add: pending_zero_iff)
    next
      case False
      obtain i where i: "i < length js" "oj_entry (js ! i) = h'" "unsettled (js ! i)" using mo by (auto simp: mapped_ok_def)
      then have "i \<noteq> j" using False mapped_request[OF t old] r j by metis
      then show ?thesis using i same by (intro exI[of _ i]) auto
    qed
    then show ?thesis using mo same len by (simp add: mapped_ok_def)
  qed
  moreover have "jm_get ?t (oj_requestId (?js ! i)) = Some (oj_entry (?js ! i))"
    if i: "i < length js" and u: "unsettled (?js ! i)" for i
  proof -
    have "unsettled (js ! i)" using same[OF i] u by simp
    note g = unsettled_mapped[OF t i this]
    show ?thesis
    proof (cases "oj_requestId (js ! i) = r")
      case True
      then have "oj_entry (js ! i) = h" using g m by simp
      then have "tally (pending_of h) ?js \<noteq> 0" using i u same[OF i] by (auto simp: pending_zero_iff)
      then show ?thesis using g same[OF i] by simp
    qed (use g same[OF i] in simp)
  qed
  ultimately show ?thesis using t by (simp add: tails_ok_def)
qed

lemma chains_finish:
  assumes inv: "chains_inv q" and j: "j < length (ob_jobs q)" "oj_phase (ob_jobs q ! j) = Running t0"
  shows "chains_inv (job_finish env failed t now j q)"
proof -
  let ?js = "ob_jobs q"
  define y where "y = (?js ! j)\<lparr>oj_phase := Settled\<rparr>"
  define h where "h = oj_entry (?js ! j)"
  define e where "e = finished_entry now j q"
  have ok: "chain_ok ?js" "order_ok ?js" "entries_ok (ob_entries q) ?js" "tails_ok (tailByRequestId q) (ob_entries q) ?js"
    using inv by (auto simp: chains_inv_def)
  have en: "entry_ok ?js h (ob_entries q ! h)" using running_facts(2)[OF inv j] by (simp add: h_def)
  have f: "pendingJobs e = tally (pending_of h) (?js[j := y])" "activeJobs e = tally (active_of h) (?js[j := y])"
    "te_tail e = te_tail (ob_entries q ! h)"
    using finished_entry_fields[OF inv j, of now] by (simp_all add: e_def h_def y_def)
  have "chain_ok (?js[j := y])" using chain_ok_phase[OF ok(1) j(1)] by (simp add: y_def)
  moreover have "order_ok (?js[j := y])" using ok(2) order_okD[OF ok(2), of _ j] j unfolding order_ok_def
    by (auto simp: nth_list_update y_def)
  moreover have "entries_ok ((ob_entries q)[h := e]) (?js[j := y])"
    using en f j(1) by (intro entries_ok_phase[OF ok(3) j(1)]) (auto simp: h_def y_def entry_ok_def tally_update)
  moreover have "tails_ok (if tally (pending_of h) (?js[j := y]) = 0 then jm_del (oj_requestId (?js ! j)) (tailByRequestId q)
      else tailByRequestId q) ((ob_entries q)[h := e]) (?js[j := y])"
    using running_facts(1)[OF inv j] by (intro tails_ok_finish[OF ok(4) j(1) h_def refl _ y_def]) (simp_all add: h_def)
  moreover have "tailByRequestId (job_finish env failed t now j q) =
      (if tally (pending_of h) (?js[j := y]) = 0 then jm_del (oj_requestId (?js ! j)) (tailByRequestId q) else tailByRequestId q)"
    using finish_last[OF inv j, of now] f(1) by (auto simp: job_finish_core e_def[symmetric])
  ultimately show ?thesis
    by (simp add: chains_inv_def job_finish_core h_def[symmetric] y_def[symmetric] e_def[symmetric])
qed

subsection \<open>Counters\<close>

lemma counters_frame [simp]:
  "jobsEnqueuedTotal (updateBacklogOnlyOverloadStateCache env q) = jobsEnqueuedTotal q"
  "jobsFinishedTotal (updateBacklogOnlyOverloadStateCache env q) = jobsFinishedTotal q"
  "jobsSweptOrphanedTotal (updateBacklogOnlyOverloadStateCache env q) = jobsSweptOrphanedTotal q"
  "orphanedTailsSweptTotal (updateBacklogOnlyOverloadStateCache env q) = orphanedTailsSweptTotal q"
  "pendingBytes (updateBacklogOnlyOverloadStateCache env q) = pendingBytes q"
  "pendingBytesByConsumer (updateBacklogOnlyOverloadStateCache env q) = pendingBytesByConsumer q"
  "requestIdsByConsumer (updateBacklogOnlyOverloadStateCache env q) = requestIdsByConsumer q"
  "jobsEnqueuedTotal (append_job now r c b pr q) = jobsEnqueuedTotal q"
  "jobsFinishedTotal (append_job now r c b pr q) = jobsFinishedTotal q"
  "jobsSweptOrphanedTotal (append_job now r c b pr q) = jobsSweptOrphanedTotal q"
  "orphanedTailsSweptTotal (append_job now r c b pr q) = orphanedTailsSweptTotal q"
  "pendingBytes (append_job now r c b pr q) = pendingBytes q"
  "pendingBytesByConsumer (append_job now r c b pr q) = pendingBytesByConsumer q"
  "requestIdsByConsumer (append_job now r c b pr q) = requestIdsByConsumer q"
  "jobsEnqueuedTotal (note_budget_refusal d q) = jobsEnqueuedTotal q"
  "jobsFinishedTotal (note_budget_refusal d q) = jobsFinishedTotal q"
  "jobsSweptOrphanedTotal (note_budget_refusal d q) = jobsSweptOrphanedTotal q"
  "orphanedTailsSweptTotal (note_budget_refusal d q) = orphanedTailsSweptTotal q"
  "pendingBytes (note_budget_refusal d q) = pendingBytes q"
  "pendingBytesByConsumer (note_budget_refusal d q) = pendingBytesByConsumer q"
  "requestIdsByConsumer (note_budget_refusal d q) = requestIdsByConsumer q"
  "jobsEnqueuedTotal (addPendingBytes c b q) = jobsEnqueuedTotal q"
  "jobsFinishedTotal (addPendingBytes c b q) = jobsFinishedTotal q"
  "jobsSweptOrphanedTotal (addPendingBytes c b q) = jobsSweptOrphanedTotal q"
  "orphanedTailsSweptTotal (addPendingBytes c b q) = orphanedTailsSweptTotal q"
  "requestIdsByConsumer (addPendingBytes c b q) = requestIdsByConsumer q"
  "jobsEnqueuedTotal (subtractPendingBytes c b q) = jobsEnqueuedTotal q"
  "jobsFinishedTotal (subtractPendingBytes c b q) = jobsFinishedTotal q"
  "jobsSweptOrphanedTotal (subtractPendingBytes c b q) = jobsSweptOrphanedTotal q"
  "orphanedTailsSweptTotal (subtractPendingBytes c b q) = orphanedTailsSweptTotal q"
  "requestIdsByConsumer (subtractPendingBytes c b q) = requestIdsByConsumer q"
  "jobsEnqueuedTotal (trackRequestId c r q) = jobsEnqueuedTotal q"
  "jobsFinishedTotal (trackRequestId c r q) = jobsFinishedTotal q"
  "jobsSweptOrphanedTotal (trackRequestId c r q) = jobsSweptOrphanedTotal q"
  "orphanedTailsSweptTotal (trackRequestId c r q) = orphanedTailsSweptTotal q"
  "pendingBytes (trackRequestId c r q) = pendingBytes q"
  "pendingBytesByConsumer (trackRequestId c r q) = pendingBytesByConsumer q"
  "jobsEnqueuedTotal (untrackRequestIdIfIdle c r e q) = jobsEnqueuedTotal q"
  "jobsFinishedTotal (untrackRequestIdIfIdle c r e q) = jobsFinishedTotal q"
  "jobsSweptOrphanedTotal (untrackRequestIdIfIdle c r e q) = jobsSweptOrphanedTotal q"
  "orphanedTailsSweptTotal (untrackRequestIdIfIdle c r e q) = orphanedTailsSweptTotal q"
  "pendingBytes (untrackRequestIdIfIdle c r e q) = pendingBytes q"
  "pendingBytesByConsumer (untrackRequestIdIfIdle c r e q) = pendingBytesByConsumer q"
  by (simp_all add: updateBacklogOnlyOverloadStateCache_def append_job_def addPendingBytes_def subtractPendingBytes_def
      trackRequestId_def untrackRequestIdIfIdle_def note_budget_refusal_def Let_def split: prod.split option.split byte_decision.split)

lemma note_finished_frame [simp]:
  "jobsEnqueuedTotal (note_finished env failed ms q) = jobsEnqueuedTotal q"
  "jobsSweptOrphanedTotal (note_finished env failed ms q) = jobsSweptOrphanedTotal q"
  "orphanedTailsSweptTotal (note_finished env failed ms q) = orphanedTailsSweptTotal q"
  "pendingBytes (note_finished env failed ms q) = pendingBytes q"
  "pendingBytesByConsumer (note_finished env failed ms q) = pendingBytesByConsumer q"
  "requestIdsByConsumer (note_finished env failed ms q) = requestIdsByConsumer q"
  "jobsFinishedTotal (note_finished env failed ms q) = jobsFinishedTotal q + 1"
  by (simp_all add: note_finished_def)

lemma add_bytes_pending [simp]: "pendingBytes (addPendingBytes c b q) = pendingBytes q + max 0 b"
  by (simp add: addPendingBytes_def Let_def split: option.split)

lemma add_bytes_consumer [simp]:
  "cnt_get (pendingBytesByConsumer (addPendingBytes c b q)) k =
     cnt_get (pendingBytesByConsumer q) k + (if real_consumer c = Some k then max 0 b else 0)"
  by (auto simp: addPendingBytes_def cnt_get_def Let_def split: option.split)

lemma add_bytes_wf: "cnt_wf (pendingBytesByConsumer q) \<Longrightarrow> cnt_wf (pendingBytesByConsumer (addPendingBytes c b q))"
  using cnt_wf_nonneg[of "pendingBytesByConsumer q"]
  by (auto simp: addPendingBytes_def cnt_wf_def Let_def add_nonneg_pos split: option.split if_splits)

lemma subtract_bytes_pending: "bytes \<le> pendingBytes q \<or> bytes \<le> 0 \<Longrightarrow> pendingBytes (subtractPendingBytes c bytes q) = pendingBytes q - max 0 bytes"
  by (auto simp: subtractPendingBytes_def Let_def split: option.split)

lemma subtract_bytes_consumer:
  assumes "cnt_wf (pendingBytesByConsumer q)" and "real_consumer c = Some k \<Longrightarrow> bytes \<le> cnt_get (pendingBytesByConsumer q) k"
  shows "cnt_get (pendingBytesByConsumer (subtractPendingBytes c bytes q)) k =
    cnt_get (pendingBytesByConsumer q) k - (if real_consumer c = Some k then max 0 bytes else 0)"
  using assms by (auto simp: subtractPendingBytes_def cnt_get_def Let_def split: option.split)

lemma subtract_bytes_wf: "cnt_wf (pendingBytesByConsumer q) \<Longrightarrow> cnt_wf (pendingBytesByConsumer (subtractPendingBytes c b q))"
  by (auto simp: subtractPendingBytes_def cnt_wf_def Let_def split: option.split if_splits)

lemma job_finish_counters:
  fixes q :: outbound_queue and j :: nat and env failed t now
  defines "job \<equiv> ob_jobs q ! j" and "q' \<equiv> job_finish env failed t now j q"
  shows "jobsEnqueuedTotal q' = jobsEnqueuedTotal q" "jobsFinishedTotal q' = jobsFinishedTotal q + 1"
    "jobsSweptOrphanedTotal q' = jobsSweptOrphanedTotal q" "orphanedTailsSweptTotal q' = orphanedTailsSweptTotal q"
    "pendingBytes q' = pendingBytes (subtractPendingBytes (oj_consumer job) (oj_bytes job) q)"
    "pendingBytesByConsumer q' = pendingBytesByConsumer (subtractPendingBytes (oj_consumer job) (oj_bytes job) q)"
    "requestIdsByConsumer q' = requestIdsByConsumer (untrackRequestIdIfIdle (oj_consumer job) (oj_requestId job) (finished_entry now j q) q)"
  by (auto simp: q'_def job_def job_finish_def finished_entry_def subtractPendingBytes_def untrackRequestIdIfIdle_def Let_def
      split: option.split)

text \<open>Every job of a request names the same consumer.\<close>

definition job_owner :: "outbound_job \<Rightarrow> string \<times> string option" where
  "job_owner x = (oj_requestId x, real_consumer (oj_consumer x))"

definition one_consumer :: "outbound_job list \<Rightarrow> bool" where
  "one_consumer js \<longleftrightarrow> single_valued (set (map job_owner js))"

definition live_for :: "outbound_job list \<Rightarrow> string \<Rightarrow> string \<Rightarrow> bool" where
  "live_for js c r \<longleftrightarrow> (\<exists>x \<in> set js. unsettled x \<and> job_owner x = (r, Some c))"

definition tracked_ok :: "(string, string) index \<Rightarrow> outbound_job list \<Rightarrow> bool" where
  "tracked_ok ids js \<longleftrightarrow> idx_wf ids \<and> (\<forall>c r. live_for js c r \<longrightarrow> r \<in> set (idx_get ids c)) \<and>
     (one_consumer js \<longrightarrow> (\<forall>c r. r \<in> set (idx_get ids c) \<longrightarrow> live_for js c r))"

definition books_inv :: "outbound_queue \<Rightarrow> bool" where
  "books_inv q \<longleftrightarrow> jobsEnqueuedTotal q = int (length (ob_jobs q)) \<and> jobsFinishedTotal q = tally settled_of (ob_jobs q) \<and>
     jobsSweptOrphanedTotal q = 0 \<and> orphanedTailsSweptTotal q = 0 \<and>
     pendingBytes q = tally bytes_of (ob_jobs q) \<and> cnt_wf (pendingBytesByConsumer q) \<and>
     (\<forall>c. cnt_get (pendingBytesByConsumer q) c = tally (consumer_bytes_of c) (ob_jobs q)) \<and>
     tracked_ok (requestIdsByConsumer q) (ob_jobs q)"

lemma live_for_nth: "live_for js c r \<longleftrightarrow> (\<exists>i < length js. unsettled (js ! i) \<and> job_owner (js ! i) = (r, Some c))"
  unfolding live_for_def by (metis in_set_conv_nth)

lemma one_consumer_nth:
  assumes "one_consumer js" "i < length js" "k < length js" "oj_requestId (js ! i) = oj_requestId (js ! k)"
  shows "job_owner (js ! i) = job_owner (js ! k)"
proof -
  have "job_owner (js ! i) \<in> set (map job_owner js)" "job_owner (js ! k) \<in> set (map job_owner js)"
    using assms(2,3) by simp_all
  then show ?thesis using assms(1,4) unfolding one_consumer_def job_owner_def by (auto dest: single_valuedD)
qed

lemma live_for_append: "unsettled x \<Longrightarrow> live_for (js @ [x]) c r \<longleftrightarrow> live_for js c r \<or> job_owner x = (r, Some c)"
  by (auto simp: live_for_def)

lemma one_consumer_append: "one_consumer (js @ [x]) \<Longrightarrow> one_consumer js"
  unfolding one_consumer_def by (erule single_valued_subset[rotated]) auto

lemma tracked_append:
  assumes t: "tracked_ok (requestIdsByConsumer q) js" and x: "unsettled x"
  shows "tracked_ok (requestIdsByConsumer (trackRequestId (oj_consumer x) (oj_requestId x) q)) (js @ [x])"
  using t one_consumer_append[of js x]
  by (auto simp: tracked_ok_def trackRequestId_def live_for_append[OF x] job_owner_def split: option.split if_splits)

lemma map_update_same: "f y = f (js ! j) \<Longrightarrow> map f (js[j := y]) = map f js"
  by (cases "j < length js") (simp_all add: map_update list_update_same_conv list_update_beyond)

lemma tracked_phase:
  assumes t: "tracked_ok ids js" and j: "j < length js" and y: "job_owner y = job_owner (js ! j)" "unsettled y = unsettled (js ! j)"
  shows "tracked_ok ids (js[j := y])"
proof -
  have "live_for (js[j := y]) c r = live_for js c r" for c r
    using y j by (auto simp: live_for_nth nth_list_update)
  moreover have "one_consumer (js[j := y]) = one_consumer js" using map_update_same[of job_owner y js j] y by (simp add: one_consumer_def)
  ultimately show ?thesis using t by (simp add: tracked_ok_def)
qed

text \<open>The entry of a finishing job is idle exactly when its request has no unsettled job left.\<close>

lemma finished_idle_iff:
  assumes inv: "chains_inv q" and j: "j < length (ob_jobs q)" "oj_phase (ob_jobs q ! j) = Running t0"
  defines "js' \<equiv> (ob_jobs q)[j := (ob_jobs q ! j)\<lparr>oj_phase := Settled\<rparr>]"
  shows "pendingJobs (finished_entry now j q) > 0 \<or> activeJobs (finished_entry now j q) > 0 \<longleftrightarrow>
    (\<exists>i < length js'. oj_requestId (js' ! i) = oj_requestId (ob_jobs q ! j) \<and> unsettled (js' ! i))"
proof -
  let ?js = "ob_jobs q" and ?h = "oj_entry (ob_jobs q ! j)"
  have t: "tails_ok (tailByRequestId q) (ob_entries q) ?js" using inv by (simp add: chains_inv_def)
  note m = running_facts(1)[OF inv j]
  have same: "oj_entry (js' ! i) = oj_entry (?js ! i)" "oj_requestId (js' ! i) = oj_requestId (?js ! i)"
    "unsettled (js' ! i) \<Longrightarrow> unsettled (?js ! i)" if "i < length ?js" for i
    using settle_job[OF that j(1)] by (simp_all add: js'_def)
  have "oj_entry (js' ! i) = ?h \<longleftrightarrow> oj_requestId (js' ! i) = oj_requestId (?js ! j)" if "i < length ?js" "unsettled (js' ! i)" for i
    using unsettled_mapped[OF t that(1) same(3)[OF that]] mapped_request[OF t m that(1)] m same[OF that(1)] by auto
  then have "tally (pending_of ?h) js' = 0 \<longleftrightarrow> \<not> (\<exists>i < length js'. oj_requestId (js' ! i) = oj_requestId (?js ! j) \<and> unsettled (js' ! i))"
    unfolding pending_zero_iff by (auto simp: js'_def)
  moreover have "tally (active_of ?h) js' \<le> tally (pending_of ?h) js'"
    by (rule tally_mono) (simp add: active_of_def pending_of_def is_running_def unsettled_def)
  moreover have "0 \<le> tally (pending_of ?h) js'" by (rule tally_nonneg) (rule pending_of_nonneg)
  ultimately show ?thesis using finished_entry_fields(1,2)[OF inv j, of now] by (auto simp: js'_def)
qed

lemma tracked_finish:
  assumes inv: "chains_inv q" and j: "j < length (ob_jobs q)" "oj_phase (ob_jobs q ! j) = Running t0"
    and t: "tracked_ok (requestIdsByConsumer q) (ob_jobs q)"
  defines "js' \<equiv> (ob_jobs q)[j := (ob_jobs q ! j)\<lparr>oj_phase := Settled\<rparr>]"
  shows "tracked_ok (requestIdsByConsumer (untrackRequestIdIfIdle (oj_consumer (ob_jobs q ! j)) (oj_requestId (ob_jobs q ! j))
    (finished_entry now j q) q)) js'"
proof -
  let ?js = "ob_jobs q" and ?r = "oj_requestId (ob_jobs q ! j)" and ?c = "real_consumer (oj_consumer (ob_jobs q ! j))"
  define busy where "busy \<longleftrightarrow> (\<exists>i < length js'. oj_requestId (js' ! i) = ?r \<and> unsettled (js' ! i))"
  define ids' where "ids' = (case ?c of Some c \<Rightarrow> if busy then requestIdsByConsumer q else removeIndexValue (requestIdsByConsumer q) c ?r
    | None \<Rightarrow> requestIdsByConsumer q)"
  have "pendingJobs (finished_entry now j q) > 0 \<or> activeJobs (finished_entry now j q) > 0 \<longleftrightarrow> busy"
    unfolding busy_def js'_def by (rule finished_idle_iff[OF inv j])
  then have ids: "requestIdsByConsumer (untrackRequestIdIfIdle (oj_consumer (?js ! j)) ?r (finished_entry now j q) q) = ids'"
    by (simp add: untrackRequestIdIfIdle_def ids'_def split: option.split)
  have owner: "job_owner (js' ! i) = job_owner (?js ! i)" and uns: "unsettled (js' ! i) \<longleftrightarrow> i \<noteq> j \<and> unsettled (?js ! i)"
    if "i < length ?js" for i using settle_job[OF that j(1)] by (simp_all add: js'_def job_owner_def)
  have len: "length js' = length ?js" by (simp add: js'_def)
  have oneeq: "one_consumer js' = one_consumer ?js"
    using map_update_same[of job_owner "(?js ! j)\<lparr>oj_phase := Settled\<rparr>" ?js j] by (simp add: one_consumer_def js'_def job_owner_def)
  have sub: "set (idx_get ids' c) = set (idx_get (requestIdsByConsumer q) c) - (if ?c = Some c \<and> \<not> busy then {?r} else {})" for c
    by (simp add: ids'_def split: option.split)
  have "r \<in> set (idx_get ids' c)" if l: "live_for js' c r" for c r
  proof -
    obtain i where i: "i < length js'" "unsettled (js' ! i)" "job_owner (js' ! i) = (r, Some c)" using l by (auto simp: live_for_nth)
    then have "live_for ?js c r" using owner uns len by (auto simp: live_for_nth)
    then have "r \<in> set (idx_get (requestIdsByConsumer q) c)" using t by (simp add: tracked_ok_def)
    moreover have "r = ?r \<Longrightarrow> busy" unfolding busy_def using i by (auto simp: job_owner_def)
    ultimately show ?thesis by (auto simp: sub)
  qed
  moreover have "live_for js' c r" if oc: "one_consumer js'" and r: "r \<in> set (idx_get ids' c)" for c r
  proof -
    have "live_for ?js c r" using t r sub oc oneeq by (auto simp: tracked_ok_def)
    then obtain i where i: "i < length ?js" "unsettled (?js ! i)" "job_owner (?js ! i) = (r, Some c)" by (auto simp: live_for_nth)
    show ?thesis
    proof (cases "i = j")
      case True
      then have "busy" using r i sub[of c] by (auto simp: job_owner_def split: if_splits)
      then obtain k where k: "k < length js'" "oj_requestId (js' ! k) = ?r" "unsettled (js' ! k)" by (auto simp: busy_def)
      then have "job_owner (?js ! k) = job_owner (?js ! j)"
        using one_consumer_nth[of ?js k j] oc oneeq j(1) owner[of k] len by (simp add: job_owner_def)
      then show ?thesis using k owner[of k] i True len by (auto simp: live_for_nth)
    next
      case False
      then show ?thesis using i owner uns len by (auto simp: live_for_nth)
    qed
  qed
  moreover have "idx_wf ids'" using t by (auto simp: ids'_def tracked_ok_def split: option.split)
  ultimately show ?thesis unfolding ids by (simp add: tracked_ok_def)
qed

text \<open>The chains and the books as functions of the part of the state they read.\<close>

definition books_part where
  "books_part q = ((tailByRequestId q, ob_entries q, ob_jobs q),
     (jobsEnqueuedTotal q, jobsFinishedTotal q, jobsSweptOrphanedTotal q, orphanedTailsSweptTotal q, pendingBytes q,
      pendingBytesByConsumer q, requestIdsByConsumer q))"

lemma books_part_cong: "books_part q' = books_part q \<Longrightarrow> chains_inv q \<and> books_inv q \<Longrightarrow> chains_inv q' \<and> books_inv q'"
  by (simp add: books_part_def chains_inv_def books_inv_def)

lemma books_part_refresh [simp]:
  "books_part (refreshRelayOutboundQueueOverloadState env now q) = books_part q"
  "books_part (updateBacklogOnlyOverloadStateCache env q) = books_part q"
  "books_part (note_budget_refusal d q) = books_part q"
  "books_part (noteRelayOutboundQueueOverloadRejected q) = books_part q"
  by (simp_all add: books_part_def refreshRelayOutboundQueueOverloadState_def updateOverloadStateCache_def
      noteRelayOutboundQueueOverloadRejected_def Let_def)

lemma books_part_overload [simp]:
  "books_part (snd (getRelayOutboundQueueOverloadState env now q)) = books_part q"
  by (simp add: getRelayOutboundQueueOverloadState_def Let_def)

lemma books_part_snapshot [simp]:
  "books_part (snd (getRelayOutboundQueueMetricsSnapshot env now q)) = books_part q"
  by (simp add: getRelayOutboundQueueMetricsSnapshot_def updateOverloadStateCache_def books_part_def Let_def)

lemma books_enqueued:
  assumes inv: "books_inv q" and q0: "books_part q0 = books_part (q\<lparr>jobsEnqueuedTotal := jobsEnqueuedTotal q + 1\<rparr>)"
  shows "books_inv (append_job now r c b pr (trackRequestId c r (addPendingBytes c b q0)))"
proof -
  let ?q = "addPendingBytes c b q0"
  let ?q2 = "trackRequestId c r ?q"
  define x where "x h pv = \<lparr>oj_requestId = r, oj_entry = h, oj_consumer = c, oj_bytes = b, oj_priority = pr, oj_prev = pv,
    oj_phase = Chained\<rparr>" for h pv
  have f: "ob_jobs q0 = ob_jobs q" "jobsEnqueuedTotal q0 = jobsEnqueuedTotal q + 1" "jobsFinishedTotal q0 = jobsFinishedTotal q"
    "jobsSweptOrphanedTotal q0 = jobsSweptOrphanedTotal q" "orphanedTailsSweptTotal q0 = orphanedTailsSweptTotal q"
    "pendingBytes q0 = pendingBytes q" "pendingBytesByConsumer q0 = pendingBytesByConsumer q" "requestIdsByConsumer q0 = requestIdsByConsumer q"
    using q0 by (auto simp: books_part_def)
  obtain h pv where jobs: "ob_jobs (append_job now r c b pr ?q2) = ob_jobs q @ [x h pv]"
    by (cases "tail_entry_for now r ?q2") (simp add: append_job_def Let_def x_def f)
  have t: "tracked_ok (requestIdsByConsumer ?q) (ob_jobs q)" using inv f by (simp add: books_inv_def)
  have "tracked_ok (requestIdsByConsumer ?q2) (ob_jobs q @ [x h pv])"
    using tracked_append[OF t, of "x h pv"] by (simp add: x_def unsettled_def)
  moreover have "cnt_wf (pendingBytesByConsumer ?q)" using inv f by (intro add_bytes_wf) (simp add: books_inv_def)
  moreover have "settled_of (x h pv) = 0" "bytes_of (x h pv) = max 0 b"
    "\<And>k. consumer_bytes_of k (x h pv) = (if real_consumer c = Some k then max 0 b else 0)"
    by (simp_all add: x_def settled_of_def bytes_of_def consumer_bytes_of_def unsettled_def)
  ultimately show ?thesis using inv f by (simp add: books_inv_def jobs)
qed

lemma books_start:
  assumes inv: "books_inv q" and ready: "job_ready q j"
  shows "books_inv (job_start t0 now j q)"
proof -
  let ?y = "(ob_jobs q ! j)\<lparr>oj_phase := Running t0\<rparr>"
  have j: "j < length (ob_jobs q)" "oj_phase (ob_jobs q ! j) = Chained" using ready by (auto simp: job_ready_def)
  have "tracked_ok (requestIdsByConsumer q) ((ob_jobs q)[j := ?y])"
    using inv j by (intro tracked_phase) (auto simp: books_inv_def job_owner_def unsettled_def)
  then show ?thesis using inv j
    by (simp add: books_inv_def job_start_def Let_def tally_update settled_of_def bytes_of_def consumer_bytes_of_def unsettled_def)
qed

lemma books_finish:
  assumes ch: "chains_inv q" and inv: "books_inv q" and j: "j < length (ob_jobs q)" "oj_phase (ob_jobs q ! j) = Running t0"
  shows "books_inv (job_finish env failed t now j q)"
proof -
  let ?job = "ob_jobs q ! j" and ?js = "ob_jobs q"
  have u: "unsettled ?job" using j by (simp add: unsettled_def)
  have ge: "bytes_of ?job \<le> tally bytes_of ?js" "\<And>c. consumer_bytes_of c ?job \<le> tally (consumer_bytes_of c) ?js"
    using j(1) by (auto intro!: tally_ge bytes_of_nonneg consumer_bytes_of_nonneg)
  have "pendingBytes (subtractPendingBytes (oj_consumer ?job) (oj_bytes ?job) q) = pendingBytes q - max 0 (oj_bytes ?job)"
    using inv ge(1) u by (intro subtract_bytes_pending) (auto simp: books_inv_def bytes_of_def)
  moreover have "cnt_get (pendingBytesByConsumer (subtractPendingBytes (oj_consumer ?job) (oj_bytes ?job) q)) c =
      cnt_get (pendingBytesByConsumer q) c - (if real_consumer (oj_consumer ?job) = Some c then max 0 (oj_bytes ?job) else 0)" for c
    using inv ge(2)[of c] u by (intro subtract_bytes_consumer) (auto simp: books_inv_def consumer_bytes_of_def bytes_of_def)
  moreover have "cnt_wf (pendingBytesByConsumer (subtractPendingBytes (oj_consumer ?job) (oj_bytes ?job) q))"
    using inv by (intro subtract_bytes_wf) (simp add: books_inv_def)
  moreover have "tracked_ok (requestIdsByConsumer q) ?js" using inv by (simp add: books_inv_def)
  note tracked_finish[OF ch j this, of now]
  ultimately show ?thesis using inv u j(1)
    by (simp add: books_inv_def job_finish_counters job_finish_core tally_update settled_of_def bytes_of_def
        consumer_bytes_of_def unsettled_def)
qed

text \<open>The sweep finds nothing: an entry in the map always has an unsettled job.\<close>

lemma sweep_finds_nothing:
  assumes "chains_inv q"
  shows "filter (\<lambda>(_, h). isTailEntryOrphaned env now (ob_entries q ! h)) (tailByRequestId q) = []"
proof -
  have "pendingJobs (ob_entries q ! h) \<noteq> 0" if "(r, h) \<in> set (tailByRequestId q)" for r h
  proof -
    have "tails_ok (tailByRequestId q) (ob_entries q) (ob_jobs q)" using assms by (simp add: chains_inv_def)
    then have m: "mapped_ok (ob_entries q) (ob_jobs q) r h" using jm_in_set_get[OF _ that] by (auto simp: tails_ok_def)
    then have "entry_ok (ob_jobs q) h (ob_entries q ! h)" using assms by (auto simp: chains_inv_def entries_ok_def mapped_ok_def)
    then show ?thesis using m pending_zero_iff[of h "ob_jobs q"] by (auto simp: mapped_ok_def entry_ok_def)
  qed
  then show ?thesis by (auto simp: filter_empty_conv isTailEntryOrphaned_def)
qed

lemma sweep_idle:
  assumes "chains_inv q"
  shows "fst (sweepRelayOutboundQueueState env now q) = 0" "books_part (snd (sweepRelayOutboundQueueState env now q)) = books_part q"
proof -
  have f: "filter (\<lambda>(_, h). isTailEntryOrphaned env now (ob_entries q ! h)) (tailByRequestId q) = []"
    by (rule sweep_finds_nothing[OF assms])
  then have "filter (\<lambda>p. \<not> (\<lambda>(_, h). isTailEntryOrphaned env now (ob_entries q ! h)) p) (tailByRequestId q) = tailByRequestId q"
    by (auto simp: filter_empty_conv filter_id_conv)
  note keep = this
  show "fst (sweepRelayOutboundQueueState env now q) = 0" using f by (simp add: sweepRelayOutboundQueueState_def Let_def)
  show "books_part (snd (sweepRelayOutboundQueueState env now q)) = books_part q"
    using f keep by (simp add: sweepRelayOutboundQueueState_def Let_def)
qed

section \<open>The gate of the consumer handlers\<close>

text \<open>\<^verbatim>\<open>resolveConsumerOutboundBlock\<close> of \<^verbatim>\<open>register_consumer_socket_handlers.ts\<close>: a request of a consumer is refused when
  the queue is overloaded or the byte budget of the consumer is exhausted; at the hard limit the consumer is
  disconnected or loses its stream subscriptions, as configured.\<close>

datatype block_reason = BlockOverload "overload_reason option" | BlockBytesHard | BlockBytes
datatype hard_limit_effect = DisconnectConsumer string | CleanupStreamSubscriptions string

definition resolveConsumerOutboundBlock ::
    "ob_env \<Rightarrow> bool \<Rightarrow> int \<Rightarrow> string \<Rightarrow> outbound_queue \<Rightarrow> ((int \<times> block_reason) option \<times> hard_limit_effect list) \<times> outbound_queue" where
  "resolveConsumerOutboundBlock env disconnectConsumer now socketId q =
     (let ((overloaded, reason, retryAfter, _), q1) = getRelayOutboundQueueOverloadState env now q
      in if overloaded then ((Some (retryAfter, BlockOverload reason), []), noteRelayOutboundQueueOverloadRejected q1)
         else let (bytes, q2) = admitRelayOutboundConsumerWork env socketId q1
              in case bytes of
                   BudgetOk \<Rightarrow> ((None, []), q2)
                 | BudgetHard \<Rightarrow> ((Some (max 250 retryAfter, BlockBytesHard),
                     [if disconnectConsumer then DisconnectConsumer socketId else CleanupStreamSubscriptions socketId]), q2)
                 | BudgetShed \<Rightarrow> ((Some (max 250 retryAfter, BlockBytes), []), q2))"

section \<open>The invariant holds\<close>

definition normal_bytes_of :: "outbound_job \<Rightarrow> int" where
  "normal_bytes_of x = (if real_consumer (oj_consumer x) \<noteq> None \<and> oj_priority x = Normal then bytes_of x else 0)"

definition normal_consumer_bytes_of :: "string \<Rightarrow> outbound_job \<Rightarrow> int" where
  "normal_consumer_bytes_of c x = (if real_consumer (oj_consumer x) = Some c \<and> oj_priority x = Normal then bytes_of x else 0)"

text \<open>Jobs that are not control jobs stay within twice the configured bytes.\<close>

definition within_hard_limits :: "ob_env \<Rightarrow> outbound_job list \<Rightarrow> bool" where
  "within_hard_limits env js \<longleftrightarrow>
     (maxPendingBytes env > 0 \<longrightarrow> tally normal_bytes_of js \<le> maxPendingBytes env * 2) \<and>
     (maxPendingBytesPerConsumer env > 0 \<longrightarrow> (\<forall>c. tally (normal_consumer_bytes_of c) js \<le> maxPendingBytesPerConsumer env * 2))"

definition ob_inv :: "ob_env \<Rightarrow> outbound_queue \<Rightarrow> bool" where
  "ob_inv env q \<longleftrightarrow> (chains_inv q \<and> books_inv q) \<and> within_hard_limits env (ob_jobs q)"

lemma within_hard_limits_update:
  assumes w: "within_hard_limits env js" and j: "j < length js" and b: "bytes_of y \<le> bytes_of (js ! j)"
    and same: "oj_consumer y = oj_consumer (js ! j)" "oj_priority y = oj_priority (js ! j)"
  shows "within_hard_limits env (js[j := y])"
proof -
  have "tally normal_bytes_of (js[j := y]) \<le> tally normal_bytes_of js"
    using j b same by (simp add: tally_update normal_bytes_of_def)
  moreover have "tally (normal_consumer_bytes_of c) (js[j := y]) \<le> tally (normal_consumer_bytes_of c) js" for c
    using j b same by (simp add: tally_update normal_consumer_bytes_of_def)
  ultimately show ?thesis using w unfolding within_hard_limits_def by (meson order_trans)
qed

lemma budget_limits:
  assumes "evaluateRelayOutboundByteBudget env c b q \<noteq> BudgetHard" and "0 \<le> b"
  shows "maxPendingBytes env > 0 \<Longrightarrow> pendingBytes q + b \<le> maxPendingBytes env * 2"
    and "maxPendingBytesPerConsumer env > 0 \<Longrightarrow>
      cnt_get (pendingBytesByConsumer q) c + b \<le> maxPendingBytesPerConsumer env * 2"
  using assms by (auto simp: evaluateRelayOutboundByteBudget_def Let_def max_def split: if_splits)

lemma budget_limits_ok:
  assumes "evaluateRelayOutboundByteBudget env c b q = BudgetOk" and "0 \<le> b"
  shows "maxPendingBytes env > 0 \<Longrightarrow> pendingBytes q + b \<le> maxPendingBytes env"
    and "maxPendingBytesPerConsumer env > 0 \<Longrightarrow> cnt_get (pendingBytesByConsumer q) c + b \<le> maxPendingBytesPerConsumer env"
    and "maxPendingRequestIdsPerConsumer env > 0 \<Longrightarrow>
      int (length (idx_get (requestIdsByConsumer q) c)) < maxPendingRequestIdsPerConsumer env"
  using assms by (auto simp: evaluateRelayOutboundByteBudget_def Let_def max_def split: if_splits)

lemma within_hard_limits_append:
  assumes w: "within_hard_limits env (ob_jobs q)" and bk: "books_inv q"
    and adm: "\<And>c. real_consumer (oj_consumer x) = Some c \<Longrightarrow> 0 < oj_bytes x \<Longrightarrow> oj_priority x = Normal \<Longrightarrow>
      evaluateRelayOutboundByteBudget env c (oj_bytes x) q \<noteq> BudgetHard"
  shows "within_hard_limits env (ob_jobs q @ [x])"
proof (cases "normal_bytes_of x = 0")
  case True
  then have "normal_consumer_bytes_of c x = 0" for c by (auto simp: normal_bytes_of_def normal_consumer_bytes_of_def)
  then show ?thesis using w True by (simp add: within_hard_limits_def)
next
  case False
  then obtain c where c: "real_consumer (oj_consumer x) = Some c" "oj_priority x = Normal" "0 < oj_bytes x" "bytes_of x = oj_bytes x"
    by (auto simp: normal_bytes_of_def bytes_of_def split: if_splits)
  note lim = budget_limits[OF adm[OF c(1,3,2)]]
  have "tally normal_bytes_of (ob_jobs q) \<le> tally bytes_of (ob_jobs q)"
    by (rule tally_mono) (simp add: normal_bytes_of_def bytes_of_nonneg)
  moreover have "tally (normal_consumer_bytes_of c) (ob_jobs q) \<le> tally (consumer_bytes_of c) (ob_jobs q)"
    by (rule tally_mono) (simp add: normal_consumer_bytes_of_def consumer_bytes_of_def bytes_of_nonneg)
  ultimately have "maxPendingBytes env > 0 \<Longrightarrow> tally normal_bytes_of (ob_jobs q) + oj_bytes x \<le> maxPendingBytes env * 2"
    "maxPendingBytesPerConsumer env > 0 \<Longrightarrow> tally (normal_consumer_bytes_of c) (ob_jobs q) + oj_bytes x \<le> maxPendingBytesPerConsumer env * 2"
    using lim c(3) bk by (auto simp: books_inv_def)
  moreover have "normal_bytes_of x = oj_bytes x" "\<And>k. normal_consumer_bytes_of k x = (if k = c then oj_bytes x else 0)"
    using c by (auto simp: normal_bytes_of_def normal_consumer_bytes_of_def)
  ultimately show ?thesis using w by (simp add: within_hard_limits_def)
qed

text \<open>The two outcomes of an enqueue.\<close>

definition accepted :: "ob_env \<Rightarrow> int \<Rightarrow> string \<Rightarrow> enqueue_options \<Rightarrow> outbound_queue \<Rightarrow> outbound_queue" where
  "accepted env now r opts q =
     (let bytes = default_to 0 (eo_pendingBytes opts); consumer = eo_consumerSocketId opts
      in append_job now r consumer bytes (default_to Normal (eo_priority opts))
           (trackRequestId consumer r (addPendingBytes consumer bytes
              (updateBacklogOnlyOverloadStateCache env (q\<lparr>jobsEnqueuedTotal := jobsEnqueuedTotal q + 1\<rparr>)))))"

lemma enqueue_outcomes [consumes 0, case_names refused accepted]:
  obtains d where "enqueueRelayOutbound env now r opts q = (Some d, note_budget_refusal d q)" "d \<noteq> BudgetOk"
  | "enqueueRelayOutbound env now r opts q = (None, accepted env now r opts q)"
    "\<And>c. real_consumer (eo_consumerSocketId opts) = Some c \<Longrightarrow> 0 < default_to 0 (eo_pendingBytes opts) \<Longrightarrow>
       default_to Normal (eo_priority opts) = Normal \<Longrightarrow>
       evaluateRelayOutboundByteBudget env c (default_to 0 (eo_pendingBytes opts)) q \<noteq> BudgetHard \<and>
       (default_to ShedReject (eo_shedPolicy opts) = ShedReject \<longrightarrow>
        evaluateRelayOutboundByteBudget env c (default_to 0 (eo_pendingBytes opts)) q = BudgetOk)"
proof -
  define dec where "dec = (case real_consumer (eo_consumerSocketId opts) of
      Some c \<Rightarrow> if default_to 0 (eo_pendingBytes opts) > 0 \<and> default_to Normal (eo_priority opts) \<noteq> Control
                then evaluateRelayOutboundByteBudget env c (default_to 0 (eo_pendingBytes opts)) q else BudgetOk
    | None \<Rightarrow> BudgetOk)"
  have eq: "enqueueRelayOutbound env now r opts q =
    (if dec = BudgetHard \<or> (dec = BudgetShed \<and> default_to ShedReject (eo_shedPolicy opts) = ShedReject)
     then (Some dec, note_budget_refusal dec q) else (None, accepted env now r opts q))"
    by (simp add: enqueueRelayOutbound_def accepted_def dec_def Let_def)
  show thesis
  proof (cases "dec = BudgetHard \<or> (dec = BudgetShed \<and> default_to ShedReject (eo_shedPolicy opts) = ShedReject)")
    case True
    then show thesis using that(1)[of dec] eq by auto
  next
    case False
    show thesis
    proof (rule that(2))
      show "enqueueRelayOutbound env now r opts q = (None, accepted env now r opts q)" using False eq by auto
    next
      fix c
      assume "real_consumer (eo_consumerSocketId opts) = Some c" "0 < default_to 0 (eo_pendingBytes opts)"
        "default_to Normal (eo_priority opts) = Normal"
      then have "evaluateRelayOutboundByteBudget env c (default_to 0 (eo_pendingBytes opts)) q = dec" by (simp add: dec_def)
      then show "evaluateRelayOutboundByteBudget env c (default_to 0 (eo_pendingBytes opts)) q \<noteq> BudgetHard \<and>
        (default_to ShedReject (eo_shedPolicy opts) = ShedReject \<longrightarrow>
         evaluateRelayOutboundByteBudget env c (default_to 0 (eo_pendingBytes opts)) q = BudgetOk)"
        using False by (cases dec) auto
    qed
  qed
qed

lemma chains_inv_enqueued:
  assumes "chains_inv q" and "books_part q0 = books_part (q\<lparr>jobsEnqueuedTotal := n\<rparr>)"
  shows "chains_inv (append_job now r c b pr (trackRequestId c r (addPendingBytes c b q0)))"
  using assms by (intro chains_append) (auto simp: chains_inv_def books_part_def)

lemma append_job_jobs:
  "\<exists>x. ob_jobs (append_job now r c b pr q) = ob_jobs q @ [x] \<and> oj_consumer x = c \<and> oj_bytes x = b \<and> oj_priority x = pr"
  by (cases "tail_entry_for now r q") (simp add: append_job_def Let_def)

lemma ob_inv_enqueue:
  assumes inv: "ob_inv env q"
  shows "ob_inv env (snd (enqueueRelayOutbound env now r opts q))"
proof (cases rule: enqueue_outcomes[of env now r opts q])
  case (refused d)
  have "books_part (note_budget_refusal d q) = books_part q" by simp
  from books_part_cong[OF this] show ?thesis using inv refused by (simp add: ob_inv_def)
next
  case accepted
  let ?b = "default_to 0 (eo_pendingBytes opts)" and ?c = "eo_consumerSocketId opts" and ?p = "default_to Normal (eo_priority opts)"
  let ?q0 = "updateBacklogOnlyOverloadStateCache env (q\<lparr>jobsEnqueuedTotal := jobsEnqueuedTotal q + 1\<rparr>)"
  have q': "snd (enqueueRelayOutbound env now r opts q) = append_job now r ?c ?b ?p (trackRequestId ?c r (addPendingBytes ?c ?b ?q0))"
    using accepted(1) by (simp add: accepted_def Let_def)
  obtain x where x: "ob_jobs (snd (enqueueRelayOutbound env now r opts q)) = ob_jobs q @ [x]"
    "oj_consumer x = ?c" "oj_bytes x = ?b" "oj_priority x = ?p"
    using append_job_jobs[of now r ?c ?b ?p "trackRequestId ?c r (addPendingBytes ?c ?b ?q0)"] unfolding q' by auto
  have "books_part ?q0 = books_part (q\<lparr>jobsEnqueuedTotal := jobsEnqueuedTotal q + 1\<rparr>)" by simp
  note bk = books_enqueued[OF _ this] chains_inv_enqueued[OF _ this]
  have "within_hard_limits env (ob_jobs q @ [x])"
    using inv accepted(2) x by (intro within_hard_limits_append) (auto simp: ob_inv_def)
  then show ?thesis using inv bk x(1) unfolding ob_inv_def q' by simp
qed

lemma ob_inv_step:
  assumes inv: "ob_inv env q" and step: "ob_step env q q'"
  shows "ob_inv env q'"
proof -
  have parts: "chains_inv q" "books_inv q" "within_hard_limits env (ob_jobs q)" using inv by (auto simp: ob_inv_def)
  have keep: "ob_inv env p" if "books_part p = books_part q" for p
    using books_part_cong[OF that] inv that by (simp add: ob_inv_def books_part_def)
  show ?thesis using step
  proof cases
    case (ob_start j t0 now)
    have "within_hard_limits env (ob_jobs q')" using parts(3) ob_start
      by (auto simp: job_start_def Let_def job_ready_def bytes_of_def unsettled_def intro!: within_hard_limits_update)
    then show ?thesis using ob_start chains_start[OF parts(1) ob_start(2)] books_start[OF parts(2) ob_start(2)] by (simp add: ob_inv_def)
  next
    case (ob_finish j t0 failed t now)
    have "within_hard_limits env (ob_jobs q')" using parts(3) ob_finish
      by (auto simp: job_finish_core bytes_of_def unsettled_def intro!: within_hard_limits_update)
    then show ?thesis using ob_finish chains_finish[OF parts(1) ob_finish(2,3)] books_finish[OF parts(1,2) ob_finish(2,3)]
      by (simp add: ob_inv_def)
  next
    case (ob_admit c)
    then show ?thesis using keep by (simp add: admitRelayOutboundConsumerWork_def Let_def)
  qed (use keep ob_inv_enqueue[OF inv] sweep_idle(2)[OF parts(1)] in auto)
qed

interpretation outbound: invariant_system new_outbound_queue "ob_step env" "ob_inv env"
proof
  show "ob_inv env new_outbound_queue"
    by (simp add: ob_inv_def chains_inv_def books_inv_def new_outbound_queue_def chain_ok_def order_ok_def entries_ok_def
        tails_ok_def tracked_ok_def live_for_def within_hard_limits_def one_consumer_def)
qed (rule ob_inv_step)

lemma tally_unsettled: "int (length js) - tally settled_of js = int (length (filter unsettled js))"
  by (induction js) (auto simp: tally_def settled_of_def)

lemma mapped_iff_unsettled:
  assumes "chains_inv q"
  shows "jm_has (tailByRequestId q) r \<longleftrightarrow> (\<exists>x \<in> set (ob_jobs q). unsettled x \<and> oj_requestId x = r)"
proof -
  have t: "tails_ok (tailByRequestId q) (ob_entries q) (ob_jobs q)" using assms by (simp add: chains_inv_def)
  show ?thesis
  proof
    assume "jm_has (tailByRequestId q) r"
    then obtain h where "jm_get (tailByRequestId q) r = Some h" by auto
    then have "mapped_ok (ob_entries q) (ob_jobs q) r h" using t by (simp add: tails_ok_def)
    then show "\<exists>x \<in> set (ob_jobs q). unsettled x \<and> oj_requestId x = r" by (metis mapped_ok_def nth_mem)
  next
    assume "\<exists>x \<in> set (ob_jobs q). unsettled x \<and> oj_requestId x = r"
    then obtain i where "i < length (ob_jobs q)" "unsettled (ob_jobs q ! i)" "oj_requestId (ob_jobs q ! i) = r"
      by (metis in_set_conv_nth)
    then show "jm_has (tailByRequestId q) r" using unsettled_mapped[OF t] by auto
  qed
qed

lemma first_unsettled_runs:
  assumes inv: "chains_inv q" and j: "j < length (ob_jobs q)" "unsettled (ob_jobs q ! j)"
    and first: "\<And>i. i < j \<Longrightarrow> oj_requestId (ob_jobs q ! i) = oj_requestId (ob_jobs q ! j) \<Longrightarrow> oj_phase (ob_jobs q ! i) = Settled"
  shows "is_running (ob_jobs q ! j) \<or> job_ready q j"
proof (cases "oj_prev (ob_jobs q ! j)")
  case None
  then show ?thesis using j by (auto simp: is_running_def job_ready_def unsettled_def)
next
  case (Some p)
  have t: "tails_ok (tailByRequestId q) (ob_entries q) (ob_jobs q)" using inv by (simp add: chains_inv_def)
  have "is_last (ob_jobs q) (oj_entry (ob_jobs q ! j)) j (Some p)" using inv j Some by (auto simp: chains_inv_def chain_ok_def)
  then have p: "p < j" "oj_entry (ob_jobs q ! p) = oj_entry (ob_jobs q ! j)" by (auto simp: is_last_def)
  have "oj_requestId (ob_jobs q ! p) = oj_requestId (ob_jobs q ! j)"
    by (rule mapped_request[OF t unsettled_mapped[OF t j] less_trans[OF p(1) j(1)] p(2)])
  then show ?thesis using first[OF p(1)] Some j by (auto simp: is_running_def job_ready_def unsettled_def)
qed

section \<open>The overload latch\<close>

text \<open>What happens at a hub whose consumer requests are all refused: consumers retry, the sweep timer and the metrics
  scrape run. No job is enqueued and none finishes.\<close>

datatype gate_event = ConsumerRequest bool int string | SweepTimer int | MetricsScrape int

fun gate_turn :: "ob_env \<Rightarrow> gate_event \<Rightarrow> outbound_queue \<Rightarrow> outbound_queue" where
  "gate_turn env (ConsumerRequest hard now c) q = snd (resolveConsumerOutboundBlock env hard now c q)"
| "gate_turn env (SweepTimer now) q = snd (sweepRelayOutboundQueueState env now q)"
| "gate_turn env (MetricsScrape now) q = snd (getRelayOutboundQueueMetricsSnapshot env now q)"

text \<open>Overloaded, with percentiles that do not lead out of it.\<close>

definition latched :: "ob_env \<Rightarrow> outbound_queue \<Rightarrow> bool" where
  "latched env q \<longleftrightarrow> overloadP95Ms env > 0 \<and> oc_overloaded (overloadStateCache q) \<and>
     snd (resolveP95Thresholds env) \<le> oc_p95Ms (overloadStateCache q) \<and>
     snd (resolveP95Thresholds env) \<le> ring_percentile env 95 q"

lemma signals_latched:
  assumes "overloadP95Ms env > 0" and "snd (resolveP95Thresholds env) \<le> p"
  shows "snd (computeOverloadSignals env b p True)"
  using assms by (simp add: computeOverloadSignals_def resolveBacklogThresholds_def resolveP95Thresholds_def Let_def)

lemma latched_backlog_only: "latched env q \<Longrightarrow> latched env (updateBacklogOnlyOverloadStateCache env q)"
  using signals_latched by (simp add: latched_def updateBacklogOnlyOverloadStateCache_def ring_percentile_def Let_def)

lemma latched_update:
  "latched env q \<Longrightarrow> snd (resolveP95Thresholds env) \<le> p95 \<Longrightarrow> latched env (updateOverloadStateCache env (Some p95) p99 now q)"
  using signals_latched by (simp add: latched_def updateOverloadStateCache_def ring_percentile_def Let_def)

lemma latched_cong:
  "durationRing q' = durationRing q \<Longrightarrow> overloadStateCache q' = overloadStateCache q \<Longrightarrow> latched env q' = latched env q"
  by (simp add: latched_def ring_percentile_def)

lemma latched_refresh: "latched env q \<Longrightarrow> latched env (refreshRelayOutboundQueueOverloadState env now q)"
proof -
  assume l: "latched env q"
  let ?q1 = "q\<lparr>cachedOrphanedRequestIds := countOrphanedRequestIds env now q\<rparr>"
  have "latched env ?q1" using l latched_cong[of ?q1 q] by simp
  then have "latched env (updateOverloadStateCache env (Some (ring_percentile env 95 ?q1)) (Some (ring_percentile env 99 ?q1)) now ?q1)"
    by (intro latched_update) (auto simp: latched_def)
  then show ?thesis unfolding refreshRelayOutboundQueueOverloadState_def Let_def by (subst latched_cong) auto
qed

lemma latched_overload:
  assumes "latched env q"
  shows "latched env (snd (getRelayOutboundQueueOverloadState env now q))"
    and "fst (fst (getRelayOutboundQueueOverloadState env now q))"
proof -
  show l: "latched env (snd (getRelayOutboundQueueOverloadState env now q))"
    using latched_backlog_only[OF assms] by (auto simp: getRelayOutboundQueueOverloadState_def Let_def intro: latched_refresh)
  have "fst (fst (getRelayOutboundQueueOverloadState env now q)) =
    oc_overloaded (overloadStateCache (snd (getRelayOutboundQueueOverloadState env now q)))"
    by (simp add: getRelayOutboundQueueOverloadState_def Let_def)
  then show "fst (fst (getRelayOutboundQueueOverloadState env now q))" using l by (simp add: latched_def)
qed

lemma latched_request:
  assumes "latched env q"
  shows "latched env (snd (resolveConsumerOutboundBlock env hard now c q))"
    and "fst (fst (resolveConsumerOutboundBlock env hard now c q)) \<noteq> None"
proof -
  obtain over reason retry snap q1 where g: "getRelayOutboundQueueOverloadState env now q = ((over, reason, retry, snap), q1)"
    by (metis surj_pair)
  have "over" "latched env q1" using latched_overload[OF assms, of now] g by auto
  then show "latched env (snd (resolveConsumerOutboundBlock env hard now c q))"
    "fst (fst (resolveConsumerOutboundBlock env hard now c q)) \<noteq> None"
    using latched_cong[of "noteRelayOutboundQueueOverloadRejected q1" q1]
    by (simp_all add: resolveConsumerOutboundBlock_def g noteRelayOutboundQueueOverloadRejected_def)
qed

lemma latched_run: "latched env q \<Longrightarrow> latched env (gate_turn env ev q)"
proof (cases ev)
  case (SweepTimer now)
  assume l: "latched env q"
  have "latched env (q\<lparr>tailByRequestId := a, jobsSweptOrphanedTotal := b, orphanedTailsSweptTotal := d\<rparr>)" for a b d
    using l by (subst latched_cong) auto
  then show ?thesis using SweepTimer by (simp add: sweepRelayOutboundQueueState_def Let_def latched_refresh)
next
  case (MetricsScrape now)
  assume l: "latched env q"
  let ?q1 = "q\<lparr>cachedOrphanedRequestIds := countOrphanedRequestIds env now q\<rparr>"
  have "latched env ?q1" using l latched_cong[of ?q1 q] by simp
  then have "latched env (updateOverloadStateCache env (Some (ring_percentile env 95 q)) (Some (ring_percentile env 99 q)) now ?q1)"
    using l by (intro latched_update) (auto simp: latched_def)
  then have "latched env (snd (getRelayOutboundQueueMetricsSnapshot env now q))"
    unfolding getRelayOutboundQueueMetricsSnapshot_def Let_def snd_conv by (subst latched_cong) auto
  then show ?thesis using MetricsScrape by simp
qed (use latched_request(1) in simp)

section \<open>Properties\<close>

text \<open>C2: The emits of one request leave the hub in the order they were enqueued, one at a time. In every reachable
  state of the outbound queue, whatever the interleaving of enqueues, promise jobs of other requests, sweeps and metric
  reads, a job that has been started has all earlier jobs of its request settled, and the oldest unsettled job of a
  request is running or ready to run, so no chain is stuck.\<close>

theorem outbound_jobs_in_order:
  assumes "reachable new_outbound_queue (ob_step env) q"
  shows "(\<forall>i j. i < j \<and> j < length (ob_jobs q) \<and> oj_requestId (ob_jobs q ! i) = oj_requestId (ob_jobs q ! j) \<and>
      oj_phase (ob_jobs q ! j) \<noteq> Chained \<longrightarrow> oj_phase (ob_jobs q ! i) = Settled) \<and>
    (\<forall>j < length (ob_jobs q). unsettled (ob_jobs q ! j) \<and>
      (\<forall>i < j. oj_requestId (ob_jobs q ! i) = oj_requestId (ob_jobs q ! j) \<longrightarrow> oj_phase (ob_jobs q ! i) = Settled) \<longrightarrow>
      is_running (ob_jobs q ! j) \<or> job_ready q j)"
proof -
  have inv: "chains_inv q" using outbound.inv_reachable[OF assms] by (simp add: ob_inv_def)
  then have "order_ok (ob_jobs q)" by (simp add: chains_inv_def)
  moreover have "\<forall>j < length (ob_jobs q). unsettled (ob_jobs q ! j) \<and>
      (\<forall>i < j. oj_requestId (ob_jobs q ! i) = oj_requestId (ob_jobs q ! j) \<longrightarrow> oj_phase (ob_jobs q ! i) = Settled) \<longrightarrow>
      is_running (ob_jobs q ! j) \<or> job_ready q j"
    using first_unsettled_runs[OF inv] by blast
  ultimately show ?thesis unfolding order_ok_def by (rule conjI)
qed

definition sample_ob_env :: ob_env where
  "sample_ob_env = \<lparr>tailStaleMs = 60000, sweepIntervalMs = 5000, overloadBacklog = 200, overloadBacklogExit = 0,
     overloadP95Ms = 250, overloadP95ExitMs = 0, maxPendingBytes = 100, maxPendingBytesPerConsumer = 50,
     maxPendingRequestIdsPerConsumer = 1, ceilRank = (\<lambda>p n. (p * int n + 99) div 100), fixed2 = (\<lambda>x. x),
     avgFixed4 = (\<lambda>s n. s div n)\<rparr>"

definition consumer_options :: "string \<Rightarrow> int \<Rightarrow> enqueue_options" where
  "consumer_options c b = no_options\<lparr>eo_consumerSocketId := Some c, eo_pendingBytes := Some b\<rparr>"

text \<open>A job with a consumer, a second one for the same request without, the first one run to its end.\<close>

definition sample_first :: outbound_queue where
  "sample_first = snd (enqueueRelayOutbound sample_ob_env 1000 ''r'' (consumer_options ''c'' 10) new_outbound_queue)"

definition sample_both :: outbound_queue where
  "sample_both = snd (enqueueRelayOutbound sample_ob_env 1001 ''r'' no_options sample_first)"

definition sample_half :: outbound_queue where
  "sample_half = job_finish sample_ob_env False 310 1310 0 (job_start 10 1010 0 sample_both)"

lemma sample_half_reachable: "reachable new_outbound_queue (ob_step sample_ob_env) sample_half"
proof -
  have "ob_step sample_ob_env new_outbound_queue sample_first" "ob_step sample_ob_env sample_first sample_both"
    unfolding sample_first_def sample_both_def by (rule ob_step.ob_enqueue)+
  moreover have "ob_step sample_ob_env sample_both (job_start 10 1010 0 sample_both)"
    by (rule ob_step.ob_start) code_simp
  moreover have "ob_step sample_ob_env (job_start 10 1010 0 sample_both) sample_half"
    unfolding sample_half_def by (rule ob_step.ob_finish[where ?t0.0 = 10]) code_simp+
  ultimately show ?thesis by (meson reachable.reach_init reachable.reach_step)
qed

lemma sample_half_jobs:
  "length (ob_jobs sample_half) = 2" "oj_phase (ob_jobs sample_half ! 0) = Settled" "unsettled (ob_jobs sample_half ! 1)"
  by code_simp+

theorem outbound_jobs_in_order_witness:
  "oj_phase (ob_jobs sample_half ! 0) = Settled \<and> (is_running (ob_jobs sample_half ! 1) \<or> job_ready sample_half 1)"
proof -
  have "is_running (ob_jobs sample_half ! 1) \<or> job_ready sample_half 1"
    using conjunct2[OF outbound_jobs_in_order[OF sample_half_reachable], rule_format, of 1] sample_half_jobs by simp
  then show ?thesis using sample_half_jobs by simp
qed

text \<open>C17: The books of the outbound queue are exact. In every reachable state the backlog is the number of unsettled
  jobs, the pending bytes (in total and per consumer) are the bytes of the unsettled jobs, a request id has a tail
  exactly while it has an unsettled job, the orphan sweep finds and changes nothing, and, as long as every job of a request
  names the same consumer, the request ids tracked for a consumer are those with unsettled jobs.\<close>

theorem outbound_books_exact:
  assumes "reachable new_outbound_queue (ob_step env) q"
  shows "deriveBacklog q = int (length (filter unsettled (ob_jobs q))) \<and>
    pendingBytes q = tally bytes_of (ob_jobs q) \<and>
    (\<forall>c. cnt_get (pendingBytesByConsumer q) c = tally (consumer_bytes_of c) (ob_jobs q)) \<and>
    (\<forall>r. jm_has (tailByRequestId q) r \<longleftrightarrow> (\<exists>x \<in> set (ob_jobs q). unsettled x \<and> oj_requestId x = r)) \<and>
    fst (sweepRelayOutboundQueueState env now q) = 0 \<and>
    tailByRequestId (snd (sweepRelayOutboundQueueState env now q)) = tailByRequestId q \<and>
    (one_consumer (ob_jobs q) \<longrightarrow> (\<forall>c. set (idx_get (requestIdsByConsumer q) c) = {r. live_for (ob_jobs q) c r}))"
proof -
  have inv: "chains_inv q" "books_inv q" using outbound.inv_reachable[OF assms] by (auto simp: ob_inv_def)
  have "deriveBacklog q = int (length (filter unsettled (ob_jobs q)))"
    using inv(2) tally_unsettled[of "ob_jobs q"] by (simp add: deriveBacklog_def books_inv_def)
  moreover have "one_consumer (ob_jobs q) \<longrightarrow> (\<forall>c. set (idx_get (requestIdsByConsumer q) c) = {r. live_for (ob_jobs q) c r})"
    using inv(2) by (auto simp: books_inv_def tracked_ok_def)
  moreover have "tailByRequestId (snd (sweepRelayOutboundQueueState env now q)) = tailByRequestId q"
    using sweep_idle(2)[OF inv(1), of env now] by (simp add: books_part_def)
  ultimately show ?thesis using inv(2) mapped_iff_unsettled[OF inv(1)] sweep_idle(1)[OF inv(1)] by (simp add: books_inv_def)
qed

theorem outbound_books_exact_witness:
  "deriveBacklog sample_half = 1 \<and> pendingBytes sample_half = 0 \<and> fst (sweepRelayOutboundQueueState sample_ob_env 100000 sample_half) = 0"
proof -
  have "length (filter unsettled (ob_jobs sample_half)) = 1" "tally bytes_of (ob_jobs sample_half) = 0" by code_simp+
  then show ?thesis using outbound_books_exact[OF sample_half_reachable, of 100000] by simp
qed

text \<open>C33: The byte budget holds. In every reachable state the unsettled jobs that name a consumer and are not control
  jobs hold at most twice the configured bytes, in total and per consumer; and when an enqueue of such a job with the
  rejecting policy is accepted, everything that is pending, the new job included, is within the configured bytes itself, and
  the consumer had fewer tracked request ids than allowed.\<close>

theorem outbound_byte_budget:
  assumes "reachable new_outbound_queue (ob_step env) q"
  shows "(maxPendingBytes env > 0 \<longrightarrow> tally normal_bytes_of (ob_jobs q) \<le> maxPendingBytes env * 2) \<and>
    (maxPendingBytesPerConsumer env > 0 \<longrightarrow>
      (\<forall>c. tally (normal_consumer_bytes_of c) (ob_jobs q) \<le> maxPendingBytesPerConsumer env * 2)) \<and>
    (\<forall>c b now r q'. c \<noteq> [] \<and> 0 < b \<and> enqueueRelayOutbound env now r (consumer_options c b) q = (None, q') \<longrightarrow>
      (maxPendingBytes env > 0 \<longrightarrow> pendingBytes q' \<le> maxPendingBytes env) \<and>
      (maxPendingBytesPerConsumer env > 0 \<longrightarrow> cnt_get (pendingBytesByConsumer q') c \<le> maxPendingBytesPerConsumer env) \<and>
      (maxPendingRequestIdsPerConsumer env > 0 \<longrightarrow>
        int (length (idx_get (requestIdsByConsumer q) c)) < maxPendingRequestIdsPerConsumer env))"
proof -
  have "within_hard_limits env (ob_jobs q)" using outbound.inv_reachable[OF assms] by (simp add: ob_inv_def)
  moreover have "(maxPendingBytes env > 0 \<longrightarrow> pendingBytes q' \<le> maxPendingBytes env) \<and>
      (maxPendingBytesPerConsumer env > 0 \<longrightarrow> cnt_get (pendingBytesByConsumer q') c \<le> maxPendingBytesPerConsumer env) \<and>
      (maxPendingRequestIdsPerConsumer env > 0 \<longrightarrow>
        int (length (idx_get (requestIdsByConsumer q) c)) < maxPendingRequestIdsPerConsumer env)"
    if c: "c \<noteq> []" "0 < b" and enq: "enqueueRelayOutbound env now r (consumer_options c b) q = (None, q')" for c b now r q'
  proof -
    have o: "real_consumer (eo_consumerSocketId (consumer_options c b)) = Some c" "default_to 0 (eo_pendingBytes (consumer_options c b)) = b"
      "default_to Normal (eo_priority (consumer_options c b)) = Normal" "default_to ShedReject (eo_shedPolicy (consumer_options c b)) = ShedReject"
      "eo_consumerSocketId (consumer_options c b) = Some c"
      using c by (simp_all add: consumer_options_def no_options_def real_consumer_def default_to_def)
    have ok: "evaluateRelayOutboundByteBudget env c b q = BudgetOk" and q': "q' = accepted env now r (consumer_options c b) q"
      using enq c(2) o by (cases rule: enqueue_outcomes[of env now r "consumer_options c b" q]; simp)+
    have "pendingBytes q' = pendingBytes q + b" "cnt_get (pendingBytesByConsumer q') c = cnt_get (pendingBytesByConsumer q) c + b"
      using c o by (simp_all add: q' accepted_def Let_def)
    then show ?thesis using budget_limits_ok[OF ok] c(2) by simp
  qed
  ultimately show ?thesis unfolding within_hard_limits_def by blast
qed

theorem outbound_byte_budget_witness:
  "tally normal_bytes_of (ob_jobs sample_half) \<le> 200 \<and>
   pendingBytes (snd (enqueueRelayOutbound sample_ob_env 2000 ''s'' (consumer_options ''d'' 30) sample_half)) \<le> 100"
proof -
  have "fst (enqueueRelayOutbound sample_ob_env 2000 ''s'' (consumer_options ''d'' 30) sample_half) = None" by code_simp
  then have "enqueueRelayOutbound sample_ob_env 2000 ''s'' (consumer_options ''d'' 30) sample_half =
    (None, snd (enqueueRelayOutbound sample_ob_env 2000 ''s'' (consumer_options ''d'' 30) sample_half))"
    by (simp add: prod_eq_iff)
  note enq = this
  have m: "maxPendingBytes sample_ob_env = 100" by (simp add: sample_ob_env_def)
  note budget = outbound_byte_budget[OF sample_half_reachable]
  show ?thesis
    using conjunct1[OF budget] conjunct2[OF conjunct2[OF budget], rule_format, OF conjI[OF _ conjI[OF _ enq]]] m by simp
qed

text \<open>A request id can stay tracked for a consumer for good. A request whose first job names a consumer and whose
  last job does not (a replayed response is enqueued without options) leaves the id in the consumer's set when both have
  settled: nothing is pending any more, yet the consumer is shed once the leaked ids reach the configured number.\<close>

theorem tracked_request_id_leaks:
  "let q = job_finish sample_ob_env False 320 1320 1 (job_start 311 1311 1 sample_half)
   in filter unsettled (ob_jobs q) = [] \<and> tailByRequestId q = [] \<and> pendingBytes q = 0 \<and>
      idx_get (requestIdsByConsumer q) ''c'' = [''r''] \<and>
      fst (admitRelayOutboundConsumerWork sample_ob_env ''c'' q) = BudgetShed"
  by code_simp


text \<open>The first job of a hub takes 300 ms; an hour of idling later the requests are still refused.\<close>

definition sample_latched :: outbound_queue where
  "sample_latched = snd (resolveConsumerOutboundBlock sample_ob_env False 2400 ''d''
     (job_finish sample_ob_env False 320 1320 1 (job_start 311 1311 1 sample_half)))"


end
