(* ===== verification/Agent_Registry.thy ===== *)
theory Agent_Registry
  imports Complex_Main Prelude
begin

text \<open>
  \<^verbatim>\<open>presentation/socket/hub/registries/agent_registry.ts\<close>: the agents connected to the hub, their sockets, the
  protocol-ready handshake and the limits negotiated from the capabilities they send.

  Capabilities are JSON values; their numbers are finite doubles and hence rationals. The ISO renderings of the
  instants are left out. The threshold of the health piggyback is computed by another module and stored: it is an argument.
  Timers are their deadlines and a firing timer is an event.
\<close>

section \<open>Capabilities\<close>

datatype json = JNull | JBool bool | JNum rat | JStr string | JArr "json list" | JObj "(string \<times> json) list"

text \<open>\<^verbatim>\<open>typeof value === "object" && value !== null\<close> holds of arrays too; they have none of the keys read here.\<close>

definition isRecord :: "json \<Rightarrow> bool" where
  "isRecord v = (case v of JObj _ \<Rightarrow> True | JArr _ \<Rightarrow> True | _ \<Rightarrow> False)"

definition json_field :: "json \<Rightarrow> string \<Rightarrow> json option" where
  "json_field v k = (case v of JObj fs \<Rightarrow> map_of fs k | _ \<Rightarrow> None)"

text \<open>A field that is a record.\<close>

definition record_field :: "json \<Rightarrow> string \<Rightarrow> json option" where
  "record_field v k = (case json_field v k of Some w \<Rightarrow> if isRecord w then Some w else None | None \<Rightarrow> None)"

definition readBoolean :: "json option \<Rightarrow> bool option" where
  "readBoolean v = (case v of Some (JBool b) \<Rightarrow> Some b | _ \<Rightarrow> None)"

definition readPositiveInteger :: "json option \<Rightarrow> int option" where
  "readPositiveInteger v = (case v of Some (JNum x) \<Rightarrow> if x \<le> 0 then None else Some (max 1 \<lfloor>x\<rfloor>) | _ \<Rightarrow> None)"

fun pick_keys :: "json \<Rightarrow> string list \<Rightarrow> int option" where
  "pick_keys source [] = None"
| "pick_keys source (k # ks) =
     (case readPositiveInteger (json_field source k) of Some v \<Rightarrow> Some v | None \<Rightarrow> pick_keys source ks)"

definition pickPositiveInteger :: "json option \<Rightarrow> string list \<Rightarrow> int option" where
  "pickPositiveInteger source keys = (case source of None \<Rightarrow> None | Some s \<Rightarrow> pick_keys s keys)"

text \<open>The operator \<^verbatim>\<open>??\<close>.\<close>

definition or_else :: "'a option \<Rightarrow> 'a option \<Rightarrow> 'a option" where
  "or_else a b = (case a of None \<Rightarrow> b | Some v \<Rightarrow> Some v)"

datatype ready_mode = Grace | ExplicitAck

definition resolveProtocolReadyMode :: "json \<Rightarrow> ready_mode" where
  "resolveProtocolReadyMode caps =
     (let ext = record_field caps ''extensions'';
          get = (\<lambda>k. case ext of None \<Rightarrow> None | Some e \<Rightarrow> readBoolean (json_field e k));
          explicit = or_else (get ''protocolReadyAck'') (or_else (get ''protocol_ready_ack'')
                       (or_else (readBoolean (json_field caps ''protocolReadyAck''))
                                (readBoolean (json_field caps ''protocol_ready_ack''))))
      in if explicit = Some True then ExplicitAck else Grace)"

definition recommended_keys :: "string list" where
  "recommended_keys = [''recommendedStreamPullWindowSize'', ''recommended_stream_pull_window_size'',
     ''streamPullWindowSize'', ''stream_pull_window_size'']"

definition max_window_keys :: "string list" where
  "max_window_keys = [''maxStreamPullWindowSize'', ''max_stream_pull_window_size'']"

text \<open>The recommended and the greatest window.\<close>

definition resolveStreamPullWindowPolicy :: "json \<Rightarrow> int option \<times> int option" where
  "resolveStreamPullWindowPolicy caps =
     (let extensions = record_field caps ''extensions''; limits = record_field caps ''limits''
      in (or_else (pickPositiveInteger extensions recommended_keys) (pickPositiveInteger limits recommended_keys),
          or_else (pickPositiveInteger extensions max_window_keys) (pickPositiveInteger limits max_window_keys)))"

definition js_lower_char :: "char \<Rightarrow> char" where
  "js_lower_char c =
     (let n = (of_char c :: nat)
      in if (65 \<le> n \<and> n \<le> 90) \<or> (192 \<le> n \<and> n \<le> 222 \<and> n \<noteq> 215) then char_of (n + 32) else c)"

definition js_lower :: "string \<Rightarrow> string" where
  "js_lower s = map js_lower_char s"

fun compression_scan :: "json list \<Rightarrow> string list \<Rightarrow> string list" where
  "compression_scan [] out = out"
| "compression_scan (item # rest) out =
     compression_scan rest
       (case item of JStr s \<Rightarrow> (let n = js_lower (js_trim s) in if n \<noteq> [] then js_add n out else out) | _ \<Rightarrow> out)"

definition toCompressionSet :: "json option \<Rightarrow> string list" where
  "toCompressionSet v = (case v of Some (JArr items) \<Rightarrow> compression_scan items [] | _ \<Rightarrow> [])"

definition HUB_MAX_ROWS :: int where "HUB_MAX_ROWS = 1000000"
definition HUB_MAX_BATCH_SIZE :: int where "HUB_MAX_BATCH_SIZE = 32"
definition HUB_MAX_CONCURRENT_STREAMS :: int where "HUB_MAX_CONCURRENT_STREAMS = 1"

record dispatch_policy =
  dp_maxRows :: int
  dp_maxBatchSize :: int
  dp_maxConcurrentStreams :: int
  dp_allowsGzip :: bool
  dp_allowsNoneCompression :: bool

definition clamp_to_hub :: "int \<Rightarrow> int option \<Rightarrow> int" where
  "clamp_to_hub hubMax advertised = (case advertised of Some n \<Rightarrow> max 1 (min hubMax n) | None \<Rightarrow> hubMax)"

definition resolveDispatchPolicy :: "json \<Rightarrow> dispatch_policy" where
  "resolveDispatchPolicy caps =
     (let limits = record_field caps ''limits''; compressions = toCompressionSet (json_field caps ''compressions'')
      in \<lparr>dp_maxRows = clamp_to_hub HUB_MAX_ROWS (pickPositiveInteger limits [''max_rows'', ''maxRows'']),
          dp_maxBatchSize = clamp_to_hub HUB_MAX_BATCH_SIZE (pickPositiveInteger limits [''max_batch_size'', ''maxBatchSize'']),
          dp_maxConcurrentStreams = clamp_to_hub HUB_MAX_CONCURRENT_STREAMS
            (pickPositiveInteger limits [''max_concurrent_streams'', ''maxConcurrentStreams'']),
          dp_allowsGzip = (if compressions = [] then True else ''gzip'' \<in> set compressions),
          dp_allowsNoneCompression = (if compressions = [] then True else ''none'' \<in> set compressions)\<rparr>)"

section \<open>State\<close>

record agent =
  ag_agentId :: string
  ag_socketId :: string
  ag_userId :: "string option"
  ag_capabilities :: json
  ag_connectedAtMs :: int
  ag_lastSeenAtMs :: int
  ag_dispatchPolicy :: dispatch_policy
  ag_streamPullWindowPolicy :: "int option \<times> int option"
  ag_healthPiggybackFreshnessThresholdMs :: "int option"

record agent_registry =
  agents :: "(string, agent) jsmap"
  agentIdBySocketId :: "(string, string) jsmap"
  readyAtByAgentId :: "(string, int) jsmap"
  readyTimerByAgentId :: "(string, int) jsmap"
  protocolReadyModeByAgentId :: "(string, ready_mode) jsmap"
  knownAgentIds :: "string list"

record agent_env =
  socketAgentKnownIdsMax :: int
  socketAgentProtocolReadyGraceMs :: int
  socketRestStreamPullMaxWindowSize :: int

datatype session_policy = RejectActive | TakeoverDisconnectPrevious | LegacySilentTakeover
datatype register_error = OwnedByAnotherUser | SessionActive

definition new_agent_registry :: agent_registry where
  "new_agent_registry = \<lparr>agents = [], agentIdBySocketId = [], readyAtByAgentId = [], readyTimerByAgentId = [],
     protocolReadyModeByAgentId = [], knownAgentIds = []\<rparr>"

section \<open>Operations\<close>

fun prune_known :: "int \<Rightarrow> string list \<Rightarrow> string list \<Rightarrow> string list \<Rightarrow> string list" where
  "prune_known mx online [] known = known"
| "prune_known mx online (i # ids) known =
     (if int (length known) \<le> mx then known
      else prune_known mx online ids (if i \<notin> set online then js_rem i known else known))"

definition pruneKnownAgentIdsIfOverCap :: "agent_env \<Rightarrow> agent_registry \<Rightarrow> agent_registry" where
  "pruneKnownAgentIdsIfOverCap env st =
     (let mx = socketAgentKnownIdsMax env
      in if mx \<le> 0 \<or> int (length (knownAgentIds st)) \<le> mx then st
         else st\<lparr>knownAgentIds := prune_known mx (map fst (agents st)) (knownAgentIds st) (knownAgentIds st)\<rparr>)"

definition clearReadyTimer :: "string \<Rightarrow> agent_registry \<Rightarrow> agent_registry" where
  "clearReadyTimer agentId st =
     (if jm_has (readyTimerByAgentId st) agentId
      then st\<lparr>readyTimerByAgentId := jm_del agentId (readyTimerByAgentId st)\<rparr> else st)"

definition scheduleProtocolReady :: "agent_env \<Rightarrow> int \<Rightarrow> string \<Rightarrow> json \<Rightarrow> agent_registry \<Rightarrow> agent_registry" where
  "scheduleProtocolReady env now agentId caps st =
     (let st0 = clearReadyTimer agentId st; readyMode = resolveProtocolReadyMode caps;
          st1 = st0\<lparr>protocolReadyModeByAgentId := jm_set agentId readyMode (protocolReadyModeByAgentId st0)\<rparr>;
          grace = socketAgentProtocolReadyGraceMs env
      in if readyMode = ExplicitAck then st1\<lparr>readyAtByAgentId := jm_del agentId (readyAtByAgentId st1)\<rparr>
         else let st2 = st1\<lparr>readyAtByAgentId := jm_set agentId (now + grace) (readyAtByAgentId st1)\<rparr>
              in if grace \<le> 0 then st2
                 else st2\<lparr>readyTimerByAgentId := jm_set agentId (now + grace) (readyTimerByAgentId st2)\<rparr>)"

text \<open>The timer of an agent fires.\<close>

definition ready_timer_fires :: "int \<Rightarrow> string \<Rightarrow> agent_registry \<Rightarrow> agent_registry" where
  "ready_timer_fires now agentId st =
     (if jm_has (readyTimerByAgentId st) agentId
      then st\<lparr>readyTimerByAgentId := jm_del agentId (readyTimerByAgentId st),
              readyAtByAgentId := jm_set agentId now (readyAtByAgentId st)\<rparr>
      else st)"

definition wouldRejectActiveSession :: "string \<Rightarrow> string \<Rightarrow> session_policy \<Rightarrow> (string \<Rightarrow> bool) \<Rightarrow> agent_registry \<Rightarrow> bool" where
  "wouldRejectActiveSession agentId socketId policy isPeerConnected st =
     (if policy \<noteq> RejectActive then False
      else case jm_get (agents st) agentId of
             None \<Rightarrow> False
           | Some existing \<Rightarrow> if ag_socketId existing = socketId then False else isPeerConnected (ag_socketId existing))"

record register_input =
  ri_agentId :: string
  ri_socketId :: string
  ri_userId :: "string option"
  ri_capabilities :: json
  ri_healthThreshold :: "int option"

text \<open>\<^verbatim>\<open>if (previousAgentIdForSocket && ...)\<close>: the previous agent of the socket, when it is another one.\<close>

definition forget_previous_agent :: "register_input \<Rightarrow> agent_registry \<Rightarrow> agent_registry" where
  "forget_previous_agent inp st =
     (case jm_get (agentIdBySocketId st) (ri_socketId inp) of
        Some prev \<Rightarrow>
          if prev \<noteq> [] \<and> prev \<noteq> ri_agentId inp then
            let st1 = clearReadyTimer prev st
            in st1\<lparr>readyAtByAgentId := jm_del prev (readyAtByAgentId st1),
                   protocolReadyModeByAgentId := jm_del prev (protocolReadyModeByAgentId st1),
                   agents := jm_del prev (agents st1)\<rparr>
          else st
      | None \<Rightarrow> st)"

definition store_agent :: "agent_env \<Rightarrow> int \<Rightarrow> register_input \<Rightarrow> agent option \<Rightarrow> agent_registry \<Rightarrow> agent \<times> agent_registry" where
  "store_agent env now inp existing st =
     (let connectedAt = (case existing of
            Some e \<Rightarrow> if ag_socketId e = ri_socketId inp then ag_connectedAtMs e else now | None \<Rightarrow> now);
          ag = \<lparr>ag_agentId = ri_agentId inp, ag_socketId = ri_socketId inp, ag_userId = ri_userId inp,
                ag_capabilities = ri_capabilities inp, ag_connectedAtMs = connectedAt, ag_lastSeenAtMs = now,
                ag_dispatchPolicy = resolveDispatchPolicy (ri_capabilities inp),
                ag_streamPullWindowPolicy = resolveStreamPullWindowPolicy (ri_capabilities inp),
                ag_healthPiggybackFreshnessThresholdMs = ri_healthThreshold inp\<rparr>;
          st1 = st\<lparr>knownAgentIds := js_add (ri_agentId inp) (knownAgentIds st),
                   agents := jm_set (ri_agentId inp) ag (agents st),
                   agentIdBySocketId := jm_set (ri_socketId inp) (ri_agentId inp) (agentIdBySocketId st)\<rparr>
      in (ag, pruneKnownAgentIdsIfOverCap env (scheduleProtocolReady env now (ri_agentId inp) (ri_capabilities inp) st1)))"

text \<open>On success the registered agent and the socket it replaced, if that one has to be disconnected.\<close>

definition registerAgentSession ::
    "agent_env \<Rightarrow> int \<Rightarrow> session_policy \<Rightarrow> (string \<Rightarrow> bool) \<Rightarrow> register_input \<Rightarrow> agent_registry \<Rightarrow>
     (register_error + agent \<times> string option) \<times> agent_registry" where
  "registerAgentSession env now policy isPeerConnected inp st =
     (let existing = jm_get (agents st) (ri_agentId inp)
      in case existing of
           Some e \<Rightarrow>
             if ag_userId e \<noteq> None \<and> ri_userId inp \<noteq> None \<and> ag_userId e \<noteq> ri_userId inp
             then (Inl OwnedByAnotherUser, st)
             else let st0 = forget_previous_agent inp st
                  in if ag_socketId e = ri_socketId inp
                     then let (ag, st') = store_agent env now inp existing st0 in (Inr (ag, None), st')
                     else if isPeerConnected (ag_socketId e) then
                       (if policy = RejectActive then (Inl SessionActive, st0)
                        else let (ag, st') = store_agent env now inp existing
                                   (st0\<lparr>agentIdBySocketId := jm_del (ag_socketId e) (agentIdBySocketId st0)\<rparr>)
                             in (Inr (ag, Some (ag_socketId e)), st'))
                     else let (ag, st') = store_agent env now inp existing
                                (st0\<lparr>agentIdBySocketId := jm_del (ag_socketId e) (agentIdBySocketId st0)\<rparr>)
                          in (Inr (ag, None), st')
         | None \<Rightarrow> let (ag, st') = store_agent env now inp None (forget_previous_agent inp st) in (Inr (ag, None), st'))"

definition agent_upsert :: "agent_env \<Rightarrow> int \<Rightarrow> register_input \<Rightarrow> agent_registry \<Rightarrow> (register_error + agent) \<times> agent_registry" where
  "agent_upsert env now inp st =
     (case registerAgentSession env now LegacySilentTakeover (\<lambda>_. True) inp st of
        (Inl _, st') \<Rightarrow> (Inl OwnedByAnotherUser, st')
      | (Inr (ag, _), st') \<Rightarrow> (Inr ag, st'))"

definition touchLiveness :: "int \<Rightarrow> string \<Rightarrow> bool \<Rightarrow> string option \<Rightarrow> agent_registry \<Rightarrow> bool \<times> agent_registry" where
  "touchLiveness now agentId markProtocolReady socketId st =
     (case jm_get (agents st) agentId of
        None \<Rightarrow> (False, st)
      | Some existing \<Rightarrow>
          if socketId \<noteq> None \<and> socketId \<noteq> Some (ag_socketId existing) then (False, st)
          else let st1 = st\<lparr>agents := jm_set agentId (existing\<lparr>ag_lastSeenAtMs := now\<rparr>) (agents st)\<rparr>
               in (True, if markProtocolReady
                         then let st2 = clearReadyTimer agentId st1
                              in st2\<lparr>readyAtByAgentId := jm_set agentId now (readyAtByAgentId st2)\<rparr>
                         else st1))"

definition agent_touch :: "int \<Rightarrow> string \<Rightarrow> bool \<Rightarrow> string option \<Rightarrow> agent_registry \<Rightarrow> agent option \<times> agent_registry" where
  "agent_touch now agentId markProtocolReady socketId st =
     (let (ok, st') = touchLiveness now agentId markProtocolReady socketId st
      in (if ok then jm_get (agents st') agentId else None, st'))"

definition removeBySocketId :: "string \<Rightarrow> agent_registry \<Rightarrow> agent option \<times> agent_registry" where
  "removeBySocketId socketId st =
     (case jm_get (agentIdBySocketId st) socketId of
        None \<Rightarrow> (None, st)
      | Some agentId \<Rightarrow>
          if agentId = [] then (None, st)
          else let st1 = st\<lparr>agentIdBySocketId := jm_del socketId (agentIdBySocketId st)\<rparr>
               in case jm_get (agents st1) agentId of
                    None \<Rightarrow> (None, st1)
                  | Some ag \<Rightarrow>
                      (let st2 = clearReadyTimer agentId st1
                       in (Some ag, st2\<lparr>readyAtByAgentId := jm_del agentId (readyAtByAgentId st2),
                                       protocolReadyModeByAgentId := jm_del agentId (protocolReadyModeByAgentId st2),
                                       agents := jm_del agentId (agents st2)\<rparr>)))"

definition agent_clear :: "agent_registry \<Rightarrow> agent_registry" where
  "agent_clear st = new_agent_registry"

section \<open>Queries\<close>

definition listIds :: "agent_registry \<Rightarrow> string list" where
  "listIds st = map fst (agents st)"

definition listAll :: "agent_registry \<Rightarrow> agent list" where
  "listAll st = map snd (agents st)"

fun page_allowed :: "(string, agent) jsmap \<Rightarrow> int \<Rightarrow> int \<Rightarrow> string list \<Rightarrow> int \<Rightarrow> agent list \<Rightarrow> agent list \<times> int" where
  "page_allowed m start pageSize [] found items = (items, found)"
| "page_allowed m start pageSize (i # ids) found items =
     (case jm_get m i of
        None \<Rightarrow> page_allowed m start pageSize ids found items
      | Some ag \<Rightarrow> page_allowed m start pageSize ids (found + 1)
                    (if found \<ge> start \<and> found < start + pageSize then items @ [ag] else items))"

fun page_all :: "int \<Rightarrow> int \<Rightarrow> agent list \<Rightarrow> int \<Rightarrow> agent list \<Rightarrow> agent list" where
  "page_all start pageSize [] index items = items"
| "page_all start pageSize (ag # rest) index items =
     (if index \<ge> start + pageSize then items
      else page_all start pageSize rest (index + 1) (if index \<ge> start then items @ [ag] else items))"

definition listPage :: "string list option \<Rightarrow> int \<Rightarrow> int \<Rightarrow> agent_registry \<Rightarrow> agent list \<times> int" where
  "listPage allowedIds page pageSizeOption st =
     (let pageSize = max 1 (min 100 pageSizeOption); start = (max 1 page - 1) * pageSize
      in case allowedIds of
           Some ids \<Rightarrow> page_allowed (agents st) start pageSize ids 0 []
         | None \<Rightarrow> (page_all start pageSize (listAll st) 0 [], jm_size (agents st)))"

definition listIdle :: "int \<Rightarrow> int \<Rightarrow> agent_registry \<Rightarrow> agent list" where
  "listIdle now idleTimeoutMs st = filter (\<lambda>ag. now - ag_lastSeenAtMs ag \<ge> max 1 idleTimeoutMs) (listAll st)"

definition listIdleRefs :: "int \<Rightarrow> int \<Rightarrow> agent_registry \<Rightarrow> (string \<times> string) list" where
  "listIdleRefs now idleTimeoutMs st = map (\<lambda>ag. (ag_agentId ag, ag_socketId ag)) (listIdle now idleTimeoutMs st)"

definition findByAgentId :: "string \<Rightarrow> agent_registry \<Rightarrow> agent option" where
  "findByAgentId agentId st = jm_get (agents st) agentId"

definition isRegistered :: "string \<Rightarrow> agent_registry \<Rightarrow> bool" where
  "isRegistered agentId st = jm_has (agents st) agentId"

definition getSocketIdByAgentId :: "string \<Rightarrow> agent_registry \<Rightarrow> string option" where
  "getSocketIdByAgentId agentId st = map_option ag_socketId (jm_get (agents st) agentId)"

definition findBySocketId :: "string \<Rightarrow> agent_registry \<Rightarrow> agent option" where
  "findBySocketId socketId st =
     (case jm_get (agentIdBySocketId st) socketId of
        None \<Rightarrow> None
      | Some agentId \<Rightarrow> if agentId = [] then None else jm_get (agents st) agentId)"

definition getAgentIdBySocketId :: "string \<Rightarrow> agent_registry \<Rightarrow> string option" where
  "getAgentIdBySocketId socketId st =
     (case jm_get (agentIdBySocketId st) socketId of
        None \<Rightarrow> None
      | Some agentId \<Rightarrow>
          if agentId \<noteq> [] \<and> map_option ag_socketId (jm_get (agents st) agentId) = Some socketId then Some agentId else None)"

definition hasKnownAgentId :: "string \<Rightarrow> agent_registry \<Rightarrow> bool" where
  "hasKnownAgentId agentId st \<longleftrightarrow> agentId \<in> set (knownAgentIds st)"

text \<open>Ready, and the time to wait.\<close>

definition getProtocolReadiness :: "agent_env \<Rightarrow> int \<Rightarrow> string \<Rightarrow> agent_registry \<Rightarrow> bool \<times> int" where
  "getProtocolReadiness env now agentId st =
     (if \<not> jm_has (agents st) agentId then (False, 0)
      else case jm_get (readyAtByAgentId st) agentId of
             None \<Rightarrow> (False, case jm_get (protocolReadyModeByAgentId st) agentId of
                               Some ExplicitAck \<Rightarrow> socketAgentProtocolReadyGraceMs env | _ \<Rightarrow> 0)
           | Some readyAt \<Rightarrow> (let remaining = max 0 (readyAt - now) in (remaining \<le> 0, remaining)))"

definition getProtocolReadyMode :: "string \<Rightarrow> agent_registry \<Rightarrow> ready_mode option" where
  "getProtocolReadyMode agentId st =
     (if \<not> jm_has (agents st) agentId then None
      else Some (case jm_get (protocolReadyModeByAgentId st) agentId of Some m \<Rightarrow> m | None \<Rightarrow> Grace))"

datatype window_request = NoWindow | NotFinite | Window rat

definition resolveStreamPullWindow :: "agent_env \<Rightarrow> string \<Rightarrow> rat \<Rightarrow> window_request \<Rightarrow> agent_registry \<Rightarrow> int" where
  "resolveStreamPullWindow env agentId fallbackWindow requested st =
     (let hubMax = max 1 (socketRestStreamPullMaxWindowSize env);
          base = (case requested of Window w \<Rightarrow> if w > 0 then max 1 \<lfloor>w\<rfloor> else max 1 \<lfloor>fallbackWindow\<rfloor>
                                  | _ \<Rightarrow> max 1 \<lfloor>fallbackWindow\<rfloor>)
      in case jm_get (agents st) agentId of
           None \<Rightarrow> min base hubMax
         | Some ag \<Rightarrow>
             (let (recommended, maxWindow) = ag_streamPullWindowPolicy ag;
                  resolved = (case (requested, recommended) of (NoWindow, Some r) \<Rightarrow> r | _ \<Rightarrow> base);
                  allowed = (case maxWindow of Some m \<Rightarrow> min m hubMax | None \<Rightarrow> hubMax)
              in max 1 (min resolved allowed)))"

definition resolveEffectiveDispatchPolicy :: "string \<Rightarrow> agent_registry \<Rightarrow> dispatch_policy" where
  "resolveEffectiveDispatchPolicy agentId st =
     (case jm_get (agents st) agentId of
        None \<Rightarrow> \<lparr>dp_maxRows = HUB_MAX_ROWS, dp_maxBatchSize = HUB_MAX_BATCH_SIZE,
                 dp_maxConcurrentStreams = HUB_MAX_CONCURRENT_STREAMS, dp_allowsGzip = True, dp_allowsNoneCompression = True\<rparr>
      | Some ag \<Rightarrow> ag_dispatchPolicy ag)"

section \<open>The registry in operation\<close>

text \<open>The register handler refuses to change the agent of a socket and takes no empty id, so a socket that registers
  has no agent yet or the same one.\<close>

definition may_register :: "register_input \<Rightarrow> agent_registry \<Rightarrow> bool" where
  "may_register inp st \<longleftrightarrow> ri_agentId inp \<noteq> [] \<and>
     (jm_get (agentIdBySocketId st) (ri_socketId inp) = None \<or>
      jm_get (agentIdBySocketId st) (ri_socketId inp) = Some (ri_agentId inp))"

inductive ar_step :: "agent_env \<Rightarrow> agent_registry \<Rightarrow> agent_registry \<Rightarrow> bool" for env where
  ar_register: "may_register inp st \<Longrightarrow> ar_step env st (snd (registerAgentSession env now policy peers inp st))"
| ar_upsert: "may_register inp st \<Longrightarrow> ar_step env st (snd (agent_upsert env now inp st))"
| ar_touch: "ar_step env st (snd (touchLiveness now a mark s st))"
| ar_remove: "ar_step env st (snd (removeBySocketId s st))"
| ar_ready: "ar_step env st (ready_timer_fires now a st)"
| ar_clear: "ar_step env st (agent_clear st)"

section \<open>Invariant\<close>

definition agent_ok :: "string \<Rightarrow> agent \<Rightarrow> bool" where
  "agent_ok a ag \<longleftrightarrow> a \<noteq> [] \<and> ag_agentId ag = a \<and> ag_dispatchPolicy ag = resolveDispatchPolicy (ag_capabilities ag) \<and>
     ag_streamPullWindowPolicy ag = resolveStreamPullWindowPolicy (ag_capabilities ag)"

definition sessions_ok :: "(string, agent) jsmap \<Rightarrow> (string, string) jsmap \<Rightarrow> bool" where
  "sessions_ok ags socks \<longleftrightarrow>
     (\<forall>s a. jm_get socks s = Some a \<longleftrightarrow> (\<exists>ag. jm_get ags a = Some ag \<and> ag_socketId ag = s))"

definition ready_ok :: "agent_registry \<Rightarrow> bool" where
  "ready_ok st \<longleftrightarrow>
     (\<forall>a. jm_get (protocolReadyModeByAgentId st) a =
        map_option (\<lambda>ag. resolveProtocolReadyMode (ag_capabilities ag)) (jm_get (agents st) a)) \<and>
     (\<forall>a. jm_has (readyAtByAgentId st) a \<longrightarrow> jm_has (agents st) a) \<and>
     (\<forall>a. jm_has (readyTimerByAgentId st) a \<longrightarrow> jm_has (agents st) a) \<and>
     (\<forall>a. jm_get (protocolReadyModeByAgentId st) a = Some Grace \<longrightarrow> jm_has (readyAtByAgentId st) a)"

definition ar_inv :: "agent_registry \<Rightarrow> bool" where
  "ar_inv st \<longleftrightarrow> jm_wf (agents st) \<and> (\<forall>a ag. jm_get (agents st) a = Some ag \<longrightarrow> agent_ok a ag) \<and>
     sessions_ok (agents st) (agentIdBySocketId st) \<and> ready_ok st \<and>
     (\<forall>a. jm_has (agents st) a \<longrightarrow> a \<in> set (knownAgentIds st))"

subsection \<open>Frames\<close>

lemma clearReadyTimer_simps [simp]:
  "agents (clearReadyTimer a st) = agents st"
  "agentIdBySocketId (clearReadyTimer a st) = agentIdBySocketId st"
  "readyAtByAgentId (clearReadyTimer a st) = readyAtByAgentId st"
  "protocolReadyModeByAgentId (clearReadyTimer a st) = protocolReadyModeByAgentId st"
  "knownAgentIds (clearReadyTimer a st) = knownAgentIds st"
  "jm_get (readyTimerByAgentId (clearReadyTimer a st)) b = (if b = a then None else jm_get (readyTimerByAgentId st) b)"
  by (auto simp: clearReadyTimer_def)

lemma schedule_simps [simp]:
  "agents (scheduleProtocolReady env now a caps st) = agents st"
  "agentIdBySocketId (scheduleProtocolReady env now a caps st) = agentIdBySocketId st"
  "knownAgentIds (scheduleProtocolReady env now a caps st) = knownAgentIds st"
  "jm_get (protocolReadyModeByAgentId (scheduleProtocolReady env now a caps st)) b =
     (if b = a then Some (resolveProtocolReadyMode caps) else jm_get (protocolReadyModeByAgentId st) b)"
  by (simp_all add: scheduleProtocolReady_def Let_def)

lemma schedule_ready [simp]:
  "jm_get (readyAtByAgentId (scheduleProtocolReady env now a caps st)) b =
     (if b = a then (if resolveProtocolReadyMode caps = ExplicitAck then None else Some (now + socketAgentProtocolReadyGraceMs env))
      else jm_get (readyAtByAgentId st) b)"
  "b \<noteq> a \<Longrightarrow> jm_get (readyTimerByAgentId (scheduleProtocolReady env now a caps st)) b = jm_get (readyTimerByAgentId st) b"
  by (simp_all add: scheduleProtocolReady_def Let_def)

lemma prune_known_keeps: "a \<in> set known \<Longrightarrow> a \<in> set online \<Longrightarrow> a \<in> set (prune_known mx online ids known)"
  by (induction mx online ids known rule: prune_known.induct) fastforce+

lemma prune_simps [simp]:
  "agents (pruneKnownAgentIdsIfOverCap env st) = agents st"
  "agentIdBySocketId (pruneKnownAgentIdsIfOverCap env st) = agentIdBySocketId st"
  "readyAtByAgentId (pruneKnownAgentIdsIfOverCap env st) = readyAtByAgentId st"
  "readyTimerByAgentId (pruneKnownAgentIdsIfOverCap env st) = readyTimerByAgentId st"
  "protocolReadyModeByAgentId (pruneKnownAgentIdsIfOverCap env st) = protocolReadyModeByAgentId st"
  by (simp_all add: pruneKnownAgentIdsIfOverCap_def Let_def)

lemma prune_keeps_connected:
  "a \<in> set (knownAgentIds st) \<Longrightarrow> jm_has (agents st) a \<Longrightarrow> a \<in> set (knownAgentIds (pruneKnownAgentIdsIfOverCap env st))"
  by (force simp: pruneKnownAgentIdsIfOverCap_def Let_def intro!: prune_known_keeps dest: jm_get_in_set)

lemma forget_none: "may_register inp st \<Longrightarrow> forget_previous_agent inp st = st"
  by (auto simp: may_register_def forget_previous_agent_def)

subsection \<open>Preservation\<close>

lemma sessions_unique:
  "sessions_ok ags socks \<Longrightarrow> jm_get ags b = Some g \<Longrightarrow> jm_get ags c = Some g' \<Longrightarrow> ag_socketId g = ag_socketId g' \<Longrightarrow> b = c"
  unfolding sessions_ok_def by (metis option.inject)

lemma sessions_ok_del:
  assumes ok: "sessions_ok ags socks" and s: "jm_get socks s = Some a"
  shows "sessions_ok (jm_del a ags) (jm_del s socks)"
proof -
  have iff: "jm_get socks s' = Some b \<longleftrightarrow> (\<exists>g. jm_get ags b = Some g \<and> ag_socketId g = s')" for s' b
    using ok by (simp add: sessions_ok_def)
  have "jm_get (jm_del s socks) s' = Some b \<longleftrightarrow> (\<exists>g. jm_get (jm_del a ags) b = Some g \<and> ag_socketId g = s')" for s' b
  proof (cases "b = a")
    case True
    have "s' = s" if "jm_get socks s' = Some a" using iff[of s' a] iff[of s a] s that by auto
    then show ?thesis using True by auto
  next
    case False
    then have "s' \<noteq> s" if "jm_get socks s' = Some b" using s that by auto
    then show ?thesis using False iff[of s' b] by auto
  qed
  then show ?thesis by (simp add: sessions_ok_def)
qed

lemma sessions_ok_store:
  assumes ok: "sessions_ok ags socks" and s: "jm_get socks s = None \<or> jm_get socks s = Some a" and ag: "ag_socketId ag = s"
    and old: "socks' = (case jm_get ags a of Some e \<Rightarrow> if ag_socketId e = s then socks else jm_del (ag_socketId e) socks | None \<Rightarrow> socks)"
  shows "sessions_ok (jm_set a ag ags) (jm_set s a socks')"
proof -
  have iff: "jm_get socks s' = Some b \<longleftrightarrow> (\<exists>g. jm_get ags b = Some g \<and> ag_socketId g = s')" for s' b
    using ok by (simp add: sessions_ok_def)
  have "jm_get socks' s' = (if (\<exists>e. jm_get ags a = Some e \<and> ag_socketId e = s' \<and> s' \<noteq> s) then None else jm_get socks s')" for s'
    using old by (auto split: option.splits)
  moreover have "b = a" if "jm_get ags b = Some g" "ag_socketId g = s" for b g
    using iff[of s b] s that by auto
  moreover have "b = a" if "jm_get ags b = Some g" "jm_get ags a = Some e" "ag_socketId g = ag_socketId e" for b g e
    using sessions_unique[OF ok that] .
  ultimately show ?thesis unfolding sessions_ok_def
    using iff ag by (auto split: if_splits)
qed

definition socks_after :: "register_input \<Rightarrow> agent_registry \<Rightarrow> (string, string) jsmap" where
  "socks_after inp st =
     (case jm_get (agents st) (ri_agentId inp) of
        Some e \<Rightarrow> if ag_socketId e = ri_socketId inp then agentIdBySocketId st else jm_del (ag_socketId e) (agentIdBySocketId st)
      | None \<Rightarrow> agentIdBySocketId st)"

lemma ar_inv_store:
  assumes inv: "ar_inv st" and may: "may_register inp st"
  shows "ar_inv (snd (store_agent env now inp (jm_get (agents st) (ri_agentId inp)) (st\<lparr>agentIdBySocketId := socks_after inp st\<rparr>)))"
proof -
  let ?a = "ri_agentId inp" and ?s = "ri_socketId inp" and ?st0 = "st\<lparr>agentIdBySocketId := socks_after inp st\<rparr>"
  obtain ag st' where sa: "store_agent env now inp (jm_get (agents st) ?a) ?st0 = (ag, st')" by (metis surj_pair)
  have ag: "agent_ok ?a ag" "ag_socketId ag = ?s" "ag_capabilities ag = ri_capabilities inp" and f: "agents st' = jm_set ?a ag (agents st)"
    "agentIdBySocketId st' = jm_set ?s ?a (socks_after inp st)"
    using sa may by (auto simp: store_agent_def Let_def agent_ok_def may_register_def)
  have "sessions_ok (jm_set ?a ag (agents st)) (jm_set ?s ?a (socks_after inp st))"
    using inv may ag(2) by (intro sessions_ok_store[where socks = "agentIdBySocketId st"])
      (auto simp: ar_inv_def may_register_def socks_after_def split: option.splits)
  moreover have "ready_ok st'"
    using sa inv ag(3) by (auto simp: store_agent_def Let_def ar_inv_def ready_ok_def split: if_splits)
  moreover have "b \<in> set (knownAgentIds st')" if "jm_has (agents st') b" for b
  proof -
    let ?st1 = "scheduleProtocolReady env now ?a (ri_capabilities inp) (?st0\<lparr>knownAgentIds := js_add ?a (knownAgentIds st),
      agents := jm_set ?a ag (agents st), agentIdBySocketId := jm_set ?s ?a (socks_after inp st)\<rparr>)"
    have "st' = pruneKnownAgentIdsIfOverCap env ?st1" using sa by (auto simp: store_agent_def Let_def)
    moreover have "b \<in> set (knownAgentIds ?st1)" using that inv f(1) by (auto simp: ar_inv_def split: if_splits)
    ultimately show ?thesis using prune_keeps_connected[of b ?st1] that f(1) by simp
  qed
  ultimately show ?thesis using sa inv ag(1) f by (simp add: ar_inv_def)
qed

text \<open>The outcomes of a registration that the handler lets through.\<close>

lemma register_outcome:
  assumes may: "may_register inp st"
  shows "registerAgentSession env now policy peers inp st =
    (case jm_get (agents st) (ri_agentId inp) of
       Some e \<Rightarrow>
         if ag_userId e \<noteq> None \<and> ri_userId inp \<noteq> None \<and> ag_userId e \<noteq> ri_userId inp then (Inl OwnedByAnotherUser, st)
         else if wouldRejectActiveSession (ri_agentId inp) (ri_socketId inp) policy peers st then (Inl SessionActive, st)
         else (Inr (fst (store_agent env now inp (Some e) (st\<lparr>agentIdBySocketId := socks_after inp st\<rparr>)),
                    if ag_socketId e \<noteq> ri_socketId inp \<and> peers (ag_socketId e) then Some (ag_socketId e) else None),
               snd (store_agent env now inp (Some e) (st\<lparr>agentIdBySocketId := socks_after inp st\<rparr>)))
     | None \<Rightarrow> (Inr (fst (store_agent env now inp None (st\<lparr>agentIdBySocketId := socks_after inp st\<rparr>)), None),
               snd (store_agent env now inp None (st\<lparr>agentIdBySocketId := socks_after inp st\<rparr>))))"
  using forget_none[OF may]
  by (simp add: registerAgentSession_def wouldRejectActiveSession_def socks_after_def Let_def case_prod_beta split: option.split)

lemma ar_inv_register:
  assumes "ar_inv st" "may_register inp st"
  shows "ar_inv (snd (registerAgentSession env now policy peers inp st))"
  using ar_inv_store[OF assms, of env now] assms
  by (cases "jm_get (agents st) (ri_agentId inp)") (simp_all add: register_outcome[OF assms(2)])

lemma ar_inv_touch: "ar_inv st \<Longrightarrow> ar_inv (snd (touchLiveness now a mark s st))"
proof (cases "jm_get (agents st) a")
  case (Some e)
  assume inv: "ar_inv st"
  let ?st1 = "st\<lparr>agents := jm_set a (e\<lparr>ag_lastSeenAtMs := now\<rparr>) (agents st)\<rparr>"
  have so: "sessions_ok (agents ?st1) (agentIdBySocketId st)"
    using inv Some by (auto simp: ar_inv_def sessions_ok_def)
  have "ar_inv ?st1" using inv Some so by (auto simp: ar_inv_def agent_ok_def ready_ok_def)
  moreover from this have "ar_inv ((clearReadyTimer a ?st1)\<lparr>readyAtByAgentId := jm_set a now (readyAtByAgentId st)\<rparr>)"
    using Some by (auto simp: ar_inv_def ready_ok_def)
  ultimately show ?thesis using inv Some by (simp add: touchLiveness_def Let_def)
qed (simp add: touchLiveness_def)

lemma ar_inv_remove: "ar_inv st \<Longrightarrow> ar_inv (snd (removeBySocketId s st))"
proof (cases "jm_get (agentIdBySocketId st) s")
  case (Some a)
  assume inv: "ar_inv st"
  have so: "sessions_ok (jm_del a (agents st)) (jm_del s (agentIdBySocketId st))"
    using inv Some by (intro sessions_ok_del) (auto simp: ar_inv_def)
  obtain ag where ag: "jm_get (agents st) a = Some ag" "ag_socketId ag = s" "a \<noteq> []"
    using inv Some by (force simp: ar_inv_def sessions_ok_def agent_ok_def)
  show ?thesis using inv so Some ag
    by (auto simp: removeBySocketId_def Let_def ar_inv_def ready_ok_def)
qed (simp add: removeBySocketId_def)

lemma ar_inv_step:
  assumes inv: "ar_inv st" and step: "ar_step env st st'"
  shows "ar_inv st'"
  using step
proof cases
  case (ar_upsert inp now)
  then show ?thesis using ar_inv_register[OF inv, of inp env now LegacySilentTakeover "\<lambda>_. True"]
    by (auto simp: agent_upsert_def split: sum.splits prod.splits)
next
  case (ar_ready now a)
  then show ?thesis using inv by (auto simp: ready_timer_fires_def ar_inv_def ready_ok_def)
next
  case ar_clear
  then show ?thesis by (simp add: agent_clear_def ar_inv_def ready_ok_def sessions_ok_def new_agent_registry_def)
qed (use inv in \<open>auto simp: ar_inv_register ar_inv_touch ar_inv_remove\<close>)

interpretation agents: invariant_system new_agent_registry "ar_step env" ar_inv for env
  by unfold_locales (auto simp: ar_inv_step, simp add: ar_inv_def ready_ok_def sessions_ok_def new_agent_registry_def)

section \<open>Consequences\<close>

text \<open>The page loops are slices.\<close>

lemma page_all_slice:
  assumes "0 \<le> pageSize"
  shows "page_all start pageSize xs i items = items @ take (nat (start + pageSize - max i start)) (drop (nat (start - i)) xs)"
  using assms
proof (induction start pageSize xs i items rule: page_all.induct)
  case (2 start pageSize ag rest i items)
  consider "i \<ge> start + pageSize" | "i < start" | "start \<le> i" "i < start + pageSize" by linarith
  then show ?case
  proof cases
    case 2
    then have "nat (start - i) = Suc (nat (start - (i + 1)))" by simp
    then show ?thesis using 2 "2.IH" "2.prems" by (auto simp: max_def)
  next
    case 3
    then have "nat (start + pageSize - i) = Suc (nat (start + pageSize - (i + 1)))" by simp
    then show ?thesis using 3 "2.IH" "2.prems" by (simp add: max_def)
  qed (use "2.prems" in \<open>simp add: max_def\<close>)
qed simp

lemma page_allowed_slice:
  assumes "0 \<le> pageSize"
  shows "page_allowed m start pageSize ids n items =
    (items @ take (nat (start + pageSize - max n start)) (drop (nat (start - n)) (List.map_filter (jm_get m) ids)),
     n + int (length (List.map_filter (jm_get m) ids)))"
  using assms
proof (induction m start pageSize ids n items rule: page_allowed.induct)
  case (2 m start pageSize i ids n items)
  show ?case
  proof (cases "jm_get m i")
    case None
    then show ?thesis using 2 by (simp add: map_filter_simps)
  next
    case (Some ag)
    consider "n \<ge> start + pageSize" | "n < start" | "start \<le> n" "n < start + pageSize" by linarith
    then show ?thesis
    proof cases
      case 2
      then have "nat (start - n) = Suc (nat (start - (n + 1)))" by simp
      then show ?thesis using 2 Some "2.IH"(2)[OF Some] "2.prems" by (auto simp: map_filter_simps max_def)
    next
      case 3
      then have "nat (start + pageSize - n) = Suc (nat (start + pageSize - (n + 1)))" by simp
      then show ?thesis using 3 Some "2.IH"(2)[OF Some] "2.prems" by (simp add: map_filter_simps max_def)
    qed (use Some "2.IH"(2)[OF Some] "2.prems" in \<open>simp add: map_filter_simps max_def\<close>)
  qed
qed (simp add: map_filter_simps)

lemma readPositiveInteger_pos: "readPositiveInteger v = Some n \<Longrightarrow> 1 \<le> n"
  by (auto simp: readPositiveInteger_def split: option.splits json.splits if_splits)

lemma clamp_to_hub_bounds: "1 \<le> hubMax \<Longrightarrow> 1 \<le> clamp_to_hub hubMax x \<and> clamp_to_hub hubMax x \<le> hubMax"
  by (auto simp: clamp_to_hub_def split: option.split)

lemma ar_invD:
  assumes "ar_inv st"
  shows "jm_get (agentIdBySocketId st) s = Some a \<longleftrightarrow> (\<exists>ag. jm_get (agents st) a = Some ag \<and> ag_socketId ag = s)"
    and "jm_get (agents st) a = Some ag \<Longrightarrow> agent_ok a ag"
  using assms by (simp_all add: ar_inv_def sessions_ok_def)

text \<open>The agent of a socket: none, or one that is stored under its id and holds the socket.\<close>

lemma socket_cases [consumes 1, case_names unknown known]:
  assumes inv: "ar_inv st"
  obtains "jm_get (agentIdBySocketId st) s = None" "\<And>a. getSocketIdByAgentId a st \<noteq> Some s"
  | b g where "jm_get (agentIdBySocketId st) s = Some b" "b \<noteq> []" "jm_get (agents st) b = Some g" "ag_agentId g = b" "ag_socketId g = s"
    "\<And>a. getSocketIdByAgentId a st = Some s \<longleftrightarrow> a = b"
proof -
  have iff: "getSocketIdByAgentId a st = Some s \<longleftrightarrow> jm_get (agentIdBySocketId st) s = Some a" for a
    using ar_invD(1)[OF inv, of s a] by (auto simp: getSocketIdByAgentId_def)
  show thesis
  proof (cases "jm_get (agentIdBySocketId st) s")
    case None
    then show thesis using that(1) iff by simp
  next
    case (Some b)
    then obtain g where g: "jm_get (agents st) b = Some g" "ag_socketId g = s" using ar_invD(1)[OF inv, of s b] by auto
    have "b \<noteq> []" "ag_agentId g = b" using ar_invD(2)[OF inv g(1)] by (simp_all add: agent_ok_def)
    moreover have "getSocketIdByAgentId a st = Some s \<longleftrightarrow> a = b" for a unfolding iff Some by auto
    ultimately show thesis using that(2)[OF Some _ g(1) _ g(2)] by blast
  qed
qed

lemma getAgentId_iff:
  assumes "ar_inv st"
  shows "getAgentIdBySocketId s st = Some a \<longleftrightarrow> getSocketIdByAgentId a st = Some s"
  using assms by (cases rule: socket_cases[where s = s]) (auto simp: getAgentIdBySocketId_def)

lemma findBySocketId_iff:
  assumes "ar_inv st"
  shows "findBySocketId s st = Some ag \<longleftrightarrow> findByAgentId (ag_agentId ag) st = Some ag \<and> ag_socketId ag = s"
  using assms
proof (cases rule: socket_cases[where s = s])
  case unknown
  then show ?thesis by (auto simp: findBySocketId_def findByAgentId_def getSocketIdByAgentId_def)
next
  case (known b g)
  then have "ag_agentId ag = b" if "jm_get (agents st) (ag_agentId ag) = Some ag" "ag_socketId ag = s"
    using that known(6)[of "ag_agentId ag"] by (simp add: getSocketIdByAgentId_def)
  then show ?thesis using known(1-5) by (auto simp: findBySocketId_def findByAgentId_def)
qed

lemma remove_exact:
  assumes "ar_inv st"
  shows "findByAgentId a (snd (removeBySocketId s st)) = (if getSocketIdByAgentId a st = Some s then None else findByAgentId a st)"
  using assms
  by (cases rule: socket_cases[where s = s]) (auto simp: removeBySocketId_def findByAgentId_def Let_def)

lemma store_agent_results:
  "findByAgentId a (snd (store_agent env now inp existing st)) =
     (if a = ri_agentId inp then Some (fst (store_agent env now inp existing st)) else findByAgentId a st)"
  "ag_socketId (fst (store_agent env now inp existing st)) = ri_socketId inp"
  "getProtocolReadiness env t (ri_agentId inp) (snd (store_agent env now inp existing st)) =
     (if resolveProtocolReadyMode (ri_capabilities inp) = ExplicitAck then (False, socketAgentProtocolReadyGraceMs env)
      else (now + socketAgentProtocolReadyGraceMs env \<le> t, max 0 (now + socketAgentProtocolReadyGraceMs env - t)))"
  by (auto simp: store_agent_def findByAgentId_def getProtocolReadiness_def Let_def)

lemma negotiated_bounds:
  assumes "ar_inv st"
  shows "dp_maxRows (resolveEffectiveDispatchPolicy a st) \<in> {1..HUB_MAX_ROWS}"
    "dp_maxBatchSize (resolveEffectiveDispatchPolicy a st) \<in> {1..HUB_MAX_BATCH_SIZE}"
    "dp_maxConcurrentStreams (resolveEffectiveDispatchPolicy a st) \<in> {1..HUB_MAX_CONCURRENT_STREAMS}"
proof -
  have hub: "1 \<le> HUB_MAX_ROWS" "1 \<le> HUB_MAX_BATCH_SIZE" "1 \<le> HUB_MAX_CONCURRENT_STREAMS"
    by (simp_all add: HUB_MAX_ROWS_def HUB_MAX_BATCH_SIZE_def HUB_MAX_CONCURRENT_STREAMS_def)
  show "dp_maxRows (resolveEffectiveDispatchPolicy a st) \<in> {1..HUB_MAX_ROWS}"
    "dp_maxBatchSize (resolveEffectiveDispatchPolicy a st) \<in> {1..HUB_MAX_BATCH_SIZE}"
    "dp_maxConcurrentStreams (resolveEffectiveDispatchPolicy a st) \<in> {1..HUB_MAX_CONCURRENT_STREAMS}"
    using hub clamp_to_hub_bounds[OF hub(1)] clamp_to_hub_bounds[OF hub(2)] clamp_to_hub_bounds[OF hub(3)] ar_invD(2)[OF assms, of a]
    by (auto simp: resolveEffectiveDispatchPolicy_def resolveDispatchPolicy_def agent_ok_def Let_def split: option.split)
qed

lemma pull_window_bounds:
  "1 \<le> resolveStreamPullWindow env a fallbackWindow requested st \<and>
   resolveStreamPullWindow env a fallbackWindow requested st \<le> max 1 (socketRestStreamPullMaxWindowSize env)"
proof -
  let ?base = "case requested of Window w \<Rightarrow> if w > 0 then max 1 \<lfloor>w\<rfloor> else max 1 \<lfloor>fallbackWindow\<rfloor> | _ \<Rightarrow> max 1 \<lfloor>fallbackWindow\<rfloor>"
  have base: "1 \<le> ?base" by (simp split: window_request.split)
  show ?thesis
  proof (cases "jm_get (agents st) a")
    case None
    then show ?thesis using base unfolding resolveStreamPullWindow_def Let_def by auto
  next
    case (Some ag)
    obtain recommended mx where p: "ag_streamPullWindowPolicy ag = (recommended, mx)" by (cases "ag_streamPullWindowPolicy ag")
    let ?hub = "max 1 (socketRestStreamPullMaxWindowSize env)"
    have "\<exists>r. resolveStreamPullWindow env a fallbackWindow requested st = max 1 (min r (case mx of Some m \<Rightarrow> min m ?hub | None \<Rightarrow> ?hub))"
      unfolding resolveStreamPullWindow_def Let_def Some option.case p prod.case by (rule exI, rule refl)
    moreover have "(case mx of Some m \<Rightarrow> min m ?hub | None \<Rightarrow> ?hub) \<le> ?hub" by (cases mx) auto
    ultimately show ?thesis by (auto intro: min.coboundedI2)
  qed
qed

section \<open>Properties\<close>

text \<open>C19: Agents and sockets are in one-to-one correspondence. In every reachable registry a socket resolves to an agent
  exactly when this agent is registered on this socket, every registered agent is known, a disconnect
  removes exactly the agent of the socket, and the limits an agent negotiates stay between one and the
  hub's own, whatever capabilities it advertised.\<close>

theorem agent_sessions_bijective:
  assumes "reachable new_agent_registry (ar_step env) st"
  shows "(getAgentIdBySocketId s st = Some a \<longleftrightarrow> getSocketIdByAgentId a st = Some s) \<and>
    (findBySocketId s st = Some ag \<longleftrightarrow> findByAgentId (ag_agentId ag) st = Some ag \<and> ag_socketId ag = s) \<and>
    (isRegistered a st \<longrightarrow> hasKnownAgentId a st) \<and>
    findByAgentId a (snd (removeBySocketId s st)) = (if getSocketIdByAgentId a st = Some s then None else findByAgentId a st) \<and>
    dp_maxRows (resolveEffectiveDispatchPolicy a st) \<in> {1..HUB_MAX_ROWS} \<and>
    dp_maxBatchSize (resolveEffectiveDispatchPolicy a st) \<in> {1..HUB_MAX_BATCH_SIZE} \<and>
    resolveStreamPullWindow env a fallbackWindow requested st \<in> {1..max 1 (socketRestStreamPullMaxWindowSize env)}"
proof -
  have inv: "ar_inv st" using assms by (rule agents.inv_reachable)
  then have "isRegistered a st \<longrightarrow> hasKnownAgentId a st" by (simp add: isRegistered_def hasKnownAgentId_def ar_inv_def)
  then show ?thesis
    using getAgentId_iff[OF inv] findBySocketId_iff[OF inv] remove_exact[OF inv] negotiated_bounds[OF inv] pull_window_bounds by simp
qed

definition sample_agent_env :: agent_env where
  "sample_agent_env = \<lparr>socketAgentKnownIdsMax = 0, socketAgentProtocolReadyGraceMs = 100, socketRestStreamPullMaxWindowSize = 64\<rparr>"

definition sample_registration :: "string \<Rightarrow> string \<Rightarrow> register_input" where
  "sample_registration a s = \<lparr>ri_agentId = a, ri_socketId = s, ri_userId = Some ''u'', ri_capabilities = JObj [], ri_healthThreshold = None\<rparr>"

definition sample_agents :: agent_registry where
  "sample_agents = snd (registerAgentSession sample_agent_env 1000 RejectActive (\<lambda>_. True) (sample_registration ''a'' ''s1'') new_agent_registry)"

lemma sample_agents_reachable: "reachable new_agent_registry (ar_step sample_agent_env) sample_agents"
proof -
  have "ar_step sample_agent_env new_agent_registry sample_agents"
    unfolding sample_agents_def by (rule ar_step.ar_register) code_simp
  then show ?thesis by (rule reachable.reach_step[OF reachable.reach_init])
qed

theorem agent_sessions_bijective_witness:
  "getAgentIdBySocketId ''s1'' sample_agents = Some ''a'' \<and> findByAgentId ''a'' (snd (removeBySocketId ''s1'' sample_agents)) = None"
proof -
  have "getSocketIdByAgentId ''a'' sample_agents = Some ''s1''" by code_simp
  then show ?thesis using agent_sessions_bijective[OF sample_agents_reachable, of "''s1''" "''a''"] by simp
qed

text \<open>What a registration does. For a socket that has no agent or the same one, a registration fails exactly when
  the agent belongs to another user, or, with the rejecting policy, is connected on another live socket, as the
  peek before it announced; a failed one changes nothing. Otherwise the agent is registered on the new socket, no
  other agent is touched, the previous socket no longer resolves to it and is returned for disconnection
  exactly when it is alive, and the agent is ready after the grace time, or not before its acknowledgment
  when it asked for one.\<close>

theorem registration_outcomes:
  assumes "reachable new_agent_registry (ar_step env) st" and may: "may_register inp st"
  shows "case registerAgentSession env now policy peers inp st of
      (Inl OwnedByAnotherUser, st') \<Rightarrow> st' = st \<and>
        (\<exists>e u. findByAgentId (ri_agentId inp) st = Some e \<and> ag_userId e = Some u \<and> ri_userId inp \<noteq> None \<and> ri_userId inp \<noteq> Some u)
    | (Inl SessionActive, st') \<Rightarrow> st' = st \<and> wouldRejectActiveSession (ri_agentId inp) (ri_socketId inp) policy peers st
    | (Inr (ag, replaced), st') \<Rightarrow>
        \<not> wouldRejectActiveSession (ri_agentId inp) (ri_socketId inp) policy peers st \<and>
        findByAgentId (ri_agentId inp) st' = Some ag \<and> getAgentIdBySocketId (ri_socketId inp) st' = Some (ri_agentId inp) \<and>
        (\<forall>b. b \<noteq> ri_agentId inp \<longrightarrow> findByAgentId b st' = findByAgentId b st) \<and>
        (\<forall>s. s \<noteq> ri_socketId inp \<longrightarrow> getAgentIdBySocketId s st' \<noteq> Some (ri_agentId inp)) \<and>
        (\<forall>s. replaced = Some s \<longleftrightarrow>
          getSocketIdByAgentId (ri_agentId inp) st = Some s \<and> s \<noteq> ri_socketId inp \<and> peers s) \<and>
        (\<forall>t. fst (getProtocolReadiness env t (ri_agentId inp) st') \<longleftrightarrow>
          resolveProtocolReadyMode (ri_capabilities inp) = Grace \<and> now + socketAgentProtocolReadyGraceMs env \<le> t)"
proof -
  have inv: "ar_inv st" using assms(1) by (rule agents.inv_reachable)
  let ?a = "ri_agentId inp" and ?s = "ri_socketId inp" and ?st0 = "st\<lparr>agentIdBySocketId := socks_after inp st\<rparr>"
  have inv': "ar_inv (snd (store_agent env now inp (jm_get (agents st) ?a) ?st0))" by (rule ar_inv_store[OF inv may])
  have find0: "findByAgentId b ?st0 = findByAgentId b st" for b by (simp add: findByAgentId_def)
  have mode: "resolveProtocolReadyMode c = Grace \<longleftrightarrow> resolveProtocolReadyMode c \<noteq> ExplicitAck" for c
    by (cases "resolveProtocolReadyMode c") auto
  define q where "q = snd (store_agent env now inp (jm_get (agents st) ?a) ?st0)"
  define g where "g = fst (store_agent env now inp (jm_get (agents st) ?a) ?st0)"
  have sock: "getSocketIdByAgentId ?a q = Some ?s"
    using store_agent_results(1)[of ?a env now inp "jm_get (agents st) ?a" ?st0] store_agent_results(2)[of env now inp "jm_get (agents st) ?a" ?st0]
    by (simp add: q_def getSocketIdByAgentId_def findByAgentId_def)
  have good: "findByAgentId ?a q = Some g \<and> getAgentIdBySocketId ?s q = Some ?a \<and>
      (\<forall>b. b \<noteq> ?a \<longrightarrow> findByAgentId b q = findByAgentId b st) \<and>
      (\<forall>s. s \<noteq> ?s \<longrightarrow> getAgentIdBySocketId s q \<noteq> Some ?a) \<and>
      (\<forall>t. fst (getProtocolReadiness env t ?a q) \<longleftrightarrow>
        resolveProtocolReadyMode (ri_capabilities inp) = Grace \<and> now + socketAgentProtocolReadyGraceMs env \<le> t)"
    using store_agent_results(1,3)[where env = env and now = now and inp = inp and existing = "jm_get (agents st) ?a" and st = ?st0] find0 sock mode
    by (simp add: getAgentId_iff[OF inv'[folded q_def]] q_def[symmetric] g_def[symmetric])
  show ?thesis
  proof (cases "jm_get (agents st) ?a")
    case None
    then show ?thesis using good
      by (simp add: register_outcome[OF may] q_def g_def wouldRejectActiveSession_def getSocketIdByAgentId_def)
  next
    case (Some e)
    then show ?thesis using good
      by (auto simp: register_outcome[OF may] q_def g_def getSocketIdByAgentId_def findByAgentId_def)
  qed
qed

theorem registration_outcomes_witness:
  "case registerAgentSession sample_agent_env 2000 TakeoverDisconnectPrevious (\<lambda>_. True) (sample_registration ''a'' ''s2'') sample_agents of
     (Inr (ag, replaced), st') \<Rightarrow> replaced = Some ''s1'' \<and> getAgentIdBySocketId ''s2'' st' = Some ''a''
   | _ \<Rightarrow> False"
proof -
  have m: "may_register (sample_registration ''a'' ''s2'') sample_agents" by code_simp
  have "isl (fst (registerAgentSession sample_agent_env 2000 TakeoverDisconnectPrevious (\<lambda>_. True) (sample_registration ''a'' ''s2'') sample_agents)) = False"
    by code_simp
  moreover have "getSocketIdByAgentId ''a'' sample_agents = Some ''s1''" by code_simp
  ultimately show ?thesis
    using registration_outcomes[OF sample_agents_reachable m, where now = 2000 and policy = TakeoverDisconnectPrevious and peers = "\<lambda>_. True"]
    by (auto simp: sample_registration_def split: prod.splits sum.splits)
qed

text \<open>A refused registration is not atomic at the level of the registry, although \<^verbatim>\<open>registerAgentSession\<close> is documented
  to register or reject atomically. A socket that holds agent b and asks for agent a, which is active elsewhere, is refused,
  but agent b has been removed by then while its socket still points to it. When another socket registers b, the
  disconnect of the first socket removes that registration. (The register handler currently refuses to change the
  agent of a socket before it calls the registry.)\<close>

theorem refused_registration_not_atomic:
  "let st1 = snd (registerAgentSession sample_agent_env 1100 RejectActive (\<lambda>_. True) (sample_registration ''b'' ''s2'') sample_agents);
       (res, st2) = registerAgentSession sample_agent_env 1200 RejectActive (\<lambda>_. True) (sample_registration ''a'' ''s2'') st1;
       st3 = snd (registerAgentSession sample_agent_env 1300 RejectActive (\<lambda>_. True) (sample_registration ''b'' ''s3'') st2);
       st4 = snd (removeBySocketId ''s2'' st3)
   in isRegistered ''b'' st1 \<and> isl res \<and> \<not> isRegistered ''b'' st2 \<and>
      getSocketIdByAgentId ''b'' st3 = Some ''s3'' \<and> \<not> isRegistered ''b'' st4"
  by code_simp

end
