(* ===== verification/Agent_Ingress_Guard.thy ===== *)
theory Agent_Ingress_Guard
  imports Agent_Registry Registry_Index
begin

text \<open>
  \<^verbatim>\<open>presentation/socket/hub/relay/agent_inbound_ingress_guard.ts\<close>: the budgets of frames, bytes and pending work an agent has
  for what it sends to the hub.

  The state of a budget key is an object that a release closure keeps after the key was dropped, so states live in a
  heap and the map holds their index; an admission is a handle with the socket, the state it charged and the
  released flag of its closure. The sizes a frame declares (\<open>None\<close> when it is not a payload frame) and the agent registry that
  resolves the socket are arguments.
\<close>

section \<open>State\<close>

datatype guard_event = RpcResponse | RpcChunk | RpcComplete | RpcRequestAck | RpcBatchAck
datatype guard_class = AckClass | UnaryClass | StreamClass
datatype guard_mode = Observe | Enforce
datatype guard_reason = InvalidFrame | PendingWork | Frames | CompressedBytes | DecodedBytes

record class_budget =
  cb_frames :: int
  cb_compressedBytes :: int
  cb_decodedBytes :: int

record guard_state =
  windowStartedAtMs :: int
  gs_pendingWork :: int
  consecutiveViolations :: int
  byClass :: "guard_class \<Rightarrow> class_budget"

record admission =
  ad_socketId :: string
  ad_state :: nat
  ad_released :: bool

record ingress =
  rejectedByEvent :: "(guard_event \<times> guard_reason) counter"
  bytesRejectedCompressed :: int
  bytesRejectedDecoded :: int
  violationDisconnectTotal :: int
  ig_pendingWork :: int
  stateByKey :: "(string, nat) jsmap"
  ig_states :: "guard_state list"
  budgetKeyBySocketId :: "(string, string) jsmap"
  socketsByBudgetKey :: "(string, string) index"
  pendingWorkBySocketId :: "string counter"
  admissions :: "admission list"

record guard_env =
  guardMode :: guard_mode
  maxFramesPerWindow :: int
  maxAckFramesPerWindow :: int
  maxCompressedBytesPerWindow :: int
  maxDecodedBytesPerWindow :: int
  maxPendingWork :: int
  violationsBeforeDisconnect :: int

definition WINDOW_MS :: int where
  "WINDOW_MS = 1000"

definition emptyClassBudget :: class_budget where
  "emptyClassBudget = \<lparr>cb_frames = 0, cb_compressedBytes = 0, cb_decodedBytes = 0\<rparr>"

definition emptyClassBudgets :: "guard_class \<Rightarrow> class_budget" where
  "emptyClassBudgets = (\<lambda>_. emptyClassBudget)"

definition new_ingress :: ingress where
  "new_ingress = \<lparr>rejectedByEvent = [], bytesRejectedCompressed = 0, bytesRejectedDecoded = 0, violationDisconnectTotal = 0,
     ig_pendingWork = 0, stateByKey = [], ig_states = [], budgetKeyBySocketId = [], socketsByBudgetKey = [],
     pendingWorkBySocketId = [], admissions = []\<rparr>"

section \<open>Operations\<close>

definition socketBudgetKey :: "string \<Rightarrow> string" where
  "socketBudgetKey socketId = ''socket:'' @ socketId"

definition agentBudgetKey :: "string \<Rightarrow> string" where
  "agentBudgetKey agentId = ''agent:'' @ agentId"

definition resolveBudgetKey :: "agent_registry \<Rightarrow> string \<Rightarrow> string" where
  "resolveBudgetKey ar socketId =
     (case getAgentIdBySocketId socketId ar of
        Some agentId \<Rightarrow> if agentId \<noteq> [] then agentBudgetKey agentId else socketBudgetKey socketId
      | None \<Rightarrow> socketBudgetKey socketId)"

definition is_socket_key :: "string \<Rightarrow> bool" where
  "is_socket_key k \<longleftrightarrow> take 7 k = ''socket:''"

text \<open>A key is never empty, so \<^verbatim>\<open>if (previous)\<close> asks whether there is one.\<close>

definition trackSocketBudgetKey :: "string \<Rightarrow> string \<Rightarrow> ingress \<Rightarrow> ingress" where
  "trackSocketBudgetKey socketId budgetKey st =
     (let previous = jm_get (budgetKeyBySocketId st) socketId
      in if previous = Some budgetKey then st
         else let st1 = (case previous of
                    None \<Rightarrow> st
                  | Some prev \<Rightarrow>
                      (let idx = removeIndexValue (socketsByBudgetKey st) prev socketId
                       in st\<lparr>socketsByBudgetKey := idx,
                             stateByKey := (if jm_has (socketsByBudgetKey st) prev \<and> \<not> jm_has idx prev \<and> is_socket_key prev
                                            then jm_del prev (stateByKey st) else stateByKey st)\<rparr>))
              in st1\<lparr>budgetKeyBySocketId := jm_set socketId budgetKey (budgetKeyBySocketId st1),
                     socketsByBudgetKey := addIndexValue (socketsByBudgetKey st1) budgetKey socketId\<rparr>)"

definition classifyEvent :: "guard_event \<Rightarrow> guard_class" where
  "classifyEvent ev = (case ev of RpcRequestAck \<Rightarrow> AckClass | RpcBatchAck \<Rightarrow> AckClass | RpcChunk \<Rightarrow> StreamClass
     | RpcComplete \<Rightarrow> StreamClass | RpcResponse \<Rightarrow> UnaryClass)"

definition getOrCreateGuardState :: "string \<Rightarrow> int \<Rightarrow> ingress \<Rightarrow> nat \<times> ingress" where
  "getOrCreateGuardState budgetKey now st =
     (case jm_get (stateByKey st) budgetKey of
        None \<Rightarrow> (length (ig_states st),
                 st\<lparr>stateByKey := jm_set budgetKey (length (ig_states st)) (stateByKey st),
                    ig_states := ig_states st @ [\<lparr>windowStartedAtMs = now, gs_pendingWork = 0, consecutiveViolations = 0,
                                                  byClass = emptyClassBudgets\<rparr>]\<rparr>)
      | Some h \<Rightarrow>
          (h, if now - windowStartedAtMs (ig_states st ! h) \<ge> WINDOW_MS
              then st\<lparr>ig_states := (ig_states st)[h := (ig_states st ! h)\<lparr>windowStartedAtMs := now, byClass := emptyClassBudgets\<rparr>]\<rparr>
              else st))"

definition noteRejected :: "guard_event \<Rightarrow> guard_reason \<Rightarrow> int \<times> int \<Rightarrow> ingress \<Rightarrow> ingress" where
  "noteRejected ev reason sizes st =
     (let st1 = st\<lparr>rejectedByEvent := incrementCounter (rejectedByEvent st) (ev, reason)\<rparr>
      in case reason of
           CompressedBytes \<Rightarrow> if fst sizes > 0 then st1\<lparr>bytesRejectedCompressed := bytesRejectedCompressed st1 + fst sizes\<rparr> else st1
         | DecodedBytes \<Rightarrow> if snd sizes > 0 then st1\<lparr>bytesRejectedDecoded := bytesRejectedDecoded st1 + snd sizes\<rparr> else st1
         | _ \<Rightarrow> st1)"

text \<open>Why a frame of the class with the declared sizes (compressed, original) is refused, if it is.\<close>

definition refusal :: "guard_env \<Rightarrow> guard_class \<Rightarrow> (int \<times> int) option \<Rightarrow> guard_state \<Rightarrow> guard_reason option" where
  "refusal env cls sizes gs =
     (let budget = byClass gs cls;
          maxFrames = (if cls = AckClass then maxAckFramesPerWindow env else maxFramesPerWindow env)
      in case sizes of
           None \<Rightarrow> Some InvalidFrame
         | Some (compressed, original) \<Rightarrow>
             if maxPendingWork env > 0 \<and> gs_pendingWork gs \<ge> maxPendingWork env then Some PendingWork
             else if maxFrames > 0 \<and> cb_frames budget \<ge> maxFrames then Some Frames
             else if maxCompressedBytesPerWindow env > 0 \<and>
                     cb_compressedBytes budget + compressed > maxCompressedBytesPerWindow env then Some CompressedBytes
             else if maxDecodedBytesPerWindow env > 0 \<and>
                     cb_decodedBytes budget + original > maxDecodedBytesPerWindow env then Some DecodedBytes
             else None)"

text \<open>Admitted with a release handle, admitted without bookkeeping, or refused (with the request to disconnect).\<close>

datatype admit_result = Admitted nat | AdmittedUnchecked | Refused guard_reason bool

definition charge_frame :: "guard_class \<Rightarrow> int \<times> int \<Rightarrow> guard_state \<Rightarrow> guard_state" where
  "charge_frame cls sizes gs =
     (let b = byClass gs cls
      in gs\<lparr>byClass := (byClass gs)(cls := \<lparr>cb_frames = cb_frames b + 1, cb_compressedBytes = cb_compressedBytes b + fst sizes,
                                           cb_decodedBytes = cb_decodedBytes b + snd sizes\<rparr>)\<rparr>)"

text \<open>The bookkeeping of an admitted frame: the budget of its class when it declared its sizes, and the pending work.\<close>

definition admit_frame :: "string \<Rightarrow> guard_class \<Rightarrow> (int \<times> int) option \<Rightarrow> nat \<Rightarrow> ingress \<Rightarrow> admit_result \<times> ingress" where
  "admit_frame socketId cls sizes h st =
     (let gs = ig_states st ! h;
          gs1 = (case sizes of Some sz \<Rightarrow> charge_frame cls sz gs | None \<Rightarrow> gs)
      in (Admitted (length (admissions st)),
          st\<lparr>ig_states := (ig_states st)[h := gs1\<lparr>gs_pendingWork := gs_pendingWork gs1 + 1\<rparr>],
             ig_pendingWork := ig_pendingWork st + 1,
             pendingWorkBySocketId := incrementCounter (pendingWorkBySocketId st) socketId,
             admissions := admissions st @ [\<lparr>ad_socketId = socketId, ad_state = h, ad_released = False\<rparr>]\<rparr>))"

definition admitAgentInboundFrame ::
    "guard_env \<Rightarrow> agent_registry \<Rightarrow> int \<Rightarrow> string \<Rightarrow> guard_event \<Rightarrow> (int \<times> int) option \<Rightarrow> ingress \<Rightarrow> admit_result \<times> ingress" where
  "admitAgentInboundFrame env ar now socketId ev sizes st =
     (let key = resolveBudgetKey ar socketId;
          (h, st1) = getOrCreateGuardState key now (trackSocketBudgetKey socketId key st);
          cls = classifyEvent ev; gs = ig_states st1 ! h
      in case refusal env cls sizes gs of
           Some reason \<Rightarrow>
             (let violations = consecutiveViolations gs + 1;
                  st2 = (noteRejected ev reason (case sizes of Some sz \<Rightarrow> sz | None \<Rightarrow> (0, 0)) st1)
                          \<lparr>ig_states := (ig_states st1)[h := gs\<lparr>consecutiveViolations := violations\<rparr>]\<rparr>;
                  disconnect = (guardMode env = Enforce \<and> violationsBeforeDisconnect env > 0 \<and>
                                violations \<ge> violationsBeforeDisconnect env);
                  st3 = (if disconnect then st2\<lparr>violationDisconnectTotal := violationDisconnectTotal st2 + 1\<rparr> else st2)
              in if guardMode env = Enforce then (Refused reason disconnect, st3)
                 else if sizes = None then (AdmittedUnchecked, st3)
                 else admit_frame socketId cls sizes h st3)
         | None \<Rightarrow>
             admit_frame socketId cls sizes h
               (st1\<lparr>ig_states := (ig_states st1)[h := gs\<lparr>consecutiveViolations := 0\<rparr>]\<rparr>))"

text \<open>The release closure of an admission.\<close>

definition releaseAdmission :: "nat \<Rightarrow> ingress \<Rightarrow> ingress" where
  "releaseAdmission t st =
     (let ad = admissions st ! t
      in if ad_released ad then st
         else let st1 = st\<lparr>admissions := (admissions st)[t := ad\<lparr>ad_released := True\<rparr>]\<rparr>
              in case jm_get (pendingWorkBySocketId st1) (ad_socketId ad) of
                   None \<Rightarrow> st1
                 | Some tracked \<Rightarrow>
                     st1\<lparr>ig_states := (ig_states st1)[ad_state ad := (ig_states st1 ! ad_state ad)
                            \<lparr>gs_pendingWork := max 0 (gs_pendingWork (ig_states st1 ! ad_state ad) - 1)\<rparr>],
                         ig_pendingWork := max 0 (ig_pendingWork st1 - 1),
                         pendingWorkBySocketId := (if tracked - 1 \<le> 0 then jm_del (ad_socketId ad) (pendingWorkBySocketId st1)
                           else jm_set (ad_socketId ad) (tracked - 1) (pendingWorkBySocketId st1))\<rparr>)"

definition cleanupAgentInboundIngressSocket :: "string \<Rightarrow> ingress \<Rightarrow> ingress" where
  "cleanupAgentInboundIngressSocket socketId st =
     (let key = (case jm_get (budgetKeyBySocketId st) socketId of Some k \<Rightarrow> k | None \<Rightarrow> socketBudgetKey socketId);
          socketPending = cnt_get (pendingWorkBySocketId st) socketId;
          st1 = (case jm_get (stateByKey st) key of
                   Some h \<Rightarrow>
                     if socketPending > 0 then
                       st\<lparr>ig_states := (ig_states st)[h := (ig_states st ! h)\<lparr>gs_pendingWork := max 0 (gs_pendingWork (ig_states st ! h) - socketPending)\<rparr>],
                          ig_pendingWork := max 0 (ig_pendingWork st - socketPending)\<rparr>
                     else st
                 | None \<Rightarrow> st);
          idx = removeIndexValue (socketsByBudgetKey st1) key socketId;
          states = jm_del (socketBudgetKey socketId) (stateByKey st1)
      in st1\<lparr>pendingWorkBySocketId := jm_del socketId (pendingWorkBySocketId st1),
             budgetKeyBySocketId := jm_del socketId (budgetKeyBySocketId st1),
             socketsByBudgetKey := idx,
             stateByKey := (if jm_has idx key then states else jm_del key states)\<rparr>)"

definition resetAgentInboundIngressForTests :: "ingress \<Rightarrow> ingress" where
  "resetAgentInboundIngressForTests st = new_ingress\<lparr>ig_states := ig_states st, admissions := admissions st\<rparr>"

section \<open>The guard in operation\<close>

text \<open>Frames arrive at sockets that are connected, declaring sizes that are natural numbers; admissions are released, at most
  once each, in any order; a disconnect cleans up. The agent registry may change in any way between two frames. The closed
  sockets are recorded: Socket.IO does not reuse an id.\<close>

record guard_run =
  gr_ingress :: ingress
  gr_closed :: "string list"

definition new_guard_run :: guard_run where
  "new_guard_run = \<lparr>gr_ingress = new_ingress, gr_closed = []\<rparr>"

definition sizes_ok :: "(int \<times> int) option \<Rightarrow> bool" where
  "sizes_ok sizes \<longleftrightarrow> (case sizes of None \<Rightarrow> True | Some (c, u) \<Rightarrow> 0 \<le> c \<and> 0 \<le> u)"

inductive guard_step :: "guard_env \<Rightarrow> guard_run \<Rightarrow> guard_run \<Rightarrow> bool" for env where
  gd_frame: "s \<notin> set (gr_closed g) \<Longrightarrow> sizes_ok sizes \<Longrightarrow>
    guard_step env g (g\<lparr>gr_ingress := snd (admitAgentInboundFrame env ar now s ev sizes (gr_ingress g))\<rparr>)"
| gd_release: "t < length (admissions (gr_ingress g)) \<Longrightarrow>
    guard_step env g (g\<lparr>gr_ingress := releaseAdmission t (gr_ingress g)\<rparr>)"
| gd_close: "guard_step env g (g\<lparr>gr_ingress := cleanupAgentInboundIngressSocket s (gr_ingress g), gr_closed := s # gr_closed g\<rparr>)"

section \<open>Invariant\<close>

definition live_of :: "string \<Rightarrow> admission \<Rightarrow> int" where
  "live_of s x = (if \<not> ad_released x \<and> ad_socketId x = s then 1 else 0)"

definition outstanding :: "string list \<Rightarrow> admission \<Rightarrow> int" where
  "outstanding gone x = (if \<not> ad_released x \<and> ad_socketId x \<notin> set gone then 1 else 0)"

definition budget_ok :: "guard_env \<Rightarrow> guard_class \<Rightarrow> class_budget \<Rightarrow> bool" where
  "budget_ok env cls b \<longleftrightarrow>
     (let maxFrames = (if cls = AckClass then maxAckFramesPerWindow env else maxFramesPerWindow env)
      in guardMode env = Enforce \<longrightarrow>
        (maxFrames > 0 \<longrightarrow> cb_frames b \<le> maxFrames) \<and>
        (maxCompressedBytesPerWindow env > 0 \<longrightarrow> cb_compressedBytes b \<le> maxCompressedBytesPerWindow env) \<and>
        (maxDecodedBytesPerWindow env > 0 \<longrightarrow> cb_decodedBytes b \<le> maxDecodedBytesPerWindow env))"

definition state_ok :: "guard_env \<Rightarrow> guard_state \<Rightarrow> bool" where
  "state_ok env gs \<longleftrightarrow> 0 \<le> gs_pendingWork gs \<and> (\<forall>cls. budget_ok env cls (byClass gs cls)) \<and>
     (guardMode env = Enforce \<and> maxPendingWork env > 0 \<longrightarrow> gs_pendingWork gs \<le> maxPendingWork env)"

text \<open>The key of every tracked socket has a state, except possibly the key \<open>pending\<close> that is about to get one.\<close>

definition covered :: "string option \<Rightarrow> (string, string) jsmap \<Rightarrow> (string, nat) jsmap \<Rightarrow> bool" where
  "covered pending m states \<longleftrightarrow> (\<forall>s k. jm_get m s = Some k \<longrightarrow> Some k = pending \<or> jm_has states k)"

definition handles_below :: "(string, nat) jsmap \<Rightarrow> nat \<Rightarrow> bool" where
  "handles_below states n \<longleftrightarrow> (\<forall>k h. jm_get states k = Some h \<longrightarrow> h < n)"

definition keys_ok :: "string option \<Rightarrow> ingress \<Rightarrow> bool" where
  "keys_ok pending st \<longleftrightarrow> index_ok Some (budgetKeyBySocketId st) (socketsByBudgetKey st) \<and>
     covered pending (budgetKeyBySocketId st) (stateByKey st) \<and> handles_below (stateByKey st) (length (ig_states st)) \<and>
     (\<forall>x \<in> set (admissions st). ad_state x < length (ig_states st))"

definition counts_ok :: "string list \<Rightarrow> ingress \<Rightarrow> bool" where
  "counts_ok gone st \<longleftrightarrow> cnt_wf (pendingWorkBySocketId st) \<and>
     (\<forall>s. cnt_get (pendingWorkBySocketId st) s = (if s \<in> set gone then 0 else tally (live_of s) (admissions st))) \<and>
     ig_pendingWork st = tally (outstanding gone) (admissions st) \<and>
     (\<forall>s. 0 < cnt_get (pendingWorkBySocketId st) s \<longrightarrow> jm_has (budgetKeyBySocketId st) s)"

definition states_ok :: "guard_env \<Rightarrow> ingress \<Rightarrow> bool" where
  "states_ok env st \<longleftrightarrow> (\<forall>gs \<in> set (ig_states st). state_ok env gs)"

text \<open>No socket is tracked under the key of another one.\<close>

definition own_keys :: "(string, string) jsmap \<Rightarrow> bool" where
  "own_keys m \<longleftrightarrow> (\<forall>s s'. jm_get m s' = Some (socketBudgetKey s) \<longrightarrow> s' = s)"

definition guard_inv :: "guard_env \<Rightarrow> guard_run \<Rightarrow> bool" where
  "guard_inv env g \<longleftrightarrow> keys_ok None (gr_ingress g) \<and> counts_ok (gr_closed g) (gr_ingress g) \<and>
     states_ok env (gr_ingress g) \<and> own_keys (budgetKeyBySocketId (gr_ingress g))"

subsection \<open>Keys\<close>

lemma coveredD: "covered p m states \<Longrightarrow> jm_get m s = Some k \<Longrightarrow> Some k = p \<or> jm_has states k"
  unfolding covered_def by blast

lemma coveredI: "(\<And>s k. jm_get m s = Some k \<Longrightarrow> Some k = p \<or> jm_has states k) \<Longrightarrow> covered p m states"
  unfolding covered_def by blast

lemma covered_created: "covered (Some k) m states \<Longrightarrow> covered None m (jm_set k h states)"
  by (rule coveredI) (drule (1) coveredD, auto)

lemma covered_present: "covered (Some k) m states \<Longrightarrow> jm_has states k \<Longrightarrow> covered None m states"
  by (rule coveredI) (drule (1) coveredD, auto)

lemma covered_weaken: "covered None m states \<Longrightarrow> covered p m states"
  unfolding covered_def by blast

lemma covered_set: "covered None (jm_del s m) states \<Longrightarrow> covered (Some k) (jm_set s k m) states"
  unfolding covered_def by (metis jm_get_del jm_get_set option.distinct(1))

lemma handles_belowD: "handles_below states n \<Longrightarrow> jm_get states k = Some h \<Longrightarrow> h < n"
  unfolding handles_below_def by blast

lemma handles_below_sub:
  "handles_below states n \<Longrightarrow> (\<And>k h. jm_get states' k = Some h \<Longrightarrow> jm_get states k = Some h) \<Longrightarrow> handles_below states' n"
  unfolding handles_below_def by blast

lemma handles_below_created: "handles_below states n \<Longrightarrow> handles_below (jm_set k n states) (Suc n)"
  unfolding handles_below_def by (simp add: less_SucI)

lemma index_has_iff:
  assumes ok: "index_ok attr m idx"
  shows "jm_has idx k \<longleftrightarrow> (\<exists>i r. jm_get m i = Some r \<and> attr r = Some k)"
proof -
  have "jm_has idx k \<longleftrightarrow> (\<exists>i. i \<in> set (idx_get idx k))"
  proof (cases "jm_get idx k")
    case (Some ids)
    then have "ids \<noteq> []" using ok by (auto simp: index_ok_def idx_wf_def)
    then show ?thesis using Some by (simp add: idx_get_def ex_in_conv)
  qed (simp add: idx_get_def)
  then show ?thesis using ok by (simp add: index_ok_def)
qed

lemma index_ok_same_get: "(\<And>i. jm_get m i = jm_get m' i) \<Longrightarrow> index_ok attr m idx \<Longrightarrow> index_ok attr m' idx"
  by (simp add: index_ok_def)

lemma index_ok_move:
  assumes ok: "index_ok Some m idx"
  shows "index_ok Some (jm_set s k m)
    (addIndexValue (case jm_get m s of None \<Rightarrow> idx | Some prev \<Rightarrow> removeIndexValue idx prev s) k s)"
proof (cases "jm_get m s")
  case None
  then show ?thesis using index_ok_add[OF ok] by simp
next
  case (Some prev)
  have "index_ok Some (jm_set s k (jm_del s m)) (addIndexValue (removeIndexValue idx prev s) k s)"
    using index_ok_remove[OF ok Some] by (intro index_ok_add) auto
  then have "index_ok Some (jm_set s k m) (addIndexValue (removeIndexValue idx prev s) k s)"
    by (rule index_ok_same_get[rotated]) simp
  then show ?thesis using Some by simp
qed

text \<open>Dropping the states of keys that no socket has any more.\<close>

lemma covered_drop:
  assumes idx: "index_ok Some m idx" and c: "covered None m states" and prev: "jm_get m s = Some prev"
    and sub: "\<And>k. jm_has states k \<Longrightarrow> k \<noteq> prev \<or> jm_has (removeIndexValue idx prev s) prev \<Longrightarrow> jm_has states' k"
  shows "covered None (jm_del s m) states'"
proof (rule coveredI)
  fix s' k
  assume get: "jm_get (jm_del s m) s' = Some k"
  then have old: "jm_get m s' = Some k" "s' \<noteq> s" by (auto split: if_splits)
  have "index_ok Some (jm_del s m) (removeIndexValue idx prev s)" by (rule index_ok_remove[OF idx prev]) simp
  from index_has_iff[OF this, of k] have kept: "jm_has (removeIndexValue idx prev s) k" using get by blast
  have "jm_has states k" using coveredD[OF c old(1)] by simp
  moreover have "k \<noteq> prev \<or> jm_has (removeIndexValue idx prev s) prev" using kept by blast
  ultimately have "jm_has states' k" by (rule sub)
  then show "Some k = None \<or> jm_has states' k" ..
qed

lemma track_keys:
  assumes ok: "keys_ok None st"
  shows "keys_ok (Some k) (trackSocketBudgetKey s k st)"
proof (cases "jm_get (budgetKeyBySocketId st) s = Some k")
  case True
  then show ?thesis using ok covered_weaken by (auto simp: trackSocketBudgetKey_def keys_ok_def)
next
  case False
  let ?m = "budgetKeyBySocketId st" and ?t = "trackSocketBudgetKey s k st"
  have idx: "index_ok Some ?m (socketsByBudgetKey st)" and cov: "covered None ?m (stateByKey st)"
    and below: "handles_below (stateByKey st) (length (ig_states st))" using ok by (auto simp: keys_ok_def)
  have t: "budgetKeyBySocketId ?t = jm_set s k ?m" "ig_states ?t = ig_states st" "admissions ?t = admissions st"
    "socketsByBudgetKey ?t = addIndexValue (case jm_get ?m s of None \<Rightarrow> socketsByBudgetKey st
       | Some prev \<Rightarrow> removeIndexValue (socketsByBudgetKey st) prev s) k s"
    "\<And>k' h. jm_get (stateByKey ?t) k' = Some h \<Longrightarrow> jm_get (stateByKey st) k' = Some h"
    using False by (auto simp: trackSocketBudgetKey_def Let_def split: option.splits if_splits)
  have "covered None (jm_del s ?m) (stateByKey ?t)"
  proof (cases "jm_get ?m s")
    case None
    then show ?thesis using cov False by (simp add: trackSocketBudgetKey_def Let_def jm_del_fresh)
  next
    case (Some prev)
    show ?thesis by (rule covered_drop[OF idx cov Some]) (use Some False in \<open>auto simp: trackSocketBudgetKey_def Let_def\<close>)
  qed
  then have "covered (Some k) (jm_set s k ?m) (stateByKey ?t)" by (rule covered_set)
  moreover have "index_ok Some (budgetKeyBySocketId ?t) (socketsByBudgetKey ?t)" unfolding t(1,4) by (rule index_ok_move[OF idx])
  moreover have "handles_below (stateByKey ?t) (length (ig_states st))" by (rule handles_below_sub[OF below t(5)])
  ultimately show ?thesis using ok t(1,2,3) by (simp add: keys_ok_def)
qed

lemma track_frame [simp]:
  "jm_get (budgetKeyBySocketId (trackSocketBudgetKey s k st)) s' = (if s' = s then Some k else jm_get (budgetKeyBySocketId st) s')"
  "ig_states (trackSocketBudgetKey s k st) = ig_states st"
  "admissions (trackSocketBudgetKey s k st) = admissions st"
  "pendingWorkBySocketId (trackSocketBudgetKey s k st) = pendingWorkBySocketId st"
  "ig_pendingWork (trackSocketBudgetKey s k st) = ig_pendingWork st"
  by (auto simp: trackSocketBudgetKey_def Let_def split: option.split)

lemma state_created:
  assumes ok: "keys_ok (Some k) st" and eq: "getOrCreateGuardState k now st = (h, st')"
  shows "keys_ok None st'" "h < length (ig_states st')" "budgetKeyBySocketId st' = budgetKeyBySocketId st"
    "admissions st' = admissions st" "pendingWorkBySocketId st' = pendingWorkBySocketId st" "ig_pendingWork st' = ig_pendingWork st"
proof -
  have parts: "index_ok Some (budgetKeyBySocketId st) (socketsByBudgetKey st)" "covered (Some k) (budgetKeyBySocketId st) (stateByKey st)"
    "handles_below (stateByKey st) (length (ig_states st))" "\<And>x. x \<in> set (admissions st) \<Longrightarrow> ad_state x < length (ig_states st)"
    using ok by (auto simp: keys_ok_def)
  have "keys_ok None st' \<and> h < length (ig_states st') \<and> budgetKeyBySocketId st' = budgetKeyBySocketId st \<and>
    admissions st' = admissions st \<and> pendingWorkBySocketId st' = pendingWorkBySocketId st \<and> ig_pendingWork st' = ig_pendingWork st"
  proof (cases "jm_get (stateByKey st) k")
    case None
    then show ?thesis using eq parts covered_created[OF parts(2)] handles_below_created[OF parts(3)]
      by (auto simp: getOrCreateGuardState_def keys_ok_def less_SucI)
  next
    case (Some j)
    have "covered None (budgetKeyBySocketId st) (stateByKey st)" by (rule covered_present[OF parts(2)]) (simp add: Some)
    then show ?thesis using Some eq parts handles_belowD[OF parts(3) Some]
      by (auto simp: getOrCreateGuardState_def keys_ok_def split: if_splits)
  qed
  then show "keys_ok None st'" "h < length (ig_states st')" "budgetKeyBySocketId st' = budgetKeyBySocketId st"
    "admissions st' = admissions st" "pendingWorkBySocketId st' = pendingWorkBySocketId st" "ig_pendingWork st' = ig_pendingWork st"
    by auto
qed

subsection \<open>Budgets\<close>

lemma states_ok_update:
  "states_ok env st \<Longrightarrow> state_ok env gs \<Longrightarrow> ig_states st' = (ig_states st)[h := gs] \<Longrightarrow> states_ok env st'"
  using set_update_subset_insert[of "ig_states st" h gs] by (auto simp: states_ok_def)

lemma states_ok_nth: "states_ok env st \<Longrightarrow> h < length (ig_states st) \<Longrightarrow> state_ok env (ig_states st ! h)"
  by (simp add: states_ok_def)

lemma state_ok_empty_budgets: "state_ok env gs \<Longrightarrow> state_ok env (gs\<lparr>windowStartedAtMs := now, byClass := emptyClassBudgets\<rparr>)"
  by (auto simp: state_ok_def budget_ok_def emptyClassBudgets_def emptyClassBudget_def Let_def)

lemma states_created:
  assumes ok: "states_ok env st" and below: "handles_below (stateByKey st) (length (ig_states st))"
    and eq: "getOrCreateGuardState k now st = (h, st')"
  shows "states_ok env st'"
proof (cases "jm_get (stateByKey st) k")
  case None
  have "state_ok env \<lparr>windowStartedAtMs = now, gs_pendingWork = 0, consecutiveViolations = 0, byClass = emptyClassBudgets\<rparr>"
    by (auto simp: state_ok_def budget_ok_def emptyClassBudgets_def emptyClassBudget_def Let_def)
  then show ?thesis using None ok eq by (auto simp: getOrCreateGuardState_def states_ok_def)
next
  case (Some j)
  have "state_ok env ((ig_states st ! j)\<lparr>windowStartedAtMs := now, byClass := emptyClassBudgets\<rparr>)"
    by (rule state_ok_empty_budgets[OF states_ok_nth[OF ok handles_belowD[OF below Some]]])
  note ok' = states_ok_update[OF ok this]
  have "ig_states st' = ig_states st \<or>
    ig_states st' = (ig_states st)[j := (ig_states st ! j)\<lparr>windowStartedAtMs := now, byClass := emptyClassBudgets\<rparr>]"
    using Some eq by (auto simp: getOrCreateGuardState_def)
  then show ?thesis using ok' ok by (auto simp: states_ok_def)
qed

text \<open>A frame that is not refused fits; so does every frame in the observing mode, which has no limits.\<close>

definition frame_limit :: "guard_env \<Rightarrow> guard_class \<Rightarrow> int" where
  "frame_limit env cls = (if cls = AckClass then maxAckFramesPerWindow env else maxFramesPerWindow env)"

lemma refusal_None:
  assumes "refusal env cls sizes gs = None"
  obtains c u where "sizes = Some (c, u)" "0 < maxPendingWork env \<Longrightarrow> gs_pendingWork gs < maxPendingWork env"
    "0 < frame_limit env cls \<Longrightarrow> cb_frames (byClass gs cls) < frame_limit env cls"
    "0 < maxCompressedBytesPerWindow env \<Longrightarrow> cb_compressedBytes (byClass gs cls) + c \<le> maxCompressedBytesPerWindow env"
    "0 < maxDecodedBytesPerWindow env \<Longrightarrow> cb_decodedBytes (byClass gs cls) + u \<le> maxDecodedBytesPerWindow env"
proof (cases sizes)
  case None
  then show thesis using assms by (simp add: refusal_def)
next
  case (Some sz)
  obtain c u where sz: "sz = (c, u)" by (cases sz)
  show thesis
  proof (rule that)
    show "sizes = Some (c, u)" using Some sz by simp
  qed (use assms Some sz in \<open>auto simp: refusal_def frame_limit_def Let_def split: if_split_asm\<close>)
qed

lemma budget_ok_iff:
  "budget_ok env cls b \<longleftrightarrow> (guardMode env = Enforce \<longrightarrow>
     (frame_limit env cls > 0 \<longrightarrow> cb_frames b \<le> frame_limit env cls) \<and>
     (maxCompressedBytesPerWindow env > 0 \<longrightarrow> cb_compressedBytes b \<le> maxCompressedBytesPerWindow env) \<and>
     (maxDecodedBytesPerWindow env > 0 \<longrightarrow> cb_decodedBytes b \<le> maxDecodedBytesPerWindow env))"
  by (simp add: budget_ok_def frame_limit_def Let_def)

lemma state_ok_admit:
  assumes ok: "state_ok env gs" and fits: "guardMode env = Enforce \<Longrightarrow> refusal env cls sizes gs = None"
  shows "state_ok env ((case sizes of Some sz \<Rightarrow> charge_frame cls sz gs | None \<Rightarrow> gs)\<lparr>gs_pendingWork := gs_pendingWork gs + 1\<rparr>)"
proof (cases "guardMode env")
  case Observe
  then show ?thesis using ok by (cases sizes) (simp_all add: state_ok_def budget_ok_iff charge_frame_def Let_def)
next
  case Enforce
  obtain c u where fit: "sizes = Some (c, u)" "0 < maxPendingWork env \<Longrightarrow> gs_pendingWork gs < maxPendingWork env"
    "0 < frame_limit env cls \<Longrightarrow> cb_frames (byClass gs cls) < frame_limit env cls"
    "0 < maxCompressedBytesPerWindow env \<Longrightarrow> cb_compressedBytes (byClass gs cls) + c \<le> maxCompressedBytesPerWindow env"
    "0 < maxDecodedBytesPerWindow env \<Longrightarrow> cb_decodedBytes (byClass gs cls) + u \<le> maxDecodedBytesPerWindow env"
    by (rule refusal_None[OF fits[OF Enforce]]) blast
  have "budget_ok env k (byClass (charge_frame cls (c, u) gs) k)" for k
    using ok fit(3-5) by (cases "k = cls") (auto simp: state_ok_def budget_ok_iff charge_frame_def Let_def)
  then show ?thesis using ok fit(1,2) by (auto simp: state_ok_def charge_frame_def Let_def)
qed

subsection \<open>Counts\<close>

lemma live_of_nonneg: "0 \<le> live_of s x"
  by (simp add: live_of_def)

lemma outstanding_nonneg: "0 \<le> outstanding gone x"
  by (simp add: outstanding_def)

lemma outstanding_close:
  "s \<notin> set gone \<Longrightarrow> tally (outstanding (s # gone)) xs = tally (outstanding gone) xs - tally (live_of s) xs"
  by (induction xs) (auto simp: tally_def outstanding_def live_of_def)

lemma live_le_outstanding: "s \<notin> set gone \<Longrightarrow> tally (live_of s) xs \<le> tally (outstanding gone) xs"
  by (rule tally_mono) (simp add: outstanding_def live_of_def)

lemma outstanding_again: "s \<in> set gone \<Longrightarrow> outstanding (s # gone) = outstanding gone"
  by (auto simp: outstanding_def fun_eq_iff)

lemma counts_cong:
  assumes "counts_ok gone st" and "pendingWorkBySocketId st' = pendingWorkBySocketId st" "ig_pendingWork st' = ig_pendingWork st"
    "admissions st' = admissions st" "\<And>s. jm_has (budgetKeyBySocketId st) s \<Longrightarrow> jm_has (budgetKeyBySocketId st') s"
  shows "counts_ok gone st'"
  using assms by (simp add: counts_ok_def)

lemma counts_admit:
  assumes ok: "counts_ok gone st" and s: "s \<notin> set gone" "jm_has (budgetKeyBySocketId st) s"
  shows "counts_ok gone (snd (admit_frame s cls sizes h st))"
  using assms by (auto simp: counts_ok_def admit_frame_def Let_def live_of_def outstanding_def)

lemma counts_release:
  assumes ok: "counts_ok gone st" and t: "t < length (admissions st)"
  shows "counts_ok gone (releaseAdmission t st)"
proof (cases "ad_released (admissions st ! t)")
  case True
  then show ?thesis using ok by (simp add: releaseAdmission_def Let_def)
next
  case False
  let ?ad = "admissions st ! t" and ?xs = "admissions st"
  let ?s = "ad_socketId ?ad" and ?xs' = "?xs[t := ?ad\<lparr>ad_released := True\<rparr>]"
  have live: "tally (live_of k) ?xs' = tally (live_of k) ?xs - (if k = ?s then 1 else 0)" for k
    using t False by (simp add: tally_update live_of_def)
  have out: "tally (outstanding gone) ?xs' = tally (outstanding gone) ?xs - (if ?s \<in> set gone then 0 else 1)"
    using t False by (simp add: tally_update outstanding_def)
  have one: "1 \<le> tally (live_of ?s) ?xs" using tally_ge[of "live_of ?s" t ?xs, OF live_of_nonneg t] False by (simp add: live_of_def)
  have wf: "cnt_wf (pendingWorkBySocketId st)" and
    cnt: "\<And>k. cnt_get (pendingWorkBySocketId st) k = (if k \<in> set gone then 0 else tally (live_of k) ?xs)"
    using ok by (auto simp: counts_ok_def)
  show ?thesis
  proof (cases "jm_get (pendingWorkBySocketId st) ?s")
    case None
    then have "?s \<in> set gone" using cnt[of ?s] one by (auto simp: cnt_get_def split: if_splits)
    then show ?thesis using ok None False live out by (auto simp: counts_ok_def releaseAdmission_def Let_def)
  next
    case (Some n)
    have n: "0 < n" "n = cnt_get (pendingWorkBySocketId st) ?s" using wf Some by (auto simp: cnt_wf_def cnt_get_def)
    then have s: "?s \<notin> set gone" "n = tally (live_of ?s) ?xs" using cnt[of ?s] by (auto split: if_splits)
    have f: "admissions (releaseAdmission t st) = ?xs'" "ig_pendingWork (releaseAdmission t st) = max 0 (ig_pendingWork st - 1)"
      "pendingWorkBySocketId (releaseAdmission t st) = decrementCounter (pendingWorkBySocketId st) ?s"
      "budgetKeyBySocketId (releaseAdmission t st) = budgetKeyBySocketId st"
      using False Some by (auto simp: releaseAdmission_def Let_def decrementCounter_def)
    have "cnt_get (decrementCounter (pendingWorkBySocketId st) ?s) k = (if k \<in> set gone then 0 else tally (live_of k) ?xs')" for k
      using cnt[of k] s n(1) live[of k] by auto
    moreover have "max 0 (ig_pendingWork st - 1) = tally (outstanding gone) ?xs'"
      using ok out s(1) live_le_outstanding[OF s(1), of ?xs] one by (simp add: counts_ok_def)
    moreover have "jm_has (budgetKeyBySocketId st) k" if "0 < cnt_get (decrementCounter (pendingWorkBySocketId st) ?s) k" for k
      using that ok n by (auto simp: counts_ok_def split: if_splits)
    ultimately show ?thesis using wf unfolding counts_ok_def f by simp
  qed
qed

subsection \<open>Preservation\<close>

lemma charge_frame_pending [simp]: "gs_pendingWork (charge_frame cls sz gs) = gs_pendingWork gs"
  by (simp add: charge_frame_def Let_def)

lemma keys_cong:
  assumes "keys_ok p st" and "budgetKeyBySocketId st' = budgetKeyBySocketId st" "socketsByBudgetKey st' = socketsByBudgetKey st"
    "stateByKey st' = stateByKey st" "length (ig_states st') = length (ig_states st)"
    "\<And>x. x \<in> set (admissions st') \<Longrightarrow> x \<in> set (admissions st) \<or> ad_state x < length (ig_states st)"
  shows "keys_ok p st'"
  using assms by (auto simp: keys_ok_def)

lemma guard_inv_admit_frame:
  assumes k: "keys_ok None st" and c: "counts_ok gone st" and b: "states_ok env st" and h: "h < length (ig_states st)"
    and s: "s \<notin> set gone" "jm_has (budgetKeyBySocketId st) s"
    and fits: "guardMode env = Enforce \<Longrightarrow> refusal env cls sizes (ig_states st ! h) = None"
  shows "keys_ok None (snd (admit_frame s cls sizes h st)) \<and> counts_ok gone (snd (admit_frame s cls sizes h st)) \<and>
    states_ok env (snd (admit_frame s cls sizes h st))"
proof (intro conjI)
  show "keys_ok None (snd (admit_frame s cls sizes h st))"
    by (rule keys_cong[OF k]) (use h in \<open>auto simp: admit_frame_def Let_def\<close>)
  show "counts_ok gone (snd (admit_frame s cls sizes h st))" by (rule counts_admit[OF c s])
  have eq: "ig_states (snd (admit_frame s cls sizes h st)) = (ig_states st)[h :=
      (case sizes of Some sz \<Rightarrow> charge_frame cls sz (ig_states st ! h) | None \<Rightarrow> ig_states st ! h)\<lparr>gs_pendingWork := gs_pendingWork (ig_states st ! h) + 1\<rparr>]"
    by (simp add: admit_frame_def Let_def split: option.split)
  from state_ok_admit[OF states_ok_nth[OF b h] fits] show "states_ok env (snd (admit_frame s cls sizes h st))"
    by (rule states_ok_update[OF b _ eq])
qed

lemma noteRejected_frame [simp]:
  "stateByKey (noteRejected ev reason sz st) = stateByKey st"
  "ig_states (noteRejected ev reason sz st) = ig_states st"
  "budgetKeyBySocketId (noteRejected ev reason sz st) = budgetKeyBySocketId st"
  "socketsByBudgetKey (noteRejected ev reason sz st) = socketsByBudgetKey st"
  "pendingWorkBySocketId (noteRejected ev reason sz st) = pendingWorkBySocketId st"
  "ig_pendingWork (noteRejected ev reason sz st) = ig_pendingWork st"
  "admissions (noteRejected ev reason sz st) = admissions st"
  by (simp_all add: noteRejected_def Let_def split: guard_reason.split)

lemma state_ok_violations [simp]: "state_ok env (gs\<lparr>consecutiveViolations := v\<rparr>) = state_ok env gs"
  by (simp add: state_ok_def)

lemma refusal_violations [simp]: "refusal env cls sizes (gs\<lparr>consecutiveViolations := v\<rparr>) = refusal env cls sizes gs"
  by (cases sizes) (simp_all add: refusal_def Let_def case_prod_beta)

text \<open>Two states that agree on what the invariant reads, but for the violations counted in one guard state.\<close>

lemma guard_parts_violations:
  assumes "keys_ok None st \<and> counts_ok gone st \<and> states_ok env st" and h: "h < length (ig_states st)"
    and "ig_states st' = (ig_states st)[h := (ig_states st ! h)\<lparr>consecutiveViolations := v\<rparr>]"
    "budgetKeyBySocketId st' = budgetKeyBySocketId st" "socketsByBudgetKey st' = socketsByBudgetKey st" "stateByKey st' = stateByKey st"
    "pendingWorkBySocketId st' = pendingWorkBySocketId st" "ig_pendingWork st' = ig_pendingWork st" "admissions st' = admissions st"
  shows "keys_ok None st' \<and> counts_ok gone st' \<and> states_ok env st'"
proof (intro conjI)
  show "keys_ok None st'" by (rule keys_cong[of None st]) (use assms in auto)
  show "counts_ok gone st'" by (rule counts_cong[of gone st]) (use assms in auto)
  show "states_ok env st'" by (rule states_ok_update[of env st _ st' h]) (use assms states_ok_nth[of env st h] in auto)
qed

lemma guard_inv_admit:
  assumes inv: "keys_ok None st \<and> counts_ok gone st \<and> states_ok env st" and s: "s \<notin> set gone"
  shows "keys_ok None (snd (admitAgentInboundFrame env ar now s ev sizes st)) \<and>
    counts_ok gone (snd (admitAgentInboundFrame env ar now s ev sizes st)) \<and> states_ok env (snd (admitAgentInboundFrame env ar now s ev sizes st))"
proof -
  let ?key = "resolveBudgetKey ar s" and ?cls = "classifyEvent ev"
  let ?t = "trackSocketBudgetKey s ?key st"
  obtain h st1 where g: "getOrCreateGuardState ?key now ?t = (h, st1)" by (cases "getOrCreateGuardState ?key now ?t")
  have kt: "keys_ok (Some ?key) ?t" using inv by (intro track_keys) simp
  note cr = state_created[OF kt g]
  have has: "jm_has (budgetKeyBySocketId st1) s" by (simp add: cr(3))
  have keep: "jm_has (budgetKeyBySocketId st1) x" if "jm_has (budgetKeyBySocketId st) x" for x
    using that unfolding cr(3) by simp
  have "counts_ok gone st1"
    by (rule counts_cong[of gone st, OF _ _ _ _ keep]) (use inv in \<open>simp_all add: cr(4-6)\<close>)
  moreover have "states_ok env st1"
    using inv kt by (intro states_created[OF _ _ g]) (auto simp: states_ok_def keys_ok_def)
  ultimately have p1: "keys_ok None st1 \<and> counts_ok gone st1 \<and> states_ok env st1" using cr(1) by simp
  let ?gs = "ig_states st1 ! h"
  have fin: "keys_ok None (snd (admit_frame s ?cls sizes h st2)) \<and> counts_ok gone (snd (admit_frame s ?cls sizes h st2)) \<and>
      states_ok env (snd (admit_frame s ?cls sizes h st2))"
    if p2: "keys_ok None st2 \<and> counts_ok gone st2 \<and> states_ok env st2" and f: "ig_states st2 = (ig_states st1)[h := ?gs\<lparr>consecutiveViolations := v\<rparr>]"
      "budgetKeyBySocketId st2 = budgetKeyBySocketId st1" "guardMode env = Enforce \<Longrightarrow> refusal env ?cls sizes ?gs = None" for st2 v
    using p2 cr(2) s has f by (intro guard_inv_admit_frame) auto
  show ?thesis
  proof (cases "refusal env ?cls sizes ?gs")
    case None
    let ?st2 = "st1\<lparr>ig_states := (ig_states st1)[h := ?gs\<lparr>consecutiveViolations := 0\<rparr>]\<rparr>"
    have "keys_ok None ?st2 \<and> counts_ok gone ?st2 \<and> states_ok env ?st2" by (rule guard_parts_violations[OF p1 cr(2)]) auto
    from fin[OF this, of 0] show ?thesis using None by (simp add: admitAgentInboundFrame_def g Let_def)
  next
    case (Some reason)
    let ?v = "consecutiveViolations ?gs + 1"
    let ?st2 = "(noteRejected ev reason (case sizes of Some sz \<Rightarrow> sz | None \<Rightarrow> (0, 0)) st1)\<lparr>ig_states := (ig_states st1)[h := ?gs\<lparr>consecutiveViolations := ?v\<rparr>]\<rparr>"
    define dc where "dc \<longleftrightarrow> guardMode env = Enforce \<and> violationsBeforeDisconnect env > 0 \<and> ?v \<ge> violationsBeforeDisconnect env"
    define st3 where "st3 = (if dc then ?st2\<lparr>violationDisconnectTotal := violationDisconnectTotal ?st2 + 1\<rparr> else ?st2)"
    have p3: "keys_ok None st3 \<and> counts_ok gone st3 \<and> states_ok env st3"
      by (rule guard_parts_violations[OF p1 cr(2)]) (auto simp: st3_def)
    have eq: "admitAgentInboundFrame env ar now s ev sizes st =
      (if guardMode env = Enforce then (Refused reason dc, st3) else if sizes = None then (AdmittedUnchecked, st3)
       else admit_frame s ?cls sizes h st3)"
      using Some by (simp add: admitAgentInboundFrame_def g Let_def dc_def st3_def)
    have "ig_states st3 = (ig_states st1)[h := ?gs\<lparr>consecutiveViolations := ?v\<rparr>]" "budgetKeyBySocketId st3 = budgetKeyBySocketId st1"
      by (auto simp: st3_def)
    note fin[OF p3 this]
    then show ?thesis unfolding eq using p3 by (cases "guardMode env") auto
  qed
qed

subsection \<open>Keys are the sockets' own\<close>

lemma socketBudgetKey_inject [simp]: "socketBudgetKey s = socketBudgetKey s' \<longleftrightarrow> s = s'"
  by (simp add: socketBudgetKey_def)

lemma resolveBudgetKey_own: "resolveBudgetKey ar s = socketBudgetKey s' \<Longrightarrow> s = s'"
  by (auto simp: resolveBudgetKey_def socketBudgetKey_def agentBudgetKey_def split: option.splits if_splits)

lemma own_keysD: "own_keys m \<Longrightarrow> jm_get m s' = Some (socketBudgetKey s) \<Longrightarrow> s' = s"
  unfolding own_keys_def by blast

lemma admit_keys_get:
  assumes "keys_ok None st"
  shows "jm_get (budgetKeyBySocketId (snd (admitAgentInboundFrame env ar now s ev sizes st))) s' =
    (if s' = s then Some (resolveBudgetKey ar s) else jm_get (budgetKeyBySocketId st) s')"
proof -
  let ?key = "resolveBudgetKey ar s"
  let ?t = "trackSocketBudgetKey s ?key st"
  obtain h st1 where g: "getOrCreateGuardState ?key now ?t = (h, st1)" by (cases "getOrCreateGuardState ?key now ?t")
  have "budgetKeyBySocketId st1 = budgetKeyBySocketId ?t" by (rule state_created(3)[OF track_keys[OF assms] g])
  then have eq: "jm_get (budgetKeyBySocketId st1) s' = (if s' = s then Some ?key else jm_get (budgetKeyBySocketId st) s')" by simp
  show ?thesis unfolding eq[symmetric]
    by (simp add: admitAgentInboundFrame_def g Let_def admit_frame_def split: option.split)
qed

lemma own_keys_admit:
  assumes "own_keys (budgetKeyBySocketId st)" and "keys_ok None st"
  shows "own_keys (budgetKeyBySocketId (snd (admitAgentInboundFrame env ar now s ev sizes st)))"
  unfolding own_keys_def admit_keys_get[OF assms(2)]
  using own_keysD[OF assms(1)] resolveBudgetKey_own by (auto split: if_splits)

lemma own_keys_del: "own_keys m \<Longrightarrow> own_keys (jm_del s m)"
  unfolding own_keys_def by auto

subsection \<open>Releasing and disconnecting\<close>

lemma state_ok_less: "state_ok env gs \<Longrightarrow> 0 \<le> n \<Longrightarrow> state_ok env (gs\<lparr>gs_pendingWork := max 0 (gs_pendingWork gs - n)\<rparr>)"
  by (auto simp: state_ok_def)

lemma release_frame [simp]:
  "budgetKeyBySocketId (releaseAdmission t st) = budgetKeyBySocketId st"
  "socketsByBudgetKey (releaseAdmission t st) = socketsByBudgetKey st"
  "stateByKey (releaseAdmission t st) = stateByKey st"
  "length (ig_states (releaseAdmission t st)) = length (ig_states st)"
  by (simp_all add: releaseAdmission_def Let_def split: option.split)

lemma keys_release:
  assumes ok: "keys_ok None st" and t: "t < length (admissions st)"
  shows "keys_ok None (releaseAdmission t st)"
proof (rule keys_cong[OF ok])
  fix x assume "x \<in> set (admissions (releaseAdmission t st))"
  moreover have "admissions (releaseAdmission t st) = admissions st \<or>
      admissions (releaseAdmission t st) = (admissions st)[t := (admissions st ! t)\<lparr>ad_released := True\<rparr>]"
    by (simp add: releaseAdmission_def Let_def split: option.split)
  ultimately have "x \<in> set (admissions st) \<or> x = (admissions st ! t)\<lparr>ad_released := True\<rparr>"
    using set_update_subset_insert[of "admissions st" t "(admissions st ! t)\<lparr>ad_released := True\<rparr>"] by auto
  moreover have "ad_state (admissions st ! t) < length (ig_states st)" using ok t by (simp add: keys_ok_def)
  ultimately show "x \<in> set (admissions st) \<or> ad_state x < length (ig_states st)" by auto
qed simp_all

lemma states_release:
  assumes ok: "states_ok env st" and k: "keys_ok None st" and t: "t < length (admissions st)"
  shows "states_ok env (releaseAdmission t st)"
proof -
  let ?h = "ad_state (admissions st ! t)"
  have h: "?h < length (ig_states st)" using k t by (simp add: keys_ok_def)
  note upd = states_ok_update[OF ok state_ok_less[OF states_ok_nth[OF ok h], of 1]]
  have "ig_states (releaseAdmission t st) = ig_states st \<or> ig_states (releaseAdmission t st) =
      (ig_states st)[?h := (ig_states st ! ?h)\<lparr>gs_pendingWork := max 0 (gs_pendingWork (ig_states st ! ?h) - 1)\<rparr>]"
    by (simp add: releaseAdmission_def Let_def split: option.split)
  then show ?thesis using upd ok by (auto simp: states_ok_def)
qed

lemma covered_del: "covered None m states \<Longrightarrow> (\<And>s. jm_get m s \<noteq> Some k) \<Longrightarrow> covered None m (jm_del k states)"
  unfolding covered_def by auto

lemma covered_same_has: "covered p m states \<Longrightarrow> (\<And>k. jm_has states k = jm_has states' k) \<Longrightarrow> covered p m states'"
  unfolding covered_def by simp

definition key_of :: "string \<Rightarrow> ingress \<Rightarrow> string" where
  "key_of s st = (case jm_get (budgetKeyBySocketId st) s of Some k \<Rightarrow> k | None \<Rightarrow> socketBudgetKey s)"

lemma cleanup_fields:
  fixes s :: string and st :: ingress
  defines "st' \<equiv> cleanupAgentInboundIngressSocket s st" and "key \<equiv> key_of s st"
  shows "budgetKeyBySocketId st' = jm_del s (budgetKeyBySocketId st)"
    "socketsByBudgetKey st' = removeIndexValue (socketsByBudgetKey st) key s"
    "pendingWorkBySocketId st' = jm_del s (pendingWorkBySocketId st)"
    "admissions st' = admissions st"
    "length (ig_states st') = length (ig_states st)"
    "jm_get (stateByKey st') k = (if k = socketBudgetKey s \<or> (k = key \<and> \<not> jm_has (removeIndexValue (socketsByBudgetKey st) key s) key)
       then None else jm_get (stateByKey st) k)"
  unfolding st'_def key_def key_of_def cleanupAgentInboundIngressSocket_def Let_def
  by (simp_all split: option.split)

lemma cnt_get_del [simp]: "cnt_get (jm_del k c) k' = (if k' = k then 0 else cnt_get c k')"
  by (simp add: cnt_get_def)

lemma cnt_wf_del [simp]: "cnt_wf c \<Longrightarrow> cnt_wf (jm_del k c)"
  by (auto simp: cnt_wf_def split: if_splits)

lemma keys_cleanup:
  assumes ok: "keys_ok None st" and own: "own_keys (budgetKeyBySocketId st)"
  shows "keys_ok None (cleanupAgentInboundIngressSocket s st)"
proof -
  let ?m = "budgetKeyBySocketId st" and ?idx = "socketsByBudgetKey st" and ?st' = "cleanupAgentInboundIngressSocket s st"
  let ?key = "key_of s st"
  have idx: "index_ok Some ?m ?idx" and cov: "covered None ?m (stateByKey st)"
    and below: "handles_below (stateByKey st) (length (ig_states st))"
    and ads: "\<forall>x \<in> set (admissions st). ad_state x < length (ig_states st)"
    using ok by (auto simp: keys_ok_def)
  have free: "jm_get (jm_del s ?m) s' \<noteq> Some (socketBudgetKey s)" for s' using own_keysD[OF own] by auto
  have "index_ok Some (jm_del s ?m) (removeIndexValue ?idx ?key s) \<and> covered None (jm_del s ?m) (stateByKey ?st')"
  proof (cases "jm_get ?m s")
    case None
    then have m: "jm_del s ?m = ?m" and key: "?key = socketBudgetKey s" by (simp_all add: jm_del_fresh key_of_def)
    have "\<not> jm_has ?idx ?key" using index_has_iff[OF idx] free unfolding m key by auto
    then have "removeIndexValue ?idx ?key s = ?idx" by (cases "jm_get ?idx ?key") (simp_all add: removeIndexValue_def)
    moreover have "covered None ?m (jm_del (socketBudgetKey s) (stateByKey st))"
      using free unfolding m by (intro covered_del[OF cov])
    then have "covered None ?m (stateByKey ?st')"
      by (rule covered_same_has) (simp add: cleanup_fields key)
    ultimately show ?thesis using idx m by simp
  next
    case (Some prev)
    then have key: "?key = prev" by (simp add: key_of_def)
    let ?kept = "if jm_has (removeIndexValue ?idx prev s) prev then stateByKey st else jm_del prev (stateByKey st)"
    have "covered None (jm_del s ?m) ?kept" by (rule covered_drop[OF idx cov Some]) auto
    then have "covered None (jm_del s ?m) (jm_del (socketBudgetKey s) ?kept)" using free by (rule covered_del)
    then have "covered None (jm_del s ?m) (stateByKey ?st')"
      by (rule covered_same_has) (simp add: cleanup_fields key)
    then show ?thesis using index_ok_remove[OF idx Some] key by simp
  qed
  moreover have "handles_below (stateByKey ?st') (length (ig_states st))"
    by (rule handles_below_sub[OF below]) (simp add: cleanup_fields split: if_splits)
  ultimately show ?thesis using ads by (simp add: keys_ok_def cleanup_fields)
qed

lemma states_cleanup:
  assumes ok: "states_ok env st" and k: "keys_ok None st" and w: "cnt_wf (pendingWorkBySocketId st)"
  shows "states_ok env (cleanupAgentInboundIngressSocket s st)"
proof (cases "jm_get (stateByKey st) (key_of s st)")
  case None
  then show ?thesis using ok by (simp add: cleanupAgentInboundIngressSocket_def key_of_def Let_def states_ok_def)
next
  case (Some h)
  have "h < length (ig_states st)" using k Some handles_belowD by (auto simp: keys_ok_def)
  note upd = states_ok_update[OF ok state_ok_less[OF states_ok_nth[OF ok this] cnt_wf_nonneg[OF w]]]
  have "ig_states (cleanupAgentInboundIngressSocket s st) = ig_states st \<or> ig_states (cleanupAgentInboundIngressSocket s st) =
      (ig_states st)[h := (ig_states st ! h)\<lparr>gs_pendingWork := max 0 (gs_pendingWork (ig_states st ! h) - cnt_get (pendingWorkBySocketId st) s)\<rparr>]"
    using Some by (simp add: cleanupAgentInboundIngressSocket_def key_of_def Let_def)
  then show ?thesis using upd ok by (auto simp: states_ok_def)
qed

lemma cleanup_pendingWork:
  assumes k: "keys_ok None st" and c: "counts_ok gone st"
  shows "ig_pendingWork (cleanupAgentInboundIngressSocket s st) =
    (if 0 < cnt_get (pendingWorkBySocketId st) s then max 0 (ig_pendingWork st - cnt_get (pendingWorkBySocketId st) s) else ig_pendingWork st)"
proof (cases "0 < cnt_get (pendingWorkBySocketId st) s")
  case True
  then have "jm_has (budgetKeyBySocketId st) s" using c by (simp add: counts_ok_def)
  then obtain key where key: "jm_get (budgetKeyBySocketId st) s = Some key" by auto
  have "jm_has (stateByKey st) key" using coveredD[OF _ key] k by (auto simp: keys_ok_def)
  then obtain h where "jm_get (stateByKey st) key = Some h" by auto
  then show ?thesis using True key by (simp add: cleanupAgentInboundIngressSocket_def Let_def)
next
  case False
  then show ?thesis by (simp add: cleanupAgentInboundIngressSocket_def Let_def split: option.split)
qed

lemma counts_cleanup:
  assumes k: "keys_ok None st" and c: "counts_ok gone st"
  shows "counts_ok (s # gone) (cleanupAgentInboundIngressSocket s st)"
proof -
  let ?st' = "cleanupAgentInboundIngressSocket s st" and ?n = "cnt_get (pendingWorkBySocketId st) s" and ?xs = "admissions st"
  have cnt: "cnt_get (pendingWorkBySocketId st) x = (if x \<in> set gone then 0 else tally (live_of x) ?xs)" for x
    using c by (simp add: counts_ok_def)
  have pw: "ig_pendingWork st = tally (outstanding gone) ?xs" using c by (simp add: counts_ok_def)
  have "ig_pendingWork ?st' = tally (outstanding (s # gone)) ?xs"
  proof (cases "s \<in> set gone")
    case True
    then show ?thesis using cnt[of s] pw by (simp add: cleanup_pendingWork[OF k c] outstanding_again)
  next
    case False
    have "0 \<le> tally (live_of s) ?xs" by (rule tally_nonneg) (rule live_of_nonneg)
    then show ?thesis using False cnt[of s] pw live_le_outstanding[OF False, of ?xs]
      by (simp add: cleanup_pendingWork[OF k c] outstanding_close)
  qed
  then show ?thesis using c cnt unfolding counts_ok_def cleanup_fields by simp
qed

section \<open>What the guard guarantees\<close>

lemma guard_inv_init: "guard_inv env new_guard_run"
  by (simp add: guard_inv_def new_guard_run_def new_ingress_def keys_ok_def covered_def handles_below_def counts_ok_def
      states_ok_def own_keys_def)

lemma guard_inv_step:
  assumes inv: "guard_inv env g" and step: "guard_step env g g'"
  shows "guard_inv env g'"
  using step
proof cases
  case (gd_frame s sizes ar now ev)
  then show ?thesis using inv guard_inv_admit[of "gr_ingress g" "gr_closed g" env s] own_keys_admit
    by (simp add: guard_inv_def)
next
  case (gd_release t)
  then show ?thesis using inv keys_release counts_release states_release by (simp add: guard_inv_def)
next
  case (gd_close s)
  have "cnt_wf (pendingWorkBySocketId (gr_ingress g))" using inv by (simp add: guard_inv_def counts_ok_def)
  then show ?thesis using gd_close inv keys_cleanup counts_cleanup states_cleanup own_keys_del
    by (simp add: guard_inv_def cleanup_fields(1))
qed

interpretation ingress_guard: invariant_system new_guard_run "guard_step env" "guard_inv env" for env
  by unfold_locales (rule guard_inv_init, rule guard_inv_step)

lemma tally_live_of: "tally (live_of s) xs = int (length (filter (\<lambda>x. \<not> ad_released x \<and> ad_socketId x = s) xs))"
  by (induction xs) (auto simp: tally_def live_of_def)

lemma tally_outstanding: "tally (outstanding gone) xs = int (length (filter (\<lambda>x. \<not> ad_released x \<and> ad_socketId x \<notin> set gone) xs))"
  by (induction xs) (auto simp: tally_def outstanding_def)


definition sample_guard_env :: guard_env where
  "sample_guard_env = \<lparr>guardMode = Enforce, maxFramesPerWindow = 2, maxAckFramesPerWindow = 1, maxCompressedBytesPerWindow = 100,
     maxDecodedBytesPerWindow = 200, maxPendingWork = 3, violationsBeforeDisconnect = 1\<rparr>"

definition sample_chunk :: "string \<Rightarrow> int \<Rightarrow> guard_run \<Rightarrow> guard_run" where
  "sample_chunk s now g = g\<lparr>gr_ingress :=
     snd (admitAgentInboundFrame sample_guard_env sample_agents now s RpcChunk (Some (10, 20)) (gr_ingress g))\<rparr>"

definition sample_release :: "nat \<Rightarrow> guard_run \<Rightarrow> guard_run" where
  "sample_release t g = g\<lparr>gr_ingress := releaseAdmission t (gr_ingress g)\<rparr>"

definition sample_close :: "string \<Rightarrow> guard_run \<Rightarrow> guard_run" where
  "sample_close s g = g\<lparr>gr_ingress := cleanupAgentInboundIngressSocket s (gr_ingress g), gr_closed := s # gr_closed g\<rparr>"

text \<open>Two chunks of an agent and one of a socket that is not registered are admitted; a chunk is released and the other
  socket disconnects.\<close>

definition sample_chunks :: guard_run where
  "sample_chunks = sample_chunk ''s9'' 7 (sample_chunk ''s1'' 6 (sample_chunk ''s1'' 5 new_guard_run))"

definition sample_guard_run :: guard_run where
  "sample_guard_run = sample_close ''s9'' (sample_release 0 sample_chunks)"

lemma sample_chunk_reach:
  assumes "reachable new_guard_run (guard_step sample_guard_env) g" and "s \<notin> set (gr_closed g)"
  shows "reachable new_guard_run (guard_step sample_guard_env) (sample_chunk s now g)"
proof -
  have "guard_step sample_guard_env g (sample_chunk s now g)"
    unfolding sample_chunk_def by (rule guard_step.gd_frame) (use assms(2) in \<open>simp_all add: sizes_ok_def\<close>)
  with assms(1) show ?thesis by (rule reachable.reach_step)
qed

lemma sample_guard_run_reachable: "reachable new_guard_run (guard_step sample_guard_env) sample_guard_run"
proof -
  have "gr_closed (sample_chunk s now g) = gr_closed g" for s now g by (simp add: sample_chunk_def)
  then have "reachable new_guard_run (guard_step sample_guard_env) sample_chunks" unfolding sample_chunks_def
    by (intro sample_chunk_reach reachable.reach_init) (simp_all add: new_guard_run_def)
  moreover have "0 < length (admissions (gr_ingress sample_chunks))" by code_simp
  then have "guard_step sample_guard_env sample_chunks (sample_release 0 sample_chunks)"
    unfolding sample_release_def by (rule guard_step.gd_release)
  moreover have "guard_step sample_guard_env g (sample_close s g)" for s g
    unfolding sample_close_def by (rule guard_step.gd_close)
  ultimately show ?thesis unfolding sample_guard_run_def by (blast intro: reachable.reach_step)
qed


end
