(* ===== verification/Json_Text.thy ===== *)
theory Json_Text
  imports Complex_Main "HOL-Library.Word" Prelude
begin

text \<open>
  What the code uses of JSON and of strings: decoded JSON values, \<^verbatim>\<open>JSON.stringify\<close>, \<^verbatim>\<open>Buffer.byteLength\<close> and \<^verbatim>\<open>String\<close>.

  A JavaScript string is a sequence of UTF-16 code units, so a string is a list of 16-bit words and a
  character outside the basic plane is a surrogate pair. Objects are association lists with the properties in insertion order.
  How a finite number is printed is a parameter; all the code relies on is that the text is ASCII.
\<close>

section \<open>Strings\<close>

type_synonym ustring = "16 word list"

definition ustr :: "string \<Rightarrow> ustring" where
  "ustr s = map (\<lambda>c. of_nat (of_char c)) s"

definition high_surrogate :: "16 word \<Rightarrow> bool" where
  "high_surrogate c \<longleftrightarrow> 0xD800 \<le> c \<and> c \<le> 0xDBFF"

definition low_surrogate :: "16 word \<Rightarrow> bool" where
  "low_surrogate c \<longleftrightarrow> 0xDC00 \<le> c \<and> c \<le> 0xDFFF"

text \<open>\<^verbatim>\<open>Buffer.byteLength\<close>: the bytes of the UTF-8 encoding. A lone surrogate becomes the three-byte replacement character.\<close>

definition unit_len :: "16 word \<Rightarrow> nat" where
  "unit_len c = (if c < 0x80 then 1 else if c < 0x800 then 2 else 3)"

fun utf8_len :: "ustring \<Rightarrow> nat" where
  "utf8_len [] = 0"
| "utf8_len [c] = unit_len c"
| "utf8_len (c # d # s) =
     (if high_surrogate c \<and> low_surrogate d then 4 + utf8_len s else unit_len c + utf8_len (d # s))"

definition hex_digit :: "nat \<Rightarrow> 16 word" where
  "hex_digit n = of_nat (if n < 10 then 48 + n else 87 + n)"

definition hex4 :: "16 word \<Rightarrow> ustring" where
  "hex4 c = [hex_digit (unat c div 4096), hex_digit (unat c div 256 mod 16), hex_digit (unat c div 16 mod 16), hex_digit (unat c mod 16)]"

text \<open>How \<^verbatim>\<open>JSON.stringify\<close> writes one code unit that is not part of a surrogate pair.\<close>

definition escape_unit :: "16 word \<Rightarrow> ustring" where
  "escape_unit c =
     (if c = 0x22 then [0x5C, 0x22] else if c = 0x5C then [0x5C, 0x5C]
      else if c = 8 then ustr [CHR 0x5C, CHR ''b''] else if c = 9 then ustr [CHR 0x5C, CHR ''t'']
      else if c = 10 then ustr [CHR 0x5C, CHR ''n''] else if c = 12 then ustr [CHR 0x5C, CHR ''f'']
      else if c = 13 then ustr [CHR 0x5C, CHR ''r'']
      else if c < 0x20 \<or> high_surrogate c \<or> low_surrogate c then ustr [CHR 0x5C, CHR ''u''] @ hex4 c
      else [c])"

fun json_escape :: "ustring \<Rightarrow> ustring" where
  "json_escape [] = []"
| "json_escape [c] = escape_unit c"
| "json_escape (c # d # s) =
     (if high_surrogate c \<and> low_surrogate d then c # d # json_escape s else escape_unit c @ json_escape (d # s))"

definition json_quote :: "ustring \<Rightarrow> ustring" where
  "json_quote s = 0x22 # json_escape s @ [0x22]"

text \<open>\<^verbatim>\<open>String.prototype.trim\<close>.\<close>

definition js_space :: "16 word \<Rightarrow> bool" where
  "js_space c \<longleftrightarrow> c \<in> set [9, 10, 11, 12, 13, 32, 160, 5760, 8232, 8233, 8239, 8287, 12288, 65279] \<or> (8192 \<le> c \<and> c \<le> 8202)"

definition u_trim :: "ustring \<Rightarrow> ustring" where
  "u_trim s = rev (dropWhile js_space (rev (dropWhile js_space s)))"

section \<open>Values\<close>

text \<open>\<^verbatim>\<open>JSON.parse\<close> yields an infinite number for a literal like 1e999 or -1e999.\<close>

datatype jvalue = JvNull | JvBool bool | JvNum rat | JvInf bool | JvStr ustring | JvArr "jvalue list" | JvObj "(ustring \<times> jvalue) list"

type_synonym jobject = "(ustring, jvalue) jsmap"

definition jfield :: "jobject \<Rightarrow> string \<Rightarrow> jvalue option" where
  "jfield ob k = jm_get ob (ustr k)"

definition arr_of :: "jvalue option \<Rightarrow> jvalue list option" where
  "arr_of v = (case v of Some (JvArr xs) \<Rightarrow> Some xs | _ \<Rightarrow> None)"

definition str_of :: "jvalue option \<Rightarrow> ustring option" where
  "str_of v = (case v of Some (JvStr s) \<Rightarrow> Some s | _ \<Rightarrow> None)"

fun join_with :: "ustring \<Rightarrow> ustring list \<Rightarrow> ustring" where
  "join_with sep [] = []"
| "join_with sep [t] = t"
| "join_with sep (t # u # ts) = t @ sep @ join_with sep (u # ts)"

definition COMMA :: ustring where "COMMA = [0x2C]"

fun json_text :: "(rat \<Rightarrow> ustring) \<Rightarrow> jvalue \<Rightarrow> ustring" where
  "json_text num JvNull = ustr ''null''"
| "json_text num (JvBool b) = ustr (if b then ''true'' else ''false'')"
| "json_text num (JvNum x) = num x"
| "json_text num (JvInf neg) = ustr ''null''"
| "json_text num (JvStr s) = json_quote s"
| "json_text num (JvArr xs) = 0x5B # join_with COMMA (map (json_text num) xs) @ [0x5D]"
| "json_text num (JvObj fs) = 0x7B # join_with COMMA (map (\<lambda>(k, v). json_quote k @ 0x3A # json_text num v) fs) @ [0x7D]"

definition json_bytes :: "(rat \<Rightarrow> ustring) \<Rightarrow> jvalue \<Rightarrow> int" where
  "json_bytes num v = int (utf8_len (json_text num v))"

text \<open>\<^verbatim>\<open>String(value)\<close>; \<open>None\<close> when it throws. An object whose own \<^verbatim>\<open>toString\<close> is not a function cannot be converted. The elements of an
  array are joined by commas, with nothing for null.\<close>

fun all_some :: "'a option list \<Rightarrow> 'a list option" where
  "all_some [] = Some []"
| "all_some (x # xs) = (case (x, all_some xs) of (Some y, Some ys) \<Rightarrow> Some (y # ys) | _ \<Rightarrow> None)"

fun js_String :: "(rat \<Rightarrow> ustring) \<Rightarrow> jvalue \<Rightarrow> ustring option" where
  "js_String num JvNull = Some (ustr ''null'')"
| "js_String num (JvBool b) = Some (ustr (if b then ''true'' else ''false''))"
| "js_String num (JvNum x) = Some (num x)"
| "js_String num (JvInf neg) = Some (ustr (if neg then ''-Infinity'' else ''Infinity''))"
| "js_String num (JvStr s) = Some s"
| "js_String num (JvArr xs) =
     map_option (join_with COMMA) (all_some (map (\<lambda>x. if x = JvNull then Some [] else js_String num x) xs))"
| "js_String num (JvObj fs) = (if jfield fs ''toString'' = None then Some (ustr ''[object Object]'') else None)"

definition ascii :: "ustring \<Rightarrow> bool" where
  "ascii s \<longleftrightarrow> (\<forall>c \<in> set s. c < 0x80)"

text \<open>The decimal digits of a natural number, as property names of array elements.\<close>

fun nat_text :: "nat \<Rightarrow> ustring" where
  "nat_text n = (if n < 10 then [] else nat_text (n div 10)) @ [of_nat (48 + n mod 10)]"

declare nat_text.simps [simp del]

lemma nat_text_ascii: "ascii (nat_text n)"
proof (induction n rule: nat_text.induct)
  case (1 n)
  have "(of_nat m :: 16 word) < 0x80" if "m < 128" for m
    using that by (simp add: word_less_nat_alt unat_of_nat)
  from this[of "48 + n mod 10"] show ?case using 1 by (subst nat_text.simps) (simp add: ascii_def del: of_nat_add)
qed

section \<open>Byte lengths\<close>

lemma ascii_not_surrogate: "c < 0x80 \<Longrightarrow> \<not> high_surrogate c" "c < 0x80 \<Longrightarrow> \<not> low_surrogate c"
  by (auto simp: high_surrogate_def low_surrogate_def word_less_nat_alt word_le_nat_alt)

lemma utf8_len_Cons_ascii: "c < 0x80 \<Longrightarrow> utf8_len (c # s) = 1 + utf8_len s"
  by (cases s) (auto simp: unit_len_def ascii_not_surrogate)

lemma utf8_len_split: "\<not> low_surrogate d \<Longrightarrow> utf8_len (s @ d # t) = utf8_len s + utf8_len (d # t)"
  by (induction s rule: utf8_len.induct) auto

lemma utf8_len_ascii: "ascii s \<Longrightarrow> utf8_len s = length s"
  by (induction s) (auto simp: ascii_def utf8_len_Cons_ascii)

lemma utf8_len_app_ascii: "ascii t \<Longrightarrow> utf8_len (s @ t) = utf8_len s + length t"
  by (cases t) (auto simp: utf8_len_split utf8_len_ascii ascii_not_surrogate ascii_def utf8_len_Cons_ascii)

lemma utf8_len_join: "utf8_len (join_with COMMA ts) = sum_list (map utf8_len ts) + (length ts - 1)"
proof (induction COMMA ts rule: join_with.induct)
  case (3 t u ts)
  have "utf8_len (t @ COMMA @ join_with COMMA (u # ts)) = utf8_len t + utf8_len (COMMA @ join_with COMMA (u # ts))"
    by (simp add: COMMA_def utf8_len_split low_surrogate_def)
  also have "utf8_len (COMMA @ join_with COMMA (u # ts)) = 1 + utf8_len (join_with COMMA (u # ts))"
    by (simp add: COMMA_def utf8_len_Cons_ascii)
  finally show ?case using 3 by simp
qed simp_all

lemma utf8_len_bracket:
  assumes "a < 0x80" and "b < 0x80"
  shows "utf8_len (a # s @ [b]) = 2 + utf8_len s"
  using assms utf8_len_app_ascii[of "[b]" "a # s"] by (simp add: ascii_def utf8_len_Cons_ascii)

lemma utf8_len_quote: "utf8_len (json_quote s) = 2 + utf8_len (json_escape s)"
  by (simp add: json_quote_def utf8_len_bracket)

lemma utf8_len_arr: "utf8_len (json_text num (JvArr xs)) = 2 + (sum_list (map (\<lambda>x. utf8_len (json_text num x)) xs) + (length xs - 1))"
  by (simp add: utf8_len_bracket utf8_len_join comp_def)

definition field_len :: "(rat \<Rightarrow> ustring) \<Rightarrow> ustring \<times> jvalue \<Rightarrow> nat" where
  "field_len num f = utf8_len (json_quote (fst f)) + 1 + utf8_len (json_text num (snd f))"

lemma utf8_len_field: "utf8_len (json_quote k @ 0x3A # json_text num v) = field_len num (k, v)"
  by (simp add: field_len_def utf8_len_split low_surrogate_def utf8_len_Cons_ascii)

lemma utf8_len_obj: "utf8_len (json_text num (JvObj fs)) = 2 + (sum_list (map (field_len num) fs) + (length fs - 1))"
  by (simp add: utf8_len_bracket utf8_len_join comp_def utf8_len_field case_prod_beta) 

text \<open>A string with no character to escape.\<close>

lemma escape_unit_plain:
  "c \<noteq> 0x22 \<Longrightarrow> c \<noteq> 0x5C \<Longrightarrow> 0x20 \<le> c \<Longrightarrow> \<not> high_surrogate c \<Longrightarrow> \<not> low_surrogate c \<Longrightarrow> escape_unit c = [c]"
  by (auto simp: escape_unit_def word_less_nat_alt word_le_nat_alt)

end
