(* ===== verification/Sql_Chunk_Codec.thy ===== *)
theory Sql_Chunk_Codec
  imports Json_Text
begin

text \<open>
  \<^verbatim>\<open>infrastructure/codecs/sql_stream_chunk_inspection.ts\<close> and \<^verbatim>\<open>sql_stream_chunk_codec.ts\<close>: validation of a SQL stream chunk, whose
  rows come as objects or as column vectors, and the expansion of the columnar form to rows under a budget of JSON bytes that
  is computed without building the rows.
\<close>

section \<open>Inspection\<close>

record sql_column =
  col_name :: ustring
  col_values :: "jvalue list"

text \<open>Valid with the number of rows and, for a columnar chunk, its columns; invalid; or an exception of \<^verbatim>\<open>String(column.type)\<close>.\<close>

datatype inspection = InspectOk int "sql_column list option" | InspectFail string | InspectThrows

datatype column_check = ColOk sql_column | ColBad | ColThrows

definition safe_count :: "jvalue option \<Rightarrow> int option" where
  "safe_count v = (case v of
     Some (JvNum x) \<Rightarrow> if of_int \<lfloor>x\<rfloor> = x \<and> 0 \<le> \<lfloor>x\<rfloor> \<and> \<lfloor>x\<rfloor> \<le> MAX_SAFE_INTEGER then Some \<lfloor>x\<rfloor> else None
   | _ \<Rightarrow> None)"

definition column_types :: "ustring list" where
  "column_types = map ustr [''int32'', ''int64'', ''float64'', ''object'']"

definition type_text :: "(rat \<Rightarrow> ustring) \<Rightarrow> jvalue option \<Rightarrow> ustring option" where
  "type_text num v = (case v of None \<Rightarrow> Some (ustr ''undefined'') | Some w \<Rightarrow> js_String num w)"

definition inspect_column :: "(rat \<Rightarrow> ustring) \<Rightarrow> int \<Rightarrow> jvalue \<Rightarrow> column_check" where
  "inspect_column num cnt column =
     (case column of
        JvObj fs \<Rightarrow>
          (case str_of (jfield fs ''name'') of
             None \<Rightarrow> ColBad
           | Some name \<Rightarrow>
               (case type_text num (jfield fs ''type'') of
                  None \<Rightarrow> ColThrows
                | Some t \<Rightarrow>
                    if t \<notin> set column_types then ColBad
                    else case arr_of (jfield fs ''values'') of
                           None \<Rightarrow> ColBad
                         | Some vs \<Rightarrow> if int (length vs) \<noteq> cnt then ColBad else ColOk \<lparr>col_name = name, col_values = vs\<rparr>))
      | _ \<Rightarrow> ColBad)"

fun inspect_columns :: "(rat \<Rightarrow> ustring) \<Rightarrow> int \<Rightarrow> jvalue list \<Rightarrow> (ustring, sql_column) jsmap \<Rightarrow> inspection" where
  "inspect_columns num cnt [] selected = InspectOk cnt (Some (map snd selected))"
| "inspect_columns num cnt (column # rest) selected =
     (case inspect_column num cnt column of
        ColBad \<Rightarrow> InspectFail ''rpc:chunk columnar vector is invalid''
      | ColThrows \<Rightarrow> InspectThrows
      | ColOk col \<Rightarrow> inspect_columns num cnt rest (jm_set (col_name col) col selected))"

definition inspectSqlStreamChunk :: "(rat \<Rightarrow> ustring) \<Rightarrow> jobject \<Rightarrow> inspection" where
  "inspectSqlStreamChunk num chunk =
     (case arr_of (jfield chunk ''rows'') of
        None \<Rightarrow> InspectFail ''rpc:chunk rows must be an array''
      | Some rows \<Rightarrow>
          if rows \<noteq> [] \<or> jfield chunk ''columnar'' = None then InspectOk (int (length rows)) None
          else case jfield chunk ''columnar'' of
                 Some (JvObj columnar) \<Rightarrow>
                   (case (safe_count (jfield columnar ''row_count''), arr_of (jfield columnar ''columns'')) of
                      (Some cnt, Some columns) \<Rightarrow> inspect_columns num cnt columns []
                    | _ \<Rightarrow> InspectFail ''rpc:chunk columnar row_count and columns are invalid'')
               | _ \<Rightarrow> InspectFail ''rpc:chunk columnar must be an object'')"

text \<open>\<open>None\<close> when the inspection throws.\<close>

definition countSqlChunkRows :: "(rat \<Rightarrow> ustring) \<Rightarrow> jobject \<Rightarrow> int option" where
  "countSqlChunkRows num chunk =
     (let inspected = (case inspectSqlStreamChunk num chunk of InspectOk n _ \<Rightarrow> Some n | InspectFail _ \<Rightarrow> Some 0 | InspectThrows \<Rightarrow> None)
      in case arr_of (jfield chunk ''rows'') of
           Some rows \<Rightarrow> if rows \<noteq> [] \<or> jfield chunk ''columnar'' = None then Some (int (length rows)) else inspected
         | None \<Rightarrow> inspected)"

section \<open>Expansion\<close>

text \<open>One row. The code defines own properties, also for names like \<^verbatim>\<open>__proto__\<close>, so a row has exactly the names of the columns.\<close>

definition expand_row :: "sql_column list \<Rightarrow> nat \<Rightarrow> jobject" where
  "expand_row columns index = fold (\<lambda>column row. jm_set (col_name column) (col_values column ! index) row) columns []"

definition expandInspectedSqlChunkRows :: "int \<Rightarrow> sql_column list \<Rightarrow> jobject list" where
  "expandInspectedSqlChunkRows rowCount columns = map (expand_row columns) [0..<nat rowCount]"

datatype codec_error = InvalidChunk string | TooManyRows | TooManyBytes | CodecTypeError

definition readSqlChunkRows :: "(rat \<Rightarrow> ustring) \<Rightarrow> jobject \<Rightarrow> codec_error + jvalue list" where
  "readSqlChunkRows num chunk =
     (if jfield chunk ''columnar'' = None
      then Inr (case arr_of (jfield chunk ''rows'') of Some rows \<Rightarrow> rows | None \<Rightarrow> [])
      else case inspectSqlStreamChunk num chunk of
             InspectThrows \<Rightarrow> Inl CodecTypeError
           | InspectFail message \<Rightarrow> Inl (InvalidChunk message)
           | InspectOk _ None \<Rightarrow> Inr (case arr_of (jfield chunk ''rows'') of Some rows \<Rightarrow> rows | None \<Rightarrow> [])
           | InspectOk rowCount (Some columns) \<Rightarrow> Inr (map JvObj (expandInspectedSqlChunkRows rowCount columns)))"

section \<open>Sizes\<close>

text \<open>The scan of \<^verbatim>\<open>jsonStringBytes\<close>: whether the text needs no escape. A code unit after the end reads as NaN, which is in no range.\<close>

fun needs_no_escape :: "ustring \<Rightarrow> bool" where
  "needs_no_escape [] = True"
| "needs_no_escape (code # rest) =
     (if code < 0x20 \<or> code = 0x22 \<or> code = 0x5C \<or> code = 0x2028 \<or> code = 0x2029 then False
      else if 0xD800 \<le> code \<and> code \<le> 0xDBFF then
        (case rest of
           [] \<Rightarrow> False
         | nxt # rest' \<Rightarrow> if 0xDC00 \<le> nxt \<and> nxt \<le> 0xDFFF then needs_no_escape rest' else False)
      else if 0xDC00 \<le> code \<and> code \<le> 0xDFFF then False
      else needs_no_escape rest)"

definition jsonStringBytes :: "ustring \<Rightarrow> int" where
  "jsonStringBytes s = (if needs_no_escape s then int (utf8_len s) + 2 else int (utf8_len (json_quote s)))"

definition jsonValueBytes :: "(rat \<Rightarrow> ustring) \<Rightarrow> jvalue \<Rightarrow> int" where
  "jsonValueBytes num v = (case v of
     JvNull \<Rightarrow> 4 | JvBool b \<Rightarrow> if b then 4 else 5 | JvNum x \<Rightarrow> int (length (num x)) | JvInf _ \<Rightarrow> 4
   | JvStr s \<Rightarrow> jsonStringBytes s | _ \<Rightarrow> json_bytes num v)"

definition row_overhead :: "sql_column list \<Rightarrow> int" where
  "row_overhead columns =
     fold (\<lambda>column bytes. bytes + int (utf8_len (json_quote (col_name column))) + 1) columns (2 + max 0 (int (length columns) - 1))"

text \<open>The loop over the rows, which stops as soon as the budget is exceeded.\<close>

fun size_rows :: "(rat \<Rightarrow> ustring) \<Rightarrow> int \<Rightarrow> sql_column list \<Rightarrow> nat \<Rightarrow> nat \<Rightarrow> int \<Rightarrow> int option" where
  "size_rows num maxBytes columns row 0 bytes = Some bytes"
| "size_rows num maxBytes columns row (Suc n) bytes =
     (let bytes2 = fold (\<lambda>column s. s + jsonValueBytes num (col_values column ! row)) columns (bytes + row_overhead columns)
      in if bytes2 > maxBytes then None else size_rows num maxBytes columns (Suc row) n bytes2)"

text \<open>Not columnar (\<^verbatim>\<open>null\<close>), not admitted by the callback (\<^verbatim>\<open>undefined\<close>; with what the callback was asked), or the expanded payload and its size.\<close>

datatype normalized = NotColumnar | NotAdmitted int int | Normalized jobject int

definition finish_normalize ::
    "jobject \<Rightarrow> int \<Rightarrow> sql_column list option \<Rightarrow> int \<Rightarrow> (int \<Rightarrow> int \<Rightarrow> bool) option \<Rightarrow> int \<Rightarrow> codec_error + normalized" where
  "finish_normalize payload rowCount columns maxBytes admit bytes =
     (if bytes > maxBytes then Inl TooManyBytes
      else if (case admit of Some ok \<Rightarrow> \<not> ok rowCount bytes | None \<Rightarrow> False) then Inr (NotAdmitted rowCount bytes)
      else Inr (Normalized
        (case columns of
           Some cols \<Rightarrow> jm_set (ustr ''rows'') (JvArr (map JvObj (expandInspectedSqlChunkRows rowCount cols))) payload
         | None \<Rightarrow> payload) bytes))"

definition normalizeColumnarSqlChunk ::
    "(rat \<Rightarrow> ustring) \<Rightarrow> jobject \<Rightarrow> int \<Rightarrow> int \<Rightarrow> (int \<Rightarrow> int \<Rightarrow> bool) option \<Rightarrow> inspection option \<Rightarrow> codec_error + normalized" where
  "normalizeColumnarSqlChunk num chunk maxRows maxBytes admit given =
     (if jfield chunk ''columnar'' = None then Inr NotColumnar
      else case (case given of Some i \<Rightarrow> i | None \<Rightarrow> inspectSqlStreamChunk num chunk) of
             InspectThrows \<Rightarrow> Inl CodecTypeError
           | InspectFail message \<Rightarrow> Inl (InvalidChunk message)
           | InspectOk rowCount columns \<Rightarrow>
               (let payload = jm_del (ustr ''columnar'') chunk; bytes = json_bytes num (JvObj payload)
                in case columns of
                     None \<Rightarrow> finish_normalize payload rowCount columns maxBytes admit bytes
                   | Some cols \<Rightarrow>
                       if rowCount > maxRows then Inl TooManyRows
                       else case size_rows num maxBytes cols 0 (nat rowCount) (bytes + max 0 (rowCount - 1)) of
                              None \<Rightarrow> Inl TooManyBytes
                            | Some bytes2 \<Rightarrow> finish_normalize payload rowCount columns maxBytes admit bytes2))"

section \<open>Valid columns\<close>

definition columns_ok :: "int \<Rightarrow> sql_column list \<Rightarrow> bool" where
  "columns_ok cnt cols \<longleftrightarrow> 0 \<le> cnt \<and> distinct (map col_name cols) \<and> (\<forall>c \<in> set cols. int (length (col_values c)) = cnt)"

definition selected_ok :: "int \<Rightarrow> (ustring, sql_column) jsmap \<Rightarrow> bool" where
  "selected_ok cnt sel \<longleftrightarrow> jm_wf sel \<and> (\<forall>(k, c) \<in> set sel. col_name c = k \<and> int (length (col_values c)) = cnt)"

lemma jm_set_members: "p \<in> set (jm_set k v m) \<Longrightarrow> p = (k, v) \<or> p \<in> set m"
  by (induction m) (auto simp: jm_set_unfold split: if_splits)

lemma inspect_column_ok: "inspect_column num cnt column = ColOk c \<Longrightarrow> int (length (col_values c)) = cnt"
  by (auto simp: inspect_column_def split: jvalue.splits option.splits if_splits)

lemma inspect_columns_ok:
  "inspect_columns num cnt columns sel = InspectOk n (Some cols) \<Longrightarrow> selected_ok cnt sel \<Longrightarrow> 0 \<le> cnt \<Longrightarrow> n = cnt \<and> columns_ok cnt cols"
proof (induction columns arbitrary: sel)
  case Nil
  have "map col_name (map snd sel) = map fst sel" using Nil(2) by (auto simp: selected_ok_def)
  then have "distinct (map col_name (map snd sel))" using Nil(2) unfolding selected_ok_def jm_wf_def by argo
  moreover have "\<forall>c \<in> set (map snd sel). int (length (col_values c)) = cnt" using Nil(2) by (fastforce simp: selected_ok_def)
  moreover have "n = cnt" "cols = map snd sel" using Nil(1) by auto
  ultimately show ?case using Nil(3) unfolding columns_ok_def by blast
next
  case (Cons column columns)
  from Cons.prems(1) obtain c where c: "inspect_column num cnt column = ColOk c"
    and rest: "inspect_columns num cnt columns (jm_set (col_name c) c sel) = InspectOk n (Some cols)"
    by (auto split: column_check.splits)
  have "selected_ok cnt (jm_set (col_name c) c sel)"
    using Cons.prems(2) inspect_column_ok[OF c] by (auto simp: selected_ok_def dest!: jm_set_members)
  from Cons.IH[OF rest this Cons.prems(3)] show ?case .
qed

lemma inspect_ok_columns:
  assumes "inspectSqlStreamChunk num chunk = InspectOk n (Some cols)"
  shows "columns_ok n cols" and "jfield chunk ''rows'' = Some (JvArr [])" and "jfield chunk ''columnar'' \<noteq> None"
proof -
  obtain cnt columns where *: "inspect_columns num cnt columns [] = InspectOk n (Some cols)" "0 \<le> cnt"
    and "jfield chunk ''rows'' = Some (JvArr [])" "jfield chunk ''columnar'' \<noteq> None"
    using assms by (auto simp: inspectSqlStreamChunk_def arr_of_def safe_count_def split: option.splits jvalue.splits if_splits)
  moreover have "selected_ok cnt []" by (simp add: selected_ok_def)
  ultimately show "columns_ok n cols" "jfield chunk ''rows'' = Some (JvArr [])" "jfield chunk ''columnar'' \<noteq> None"
    using inspect_columns_ok[OF *(1) _ *(2)] by auto
qed

section \<open>Sizes are exact\<close>

lemma needs_no_escape_low:
  "\<not> high_surrogate c \<Longrightarrow> needs_no_escape (c # s) \<Longrightarrow> escape_unit c = [c] \<and> needs_no_escape s"
  unfolding needs_no_escape.simps(2)[of c s] high_surrogate_def[symmetric] low_surrogate_def[symmetric]
  by (auto simp: not_less intro!: escape_unit_plain split: if_split_asm)

lemma needs_no_escape_high:
  "high_surrogate c \<Longrightarrow> needs_no_escape (c # d # s) \<Longrightarrow> low_surrogate d \<and> needs_no_escape s"
  unfolding needs_no_escape.simps(2)[of c "d # s"] high_surrogate_def[symmetric] low_surrogate_def[symmetric]
  by (simp split: if_split_asm)

lemma json_escape_plain: "needs_no_escape s \<Longrightarrow> json_escape s = s"
proof (induction s rule: json_escape.induct)
  case (2 c)
  then have "\<not> high_surrogate c" by (auto simp: high_surrogate_def split: if_splits)
  then show ?case using needs_no_escape_low[of c "[]"] 2 by simp
next
  case (3 c d s)
  show ?case
  proof (cases "high_surrogate c")
    case True
    with needs_no_escape_high[OF True 3(3)] show ?thesis using 3(1) by simp
  next
    case False
    then have "json_escape (d # s) = d # s" using needs_no_escape_low[OF False 3(3)] 3(2) by blast
    then show ?thesis using False needs_no_escape_low[OF False 3(3)] by simp
  qed
qed simp

lemma jsonStringBytes_exact: "jsonStringBytes s = int (utf8_len (json_quote s))"
  by (simp add: jsonStringBytes_def utf8_len_quote json_escape_plain)

lemma jsonValueBytes_exact:
  assumes "\<And>x. ascii (num x)"
  shows "jsonValueBytes num v = json_bytes num v"
  using assms by (cases v) (simp_all add: jsonValueBytes_def json_bytes_def jsonStringBytes_exact utf8_len_ascii ustr_def unit_len_def
      high_surrogate_def)

lemma fold_add: "fold (\<lambda>x s. s + (f x :: int)) xs a = a + sum_list (map f xs)"
  by (induction xs arbitrary: a) auto

lemma row_overhead_eq:
  "row_overhead columns = 2 + max 0 (int (length columns) - 1) + sum_list (map (\<lambda>c. int (utf8_len (json_quote (col_name c))) + 1) columns)"
  using fold_add[of "\<lambda>c. int (utf8_len (json_quote (col_name c))) + 1" columns] by (simp add: row_overhead_def add.assoc)

lemma expand_row_fields:
  assumes "distinct (map col_name cols)"
  shows "expand_row cols i = map (\<lambda>c. (col_name c, col_values c ! i)) cols"
proof -
  have "fold (\<lambda>c row. jm_set (col_name c) (col_values c ! i) row) cols acc = acc @ map (\<lambda>c. (col_name c, col_values c ! i)) cols"
    if "distinct (map fst acc @ map col_name cols)" for acc
    using that
  proof (induction cols arbitrary: acc)
    case (Cons c cols)
    then have "jm_get acc (col_name c) = None" by (auto simp: jm_get_def map_of_eq_None_iff)
    then show ?case using Cons by (auto simp: jm_set_fresh)
  qed simp
  from this[of "[]"] show ?thesis using assms by (simp add: expand_row_def)
qed

lemma int_sum_list: "int (sum_list (map f xs)) = sum_list (map (\<lambda>x. int (f x)) xs)"
  by (induction xs) auto

lemma row_bytes:
  assumes num: "\<And>x. ascii (num x)" and d: "distinct (map col_name cols)"
  shows "json_bytes num (JvObj (expand_row cols i)) = row_overhead cols + sum_list (map (\<lambda>c. jsonValueBytes num (col_values c ! i)) cols)"
proof -
  have "json_bytes num (JvObj (expand_row cols i)) =
    2 + (int (sum_list (map (\<lambda>c. field_len num (col_name c, col_values c ! i)) cols)) + int (length cols - 1))"
    unfolding json_bytes_def utf8_len_obj expand_row_fields[OF d] by (simp add: comp_def)
  also have "int (sum_list (map (\<lambda>c. field_len num (col_name c, col_values c ! i)) cols)) =
      sum_list (map (\<lambda>c. int (utf8_len (json_quote (col_name c))) + 1) cols) + sum_list (map (\<lambda>c. json_bytes num (col_values c ! i)) cols)"
    by (simp add: int_sum_list field_len_def json_bytes_def sum_list_addf[symmetric] add_ac)
  finally show ?thesis by (cases cols) (simp_all add: row_overhead_eq jsonValueBytes_exact[OF num])
qed

lemma json_bytes_nonneg [simp]: "0 \<le> json_bytes num v"
  by (simp add: json_bytes_def)

lemma size_rows_exact:
  assumes num: "\<And>x. ascii (num x)" and d: "distinct (map col_name cols)"
  shows "size_rows num maxBytes cols i n s =
    (let total_bytes = s + sum_list (map (\<lambda>j. json_bytes num (JvObj (expand_row cols j))) [i..<i + n])
     in if n > 0 \<and> total_bytes > maxBytes then None else Some total_bytes)"
proof (induction n arbitrary: i s)
  case (Suc n)
  let ?b = "\<lambda>j. json_bytes num (JvObj (expand_row cols j))"
  have step: "fold (\<lambda>c s. s + jsonValueBytes num (col_values c ! i)) cols (s + row_overhead cols) = s + ?b i"
    by (simp add: fold_add row_bytes[OF num d])
  have upt: "sum_list (map ?b [i..<i + Suc n]) = ?b i + sum_list (map ?b [Suc i..<Suc i + n])"
    by (simp add: upt_conv_Cons del: upt_Suc)
  have "0 \<le> sum_list (map ?b [Suc i..<Suc i + n])" by (rule sum_list_nonneg) auto
  then show ?case unfolding size_rows.simps(2) step Let_def Suc upt by (cases n) auto
qed simp

text \<open>Replacing the value of a property.\<close>

lemma sum_fields_set:
  "jm_get ob k = Some old \<Longrightarrow> sum_list (map f (jm_set k v ob)) + f (k, old) = sum_list (map f ob) + (f (k, v) :: nat)"
proof (induction ob)
  case (Cons p ob)
  then show ?case by (cases p) (auto simp: jm_set_unfold split: if_splits)
qed simp

lemma length_set: "jm_get ob k = Some old \<Longrightarrow> length (jm_set k v ob) = length ob"
proof (induction ob)
  case (Cons p ob)
  then show ?case by (cases p) (auto simp: jm_set_unfold split: if_splits)
qed simp

lemma rows_payload_bytes:
  assumes "jm_get ob k = Some (JvArr [])"
  shows "json_bytes num (JvObj (jm_set k (JvArr vs) ob)) =
    json_bytes num (JvObj ob) + sum_list (map (json_bytes num) vs) + max 0 (int (length vs) - 1)"
proof -
  have "sum_list (map (field_len num) (jm_set k (JvArr vs) ob)) + field_len num (k, JvArr []) =
    sum_list (map (field_len num) ob) + field_len num (k, JvArr vs)" by (rule sum_fields_set[OF assms])
  moreover have "field_len num (k, JvArr vs) = field_len num (k, JvArr []) + sum_list (map (\<lambda>x. utf8_len (json_text num x)) vs) + (length vs - 1)"
    unfolding field_len_def fst_conv snd_conv utf8_len_arr by simp
  ultimately have "sum_list (map (field_len num) (jm_set k (JvArr vs) ob)) =
    sum_list (map (field_len num) ob) + sum_list (map (\<lambda>x. utf8_len (json_text num x)) vs) + (length vs - 1)" by linarith
  moreover have "max 0 (int (length vs) - 1) = int (length vs - 1)" by (cases vs) simp_all
  ultimately show ?thesis unfolding json_bytes_def utf8_len_obj length_set[OF assms] by (simp add: int_sum_list)
qed

section \<open>The reference\<close>

text \<open>Expand first, then print and measure.\<close>

definition normalize_reference ::
    "(rat \<Rightarrow> ustring) \<Rightarrow> jobject \<Rightarrow> int \<Rightarrow> int \<Rightarrow> (int \<Rightarrow> int \<Rightarrow> bool) option \<Rightarrow> codec_error + normalized" where
  "normalize_reference num chunk maxRows maxBytes admit =
     (if jfield chunk ''columnar'' = None then Inr NotColumnar
      else case inspectSqlStreamChunk num chunk of
             InspectThrows \<Rightarrow> Inl CodecTypeError
           | InspectFail message \<Rightarrow> Inl (InvalidChunk message)
           | InspectOk rowCount columns \<Rightarrow>
               if columns \<noteq> None \<and> rowCount > maxRows then Inl TooManyRows
               else let rows = (case columns of
                           Some cols \<Rightarrow> map JvObj (expandInspectedSqlChunkRows rowCount cols)
                         | None \<Rightarrow> (case arr_of (jfield chunk ''rows'') of Some rs \<Rightarrow> rs | None \<Rightarrow> []));
                        payload = jm_set (ustr ''rows'') (JvArr rows) (jm_del (ustr ''columnar'') chunk);
                        bytes = json_bytes num (JvObj payload)
                    in if bytes > maxBytes then Inl TooManyBytes
                       else if (case admit of Some ok \<Rightarrow> \<not> ok rowCount bytes | None \<Rightarrow> False) then Inr (NotAdmitted rowCount bytes)
                       else Inr (Normalized payload bytes))"

lemma jfield_ne: "ustr k \<noteq> ustr k' \<Longrightarrow> jfield (jm_del (ustr k') ob) k = jfield ob k"
  by (simp add: jfield_def)

lemma inspect_none_rows:
  "inspectSqlStreamChunk num chunk = InspectOk n None \<Longrightarrow> \<exists>rows. jfield chunk ''rows'' = Some (JvArr rows) \<and> n = int (length rows)"
proof -
  have "inspect_columns num c cs sel \<noteq> InspectOk n None" for c cs sel
    by (induction cs arbitrary: sel) (auto split: column_check.splits)
  then show "inspectSqlStreamChunk num chunk = InspectOk n None \<Longrightarrow> \<exists>rows. jfield chunk ''rows'' = Some (JvArr rows) \<and> n = int (length rows)"
    by (auto simp: inspectSqlStreamChunk_def arr_of_def split: option.splits jvalue.splits if_splits)
qed

lemma ustr_rows_columnar [simp]: "ustr ''rows'' \<noteq> ustr ''columnar''" "ustr ''columnar'' \<noteq> ustr ''rows''"
  by code_simp+

lemma normalize_columns:
  assumes num: "\<And>x. ascii (num x)" and i: "inspectSqlStreamChunk num chunk = InspectOk n (Some cols)"
  shows "normalizeColumnarSqlChunk num chunk maxRows maxBytes admit None = normalize_reference num chunk maxRows maxBytes admit"
proof -
  let ?p = "jm_del (ustr ''columnar'') chunk" and ?rows = "map JvObj (expandInspectedSqlChunkRows n cols)"
  let ?full = "jm_set (ustr ''rows'') (JvArr ?rows) ?p"
  note c = inspect_ok_columns[OF i]
  have d: "distinct (map col_name cols)" and n: "0 \<le> n" using c(1) by (auto simp: columns_ok_def)
  have "jm_get ?p (ustr ''rows'') = Some (JvArr [])" using c(2) by (simp add: jfield_def)
  then have bytes: "json_bytes num (JvObj ?full) = json_bytes num (JvObj ?p) + max 0 (n - 1) +
      sum_list (map (\<lambda>j. json_bytes num (JvObj (expand_row cols j))) [0..<0 + nat n])"
    using n by (simp add: rows_payload_bytes expandInspectedSqlChunkRows_def comp_def max_def)
  have "size_rows num maxBytes cols 0 (nat n) (json_bytes num (JvObj ?p) + max 0 (n - 1)) =
    (if nat n > 0 \<and> json_bytes num (JvObj ?full) > maxBytes then None else Some (json_bytes num (JvObj ?full)))"
    unfolding size_rows_exact[OF num d] Let_def bytes[symmetric] ..
  then show ?thesis using i c(3)
    by (simp add: normalizeColumnarSqlChunk_def normalize_reference_def finish_normalize_def Let_def)
qed

lemma normalize_no_columns:
  assumes i: "inspectSqlStreamChunk num chunk = InspectOk n None"
  shows "normalizeColumnarSqlChunk num chunk maxRows maxBytes admit None = normalize_reference num chunk maxRows maxBytes admit"
proof -
  obtain rows where r: "jfield chunk ''rows'' = Some (JvArr rows)" using inspect_none_rows[OF i] by blast
  then have "jm_set (ustr ''rows'') (JvArr rows) (jm_del (ustr ''columnar'') chunk) = jm_del (ustr ''columnar'') chunk"
    by (intro jm_set_id) (simp add: jfield_def)
  then show ?thesis using i r
    by (cases admit) (simp_all add: normalizeColumnarSqlChunk_def normalize_reference_def finish_normalize_def Let_def arr_of_def)
qed

lemma normalize_given:
  "normalizeColumnarSqlChunk num chunk maxRows maxBytes admit (Some (inspectSqlStreamChunk num chunk)) =
   normalizeColumnarSqlChunk num chunk maxRows maxBytes admit None"
  by (simp add: normalizeColumnarSqlChunk_def)

lemma normalize_exact:
  assumes "\<And>x. ascii (num x)" and "given = None \<or> given = Some (inspectSqlStreamChunk num chunk)"
  shows "normalizeColumnarSqlChunk num chunk maxRows maxBytes admit given = normalize_reference num chunk maxRows maxBytes admit"
proof -
  have "normalizeColumnarSqlChunk num chunk maxRows maxBytes admit None = normalize_reference num chunk maxRows maxBytes admit"
  proof (cases "inspectSqlStreamChunk num chunk")
    case (InspectOk n columns)
    then show ?thesis by (cases columns) (auto intro: normalize_columns[OF assms(1)] normalize_no_columns)
  qed (simp_all add: normalizeColumnarSqlChunk_def normalize_reference_def)
  then show ?thesis using assms(2) normalize_given by auto
qed

text \<open>C14: The expansion of a columnar SQL chunk decides on its budget before it builds a row, and decides exactly as if it had
  built the rows, printed the expanded payload with \<^verbatim>\<open>JSON.stringify\<close> and counted the UTF-8 bytes: the size it charges is the exact number
  of bytes (escapes, surrogate pairs and lone surrogates included), and it refuses for rows, bytes or by the callback
  in exactly the same cases, whether it inspects the chunk itself or is given the inspection. All that is assumed is that
  numbers print as ASCII text.\<close>

theorem columnar_size_exact:
  assumes "\<And>x. ascii (num x)" and "given = None \<or> given = Some (inspectSqlStreamChunk num chunk)"
  shows "normalizeColumnarSqlChunk num chunk maxRows maxBytes admit given = normalize_reference num chunk maxRows maxBytes admit"
  using assms by (rule normalize_exact)

text \<open>The numbers of the samples are integers.\<close>

definition sample_num :: "rat \<Rightarrow> ustring" where
  "sample_num x = (if x < 0 then [0x2D] else []) @ nat_text (nat \<bar>\<lfloor>x\<rfloor>\<bar>)"

lemma sample_num_ascii: "ascii (sample_num x)"
  using nat_text_ascii by (auto simp: sample_num_def ascii_def)

text \<open>Two columns of two rows; one value is a string with a quote and a surrogate pair.\<close>

definition sample_column :: "string \<Rightarrow> string \<Rightarrow> jvalue list \<Rightarrow> jvalue" where
  "sample_column n ty vs = JvObj [(ustr ''name'', JvStr (ustr n)), (ustr ''type'', JvStr (ustr ty)), (ustr ''values'', JvArr vs)]"

definition sample_chunk_json :: jobject where
  "sample_chunk_json =
     [(ustr ''stream_id'', JvStr (ustr ''s'')), (ustr ''rows'', JvArr []),
      (ustr ''columnar'', JvObj [(ustr ''row_count'', JvNum 2),
         (ustr ''columns'', JvArr [sample_column ''a'' ''int32'' [JvNum 7, JvNum 42],
            sample_column ''b'' ''object'' [JvNull, JvStr [0x22, 0xD83D, 0xDE00]]])])]"

theorem columnar_size_exact_witness:
  "normalizeColumnarSqlChunk sample_num sample_chunk_json 10 100 None None =
     Inr (Normalized
       [(ustr ''stream_id'', JvStr (ustr ''s'')),
        (ustr ''rows'', JvArr [JvObj [(ustr ''a'', JvNum 7), (ustr ''b'', JvNull)],
                              JvObj [(ustr ''a'', JvNum 42), (ustr ''b'', JvStr [0x22, 0xD83D, 0xDE00])]])] 65) \<and>
   normalizeColumnarSqlChunk sample_num sample_chunk_json 10 64 None None = Inl TooManyBytes"
proof -
  have "normalize_reference sample_num sample_chunk_json 10 100 None = Inr (Normalized
       [(ustr ''stream_id'', JvStr (ustr ''s'')),
        (ustr ''rows'', JvArr [JvObj [(ustr ''a'', JvNum 7), (ustr ''b'', JvNull)],
                              JvObj [(ustr ''a'', JvNum 42), (ustr ''b'', JvStr [0x22, 0xD83D, 0xDE00])]])] 65)"
    by code_simp
  moreover have "normalize_reference sample_num sample_chunk_json 10 64 None = Inl TooManyBytes" by code_simp
  ultimately show ?thesis
    using columnar_size_exact[of sample_num None sample_chunk_json, OF sample_num_ascii] by simp
qed

section \<open>Rows\<close>

lemma expand_row_get:
  assumes "distinct (map col_name cols)" and "c \<in> set cols"
  shows "jm_get (expand_row cols i) (col_name c) = Some (col_values c ! i)"
  using assms by (auto simp: expand_row_fields jm_get_def map_of_eq_Some_iff comp_def image_iff)

lemma count_columns:
  assumes "inspectSqlStreamChunk num chunk = InspectOk n (Some cols)"
  shows "countSqlChunkRows num chunk = Some n"
    "readSqlChunkRows num chunk = Inr (map JvObj (expandInspectedSqlChunkRows n cols))"
  using assms inspect_ok_columns[OF assms] by (auto simp: countSqlChunkRows_def readSqlChunkRows_def arr_of_def Let_def)

lemma count_rows:
  assumes "inspectSqlStreamChunk num chunk = InspectOk n None"
  shows "\<exists>rows. jfield chunk ''rows'' = Some (JvArr rows) \<and> countSqlChunkRows num chunk = Some (int (length rows)) \<and> readSqlChunkRows num chunk = Inr rows"
  using assms inspect_none_rows[OF assms] by (auto simp: countSqlChunkRows_def readSqlChunkRows_def arr_of_def Let_def)

lemma read_plain:
  assumes "jfield chunk ''columnar'' = None" and "jfield chunk ''rows'' = Some (JvArr rows)"
  shows "countSqlChunkRows num chunk = Some (int (length rows))" "readSqlChunkRows num chunk = Inr rows"
  using assms by (auto simp: countSqlChunkRows_def readSqlChunkRows_def arr_of_def Let_def)

lemma jfield_normalized:
  "jfield (jm_set (ustr ''rows'') v (jm_del (ustr ''columnar'') ob)) ''columnar'' = None"
  "jfield (jm_set (ustr ''rows'') v (jm_del (ustr ''columnar'') ob)) ''rows'' = Some v"
  by (simp_all add: jfield_def)



lemma normalized_reads:
  assumes num: "\<And>x. ascii (num x)" and n: "normalizeColumnarSqlChunk num chunk maxRows maxBytes admit None = Inr (Normalized payload bytes)"
  shows "readSqlChunkRows num payload = readSqlChunkRows num chunk \<and> countSqlChunkRows num payload = countSqlChunkRows num chunk \<and>
    jfield payload ''columnar'' = None \<and> bytes = json_bytes num (JvObj payload) \<and> bytes \<le> maxBytes"
proof -
  have r: "normalize_reference num chunk maxRows maxBytes admit = Inr (Normalized payload bytes)"
    using n normalize_exact[of num None chunk, OF num] by simp
  then obtain cnt columns where i: "inspectSqlStreamChunk num chunk = InspectOk cnt columns"
    by (auto simp: normalize_reference_def split: if_splits inspection.splits)
  obtain rows where p: "payload = jm_set (ustr ''rows'') (JvArr rows) (jm_del (ustr ''columnar'') chunk)"
    and rows: "rows = (case columns of Some cols \<Rightarrow> map JvObj (expandInspectedSqlChunkRows cnt cols)
        | None \<Rightarrow> (case arr_of (jfield chunk ''rows'') of Some rs \<Rightarrow> rs | None \<Rightarrow> []))"
    and b: "bytes = json_bytes num (JvObj payload)" "bytes \<le> maxBytes"
    using r i by (auto simp: normalize_reference_def Let_def split: if_splits)
  have "readSqlChunkRows num chunk = Inr rows \<and> countSqlChunkRows num chunk = Some (int (length rows))"
  proof (cases columns)
    case None
    then show ?thesis using count_rows[of num chunk cnt] i rows by (auto simp: arr_of_def)
  next
    case (Some cols)
    then have "0 \<le> cnt" using inspect_ok_columns(1)[of num chunk cnt cols] i by (simp add: columns_ok_def)
    then show ?thesis using Some count_columns[of num chunk cnt cols] i rows by (simp add: expandInspectedSqlChunkRows_def)
  qed
  then show ?thesis using read_plain[of payload rows num] jfield_normalized p b by simp
qed

text \<open>C36: Normalizing keeps the data. The payload has the rows and the row count the chunk had, in the plain form: it is read the
  same, it is not columnar any more, and its size is within the budget and is its exact JSON size.\<close>

theorem normalized_reads_same:
  assumes num: "\<And>x. ascii (num x)" and n: "normalizeColumnarSqlChunk num chunk maxRows maxBytes admit None = Inr (Normalized payload bytes)"
  shows "readSqlChunkRows num payload = readSqlChunkRows num chunk \<and> countSqlChunkRows num payload = countSqlChunkRows num chunk \<and>
    jfield payload ''columnar'' = None \<and> bytes = json_bytes num (JvObj payload) \<and> bytes \<le> maxBytes"
  by (rule normalized_reads[OF num n])

theorem normalized_reads_same_witness:
  "\<exists>payload. normalizeColumnarSqlChunk sample_num sample_chunk_json 10 100 None None = Inr (Normalized payload 65) \<and>
     readSqlChunkRows sample_num payload = readSqlChunkRows sample_num sample_chunk_json"
proof -
  have "(case normalizeColumnarSqlChunk sample_num sample_chunk_json 10 100 None None of Inr (Normalized p b) \<Rightarrow> b = 65 | _ \<Rightarrow> False)"
    by code_simp
  then obtain payload where n: "normalizeColumnarSqlChunk sample_num sample_chunk_json 10 100 None None = Inr (Normalized payload 65)"
    by (auto split: sum.splits normalized.splits)
  from normalized_reads_same[OF sample_num_ascii n] n show ?thesis by blast
qed

end
