(* ===== verification/Relay_Stream_Flow.thy ===== *)
theory Relay_Stream_Flow
  imports Sql_Chunk_Codec
begin

text \<open>
  State of the backpressure of relayed streams: \<^verbatim>\<open>hub/relay/relay_stream_flow_state.ts\<close>. Every relayed request has credits granted by
  its consumer and a buffer of chunks of its agent, kept in parallel arrays with a head index; global totals back the caps.

  Shown: the arrays are a first-in first-out queue (locale \<open>fifo_buffer\<close>) across compactions, and the totals are exact
  after every operation. The theory of the drain builds on the effect lemmas at the end.
\<close>

section \<open>Flow state\<close>

record raw_forward =
  rf_bytes :: "nat list"
  rf_gzip :: bool
  rf_wireBytes :: "nat list option"
  rf_originalSize :: "int option"

record chunk_meta =
  cm_rowCount :: int
  cm_streamId :: "ustring option"

record flow_entry =
  fe_credits :: int
  bufferedChunks :: "jobject option list"
  bufferedChunkBytes :: "int list"
  bufferedChunkRawForward :: "raw_forward option list"
  bufferedChunkMeta :: "chunk_meta list"
  bufferedChunkHead :: nat
  fe_bufferedBytes :: int
  pendingComplete :: "jobject option"
  pendingCompleteRawForward :: "raw_forward option"
  forwardedRows :: int

text \<open>A retry timer is armed with the closure whose \<^verbatim>\<open>reschedule\<close> it calls.\<close>

record flow_state =
  entriesByRequestId :: "(string, flow_entry) jsmap"
  backpressureRetryTimerByRequestId :: "(string, nat) jsmap"
  globalTotalBufferedChunks :: int
  globalTotalBufferedBytes :: int

definition new_flow_state :: flow_state where
  "new_flow_state = \<lparr>entriesByRequestId = [], backpressureRetryTimerByRequestId = [], globalTotalBufferedChunks = 0, globalTotalBufferedBytes = 0\<rparr>"

definition clearRelayStreamBackpressureRetryTimer :: "string \<Rightarrow> flow_state \<Rightarrow> flow_state" where
  "clearRelayStreamBackpressureRetryTimer rid st =
     (if jm_has (backpressureRetryTimerByRequestId st) rid
      then st\<lparr>backpressureRetryTimerByRequestId := jm_del rid (backpressureRetryTimerByRequestId st)\<rparr> else st)"

definition setRelayStreamBackpressureRetryTimer :: "string \<Rightarrow> nat \<Rightarrow> flow_state \<Rightarrow> flow_state" where
  "setRelayStreamBackpressureRetryTimer rid closure st =
     (let st1 = clearRelayStreamBackpressureRetryTimer rid st
      in st1\<lparr>backpressureRetryTimerByRequestId := jm_set rid closure (backpressureRetryTimerByRequestId st1)\<rparr>)"

definition hasRelayStreamBackpressureRetryTimer :: "string \<Rightarrow> flow_state \<Rightarrow> bool" where
  "hasRelayStreamBackpressureRetryTimer rid st = jm_has (backpressureRetryTimerByRequestId st) rid"

definition clearAllRelayStreamBackpressureRetryTimers :: "flow_state \<Rightarrow> flow_state" where
  "clearAllRelayStreamBackpressureRetryTimers st = st\<lparr>backpressureRetryTimerByRequestId := []\<rparr>"

definition new_flow_entry :: flow_entry where
  "new_flow_entry = \<lparr>fe_credits = 0, bufferedChunks = [], bufferedChunkBytes = [], bufferedChunkRawForward = [], bufferedChunkMeta = [],
     bufferedChunkHead = 0, fe_bufferedBytes = 0, pendingComplete = None, pendingCompleteRawForward = None, forwardedRows = 0\<rparr>"

definition getRelayStreamFlowEntry :: "string \<Rightarrow> flow_state \<Rightarrow> flow_entry option" where
  "getRelayStreamFlowEntry rid st = jm_get (entriesByRequestId st) rid"

definition ensureRelayStreamFlowEntry :: "string \<Rightarrow> flow_state \<Rightarrow> flow_entry \<times> flow_state" where
  "ensureRelayStreamFlowEntry rid st =
     (case jm_get (entriesByRequestId st) rid of
        Some existing \<Rightarrow> (existing, st)
      | None \<Rightarrow> (new_flow_entry, st\<lparr>entriesByRequestId := jm_set rid new_flow_entry (entriesByRequestId st)\<rparr>))"

text \<open>The code mutates the entry it got.\<close>

definition update_entry :: "string \<Rightarrow> (flow_entry \<Rightarrow> flow_entry) \<Rightarrow> flow_state \<Rightarrow> flow_state" where
  "update_entry rid f st =
     (let (entry, st1) = ensureRelayStreamFlowEntry rid st
      in st1\<lparr>entriesByRequestId := jm_set rid (f entry) (entriesByRequestId st1)\<rparr>)"

definition setRelayStreamFlowCredits :: "string \<Rightarrow> int \<Rightarrow> flow_state \<Rightarrow> flow_state" where
  "setRelayStreamFlowCredits rid credits st = update_entry rid (\<lambda>e. e\<lparr>fe_credits := max 0 credits\<rparr>) st"

definition getRelayStreamFlowCredits :: "string \<Rightarrow> flow_state \<Rightarrow> int" where
  "getRelayStreamFlowCredits rid st = (case jm_get (entriesByRequestId st) rid of Some e \<Rightarrow> fe_credits e | None \<Rightarrow> 0)"

text \<open>\<open>maxWindow\<close> is \<^verbatim>\<open>env.socketRestStreamPullMaxWindowSize\<close>.\<close>

definition maxFlowCreditsPerRequest :: "int \<Rightarrow> int" where
  "maxFlowCreditsPerRequest maxWindow = max 1 maxWindow"

definition addRelayStreamFlowCredits :: "int \<Rightarrow> string \<Rightarrow> int \<Rightarrow> flow_state \<Rightarrow> flow_state" where
  "addRelayStreamFlowCredits maxWindow rid delta st =
     update_entry rid (\<lambda>e. e\<lparr>fe_credits := min (maxFlowCreditsPerRequest maxWindow) (max 0 (fe_credits e + max 0 delta))\<rparr>) st"

definition buffered_count :: "flow_entry \<Rightarrow> int" where
  "buffered_count e = max 0 (int (length (bufferedChunks e)) - int (bufferedChunkHead e))"

definition getRelayStreamBufferedChunkCount :: "string \<Rightarrow> flow_state \<Rightarrow> int" where
  "getRelayStreamBufferedChunkCount rid st = (case jm_get (entriesByRequestId st) rid of Some e \<Rightarrow> buffered_count e | None \<Rightarrow> 0)"

definition getRelayStreamBufferedBytes :: "string \<Rightarrow> flow_state \<Rightarrow> int" where
  "getRelayStreamBufferedBytes rid st = (case jm_get (entriesByRequestId st) rid of Some e \<Rightarrow> fe_bufferedBytes e | None \<Rightarrow> 0)"

definition getRelayStreamBufferedChunks :: "string \<Rightarrow> flow_state \<Rightarrow> jobject list" where
  "getRelayStreamBufferedChunks rid st =
     (case jm_get (entriesByRequestId st) rid of
        None \<Rightarrow> []
      | Some e \<Rightarrow> List.map_filter (\<lambda>c. c) (drop (bufferedChunkHead e) (bufferedChunks e)))"

definition normalizeBufferedByteLength :: "int \<Rightarrow> int" where
  "normalizeBufferedByteLength byteLength = (if byteLength \<le> 0 then 0 else byteLength)"

text \<open>A buffered chunk: the record, absent when the original bytes are kept; these bytes; the size charged; the statistics.\<close>

type_synonym buffered = "jobject option \<times> raw_forward option \<times> int \<times> chunk_meta"

definition push_entry :: "buffered \<Rightarrow> flow_entry \<Rightarrow> flow_entry" where
  "push_entry item e =
     (case item of (chunk, rawForward, bytes, meta) \<Rightarrow>
        e\<lparr>bufferedChunks := bufferedChunks e @ [chunk], bufferedChunkBytes := bufferedChunkBytes e @ [bytes],
          bufferedChunkRawForward := bufferedChunkRawForward e @ [rawForward], bufferedChunkMeta := bufferedChunkMeta e @ [meta],
          fe_bufferedBytes := fe_bufferedBytes e + bytes\<rparr>)"

text \<open>The flag is false when counting the rows throws, which leaves an empty entry behind.\<close>

definition buffered_item :: "jobject \<Rightarrow> int \<Rightarrow> raw_forward option \<Rightarrow> int \<Rightarrow> buffered" where
  "buffered_item chunk byteLength rawForward rowCount =
     (if rawForward \<noteq> None then None else Some chunk, rawForward, normalizeBufferedByteLength byteLength,
      \<lparr>cm_rowCount = rowCount, cm_streamId = str_of (jfield chunk ''stream_id'')\<rparr>)"

definition addRelayStreamBufferedChunk ::
    "(rat \<Rightarrow> ustring) \<Rightarrow> string \<Rightarrow> jobject \<Rightarrow> int \<Rightarrow> raw_forward option \<Rightarrow> flow_state \<Rightarrow> bool \<times> flow_state" where
  "addRelayStreamBufferedChunk num rid chunk byteLength rawForward st =
     (case countSqlChunkRows num chunk of
        None \<Rightarrow> (False, snd (ensureRelayStreamFlowEntry rid st))
      | Some rowCount \<Rightarrow>
          (let st1 = update_entry rid (push_entry (buffered_item chunk byteLength rawForward rowCount)) st
           in (True, st1\<lparr>globalTotalBufferedChunks := globalTotalBufferedChunks st1 + 1,
                         globalTotalBufferedBytes := globalTotalBufferedBytes st1 + normalizeBufferedByteLength byteLength\<rparr>)))"

text \<open>Dropping the delivered prefix: all at once when the buffer is empty, or when at least 64 slots, half of the array, are dead.\<close>

definition compact_entry :: "flow_entry \<Rightarrow> flow_entry" where
  "compact_entry e =
     (let h = bufferedChunkHead e; n = length (bufferedChunks e)
      in if h \<ge> n then e\<lparr>bufferedChunks := [], bufferedChunkBytes := [], bufferedChunkRawForward := [], bufferedChunkMeta := [], bufferedChunkHead := 0\<rparr>
         else if h \<ge> 64 \<and> h * 2 \<ge> n then
           e\<lparr>bufferedChunks := drop h (bufferedChunks e), bufferedChunkBytes := drop h (bufferedChunkBytes e),
             bufferedChunkRawForward := drop h (bufferedChunkRawForward e), bufferedChunkMeta := drop h (bufferedChunkMeta e), bufferedChunkHead := 0\<rparr>
         else e)"

definition pop_entry :: "flow_entry \<Rightarrow> flow_entry" where
  "pop_entry e =
     (let h = bufferedChunkHead e
      in compact_entry (e\<lparr>bufferedChunks := (bufferedChunks e)[h := None], bufferedChunkRawForward := (bufferedChunkRawForward e)[h := None],
           bufferedChunkHead := h + 1, fe_bufferedBytes := max 0 (fe_bufferedBytes e - bufferedChunkBytes e ! h)\<rparr>))"

text \<open>\<open>None\<close> for an empty buffer; otherwise the chunk, which is itself absent when only its bytes were kept.\<close>

definition popRelayStreamBufferedChunk :: "string \<Rightarrow> flow_state \<Rightarrow> jobject option option \<times> flow_state" where
  "popRelayStreamBufferedChunk rid st =
     (case jm_get (entriesByRequestId st) rid of
        None \<Rightarrow> (None, st)
      | Some e \<Rightarrow>
          if bufferedChunkHead e \<ge> length (bufferedChunks e) then (None, st)
          else (Some (bufferedChunks e ! bufferedChunkHead e),
                st\<lparr>entriesByRequestId := jm_set rid (pop_entry e) (entriesByRequestId st),
                   globalTotalBufferedChunks := max 0 (globalTotalBufferedChunks st - 1),
                   globalTotalBufferedBytes := max 0 (globalTotalBufferedBytes st - bufferedChunkBytes e ! bufferedChunkHead e)\<rparr>))"

text \<open>The three peeks at the head: the chunk, its original bytes and its statistics.\<close>

definition peekRelayStreamBufferedChunk :: "string \<Rightarrow> flow_state \<Rightarrow> (jobject option \<times> raw_forward option \<times> chunk_meta) option" where
  "peekRelayStreamBufferedChunk rid st =
     (case jm_get (entriesByRequestId st) rid of
        None \<Rightarrow> None
      | Some e \<Rightarrow>
          if bufferedChunkHead e \<ge> length (bufferedChunks e) then None
          else Some (bufferedChunks e ! bufferedChunkHead e, bufferedChunkRawForward e ! bufferedChunkHead e, bufferedChunkMeta e ! bufferedChunkHead e))"

definition getRelayStreamPendingComplete :: "string \<Rightarrow> flow_state \<Rightarrow> jobject option" where
  "getRelayStreamPendingComplete rid st = (case jm_get (entriesByRequestId st) rid of Some e \<Rightarrow> pendingComplete e | None \<Rightarrow> None)"

definition setRelayStreamPendingComplete :: "string \<Rightarrow> jobject \<Rightarrow> raw_forward option \<Rightarrow> flow_state \<Rightarrow> flow_state" where
  "setRelayStreamPendingComplete rid completion rawForward st =
     update_entry rid (\<lambda>e. e\<lparr>pendingComplete := Some completion, pendingCompleteRawForward := rawForward\<rparr>) st"

definition clearRelayStreamPendingComplete :: "string \<Rightarrow> flow_state \<Rightarrow> flow_state" where
  "clearRelayStreamPendingComplete rid st =
     (case jm_get (entriesByRequestId st) rid of
        None \<Rightarrow> st
      | Some e \<Rightarrow> st\<lparr>entriesByRequestId := jm_set rid (e\<lparr>pendingComplete := None, pendingCompleteRawForward := None\<rparr>) (entriesByRequestId st)\<rparr>)"

definition getRelayStreamForwardedRows :: "string \<Rightarrow> flow_state \<Rightarrow> int" where
  "getRelayStreamForwardedRows rid st = (case jm_get (entriesByRequestId st) rid of Some e \<Rightarrow> forwardedRows e | None \<Rightarrow> 0)"

definition addRelayStreamForwardedRows :: "string \<Rightarrow> int \<Rightarrow> flow_state \<Rightarrow> flow_state" where
  "addRelayStreamForwardedRows rid delta st = update_entry rid (\<lambda>e. e\<lparr>forwardedRows := forwardedRows e + delta\<rparr>) st"

definition clearRelayStreamFlowState :: "string \<Rightarrow> flow_state \<Rightarrow> flow_state" where
  "clearRelayStreamFlowState rid st =
     (let st1 = (case jm_get (entriesByRequestId st) rid of
            Some e \<Rightarrow>
              if length (bufferedChunks e) > bufferedChunkHead e then
                st\<lparr>globalTotalBufferedChunks := max 0 (globalTotalBufferedChunks st - (int (length (bufferedChunks e)) - int (bufferedChunkHead e))),
                   globalTotalBufferedBytes := max 0 (globalTotalBufferedBytes st - fe_bufferedBytes e)\<rparr>
              else st
          | None \<Rightarrow> st)
      in clearRelayStreamBackpressureRetryTimer rid (st1\<lparr>entriesByRequestId := jm_del rid (entriesByRequestId st1)\<rparr>))"

definition resetRelayStreamFlowState :: "flow_state \<Rightarrow> flow_state" where
  "resetRelayStreamFlowState st = new_flow_state"

definition countRelayStreamBufferedRows :: "string \<Rightarrow> flow_state \<Rightarrow> int" where
  "countRelayStreamBufferedRows rid st =
     (case jm_get (entriesByRequestId st) rid of
        None \<Rightarrow> 0 | Some e \<Rightarrow> tally cm_rowCount (drop (bufferedChunkHead e) (bufferedChunkMeta e)))"

definition countRelayStreamAbortDropped :: "(rat \<Rightarrow> ustring) \<Rightarrow> string \<Rightarrow> jobject option \<Rightarrow> flow_state \<Rightarrow> (int \<times> int) option" where
  "countRelayStreamAbortDropped num rid rejecting st =
     (case rejecting of
        None \<Rightarrow> Some (getRelayStreamBufferedChunkCount rid st, countRelayStreamBufferedRows rid st)
      | Some payload \<Rightarrow>
          map_option (\<lambda>rows. (getRelayStreamBufferedChunkCount rid st + 1, countRelayStreamBufferedRows rid st + rows)) (countSqlChunkRows num payload))"

section \<open>The buffer is a queue\<close>

text \<open>The interface of a first-in first-out buffer, and what follows for any interleaving of its operations: what was taken out
  followed by what is still inside is what was put in, in order.\<close>

locale fifo_buffer =
  fixes ok :: "'b \<Rightarrow> bool" and contents :: "'b \<Rightarrow> 'a list" and valid :: "'a \<Rightarrow> bool"
    and create :: 'b and push :: "'a \<Rightarrow> 'b \<Rightarrow> 'b" and pop :: "'b \<Rightarrow> 'b" and front :: "'b \<Rightarrow> 'a option"
  assumes create_ok: "ok create" and create_contents: "contents create = []"
    and push_ok: "ok b \<Longrightarrow> valid x \<Longrightarrow> ok (push x b)" and push_contents: "ok b \<Longrightarrow> contents (push x b) = contents b @ [x]"
    and pop_ok: "ok b \<Longrightarrow> contents b \<noteq> [] \<Longrightarrow> ok (pop b)" and pop_contents: "ok b \<Longrightarrow> contents b \<noteq> [] \<Longrightarrow> contents (pop b) = tl (contents b)"
    and front_contents: "ok b \<Longrightarrow> front b = (case contents b of [] \<Rightarrow> None | x # _ \<Rightarrow> Some x)"
begin

text \<open>\<open>Some x\<close> puts \<open>x\<close> in, \<open>None\<close> takes the front out if there is one.\<close>

fun buffer_run :: "'a option list \<Rightarrow> 'b \<Rightarrow> 'a list \<times> 'b" where
  "buffer_run [] b = ([], b)"
| "buffer_run (Some x # cmds) b = buffer_run cmds (push x b)"
| "buffer_run (None # cmds) b =
     (case front b of None \<Rightarrow> buffer_run cmds b | Some x \<Rightarrow> (let (out, b') = buffer_run cmds (pop b) in (x # out, b')))"

lemma run_fifo:
  "ok b \<Longrightarrow> (\<And>x. Some x \<in> set cmds \<Longrightarrow> valid x) \<Longrightarrow>
   ok (snd (buffer_run cmds b)) \<and> fst (buffer_run cmds b) @ contents (snd (buffer_run cmds b)) = contents b @ List.map_filter (\<lambda>c. c) cmds"
proof (induction cmds b rule: buffer_run.induct)
  case (2 x cmds b)
  then show ?case by (simp add: push_ok push_contents map_filter_def)
next
  case (3 cmds b)
  show ?case
  proof (cases "contents b")
    case Nil
    then show ?thesis using 3 by (simp add: front_contents map_filter_def)
  next
    case (Cons y ys)
    then have "ok (pop b)" "contents (pop b) = ys" using 3(3) by (simp_all add: pop_ok pop_contents)
    then show ?thesis using 3(2)[of y] 3(3,4) Cons by (simp add: front_contents map_filter_def case_prod_beta Let_def)
  qed
qed (simp add: map_filter_def)

end

text \<open>The arrays of an entry are parallel and hold the live chunks from the head on.\<close>

definition queue_of :: "flow_entry \<Rightarrow> buffered list" where
  "queue_of e = drop (bufferedChunkHead e) (zip (bufferedChunks e) (zip (bufferedChunkRawForward e) (zip (bufferedChunkBytes e) (bufferedChunkMeta e))))"

definition item_ok :: "buffered \<Rightarrow> bool" where
  "item_ok x \<longleftrightarrow> (case x of (chunk, raw, bytes, meta) \<Rightarrow> (chunk = None \<longleftrightarrow> raw \<noteq> None) \<and> 0 \<le> bytes)"

definition item_bytes :: "buffered \<Rightarrow> int" where
  "item_bytes x = fst (snd (snd x))"

definition buffer_ok :: "flow_entry \<Rightarrow> bool" where
  "buffer_ok e \<longleftrightarrow> length (bufferedChunkRawForward e) = length (bufferedChunks e) \<and> length (bufferedChunkBytes e) = length (bufferedChunks e) \<and>
     length (bufferedChunkMeta e) = length (bufferedChunks e) \<and> bufferedChunkHead e \<le> length (bufferedChunks e) \<and>
     (\<forall>x \<in> set (queue_of e). item_ok x) \<and> fe_bufferedBytes e = tally item_bytes (queue_of e) \<and> 0 \<le> fe_credits e"

definition front_entry :: "flow_entry \<Rightarrow> buffered option" where
  "front_entry e =
     (let h = bufferedChunkHead e
      in if h \<ge> length (bufferedChunks e) then None
         else Some (bufferedChunks e ! h, bufferedChunkRawForward e ! h, bufferedChunkBytes e ! h, bufferedChunkMeta e ! h))"

lemma item_ok_bytes: "item_ok x \<Longrightarrow> 0 \<le> item_bytes x"
  by (cases x) (simp add: item_ok_def item_bytes_def)

lemma queue_length: "buffer_ok e \<Longrightarrow> length (queue_of e) = length (bufferedChunks e) - bufferedChunkHead e"
  by (simp add: queue_of_def buffer_ok_def)

lemma buffered_count_nonneg: "0 \<le> buffered_count e"
  by (simp add: buffered_count_def)

lemma buffered_count_queue: "buffer_ok e \<Longrightarrow> buffered_count e = int (length (queue_of e))"
  by (auto simp: queue_length buffered_count_def buffer_ok_def)

lemma queue_push: "buffer_ok e \<Longrightarrow> queue_of (push_entry x e) = queue_of e @ [x]"
  by (cases x) (auto simp: queue_of_def push_entry_def buffer_ok_def)

lemma entry_push: "buffer_ok e \<Longrightarrow> item_ok x \<Longrightarrow> buffer_ok (push_entry x e)"
  using queue_push[of e x] by (cases x) (auto simp: buffer_ok_def item_bytes_def tally_def push_entry_def)

text \<open>Dropping the dead prefix changes nothing in the queue.\<close>

lemma queue_compact:
  assumes "length (bufferedChunkRawForward e) = length (bufferedChunks e)" "length (bufferedChunkBytes e) = length (bufferedChunks e)"
    "length (bufferedChunkMeta e) = length (bufferedChunks e)"
  shows "queue_of (compact_entry e) = queue_of e"
  using assms by (auto simp: queue_of_def compact_entry_def Let_def drop_zip)

lemma pop_uncompacted:
  fixes e :: flow_entry
  defines "h \<equiv> bufferedChunkHead e"
  defines "e' \<equiv> e\<lparr>bufferedChunks := (bufferedChunks e)[h := None], bufferedChunkRawForward := (bufferedChunkRawForward e)[h := None],
      bufferedChunkHead := h + 1, fe_bufferedBytes := max 0 (fe_bufferedBytes e - bufferedChunkBytes e ! h)\<rparr>"
  shows "queue_of e' = tl (queue_of e)"
proof -
  have "drop (h + 1) (zip ((bufferedChunks e)[h := None]) (zip ((bufferedChunkRawForward e)[h := None]) zs)) =
      drop (h + 1) (zip (bufferedChunks e) (zip (bufferedChunkRawForward e) zs))" for zs :: "(int \<times> chunk_meta) list"
    by (simp add: drop_zip)
  then show ?thesis by (simp add: e'_def h_def queue_of_def drop_Suc tl_drop[symmetric] drop_Suc[symmetric])
qed

lemma front_queue:
  assumes "buffer_ok e"
  shows "front_entry e = (case queue_of e of [] \<Rightarrow> None | x # _ \<Rightarrow> Some x)"
proof (cases "bufferedChunkHead e < length (bufferedChunks e)")
  case True
  then have "queue_of e = (zip (bufferedChunks e) (zip (bufferedChunkRawForward e) (zip (bufferedChunkBytes e) (bufferedChunkMeta e)))) ! bufferedChunkHead e
      # drop (Suc (bufferedChunkHead e)) (zip (bufferedChunks e) (zip (bufferedChunkRawForward e) (zip (bufferedChunkBytes e) (bufferedChunkMeta e))))"
    using assms unfolding queue_of_def buffer_ok_def by (intro Cons_nth_drop_Suc[symmetric]) simp
  then show ?thesis using assms True by (simp add: front_entry_def buffer_ok_def Let_def)
next
  case False
  then show ?thesis using assms queue_length[OF assms] by (simp add: front_entry_def)
qed

lemma compact_fields [simp]:
  "fe_bufferedBytes (compact_entry e) = fe_bufferedBytes e" "fe_credits (compact_entry e) = fe_credits e"
  "pendingComplete (compact_entry e) = pendingComplete e" "forwardedRows (compact_entry e) = forwardedRows e"
  by (simp_all add: compact_entry_def Let_def)

lemma entry_pop:
  assumes ok: "buffer_ok e" and ne: "queue_of e \<noteq> []"
  shows "queue_of (pop_entry e) = tl (queue_of e)" "buffer_ok (pop_entry e)"
    "fe_bufferedBytes (pop_entry e) = fe_bufferedBytes e - bufferedChunkBytes e ! bufferedChunkHead e"
proof -
  let ?h = "bufferedChunkHead e"
  let ?e = "e\<lparr>bufferedChunks := (bufferedChunks e)[?h := None], bufferedChunkRawForward := (bufferedChunkRawForward e)[?h := None],
      bufferedChunkHead := ?h + 1, fe_bufferedBytes := max 0 (fe_bufferedBytes e - bufferedChunkBytes e ! ?h)\<rparr>"
  have h: "?h < length (bufferedChunks e)" using ne queue_length[OF ok] by (cases "?h < length (bufferedChunks e)") auto
  have lens: "length (bufferedChunkRawForward e) = length (bufferedChunks e)" "length (bufferedChunkBytes e) = length (bufferedChunks e)"
    "length (bufferedChunkMeta e) = length (bufferedChunks e)" using ok by (simp_all add: buffer_ok_def)
  have eq: "pop_entry e = compact_entry ?e" by (simp add: pop_entry_def Let_def)
  show q: "queue_of (pop_entry e) = tl (queue_of e)" unfolding eq using queue_compact[of ?e] lens pop_uncompacted[of e] by simp
  obtain x xs where x: "queue_of e = x # xs" using ne by (cases "queue_of e") auto
  then have "front_entry e = Some x" using front_queue[OF ok] by simp
  then have b: "item_bytes x = bufferedChunkBytes e ! ?h" using h by (auto simp: front_entry_def item_bytes_def Let_def)
  have items: "\<forall>y \<in> set (x # xs). item_ok y" "fe_bufferedBytes e = item_bytes x + tally item_bytes xs" "0 \<le> fe_credits e"
    using ok x by (auto simp: buffer_ok_def tally_def)
  have nonneg: "0 \<le> tally item_bytes xs" using items(1) by (auto simp: tally_def item_ok_bytes intro!: sum_list_nonneg)
  show bytes: "fe_bufferedBytes (pop_entry e) = fe_bufferedBytes e - bufferedChunkBytes e ! ?h"
    unfolding eq using items(2) nonneg b by simp
  have "length (bufferedChunkRawForward (compact_entry ?e)) = length (bufferedChunks (compact_entry ?e)) \<and>
      length (bufferedChunkBytes (compact_entry ?e)) = length (bufferedChunks (compact_entry ?e)) \<and>
      length (bufferedChunkMeta (compact_entry ?e)) = length (bufferedChunks (compact_entry ?e)) \<and>
      bufferedChunkHead (compact_entry ?e) \<le> length (bufferedChunks (compact_entry ?e))"
    using lens h by (auto simp: compact_entry_def Let_def)
  then show "buffer_ok (pop_entry e)"
    using q bytes items b x by (auto simp: buffer_ok_def eq)
qed

lemma new_entry_ok: "buffer_ok new_flow_entry" "queue_of new_flow_entry = []"
  by (simp_all add: new_flow_entry_def buffer_ok_def queue_of_def)

interpretation chunk_queue: fifo_buffer buffer_ok queue_of item_ok new_flow_entry push_entry pop_entry front_entry
proof
  fix b x assume "buffer_ok b"
  then show "queue_of b \<noteq> [] \<Longrightarrow> buffer_ok (pop_entry b)" "queue_of b \<noteq> [] \<Longrightarrow> queue_of (pop_entry b) = tl (queue_of b)"
    "item_ok x \<Longrightarrow> buffer_ok (push_entry x b)" "queue_of (push_entry x b) = queue_of b @ [x]"
    "front_entry b = (case queue_of b of [] \<Rightarrow> None | x # _ \<Rightarrow> Some x)"
    by (simp_all add: entry_pop entry_push queue_push front_queue)
qed (simp_all add: new_entry_ok)

section \<open>The books\<close>

definition entry_of :: "flow_state \<Rightarrow> string \<Rightarrow> flow_entry" where
  "entry_of st rid = (case jm_get (entriesByRequestId st) rid of Some e \<Rightarrow> e | None \<Rightarrow> new_flow_entry)"

definition timer_of :: "flow_state \<Rightarrow> string \<Rightarrow> nat option" where
  "timer_of st rid = jm_get (backpressureRetryTimerByRequestId st) rid"

definition flow_ok :: "flow_state \<Rightarrow> bool" where
  "flow_ok st \<longleftrightarrow> jm_wf (entriesByRequestId st) \<and> (\<forall>rid. buffer_ok (entry_of st rid)) \<and>
     globalTotalBufferedChunks st = jm_sum buffered_count (entriesByRequestId st) \<and>
     globalTotalBufferedBytes st = jm_sum fe_bufferedBytes (entriesByRequestId st)"

lemma new_entry_fields [simp]:
  "fe_credits new_flow_entry = 0" "buffered_count new_flow_entry = 0" "fe_bufferedBytes new_flow_entry = 0"
  "pendingComplete new_flow_entry = None" "forwardedRows new_flow_entry = 0" "bufferedChunkMeta new_flow_entry = []"
  by (simp_all add: new_flow_entry_def buffered_count_def)

lemma getters_entry:
  "getRelayStreamFlowCredits rid st = fe_credits (entry_of st rid)"
  "getRelayStreamBufferedChunkCount rid st = buffered_count (entry_of st rid)"
  "getRelayStreamBufferedBytes rid st = fe_bufferedBytes (entry_of st rid)"
  "getRelayStreamPendingComplete rid st = pendingComplete (entry_of st rid)"
  "getRelayStreamForwardedRows rid st = forwardedRows (entry_of st rid)"
  by (simp_all add: getRelayStreamFlowCredits_def getRelayStreamBufferedChunkCount_def getRelayStreamBufferedBytes_def
      getRelayStreamPendingComplete_def getRelayStreamForwardedRows_def entry_of_def split: option.splits)

lemma update_entry_get:
  "jm_get (entriesByRequestId (update_entry rid f st)) r = (if r = rid then Some (f (entry_of st rid)) else jm_get (entriesByRequestId st) r)"
  by (simp add: update_entry_def ensureRelayStreamFlowEntry_def entry_of_def split: option.splits)

lemma update_entry_of [simp]: "entry_of (update_entry rid f st) r = (if r = rid then f (entry_of st rid) else entry_of st r)"
  by (simp add: entry_of_def[of "update_entry rid f st"] update_entry_get) (simp add: entry_of_def)

lemma update_entry_timer [simp]: "timer_of (update_entry rid f st) r = timer_of st r"
  by (simp add: timer_of_def update_entry_def ensureRelayStreamFlowEntry_def split: option.splits)

text \<open>A change that keeps the queue keeps the books.\<close>

lemma update_entry_sums:
  assumes "jm_wf (entriesByRequestId st)"
  shows "jm_wf (entriesByRequestId (update_entry rid f st))"
    "jm_sum buffered_count (entriesByRequestId (update_entry rid f st)) =
       jm_sum buffered_count (entriesByRequestId st) - buffered_count (entry_of st rid) + buffered_count (f (entry_of st rid))"
    "jm_sum fe_bufferedBytes (entriesByRequestId (update_entry rid f st)) =
       jm_sum fe_bufferedBytes (entriesByRequestId st) - fe_bufferedBytes (entry_of st rid) + fe_bufferedBytes (f (entry_of st rid))"
    "globalTotalBufferedChunks (update_entry rid f st) = globalTotalBufferedChunks st"
    "globalTotalBufferedBytes (update_entry rid f st) = globalTotalBufferedBytes st"
  using assms by (auto simp: update_entry_def ensureRelayStreamFlowEntry_def entry_of_def jm_sum_set split: option.splits)

lemma flow_ok_update:
  assumes "flow_ok st" "buffer_ok (f (entry_of st rid))" "buffered_count (f (entry_of st rid)) = buffered_count (entry_of st rid)"
    "fe_bufferedBytes (f (entry_of st rid)) = fe_bufferedBytes (entry_of st rid)"
  shows "flow_ok (update_entry rid f st)"
  using assms by (simp add: flow_ok_def update_entry_sums)

text \<open>The effect of every operation on the entries, the timers and the books.\<close>

lemma add_chunk_effect:
  fixes byteLength :: int and raw :: "raw_forward option" and rid r :: string
  assumes ok: "flow_ok st" and rows: "countSqlChunkRows num chunk = Some rowCount"
  defines "item \<equiv> buffered_item chunk byteLength raw rowCount"
  defines "st' \<equiv> snd (addRelayStreamBufferedChunk num rid chunk byteLength raw st)"
  shows "flow_ok st'" "entry_of st' r = (if r = rid then push_entry item (entry_of st rid) else entry_of st r)" "timer_of st' r = timer_of st r"
    "globalTotalBufferedChunks st' = globalTotalBufferedChunks st + 1"
    "globalTotalBufferedBytes st' = globalTotalBufferedBytes st + normalizeBufferedByteLength byteLength"
    "r \<noteq> rid \<Longrightarrow> jm_get (entriesByRequestId st') r = jm_get (entriesByRequestId st) r"
proof -
  let ?u = "update_entry rid (push_entry item) st"
  let ?st = "?u\<lparr>globalTotalBufferedChunks := globalTotalBufferedChunks ?u + 1,
      globalTotalBufferedBytes := globalTotalBufferedBytes ?u + normalizeBufferedByteLength byteLength\<rparr>"
  have st': "st' = ?st" by (simp add: st'_def addRelayStreamBufferedChunk_def rows item_def Let_def)
  have wf: "jm_wf (entriesByRequestId st)" and e: "buffer_ok (entry_of st rid)" using ok by (simp_all add: flow_ok_def)
  have it: "item_ok item" by (auto simp: item_def buffered_item_def item_ok_def normalizeBufferedByteLength_def)
  have push: "buffer_ok (push_entry item (entry_of st rid))" using e it by (rule entry_push)
  have cnt: "buffered_count (push_entry item (entry_of st rid)) = buffered_count (entry_of st rid) + 1"
    using queue_push[OF e] by (simp add: buffered_count_queue[OF push] buffered_count_queue[OF e])
  have bytes: "fe_bufferedBytes (push_entry item (entry_of st rid)) = fe_bufferedBytes (entry_of st rid) + normalizeBufferedByteLength byteLength"
    by (simp add: item_def buffered_item_def push_entry_def)
  have eo: "entry_of ?st q = entry_of ?u q" for q by (simp add: entry_of_def)
  show "entry_of st' r = (if r = rid then push_entry item (entry_of st rid) else entry_of st r)" unfolding st' eo by simp
  show "timer_of st' r = timer_of st r" unfolding st' using update_entry_timer[of rid "push_entry item" st r] by (simp add: timer_of_def)
  show "globalTotalBufferedChunks st' = globalTotalBufferedChunks st + 1"
    "globalTotalBufferedBytes st' = globalTotalBufferedBytes st + normalizeBufferedByteLength byteLength"
    unfolding st' by (simp_all add: update_entry_sums[OF wf])
  show "r \<noteq> rid \<Longrightarrow> jm_get (entriesByRequestId st') r = jm_get (entriesByRequestId st) r" unfolding st' by (simp add: update_entry_get)
  show "flow_ok st'" unfolding st' flow_ok_def eo using ok push cnt bytes by (simp add: update_entry_sums[OF wf] flow_ok_def)
qed

lemma ensure_entry_of [simp]:
  "entry_of (snd (ensureRelayStreamFlowEntry rid st)) r = entry_of st r" "timer_of (snd (ensureRelayStreamFlowEntry rid st)) r = timer_of st r"
  by (simp_all add: entry_of_def timer_of_def ensureRelayStreamFlowEntry_def split: option.split)

lemma flow_ok_ensure: "flow_ok st \<Longrightarrow> flow_ok (snd (ensureRelayStreamFlowEntry rid st))"
  unfolding flow_ok_def ensure_entry_of
  by (auto simp: ensureRelayStreamFlowEntry_def jm_sum_set split: option.split)

lemma global_nonneg:
  assumes "flow_ok st"
  shows "buffered_count (entry_of st rid) \<le> globalTotalBufferedChunks st" "fe_bufferedBytes (entry_of st rid) \<le> globalTotalBufferedBytes st"
    "0 \<le> fe_bufferedBytes (entry_of st rid)"
proof -
  have ok: "buffer_ok (entry_of st r)" for r using assms by (simp add: flow_ok_def)
  have byt: "0 \<le> fe_bufferedBytes (entry_of st r)" for r
    using ok[of r] by (auto simp: buffer_ok_def tally_def item_ok_bytes intro!: sum_list_nonneg)
  then show "0 \<le> fe_bufferedBytes (entry_of st rid)" by simp
  have wf: "jm_wf (entriesByRequestId st)" using assms by (simp add: flow_ok_def)
  have ent: "entry_of st k = e" if "(k, e) \<in> set (entriesByRequestId st)" for k e
    using jm_in_set_get[OF wf that] by (simp add: entry_of_def)
  have member: "f (entry_of st rid) \<le> jm_sum f (entriesByRequestId st)"
    if "\<And>r. 0 \<le> f (entry_of st r)" "f new_flow_entry = 0" for f :: "flow_entry \<Rightarrow> int"
  proof (cases "jm_get (entriesByRequestId st) rid")
    case None
    then have "f (entry_of st rid) = 0" using that by (simp add: entry_of_def)
    also have "\<dots> \<le> jm_sum f (entriesByRequestId st)" unfolding jm_sum_def
      using that(1) ent by (intro sum_list_nonneg) force
    finally show ?thesis .
  next
    case (Some e)
    then have "(rid, e) \<in> set (entriesByRequestId st)" by (rule jm_get_in_set)
    then have "f e \<in> set (map (\<lambda>p. f (snd p)) (entriesByRequestId st))" by force
    moreover have "\<And>x. x \<in> set (map (\<lambda>p. f (snd p)) (entriesByRequestId st)) \<Longrightarrow> 0 \<le> x" using that(1) ent by force
    ultimately have "f e \<le> sum_list (map (\<lambda>p. f (snd p)) (entriesByRequestId st))" by (rule member_le_sum_list)
    then show ?thesis using Some by (simp add: jm_sum_def entry_of_def)
  qed
  show "buffered_count (entry_of st rid) \<le> globalTotalBufferedChunks st"
    using member[of buffered_count] assms by (simp add: flow_ok_def buffered_count_nonneg)
  show "fe_bufferedBytes (entry_of st rid) \<le> globalTotalBufferedBytes st"
    using member[of fe_bufferedBytes] byt assms by (simp add: flow_ok_def)
qed

lemma peek_front:
  assumes "buffer_ok (entry_of st rid)"
  shows "peekRelayStreamBufferedChunk rid st =
    (case queue_of (entry_of st rid) of [] \<Rightarrow> None | (chunk, raw, _, meta) # _ \<Rightarrow> Some (chunk, raw, meta))"
proof (cases "jm_get (entriesByRequestId st) rid")
  case None
  then show ?thesis by (simp add: peekRelayStreamBufferedChunk_def entry_of_def new_entry_ok)
next
  case (Some e)
  then have e: "entry_of st rid = e" by (simp add: entry_of_def)
  then show ?thesis using front_queue[of e] assms Some
    by (auto simp: peekRelayStreamBufferedChunk_def front_entry_def Let_def split: list.splits if_splits)
qed

lemma pop_effect:
  fixes rid r :: string
  assumes ok: "flow_ok st" and ne: "queue_of (entry_of st rid) \<noteq> []"
  defines "st' \<equiv> snd (popRelayStreamBufferedChunk rid st)"
  shows "flow_ok st'" "entry_of st' r = (if r = rid then pop_entry (entry_of st rid) else entry_of st r)" "timer_of st' r = timer_of st r"
    "globalTotalBufferedChunks st' = globalTotalBufferedChunks st - 1" "globalTotalBufferedBytes st' \<le> globalTotalBufferedBytes st"
    "r \<noteq> rid \<Longrightarrow> jm_get (entriesByRequestId st') r = jm_get (entriesByRequestId st) r"
proof -
  obtain e where get: "jm_get (entriesByRequestId st) rid = Some e" and e: "entry_of st rid = e"
    using ne by (cases "jm_get (entriesByRequestId st) rid") (auto simp: entry_of_def new_entry_ok)
  have eok: "buffer_ok e" using ok e unfolding flow_ok_def by metis
  have head: "\<not> bufferedChunkHead e \<ge> length (bufferedChunks e)" using ne e queue_length[OF eok] by auto
  note pop = entry_pop[OF eok ne[unfolded e]]
  have b0: "0 \<le> bufferedChunkBytes e ! bufferedChunkHead e"
    using front_queue[OF eok] ne e eok head
    by (cases "queue_of e") (auto simp: front_entry_def buffer_ok_def item_ok_def Let_def split: prod.splits)
  have cnt: "buffered_count (pop_entry e) = buffered_count e - 1"
    using ne e by (simp add: buffered_count_queue[OF pop(2)] buffered_count_queue[OF eok] pop(1) of_nat_diff Suc_le_eq)
  have pos: "1 \<le> buffered_count e" using ne e by (cases "queue_of e") (simp_all add: buffered_count_queue[OF eok])
  have g: "max 0 (globalTotalBufferedChunks st - 1) = globalTotalBufferedChunks st - 1"
    using global_nonneg(1)[OF ok, of rid] pos e by simp
  have p0: "0 \<le> fe_bufferedBytes (pop_entry e)"
    using pop(2) by (auto simp: buffer_ok_def tally_def item_ok_bytes intro!: sum_list_nonneg)
  have gb: "max 0 (globalTotalBufferedBytes st - bufferedChunkBytes e ! bufferedChunkHead e) =
      globalTotalBufferedBytes st - bufferedChunkBytes e ! bufferedChunkHead e"
    using global_nonneg(2)[OF ok, of rid] p0 pop(3) e by simp
  have st': "st' = st\<lparr>entriesByRequestId := jm_set rid (pop_entry e) (entriesByRequestId st),
      globalTotalBufferedChunks := globalTotalBufferedChunks st - 1,
      globalTotalBufferedBytes := globalTotalBufferedBytes st - bufferedChunkBytes e ! bufferedChunkHead e\<rparr>"
    using head by (simp add: st'_def popRelayStreamBufferedChunk_def get g gb)
  show eo: "entry_of st' r = (if r = rid then pop_entry (entry_of st rid) else entry_of st r)" for r by (simp add: st' entry_of_def get)
  show "timer_of st' r = timer_of st r" by (simp add: st' timer_of_def)
  show "r \<noteq> rid \<Longrightarrow> jm_get (entriesByRequestId st') r = jm_get (entriesByRequestId st) r" by (simp add: st')
  show "globalTotalBufferedChunks st' = globalTotalBufferedChunks st - 1" "globalTotalBufferedBytes st' \<le> globalTotalBufferedBytes st"
    using b0 by (simp_all add: st')
  show "flow_ok st'" unfolding flow_ok_def eo using ok pop(2,3) cnt e get by (simp add: flow_ok_def st' jm_sum_set)
qed

lemma timer_effects [simp]:
  "entry_of (clearRelayStreamBackpressureRetryTimer rid st) r = entry_of st r"
  "timer_of (clearRelayStreamBackpressureRetryTimer rid st) r = (if r = rid then None else timer_of st r)"
  "entry_of (setRelayStreamBackpressureRetryTimer rid k st) r = entry_of st r"
  "timer_of (setRelayStreamBackpressureRetryTimer rid k st) r = (if r = rid then Some k else timer_of st r)"
  "hasRelayStreamBackpressureRetryTimer rid st \<longleftrightarrow> timer_of st rid \<noteq> None"
  by (auto simp: clearRelayStreamBackpressureRetryTimer_def setRelayStreamBackpressureRetryTimer_def hasRelayStreamBackpressureRetryTimer_def
      entry_of_def timer_of_def Let_def)

lemma timer_books [simp]:
  "entriesByRequestId (clearRelayStreamBackpressureRetryTimer rid st) = entriesByRequestId st"
  "globalTotalBufferedChunks (clearRelayStreamBackpressureRetryTimer rid st) = globalTotalBufferedChunks st"
  "globalTotalBufferedBytes (clearRelayStreamBackpressureRetryTimer rid st) = globalTotalBufferedBytes st"
  "entriesByRequestId (setRelayStreamBackpressureRetryTimer rid k st) = entriesByRequestId st"
  "globalTotalBufferedChunks (setRelayStreamBackpressureRetryTimer rid k st) = globalTotalBufferedChunks st"
  "globalTotalBufferedBytes (setRelayStreamBackpressureRetryTimer rid k st) = globalTotalBufferedBytes st"
  by (simp_all add: clearRelayStreamBackpressureRetryTimer_def setRelayStreamBackpressureRetryTimer_def Let_def)

lemma flow_ok_timers [simp]:
  "flow_ok (clearRelayStreamBackpressureRetryTimer rid st) = flow_ok st" "flow_ok (setRelayStreamBackpressureRetryTimer rid k st) = flow_ok st"
  by (simp_all add: flow_ok_def)

lemma clear_effect:
  fixes rid r :: string
  assumes ok: "flow_ok st"
  defines "st' \<equiv> clearRelayStreamFlowState rid st"
  shows "flow_ok st'" "entry_of st' r = (if r = rid then new_flow_entry else entry_of st r)"
    "timer_of st' r = (if r = rid then None else timer_of st r)" "jm_get (entriesByRequestId st') rid = None"
    "globalTotalBufferedChunks st' \<le> globalTotalBufferedChunks st" "globalTotalBufferedBytes st' \<le> globalTotalBufferedBytes st"
    "r \<noteq> rid \<Longrightarrow> jm_get (entriesByRequestId st') r = jm_get (entriesByRequestId st) r"
proof -
  let ?e = "entry_of st rid"
  have wf: "jm_wf (entriesByRequestId st)" and eok: "buffer_ok ?e" using ok by (simp_all add: flow_ok_def)
  have zero: "fe_bufferedBytes ?e = 0" if "\<not> length (bufferedChunks ?e) > bufferedChunkHead ?e"
    using that eok queue_length[OF eok] by (simp add: buffer_ok_def tally_def)
  have st': "st' = clearRelayStreamBackpressureRetryTimer rid (st\<lparr>globalTotalBufferedChunks := globalTotalBufferedChunks st - buffered_count ?e,
      globalTotalBufferedBytes := globalTotalBufferedBytes st - fe_bufferedBytes ?e, entriesByRequestId := jm_del rid (entriesByRequestId st)\<rparr>)"
  proof (cases "jm_get (entriesByRequestId st) rid")
    case None
    then show ?thesis by (simp add: st'_def clearRelayStreamFlowState_def entry_of_def)
  next
    case (Some e)
    then have e: "?e = e" by (simp add: entry_of_def)
    have le: "buffered_count e \<le> globalTotalBufferedChunks st" "fe_bufferedBytes e \<le> globalTotalBufferedBytes st"
      using global_nonneg[OF ok, of rid] e by simp_all
    show ?thesis
    proof (cases "length (bufferedChunks e) > bufferedChunkHead e")
      case True
      then have "buffered_count e = int (length (bufferedChunks e)) - int (bufferedChunkHead e)" by (simp add: buffered_count_def)
      then show ?thesis using True Some le by (simp add: st'_def clearRelayStreamFlowState_def e)
    next
      case False
      then have "buffered_count e = 0" "fe_bufferedBytes e = 0" using zero e by (simp_all add: buffered_count_def)
      then show ?thesis using False Some by (simp add: st'_def clearRelayStreamFlowState_def e)
    qed
  qed
  show eo: "entry_of st' r = (if r = rid then new_flow_entry else entry_of st r)" for r unfolding st' timer_effects by (simp add: entry_of_def)
  show "timer_of st' r = (if r = rid then None else timer_of st r)" unfolding st' timer_effects by (simp add: timer_of_def)
  show "jm_get (entriesByRequestId st') rid = None" by (simp add: st')
  show "r \<noteq> rid \<Longrightarrow> jm_get (entriesByRequestId st') r = jm_get (entriesByRequestId st) r" by (simp add: st')
  show "globalTotalBufferedChunks st' \<le> globalTotalBufferedChunks st" "globalTotalBufferedBytes st' \<le> globalTotalBufferedBytes st"
    using global_nonneg(3)[OF ok, of rid] by (simp_all add: st' buffered_count_def)
  have split: "(case jm_get (entriesByRequestId st) rid of None \<Rightarrow> 0 | Some w \<Rightarrow> f w) = f ?e" if "f new_flow_entry = 0" for f :: "flow_entry \<Rightarrow> int"
    using that by (simp add: entry_of_def split: option.split)
  show "flow_ok st'" unfolding flow_ok_def eo using ok
    by (simp add: st' flow_ok_def jm_sum_del[OF wf] split[of buffered_count] split[of fe_bufferedBytes] new_entry_ok)
qed

end
