(* ===== verification/Rest_Stream_Materialize.thy ===== *)
theory Rest_Stream_Materialize
  imports Sql_Chunk_Codec Active_Stream_Registry Agent_Registry
begin

text \<open>
  A SQL stream that answers a REST request: \<^verbatim>\<open>application/agent_commands/merge_sql_stream_rpc_response.ts\<close>,
  \<^verbatim>\<open>hub/relay/rest_stream_materialize_handler.ts\<close> and the chunk and complete handlers of \<^verbatim>\<open>rpc_bridge_agent_inbound.ts\<close> for such a stream.

  The hub opens a stream route whose handlers accumulate the rows, pulls chunk after chunk from the agent, and answers the
  request with the merged response. The state has the stream registry and the credit windows of Active_Stream_Registry
  and the variables of the handler's closure; what the handler does to the outside is a list of effects.
\<close>

section \<open>Merging\<close>

text \<open>The own properties of an object or an array; the names of array elements are their indices.\<close>

definition record_of :: "jvalue option \<Rightarrow> jobject option" where
  "record_of v = (case v of
     Some (JvObj fs) \<Rightarrow> Some fs
   | Some (JvArr xs) \<Rightarrow> Some (map (\<lambda>i. (nat_text i, xs ! i)) [0..<length xs])
   | _ \<Rightarrow> None)"

definition rows_of :: "jobject \<Rightarrow> jvalue list" where
  "rows_of ob = (case arr_of (jfield ob ''rows'') of Some rows \<Rightarrow> rows | None \<Rightarrow> [])"

text \<open>The envelope and its result, when both are records; otherwise the response is returned as it is.\<close>

definition envelope_result :: "jvalue \<Rightarrow> (jobject \<times> jobject) option" where
  "envelope_result initialRpc =
     (case record_of (Some initialRpc) of
        None \<Rightarrow> None
      | Some envelope \<Rightarrow> (case record_of (jfield envelope ''result'') of None \<Rightarrow> None | Some result \<Rightarrow> Some (envelope, result)))"

definition stream_failed :: "jobject \<Rightarrow> ustring option" where
  "stream_failed completion =
     (case jfield completion ''terminal_status'' of
        Some (JvStr s) \<Rightarrow> if s = ustr ''aborted'' \<or> s = ustr ''error'' then Some s else None
      | _ \<Rightarrow> None)"

definition total_rows_of :: "jobject \<Rightarrow> jvalue list \<Rightarrow> jvalue" where
  "total_rows_of completion rows =
     (case jfield completion ''total_rows'' of Some (JvNum x) \<Rightarrow> JvNum x | _ \<Rightarrow> JvNum (of_nat (length rows)))"

definition merged_response :: "jobject \<Rightarrow> jobject \<Rightarrow> jvalue list \<Rightarrow> jobject \<Rightarrow> jvalue" where
  "merged_response envelope result rows completion =
     (let mergedResult = jm_del (ustr ''stream_id'')
            (jm_set (ustr ''total_rows'') (total_rows_of completion rows) (jm_set (ustr ''rows'') (JvArr rows) result))
      in JvObj (jm_set (ustr ''result'') (JvObj mergedResult) envelope))"

fun append_chunks :: "jvalue list \<Rightarrow> jobject list \<Rightarrow> jvalue list" where
  "append_chunks rows [] = rows"
| "append_chunks rows (chunk # chunks) = append_chunks (rows @ rows_of chunk) chunks"

text \<open>\<open>Inl\<close> is the exception for a stream that ended with the given status.\<close>

definition mergeSqlStreamRpcResponse :: "jvalue \<Rightarrow> jobject list \<Rightarrow> jobject \<Rightarrow> ustring + jvalue" where
  "mergeSqlStreamRpcResponse initialRpc chunks completion =
     (case envelope_result initialRpc of
        None \<Rightarrow> Inr initialRpc
      | Some (envelope, result) \<Rightarrow>
          (case stream_failed completion of
             Some s \<Rightarrow> Inl s
           | None \<Rightarrow> Inr (merged_response envelope result (append_chunks (rows_of result) chunks) completion)))"

definition mergeSqlStreamRpcResponseRows :: "jvalue \<Rightarrow> jvalue list \<Rightarrow> jobject \<Rightarrow> bool \<Rightarrow> ustring + jvalue" where
  "mergeSqlStreamRpcResponseRows initialRpc appendedRows completion takeOwnership =
     (case envelope_result initialRpc of
        None \<Rightarrow> Inr initialRpc
      | Some (envelope, result) \<Rightarrow>
          (case stream_failed completion of
             Some s \<Rightarrow> Inl s
           | None \<Rightarrow>
               (let initialRows = rows_of result;
                    rows = (if takeOwnership \<and> initialRows = [] then appendedRows
                            else if appendedRows = [] then initialRows else initialRows @ appendedRows)
                in Inr (merged_response envelope result rows completion))))"

definition mergeSqlStreamRpcResponseWithAppendedRows :: "jvalue \<Rightarrow> jvalue list \<Rightarrow> jobject \<Rightarrow> ustring + jvalue" where
  "mergeSqlStreamRpcResponseWithAppendedRows initialRpc rows completion = mergeSqlStreamRpcResponseRows initialRpc rows completion False"

definition mergeSqlStreamRpcResponseWithOwnedRows :: "jvalue \<Rightarrow> jvalue list \<Rightarrow> jobject \<Rightarrow> ustring + jvalue" where
  "mergeSqlStreamRpcResponseWithOwnedRows initialRpc rows completion = mergeSqlStreamRpcResponseRows initialRpc rows completion True"

definition countSqlExecuteResultRowsInEnvelope :: "jvalue \<Rightarrow> int" where
  "countSqlExecuteResultRowsInEnvelope envelope =
     (case envelope_result envelope of None \<Rightarrow> 0 | Some (_, result) \<Rightarrow> int (length (rows_of result)))"

definition countSqlStreamChunkRows :: "jobject \<Rightarrow> int" where
  "countSqlStreamChunkRows chunk = int (length (rows_of chunk))"

section \<open>The handler\<close>

datatype mat_limit = ChunkLimit | RowLimit | ByteLimit

datatype mat_error = LimitExceeded mat_limit | StreamEnded ustring | InvalidFrameError | StreamAborted

datatype mat_outcome = MatPending | MatResolved jvalue | MatRejected mat_error

datatype mat_effect = EmitPull int | AgentFailure | AgentSuccess

record mat_env =
  socketRestSqlStreamMaterializeMaxRows :: int
  socketRestSqlStreamMaterializeMaxChunks :: int
  socketRestSqlStreamMaterializeMaxBytes :: int
  socketRestStreamPullWindowSize :: rat

record materialize =
  mz_streams :: stream_registry
  mz_credits :: "(string, int) jsmap"
  mz_requestId :: string
  mz_socketId :: string
  mz_window :: int
  mz_initial :: jvalue
  streamedRows :: "jvalue list"
  aggregatedRowCount :: int
  aggregatedByteCount :: int
  chunkFramesSeen :: int
  mz_outcome :: mat_outcome
  mz_effects :: "mat_effect list"

text \<open>\<^verbatim>\<open>resolve\<close> and \<^verbatim>\<open>reject\<close> of the request act once.\<close>

definition mat_settle :: "mat_outcome \<Rightarrow> materialize \<Rightarrow> materialize" where
  "mat_settle result m = (if mz_outcome m = MatPending then m\<lparr>mz_outcome := result\<rparr> else m)"

definition mat_emit :: "mat_effect \<Rightarrow> materialize \<Rightarrow> materialize" where
  "mat_emit e m = m\<lparr>mz_effects := mz_effects m @ [e]\<rparr>"

text \<open>What the effects of a registry operation do to the rest of the state.\<close>

definition apply_stream_effects :: "mat_error \<Rightarrow> stream_effect list \<times> stream_registry \<Rightarrow> materialize \<Rightarrow> materialize" where
  "apply_stream_effects err res m =
     (let rid = mz_requestId m; (eff, st) = res;
          m1 = m\<lparr>mz_streams := st,
                mz_credits := (if RestSqlStreamMaterializeClearRequest rid \<in> set eff
                               then restSqlStreamMaterializeClearRequest rid (mz_credits m) else mz_credits m)\<rparr>
      in if RejectMaterialize rid \<in> set eff then mat_settle (MatRejected err) m1 else m1)"

definition mat_remove :: "remove_mode \<Rightarrow> materialize \<Rightarrow> materialize" where
  "mat_remove mode m = apply_stream_effects StreamAborted (removeActiveStreamRoute mode (mz_requestId m) (mz_streams m)) m"

definition mat_live :: "materialize \<Rightarrow> bool" where
  "mat_live m \<longleftrightarrow> getActiveStreamRouteByRequestId (mz_requestId m) (mz_streams m) \<noteq> None"

definition exceeded :: "mat_env \<Rightarrow> int \<Rightarrow> int \<Rightarrow> materialize \<Rightarrow> mat_limit option" where
  "exceeded env chunkRows chunkBytes m =
     (let maxRows = socketRestSqlStreamMaterializeMaxRows env; maxChunks = socketRestSqlStreamMaterializeMaxChunks env;
          maxBytes = socketRestSqlStreamMaterializeMaxBytes env
      in if maxChunks > 0 \<and> chunkFramesSeen m + 1 > maxChunks then Some ChunkLimit
         else if maxRows > 0 \<and> aggregatedRowCount m + chunkRows > maxRows then Some RowLimit
         else if maxBytes > 0 \<and> aggregatedByteCount m + chunkBytes > maxBytes then Some ByteLimit
         else None)"

definition admitNormalizedChunk :: "mat_env \<Rightarrow> int \<Rightarrow> int \<Rightarrow> materialize \<Rightarrow> bool \<times> materialize" where
  "admitNormalizedChunk env chunkRows chunkBytes m =
     (case exceeded env chunkRows chunkBytes m of
        None \<Rightarrow> (True, m)
      | Some limit \<Rightarrow> (False, mat_settle (MatRejected (LimitExceeded limit)) (mat_remove DetachMaterialize (mat_emit AgentFailure m))))"

text \<open>\<^verbatim>\<open>resolveStreamChunkOriginalSizeBytes\<close>: the size the frame declared when it is a natural number, else the printed size.\<close>

definition resolveStreamChunkOriginalSizeBytes :: "(rat \<Rightarrow> ustring) \<Rightarrow> jobject \<Rightarrow> int option \<Rightarrow> int" where
  "resolveStreamChunkOriginalSizeBytes num payload metadata =
     (case metadata of Some n \<Rightarrow> if n < 0 then json_bytes num (JvObj payload) else n | None \<Rightarrow> json_bytes num (JvObj payload))"

definition mat_onChunk :: "(rat \<Rightarrow> ustring) \<Rightarrow> mat_env \<Rightarrow> jobject \<Rightarrow> int option \<Rightarrow> materialize \<Rightarrow> materialize" where
  "mat_onChunk num env payload metadata m =
     (let maxBytes = socketRestSqlStreamMaterializeMaxBytes env;
          chunkRows = countSqlStreamChunkRows payload;
          chunkBytes = (if maxBytes > 0 then resolveStreamChunkOriginalSizeBytes num payload metadata else 0);
          (ok, m1) = admitNormalizedChunk env chunkRows chunkBytes m
      in if \<not> ok then m1
         else let m2 = m1\<lparr>chunkFramesSeen := chunkFramesSeen m1 + 1,
                          aggregatedByteCount := (if maxBytes > 0 then aggregatedByteCount m1 + chunkBytes else aggregatedByteCount m1),
                          aggregatedRowCount := aggregatedRowCount m1 + chunkRows,
                          streamedRows := streamedRows m1 @ rows_of payload\<rparr>;
                  (pull, credits) = restSqlStreamMaterializeConsumeChunk (mz_requestId m) (mz_window m) (mz_credits m2);
                  m3 = (if pull \<and> mat_live m2 then mat_emit (EmitPull (mz_window m)) m2 else m2)
              in m3\<lparr>mz_credits := credits\<rparr>)"

definition mat_onComplete :: "jobject \<Rightarrow> materialize \<Rightarrow> materialize" where
  "mat_onComplete payload m =
     (let m1 = apply_stream_effects StreamAborted (settleRestMaterializeSuccess (mz_requestId m) (mz_streams m)) m;
          completedRows = streamedRows m1;
          m2 = m1\<lparr>streamedRows := []\<rparr>;
          merged = (if completedRows \<noteq> [] then mergeSqlStreamRpcResponseWithOwnedRows (mz_initial m) completedRows payload
                    else mergeSqlStreamRpcResponse (mz_initial m) [] payload)
      in case merged of
           Inr v \<Rightarrow> mat_settle (MatResolved v) m2
         | Inl s \<Rightarrow> mat_settle (MatRejected (StreamEnded s)) m2)"

text \<open>\<^verbatim>\<open>handleAgentRpcChunk\<close> once the frame is decoded: the route must still be registered, a columnar chunk is expanded
  within the row limit negotiated with the agent and the byte limit of the hub, and an invalid one fails the stream.\<close>

definition mat_chunk ::
    "(rat \<Rightarrow> ustring) \<Rightarrow> mat_env \<Rightarrow> int \<Rightarrow> int \<Rightarrow> jobject \<times> int \<Rightarrow> materialize \<Rightarrow> materialize" where
  "mat_chunk num env maxRows maxBytes frame m =
     (let (data, originalSize) = frame
      in if \<not> mat_live m then m
         else if jfield data ''columnar'' = None then mat_onChunk num env data (Some originalSize) m
         else case normalizeColumnarSqlChunk num data maxRows maxBytes (Some (\<lambda>rows bytes. exceeded env rows bytes m = None)) None of
                Inl _ \<Rightarrow> apply_stream_effects InvalidFrameError (failFastMaterialize (mz_socketId m) (mz_requestId m) (mz_streams m)) m
              | Inr (NotAdmitted rows bytes) \<Rightarrow> snd (admitNormalizedChunk env rows bytes m)
              | Inr (Normalized payload bytes) \<Rightarrow> mat_onChunk num env payload (Some bytes) m
              | Inr NotColumnar \<Rightarrow> mat_onChunk num env data (Some originalSize) m)"

definition mat_complete :: "jobject \<Rightarrow> materialize \<Rightarrow> materialize" where
  "mat_complete payload m = (if \<not> mat_live m then m else mat_remove AbortMaterialize (mat_onComplete payload m))"

datatype mat_start = StartCapacity | StartRowLimit | StartError stream_error | Started materialize

definition startRestStreamMaterialization ::
    "mat_env \<Rightarrow> agent_env \<Rightarrow> agent_registry \<Rightarrow> string \<Rightarrow> string \<Rightarrow> string \<Rightarrow> nat \<Rightarrow> jvalue \<Rightarrow> int \<Rightarrow> string \<Rightarrow>
     stream_registry \<Rightarrow> (string, int) jsmap \<Rightarrow> mat_start" where
  "startRestStreamMaterialization env aenv ar socketId agentId rid timeoutHandle initialJson originalSize streamId st credits =
     (let pullWindow = resolveStreamPullWindow aenv agentId (socketRestStreamPullWindowSize env)
            (Window (socketRestStreamPullWindowSize env)) ar;
          rows = countSqlExecuteResultRowsInEnvelope initialJson
      in if countOpenStreamRoutesForAgent socketId st \<ge> dp_maxConcurrentStreams (resolveEffectiveDispatchPolicy agentId ar)
         then StartCapacity
         else if socketRestSqlStreamMaterializeMaxRows env > 0 \<and> rows > socketRestSqlStreamMaterializeMaxRows env then StartRowLimit
         else case upsertActiveStreamRoute
                \<lparr>si_requestId = rid, si_agentSocketId = socketId, si_agentId = agentId,
                 si_consumerSocketId = ''__plug_rest_sql_stream_aggregate__'', si_conversationId = None,
                 si_mode = Some LegacyMode, si_streamId = Some streamId,
                 si_restMaterializeState = Some \<lparr>mt_settled = False, mt_timeoutHandle = timeoutHandle, mt_agentId = agentId\<rparr>\<rparr> st of
              (Inl err, _) \<Rightarrow> StartError err
            | (Inr _, st') \<Rightarrow>
                Started \<lparr>mz_streams = st', mz_credits = restSqlStreamMaterializeSeedCredits rid pullWindow credits,
                  mz_requestId = rid, mz_socketId = socketId, mz_window = pullWindow, mz_initial = initialJson, streamedRows = [],
                  aggregatedRowCount = rows,
                  aggregatedByteCount = (if socketRestSqlStreamMaterializeMaxBytes env > 0 then originalSize else 0),
                  chunkFramesSeen = 0, mz_outcome = MatPending, mz_effects = [AgentSuccess, EmitPull pullWindow]\<rparr>)"

section \<open>Merging variants agree\<close>

lemma append_chunks_concat: "append_chunks rows chunks = rows @ concat (map rows_of chunks)"
  by (induction chunks arbitrary: rows) auto

lemma merge_rows_owned: "mergeSqlStreamRpcResponseRows initial rows completion own = mergeSqlStreamRpcResponseRows initial rows completion False"
  by (simp add: mergeSqlStreamRpcResponseRows_def Let_def split: option.splits)

lemma merge_rows_chunks:
  "concat (map rows_of chunks) = rows \<Longrightarrow> mergeSqlStreamRpcResponse initial chunks completion = mergeSqlStreamRpcResponseRows initial rows completion own"
  by (auto simp: mergeSqlStreamRpcResponse_def mergeSqlStreamRpcResponseRows_def append_chunks_concat Let_def split: option.splits)

section \<open>One chunk\<close>

text \<open>What a frame contributes: its rows, read as \<^verbatim>\<open>readSqlChunkRows\<close> does, and its size; \<open>None\<close> for a columnar chunk that cannot be expanded.\<close>

definition frame_rows :: "(rat \<Rightarrow> ustring) \<Rightarrow> jobject \<times> int \<Rightarrow> jvalue list" where
  "frame_rows num frame = (case readSqlChunkRows num (fst frame) of Inr rows \<Rightarrow> rows | Inl _ \<Rightarrow> [])"

definition frame_size :: "(rat \<Rightarrow> ustring) \<Rightarrow> int \<Rightarrow> int \<Rightarrow> jobject \<times> int \<Rightarrow> int option" where
  "frame_size num maxRows maxBytes frame =
     (if jfield (fst frame) ''columnar'' = None then Some (resolveStreamChunkOriginalSizeBytes num (fst frame) (Some (snd frame)))
      else case normalize_reference num (fst frame) maxRows maxBytes None of Inr (Normalized _ bytes) \<Rightarrow> Some bytes | _ \<Rightarrow> None)"

lemma resolve_nonneg: "0 \<le> resolveStreamChunkOriginalSizeBytes num payload metadata"
  by (simp add: resolveStreamChunkOriginalSizeBytes_def split: option.split)

lemma frame_size_nonneg: "frame_size num maxRows maxBytes frame = Some b \<Longrightarrow> 0 \<le> b"
  by (auto simp: frame_size_def normalize_reference_def Let_def resolve_nonneg split: if_splits inspection.splits sum.splits normalized.splits)

lemma frame_rows_plain: "jfield (fst frame) ''columnar'' = None \<Longrightarrow> frame_rows num frame = rows_of (fst frame)"
  by (simp add: frame_rows_def readSqlChunkRows_def rows_of_def)

lemma normalize_admit:
  assumes num: "\<And>x. ascii (num x)"
  shows "normalizeColumnarSqlChunk num data maxRows maxBytes (Some ok) None =
    (case normalize_reference num data maxRows maxBytes None of
       Inr (Normalized p b) \<Rightarrow> if ok (countSqlStreamChunkRows p) b then Inr (Normalized p b) else Inr (NotAdmitted (countSqlStreamChunkRows p) b)
     | r \<Rightarrow> r)"
proof -
  have "normalizeColumnarSqlChunk num data maxRows maxBytes (Some ok) None = normalize_reference num data maxRows maxBytes (Some ok)"
    by (rule normalize_exact[OF num]) simp
  moreover have "countSqlStreamChunkRows (jm_set (ustr ''rows'') (JvArr rows) (jm_del (ustr ''columnar'') data)) = int (length rows)" for rows
    by (simp add: countSqlStreamChunkRows_def rows_of_def jfield_normalized arr_of_def)
  moreover have "n = int (length (case columns of Some cols \<Rightarrow> map JvObj (expandInspectedSqlChunkRows n cols)
      | None \<Rightarrow> (case arr_of (jfield data ''rows'') of Some rs \<Rightarrow> rs | None \<Rightarrow> [])))"
    if "inspectSqlStreamChunk num data = InspectOk n columns" for n columns
  proof (cases columns)
    case None
    then show ?thesis using inspect_none_rows[of num data n] that by (auto simp: arr_of_def)
  next
    case (Some cols)
    then show ?thesis using inspect_ok_columns(1)[of num data n cols] that by (simp add: columns_ok_def expandInspectedSqlChunkRows_def)
  qed
  ultimately show ?thesis
    by (auto simp: normalize_reference_def Let_def split: inspection.splits)
qed

lemma normalized_rows:
  assumes num: "\<And>x. ascii (num x)" and n: "normalize_reference num (fst frame) maxRows maxBytes None = Inr (Normalized p b)"
  shows "rows_of p = frame_rows num frame" and "0 \<le> b"
proof -
  have n': "normalizeColumnarSqlChunk num (fst frame) maxRows maxBytes None None = Inr (Normalized p b)"
    using normalize_exact[of num None "fst frame", OF num] n by simp
  note r = normalized_reads[OF num n']
  then have "readSqlChunkRows num p = Inr (rows_of p)" by (simp add: readSqlChunkRows_def rows_of_def)
  then show "rows_of p = frame_rows num frame" using r by (simp add: frame_rows_def)
  show "0 \<le> b" using r by simp
qed

section \<open>The stream so far\<close>

definition fits :: "(rat \<Rightarrow> ustring) \<Rightarrow> mat_env \<Rightarrow> int \<Rightarrow> int \<Rightarrow> materialize \<Rightarrow> (jobject \<times> int) list \<Rightarrow> bool" where
  "fits num env maxRows maxBytes m0 frames \<longleftrightarrow>
     (\<forall>f \<in> set frames. frame_size num maxRows maxBytes f \<noteq> None) \<and>
     (frames = [] \<or>
       (socketRestSqlStreamMaterializeMaxChunks env > 0 \<longrightarrow> int (length frames) \<le> socketRestSqlStreamMaterializeMaxChunks env) \<and>
       (socketRestSqlStreamMaterializeMaxRows env > 0 \<longrightarrow>
          aggregatedRowCount m0 + int (length (concat (map (frame_rows num) frames))) \<le> socketRestSqlStreamMaterializeMaxRows env) \<and>
       (socketRestSqlStreamMaterializeMaxBytes env > 0 \<longrightarrow>
          aggregatedByteCount m0 + tally (\<lambda>f. the (frame_size num maxRows maxBytes f)) frames \<le> socketRestSqlStreamMaterializeMaxBytes env))"

text \<open>The state after a stream of frames that fit.\<close>

definition fed :: "(rat \<Rightarrow> ustring) \<Rightarrow> mat_env \<Rightarrow> int \<Rightarrow> int \<Rightarrow> materialize \<Rightarrow> (jobject \<times> int) list \<Rightarrow> materialize \<Rightarrow> bool" where
  "fed num env maxRows maxBytes m0 frames m \<longleftrightarrow>
     mz_streams m = mz_streams m0 \<and> mz_requestId m = mz_requestId m0 \<and> mz_socketId m = mz_socketId m0 \<and> mz_initial m = mz_initial m0 \<and>
     mz_outcome m = MatPending \<and> streamedRows m = concat (map (frame_rows num) frames) \<and>
     aggregatedRowCount m = aggregatedRowCount m0 + int (length (streamedRows m)) \<and> chunkFramesSeen m = int (length frames) \<and>
     (socketRestSqlStreamMaterializeMaxBytes env > 0 \<longrightarrow>
        aggregatedByteCount m = aggregatedByteCount m0 + tally (\<lambda>f. the (frame_size num maxRows maxBytes f)) frames)"

definition ended :: "materialize \<Rightarrow> bool" where
  "ended m \<longleftrightarrow> \<not> mat_live m \<and> (\<exists>err. mz_outcome m = MatRejected err)"

lemma fits_prefix:
  assumes "fits num env maxRows maxBytes m0 (pre @ rest)"
  shows "fits num env maxRows maxBytes m0 pre"
proof (cases "pre = []")
  case False
  have "0 \<le> tally (\<lambda>f. the (frame_size num maxRows maxBytes f)) rest"
  proof -
    have "0 \<le> the (frame_size num maxRows maxBytes f)" if "f \<in> set rest" for f
      using assms that frame_size_nonneg[of num maxRows maxBytes f] by (fastforce simp: fits_def)
    then show ?thesis by (auto simp: tally_def intro!: sum_list_nonneg)
  qed
  moreover have "tally h (pre @ rest) = tally h pre + tally h rest" for h :: "jobject \<times> int \<Rightarrow> int" by (simp add: tally_def)
  ultimately show ?thesis using assms False by (auto simp: fits_def)
qed (simp add: fits_def)

lemma exceeded_iff:
  assumes "fed num env maxRows maxBytes m0 pre m" and "fits num env maxRows maxBytes m0 pre" and "frame_size num maxRows maxBytes f = Some b"
  shows "exceeded env (int (length (frame_rows num f))) (if socketRestSqlStreamMaterializeMaxBytes env > 0 then b else 0) m = None \<longleftrightarrow>
      fits num env maxRows maxBytes m0 (pre @ [f])"
    and "exceeded env (int (length (frame_rows num f))) b m = None \<longleftrightarrow> fits num env maxRows maxBytes m0 (pre @ [f])"
  using assms by (auto simp: exceeded_def fits_def fed_def Let_def)

lemma remove_not_live:
  assumes "getActiveStreamRouteByRequestId rid st = Some r" and "sr_requestId r = rid"
  shows "getActiveStreamRouteByRequestId rid (snd (removeActiveStreamRoute mode rid st)) = None"
  using assms by (simp add: getActiveStreamRouteByRequestId_def remove_snd drop_route_def)

text \<open>A freshly opened stream.\<close>

definition opened :: "materialize \<Rightarrow> bool" where
  "opened m \<longleftrightarrow> (\<exists>r mat. getActiveStreamRouteByRequestId (mz_requestId m) (mz_streams m) = Some r \<and> sr_requestId r = mz_requestId m \<and>
     sr_agentSocketId r = mz_socketId m \<and> sr_restMaterializeState r = Some mat \<and> \<not> mt_settled mat)"

lemma apply_effects_fields [simp]:
  "mz_streams (apply_stream_effects err res m) = snd res" "mz_requestId (apply_stream_effects err res m) = mz_requestId m"
  "streamedRows (apply_stream_effects err res m) = streamedRows m" "mz_initial (apply_stream_effects err res m) = mz_initial m"
  "mz_outcome (apply_stream_effects err res m) =
     (if RejectMaterialize (mz_requestId m) \<in> set (fst res) \<and> mz_outcome m = MatPending then MatRejected err else mz_outcome m)"
  by (auto simp: apply_stream_effects_def mat_settle_def Let_def split: prod.splits)

lemma mat_settle_fields [simp]:
  "mz_streams (mat_settle out m) = mz_streams m" "mz_requestId (mat_settle out m) = mz_requestId m"
  "mz_outcome (mat_settle out m) = (if mz_outcome m = MatPending then out else mz_outcome m)"
  by (simp_all add: mat_settle_def)

lemma mat_emit_fields [simp]:
  "mz_streams (mat_emit e m) = mz_streams m" "mz_requestId (mat_emit e m) = mz_requestId m" "mz_outcome (mat_emit e m) = mz_outcome m"
  "mz_socketId (mat_emit e m) = mz_socketId m" "mz_initial (mat_emit e m) = mz_initial m" "streamedRows (mat_emit e m) = streamedRows m"
  "aggregatedRowCount (mat_emit e m) = aggregatedRowCount m" "aggregatedByteCount (mat_emit e m) = aggregatedByteCount m"
  "chunkFramesSeen (mat_emit e m) = chunkFramesSeen m"
  by (simp_all add: mat_emit_def)

lemma refuse_ends:
  assumes "opened m" and "mz_outcome m = MatPending" and "exceeded env rows bytes m \<noteq> None"
  shows "ended (snd (admitNormalizedChunk env rows bytes m))"
  using assms remove_not_live[of "mz_requestId m" "mz_streams m"]
  by (auto simp: ended_def opened_def admitNormalizedChunk_def mat_remove_def mat_live_def)

lemma failFast_ends:
  assumes "opened m" and "mz_outcome m = MatPending"
  shows "ended (apply_stream_effects InvalidFrameError (failFastMaterialize (mz_socketId m) (mz_requestId m) (mz_streams m)) m)"
proof -
  obtain r mat where r: "getActiveStreamRouteByRequestId (mz_requestId m) (mz_streams m) = Some r" "sr_requestId r = mz_requestId m"
     "sr_agentSocketId r = mz_socketId m" "sr_restMaterializeState r = Some mat" "\<not> mt_settled mat" using assms(1) by (auto simp: opened_def)
  let ?st1 = "(mz_streams m)\<lparr>activeStreamsByRequestId := jm_set (mz_requestId m)
      (r\<lparr>sr_restMaterializeState := Some (mat\<lparr>mt_settled := True\<rparr>)\<rparr>) (activeStreamsByRequestId (mz_streams m))\<rparr>"
  have "getActiveStreamRouteByRequestId (mz_requestId m) (snd (removeActiveStreamRoute DetachMaterialize (mz_requestId m) ?st1)) = None"
    using r(2) by (intro remove_not_live[where r = "r\<lparr>sr_restMaterializeState := Some (mat\<lparr>mt_settled := True\<rparr>)\<rparr>"])
      (simp_all add: getActiveStreamRouteByRequestId_def)
  then show ?thesis using r assms(2)
    by (auto simp: ended_def mat_live_def failFastMaterialize_def Let_def case_prod_beta)
qed

lemma onChunk_fed:
  assumes fed: "fed num env maxRows maxBytes m0 pre m" and fit: "fits num env maxRows maxBytes m0 (pre @ [f])"
    and sz: "frame_size num maxRows maxBytes f = Some b" and rows: "rows_of payload = frame_rows num f"
    and meta: "resolveStreamChunkOriginalSizeBytes num payload metadata = b"
  shows "fed num env maxRows maxBytes m0 (pre @ [f]) (mat_onChunk num env payload metadata m)"
proof -
  have "fits num env maxRows maxBytes m0 pre" by (rule fits_prefix[OF fit])
  from exceeded_iff(1)[OF fed this sz] fit
  have "exceeded env (countSqlStreamChunkRows payload)
      (if socketRestSqlStreamMaterializeMaxBytes env > 0 then resolveStreamChunkOriginalSizeBytes num payload metadata else 0) m = None"
    unfolding countSqlStreamChunkRows_def rows meta by blast
  then have "admitNormalizedChunk env (countSqlStreamChunkRows payload)
      (if socketRestSqlStreamMaterializeMaxBytes env > 0 then resolveStreamChunkOriginalSizeBytes num payload metadata else 0) m = (True, m)"
    by (simp add: admitNormalizedChunk_def)
  then show ?thesis using fed sz meta unfolding mat_onChunk_def Let_def
    by (simp add: fed_def rows countSqlStreamChunkRows_def split: prod.split)
qed

lemma onChunk_ends:
  assumes "opened m" and fed: "fed num env maxRows maxBytes m0 pre m" and pre: "fits num env maxRows maxBytes m0 pre"
    and fit: "\<not> fits num env maxRows maxBytes m0 (pre @ [f])" and sz: "frame_size num maxRows maxBytes f = Some b"
    and rows: "rows_of payload = frame_rows num f" and meta: "resolveStreamChunkOriginalSizeBytes num payload metadata = b"
  shows "ended (mat_onChunk num env payload metadata m)"
proof -
  let ?r = "admitNormalizedChunk env (countSqlStreamChunkRows payload)
      (if socketRestSqlStreamMaterializeMaxBytes env > 0 then resolveStreamChunkOriginalSizeBytes num payload metadata else 0) m"
  have ex: "exceeded env (countSqlStreamChunkRows payload)
      (if socketRestSqlStreamMaterializeMaxBytes env > 0 then resolveStreamChunkOriginalSizeBytes num payload metadata else 0) m \<noteq> None"
    using exceeded_iff(1)[OF fed pre sz] fit unfolding countSqlStreamChunkRows_def rows meta by blast
  have "mz_outcome m = MatPending" using fed by (simp add: fed_def)
  then have "ended (snd ?r)" by (rule refuse_ends[OF assms(1) _ ex])
  moreover have "\<not> fst (admitNormalizedChunk env r b m)" if "exceeded env r b m \<noteq> None" for r b
    using that by (auto simp: admitNormalizedChunk_def)
  then have "\<not> fst ?r" using ex by blast
  ultimately show ?thesis unfolding mat_onChunk_def Let_def by (simp add: case_prod_beta)
qed

lemma opened_fed: "opened m0 \<Longrightarrow> fed num env maxRows maxBytes m0 pre m \<Longrightarrow> opened m \<and> mat_live m \<and> mz_outcome m = MatPending"
  by (auto simp: opened_def fed_def mat_live_def)

lemma chunk_step:
  assumes num: "\<And>x. ascii (num x)" and op: "opened m0" and fed: "fed num env maxRows maxBytes m0 pre m"
    and pre: "fits num env maxRows maxBytes m0 pre"
  shows "if fits num env maxRows maxBytes m0 (pre @ [f]) then fed num env maxRows maxBytes m0 (pre @ [f]) (mat_chunk num env maxRows maxBytes f m)
    else ended (mat_chunk num env maxRows maxBytes f m)"
proof -
  have o: "opened m" "mat_live m" "mz_outcome m = MatPending" using opened_fed[OF op fed] by auto
  show ?thesis
  proof (cases "jfield (fst f) ''columnar''")
    case None
    then have "mat_chunk num env maxRows maxBytes f m = mat_onChunk num env (fst f) (Some (snd f)) m"
      using o by (simp add: mat_chunk_def case_prod_beta Let_def)
    moreover have "frame_size num maxRows maxBytes f = Some (resolveStreamChunkOriginalSizeBytes num (fst f) (Some (snd f)))"
      using None by (simp add: frame_size_def)
    ultimately show ?thesis using onChunk_fed[OF fed] onChunk_ends[OF o(1) fed pre] frame_rows_plain[OF None] by simp
  next
    case (Some c)
    let ?n = "normalize_reference num (fst f) maxRows maxBytes None"
    have eq: "mat_chunk num env maxRows maxBytes f m =
      (case ?n of
         Inr (Normalized p b) \<Rightarrow> if exceeded env (countSqlStreamChunkRows p) b m = None then mat_onChunk num env p (Some b) m
                               else snd (admitNormalizedChunk env (countSqlStreamChunkRows p) b m)
       | Inr (NotAdmitted rows b) \<Rightarrow> snd (admitNormalizedChunk env rows b m)
       | Inr NotColumnar \<Rightarrow> mat_onChunk num env (fst f) (Some (snd f)) m
       | Inl _ \<Rightarrow> apply_stream_effects InvalidFrameError (failFastMaterialize (mz_socketId m) (mz_requestId m) (mz_streams m)) m)"
      using o Some by (simp add: mat_chunk_def case_prod_beta Let_def normalize_admit[OF num] split: sum.split normalized.split)
    have kinds: "?n \<noteq> Inr NotColumnar" "?n \<noteq> Inr (NotAdmitted a b)" for a b
      using Some by (auto simp: normalize_reference_def Let_def split: inspection.splits)
    show ?thesis
    proof (cases ?n)
      case (Inl err)
      then have "frame_size num maxRows maxBytes f = None" using Some by (simp add: frame_size_def)
      then have "\<not> fits num env maxRows maxBytes m0 (pre @ [f])" by (simp add: fits_def)
      then show ?thesis using eq Inl failFast_ends[OF o(1,3)] by simp
    next
      case (Inr v)
      then obtain p b where n: "?n = Inr (Normalized p b)" using kinds by (cases v) auto
      have sz: "frame_size num maxRows maxBytes f = Some b" using Some n by (simp add: frame_size_def)
      note rows = normalized_rows[OF num n]
      have cnt: "countSqlStreamChunkRows p = int (length (frame_rows num f))" by (simp add: countSqlStreamChunkRows_def rows)
      have meta: "resolveStreamChunkOriginalSizeBytes num p (Some b) = b" using rows(2) by (simp add: resolveStreamChunkOriginalSizeBytes_def)
      have ends: "ended (snd (admitNormalizedChunk env (countSqlStreamChunkRows p) b m))" if "\<not> fits num env maxRows maxBytes m0 (pre @ [f])"
        using exceeded_iff(2)[OF fed pre sz] that cnt by (intro refuse_ends[OF o(1,3)]) simp
      show ?thesis using eq n onChunk_fed[OF fed _ sz rows(1) meta] exceeded_iff(2)[OF fed pre sz] ends cnt by simp
    qed
  qed
qed

lemma ended_chunks: "ended m \<Longrightarrow> fold (mat_chunk num env maxRows maxBytes) frames m = m"
  by (induction frames) (auto simp: ended_def mat_chunk_def case_prod_beta Let_def)

lemma chunks_run:
  assumes num: "\<And>x. ascii (num x)" and op: "opened m0"
  shows "fed num env maxRows maxBytes m0 pre m \<Longrightarrow> fits num env maxRows maxBytes m0 pre \<Longrightarrow>
    (if fits num env maxRows maxBytes m0 (pre @ frames) then fed num env maxRows maxBytes m0 (pre @ frames) (fold (mat_chunk num env maxRows maxBytes) frames m)
     else ended (fold (mat_chunk num env maxRows maxBytes) frames m))"
proof (induction frames arbitrary: pre m)
  case (Cons f frames)
  show ?case
  proof (cases "fits num env maxRows maxBytes m0 (pre @ [f])")
    case True
    then have "fed num env maxRows maxBytes m0 (pre @ [f]) (mat_chunk num env maxRows maxBytes f m)"
      using chunk_step[OF num op Cons.prems, of f] by simp
    from Cons.IH[OF this True] show ?thesis by (simp only: append_assoc append_Cons append_Nil fold_simps)
  next
    case False
    then have "\<not> fits num env maxRows maxBytes m0 (pre @ f # frames)" using fits_prefix[of num env maxRows maxBytes m0 "pre @ [f]" frames] by auto
    then show ?thesis using chunk_step[OF num op Cons.prems, of f] False ended_chunks by simp
  qed
qed simp

section \<open>The whole stream\<close>

definition merge_outcome :: "ustring + jvalue \<Rightarrow> mat_outcome" where
  "merge_outcome r = (case r of Inr v \<Rightarrow> MatResolved v | Inl s \<Rightarrow> MatRejected (StreamEnded s))"

lemma complete_fed:
  assumes op: "opened m0" and fed: "fed num env maxRows maxBytes m0 frames m"
  shows "mz_outcome (mat_complete completion m) =
    merge_outcome (mergeSqlStreamRpcResponseWithAppendedRows (mz_initial m0) (concat (map (frame_rows num) frames)) completion)"
proof -
  have o: "opened m" "mat_live m" "mz_outcome m = MatPending" using opened_fed[OF op fed] by auto
  let ?rows = "concat (map (frame_rows num) frames)"
  let ?merged = "mergeSqlStreamRpcResponseWithAppendedRows (mz_initial m0) ?rows completion"
  have settle: "RejectMaterialize rid \<notin> set (fst (settleRestMaterializeSuccess rid' st))" for rid rid' st
    by (simp add: settleRestMaterializeSuccess_def detachRestMaterializeIfPending_def split: option.split)
  have same: "(if rows \<noteq> [] then mergeSqlStreamRpcResponseWithOwnedRows i rows completion else mergeSqlStreamRpcResponse i [] completion) =
      mergeSqlStreamRpcResponseWithAppendedRows i rows completion" for rows i
    using merge_rows_chunks[of "[]" rows i completion False] merge_rows_owned[of i rows completion True]
    by (simp add: mergeSqlStreamRpcResponseWithOwnedRows_def mergeSqlStreamRpcResponseWithAppendedRows_def)
  have "mz_initial m = mz_initial m0" "streamedRows m = ?rows" using fed by (simp_all add: fed_def)
  then have "mz_outcome (mat_onComplete completion m) = merge_outcome ?merged"
    using o(3) settle unfolding mat_onComplete_def Let_def apply_effects_fields same
    by (cases ?merged) (simp_all add: merge_outcome_def)
  moreover have "merge_outcome ?merged \<noteq> MatPending" by (simp add: merge_outcome_def split: sum.split)
  ultimately show ?thesis using o(2) by (simp add: mat_complete_def mat_remove_def)
qed

lemma started_opened:
  assumes "startRestStreamMaterialization env aenv ar socketId agentId rid timeoutHandle initial originalSize streamId st credits = Started m0"
    and "getActiveStreamRouteByRequestId rid st = None"
  shows "opened m0" and "mz_initial m0 = initial" and "fed num env maxRows maxBytes m0 [] m0"
    and "aggregatedRowCount m0 = countSqlExecuteResultRowsInEnvelope initial"
    and "socketRestSqlStreamMaterializeMaxBytes env > 0 \<longrightarrow> aggregatedByteCount m0 = originalSize"
  using assms
  by (auto simp: startRestStreamMaterialization_def upsertActiveStreamRoute_def create_route_def Let_def opened_def fed_def
      getActiveStreamRouteByRequestId_def split: if_splits prod.splits sum.splits option.splits)


definition sample_mat_env :: mat_env where
  "sample_mat_env = \<lparr>socketRestSqlStreamMaterializeMaxRows = 10, socketRestSqlStreamMaterializeMaxChunks = 2,
     socketRestSqlStreamMaterializeMaxBytes = 200, socketRestStreamPullWindowSize = 1\<rparr>"

definition sample_initial :: jvalue where
  "sample_initial = JvObj [(ustr ''result'', JvObj [(ustr ''stream_id'', JvStr (ustr ''s'')), (ustr ''rows'', JvArr [JvNum 1])])]"

definition sample_start :: mat_start where
  "sample_start = startRestStreamMaterialization sample_mat_env sample_agent_env new_agent_registry ''s1'' ''a'' ''r'' 0 sample_initial 50 ''s''
     new_stream_registry []"

definition sample_frames :: "(jobject \<times> int) list" where
  "sample_frames = [(sample_chunk_json, 80), ([(ustr ''rows'', JvArr [JvNull])], 12)]"

lemma sample_start_ok: "\<exists>m0. sample_start = Started m0"
proof -
  have "case sample_start of Started _ \<Rightarrow> True | _ \<Rightarrow> False" by code_simp
  then show ?thesis by (auto split: mat_start.splits)
qed


end
