(* ===== verification/Relay_Stream_Drain.thy ===== *)
theory Relay_Stream_Drain
  imports Relay_Stream_Flow Rest_Stream_Materialize
begin

text \<open>
  The drain of relayed streams: \<^verbatim>\<open>drainRelayStreamBuffer\<close> of \<^verbatim>\<open>relay_stream_flow_state.ts\<close>, its scheduling in
  \<^verbatim>\<open>relay_stream_drain_scheduler.ts\<close>, the stream handlers of \<^verbatim>\<open>rpc_bridge_relay_stream.ts\<close> and the credit grant of
  \<^verbatim>\<open>rpc_bridge_stream_pull.ts\<close>.

  Chunks of the agent are buffered and a drain forwards them as far as the consumer granted credits. The drain is an
  asynchronous function: it is suspended while a frame is encoded, and chunks, pulls and removals of any stream happen
  meanwhile. A suspended drain is a value that holds its local variables. Drains are jobs of the outbound queue of their
  request, which runs them one at a time in the order they were queued (shown in Relay_Outbound_Queue). Whether the byte budget admits a
  job, the transport is writable, an emit succeeds or an encoding fails is an argument.

  Shown for any interleaving: the books are exact and the caps hold; chunks are delivered in order and completely before the completion, and
  nothing follows the end of the stream; no stream with deliverable work is left without a job or timer; consumers get no more chunks than they
  granted credits. Two flaws are shown too: credits granted while a chunk is being encoded can be lost, and a pull executed after the end of its
  stream leaves an entry behind.
\<close>

section \<open>Data\<close>

datatype terminal_status = Aborted | Errored

record terminal_payload =
  tp_totalRows :: int
  tp_status :: terminal_status
  tp_streamId :: "ustring option"
  tp_dropped :: "(int \<times> int) option"
  tp_errorCode :: "string option"
  tp_reason :: "string option"

text \<open>Jobs of the outbound queue of one request. A drain belongs to the closure that scheduled it: 0 is the one of the
  stream handlers, the others those of the pulls.\<close>

datatype stream_job = DrainJob nat | TerminalJob terminal_payload

text \<open>Where a running job is suspended, with its live local variables.\<close>

datatype drain_pc =
  AwaitChunk int "jobject option" "raw_forward option" chunk_meta
| AwaitComplete jobject
| AwaitTerminal terminal_payload

text \<open>What the consumer receives: a chunk, as the record or as the bytes of the agent; the completion; a terminal error.\<close>

datatype consumer_event =
  ChunkOut "jobject option" "raw_forward option"
| CompleteOut jobject
| TerminalOut terminal_payload

text \<open>One stream: the closure variables of its handlers and pulls, whether its routes are registered, its outbound jobs. The last three fields
  are history: the chunks buffered, the events emitted and the credits granted.\<close>

record stream_ctl =
  wasOpened :: bool
  live :: bool
  routeStreamId :: "ustring option"
  completeReceived :: bool
  terminalEmitted :: bool
  drainScheduled :: "bool list"
  outbound :: "stream_job list"
  running :: "drain_pc option"
  received :: "buffered list"
  emitted :: "consumer_event list"
  granted :: int

definition new_ctl :: stream_ctl where
  "new_ctl = \<lparr>wasOpened = False, live = False, routeStreamId = None, completeReceived = False, terminalEmitted = False, drainScheduled = [],
     outbound = [], running = None, received = [], emitted = [], granted = 0\<rparr>"

record relay_sys =
  flow :: flow_state
  ctls :: "string \<Rightarrow> stream_ctl"

definition new_relay_sys :: relay_sys where
  "new_relay_sys = \<lparr>flow = new_flow_state, ctls = (\<lambda>_. new_ctl)\<rparr>"

record relay_flow_env =
  relayMaxBufferedChunksPerRequest :: int
  relayMaxTotalBufferedChunks :: int
  relayMaxBufferedBytesPerRequest :: int
  relayMaxTotalBufferedBytes :: int
  socketRestStreamPullMaxWindowSize :: int
  disconnectOnHardLimit :: bool

definition upd_ctl :: "string \<Rightarrow> (stream_ctl \<Rightarrow> stream_ctl) \<Rightarrow> relay_sys \<Rightarrow> relay_sys" where
  "upd_ctl rid f s = s\<lparr>ctls := (ctls s)(rid := f (ctls s rid))\<rparr>"

definition upd_flow :: "(flow_state \<Rightarrow> flow_state) \<Rightarrow> relay_sys \<Rightarrow> relay_sys" where
  "upd_flow f s = s\<lparr>flow := f (flow s)\<rparr>"

text \<open>\<^verbatim>\<open>toRequestId\<close>: a trimmed non-empty string or the text of a finite number.\<close>

definition toRequestId :: "(rat \<Rightarrow> ustring) \<Rightarrow> jvalue option \<Rightarrow> ustring option" where
  "toRequestId num v =
     (case v of Some (JvStr s) \<Rightarrow> if u_trim s \<noteq> [] then Some (u_trim s) else None
      | Some (JvNum x) \<Rightarrow> Some (num x) | _ \<Rightarrow> None)"

section \<open>Routes and terminal events\<close>

text \<open>Removing the routes of a request clears its flow state.\<close>

definition remove_routes :: "string \<Rightarrow> relay_sys \<Rightarrow> relay_sys" where
  "remove_routes rid s = upd_ctl rid (\<lambda>c. c\<lparr>live := False\<rparr>) (upd_flow (clearRelayStreamFlowState rid) s)"

definition finalizeRelayStreamOnConsumerGone :: "string \<Rightarrow> relay_sys \<Rightarrow> relay_sys" where
  "finalizeRelayStreamOnConsumerGone rid s =
     upd_flow (clearRelayStreamFlowState rid) (remove_routes rid (upd_flow (clearRelayStreamBackpressureRetryTimer rid) s))"

definition emitRelayTerminalComplete ::
    "(rat \<Rightarrow> ustring) \<Rightarrow> string \<Rightarrow> terminal_status \<Rightarrow> string \<Rightarrow> jobject option \<Rightarrow> string option \<Rightarrow> relay_sys \<Rightarrow> relay_sys" where
  "emitRelayTerminalComplete num rid status reason payload errorCode s =
     (if terminalEmitted (ctls s rid) then s
      else let s1 = upd_ctl rid (\<lambda>c. c\<lparr>terminalEmitted := True\<rparr>) s;
               fromPayload = (case payload of Some p \<Rightarrow> toRequestId num (jfield p ''stream_id'') | None \<Rightarrow> None);
               sid = (case fromPayload of Some i \<Rightarrow> Some i | None \<Rightarrow> routeStreamId (ctls s rid));
               dropped = (if status = Aborted then map_option Some (countRelayStreamAbortDropped num rid payload (flow s)) else Some None)
           in case dropped of
                None \<Rightarrow> s1
              | Some d \<Rightarrow>
                  let terminal = \<lparr>tp_totalRows = getRelayStreamForwardedRows rid (flow s), tp_status = status, tp_streamId = sid, tp_dropped = d,
                                  tp_errorCode = errorCode, tp_reason = (if errorCode = None then None else Some reason)\<rparr>
                  in upd_ctl rid (\<lambda>c. c\<lparr>outbound := outbound c @ [TerminalJob terminal]\<rparr>) (remove_routes rid s1))"

definition abortForHardByteLimit :: "relay_flow_env \<Rightarrow> string \<Rightarrow> relay_sys \<Rightarrow> relay_sys" where
  "abortForHardByteLimit env rid s =
     (let terminal = \<lparr>tp_totalRows = getRelayStreamForwardedRows rid (flow s), tp_status = Errored, tp_streamId = routeStreamId (ctls s rid),
                      tp_dropped = None, tp_errorCode = Some ''RELAY_OUTBOUND_BYTE_LIMIT'', tp_reason = None\<rparr>;
          s1 = remove_routes rid (upd_flow (clearRelayStreamFlowState rid) (upd_flow (clearRelayStreamBackpressureRetryTimer rid) s))
      in if disconnectOnHardLimit env then s1
         else upd_ctl rid (\<lambda>c. c\<lparr>outbound := outbound c @ [TerminalJob terminal]\<rparr>) s1)"

section \<open>Scheduling\<close>

definition set_flag :: "nat \<Rightarrow> bool \<Rightarrow> stream_ctl \<Rightarrow> stream_ctl" where
  "set_flag k b c = c\<lparr>drainScheduled := (drainScheduled c)[k := b]\<rparr>"

text \<open>A drain that only has to send the completion is a control job, which the byte budget never refuses; \<open>ok\<close> says whether it admits
  a normal one.\<close>

definition scheduleRelayStreamDrain :: "relay_flow_env \<Rightarrow> bool \<Rightarrow> string \<Rightarrow> nat \<Rightarrow> relay_sys \<Rightarrow> relay_sys" where
  "scheduleRelayStreamDrain env ok rid k s =
     (if drainScheduled (ctls s rid) ! k then s
      else let credits = getRelayStreamFlowCredits rid (flow s); n = getRelayStreamBufferedChunkCount rid (flow s);
               enqueue = upd_ctl rid (\<lambda>c. (set_flag k True c)\<lparr>outbound := outbound c @ [DrainJob k]\<rparr>)
           in if credits \<le> 0 \<or> n = 0 then
                (if n = 0 \<and> getRelayStreamPendingComplete rid (flow s) \<noteq> None then enqueue s else s)
              else if ok then enqueue s
              else abortForHardByteLimit env rid (upd_ctl rid (set_flag k False) (upd_ctl rid (set_flag k True) s)))"

definition scheduleBackpressureRetry :: "string \<Rightarrow> nat \<Rightarrow> relay_sys \<Rightarrow> relay_sys" where
  "scheduleBackpressureRetry rid k s =
     (if hasRelayStreamBackpressureRetryTimer rid (flow s) then s else upd_flow (setRelayStreamBackpressureRetryTimer rid k) s)"

definition afterDrainMaybeReschedule :: "relay_flow_env \<Rightarrow> bool \<Rightarrow> string \<Rightarrow> nat \<Rightarrow> bool \<Rightarrow> relay_sys \<Rightarrow> relay_sys" where
  "afterDrainMaybeReschedule env ok rid k pausedForBackpressure s =
     (if \<not> live (ctls s rid) then upd_flow (clearRelayStreamBackpressureRetryTimer rid) s
      else let pending = getRelayStreamPendingComplete rid (flow s) \<noteq> None;
               hasBuffered = getRelayStreamBufferedChunkCount rid (flow s) > 0;
               hasCredits = getRelayStreamFlowCredits rid (flow s) > 0
           in if pausedForBackpressure \<and> hasBuffered \<and> hasCredits then scheduleBackpressureRetry rid k s
              else if (hasBuffered \<and> hasCredits) \<or> (pending \<and> \<not> hasBuffered)
                then scheduleRelayStreamDrain env ok rid k (upd_flow (clearRelayStreamBackpressureRetryTimer rid) s)
              else s)"

text \<open>The retry timer fires.\<close>

definition retry_fires :: "relay_flow_env \<Rightarrow> bool \<Rightarrow> string \<Rightarrow> nat \<Rightarrow> relay_sys \<Rightarrow> relay_sys" where
  "retry_fires env ok rid k s =
     (let s1 = upd_flow (clearRelayStreamBackpressureRetryTimer rid) s
      in if live (ctls s1 rid) then scheduleRelayStreamDrain env ok rid k s1 else s1)"

section \<open>The drain\<close>

text \<open>The drain between two suspensions. The result is where it is suspended, or \<open>None\<close> with the flag that says whether it
  paused because the transport was full.\<close>

definition drain_tail :: "string \<Rightarrow> flow_state \<Rightarrow> drain_pc option \<times> bool" where
  "drain_tail rid st =
     (case getRelayStreamPendingComplete rid st of
        Some completion \<Rightarrow> if getRelayStreamBufferedChunkCount rid st = 0 then (Some (AwaitComplete completion), False) else (None, False)
      | None \<Rightarrow> (None, False))"

definition drain_exit :: "string \<Rightarrow> int \<Rightarrow> bool \<Rightarrow> flow_state \<Rightarrow> (drain_pc option \<times> bool) \<times> flow_state" where
  "drain_exit rid credits paused st =
     (let st1 = setRelayStreamFlowCredits rid (max 0 credits) st
      in if paused then ((None, True), st1) else (drain_tail rid st1, st1))"

definition drain_loop :: "string \<Rightarrow> bool \<Rightarrow> bool \<Rightarrow> int \<Rightarrow> flow_state \<Rightarrow> (drain_pc option \<times> bool) \<times> flow_state" where
  "drain_loop rid active canEmit credits st =
     (if credits > 0 \<and> getRelayStreamBufferedChunkCount rid st > 0 then
        if \<not> active then ((None, False), st)
        else if \<not> canEmit then drain_exit rid credits True st
        else case peekRelayStreamBufferedChunk rid st of
               None \<Rightarrow> drain_exit rid credits False st
             | Some (chunk, raw, meta) \<Rightarrow>
                 if raw = None \<and> chunk = None then drain_exit rid credits False st
                 else ((Some (AwaitChunk credits chunk raw meta), False), st)
      else drain_exit rid credits False st)"

definition drain_begin :: "string \<Rightarrow> bool \<Rightarrow> bool \<Rightarrow> flow_state \<Rightarrow> (drain_pc option \<times> bool) \<times> flow_state" where
  "drain_begin rid active canEmit st =
     (if \<not> active then ((None, False), st)
      else let credits = getRelayStreamFlowCredits rid st
           in if credits > 0 \<and> getRelayStreamBufferedChunkCount rid st > 0 then drain_loop rid active canEmit credits st
              else (drain_tail rid st, st))"

definition emit_out :: "string \<Rightarrow> consumer_event \<Rightarrow> relay_sys \<Rightarrow> relay_sys" where
  "emit_out rid ev s = upd_ctl rid (\<lambda>c. c\<lparr>emitted := emitted c @ [ev]\<rparr>) s"

text \<open>The frame is encoded: emit it and go on. \<open>canEmit\<close> is the answer the next iteration gets.\<close>

definition drain_resume :: "string \<Rightarrow> bool \<Rightarrow> bool \<Rightarrow> drain_pc \<Rightarrow> relay_sys \<Rightarrow> (drain_pc option \<times> bool) \<times> relay_sys" where
  "drain_resume rid emitOk canEmit pc s =
     (case pc of
        AwaitChunk credits chunk raw meta \<Rightarrow>
          if \<not> live (ctls s rid) then ((None, False), s)
          else if \<not> emitOk then (let (res, st) = drain_exit rid credits True (flow s) in (res, s\<lparr>flow := st\<rparr>))
          else let st1 = addRelayStreamForwardedRows rid (cm_rowCount meta) (snd (popRelayStreamBufferedChunk rid (flow s)));
                   s1 = emit_out rid (ChunkOut chunk raw) (s\<lparr>flow := st1\<rparr>);
                   (res, st2) = drain_loop rid (live (ctls s1 rid)) canEmit (credits - 1) st1
               in (res, s1\<lparr>flow := st2\<rparr>)
      | AwaitComplete completion \<Rightarrow>
          if \<not> live (ctls s rid) then ((None, False), s)
          else if \<not> emitOk then ((None, False), finalizeRelayStreamOnConsumerGone rid s)
          else ((None, False), remove_routes rid (upd_flow (clearRelayStreamPendingComplete rid) (emit_out rid (CompleteOut completion) s)))
      | AwaitTerminal terminal \<Rightarrow> ((None, False), if emitOk then emit_out rid (TerminalOut terminal) s else s))"

section \<open>Jobs\<close>

text \<open>What follows the drain: suspend, or the \<^verbatim>\<open>finally\<close> block and the end of the job.\<close>

definition job_end :: "relay_flow_env \<Rightarrow> bool \<Rightarrow> string \<Rightarrow> drain_pc option \<times> bool \<Rightarrow> relay_sys \<Rightarrow> relay_sys" where
  "job_end env ok rid res s =
     (case res of
        (Some pc, _) \<Rightarrow> upd_ctl rid (\<lambda>c. c\<lparr>running := Some pc\<rparr>) s
      | (None, paused) \<Rightarrow>
          let s1 = (case outbound (ctls s rid) of
                      DrainJob k # _ \<Rightarrow> afterDrainMaybeReschedule env ok rid k paused (upd_ctl rid (set_flag k False) s)
                    | _ \<Rightarrow> s)
          in upd_ctl rid (\<lambda>c. c\<lparr>running := None, outbound := tl (outbound c)\<rparr>) s1)"

definition job_begin :: "relay_flow_env \<Rightarrow> bool \<Rightarrow> bool \<Rightarrow> string \<Rightarrow> relay_sys \<Rightarrow> relay_sys" where
  "job_begin env ok canEmit rid s =
     (case outbound (ctls s rid) of
        [] \<Rightarrow> s
      | DrainJob k # _ \<Rightarrow> (let (res, st) = drain_begin rid (live (ctls s rid)) canEmit (flow s) in job_end env ok rid res (s\<lparr>flow := st\<rparr>))
      | TerminalJob t # _ \<Rightarrow> job_end env ok rid (Some (AwaitTerminal t), False) s)"

definition job_resume :: "relay_flow_env \<Rightarrow> bool \<Rightarrow> bool \<Rightarrow> bool \<Rightarrow> string \<Rightarrow> relay_sys \<Rightarrow> relay_sys" where
  "job_resume env ok emitOk canEmit rid s =
     (case running (ctls s rid) of
        None \<Rightarrow> s | Some pc \<Rightarrow> (let (res, s1) = drain_resume rid emitOk canEmit pc s in job_end env ok rid res s1))"

text \<open>The encoding throws: the drain ends there, and its \<^verbatim>\<open>finally\<close> block still runs.\<close>

definition job_fails :: "relay_flow_env \<Rightarrow> bool \<Rightarrow> string \<Rightarrow> relay_sys \<Rightarrow> relay_sys" where
  "job_fails env ok rid s = (if running (ctls s rid) = None then s else job_end env ok rid (None, False) s)"

section \<open>Events\<close>

text \<open>The agent opens the stream: the handlers are created and the credits start at zero.\<close>

definition open_stream :: "string \<Rightarrow> ustring option \<Rightarrow> relay_sys \<Rightarrow> relay_sys" where
  "open_stream rid sid s =
     upd_ctl rid (\<lambda>c. c\<lparr>wasOpened := True, live := True, routeStreamId := sid, drainScheduled := [False]\<rparr>) (upd_flow (setRelayStreamFlowCredits rid 0) s)"

definition relay_onChunk ::
    "(rat \<Rightarrow> ustring) \<Rightarrow> relay_flow_env \<Rightarrow> bool \<Rightarrow> string \<Rightarrow> jobject \<Rightarrow> int option \<Rightarrow> raw_forward option \<Rightarrow> relay_sys \<Rightarrow> relay_sys" where
  "relay_onChunk num env ok rid payload metadata raw s =
     (if completeReceived (ctls s rid) then s
      else let payloadBytes = resolveStreamChunkOriginalSizeBytes num payload metadata
           in if getRelayStreamBufferedChunkCount rid (flow s) \<ge> relayMaxBufferedChunksPerRequest env \<or>
                 globalTotalBufferedChunks (flow s) \<ge> relayMaxTotalBufferedChunks env
              then emitRelayTerminalComplete num rid Aborted ''relay_backpressure_buffer_limit'' (Some payload) None s
              else if getRelayStreamBufferedBytes rid (flow s) + payloadBytes > relayMaxBufferedBytesPerRequest env \<or>
                      globalTotalBufferedBytes (flow s) + payloadBytes > relayMaxTotalBufferedBytes env
              then emitRelayTerminalComplete num rid Aborted ''relay_backpressure_buffer_byte_limit'' (Some payload)
                     (Some ''RELAY_STREAM_BUFFER_BYTE_LIMIT'') s
              else let s1 = s\<lparr>flow := snd (addRelayStreamBufferedChunk num rid payload payloadBytes raw (flow s))\<rparr>
                   in case countSqlChunkRows num payload of
                        Some rows \<Rightarrow> scheduleRelayStreamDrain env ok rid 0
                            (upd_ctl rid (\<lambda>c. c\<lparr>received := received c @ [buffered_item payload payloadBytes raw rows]\<rparr>) s1)
                      | None \<Rightarrow> s1)"

definition relay_onComplete :: "relay_flow_env \<Rightarrow> bool \<Rightarrow> string \<Rightarrow> jobject \<Rightarrow> raw_forward option \<Rightarrow> relay_sys \<Rightarrow> relay_sys" where
  "relay_onComplete env ok rid payload raw s =
     scheduleRelayStreamDrain env ok rid 0
       (upd_flow (setRelayStreamPendingComplete rid payload raw) (upd_ctl rid (\<lambda>c. c\<lparr>completeReceived := True\<rparr>) s))"

text \<open>Idle or lifetime timeout of the stream.\<close>

definition stream_timeout :: "(rat \<Rightarrow> ustring) \<Rightarrow> bool \<Rightarrow> string \<Rightarrow> relay_sys \<Rightarrow> relay_sys" where
  "stream_timeout num idle rid s =
     emitRelayTerminalComplete num rid Errored (if idle then ''relay_stream_idle_timeout'' else ''relay_stream_lifetime_timeout'') None
       (Some ''RELAY_STREAM_TIMEOUT'') s"

text \<open>The \<^verbatim>\<open>execute\<close> of a prepared pull grants its credits and schedules a drain of its own. It runs after an \<^verbatim>\<open>await\<close> of its handler
  and does not look at the routes again.\<close>

definition pull_execute :: "relay_flow_env \<Rightarrow> bool \<Rightarrow> string \<Rightarrow> int \<Rightarrow> relay_sys \<Rightarrow> relay_sys" where
  "pull_execute env ok rid windowSize s =
     (let s1 = upd_flow (addRelayStreamFlowCredits (socketRestStreamPullMaxWindowSize env) rid windowSize) s;
          s2 = upd_ctl rid (\<lambda>c. c\<lparr>drainScheduled := drainScheduled c @ [False], granted := granted c + max 0 windowSize\<rparr>) s1
      in scheduleRelayStreamDrain env ok rid (length (drainScheduled (ctls s rid))) s2)"

text \<open>The system. A request id names one stream ever. Frames and timeouts reach the handlers only while the routes are registered; pulls
  may be late. With \<open>failures\<close> the encoding may throw.\<close>

inductive flow_step :: "(rat \<Rightarrow> ustring) \<Rightarrow> relay_flow_env \<Rightarrow> bool \<Rightarrow> relay_sys \<Rightarrow> relay_sys \<Rightarrow> bool"
  for num env failures where
  step_open: "\<not> wasOpened (ctls s rid) \<Longrightarrow> flow_step num env failures s (open_stream rid sid s)"
| step_chunk: "live (ctls s rid) \<Longrightarrow> flow_step num env failures s (relay_onChunk num env ok rid payload metadata raw s)"
| step_complete: "live (ctls s rid) \<Longrightarrow> flow_step num env failures s (relay_onComplete env ok rid payload craw s)"
| step_timeout: "live (ctls s rid) \<Longrightarrow> flow_step num env failures s (stream_timeout num idle rid s)"
| step_remove: "live (ctls s rid) \<Longrightarrow> flow_step num env failures s (remove_routes rid s)"
| step_pull: "wasOpened (ctls s rid) \<Longrightarrow> flow_step num env failures s (pull_execute env ok rid w s)"
| step_retry: "timer_of (flow s) rid = Some k \<Longrightarrow> flow_step num env failures s (retry_fires env ok rid k s)"
| step_begin: "running (ctls s rid) = None \<Longrightarrow> outbound (ctls s rid) \<noteq> [] \<Longrightarrow> flow_step num env failures s (job_begin env ok canEmit rid s)"
| step_resume: "running (ctls s rid) \<noteq> None \<Longrightarrow> flow_step num env failures s (job_resume env ok emitOk canEmit rid s)"
| step_fail: "failures \<Longrightarrow> running (ctls s rid) \<noteq> None \<Longrightarrow> flow_step num env failures s (job_fails env ok rid s)"

section \<open>The invariant\<close>

definition chunk_event :: "buffered \<Rightarrow> consumer_event" where
  "chunk_event x = ChunkOut (fst x) (fst (snd x))"

fun drain_ks :: "stream_job list \<Rightarrow> nat list" where
  "drain_ks [] = []"
| "drain_ks (DrainJob k # js) = k # drain_ks js"
| "drain_ks (TerminalJob _ # js) = drain_ks js"

fun terminals :: "stream_job list \<Rightarrow> nat" where
  "terminals [] = 0"
| "terminals (DrainJob _ # js) = terminals js"
| "terminals (TerminalJob _ # js) = Suc (terminals js)"

lemma jobs_append [simp]:
  "drain_ks (xs @ ys) = drain_ks xs @ drain_ks ys" "terminals (xs @ ys) = terminals xs + terminals ys"
  by (induction xs rule: drain_ks.induct) simp_all

text \<open>The flag of a closure is set while a drain of it is queued; the head of the jobs is the one that runs.\<close>

definition flags_ok :: "stream_ctl \<Rightarrow> bool" where
  "flags_ok c \<longleftrightarrow> distinct (drain_ks (outbound c)) \<and> set (drain_ks (outbound c)) = {k. k < length (drainScheduled c) \<and> drainScheduled c ! k} \<and>
     (wasOpened c \<longrightarrow> drainScheduled c \<noteq> [])"

fun pc_job :: "stream_job list \<Rightarrow> drain_pc option \<Rightarrow> bool" where
  "pc_job js None = True"
| "pc_job (DrainJob _ # _) (Some pc) = (\<forall>t. pc \<noteq> AwaitTerminal t)"
| "pc_job (TerminalJob t # _) (Some pc) = (pc = AwaitTerminal t)"
| "pc_job [] (Some _) = False"

definition jobs_inv :: "stream_ctl \<Rightarrow> bool" where
  "jobs_inv c \<longleftrightarrow> flags_ok c \<and> pc_job (outbound c) (running c)"

text \<open>A suspended drain holds the head of the queue, or the queue is empty for good.\<close>

fun pc_head :: "int \<Rightarrow> buffered list \<Rightarrow> bool \<Rightarrow> drain_pc option \<Rightarrow> bool" where
  "pc_head cap q fin (Some (AwaitChunk credits chunk raw meta)) = (0 < credits \<and> credits \<le> cap \<and> (\<exists>b rest. q = (chunk, raw, b, meta) # rest))"
| "pc_head cap q fin (Some (AwaitComplete _)) = (q = [] \<and> fin)"
| "pc_head cap q fin _ = True"

text \<open>Live: what was emitted and what is buffered is what was received. Otherwise the buffer is empty and at most one event ends the stream.\<close>

definition order_live :: "int \<Rightarrow> flow_entry \<Rightarrow> stream_ctl \<Rightarrow> bool" where
  "order_live cap e c \<longleftrightarrow> wasOpened c \<and> terminals (outbound c) = 0 \<and>
     (\<exists>xs. emitted c = map chunk_event xs \<and> received c = xs @ queue_of e) \<and>
     (pendingComplete e \<noteq> None \<longrightarrow> completeReceived c) \<and> pc_head cap (queue_of e) (completeReceived c) (running c)"

definition end_ok :: "consumer_event list \<Rightarrow> buffered list \<Rightarrow> nat \<Rightarrow> bool" where
  "end_ok out recv n \<longleftrightarrow> (\<exists>xs ys tail. recv = xs @ ys \<and> out = map chunk_event xs @ tail \<and>
     (tail = [] \<and> n \<le> 1 \<or> n = 0 \<and> (\<exists>p. tail = [CompleteOut p]) \<and> ys = [] \<or> n = 0 \<and> (\<exists>t. tail = [TerminalOut t])))"

definition order_dead :: "flow_entry \<Rightarrow> stream_ctl \<Rightarrow> bool" where
  "order_dead e c \<longleftrightarrow> queue_of e = [] \<and> pendingComplete e = None \<and> end_ok (emitted c) (received c) (terminals (outbound c)) \<and>
     (\<not> wasOpened c \<longrightarrow> c = new_ctl)"

definition sinv :: "int \<Rightarrow> flow_entry \<Rightarrow> stream_ctl \<Rightarrow> bool" where
  "sinv cap e c \<longleftrightarrow> jobs_inv c \<and> fe_credits e \<le> cap \<and> (if live c then order_live cap e c else order_dead e c)"

text \<open>There is something to deliver; then somebody is going to.\<close>

definition has_work :: "flow_entry \<Rightarrow> bool" where
  "has_work e \<longleftrightarrow> 0 < fe_credits e \<and> queue_of e \<noteq> [] \<or> queue_of e = [] \<and> pendingComplete e \<noteq> None"

definition attended :: "flow_entry \<Rightarrow> nat option \<Rightarrow> stream_ctl \<Rightarrow> bool" where
  "attended e t c \<longleftrightarrow> (live c \<and> has_work e \<longrightarrow> drain_ks (outbound c) \<noteq> [] \<or> t \<noteq> None)"

text \<open>A change of one stream that adds nothing to the buffers. The closure of a retry timer always exists.\<close>

definition timer_ok :: "nat option \<Rightarrow> stream_ctl \<Rightarrow> bool" where
  "timer_ok t c \<longleftrightarrow> (case t of None \<Rightarrow> True | Some k \<Rightarrow> k < length (drainScheduled c))"

definition shrinks :: "string \<Rightarrow> relay_sys \<Rightarrow> relay_sys \<Rightarrow> bool" where
  "shrinks rid s s' \<longleftrightarrow> flow_ok (flow s') \<and>
     (\<forall>r. r \<noteq> rid \<longrightarrow> entry_of (flow s') r = entry_of (flow s) r \<and> timer_of (flow s') r = timer_of (flow s) r \<and> ctls s' r = ctls s r \<and>
        jm_get (entriesByRequestId (flow s')) r = jm_get (entriesByRequestId (flow s)) r) \<and>
     globalTotalBufferedChunks (flow s') \<le> globalTotalBufferedChunks (flow s) \<and>
     globalTotalBufferedBytes (flow s') \<le> globalTotalBufferedBytes (flow s) \<and>
     buffered_count (entry_of (flow s') rid) \<le> buffered_count (entry_of (flow s) rid) \<and>
     fe_bufferedBytes (entry_of (flow s') rid) \<le> fe_bufferedBytes (entry_of (flow s) rid) \<and>
     (timer_ok (timer_of (flow s) rid) (ctls s rid) \<longrightarrow> timer_ok (timer_of (flow s') rid) (ctls s' rid))"

lemma shrinks_refl: "flow_ok (flow s) \<Longrightarrow> shrinks rid s s"
  by (simp add: shrinks_def)

lemma shrinks_trans: "shrinks rid s t \<Longrightarrow> shrinks rid t u \<Longrightarrow> shrinks rid s u"
  by (auto simp: shrinks_def)

lemma shrinks_ok: "shrinks rid s t \<Longrightarrow> flow_ok (flow t)"
  by (simp add: shrinks_def)

lemma upd_simps [simp]:
  "flow (upd_ctl rid f s) = flow s" "ctls (upd_ctl rid f s) r = (if r = rid then f (ctls s rid) else ctls s r)"
  "flow (upd_flow g s) = g (flow s)" "ctls (upd_flow g s) = ctls s"
  by (simp_all add: upd_ctl_def upd_flow_def)

lemma shrinks_ctl:
  "flow_ok (flow s) \<Longrightarrow> length (drainScheduled (ctls s rid)) \<le> length (drainScheduled (f (ctls s rid))) \<Longrightarrow> shrinks rid s (upd_ctl rid f s)"
  by (auto simp: shrinks_def timer_ok_def split: option.splits)

lemma shrinks_upd:
  assumes "shrinks rid s t" "length (drainScheduled (ctls t rid)) \<le> length (drainScheduled (f (ctls t rid)))"
  shows "shrinks rid s (upd_ctl rid f t)"
  using assms(1) by (rule shrinks_trans) (rule shrinks_ctl[OF shrinks_ok[OF assms(1)], of rid f, OF assms(2)])

lemma flow_entry_ok: "flow_ok st \<Longrightarrow> buffer_ok (entry_of st r)"
  by (simp add: flow_ok_def)

text \<open>An update of the entry outside the queue.\<close>

definition keeps_queue :: "(flow_entry \<Rightarrow> flow_entry) \<Rightarrow> bool" where
  "keeps_queue f \<longleftrightarrow> (\<forall>e. buffer_ok e \<longrightarrow> buffer_ok (f e) \<and> queue_of (f e) = queue_of e \<and> fe_bufferedBytes (f e) = fe_bufferedBytes e)"

lemma shrinks_update:
  assumes "flow_ok (flow s)" "keeps_queue f"
  shows "shrinks rid s (upd_flow (update_entry rid f) s)"
proof -
  let ?e = "entry_of (flow s) rid"
  have ok: "buffer_ok ?e" using assms(1) by (rule flow_entry_ok)
  then have k: "buffer_ok (f ?e)" "queue_of (f ?e) = queue_of ?e" "fe_bufferedBytes (f ?e) = fe_bufferedBytes ?e"
    using assms(2) by (simp_all add: keeps_queue_def)
  then have c: "buffered_count (f ?e) = buffered_count ?e" using ok by (simp add: buffered_count_queue)
  have "jm_wf (entriesByRequestId (flow s))" using assms(1) by (simp add: flow_ok_def)
  then show ?thesis using flow_ok_update[of "flow s" f rid] assms(1) k c by (simp add: shrinks_def update_entry_sums update_entry_get)
qed

lemma keeps_queueI:
  assumes "\<And>e. bufferedChunks (f e) = bufferedChunks e" "\<And>e. bufferedChunkBytes (f e) = bufferedChunkBytes e"
    "\<And>e. bufferedChunkRawForward (f e) = bufferedChunkRawForward e" "\<And>e. bufferedChunkMeta (f e) = bufferedChunkMeta e"
    "\<And>e. bufferedChunkHead (f e) = bufferedChunkHead e" "\<And>e. fe_bufferedBytes (f e) = fe_bufferedBytes e"
    "\<And>e. 0 \<le> fe_credits e \<Longrightarrow> 0 \<le> fe_credits (f e)"
  shows "keeps_queue f"
proof -
  have "queue_of (f e) = queue_of e" for e by (simp add: queue_of_def assms)
  then show ?thesis by (simp add: keeps_queue_def buffer_ok_def assms)
qed

lemma queue_same:
  "queue_of (e\<lparr>fe_credits := n\<rparr>) = queue_of e" "queue_of (e\<lparr>forwardedRows := n\<rparr>) = queue_of e"
  "queue_of (e\<lparr>pendingComplete := p\<rparr>) = queue_of e" "queue_of (e\<lparr>pendingComplete := p, pendingCompleteRawForward := r\<rparr>) = queue_of e"
  by (simp_all add: queue_of_def)

text \<open>Clearing and removing.\<close>

lemma shrinks_clear:
  assumes "flow_ok (flow s)"
  shows "shrinks rid s (upd_flow (clearRelayStreamFlowState rid) s)"
  using clear_effect[OF assms, where rid = rid] global_nonneg(3)[OF assms, of rid] by (simp add: shrinks_def buffered_count_nonneg timer_ok_def)

lemma shrinks_timer:
  assumes "flow_ok (flow s)"
  shows "shrinks rid s (upd_flow (clearRelayStreamBackpressureRetryTimer rid) s)"
    "k < length (drainScheduled (ctls s rid)) \<Longrightarrow> shrinks rid s (upd_flow (setRelayStreamBackpressureRetryTimer rid k) s)"
  using assms by (simp_all add: shrinks_def timer_ok_def)

lemma remove_effect:
  assumes ok: "flow_ok (flow s)"
  shows "shrinks rid s (remove_routes rid s)" "entry_of (flow (remove_routes rid s)) rid = new_flow_entry"
    "timer_of (flow (remove_routes rid s)) rid = None" "ctls (remove_routes rid s) rid = (ctls s rid)\<lparr>live := False\<rparr>"
    "jm_get (entriesByRequestId (flow (remove_routes rid s))) rid = None"
proof -
  show "shrinks rid s (remove_routes rid s)" unfolding remove_routes_def by (rule shrinks_upd[OF shrinks_clear[OF ok]]) simp
qed (use clear_effect[OF ok, of rid] in \<open>simp_all add: remove_routes_def\<close>)

lemma finalize_effect:
  fixes env :: relay_flow_env and rid :: string
  assumes ok: "flow_ok (flow s)"
  defines "s' \<equiv> finalizeRelayStreamOnConsumerGone rid s"
  shows "shrinks rid s s'" "entry_of (flow s') rid = new_flow_entry" "timer_of (flow s') rid = None" "ctls s' rid = (ctls s rid)\<lparr>live := False\<rparr>"
proof -
  let ?s1 = "upd_flow (clearRelayStreamBackpressureRetryTimer rid) s"
  have 1: "flow_ok (flow ?s1)" using ok by simp
  have 2: "flow_ok (flow (remove_routes rid ?s1))" using remove_effect(1)[OF 1] by (rule shrinks_ok)
  show "shrinks rid s s'" unfolding s'_def finalizeRelayStreamOnConsumerGone_def
    using shrinks_timer(1)[OF ok] remove_effect(1)[OF 1] shrinks_clear[OF 2] shrinks_trans by blast
  show "entry_of (flow s') rid = new_flow_entry" "timer_of (flow s') rid = None" "ctls s' rid = (ctls s rid)\<lparr>live := False\<rparr>"
    using clear_effect[OF 2, of rid] remove_effect(4)[OF 1, of rid] by (simp_all add: s'_def finalizeRelayStreamOnConsumerGone_def)
qed

lemma abort_effect:
  fixes env :: relay_flow_env and rid :: string
  assumes ok: "flow_ok (flow s)"
  defines "s' \<equiv> abortForHardByteLimit env rid s"
  shows "shrinks rid s s'" "entry_of (flow s') rid = new_flow_entry" "timer_of (flow s') rid = None"
    "\<exists>js. drain_ks js = [] \<and> terminals js \<le> 1 \<and> ctls s' rid = (ctls s rid)\<lparr>live := False, outbound := outbound (ctls s rid) @ js\<rparr>"
proof -
  let ?s1 = "upd_flow (clearRelayStreamBackpressureRetryTimer rid) s"
  let ?s2 = "upd_flow (clearRelayStreamFlowState rid) ?s1"
  have 1: "flow_ok (flow ?s1)" using ok by simp
  have 2: "flow_ok (flow ?s2)" using shrinks_clear[OF 1] by (rule shrinks_ok)
  have r: "shrinks rid s (remove_routes rid ?s2)"
    using shrinks_timer(1)[OF ok] shrinks_clear[OF 1] remove_effect(1)[OF 2] shrinks_trans by blast
  have "\<exists>js. drain_ks js = [] \<and> terminals js \<le> 1 \<and> s' = upd_ctl rid (\<lambda>c. c\<lparr>outbound := outbound c @ js\<rparr>) (remove_routes rid ?s2)"
  proof (cases "disconnectOnHardLimit env")
    case True
    then have "s' = upd_ctl rid (\<lambda>c. c\<lparr>outbound := outbound c @ []\<rparr>) (remove_routes rid ?s2)"
      by (simp add: s'_def abortForHardByteLimit_def Let_def) (simp add: upd_ctl_def)
    then show ?thesis by (intro exI[of _ "[]"]) simp
  qed (auto simp: s'_def abortForHardByteLimit_def Let_def intro!: exI[of _ "[TerminalJob _]"])
  then obtain js where js: "drain_ks js = []" "terminals js \<le> 1" and s': "s' = upd_ctl rid (\<lambda>c. c\<lparr>outbound := outbound c @ js\<rparr>) (remove_routes rid ?s2)"
    by blast
  show "shrinks rid s s'" unfolding s' by (rule shrinks_upd[OF r]) simp
  show "entry_of (flow s') rid = new_flow_entry" "timer_of (flow s') rid = None" by (simp_all add: s' remove_effect[OF 2])
  show "\<exists>js. drain_ks js = [] \<and> terminals js \<le> 1 \<and> ctls s' rid = (ctls s rid)\<lparr>live := False, outbound := outbound (ctls s rid) @ js\<rparr>"
    using js by (intro exI[of _ js]) (simp add: s' remove_effect[OF 2])
qed

lemma jobs_inv_end:
  assumes "jobs_inv c" "drain_ks js = []"
  shows "jobs_inv (c\<lparr>live := b, terminalEmitted := te, outbound := outbound c @ js\<rparr>)"
proof -
  have "pc_job (outbound c @ js) (running c)" using assms(1) unfolding jobs_inv_def
    by (cases "(outbound c, running c)" rule: pc_job.cases) auto
  moreover have "flags_ok (c\<lparr>live := b, terminalEmitted := te, outbound := outbound c @ js\<rparr>)"
    using assms unfolding jobs_inv_def flags_ok_def by simp
  ultimately show ?thesis by (simp add: jobs_inv_def)
qed

lemma end_ok_cut: "n \<le> Suc 0 \<Longrightarrow> end_ok (map chunk_event xs) (xs @ ys) n"
  unfolding end_ok_def by (intro exI[of _ xs] exI[of _ ys] exI[of _ "[]"]) simp

lemma sinv_removed:
  assumes "sinv cap e c" "live c" "drain_ks js = []" "terminals js \<le> 1" "0 \<le> cap"
  shows "sinv cap new_flow_entry (c\<lparr>live := False, terminalEmitted := te, outbound := outbound c @ js\<rparr>)"
proof -
  have "\<exists>xs. emitted c = map chunk_event xs \<and> received c = xs @ queue_of e" "terminals (outbound c) = 0" "wasOpened c"
    using assms(1,2) by (auto simp: sinv_def order_live_def)
  then have "end_ok (emitted c) (received c) (terminals (outbound c @ js))" using assms(4) by (auto intro: end_ok_cut)
  then show ?thesis using assms jobs_inv_end[where c = c and js = js and b = False and te = te] \<open>wasOpened c\<close> by (simp add: sinv_def order_dead_def new_entry_ok)
qed

text \<open>The three facts every operation on a stream has to give.\<close>

definition good :: "int \<Rightarrow> string \<Rightarrow> relay_sys \<Rightarrow> relay_sys \<Rightarrow> bool" where
  "good cap rid s s' \<longleftrightarrow> shrinks rid s s' \<and> sinv cap (entry_of (flow s') rid) (ctls s' rid) \<and>
     attended (entry_of (flow s') rid) (timer_of (flow s') rid) (ctls s' rid)"

lemma good_trans: "shrinks rid s t \<Longrightarrow> good cap rid t u \<Longrightarrow> good cap rid s u"
  using shrinks_trans by (auto simp: good_def)

lemma good_removed:
  assumes "shrinks rid s s'" "entry_of (flow s') rid = new_flow_entry" "sinv cap e c" "live c" "0 \<le> cap" "drain_ks js = []" "terminals js \<le> 1"
    "ctls s' rid = c\<lparr>live := False, terminalEmitted := te, outbound := outbound c @ js\<rparr>"
  shows "good cap rid s s'"
  using assms sinv_removed[OF assms(3,4,6,7,5), of te] by (simp add: good_def attended_def)

text \<open>Scheduling.\<close>

lemma flag_queued: "flags_ok c \<Longrightarrow> k < length (drainScheduled c) \<Longrightarrow> drainScheduled c ! k \<longleftrightarrow> k \<in> set (drain_ks (outbound c))"
  by (simp add: flags_ok_def)

lemma pc_job_append: "pc_job js r \<Longrightarrow> pc_job (js @ js') r"
  by (cases "(js, r)" rule: pc_job.cases) auto

lemma flags_enqueue:
  assumes ok: "flags_ok c" and k: "k < length (drainScheduled c)" "\<not> drainScheduled c ! k"
  shows "flags_ok ((set_flag k True c)\<lparr>outbound := outbound c @ [DrainJob k]\<rparr>)"
proof -
  have "k \<notin> set (drain_ks (outbound c))" using flag_queued[OF ok k(1)] k(2) by simp
  moreover have "{j. j < length (drainScheduled c) \<and> (drainScheduled c)[k := True] ! j} = insert k {j. j < length (drainScheduled c) \<and> drainScheduled c ! j}"
    using k(1) by (auto simp: nth_list_update)
  ultimately show ?thesis using ok by (simp add: flags_ok_def set_flag_def)
qed

lemma sinv_enqueue:
  assumes "sinv cap e c" "live c" "k < length (drainScheduled c)" "\<not> drainScheduled c ! k"
  shows "sinv cap e ((set_flag k True c)\<lparr>outbound := outbound c @ [DrainJob k]\<rparr>)"
  using assms flags_enqueue[of c k] by (simp add: sinv_def jobs_inv_def order_live_def pc_job_append set_flag_def)

lemma set_flag_id: "k < length (drainScheduled c) \<Longrightarrow> \<not> drainScheduled c ! k \<Longrightarrow> set_flag k False (set_flag k True c) = c"
  by (simp add: set_flag_def list_update_same_conv)

lemma count_zero: "buffer_ok e \<Longrightarrow> buffered_count e = 0 \<longleftrightarrow> queue_of e = []" "buffer_ok e \<Longrightarrow> 0 < buffered_count e \<longleftrightarrow> queue_of e \<noteq> []"
  by (simp_all add: buffered_count_queue)

lemma schedule_good:
  assumes ok: "flow_ok (flow s)" and inv: "sinv cap (entry_of (flow s) rid) (ctls s rid)" and k: "k < length (drainScheduled (ctls s rid))"
    and cap: "0 \<le> cap"
  shows "good cap rid s (scheduleRelayStreamDrain env adm rid k s)"
proof -
  let ?c = "ctls s rid" and ?e = "entry_of (flow s) rid"
  let ?enq = "upd_ctl rid (\<lambda>c. (set_flag k True c)\<lparr>outbound := outbound c @ [DrainJob k]\<rparr>) s"
  have eok: "buffer_ok ?e" using ok by (rule flow_entry_ok)
  note cnt = count_zero[OF eok]
  have same: "good cap rid s s" if "live ?c \<Longrightarrow> has_work ?e \<Longrightarrow> drain_ks (outbound ?c) \<noteq> []"
    using that inv by (auto simp: good_def attended_def shrinks_refl[OF ok])
  show ?thesis
  proof (cases "drainScheduled ?c ! k")
    case True
    then have "k \<in> set (drain_ks (outbound ?c))" using inv k flag_queued by (simp add: sinv_def jobs_inv_def)
    then have "good cap rid s s" using same by force
    then show ?thesis using True by (simp add: scheduleRelayStreamDrain_def)
  next
    case False
    show ?thesis
    proof (cases "live ?c \<and> has_work ?e")
      case True
      have "sinv cap ?e ((set_flag k True ?c)\<lparr>outbound := outbound ?c @ [DrainJob k]\<rparr>)" using sinv_enqueue[OF inv _ k False] True by blast
      moreover have "shrinks rid s ?enq" by (rule shrinks_upd[OF shrinks_refl[OF ok]]) (simp add: set_flag_def)
      ultimately have enq: "good cap rid s ?enq" unfolding good_def by (auto simp: attended_def)
      let ?s' = "upd_ctl rid (set_flag k False) (upd_ctl rid (set_flag k True) s)" and ?ab = "abortForHardByteLimit env rid"
      have ab: "good cap rid s (?ab ?s')"
      proof -
        have s': "?s' = s" using set_flag_id[OF k False] by (simp add: upd_ctl_def)
        obtain js where js: "drain_ks js = []" "terminals js \<le> 1" "ctls (?ab s) rid = ?c\<lparr>live := False, outbound := outbound ?c @ js\<rparr>"
          using abort_effect(4)[OF ok, of env rid] by blast
        then have "ctls (?ab s) rid = ?c\<lparr>live := False, terminalEmitted := terminalEmitted ?c, outbound := outbound ?c @ js\<rparr>" by simp
        then show ?thesis unfolding s'
          using good_removed[OF abort_effect(1,2)[OF ok] inv _ cap js(1,2)] True by blast
      qed
      show ?thesis using True False enq ab
        by (auto simp: scheduleRelayStreamDrain_def getters_entry Let_def cnt has_work_def)
    next
      case nw: False
      then have "scheduleRelayStreamDrain env adm rid k s = s" using False inv eok
        by (auto simp: scheduleRelayStreamDrain_def getters_entry Let_def cnt has_work_def sinv_def order_dead_def)
      then show ?thesis using nw same by auto
    qed
  qed
qed

lemma after_good:
  assumes ok: "flow_ok (flow s)" and inv: "sinv cap (entry_of (flow s) rid) (ctls s rid)" and k: "k < length (drainScheduled (ctls s rid))"
    and cap: "0 \<le> cap"
  shows "good cap rid s (afterDrainMaybeReschedule env adm rid k paused s)"
proof -
  let ?s1 = "upd_flow (clearRelayStreamBackpressureRetryTimer rid) s"
  have s1: "shrinks rid s ?s1" using ok by (rule shrinks_timer)
  have sched: "good cap rid s (scheduleRelayStreamDrain env adm rid k ?s1)"
    by (rule good_trans[OF s1 schedule_good]) (use ok inv k cap in simp_all)
  have eok: "buffer_ok (entry_of (flow s) rid)" using ok by (rule flow_entry_ok)
  show ?thesis
  proof (cases "live (ctls s rid)")
    case False
    then show ?thesis using inv s1 by (simp add: afterDrainMaybeReschedule_def good_def attended_def)
  next
    case True
    show ?thesis
    proof (cases "paused \<and> 0 < fe_credits (entry_of (flow s) rid) \<and> queue_of (entry_of (flow s) rid) \<noteq> []")
      case p: True
      have "good cap rid s (scheduleBackpressureRetry rid k s)"
        using inv shrinks_timer(2)[OF ok k] shrinks_refl[OF ok]
        by (auto simp: scheduleBackpressureRetry_def good_def attended_def)
      then show ?thesis using True p by (simp add: afterDrainMaybeReschedule_def getters_entry count_zero[OF eok])
    next
      case p: False
      show ?thesis
      proof (cases "has_work (entry_of (flow s) rid)")
        case w: True
        then have "afterDrainMaybeReschedule env adm rid k paused s = scheduleRelayStreamDrain env adm rid k ?s1"
          using True p by (auto simp: afterDrainMaybeReschedule_def getters_entry count_zero[OF eok] has_work_def)
        then show ?thesis using sched by simp
      next
        case w: False
        then have "afterDrainMaybeReschedule env adm rid k paused s = s"
          using True p by (auto simp: afterDrainMaybeReschedule_def getters_entry count_zero[OF eok] has_work_def)
        then show ?thesis using w inv shrinks_refl[OF ok] by (simp add: good_def attended_def)
      qed
    qed
  qed
qed

text \<open>The drain between two suspensions.\<close>

lemma sinv_cong:
  assumes "sinv cap e c" "queue_of e' = queue_of e" "pendingComplete e' = pendingComplete e" "fe_credits e' \<le> cap"
  shows "sinv cap e' c"
  using assms unfolding sinv_def order_live_def order_dead_def by simp

definition dgood :: "int \<Rightarrow> string \<Rightarrow> relay_sys \<Rightarrow> (drain_pc option \<times> bool) \<times> flow_state \<Rightarrow> bool" where
  "dgood cap rid s res \<longleftrightarrow> shrinks rid s (s\<lparr>flow := snd res\<rparr>) \<and> sinv cap (entry_of (snd res) rid) ((ctls s rid)\<lparr>running := fst (fst res)\<rparr>)"

definition draining :: "stream_ctl \<Rightarrow> bool" where
  "draining c \<longleftrightarrow> (\<exists>k js. outbound c = DrainJob k # js)"

lemma new_ctl_flags [simp]: "drainScheduled new_ctl = []"
  by (simp add: new_ctl_def)

lemma flags_running [simp]: "flags_ok (c\<lparr>running := r\<rparr>) = flags_ok c"
  by (simp add: flags_ok_def)

lemma sinv_suspend:
  assumes "sinv cap e (c\<lparr>running := None\<rparr>)" "live c" "draining c" "\<forall>t. pc \<noteq> AwaitTerminal t" "pc_head cap (queue_of e) (completeReceived c) (Some pc)"
  shows "sinv cap e (c\<lparr>running := Some pc\<rparr>)"
proof -
  have "pc_job (outbound c) (Some pc)" using assms(3,4) by (auto simp: draining_def)
  then show ?thesis using assms(1,2,5) by (simp add: sinv_def jobs_inv_def order_live_def)
qed

lemma tail_sinv:
  assumes "flow_ok st" "live c" "draining c" "sinv cap (entry_of st rid) (c\<lparr>running := None\<rparr>)"
  shows "sinv cap (entry_of st rid) (c\<lparr>running := fst (drain_tail rid st)\<rparr>)"
proof (cases "fst (drain_tail rid st)")
  case (Some pc)
  then have "\<exists>p. pc = AwaitComplete p" "queue_of (entry_of st rid) = []" "pendingComplete (entry_of st rid) \<noteq> None"
    using count_zero[OF flow_entry_ok[OF assms(1), of rid]] by (auto simp: drain_tail_def getters_entry split: option.splits if_splits)
  moreover have "completeReceived c" using calculation(3) assms(2,4) by (simp add: sinv_def order_live_def)
  ultimately show ?thesis unfolding Some using assms(2-4) by (intro sinv_suspend) auto
qed (use assms in simp)

lemma exit_good:
  assumes ok: "flow_ok (flow s)" and l: "live (ctls s rid)" "draining (ctls s rid)" and cr: "credits \<le> cap" "0 \<le> cap"
    and inv: "sinv cap (entry_of (flow s) rid) ((ctls s rid)\<lparr>running := None\<rparr>)"
  shows "dgood cap rid s (drain_exit rid credits paused (flow s))"
proof -
  let ?f = "\<lambda>e::flow_entry. e\<lparr>fe_credits := max 0 (max 0 credits)\<rparr>"
  let ?st = "update_entry rid ?f (flow s)"
  have st: "setRelayStreamFlowCredits rid (max 0 credits) (flow s) = ?st" by (simp add: setRelayStreamFlowCredits_def)
  have "keeps_queue ?f" by (rule keeps_queueI) simp_all
  from shrinks_update[OF ok this, of rid] have sh: "shrinks rid s (s\<lparr>flow := ?st\<rparr>)" by (simp add: upd_flow_def)
  have ok': "flow_ok ?st" using shrinks_ok[OF sh] by simp
  have inv': "sinv cap (entry_of ?st rid) ((ctls s rid)\<lparr>running := None\<rparr>)" by (rule sinv_cong[OF inv]) (use cr in \<open>simp_all add: queue_same\<close>)
  show ?thesis using sh inv' tail_sinv[OF ok' l inv'] by (cases paused) (simp_all add: dgood_def drain_exit_def st Let_def)
qed

lemma loop_good:
  assumes ok: "flow_ok (flow s)" and l: "live (ctls s rid)" "draining (ctls s rid)" and cr: "credits \<le> cap" "0 \<le> cap"
    and inv: "sinv cap (entry_of (flow s) rid) ((ctls s rid)\<lparr>running := None\<rparr>)"
  shows "dgood cap rid s (drain_loop rid True canEmit credits (flow s))"
proof -
  let ?q = "queue_of (entry_of (flow s) rid)"
  note ex = exit_good[OF ok l cr inv]
  have eok: "buffer_ok (entry_of (flow s) rid)" using ok by (rule flow_entry_ok)
  show ?thesis
  proof (cases "0 < credits \<and> ?q \<noteq> [] \<and> canEmit")
    case True
    then obtain chunk raw b meta rest where q: "?q = (chunk, raw, b, meta) # rest" by (cases ?q) auto
    then have "\<not> (raw = None \<and> chunk = None)" using eok by (auto simp: buffer_ok_def item_ok_def)
    then have "drain_loop rid True canEmit credits (flow s) = ((Some (AwaitChunk credits chunk raw meta), False), flow s)"
      using True q by (auto simp: drain_loop_def getters_entry count_zero[OF eok] peek_front[OF eok])
    moreover have "sinv cap (entry_of (flow s) rid) ((ctls s rid)\<lparr>running := Some (AwaitChunk credits chunk raw meta)\<rparr>)"
      by (rule sinv_suspend[OF inv l]) (use True cr q in auto)
    ultimately show ?thesis using shrinks_refl[OF ok, of rid] by (simp add: dgood_def)
  next
    case False
    then show ?thesis using ex[of True] ex[of False] by (auto simp: drain_loop_def getters_entry count_zero[OF eok])
  qed
qed

lemma begin_good:
  assumes ok: "flow_ok (flow s)" and d: "draining (ctls s rid)" and cr: "0 \<le> cap" and r: "running (ctls s rid) = None"
    and inv: "sinv cap (entry_of (flow s) rid) (ctls s rid)"
  shows "dgood cap rid s (drain_begin rid (live (ctls s rid)) canEmit (flow s))"
proof (cases "live (ctls s rid)")
  case True
  have "(ctls s rid)\<lparr>running := None\<rparr> = ctls s rid" using r by simp
  then have inv': "sinv cap (entry_of (flow s) rid) ((ctls s rid)\<lparr>running := None\<rparr>)" using inv by simp
  have "fe_credits (entry_of (flow s) rid) \<le> cap" using inv by (simp add: sinv_def)
  from loop_good[OF ok True d this cr inv'] show ?thesis using True tail_sinv[OF ok True d inv'] shrinks_refl[OF ok, of rid]
    by (auto simp: drain_begin_def Let_def getters_entry dgood_def)
next
  case False
  have "(ctls s rid)\<lparr>running := None\<rparr> = ctls s rid" using r by simp
  then show ?thesis using False inv shrinks_refl[OF ok, of rid] by (simp add: drain_begin_def dgood_def)
qed

text \<open>The end of a job. Taking it off the queue commutes with what the \<^verbatim>\<open>finally\<close> block does.\<close>

definition drop_job :: "stream_ctl \<Rightarrow> stream_ctl" where
  "drop_job c = c\<lparr>running := None, outbound := tl (outbound c)\<rparr>"

lemma upd_ctl_comp: "upd_ctl rid f (upd_ctl rid g s) = upd_ctl rid (\<lambda>c. f (g c)) s"
  by (simp add: upd_ctl_def)

lemma upd_flow_ctl: "upd_flow g (upd_ctl rid f s) = upd_ctl rid f (upd_flow g s)"
  by (simp add: upd_ctl_def upd_flow_def)

lemma upd_ctl_cong: "f (ctls s rid) = g (ctls s rid) \<Longrightarrow> upd_ctl rid f s = upd_ctl rid g s"
  by (simp add: upd_ctl_def)

lemma abort_drop:
  assumes "outbound (ctls s rid) \<noteq> []"
  shows "abortForHardByteLimit env rid (upd_ctl rid drop_job s) = upd_ctl rid drop_job (abortForHardByteLimit env rid s)"
  using assms unfolding abortForHardByteLimit_def remove_routes_def Let_def
  by (simp add: upd_flow_ctl upd_ctl_comp drop_job_def) (auto intro!: upd_ctl_cong)

lemma schedule_drop:
  assumes "outbound (ctls s rid) \<noteq> []"
  shows "scheduleRelayStreamDrain env adm rid k (upd_ctl rid drop_job s) = upd_ctl rid drop_job (scheduleRelayStreamDrain env adm rid k s)"
proof -
  let ?enq = "upd_ctl rid (\<lambda>c. (set_flag k True c)\<lparr>outbound := outbound c @ [DrainJob k]\<rparr>)"
  let ?fl = "\<lambda>s. upd_ctl rid (set_flag k False) (upd_ctl rid (set_flag k True) s)"
  have enq: "?enq (upd_ctl rid drop_job s) = upd_ctl rid drop_job (?enq s)"
    using assms unfolding upd_ctl_comp by (intro upd_ctl_cong) (simp add: drop_job_def set_flag_def)
  have fl: "?fl (upd_ctl rid drop_job s) = upd_ctl rid drop_job (?fl s)"
    unfolding upd_ctl_comp by (intro upd_ctl_cong) (simp add: drop_job_def set_flag_def)
  have ab: "abortForHardByteLimit env rid (?fl (upd_ctl rid drop_job s)) = upd_ctl rid drop_job (abortForHardByteLimit env rid (?fl s))"
    unfolding fl by (rule abort_drop) (use assms in \<open>simp add: set_flag_def\<close>)
  have flag: "drainScheduled (ctls (upd_ctl rid drop_job s) rid) = drainScheduled (ctls s rid)" by (simp add: drop_job_def)
  show ?thesis unfolding scheduleRelayStreamDrain_def Let_def enq ab flag by auto
qed

lemma after_drop:
  assumes "outbound (ctls s rid) \<noteq> []"
  shows "afterDrainMaybeReschedule env adm rid k paused (upd_ctl rid drop_job s) = upd_ctl rid drop_job (afterDrainMaybeReschedule env adm rid k paused s)"
proof -
  let ?cl = "upd_flow (clearRelayStreamBackpressureRetryTimer rid)"
  have sched: "scheduleRelayStreamDrain env adm rid k (?cl (upd_ctl rid drop_job s)) = upd_ctl rid drop_job (scheduleRelayStreamDrain env adm rid k (?cl s))"
    unfolding upd_flow_ctl by (rule schedule_drop) (use assms in simp)
  have retry: "scheduleBackpressureRetry rid k (upd_ctl rid drop_job s) = upd_ctl rid drop_job (scheduleBackpressureRetry rid k s)"
    by (simp add: scheduleBackpressureRetry_def upd_flow_ctl)
  have live: "live (ctls (upd_ctl rid drop_job s) rid) = live (ctls s rid)" by (simp add: drop_job_def)
  show ?thesis unfolding afterDrainMaybeReschedule_def Let_def sched retry live by (auto simp: upd_flow_ctl)
qed

lemma flags_drop:
  assumes ok: "flags_ok c" and js: "outbound c = DrainJob k # js"
  shows "flags_ok (drop_job (set_flag k False c))"
proof -
  have s: "k \<notin> set (drain_ks js)" "distinct (drain_ks js)" "insert k (set (drain_ks js)) = {j. j < length (drainScheduled c) \<and> drainScheduled c ! j}"
    "wasOpened c \<longrightarrow> drainScheduled c \<noteq> []" using ok js by (simp_all add: flags_ok_def)
  have "k < length (drainScheduled c)" using s(3) by blast
  then have "{j. j < length (drainScheduled c) \<and> (drainScheduled c)[k := False] ! j} = {j. j < length (drainScheduled c) \<and> drainScheduled c ! j} - {k}"
    by (auto simp: nth_list_update split: if_splits)
  also have "\<dots> = set (drain_ks js)" using s(1,3) by blast
  finally show ?thesis using s(2,4) js by (simp add: flags_ok_def drop_job_def set_flag_def)
qed

lemma sinv_drop:
  assumes inv: "sinv cap e (c\<lparr>running := None\<rparr>)" and js: "outbound c = DrainJob k # js"
  shows "sinv cap e (drop_job (set_flag k False c))" "k < length (drainScheduled c)"
proof -
  have ok: "flags_ok c" using inv by (simp add: sinv_def jobs_inv_def)
  have "outbound (c\<lparr>running := None\<rparr>) \<noteq> outbound new_ctl" using js by (simp add: new_ctl_def)
  then have "c\<lparr>running := None\<rparr> \<noteq> new_ctl" by metis
  then have op: "wasOpened c" using inv by (auto simp: sinv_def order_live_def order_dead_def split: if_splits)
  have "k \<in> set (drain_ks (outbound c))" using js by simp
  then show "k < length (drainScheduled c)" using ok by (simp add: flags_ok_def)
  have "flags_ok (drop_job (set_flag k False c))" using flags_drop[OF ok js] .
  then show "sinv cap e (drop_job (set_flag k False c))" using inv js op
    by (simp add: sinv_def jobs_inv_def order_live_def order_dead_def drop_job_def set_flag_def split: if_splits)
qed

lemma job_end_good:
  assumes ok: "flow_ok (flow s)" and inv: "sinv cap (entry_of (flow s) rid) ((ctls s rid)\<lparr>running := fst res\<rparr>)"
    and d: "draining (ctls s rid)" and cap: "0 \<le> cap"
  shows "good cap rid s (job_end env adm rid res s)"
proof (cases "fst res")
  case (Some pc)
  then have "job_end env adm rid res s = upd_ctl rid (\<lambda>c. c\<lparr>running := Some pc\<rparr>) s" by (cases res) (simp add: job_end_def)
  then show ?thesis using inv Some d shrinks_ctl[OF ok, of rid "\<lambda>c. c\<lparr>running := Some pc\<rparr>"]
    by (auto simp: good_def attended_def draining_def)
next
  case None
  obtain k js where js: "outbound (ctls s rid) = DrainJob k # js" using d by (auto simp: draining_def)
  let ?s0 = "upd_ctl rid (set_flag k False) s"
  let ?s1 = "upd_ctl rid drop_job ?s0"
  have "job_end env adm rid res s = upd_ctl rid drop_job (afterDrainMaybeReschedule env adm rid k (snd res) ?s0)"
    using None js by (cases res) (simp add: job_end_def drop_job_def[abs_def])
  also have "\<dots> = afterDrainMaybeReschedule env adm rid k (snd res) ?s1"
    by (rule after_drop[symmetric]) (simp add: set_flag_def js)
  finally have eq: "job_end env adm rid res s = afterDrainMaybeReschedule env adm rid k (snd res) ?s1" .
  have s1: "shrinks rid s ?s1" unfolding upd_ctl_comp by (rule shrinks_upd[OF shrinks_refl[OF ok]]) (simp add: drop_job_def set_flag_def)
  have "sinv cap (entry_of (flow ?s1) rid) (ctls ?s1 rid)" using sinv_drop(1)[OF inv[unfolded None] js] by simp
  moreover have "k < length (drainScheduled (ctls ?s1 rid))" using sinv_drop(2)[OF inv[unfolded None] js] by (simp add: drop_job_def set_flag_def)
  ultimately show ?thesis unfolding eq using good_trans[OF s1 after_good[OF shrinks_ok[OF s1]]] cap by blast
qed

text \<open>Resuming.\<close>

lemma pop_sinv:
  assumes eok: "buffer_ok e" and l: "live c" and inv: "sinv cap e c" and r: "running c = Some (AwaitChunk credits chunk raw meta)"
  shows "sinv cap (pop_entry e) (c\<lparr>emitted := emitted c @ [ChunkOut chunk raw], running := None\<rparr>)"
    "queue_of e \<noteq> []" "0 < credits" "credits \<le> cap"
proof -
  obtain b rest where q: "queue_of e = (chunk, raw, b, meta) # rest" and cr: "0 < credits" "credits \<le> cap"
    using inv l r by (auto simp: sinv_def order_live_def)
  then show "queue_of e \<noteq> []" "0 < credits" "credits \<le> cap" by simp_all
  obtain xs where xs: "emitted c = map chunk_event xs" "received c = xs @ queue_of e" using inv l by (auto simp: sinv_def order_live_def)
  have pop: "queue_of (pop_entry e) = rest" using entry_pop(1)[OF eok] q by simp
  have same: "pendingComplete (pop_entry e) = pendingComplete e" "fe_credits (pop_entry e) = fe_credits e" by (simp_all add: pop_entry_def Let_def)
  have "\<exists>ys. emitted c @ [ChunkOut chunk raw] = map chunk_event ys \<and> received c = ys @ rest"
    using xs q by (intro exI[of _ "xs @ [(chunk, raw, b, meta)]"]) (simp add: chunk_event_def)
  moreover have "flags_ok (c\<lparr>emitted := emitted c @ [ChunkOut chunk raw], running := None\<rparr>) = flags_ok c" by (simp add: flags_ok_def)
  ultimately show "sinv cap (pop_entry e) (c\<lparr>emitted := emitted c @ [ChunkOut chunk raw], running := None\<rparr>)"
    using inv l by (simp add: sinv_def jobs_inv_def order_live_def pop same)
qed

lemma shrinks_pop:
  assumes ok: "flow_ok (flow s)" and ne: "queue_of (entry_of (flow s) rid) \<noteq> []"
  shows "shrinks rid s (upd_flow (\<lambda>st. snd (popRelayStreamBufferedChunk rid st)) s)"
proof -
  let ?e = "entry_of (flow s) rid"
  have eok: "buffer_ok ?e" using ok by (rule flow_entry_ok)
  note pop = entry_pop[OF eok ne]
  have "buffered_count (pop_entry ?e) \<le> buffered_count ?e" by (simp add: buffered_count_queue[OF pop(2)] buffered_count_queue[OF eok] pop(1))
  moreover have "0 \<le> bufferedChunkBytes ?e ! bufferedChunkHead ?e"
    using front_queue[OF eok] ne eok by (cases "queue_of ?e") (auto simp: front_entry_def buffer_ok_def item_ok_def Let_def split: if_splits)
  ultimately show ?thesis using pop_effect[OF ok ne] pop(3) by (simp add: shrinks_def)
qed

definition resumed :: "int \<Rightarrow> string \<Rightarrow> relay_sys \<Rightarrow> (drain_pc option \<times> bool) \<times> relay_sys \<Rightarrow> bool" where
  "resumed cap rid s res \<longleftrightarrow> shrinks rid s (snd res) \<and> outbound (ctls (snd res) rid) = outbound (ctls s rid) \<and>
     sinv cap (entry_of (flow (snd res)) rid) ((ctls (snd res) rid)\<lparr>running := fst (fst res)\<rparr>)"

lemma sinv_idle: "sinv cap e c \<Longrightarrow> wasOpened c \<Longrightarrow> sinv cap e (c\<lparr>running := None\<rparr>)"
  by (simp add: sinv_def jobs_inv_def order_live_def order_dead_def split: if_splits)

lemma resumed_loop:
  assumes "shrinks rid s s1" "outbound (ctls s1 rid) = outbound (ctls s rid)" "dgood cap rid s1 res"
  shows "resumed cap rid s (fst res, s1\<lparr>flow := snd res\<rparr>)"
  using assms shrinks_trans by (auto simp: resumed_def dgood_def)

lemma resume_chunk:
  assumes ok: "flow_ok (flow s)" and cap: "0 \<le> cap" and inv: "sinv cap (entry_of (flow s) rid) (ctls s rid)" and l: "live (ctls s rid)"
    and d: "draining (ctls s rid)" and r: "running (ctls s rid) = Some (AwaitChunk credits chunk raw meta)"
  shows "resumed cap rid s (drain_resume rid emitOk canEmit (AwaitChunk credits chunk raw meta) s)"
proof (cases emitOk)
  case False
  have "wasOpened (ctls s rid)" using inv l by (simp add: sinv_def order_live_def)
  then have "dgood cap rid s (drain_exit rid credits True (flow s))"
    using exit_good[OF ok l d _ cap] sinv_idle[OF inv] pop_sinv(4)[OF flow_entry_ok[OF ok] l inv r] by blast
  then show ?thesis using False l resumed_loop[OF shrinks_refl[OF ok]] by (simp add: drain_resume_def case_prod_beta)
next
  case True
  let ?e = "entry_of (flow s) rid" and ?row = "\<lambda>e::flow_entry. e\<lparr>forwardedRows := forwardedRows e + cm_rowCount meta\<rparr>"
  let ?pop = "upd_flow (\<lambda>st. snd (popRelayStreamBufferedChunk rid st)) s"
  let ?s1 = "emit_out rid (ChunkOut chunk raw) (upd_flow (update_entry rid ?row) ?pop)"
  note p = pop_sinv[OF flow_entry_ok[OF ok] l inv r]
  have pop: "shrinks rid s ?pop" using shrinks_pop[OF ok p(2)] .
  have "keeps_queue ?row" by (rule keeps_queueI) simp_all
  then have row: "shrinks rid ?pop (upd_flow (update_entry rid ?row) ?pop)" using shrinks_update[OF shrinks_ok[OF pop]] by blast
  then have s1: "shrinks rid s ?s1" unfolding emit_out_def by (intro shrinks_upd shrinks_trans[OF pop]) simp_all
  have e1: "entry_of (flow ?s1) rid = ?row (pop_entry ?e)" using pop_effect(2)[OF ok p(2), of rid] by (simp add: emit_out_def)
  have c1: "ctls ?s1 rid = (ctls s rid)\<lparr>emitted := emitted (ctls s rid) @ [ChunkOut chunk raw]\<rparr>" by (simp add: emit_out_def)
  have "sinv cap (entry_of (flow ?s1) rid) ((ctls ?s1 rid)\<lparr>running := None\<rparr>)" unfolding e1 c1
    by (rule sinv_cong[of cap "pop_entry ?e"]) (use p(1) in \<open>simp_all add: queue_same sinv_def\<close>)
  moreover have "draining (ctls ?s1 rid)" "live (ctls ?s1 rid)" using d l by (simp_all add: c1 draining_def)
  ultimately have "dgood cap rid ?s1 (drain_loop rid True canEmit (credits - 1) (flow ?s1))"
    using loop_good[OF shrinks_ok[OF s1]] p(4) cap by simp
  moreover have "drain_resume rid emitOk canEmit (AwaitChunk credits chunk raw meta) s =
      (fst (drain_loop rid True canEmit (credits - 1) (flow ?s1)), ?s1\<lparr>flow := snd (drain_loop rid True canEmit (credits - 1) (flow ?s1))\<rparr>)"
    using True l by (simp add: drain_resume_def Let_def case_prod_beta emit_out_def addRelayStreamForwardedRows_def) (simp add: upd_ctl_def upd_flow_def)
  ultimately show ?thesis using resumed_loop[OF s1] c1 by simp
qed

lemma used_opened: "sinv cap e c \<Longrightarrow> outbound c \<noteq> [] \<Longrightarrow> wasOpened c"
  by (auto simp: sinv_def order_live_def order_dead_def new_ctl_def split: if_splits)

lemma shrinks_clear_pending:
  assumes "flow_ok (flow s)"
  shows "shrinks rid s (upd_flow (clearRelayStreamPendingComplete rid) s)"
proof -
  let ?f = "\<lambda>e::flow_entry. e\<lparr>pendingComplete := None, pendingCompleteRawForward := None\<rparr>"
  have "keeps_queue ?f" by (rule keeps_queueI) simp_all
  then have "shrinks rid s (upd_flow (update_entry rid ?f) s)" using shrinks_update[OF assms] by blast
  then show ?thesis using shrinks_refl[OF assms, of rid]
    by (cases "jm_get (entriesByRequestId (flow s)) rid")
      (simp_all add: clearRelayStreamPendingComplete_def update_entry_def ensureRelayStreamFlowEntry_def upd_flow_def)
qed

lemma removed_sinv:
  assumes "sinv cap e c" "wasOpened c" "0 \<le> cap" "end_ok out (received c) (terminals (outbound c))"
  shows "sinv cap new_flow_entry (c\<lparr>emitted := out, live := False, running := None\<rparr>)"
  using assms by (simp add: sinv_def jobs_inv_def flags_ok_def order_dead_def new_entry_ok)

lemma resume_complete:
  assumes ok: "flow_ok (flow s)" and cap: "0 \<le> cap" and inv: "sinv cap (entry_of (flow s) rid) (ctls s rid)" and l: "live (ctls s rid)"
    and r: "running (ctls s rid) = Some (AwaitComplete p)"
  shows "resumed cap rid s (drain_resume rid emitOk canEmit (AwaitComplete p) s)"
proof -
  let ?c = "ctls s rid"
  obtain xs where xs: "emitted ?c = map chunk_event xs" "received ?c = xs" "terminals (outbound ?c) = 0" "wasOpened ?c"
    using inv l r by (auto simp: sinv_def order_live_def)
  have cut: "end_ok (emitted ?c) (received ?c) (terminals (outbound ?c))" using end_ok_cut[of 0 xs "[]"] xs by simp
  have fin: "end_ok (emitted ?c @ [CompleteOut p]) (received ?c) (terminals (outbound ?c))"
    unfolding end_ok_def using xs by (intro exI[of _ xs] exI[of _ "[]"] exI[of _ "[CompleteOut p]"]) simp
  let ?s1 = "upd_flow (clearRelayStreamPendingComplete rid) (emit_out rid (CompleteOut p) s)"
  have e: "shrinks rid s (emit_out rid (CompleteOut p) s)" unfolding emit_out_def by (rule shrinks_upd[OF shrinks_refl[OF ok]]) simp
  have s1: "shrinks rid s ?s1" using shrinks_trans[OF e shrinks_clear_pending[OF shrinks_ok[OF e]]] .
  show ?thesis
  proof (cases emitOk)
    case True
    note re = remove_effect[OF shrinks_ok[OF s1], of rid]
    have c: "ctls (remove_routes rid ?s1) rid = ?c\<lparr>emitted := emitted ?c @ [CompleteOut p], live := False\<rparr>"
      unfolding re(4) by (simp add: emit_out_def)
    have "drain_resume rid emitOk canEmit (AwaitComplete p) s = ((None, False), remove_routes rid ?s1)" using True l by (simp add: drain_resume_def)
    then show ?thesis using shrinks_trans[OF s1 re(1)] re(2) c removed_sinv[OF inv xs(4) cap fin] by (simp add: resumed_def)
  next
    case False
    then show ?thesis using l finalize_effect[OF ok, of rid] removed_sinv[OF inv xs(4) cap cut] by (simp add: drain_resume_def resumed_def)
  qed
qed

lemma resume_good:
  assumes ok: "flow_ok (flow s)" and cap: "0 \<le> cap" and inv: "sinv cap (entry_of (flow s) rid) (ctls s rid)"
    and d: "draining (ctls s rid)" and r: "running (ctls s rid) = Some pc"
  shows "resumed cap rid s (drain_resume rid emitOk canEmit pc s)"
proof -
  have op: "wasOpened (ctls s rid)" using used_opened[OF inv] d by (auto simp: draining_def)
  have nt: "\<forall>t. pc \<noteq> AwaitTerminal t" using inv d r by (auto simp: sinv_def jobs_inv_def draining_def)
  show ?thesis
  proof (cases "live (ctls s rid)")
    case True
    show ?thesis
    proof (cases pc)
      case (AwaitChunk credits chunk raw meta)
      then show ?thesis using resume_chunk[OF ok cap inv True d] r by simp
    next
      case (AwaitComplete p)
      then show ?thesis using resume_complete[OF ok cap inv True] r by simp
    qed (use nt in simp)
  next
    case False
    then have "drain_resume rid emitOk canEmit pc s = ((None, False), s)" using nt by (cases pc) (simp_all add: drain_resume_def)
    then show ?thesis using shrinks_refl[OF ok, of rid] sinv_idle[OF inv op] by (simp add: resumed_def)
  qed
qed

text \<open>Terminal jobs.\<close>

lemma terminal_drop:
  assumes inv: "sinv cap e c" and js: "outbound c = TerminalJob t # js" and out: "out = emitted c \<or> out = emitted c @ [TerminalOut t]"
  shows "sinv cap e (c\<lparr>emitted := out, running := None, outbound := js\<rparr>)" "\<not> live c"
proof -
  show nl: "\<not> live c" using inv js by (auto simp: sinv_def order_live_def)
  have op: "wasOpened c" using used_opened[OF inv] js by simp
  have "end_ok (emitted c) (received c) (Suc (terminals js))" using inv nl js by (simp add: sinv_def order_dead_def)
  then obtain xs ys where xs: "received c = xs @ ys" "emitted c = map chunk_event xs" "terminals js = 0" by (auto simp: end_ok_def)
  have "end_ok out (received c) 0" using out
  proof
    assume "out = emitted c"
    then show ?thesis using xs end_ok_cut[of 0 xs ys] by simp
  next
    assume "out = emitted c @ [TerminalOut t]"
    then show ?thesis unfolding end_ok_def using xs by (intro exI[of _ xs] exI[of _ ys] exI[of _ "[TerminalOut t]"]) simp
  qed
  then show "sinv cap e (c\<lparr>emitted := out, running := None, outbound := js\<rparr>)"
    using inv nl op js xs by (simp add: sinv_def jobs_inv_def flags_ok_def order_dead_def)
qed

lemma job_end_terminal:
  assumes ok: "flow_ok (flow s)" and js: "outbound (ctls s rid) = TerminalJob t # js" and inv: "sinv cap (entry_of (flow s) rid) c"
    and c: "outbound c = TerminalJob t # js" and out: "out = emitted c \<or> out = emitted c @ [TerminalOut t]"
    and s: "ctls s rid = c\<lparr>emitted := out\<rparr>"
  shows "good cap rid s (job_end env adm rid (None, False) s)"
proof -
  let ?s1 = "upd_ctl rid (\<lambda>c. c\<lparr>running := None, outbound := tl (outbound c)\<rparr>) s"
  have "job_end env adm rid (None, False) s = ?s1" using js by (simp add: job_end_def)
  moreover have "ctls ?s1 rid = c\<lparr>emitted := out, running := None, outbound := js\<rparr>" using s c by simp
  moreover have "shrinks rid s ?s1" by (rule shrinks_upd[OF shrinks_refl[OF ok]]) simp
  ultimately show ?thesis using terminal_drop[OF inv c out]
    by (simp add: good_def attended_def)
qed

text \<open>The three job steps.\<close>

lemma job_cases:
  assumes "sinv cap e c" "outbound c \<noteq> []"
  obtains "draining c" | t js where "outbound c = TerminalJob t # js"
  using assms(2) by (cases "outbound c" rule: drain_ks.cases) (auto simp: draining_def)

lemma job_begin_good:
  assumes ok: "flow_ok (flow s)" and cap: "0 \<le> cap" and inv: "sinv cap (entry_of (flow s) rid) (ctls s rid)"
    and r: "running (ctls s rid) = None" and ne: "outbound (ctls s rid) \<noteq> []"
  shows "good cap rid s (job_begin env adm canEmit rid s)"
  using inv ne
proof (cases rule: job_cases)
  case 1
  let ?res = "drain_begin rid (live (ctls s rid)) canEmit (flow s)"
  let ?s1 = "s\<lparr>flow := snd ?res\<rparr>"
  have g: "shrinks rid s ?s1" "sinv cap (entry_of (flow ?s1) rid) ((ctls ?s1 rid)\<lparr>running := fst (fst ?res)\<rparr>)"
    using begin_good[OF ok 1 cap r inv, of canEmit] by (simp_all add: dgood_def)
  have "good cap rid s (job_end env adm rid (fst ?res) ?s1)"
    by (rule good_trans[OF g(1) job_end_good[OF shrinks_ok[OF g(1)] g(2)]]) (use 1 cap in simp_all)
  then show ?thesis using 1 by (auto simp: job_begin_def draining_def case_prod_beta)
next
  case (2 t js)
  have nl: "\<not> live (ctls s rid)" using terminal_drop(2)[OF inv 2] by blast
  have "sinv cap (entry_of (flow s) rid) ((ctls s rid)\<lparr>running := Some (AwaitTerminal t)\<rparr>)"
    using inv 2 used_opened[OF inv ne] nl by (simp add: sinv_def jobs_inv_def order_dead_def)
  then show ?thesis using 2 nl shrinks_ctl[OF ok, of rid "\<lambda>c. c\<lparr>running := Some (AwaitTerminal t)\<rparr>"]
    by (simp add: job_begin_def job_end_def good_def attended_def)
qed

lemma running_job: "sinv cap e c \<Longrightarrow> running c \<noteq> None \<Longrightarrow> outbound c \<noteq> []"
  by (cases "outbound c") (auto simp: sinv_def jobs_inv_def)

lemma job_resume_good:
  assumes ok: "flow_ok (flow s)" and cap: "0 \<le> cap" and inv: "sinv cap (entry_of (flow s) rid) (ctls s rid)"
    and r: "running (ctls s rid) = Some pc"
  shows "good cap rid s (job_resume env adm emitOk canEmit rid s)"
  using inv running_job[OF inv, unfolded r, OF option.discI[OF refl]]
proof (cases rule: job_cases)
  case 1
  let ?res = "drain_resume rid emitOk canEmit pc s"
  have g: "shrinks rid s (snd ?res)" "outbound (ctls (snd ?res) rid) = outbound (ctls s rid)"
    "sinv cap (entry_of (flow (snd ?res)) rid) ((ctls (snd ?res) rid)\<lparr>running := fst (fst ?res)\<rparr>)"
    using resume_good[OF ok cap inv 1 r, of emitOk canEmit] by (simp_all add: resumed_def)
  have "good cap rid s (job_end env adm rid (fst ?res) (snd ?res))"
    by (rule good_trans[OF g(1) job_end_good[OF shrinks_ok[OF g(1)] g(3)]]) (use 1 cap g(2) in \<open>simp_all add: draining_def\<close>)
  then show ?thesis using r by (simp add: job_resume_def case_prod_beta)
next
  case (2 t js)
  have pc: "pc = AwaitTerminal t" using inv 2 r by (simp add: sinv_def jobs_inv_def)
  let ?s1 = "if emitOk then emit_out rid (TerminalOut t) s else s"
  let ?out = "if emitOk then emitted (ctls s rid) @ [TerminalOut t] else emitted (ctls s rid)"
  have s1: "shrinks rid s ?s1" using shrinks_refl[OF ok, of rid] by (simp add: emit_out_def shrinks_upd)
  have c1: "ctls ?s1 rid = (ctls s rid)\<lparr>emitted := ?out\<rparr>" "flow ?s1 = flow s" by (simp_all add: emit_out_def)
  have "good cap rid ?s1 (job_end env adm rid (None, False) ?s1)"
    by (rule job_end_terminal[OF _ _ _ 2(1), where out = ?out]) (use ok inv 2 c1 in simp_all)
  then show ?thesis using good_trans[OF s1] r pc by (simp add: job_resume_def drain_resume_def)
qed

lemma job_fails_good:
  assumes ok: "flow_ok (flow s)" and cap: "0 \<le> cap" and inv: "sinv cap (entry_of (flow s) rid) (ctls s rid)"
    and r: "running (ctls s rid) \<noteq> None"
  shows "good cap rid s (job_fails env adm rid s)"
  using inv running_job[OF inv r]
proof (cases rule: job_cases)
  case 1
  have "sinv cap (entry_of (flow s) rid) ((ctls s rid)\<lparr>running := None\<rparr>)"
    using sinv_idle[OF inv used_opened[OF inv running_job[OF inv r]]] .
  then show ?thesis using job_end_good[OF ok _ 1 cap, of "(None, False)"] r by (auto simp: job_fails_def)
next
  case (2 t js)
  then have "good cap rid s (job_end env adm rid (None, False) s)" by (intro job_end_terminal[OF ok 2 inv 2, where out = "emitted (ctls s rid)"]) simp_all
  then show ?thesis using r by (auto simp: job_fails_def)
qed

text \<open>The events.\<close>

lemma open_good:
  assumes ok: "flow_ok (flow s)" and cap: "0 \<le> cap" and inv: "sinv cap (entry_of (flow s) rid) (ctls s rid)" and op: "\<not> wasOpened (ctls s rid)"
  shows "good cap rid s (open_stream rid sid s)"
proof -
  let ?f = "\<lambda>e::flow_entry. e\<lparr>fe_credits := max 0 0\<rparr>"
  let ?s1 = "upd_flow (update_entry rid ?f) s"
  have s': "open_stream rid sid s = upd_ctl rid (\<lambda>c. c\<lparr>wasOpened := True, live := True, routeStreamId := sid, drainScheduled := [False]\<rparr>) ?s1"
    by (simp add: open_stream_def setRelayStreamFlowCredits_def[abs_def])
  have "keeps_queue ?f" by (rule keeps_queueI) simp_all
  then have s1: "shrinks rid s ?s1" using shrinks_update[OF ok] by blast
  have dead: "\<not> live (ctls s rid)" "ctls s rid = new_ctl" "queue_of (entry_of (flow s) rid) = []" "pendingComplete (entry_of (flow s) rid) = None"
    using inv op by (auto simp: sinv_def order_live_def order_dead_def split: if_splits)
  let ?c = "new_ctl\<lparr>wasOpened := True, live := True, routeStreamId := sid, drainScheduled := [False]\<rparr>"
  have "sinv cap (?f (entry_of (flow s) rid)) ?c"
    using dead cap by (auto simp: sinv_def jobs_inv_def flags_ok_def order_live_def new_ctl_def queue_same)
  then show ?thesis using shrinks_upd[OF s1, of "\<lambda>c. c\<lparr>wasOpened := True, live := True, routeStreamId := sid, drainScheduled := [False]\<rparr>"] dead
    by (simp add: good_def s' attended_def has_work_def queue_same)
qed

lemma terminal_good:
  assumes ok: "flow_ok (flow s)" and cap: "0 \<le> cap" and inv: "sinv cap (entry_of (flow s) rid) (ctls s rid)" and l: "live (ctls s rid)"
    and att: "attended (entry_of (flow s) rid) (timer_of (flow s) rid) (ctls s rid)"
  shows "good cap rid s (emitRelayTerminalComplete num rid status reason payload errorCode s)"
proof -
  let ?s1 = "upd_ctl rid (\<lambda>c. c\<lparr>terminalEmitted := True\<rparr>) s"
  let ?fin = "\<lambda>t. upd_ctl rid (\<lambda>c. c\<lparr>outbound := outbound c @ [TerminalJob t]\<rparr>) (remove_routes rid ?s1)"
  have s1: "shrinks rid s ?s1" by (rule shrinks_upd[OF shrinks_refl[OF ok]]) simp
  have same: "good cap rid s s" using inv att shrinks_refl[OF ok] by (simp add: good_def)
  have "sinv cap (entry_of (flow s) rid) ((ctls s rid)\<lparr>terminalEmitted := True\<rparr>)"
    using inv l by (simp add: sinv_def jobs_inv_def flags_ok_def order_live_def)
  then have g1: "good cap rid s ?s1" using s1 att by (simp add: good_def attended_def)
  have g2: "good cap rid s (?fin t)" for t
  proof -
    note re = remove_effect[OF shrinks_ok[OF s1], of rid]
    have "shrinks rid s (?fin t)" by (rule shrinks_upd[OF shrinks_trans[OF s1 re(1)]]) simp
    then show ?thesis
      by (rule good_removed[where js = "[TerminalJob t]" and te = True, OF _ _ inv l cap]) (simp_all add: re)
  qed
  show ?thesis unfolding emitRelayTerminalComplete_def Let_def using same g1 g2 by (auto split: option.split)
qed

lemma chunk_pushed:
  assumes ok: "flow_ok (flow s)" and inv: "sinv cap (entry_of (flow s) rid) (ctls s rid)" and l: "live (ctls s rid)"
    and nc: "\<not> completeReceived (ctls s rid)"
  shows "sinv cap (push_entry item (entry_of (flow s) rid)) ((ctls s rid)\<lparr>received := received (ctls s rid) @ [item]\<rparr>)"
proof -
  let ?e = "entry_of (flow s) rid" and ?c = "ctls s rid"
  have q: "queue_of (push_entry item ?e) = queue_of ?e @ [item]" using queue_push[OF flow_entry_ok[OF ok]] .
  have f: "fe_credits (push_entry item ?e) = fe_credits ?e" "pendingComplete (push_entry item ?e) = pendingComplete ?e"
    by (cases item; simp add: push_entry_def)+
  have "pc_head cap (queue_of ?e) False (running ?c) \<Longrightarrow> pc_head cap (queue_of ?e @ [item]) False (running ?c)"
    by (cases "(cap, queue_of ?e, False, running ?c)" rule: pc_head.cases) auto
  then show ?thesis using inv l nc by (auto simp: sinv_def jobs_inv_def flags_ok_def order_live_def q f)
qed

lemma complete_good:
  assumes ok: "flow_ok (flow s)" and cap: "0 \<le> cap" and inv: "sinv cap (entry_of (flow s) rid) (ctls s rid)" and l: "live (ctls s rid)"
  shows "good cap rid s (relay_onComplete env adm rid payload raw s)"
proof -
  let ?f = "\<lambda>e::flow_entry. e\<lparr>pendingComplete := Some payload, pendingCompleteRawForward := raw\<rparr>"
  let ?s1 = "upd_ctl rid (\<lambda>c. c\<lparr>completeReceived := True\<rparr>) s"
  let ?s2 = "upd_flow (update_entry rid ?f) ?s1"
  have s1: "shrinks rid s ?s1" by (rule shrinks_upd[OF shrinks_refl[OF ok]]) simp
  have "keeps_queue ?f" by (rule keeps_queueI) simp_all
  then have s2: "shrinks rid s ?s2" using shrinks_trans[OF s1 shrinks_update[OF shrinks_ok[OF s1]]] by blast
  have "pc_head cap q b r \<Longrightarrow> pc_head cap q True r" for q b r by (cases "(cap, q, b, r)" rule: pc_head.cases) auto
  then have inv2: "sinv cap (entry_of (flow ?s2) rid) (ctls ?s2 rid)"
    using inv l by (auto simp: sinv_def jobs_inv_def flags_ok_def order_live_def queue_same)
  have "0 < length (drainScheduled (ctls ?s2 rid))" using inv l by (simp add: sinv_def jobs_inv_def flags_ok_def order_live_def)
  then show ?thesis using good_trans[OF s2 schedule_good[OF shrinks_ok[OF s2] inv2 _ cap]]
    by (simp add: relay_onComplete_def setRelayStreamPendingComplete_def[abs_def])
qed

lemma flags_pull: "flags_ok c \<Longrightarrow> flags_ok (c\<lparr>drainScheduled := drainScheduled c @ [False], granted := g\<rparr>)"
proof -
  have "{k. k < Suc (length fs) \<and> (fs @ [False]) ! k} = {k. k < length fs \<and> fs ! k}" for fs by (auto simp: nth_append less_Suc_eq)
  then show "flags_ok c \<Longrightarrow> ?thesis" by (simp add: flags_ok_def)
qed

lemma pull_good:
  assumes ok: "flow_ok (flow s)" and cap: "cap = maxFlowCreditsPerRequest (socketRestStreamPullMaxWindowSize env)"
    and inv: "sinv cap (entry_of (flow s) rid) (ctls s rid)" and op: "wasOpened (ctls s rid)"
  shows "good cap rid s (pull_execute env adm rid w s)"
proof -
  let ?f = "\<lambda>e::flow_entry. e\<lparr>fe_credits := min cap (max 0 (fe_credits e + max 0 w))\<rparr>"
  let ?s1 = "upd_flow (update_entry rid ?f) s"
  let ?g = "\<lambda>c. c\<lparr>drainScheduled := drainScheduled c @ [False], granted := granted c + max 0 w\<rparr>"
  let ?s2 = "upd_ctl rid ?g ?s1"
  have c0: "0 \<le> cap" by (simp add: cap maxFlowCreditsPerRequest_def)
  then have "keeps_queue ?f" by (intro keeps_queueI) simp_all
  then have s1: "shrinks rid s ?s1" using shrinks_update[OF ok] by blast
  then have s2: "shrinks rid s ?s2" by (rule shrinks_upd) simp
  have "flags_ok (?g (ctls s rid))" using inv by (intro flags_pull) (simp add: sinv_def jobs_inv_def)
  then have "sinv cap (entry_of (flow s) rid) (?g (ctls s rid))"
    using inv op by (simp add: sinv_def jobs_inv_def order_live_def order_dead_def split: if_splits)
  then have "sinv cap (?f (entry_of (flow s) rid)) (?g (ctls s rid))"
    by (rule sinv_cong) (simp_all add: queue_same)
  then have inv2: "sinv cap (entry_of (flow ?s2) rid) (ctls ?s2 rid)" by simp
  have "length (drainScheduled (ctls s rid)) < length (drainScheduled (ctls ?s2 rid))" by simp
  then show ?thesis using good_trans[OF s2 schedule_good[OF shrinks_ok[OF s2] inv2 _ c0]]
    by (simp add: pull_execute_def addRelayStreamFlowCredits_def[abs_def] cap Let_def)
qed

lemma retry_good:
  assumes ok: "flow_ok (flow s)" and cap: "0 \<le> cap" and inv: "sinv cap (entry_of (flow s) rid) (ctls s rid)"
    and k: "k < length (drainScheduled (ctls s rid))"
  shows "good cap rid s (retry_fires env adm rid k s)"
proof -
  let ?s1 = "upd_flow (clearRelayStreamBackpressureRetryTimer rid) s"
  have s1: "shrinks rid s ?s1" using ok by (rule shrinks_timer)
  have "good cap rid ?s1 (scheduleRelayStreamDrain env adm rid k ?s1)" by (rule schedule_good) (use ok inv k cap in simp_all)
  then show ?thesis using good_trans[OF s1] s1 inv by (simp add: retry_fires_def Let_def good_def[of _ _ _ ?s1] attended_def)
qed

section \<open>Every reachable state\<close>

definition flow_cap :: "relay_flow_env \<Rightarrow> int" where
  "flow_cap env = maxFlowCreditsPerRequest (socketRestStreamPullMaxWindowSize env)"

definition caps_hold :: "relay_flow_env \<Rightarrow> flow_state \<Rightarrow> bool" where
  "caps_hold env st \<longleftrightarrow> globalTotalBufferedChunks st \<le> relayMaxTotalBufferedChunks env \<and> globalTotalBufferedBytes st \<le> relayMaxTotalBufferedBytes env \<and>
     (\<forall>rid. buffered_count (entry_of st rid) \<le> relayMaxBufferedChunksPerRequest env \<and>
            fe_bufferedBytes (entry_of st rid) \<le> relayMaxBufferedBytesPerRequest env)"

definition stream_ok :: "relay_flow_env \<Rightarrow> relay_sys \<Rightarrow> string \<Rightarrow> bool" where
  "stream_ok env s rid \<longleftrightarrow> sinv (flow_cap env) (entry_of (flow s) rid) (ctls s rid) \<and>
     attended (entry_of (flow s) rid) (timer_of (flow s) rid) (ctls s rid) \<and> timer_ok (timer_of (flow s) rid) (ctls s rid)"

definition sys_inv :: "relay_flow_env \<Rightarrow> relay_sys \<Rightarrow> bool" where
  "sys_inv env s \<longleftrightarrow> flow_ok (flow s) \<and> caps_hold env (flow s) \<and> (\<forall>rid. stream_ok env s rid)"

definition env_ok :: "relay_flow_env \<Rightarrow> bool" where
  "env_ok env \<longleftrightarrow> 0 \<le> relayMaxBufferedChunksPerRequest env \<and> 0 \<le> relayMaxTotalBufferedChunks env \<and>
     0 \<le> relayMaxBufferedBytesPerRequest env \<and> 0 \<le> relayMaxTotalBufferedBytes env"

lemma flow_cap_pos: "0 \<le> flow_cap env"
  by (simp add: flow_cap_def maxFlowCreditsPerRequest_def)

definition others_ok :: "relay_flow_env \<Rightarrow> string \<Rightarrow> relay_sys \<Rightarrow> bool" where
  "others_ok env rid s \<longleftrightarrow> flow_ok (flow s) \<and> caps_hold env (flow s) \<and> (\<forall>r. r \<noteq> rid \<longrightarrow> stream_ok env s r) \<and> timer_ok (timer_of (flow s) rid) (ctls s rid)"

lemma good_others:
  assumes s: "others_ok env rid s" and g: "good (flow_cap env) rid s s'"
  shows "sys_inv env s'"
proof -
  have sh: "shrinks rid s s'" using g by (simp add: good_def)
  have "stream_ok env s' r" for r
    using s g by (cases "r = rid") (auto simp: others_ok_def stream_ok_def good_def shrinks_def)
  moreover have "buffered_count (entry_of (flow s') r) \<le> buffered_count (entry_of (flow s) r)"
    "fe_bufferedBytes (entry_of (flow s') r) \<le> fe_bufferedBytes (entry_of (flow s) r)" for r
    using sh by (cases "r = rid"; simp add: shrinks_def)+
  then have "caps_hold env (flow s')" using s sh order_trans unfolding caps_hold_def others_ok_def shrinks_def by meson
  ultimately show ?thesis using shrinks_ok[OF sh] by (simp add: sys_inv_def)
qed

lemma good_sys: "sys_inv env s \<Longrightarrow> good (flow_cap env) rid s s' \<Longrightarrow> sys_inv env s'"
  by (rule good_others[of env rid s]) (auto simp: sys_inv_def others_ok_def stream_ok_def)

lemma timer_ok_received [simp]: "timer_ok t (c\<lparr>received := xs\<rparr>) = timer_ok t c"
  by (simp add: timer_ok_def split: option.split)

lemma chunk_sys:
  assumes s: "sys_inv env s" and l: "live (ctls s rid)"
  shows "sys_inv env (relay_onChunk num env adm rid payload metadata raw s)"
proof -
  let ?e = "entry_of (flow s) rid" and ?c = "ctls s rid"
  let ?b = "resolveStreamChunkOriginalSizeBytes num payload metadata"
  have ok: "flow_ok (flow s)" and inv: "sinv (flow_cap env) ?e ?c" and att: "attended ?e (timer_of (flow s) rid) ?c"
    using s by (simp_all add: sys_inv_def stream_ok_def)
  have trm: "sys_inv env (emitRelayTerminalComplete num rid Aborted reason p code s)" for reason p code
    by (rule good_sys[OF s terminal_good[OF ok flow_cap_pos inv l att]])
  let ?s1 = "s\<lparr>flow := snd (addRelayStreamBufferedChunk num rid payload ?b raw (flow s))\<rparr>"
  have none: "sys_inv env ?s1" if n: "countSqlChunkRows num payload = None"
  proof -
    have eq: "flow ?s1 = snd (ensureRelayStreamFlowEntry rid (flow s))" by (simp add: addRelayStreamBufferedChunk_def n)
    have "globalTotalBufferedChunks (flow ?s1) = globalTotalBufferedChunks (flow s)" "globalTotalBufferedBytes (flow ?s1) = globalTotalBufferedBytes (flow s)"
      unfolding eq by (simp_all add: ensureRelayStreamFlowEntry_def split: option.split)
    then show ?thesis using s flow_ok_ensure[OF ok, of rid] eq by (simp add: sys_inv_def stream_ok_def caps_hold_def)
  qed
  have some: "sys_inv env (scheduleRelayStreamDrain env adm rid 0 (upd_ctl rid (\<lambda>c. c\<lparr>received := received c @ [buffered_item payload ?b raw rows]\<rparr>) ?s1))"
    if n: "countSqlChunkRows num payload = Some rows" and nc: "\<not> completeReceived ?c"
      and cap: "buffered_count ?e < relayMaxBufferedChunksPerRequest env" "globalTotalBufferedChunks (flow s) < relayMaxTotalBufferedChunks env"
      "fe_bufferedBytes ?e + ?b \<le> relayMaxBufferedBytesPerRequest env" "globalTotalBufferedBytes (flow s) + ?b \<le> relayMaxTotalBufferedBytes env"
    for rows
  proof -
    let ?item = "buffered_item payload ?b raw rows"
    let ?s2 = "upd_ctl rid (\<lambda>c. c\<lparr>received := received c @ [?item]\<rparr>) ?s1"
    note a = add_chunk_effect[OF ok n, where byteLength = ?b and raw = raw and rid = rid]
    have e2: "entry_of (flow ?s2) rid = push_entry ?item ?e" using a(2)[of rid] by simp
    have inv2: "sinv (flow_cap env) (entry_of (flow ?s2) rid) (ctls ?s2 rid)" unfolding e2 using chunk_pushed[OF ok inv l nc] by simp
    have b: "normalizeBufferedByteLength ?b = ?b" using resolve_nonneg[of num payload metadata] by (simp add: normalizeBufferedByteLength_def)
    have eok: "buffer_ok ?e" "buffer_ok (push_entry ?item ?e)" using flow_entry_ok[OF ok] flow_entry_ok[OF a(1), of rid] e2 by simp_all
    have cnt: "buffered_count (push_entry ?item ?e) = buffered_count ?e + 1"
      by (simp add: buffered_count_queue[OF eok(1)] buffered_count_queue[OF eok(2)] queue_push[OF eok(1)])
    have byt: "fe_bufferedBytes (push_entry ?item ?e) = fe_bufferedBytes ?e + ?b" by (simp add: push_entry_def buffered_item_def b)
    have "caps_hold env (flow ?s2)" using s cap cnt byt a(2,4,5) b by (simp add: sys_inv_def caps_hold_def)
    then have oth: "others_ok env rid ?s2" using s a(1,2,3) by (simp add: sys_inv_def others_ok_def stream_ok_def)
    have "0 < length (drainScheduled (ctls ?s2 rid))" using inv l by (simp add: sinv_def jobs_inv_def flags_ok_def order_live_def)
    then show ?thesis using good_others[OF oth schedule_good[OF _ inv2 _ flow_cap_pos]] a(1) by simp
  qed
  show ?thesis using s trm none some
    by (auto simp: relay_onChunk_def Let_def getters_entry split: option.split)
qed

lemma step_sys:
  assumes s: "sys_inv env s" and st: "flow_step num env failures s s'"
  shows "sys_inv env s'"
proof -
  have ok: "flow_ok (flow s)" and inv: "sinv (flow_cap env) (entry_of (flow s) rid) (ctls s rid)"
    and att: "attended (entry_of (flow s) rid) (timer_of (flow s) rid) (ctls s rid)"
    and tim: "timer_ok (timer_of (flow s) rid) (ctls s rid)" for rid using s by (simp_all add: sys_inv_def stream_ok_def)
  note c = flow_cap_pos[of env]
  from st show ?thesis
  proof cases
    case (step_open rid sid)
    then show ?thesis using good_sys[OF s open_good[OF ok c inv]] by simp
  next
    case (step_chunk rid adm payload metadata raw)
    then show ?thesis using chunk_sys[OF s] by simp
  next
    case (step_complete rid adm payload raw)
    then show ?thesis using good_sys[OF s complete_good[OF ok c inv]] by simp
  next
    case (step_timeout rid idle)
    then show ?thesis using good_sys[OF s terminal_good[OF ok c inv _ att]] by (simp add: stream_timeout_def)
  next
    case (step_remove rid)
    have "good (flow_cap env) rid s (remove_routes rid s)"
      by (rule good_removed[where js = "[]" and te = "terminalEmitted (ctls s rid)", OF remove_effect(1,2)[OF ok] inv step_remove(2) c])
        (simp_all add: remove_effect(4)[OF ok])
    then show ?thesis using good_sys[OF s] step_remove(1) by simp
  next
    case (step_pull rid adm w)
    then show ?thesis using good_sys[OF s pull_good[OF ok flow_cap_def inv]] by simp
  next
    case (step_retry rid k adm)
    then have "k < length (drainScheduled (ctls s rid))" using tim[of rid] by (simp add: timer_ok_def)
    then show ?thesis using good_sys[OF s retry_good[OF ok c inv]] step_retry(1) by simp
  next
    case (step_begin rid adm canEmit)
    then show ?thesis using good_sys[OF s job_begin_good[OF ok c inv]] by simp
  next
    case (step_resume rid adm emitOk canEmit)
    then show ?thesis using good_sys[OF s job_resume_good[OF ok c inv]] by auto
  next
    case (step_fail rid adm)
    then show ?thesis using good_sys[OF s job_fails_good[OF ok c inv]] by simp
  qed
qed

lemma init_sys: "env_ok env \<Longrightarrow> sys_inv env new_relay_sys"
  using end_ok_cut[of 0 "[]" "[]"] flow_cap_pos[of env]
  by (simp add: sys_inv_def stream_ok_def new_relay_sys_def flow_ok_def caps_hold_def new_flow_state_def entry_of_def timer_of_def timer_ok_def
      new_entry_ok env_ok_def sinv_def jobs_inv_def flags_ok_def order_dead_def attended_def new_ctl_def)

text \<open>The invariant holds under every configuration whose limits are not negative.\<close>

interpretation relay_flow: invariant_system new_relay_sys "flow_step num env failures" "\<lambda>s. env_ok env \<longrightarrow> sys_inv env s" for num env failures
  by unfold_locales (auto simp: init_sys intro: step_sys)

lemma reachable_sys: "env_ok env \<Longrightarrow> reachable new_relay_sys (flow_step num env failures) s \<Longrightarrow> sys_inv env s"
  using relay_flow.inv_reachable by blast

section \<open>Credits\<close>

text \<open>While a chunk is being encoded the drain counts with its own copy of the credits; the consumer has got no more than it paid for, including
  what it may still get.\<close>

fun chunks_out :: "consumer_event list \<Rightarrow> int" where
  "chunks_out [] = 0"
| "chunks_out (ChunkOut _ _ # es) = 1 + chunks_out es"
| "chunks_out (_ # es) = chunks_out es"

lemma chunks_out_append [simp]: "chunks_out (xs @ ys) = chunks_out xs + chunks_out ys"
  by (induction xs rule: chunks_out.induct) simp_all

fun claim_of :: "int \<Rightarrow> drain_pc option \<Rightarrow> int" where
  "claim_of stored (Some (AwaitChunk credits _ _ _)) = credits"
| "claim_of stored _ = stored"

definition paid :: "relay_sys \<Rightarrow> string \<Rightarrow> drain_pc option \<Rightarrow> bool" where
  "paid s rid pc \<longleftrightarrow> chunks_out (emitted (ctls s rid)) \<le> granted (ctls s rid) \<and>
     (live (ctls s rid) \<longrightarrow> chunks_out (emitted (ctls s rid)) + claim_of (fe_credits (entry_of (flow s) rid)) pc \<le> granted (ctls s rid))"

text \<open>A change that neither emits nor grants, and leaves credits and the running job of a stream alone unless it removes it.\<close>

definition calm :: "string \<Rightarrow> relay_sys \<Rightarrow> relay_sys \<Rightarrow> bool" where
  "calm rid s s' \<longleftrightarrow> emitted (ctls s' rid) = emitted (ctls s rid) \<and> granted (ctls s' rid) = granted (ctls s rid) \<and>
     (live (ctls s' rid) \<longrightarrow> live (ctls s rid) \<and> running (ctls s' rid) = running (ctls s rid) \<and>
        fe_credits (entry_of (flow s') rid) = fe_credits (entry_of (flow s) rid))"

lemma calm_refl: "calm rid s s"
  by (simp add: calm_def)

lemma calm_trans: "calm rid s t \<Longrightarrow> calm rid t u \<Longrightarrow> calm rid s u"
  by (auto simp: calm_def)

lemma calm_paid: "calm rid s s' \<Longrightarrow> paid s rid pc \<Longrightarrow> paid s' rid pc"
  by (auto simp: calm_def paid_def)

lemma calm_paid_running: "calm rid s s' \<Longrightarrow> paid s rid (running (ctls s rid)) \<Longrightarrow> paid s' rid (running (ctls s' rid))"
  by (auto simp: calm_def paid_def)

lemma calm_clear_timer: "calm rid s (upd_flow (clearRelayStreamBackpressureRetryTimer rid) s)"
  by (simp add: calm_def)

lemma calm_abort: "flow_ok (flow s) \<Longrightarrow> calm rid s (abortForHardByteLimit env rid s)"
  using abort_effect(4)[of s env rid] by (auto simp: calm_def)

lemma calm_schedule:
  assumes "flow_ok (flow s)"
  shows "calm rid s (scheduleRelayStreamDrain env adm rid k s)"
proof -
  let ?s' = "upd_ctl rid (set_flag k False) (upd_ctl rid (set_flag k True) s)"
  have "calm rid s ?s'" by (simp add: calm_def set_flag_def)
  moreover have "calm rid ?s' (abortForHardByteLimit env rid ?s')" by (rule calm_abort) (use assms in simp)
  ultimately have "calm rid s (abortForHardByteLimit env rid ?s')" by (rule calm_trans)
  then show ?thesis using calm_refl[of rid s] by (simp add: scheduleRelayStreamDrain_def Let_def) (simp add: calm_def set_flag_def)
qed

lemma calm_after:
  assumes ok: "flow_ok (flow s)"
  shows "calm rid s (afterDrainMaybeReschedule env adm rid k paused s)"
proof -
  let ?s1 = "upd_flow (clearRelayStreamBackpressureRetryTimer rid) s"
  have "calm rid s (scheduleRelayStreamDrain env adm rid k ?s1)" by (rule calm_trans[OF calm_clear_timer calm_schedule]) (use ok in simp)
  moreover have "calm rid s (scheduleBackpressureRetry rid k s)" by (simp add: scheduleBackpressureRetry_def calm_def)
  ultimately show ?thesis using calm_clear_timer[of rid s] calm_refl[of rid s] by (simp add: afterDrainMaybeReschedule_def Let_def)
qed

lemma paid_job_end:
  assumes ok: "flow_ok (flow s)" and p: "paid s rid (fst res)"
  shows "paid (job_end env adm rid res s) rid (running (ctls (job_end env adm rid res s) rid))"
proof (cases "fst res")
  case (Some pc)
  then show ?thesis using p by (cases res) (simp add: job_end_def paid_def)
next
  case None
  let ?fin = "\<lambda>c. c\<lparr>running := None, outbound := tl (outbound c)\<rparr>"
  obtain s1 where s1: "job_end env adm rid res s = upd_ctl rid ?fin s1" and c: "calm rid s s1"
  proof (cases "outbound (ctls s rid)" rule: drain_ks.cases)
    case (2 k js)
    let ?s0 = "upd_ctl rid (set_flag k False) s"
    have "calm rid s ?s0" by (simp add: calm_def set_flag_def)
    then have "calm rid s (afterDrainMaybeReschedule env adm rid k (snd res) ?s0)" by (rule calm_trans[OF _ calm_after]) (use ok in simp)
    then show ?thesis using that None 2 by (cases res) (simp add: job_end_def)
  qed (use that[OF _ calm_refl] None in \<open>cases res; simp add: job_end_def\<close>)+
  have "paid s1 rid None" using calm_paid[OF c] p None by simp
  then show ?thesis unfolding s1 by (simp add: paid_def)
qed

text \<open>The drain spends its copy and writes it back.\<close>

lemma paid_tail: "paid s rid None \<Longrightarrow> paid s rid (fst (drain_tail rid (flow s)))"
  by (auto simp: drain_tail_def paid_def split: option.split)

lemma paid_exit:
  assumes "0 \<le> credits" "live (ctls s rid)" "chunks_out (emitted (ctls s rid)) + credits \<le> granted (ctls s rid)"
  shows "paid (s\<lparr>flow := snd (drain_exit rid credits paused (flow s))\<rparr>) rid (fst (fst (drain_exit rid credits paused (flow s))))"
proof -
  let ?s = "s\<lparr>flow := setRelayStreamFlowCredits rid (max 0 credits) (flow s)\<rparr>"
  have "paid ?s rid None" using assms by (simp add: paid_def setRelayStreamFlowCredits_def)
  then show ?thesis using paid_tail[of ?s rid] by (cases paused) (simp_all add: drain_exit_def Let_def)
qed

lemma paid_loop:
  assumes "0 \<le> credits" "live (ctls s rid)" "chunks_out (emitted (ctls s rid)) + credits \<le> granted (ctls s rid)"
  shows "paid (s\<lparr>flow := snd (drain_loop rid True canEmit credits (flow s))\<rparr>) rid (fst (fst (drain_loop rid True canEmit credits (flow s))))"
proof -
  note ex = paid_exit[OF assms]
  have "paid s rid (Some (AwaitChunk credits chunk raw meta))" for chunk raw meta using assms by (simp add: paid_def)
  then show ?thesis using ex[of True] ex[of False] by (auto simp: drain_loop_def split: option.split)
qed

lemma paid_begin:
  fixes canEmit :: bool
  assumes ok: "flow_ok (flow s)" and p: "paid s rid None"
  defines "res \<equiv> drain_begin rid (live (ctls s rid)) canEmit (flow s)"
  shows "paid (s\<lparr>flow := snd res\<rparr>) rid (fst (fst res))"
proof (cases "live (ctls s rid)")
  case True
  have "0 \<le> fe_credits (entry_of (flow s) rid)" using flow_entry_ok[OF ok, of rid] by (simp add: buffer_ok_def)
  then show ?thesis using paid_loop[OF _ True, of "fe_credits (entry_of (flow s) rid)" canEmit] paid_tail[OF p] p True
    by (auto simp: res_def drain_begin_def Let_def getters_entry paid_def)
next
  case False
  then show ?thesis using p by (simp add: res_def drain_begin_def)
qed

lemma paid_resume:
  fixes emitOk canEmit :: bool
  assumes ok: "flow_ok (flow s)" and inv: "sinv cap (entry_of (flow s) rid) (ctls s rid)" and r: "running (ctls s rid) = Some pc"
    and p: "paid s rid (Some pc)"
  defines "res \<equiv> drain_resume rid emitOk canEmit pc s"
  shows "paid (snd res) rid (fst (fst res))"
proof (cases pc)
  case (AwaitChunk credits chunk raw meta)
  show ?thesis
  proof (cases "live (ctls s rid)")
    case l: True
    note cr = pop_sinv(3)[OF flow_entry_ok[OF ok] l inv r[unfolded AwaitChunk]]
    have b: "chunks_out (emitted (ctls s rid)) + credits \<le> granted (ctls s rid)" using p l AwaitChunk by (simp add: paid_def)
    show ?thesis
    proof (cases emitOk)
      case True
      let ?s1 = "emit_out rid (ChunkOut chunk raw) (s\<lparr>flow := addRelayStreamForwardedRows rid (cm_rowCount meta) (snd (popRelayStreamBufferedChunk rid (flow s)))\<rparr>)"
      have s1: "live (ctls ?s1 rid)" "chunks_out (emitted (ctls ?s1 rid)) + (credits - 1) \<le> granted (ctls ?s1 rid)" "0 \<le> credits - 1"
        using l b cr by (simp_all add: emit_out_def)
      have "res = (fst (drain_loop rid True canEmit (credits - 1) (flow ?s1)), ?s1\<lparr>flow := snd (drain_loop rid True canEmit (credits - 1) (flow ?s1))\<rparr>)"
        using True l AwaitChunk s1(1) by (simp add: res_def drain_resume_def Let_def case_prod_beta) (simp add: emit_out_def)
      then show ?thesis using paid_loop[OF s1(3,1,2)] by simp
    next
      case False
      then show ?thesis using paid_exit[of credits s rid True] l b cr AwaitChunk by (simp add: res_def drain_resume_def case_prod_beta)
    qed
  qed (use p AwaitChunk in \<open>simp add: res_def drain_resume_def paid_def\<close>)
next
  case (AwaitComplete completion)
  have "emitted (ctls (remove_routes rid (upd_flow g (emit_out rid (CompleteOut completion) s))) rid) = emitted (ctls s rid) @ [CompleteOut completion]"
    "granted (ctls (remove_routes rid (upd_flow g (emit_out rid (CompleteOut completion) s))) rid) = granted (ctls s rid)"
    "\<not> live (ctls (remove_routes rid (upd_flow g (emit_out rid (CompleteOut completion) s))) rid)" for g
    by (simp_all add: remove_routes_def emit_out_def)
  then show ?thesis using p AwaitComplete finalize_effect(4)[OF ok, of rid] by (simp add: res_def drain_resume_def paid_def)
qed (use p in \<open>simp add: res_def drain_resume_def paid_def emit_out_def\<close>)

definition all_paid :: "relay_sys \<Rightarrow> bool" where
  "all_paid s \<longleftrightarrow> (\<forall>rid. paid s rid (running (ctls s rid)))"

definition frame :: "string \<Rightarrow> relay_sys \<Rightarrow> relay_sys \<Rightarrow> bool" where
  "frame rid s s' \<longleftrightarrow> (\<forall>r. r \<noteq> rid \<longrightarrow> entry_of (flow s') r = entry_of (flow s) r \<and> ctls s' r = ctls s r \<and>
     jm_get (entriesByRequestId (flow s')) r = jm_get (entriesByRequestId (flow s)) r)"

lemma shrinks_frame: "shrinks rid s s' \<Longrightarrow> frame rid s s'"
  by (simp add: shrinks_def frame_def)

lemma good_frame: "good cap rid s s' \<Longrightarrow> frame rid s s'"
  by (simp add: good_def shrinks_frame)

lemma all_paid_one:
  assumes "all_paid s" "frame rid s s'" "paid s' rid (running (ctls s' rid))"
  shows "all_paid s'"
  unfolding all_paid_def
proof
  fix r
  show "paid s' r (running (ctls s' r))"
    using assms by (cases "r = rid") (auto simp: all_paid_def frame_def paid_def)
qed

lemma all_paid_calm: "all_paid s \<Longrightarrow> frame rid s s' \<Longrightarrow> calm rid s s' \<Longrightarrow> all_paid s'"
  by (rule all_paid_one) (auto simp: all_paid_def intro: calm_paid_running)

lemma calm_remove: "calm rid s (remove_routes rid s)"
  by (simp add: calm_def remove_routes_def)

lemma calm_terminal: "calm rid s (emitRelayTerminalComplete num rid status reason payload errorCode s)"
proof -
  let ?s1 = "upd_ctl rid (\<lambda>c. c\<lparr>terminalEmitted := True\<rparr>) s"
  have c1: "calm rid s ?s1" by (simp add: calm_def)
  have "calm rid ?s1 (upd_ctl rid (\<lambda>c. c\<lparr>outbound := outbound c @ js\<rparr>) (remove_routes rid ?s1))" for js by (simp add: calm_def remove_routes_def)
  then show ?thesis unfolding emitRelayTerminalComplete_def Let_def using calm_trans[OF c1] c1 calm_refl[of rid s] by (auto split: option.split)
qed

lemma calm_complete:
  assumes "flow_ok (flow s)"
  shows "calm rid s (relay_onComplete env adm rid payload raw s)"
proof -
  let ?f = "\<lambda>e::flow_entry. e\<lparr>pendingComplete := Some payload, pendingCompleteRawForward := raw\<rparr>"
  let ?s1 = "upd_ctl rid (\<lambda>c. c\<lparr>completeReceived := True\<rparr>) s"
  let ?s2 = "upd_flow (update_entry rid ?f) ?s1"
  have "keeps_queue ?f" by (rule keeps_queueI) simp_all
  then have "shrinks rid ?s1 ?s2" by (rule shrinks_update[rotated]) (use assms in simp)
  then have "calm rid ?s2 (scheduleRelayStreamDrain env adm rid 0 ?s2)" by (intro calm_schedule) (rule shrinks_ok)
  moreover have "calm rid s ?s2" by (simp add: calm_def)
  ultimately show ?thesis unfolding relay_onComplete_def setRelayStreamPendingComplete_def[abs_def] by (rule calm_trans[rotated])
qed

lemma push_credits: "fe_credits (push_entry x e) = fe_credits e"
  by (cases x) (simp add: push_entry_def)

lemma chunk_calm:
  assumes s: "sys_inv env s" and l: "live (ctls s rid)" and s': "s' = relay_onChunk num env adm rid payload metadata raw s"
  shows "calm rid s s' \<and> frame rid s s'"
proof -
  let ?e = "entry_of (flow s) rid" and ?c = "ctls s rid"
  let ?b = "resolveStreamChunkOriginalSizeBytes num payload metadata"
  let ?s1 = "s\<lparr>flow := snd (addRelayStreamBufferedChunk num rid payload ?b raw (flow s))\<rparr>"
  have ok: "flow_ok (flow s)" and inv: "sinv (flow_cap env) ?e ?c" and att: "attended ?e (timer_of (flow s) rid) ?c"
    using s by (simp_all add: sys_inv_def stream_ok_def)
  have trm: "calm rid s (emitRelayTerminalComplete num rid Aborted reason p code s) \<and> frame rid s (emitRelayTerminalComplete num rid Aborted reason p code s)"
    for reason p code using calm_terminal good_frame[OF terminal_good[OF ok flow_cap_pos inv l att]] by blast
  have none: "calm rid s ?s1 \<and> frame rid s ?s1" if n: "countSqlChunkRows num payload = None"
    by (simp add: addRelayStreamBufferedChunk_def n calm_def frame_def) (simp add: ensureRelayStreamFlowEntry_def split: option.split)
  have some: "calm rid s (scheduleRelayStreamDrain env adm rid 0 t) \<and> frame rid s (scheduleRelayStreamDrain env adm rid 0 t)"
    if n: "countSqlChunkRows num payload = Some rows" and nc: "\<not> completeReceived ?c"
      and s2: "t = upd_ctl rid (\<lambda>c. c\<lparr>received := received c @ [buffered_item payload ?b raw rows]\<rparr>) ?s1" for rows t
  proof -
    note a = add_chunk_effect[OF ok n, where byteLength = ?b and raw = raw and rid = rid]
    have ok2: "flow_ok (flow t)" using a(1) s2 by simp
    have inv2: "sinv (flow_cap env) (entry_of (flow t) rid) (ctls t rid)" using chunk_pushed[OF ok inv l nc] a(2)[of rid] s2 by simp
    have "0 < length (drainScheduled (ctls t rid))" using inv l s2 by (simp add: sinv_def jobs_inv_def flags_ok_def order_live_def)
    from good_frame[OF schedule_good[OF ok2 inv2 this flow_cap_pos]] calm_schedule[OF ok2]
    have "frame rid t (scheduleRelayStreamDrain env adm rid 0 t)" "calm rid t (scheduleRelayStreamDrain env adm rid 0 t)" by blast+
    moreover have "frame rid s t" "calm rid s t" using a(2,6) s2 by (simp_all add: frame_def calm_def push_credits)
    ultimately show ?thesis using calm_trans by (auto simp: frame_def)
  qed
  show ?thesis using trm none some[OF _ _ refl] by (auto simp: s' relay_onChunk_def Let_def calm_refl frame_def[of rid s s] split: option.split)
qed

lemma pull_paid:
  assumes ok: "flow_ok (flow s)" and g: "good cap rid s (pull_execute env adm rid w s)" and p: "paid s rid (running (ctls s rid))"
  shows "paid (pull_execute env adm rid w s) rid (running (ctls (pull_execute env adm rid w s) rid))"
proof -
  let ?cap = "maxFlowCreditsPerRequest (socketRestStreamPullMaxWindowSize env)"
  let ?f = "\<lambda>e::flow_entry. e\<lparr>fe_credits := min ?cap (max 0 (fe_credits e + max 0 w))\<rparr>"
  let ?s2 = "upd_ctl rid (\<lambda>c. c\<lparr>drainScheduled := drainScheduled c @ [False], granted := granted c + max 0 w\<rparr>) (upd_flow (update_entry rid ?f) s)"
  have cap: "0 \<le> ?cap" by (simp add: maxFlowCreditsPerRequest_def)
  have "keeps_queue ?f" by (rule keeps_queueI) (use cap in simp_all)
  then have "shrinks rid s ?s2" by (intro shrinks_upd shrinks_update ok) simp_all
  then have calm: "calm rid ?s2 (pull_execute env adm rid w s)"
    using calm_schedule[OF shrinks_ok] by (simp add: pull_execute_def addRelayStreamFlowCredits_def[abs_def] Let_def)
  have "0 \<le> fe_credits (entry_of (flow s) rid)" using flow_entry_ok[OF ok, of rid] by (simp add: buffer_ok_def)
  then have "min ?cap (max 0 (fe_credits (entry_of (flow s) rid) + max 0 w)) \<le> fe_credits (entry_of (flow s) rid) + max 0 w" by simp
  then have "claim_of (min ?cap (max 0 (fe_credits (entry_of (flow s) rid) + max 0 w))) r \<le> claim_of (fe_credits (entry_of (flow s) rid)) r + max 0 w" for r
    by (cases "(fe_credits (entry_of (flow s) rid), r)" rule: claim_of.cases) simp_all
  from this[of "running (ctls s rid)"] have "paid ?s2 rid (running (ctls ?s2 rid))" using p by (auto simp: paid_def)
  then show ?thesis using calm_paid_running[OF calm] by blast
qed

lemma calm_retry:
  assumes "flow_ok (flow s)"
  shows "calm rid s (retry_fires env adm rid k s)"
proof -
  let ?s1 = "upd_flow (clearRelayStreamBackpressureRetryTimer rid) s"
  have "calm rid s (scheduleRelayStreamDrain env adm rid k ?s1)" by (rule calm_trans[OF calm_clear_timer calm_schedule]) (use assms in simp)
  then show ?thesis using calm_clear_timer[of rid s] by (simp add: retry_fires_def Let_def)
qed

lemma paid_job_begin:
  assumes ok: "flow_ok (flow s)" and cap: "0 \<le> cap" and inv: "sinv cap (entry_of (flow s) rid) (ctls s rid)"
    and r: "running (ctls s rid) = None" and ne: "outbound (ctls s rid) \<noteq> []" and p: "paid s rid None"
  shows "paid (job_begin env adm canEmit rid s) rid (running (ctls (job_begin env adm canEmit rid s) rid))"
  using inv ne
proof (cases rule: job_cases)
  case 1
  let ?res = "drain_begin rid (live (ctls s rid)) canEmit (flow s)"
  have "shrinks rid s (s\<lparr>flow := snd ?res\<rparr>)" using begin_good[OF ok 1 cap r inv] by (simp add: dgood_def)
  then show ?thesis using paid_job_end[OF shrinks_ok paid_begin[OF ok p]] 1 by (auto simp: job_begin_def draining_def case_prod_beta)
next
  case (2 t js)
  then show ?thesis using p by (simp add: job_begin_def job_end_def paid_def)
qed

lemma paid_job_resume:
  assumes ok: "flow_ok (flow s)" and cap: "0 \<le> cap" and inv: "sinv cap (entry_of (flow s) rid) (ctls s rid)"
    and r: "running (ctls s rid) = Some pc" and p: "paid s rid (Some pc)"
  shows "paid (job_resume env adm emitOk canEmit rid s) rid (running (ctls (job_resume env adm emitOk canEmit rid s) rid))"
proof -
  let ?res = "drain_resume rid emitOk canEmit pc s"
  have "flow_ok (flow (snd ?res))" using inv running_job[OF inv, unfolded r, OF option.discI[OF refl]]
  proof (cases rule: job_cases)
    case 1
    then show ?thesis using resume_good[OF ok cap inv 1 r, of emitOk canEmit] shrinks_ok by (auto simp: resumed_def)
  next
    case (2 t js)
    then show ?thesis using ok inv r by (simp add: sinv_def jobs_inv_def drain_resume_def emit_out_def)
  qed
  then show ?thesis using paid_job_end[OF _ paid_resume[OF ok inv r p]] r by (simp add: job_resume_def case_prod_beta)
qed

lemma step_paid:
  assumes s: "sys_inv env s" and p: "all_paid s" and st: "flow_step num env False s s'"
  shows "all_paid s'"
proof -
  have ok: "flow_ok (flow s)" and inv: "sinv (flow_cap env) (entry_of (flow s) rid) (ctls s rid)"
    and att: "attended (entry_of (flow s) rid) (timer_of (flow s) rid) (ctls s rid)"
    and tim: "timer_ok (timer_of (flow s) rid) (ctls s rid)" for rid using s by (simp_all add: sys_inv_def stream_ok_def)
  have pr: "paid s rid (running (ctls s rid))" for rid using p by (simp add: all_paid_def)
  note c = flow_cap_pos[of env]
  from st show ?thesis
  proof cases
    case (step_open rid sid)
    have "ctls s rid = new_ctl" using inv[of rid] step_open(2) by (auto simp: sinv_def order_live_def order_dead_def split: if_splits)
    then have "paid s' rid (running (ctls s' rid))"
      by (simp add: step_open(1) open_stream_def paid_def new_ctl_def setRelayStreamFlowCredits_def)
    then show ?thesis using all_paid_one[OF p good_frame[OF open_good[OF ok c inv]]] step_open by simp
  next
    case (step_chunk rid adm payload metadata raw)
    then show ?thesis using chunk_calm[OF s] all_paid_calm[OF p] by blast
  next
    case (step_complete rid adm payload raw)
    then show ?thesis using all_paid_calm[OF p good_frame[OF complete_good[OF ok c inv]] calm_complete[OF ok]] by simp
  next
    case (step_timeout rid idle)
    then show ?thesis using all_paid_calm[OF p good_frame[OF terminal_good[OF ok c inv _ att]] calm_terminal] by (simp add: stream_timeout_def)
  next
    case (step_remove rid)
    then show ?thesis using all_paid_calm[OF p shrinks_frame[OF remove_effect(1)[OF ok]] calm_remove] by simp
  next
    case (step_pull rid adm w)
    note g = pull_good[OF ok flow_cap_def inv step_pull(2), of adm w]
    show ?thesis unfolding step_pull(1) by (rule all_paid_one[OF p good_frame[OF g] pull_paid[OF ok g pr]])
  next
    case (step_retry rid k adm)
    then have "k < length (drainScheduled (ctls s rid))" using tim[of rid] by (simp add: timer_ok_def)
    then show ?thesis using all_paid_calm[OF p good_frame[OF retry_good[OF ok c inv]] calm_retry[OF ok]] step_retry(1) by simp
  next
    case (step_begin rid adm canEmit)
    then show ?thesis using all_paid_one[OF p good_frame[OF job_begin_good[OF ok c inv]] paid_job_begin[OF ok c inv]] pr[of rid] by simp
  next
    case (step_resume rid adm emitOk canEmit)
    then obtain pc where r: "running (ctls s rid) = Some pc" by blast
    show ?thesis unfolding step_resume(1)
      by (rule all_paid_one[OF p good_frame[OF job_resume_good[OF ok c inv r]] paid_job_resume[OF ok c inv r]]) (use pr[of rid] r in simp)
  qed simp
qed

section \<open>Progress of a drain\<close>

text \<open>The queued drain runs with a writable transport and every emit succeeding.\<close>

fun resume_all :: "relay_flow_env \<Rightarrow> string \<Rightarrow> nat \<Rightarrow> relay_sys \<Rightarrow> relay_sys" where
  "resume_all env rid 0 s = s"
| "resume_all env rid (Suc n) s = resume_all env rid n (job_resume env True True True rid s)"

lemma loop_suspends:
  assumes ok: "flow_ok st" and q: "queue_of (entry_of st rid) = (chunk, raw, b, meta) # rest" and cr: "0 < credits"
  shows "drain_loop rid True True credits st = ((Some (AwaitChunk credits chunk raw meta), False), st)"
proof -
  have eok: "buffer_ok (entry_of st rid)" using ok by (rule flow_entry_ok)
  then have "\<not> (raw = None \<and> chunk = None)" using q by (auto simp: buffer_ok_def item_ok_def)
  then show ?thesis using q cr by (auto simp: drain_loop_def getters_entry count_zero[OF eok] peek_front[OF eok])
qed

lemma job_end_emitted:
  assumes "flow_ok (flow s)"
  shows "emitted (ctls (job_end env adm rid res s) rid) = emitted (ctls s rid)"
proof (cases res)
  case (Pair pc paused)
  have "emitted (ctls (afterDrainMaybeReschedule env adm rid k paused (upd_ctl rid (set_flag k False) s)) rid) = emitted (ctls s rid)" for k
    using calm_after[of "upd_ctl rid (set_flag k False) s" rid env adm k paused] assms by (simp add: calm_def set_flag_def)
  then show ?thesis by (simp add: Pair job_end_def Let_def split: option.split list.split stream_job.split)
qed

lemma resume_delivers:
  fixes env :: relay_flow_env
  assumes ok: "flow_ok (flow s)" and cap: "0 \<le> cap" and inv: "sinv cap (entry_of (flow s) rid) (ctls s rid)" and l: "live (ctls s rid)"
    and d: "draining (ctls s rid)" and q: "queue_of (entry_of (flow s) rid) = (chunk, raw, b, meta) # rest"
    and r: "running (ctls s rid) = Some (AwaitChunk credits chunk raw meta)"
  defines "s' \<equiv> job_resume env True True True rid s"
  shows "emitted (ctls s' rid) = emitted (ctls s rid) @ [ChunkOut chunk raw]"
    "1 < credits \<Longrightarrow> rest = (chunk', raw', b', meta') # rest' \<Longrightarrow> live (ctls s' rid) \<and> draining (ctls s' rid) \<and>
       queue_of (entry_of (flow s') rid) = rest \<and> running (ctls s' rid) = Some (AwaitChunk (credits - 1) chunk' raw' meta')"
proof -
  let ?e = "entry_of (flow s) rid" and ?row = "\<lambda>e::flow_entry. e\<lparr>forwardedRows := forwardedRows e + cm_rowCount meta\<rparr>"
  let ?st = "update_entry rid ?row (snd (popRelayStreamBufferedChunk rid (flow s)))"
  let ?s1 = "emit_out rid (ChunkOut chunk raw) (s\<lparr>flow := ?st\<rparr>)"
  let ?res = "drain_loop rid True True (credits - 1) ?st"
  have ne: "queue_of ?e \<noteq> []" using q by simp
  have pop: "flow_ok (snd (popRelayStreamBufferedChunk rid (flow s)))" using pop_effect(1)[OF ok ne] .
  have "keeps_queue ?row" by (rule keeps_queueI) simp_all
  from shrinks_update[OF _ this, of "s\<lparr>flow := snd (popRelayStreamBufferedChunk rid (flow s))\<rparr>" rid] pop
  have ok1: "flow_ok ?st" by (simp add: shrinks_def)
  have q1: "queue_of (entry_of ?st rid) = rest"
    using pop_effect(2)[OF ok ne, of rid] entry_pop(1)[OF flow_entry_ok[OF ok] ne] q by (simp add: queue_same)
  have s': "s' = job_end env True rid (fst ?res) (?s1\<lparr>flow := snd ?res\<rparr>)"
    using r l by (simp add: s'_def job_resume_def drain_resume_def Let_def case_prod_beta emit_out_def addRelayStreamForwardedRows_def)
  have "resumed cap rid s (drain_resume rid True True (AwaitChunk credits chunk raw meta) s)" using resume_good[OF ok cap inv d r] .
  then have "flow_ok (snd ?res)" using shrinks_ok l
    by (auto simp: resumed_def drain_resume_def Let_def case_prod_beta emit_out_def addRelayStreamForwardedRows_def dest!: shrinks_ok)
  then show "emitted (ctls s' rid) = emitted (ctls s rid) @ [ChunkOut chunk raw]"
    unfolding s' by (subst job_end_emitted) (simp_all add: emit_out_def)
  show "live (ctls s' rid) \<and> draining (ctls s' rid) \<and> queue_of (entry_of (flow s') rid) = rest \<and>
      running (ctls s' rid) = Some (AwaitChunk (credits - 1) chunk' raw' meta')"
    if "1 < credits" "rest = (chunk', raw', b', meta') # rest'"
  proof -
    have "?res = ((Some (AwaitChunk (credits - 1) chunk' raw' meta'), False), ?st)" by (rule loop_suspends[OF ok1]) (use q1 that in simp_all)
    then show ?thesis using q1 l d unfolding s' by (simp add: job_end_def emit_out_def draining_def)
  qed
qed

lemma resume_all_delivers:
  assumes "sys_inv env s" "live (ctls s rid)" "draining (ctls s rid)" "queue_of (entry_of (flow s) rid) = (chunk, raw, b, meta) # rest"
    "running (ctls s rid) = Some (AwaitChunk credits chunk raw meta)" "n \<le> length rest" "int n < credits"
  shows "emitted (ctls (resume_all env rid (Suc n) s) rid) = emitted (ctls s rid) @ map chunk_event (take (Suc n) ((chunk, raw, b, meta) # rest))"
  using assms
proof (induction n arbitrary: s chunk raw b meta rest credits)
  case 0
  have ok: "flow_ok (flow s)" and inv: "sinv (flow_cap env) (entry_of (flow s) rid) (ctls s rid)" using 0 by (simp_all add: sys_inv_def stream_ok_def)
  show ?case using resume_delivers(1)[OF ok flow_cap_pos inv 0(2-5)] by (simp add: chunk_event_def)
next
  case (Suc n)
  have ok: "flow_ok (flow s)" and inv: "sinv (flow_cap env) (entry_of (flow s) rid) (ctls s rid)" using Suc by (simp_all add: sys_inv_def stream_ok_def)
  obtain chunk' raw' b' meta' rest' where rest: "rest = (chunk', raw', b', meta') # rest'" using Suc.prems(6) by (cases rest) auto
  let ?s = "job_resume env True True True rid s"
  have s1: "sys_inv env ?s" using good_sys[OF Suc.prems(1) job_resume_good[OF ok flow_cap_pos inv Suc.prems(5)]] .
  note d = resume_delivers[OF ok flow_cap_pos inv Suc.prems(2-5), where env = env]
  have "emitted (ctls (resume_all env rid (Suc n) ?s) rid) = emitted (ctls ?s rid) @ map chunk_event (take (Suc n) ((chunk', raw', b', meta') # rest'))"
    using Suc.IH[OF s1] d(2)[OF _ rest] rest Suc.prems(6,7) by simp
  then show ?case using d(1) rest by (simp add: chunk_event_def)
qed

text \<open>What a pull changes when the byte budget admits its drain.\<close>

lemma pull_effect:
  fixes env :: relay_flow_env and rid :: string and w :: int
  defines "cap \<equiv> maxFlowCreditsPerRequest (socketRestStreamPullMaxWindowSize env)"
  shows "flow (pull_execute env True rid w s) =
      update_entry rid (\<lambda>e. e\<lparr>fe_credits := min cap (max 0 (fe_credits e + max 0 w))\<rparr>) (flow s)"
    "live (ctls (pull_execute env True rid w s) rid) = live (ctls s rid)" "running (ctls (pull_execute env True rid w s) rid) = running (ctls s rid)"
    "\<exists>js. outbound (ctls (pull_execute env True rid w s) rid) = outbound (ctls s rid) @ js"
  by (simp_all add: pull_execute_def scheduleRelayStreamDrain_def Let_def addRelayStreamFlowCredits_def cap_def set_flag_def)

lemma last_chunk_resume:
  assumes ok: "flow_ok (flow s)" and l: "live (ctls s rid)" and q: "queue_of (entry_of (flow s) rid) = [x]"
    and p: "pendingComplete (entry_of (flow s) rid) = None" and d: "draining (ctls s rid)"
    and r: "running (ctls s rid) = Some (AwaitChunk credits chunk raw meta)" and cr: "0 < credits"
  shows "getRelayStreamFlowCredits rid (flow (job_resume env adm True canEmit rid s)) = credits - 1"
proof -
  let ?e = "entry_of (flow s) rid" and ?row = "\<lambda>e::flow_entry. e\<lparr>forwardedRows := forwardedRows e + cm_rowCount meta\<rparr>"
  let ?st = "update_entry rid ?row (snd (popRelayStreamBufferedChunk rid (flow s)))"
  let ?st2 = "setRelayStreamFlowCredits rid (max 0 (credits - 1)) ?st"
  let ?s2 = "(emit_out rid (ChunkOut chunk raw) (s\<lparr>flow := ?st\<rparr>))\<lparr>flow := ?st2\<rparr>"
  have ne: "queue_of ?e \<noteq> []" and eok: "buffer_ok ?e" using q flow_entry_ok[OF ok] by simp_all
  have e1: "entry_of (snd (popRelayStreamBufferedChunk rid (flow s))) rid = pop_entry ?e" using pop_effect(2)[OF ok ne, of rid] by simp
  have q1: "queue_of (pop_entry ?e) = []" using entry_pop(1)[OF eok ne] q by simp
  have p1: "pendingComplete (pop_entry ?e) = None" using p by (simp add: pop_entry_def Let_def)
  have "buffered_count (pop_entry ?e) = 0" using entry_pop(2)[OF eok ne] q1 by (simp add: count_zero)
  then have c1: "buffered_count (?row (pop_entry ?e)) = 0" "buffered_count ((?row (pop_entry ?e))\<lparr>fe_credits := n\<rparr>) = 0" for n
    by (simp_all add: buffered_count_def)
  have "drain_loop rid True canEmit (credits - 1) ?st = ((None, False), ?st2)"
    by (simp add: drain_loop_def drain_exit_def drain_tail_def getters_entry e1 c1 p1 setRelayStreamFlowCredits_def Let_def)
  then have "job_resume env adm True canEmit rid s = job_end env adm rid (None, False) ?s2"
    using r l by (simp add: job_resume_def drain_resume_def Let_def emit_out_def addRelayStreamForwardedRows_def)
  moreover obtain k js where "outbound (ctls s rid) = DrainJob k # js" using d by (auto simp: draining_def)
  ultimately have "flow (job_resume env adm True canEmit rid s) = ?st2"
    using l by (simp add: job_end_def emit_out_def afterDrainMaybeReschedule_def set_flag_def getters_entry setRelayStreamFlowCredits_def e1 c1 p1 Let_def)
  then show ?thesis using cr by (simp add: getters_entry setRelayStreamFlowCredits_def)
qed

text \<open>A stream that has ended stays ended, and nothing that happens removes the entry it may still have.\<close>

definition stale :: "string \<Rightarrow> relay_sys \<Rightarrow> bool" where
  "stale rid s \<longleftrightarrow> wasOpened (ctls s rid) \<and> \<not> live (ctls s rid) \<and> getRelayStreamFlowEntry rid (flow s) \<noteq> None"

lemma stale_ctl: "wasOpened (f (ctls s rid)) \<Longrightarrow> \<not> live (f (ctls s rid)) \<Longrightarrow> stale rid s \<Longrightarrow> stale rid (upd_ctl rid f s)"
  by (simp add: stale_def)

lemma stale_timer: "stale rid s \<Longrightarrow> stale rid (upd_flow (clearRelayStreamBackpressureRetryTimer rid) s)"
  by (simp add: stale_def getRelayStreamFlowEntry_def)

lemma stale_job_end:
  assumes "stale rid s"
  shows "stale rid (job_end env adm rid res s)"
proof -
  have dead: "wasOpened (ctls s rid)" "\<not> live (ctls s rid)" using assms by (simp_all add: stale_def)
  have "stale rid (afterDrainMaybeReschedule env adm rid k paused (upd_ctl rid (set_flag k False) s))" for k paused
    using dead stale_timer[OF stale_ctl[OF _ _ assms, of "set_flag k False"]] by (simp add: afterDrainMaybeReschedule_def set_flag_def)
  then show ?thesis using assms dead
    by (cases res) (auto simp: job_end_def Let_def stale_def split: option.split list.split stream_job.split)
qed

lemma stale_pull:
  assumes ok: "flow_ok (flow s)" and inv: "sinv (flow_cap env) (entry_of (flow s) rid) (ctls s rid)" and dead: "wasOpened (ctls s rid)" "\<not> live (ctls s rid)"
  shows "stale rid (pull_execute env adm rid w s)"
proof -
  let ?g = "\<lambda>c. c\<lparr>drainScheduled := drainScheduled c @ [False], granted := granted c + max 0 w\<rparr>"
  let ?s2 = "upd_ctl rid ?g (upd_flow (addRelayStreamFlowCredits (socketRestStreamPullMaxWindowSize env) rid w) s)"
  have z: "queue_of (entry_of (flow s) rid) = []" "pendingComplete (entry_of (flow s) rid) = None" using inv dead by (simp_all add: sinv_def order_dead_def)
  then have "buffered_count (entry_of (flow s) rid) = 0" using count_zero[OF flow_entry_ok[OF ok]] by simp
  then have "getRelayStreamBufferedChunkCount rid (flow ?s2) = 0" by (simp add: getters_entry addRelayStreamFlowCredits_def buffered_count_def)
  moreover have "getRelayStreamPendingComplete rid (flow ?s2) = None" using z by (simp add: getters_entry addRelayStreamFlowCredits_def)
  ultimately have eq: "pull_execute env adm rid w s = ?s2" by (simp add: pull_execute_def scheduleRelayStreamDrain_def Let_def)
  show "stale rid (pull_execute env adm rid w s)" unfolding eq using dead
    by (simp add: stale_def getRelayStreamFlowEntry_def addRelayStreamFlowCredits_def update_entry_get)
qed

lemma stale_frame: "stale rid s \<Longrightarrow> frame r s s' \<Longrightarrow> r \<noteq> rid \<Longrightarrow> stale rid s'"
  by (auto simp: stale_def frame_def getRelayStreamFlowEntry_def)

lemma stale_step:
  assumes s: "sys_inv env s" and z: "stale rid s" and st: "flow_step num env failures s s'"
  shows "stale rid s'"
proof -
  have ok: "flow_ok (flow s)" and inv: "sinv (flow_cap env) (entry_of (flow s) r) (ctls s r)"
    and att: "attended (entry_of (flow s) r) (timer_of (flow s) r) (ctls s r)"
    and tim: "timer_ok (timer_of (flow s) r) (ctls s r)" for r using s by (simp_all add: sys_inv_def stream_ok_def)
  have dead: "wasOpened (ctls s rid)" "\<not> live (ctls s rid)" using z by (simp_all add: stale_def)
  note c = flow_cap_pos[of env] and fr = stale_frame[OF z]
  from st show ?thesis
  proof cases
    case (step_open r sid)
    then show ?thesis using fr good_frame[OF open_good[OF ok c inv]] dead by metis
  next
    case (step_chunk r adm payload metadata raw)
    then show ?thesis using fr chunk_calm[OF s] dead by metis
  next
    case (step_complete r adm payload raw)
    then show ?thesis using fr good_frame[OF complete_good[OF ok c inv]] dead by metis
  next
    case (step_timeout r idle)
    then show ?thesis using fr good_frame[OF terminal_good[OF ok c inv _ att]] dead by (metis stream_timeout_def)
  next
    case (step_remove r)
    then show ?thesis using fr shrinks_frame[OF remove_effect(1)[OF ok]] dead by metis
  next
    case (step_pull r adm w)
    then show ?thesis using fr good_frame[OF pull_good[OF ok flow_cap_def inv]] stale_pull[OF ok inv dead] by metis
  next
    case (step_retry r k adm)
    then have k: "k < length (drainScheduled (ctls s r))" using tim[of r] by (simp add: timer_ok_def)
    have "stale rid (retry_fires env adm rid k s)" using stale_timer[OF z] dead by (simp add: retry_fires_def Let_def)
    then show ?thesis using fr good_frame[OF retry_good[OF ok c inv k]] step_retry(1) by metis
  next
    case (step_begin r adm canEmit)
    have "stale rid (job_begin env adm canEmit rid s)" using z dead stale_job_end
      by (auto simp: job_begin_def drain_begin_def stale_job_end split: list.split stream_job.split)
    then show ?thesis using fr good_frame[OF job_begin_good[OF ok c inv]] step_begin by metis
  next
    case (step_resume r adm emitOk canEmit)
    have "stale rid (job_resume env adm emitOk canEmit rid s)"
    proof (cases "running (ctls s rid)")
      case (Some pc)
      have "stale rid (snd (drain_resume rid emitOk canEmit pc s))" using z dead by (cases pc) (simp_all add: drain_resume_def emit_out_def stale_ctl)
      then show ?thesis using Some stale_job_end by (simp add: job_resume_def case_prod_beta)
    qed (use z in \<open>simp add: job_resume_def\<close>)
    then show ?thesis using fr good_frame[OF job_resume_good[OF ok c inv]] step_resume by (metis not_None_eq)
  next
    case (step_fail r adm)
    have "stale rid (job_fails env adm rid s)" using z stale_job_end by (simp add: job_fails_def)
    then show ?thesis using fr good_frame[OF job_fails_good[OF ok c inv]] step_fail by metis
  qed
qed

section \<open>Properties\<close>

lemma reachable_stream:
  assumes "env_ok env" "reachable new_relay_sys (flow_step num env failures) s"
  shows "flow_ok (flow s)" "caps_hold env (flow s)" "sinv (flow_cap env) (entry_of (flow s) rid) (ctls s rid)"
    "attended (entry_of (flow s) rid) (timer_of (flow s) rid) (ctls s rid)"
  using reachable_sys[OF assms] by (simp_all add: sys_inv_def stream_ok_def)

text \<open>A small run: a stream with one chunk, one credit, and a second pull while the chunk is being encoded.\<close>

definition sample_flow_env :: relay_flow_env where
  "sample_flow_env = \<lparr>relayMaxBufferedChunksPerRequest = 4, relayMaxTotalBufferedChunks = 8, relayMaxBufferedBytesPerRequest = 100,
     relayMaxTotalBufferedBytes = 200, socketRestStreamPullMaxWindowSize = 16, disconnectOnHardLimit = False\<rparr>"

definition sample_row_chunk :: jobject where
  "sample_row_chunk = [(ustr ''rows'', JvArr [JvNull])]"

definition buffered_run :: relay_sys where
  "buffered_run = pull_execute sample_flow_env True ''q'' 1
     (relay_onChunk sample_num sample_flow_env True ''q'' sample_row_chunk (Some 10) None (open_stream ''q'' None new_relay_sys))"

definition encoding_run :: relay_sys where
  "encoding_run = job_begin sample_flow_env True True ''q'' buffered_run"

definition delivered_run :: relay_sys where
  "delivered_run = job_resume sample_flow_env True True True ''q'' (pull_execute sample_flow_env True ''q'' 5 encoding_run)"

lemma sample_env_ok: "env_ok sample_flow_env"
  by code_simp

lemma buffered_state:
  "live (ctls buffered_run ''q'')" "outbound (ctls buffered_run ''q'') = [DrainJob 1]" "running (ctls buffered_run ''q'') = None"
  "has_work (entry_of (flow buffered_run) ''q'')" "getRelayStreamFlowCredits ''q'' (flow buffered_run) = 1"
  "length (queue_of (entry_of (flow buffered_run) ''q'')) = 1" "emitted (ctls buffered_run ''q'') = []"
  "queue_of (entry_of (flow buffered_run) ''q'') = [(Some sample_row_chunk, None, 10, \<lparr>cm_rowCount = 1, cm_streamId = None\<rparr>)]"
  by code_simp+

lemma encoding_state:
  "live (ctls encoding_run ''q'')" "wasOpened (ctls encoding_run ''q'')" "running (ctls encoding_run ''q'') = Some (AwaitChunk 1 (Some sample_row_chunk) None \<lparr>cm_rowCount = 1, cm_streamId = None\<rparr>)"
  "length (queue_of (entry_of (flow encoding_run) ''q'')) = 1" "pendingComplete (entry_of (flow encoding_run) ''q'') = None"
  by code_simp+

lemma delivered_state:
  "live (ctls delivered_run ''q'')" "wasOpened (ctls delivered_run ''q'')" "emitted (ctls delivered_run ''q'') = [ChunkOut (Some sample_row_chunk) None]" "granted (ctls delivered_run ''q'') = 6"
  by code_simp+

lemma buffered_reachable: "reachable new_relay_sys (flow_step sample_num sample_flow_env failures) buffered_run"
proof -
  let ?s1 = "open_stream ''q'' None new_relay_sys"
  let ?s2 = "relay_onChunk sample_num sample_flow_env True ''q'' sample_row_chunk (Some 10) None ?s1"
  have o: "\<not> wasOpened (ctls new_relay_sys ''q'')" "live (ctls ?s1 ''q'')" "wasOpened (ctls ?s2 ''q'')" by code_simp+
  let ?reach = "reachable new_relay_sys (flow_step sample_num sample_flow_env failures)"
  have "?reach ?s1" by (rule reach_step[OF reach_init]) (rule step_open[OF o(1)])
  then have "?reach ?s2" by (rule reach_step) (rule step_chunk[OF o(2)])
  then show ?thesis unfolding buffered_run_def by (rule reach_step) (rule step_pull[OF o(3)])
qed

lemma encoding_reachable: "reachable new_relay_sys (flow_step sample_num sample_flow_env failures) encoding_run"
  unfolding encoding_run_def by (rule reach_step[OF buffered_reachable step_begin]) (simp_all add: buffered_state)

lemma delivered_reachable: "reachable new_relay_sys (flow_step sample_num sample_flow_env failures) delivered_run"
  unfolding delivered_run_def
proof (rule reach_step[OF reach_step[OF encoding_reachable step_pull] step_resume])
  show "wasOpened (ctls encoding_run ''q'')" by (rule encoding_state)
  show "running (ctls (pull_execute sample_flow_env True ''q'' 5 encoding_run) ''q'') \<noteq> None"
    unfolding pull_effect(3) by (simp add: encoding_state)
qed

text \<open>C21: The books of the relayed streams are exact and bounded. In every reachable state the global totals are the sums over
  all streams; the chunk count of a stream is the length of its queue and its byte count the sum of the sizes charged for it; counts and bytes stay
  within the limits, per stream and in total, and the credits of a stream between zero and the maximal window.\<close>

theorem relay_stream_books:
  assumes "env_ok env" "reachable new_relay_sys (flow_step num env failures) s"
  shows "globalTotalBufferedChunks (flow s) = jm_sum buffered_count (entriesByRequestId (flow s)) \<and>
    globalTotalBufferedBytes (flow s) = jm_sum fe_bufferedBytes (entriesByRequestId (flow s)) \<and>
    globalTotalBufferedChunks (flow s) \<le> relayMaxTotalBufferedChunks env \<and> globalTotalBufferedBytes (flow s) \<le> relayMaxTotalBufferedBytes env \<and>
    (\<forall>rid. getRelayStreamBufferedChunkCount rid (flow s) = int (length (queue_of (entry_of (flow s) rid))) \<and>
       getRelayStreamBufferedBytes rid (flow s) = tally item_bytes (queue_of (entry_of (flow s) rid)) \<and>
       getRelayStreamBufferedChunkCount rid (flow s) \<le> relayMaxBufferedChunksPerRequest env \<and>
       getRelayStreamBufferedBytes rid (flow s) \<le> relayMaxBufferedBytesPerRequest env \<and>
       0 \<le> getRelayStreamFlowCredits rid (flow s) \<and>
       getRelayStreamFlowCredits rid (flow s) \<le> maxFlowCreditsPerRequest (socketRestStreamPullMaxWindowSize env))"
proof -
  note r = reachable_stream[OF assms]
  have e: "buffer_ok (entry_of (flow s) rid)" "fe_credits (entry_of (flow s) rid) \<le> flow_cap env" for rid
    using r(3)[of rid] flow_entry_ok[OF r(1)] by (simp_all add: sinv_def)
  have "fe_bufferedBytes (entry_of (flow s) rid) = tally item_bytes (queue_of (entry_of (flow s) rid))" "0 \<le> fe_credits (entry_of (flow s) rid)" for rid
    using e(1)[of rid] by (simp_all add: buffer_ok_def)
  moreover have "int (length (queue_of (entry_of (flow s) rid))) = buffered_count (entry_of (flow s) rid)" for rid
    using buffered_count_queue[OF e(1)] by simp
  ultimately show ?thesis using r(1,2) e(2) by (simp add: getters_entry flow_ok_def caps_hold_def flow_cap_def)
qed

theorem relay_stream_books_witness:
  "globalTotalBufferedChunks (flow buffered_run) = jm_sum buffered_count (entriesByRequestId (flow buffered_run)) \<and>
   globalTotalBufferedChunks (flow buffered_run) = 1 \<and> getRelayStreamBufferedBytes ''q'' (flow buffered_run) = 10"
proof -
  have "getRelayStreamBufferedBytes ''q'' (flow buffered_run) = tally item_bytes (queue_of (entry_of (flow buffered_run) ''q''))"
    "globalTotalBufferedChunks (flow buffered_run) = jm_sum buffered_count (entriesByRequestId (flow buffered_run))"
    using relay_stream_books[OF sample_env_ok buffered_reachable] by simp_all
  moreover have "jm_sum buffered_count (entriesByRequestId (flow buffered_run)) = 1" by code_simp
  ultimately show ?thesis by (simp add: buffered_state item_bytes_def tally_def)
qed

text \<open>C3: Chunks of a stream reach the consumer in the order they came from the agent, none twice and none skipped. While the stream is
  live, what was emitted followed by what is buffered is what was received. After its end the consumer has got a prefix, closed by at most one
  event: the completion of the agent, and then nothing is missing, or one error. This holds when encodings fail, too.\<close>

theorem relay_stream_in_order:
  assumes "env_ok env" "reachable new_relay_sys (flow_step num env failures) s"
  shows "if live (ctls s rid) then \<exists>xs. emitted (ctls s rid) = map chunk_event xs \<and> received (ctls s rid) = xs @ queue_of (entry_of (flow s) rid)
    else \<exists>xs ys tail. received (ctls s rid) = xs @ ys \<and> emitted (ctls s rid) = map chunk_event xs @ tail \<and>
      (tail = [] \<or> (\<exists>p. tail = [CompleteOut p]) \<and> ys = [] \<or> (\<exists>t. tail = [TerminalOut t]))"
proof -
  have "sinv (flow_cap env) (entry_of (flow s) rid) (ctls s rid)" using reachable_stream(3)[OF assms(1,2)] .
  then have "live (ctls s rid) \<Longrightarrow> order_live (flow_cap env) (entry_of (flow s) rid) (ctls s rid)"
    "\<not> live (ctls s rid) \<Longrightarrow> end_ok (emitted (ctls s rid)) (received (ctls s rid)) (terminals (outbound (ctls s rid)))"
    by (simp_all add: sinv_def order_dead_def)
  then show ?thesis unfolding order_live_def end_ok_def by (cases "live (ctls s rid)"; simp) metis
qed

theorem relay_stream_in_order_witness:
  "\<exists>xs. emitted (ctls delivered_run ''q'') = map chunk_event xs \<and> received (ctls delivered_run ''q'') = xs @ queue_of (entry_of (flow delivered_run) ''q'')"
  using relay_stream_in_order[OF sample_env_ok delivered_reachable, of "''q''"] unfolding if_P[OF delivered_state(1)] .

text \<open>C18: A live stream with something to deliver, chunks and credits or only the completion, is never forgotten: a drain of it is queued or running
  and the job at the head of its queue can take its next step, or its retry timer is armed. No schedule of chunks, pulls, pauses, failures and
  timers loses the wake-up.\<close>

theorem relay_stream_never_stalls:
  assumes "env_ok env" "reachable new_relay_sys (flow_step num env failures) s"
    and "live (ctls s rid)" "has_work (entry_of (flow s) rid)"
  shows "(\<exists>k. DrainJob k \<in> set (outbound (ctls s rid))) \<and>
      flow_step num env failures s (if running (ctls s rid) = None then job_begin env True True rid s else job_resume env True True True rid s) \<or>
    (\<exists>k. timer_of (flow s) rid = Some k \<and> flow_step num env failures s (retry_fires env True rid k s))"
proof (cases "timer_of (flow s) rid")
  case None
  have ks: "drain_ks (outbound (ctls s rid)) \<noteq> []" using reachable_stream(4)[OF assms(1,2), of rid] assms(3,4) None by (simp add: attended_def)
  have "drain_ks js \<noteq> [] \<Longrightarrow> \<exists>k. DrainJob k \<in> set js" for js by (induction js rule: drain_ks.induct) auto
  moreover have "outbound (ctls s rid) \<noteq> []" using ks by auto
  then have "flow_step num env failures s (if running (ctls s rid) = None then job_begin env True True rid s else job_resume env True True True rid s)"
    by (simp add: step_begin step_resume)
  ultimately show ?thesis using ks by blast
qed (use step_retry in blast)

theorem relay_stream_never_stalls_witness:
  "flow_step sample_num sample_flow_env True buffered_run (job_begin sample_flow_env True True ''q'' buffered_run)"
proof -
  have "timer_of (flow buffered_run) ''q'' = None" by code_simp
  then show ?thesis
    using relay_stream_never_stalls[OF sample_env_ok buffered_reachable buffered_state(1,4), of True] buffered_state(3) by simp
qed

text \<open>A drain that starts on a live stream forwards as many of the buffered chunks as there are credits, first in first out, when the
  transport stays writable.\<close>

theorem drain_forwards_credited:
  assumes "env_ok env" "reachable new_relay_sys (flow_step num env failures) s"
    and "live (ctls s rid)" "outbound (ctls s rid) = DrainJob k # js" "running (ctls s rid) = None"
    and "0 < n" "int n \<le> getRelayStreamFlowCredits rid (flow s)" "n \<le> length (queue_of (entry_of (flow s) rid))"
  shows "emitted (ctls (resume_all env rid n (job_begin env True True rid s)) rid) =
    emitted (ctls s rid) @ map chunk_event (take n (queue_of (entry_of (flow s) rid)))"
proof -
  let ?s = "job_begin env True True rid s"
  have inv: "sys_inv env s" using reachable_sys[OF assms(1,2)] .
  note r = reachable_stream[OF assms(1,2)]
  obtain chunk raw b meta rest where q: "queue_of (entry_of (flow s) rid) = (chunk, raw, b, meta) # rest"
    using assms(6,8) by (cases "queue_of (entry_of (flow s) rid)") auto
  let ?cr = "fe_credits (entry_of (flow s) rid)"
  have cr: "0 < ?cr" "int n \<le> ?cr" using assms(6,7) by (simp_all add: getters_entry)
  have "drain_begin rid True True (flow s) = ((Some (AwaitChunk ?cr chunk raw meta), False), flow s)"
    using loop_suspends[OF r(1) q cr(1)] q cr by (simp add: drain_begin_def getters_entry count_zero[OF flow_entry_ok[OF r(1)]])
  then have s: "?s = upd_ctl rid (\<lambda>c. c\<lparr>running := Some (AwaitChunk ?cr chunk raw meta)\<rparr>) s"
    using assms(3,4) by (simp add: job_begin_def job_end_def)
  have "sys_inv env ?s" using good_sys[OF inv job_begin_good[OF r(1) flow_cap_pos r(3) assms(5)]] assms(4) by simp
  then show ?thesis using resume_all_delivers[of env ?s rid chunk raw b meta rest ?cr "n - 1"] assms(3,4,6,8) q cr
    by (simp add: s draining_def)
qed

theorem drain_forwards_credited_witness:
  "emitted (ctls (resume_all sample_flow_env ''q'' 1 encoding_run) ''q'') = [ChunkOut (Some sample_row_chunk) None]"
  using drain_forwards_credited[OF sample_env_ok buffered_reachable buffered_state(1-3), of 1] buffered_state(5-8)
  by (simp add: encoding_run_def chunk_event_def)

text \<open>C23: A consumer never gets more chunks of a stream than the credits it granted, as long as no encoding fails, although the drain works on a
  copy of the credits while pulls change the original.\<close>

theorem relay_stream_within_credits:
  assumes "env_ok env" "reachable new_relay_sys (flow_step num env False) s"
  shows "chunks_out (emitted (ctls s rid)) \<le> granted (ctls s rid)"
proof -
  have "all_paid s" using assms(2)
  proof (induction rule: reachable.induct)
    case reach_init
    show ?case by (simp add: all_paid_def paid_def new_relay_sys_def new_ctl_def)
  next
    case (reach_step s t)
    then show ?case using step_paid[OF reachable_sys[OF assms(1)]] by blast
  qed
  then show ?thesis by (simp add: all_paid_def paid_def)
qed

theorem relay_stream_within_credits_witness:
  "chunks_out (emitted (ctls delivered_run ''q'')) = 1 \<and> 1 \<le> granted (ctls delivered_run ''q'')"
  using relay_stream_within_credits[OF sample_env_ok delivered_reachable, of "''q''"] by (simp add: delivered_state)

text \<open>The bound on the credits needs the hypothesis on failures: a drain that fails while encoding does not write back the credits it
  spent. Here two credits are granted, the second of three chunks fails once, and all three are delivered.\<close>

definition overdrawn_run :: relay_sys where
  "overdrawn_run =
     (let env = sample_flow_env; chunk = relay_onChunk sample_num env True ''q'' sample_row_chunk (Some 10) None;
          go = job_begin env True True ''q''; resume = job_resume env True True True ''q''
      in resume (resume (go (job_fails env True ''q'' (resume (go
           (pull_execute env True ''q'' 2 (chunk (chunk (chunk (open_stream ''q'' None new_relay_sys)))))))))))"

lemma encode_failure_overdraws: "chunks_out (emitted (ctls overdrawn_run ''q'')) = 3" "granted (ctls overdrawn_run ''q'') = 2"
  by code_simp+

text \<open>C37: Credits can be lost. When a consumer pulls while the last buffered chunk of its stream is being encoded, the drain then writes back its own
  copy of the credits and the whole window of the pull is gone: the credits left do not depend on it. The agent was told to send that many chunks; they
  stay in the buffer until the consumer pulls again.\<close>

theorem pulled_credits_lost:
  assumes "env_ok env" "reachable new_relay_sys (flow_step num env failures) s"
    and "live (ctls s rid)" "running (ctls s rid) = Some (AwaitChunk credits chunk raw meta)"
    and "length (queue_of (entry_of (flow s) rid)) = 1" "pendingComplete (entry_of (flow s) rid) = None"
  shows "getRelayStreamFlowCredits rid (flow (job_resume env adm True canEmit rid (pull_execute env True rid w s))) = credits - 1"
proof -
  let ?s = "pull_execute env True rid w s"
  note r = reachable_stream[OF assms(1,2)]
  note pe = pull_effect[of env rid w s]
  obtain x where q: "queue_of (entry_of (flow s) rid) = [x]" using assms(5) by (cases "queue_of (entry_of (flow s) rid)") auto
  have op: "wasOpened (ctls s rid)" using r(3)[of rid] assms(3) by (simp add: sinv_def order_live_def)
  have ok: "flow_ok (flow ?s)" using pull_good[OF r(1) flow_cap_def r(3) op, of True w] by (auto simp: good_def dest: shrinks_ok)
  have "\<exists>k js. outbound (ctls s rid) = DrainJob k # js"
    using r(3)[of rid] assms(4) by (cases "outbound (ctls s rid)" rule: drain_ks.cases) (auto simp: sinv_def jobs_inv_def)
  then have d: "draining (ctls ?s rid)" using pe(4) by (auto simp: draining_def)
  have cr: "0 < credits" using r(3)[of rid] assms(3,4) by (simp add: sinv_def order_live_def)
  show ?thesis by (rule last_chunk_resume[OF ok _ _ _ d _ cr]) (use pe(1-3) assms(3,4,6) q in \<open>simp_all add: queue_same\<close>)
qed

theorem pulled_credits_lost_witness:
  "getRelayStreamFlowCredits ''q'' (flow (pull_execute sample_flow_env True ''q'' 5 encoding_run)) = 6 \<and>
   getRelayStreamFlowCredits ''q'' (flow delivered_run) = 0"
proof
  show "getRelayStreamFlowCredits ''q'' (flow (pull_execute sample_flow_env True ''q'' 5 encoding_run)) = 6" by code_simp
  show "getRelayStreamFlowCredits ''q'' (flow delivered_run) = 0" unfolding delivered_run_def
    using pulled_credits_lost[OF sample_env_ok encoding_reachable encoding_state(1,3,4,5)] by simp
qed

text \<open>A pull that is executed after its stream ended leaks. Between preparing a pull and executing it the handlers wait for the rate limiter;
  when the stream ends meanwhile, executing the pull creates a new flow entry for it, with the credits of the window, and no later
  event of any stream removes it.\<close>

theorem late_pull_leaks_entry:
  assumes "env_ok env" "reachable new_relay_sys (flow_step num env failures) s" "wasOpened (ctls s rid)" "\<not> live (ctls s rid)"
    and "(flow_step num env failures)\<^sup>*\<^sup>* (pull_execute env adm rid w s) s'"
  shows "getRelayStreamFlowEntry rid (flow s') \<noteq> None \<and> \<not> live (ctls s' rid)"
proof -
  note r = reachable_stream[OF assms(1,2)]
  have "stale rid (pull_execute env adm rid w s)" "sys_inv env (pull_execute env adm rid w s)"
    using stale_pull[OF r(1,3) assms(3,4)] good_sys[OF reachable_sys[OF assms(1,2)] pull_good[OF r(1) flow_cap_def r(3) assms(3)]] by blast+
  from assms(5) this have "stale rid s' \<and> sys_inv env s'"
    by (induction rule: rtranclp_induct) (auto intro: stale_step step_sys)
  then show ?thesis by (simp add: stale_def)
qed

theorem late_pull_leaks_entry_witness:
  "getRelayStreamFlowEntry ''q'' (flow (remove_routes ''q'' delivered_run)) = None \<and>
   getRelayStreamFlowEntry ''q'' (flow (pull_execute sample_flow_env True ''q'' 3 (remove_routes ''q'' delivered_run))) \<noteq> None"
proof -
  let ?s = "remove_routes ''q'' delivered_run"
  have ok: "flow_ok (flow delivered_run)" using reachable_stream(1)[OF sample_env_ok delivered_reachable] .
  have r: "reachable new_relay_sys (flow_step sample_num sample_flow_env False) ?s"
    by (rule reach_step[OF delivered_reachable step_remove]) (rule delivered_state)
  have "wasOpened (ctls ?s ''q'')" "\<not> live (ctls ?s ''q'')" using delivered_state(2) by (simp_all add: remove_effect(4)[OF ok])
  from late_pull_leaks_entry[OF sample_env_ok r this rtranclp.rtrancl_refl]
  show ?thesis using remove_effect(5)[OF ok] by (simp add: getRelayStreamFlowEntry_def)
qed

end
