(* ===== verification/Json_Parse.thy ===== *)
theory Json_Parse
  imports Json_Text
begin

text \<open>
  Bytes and texts of JSON: the UTF-8 encoding and decoding of \<^verbatim>\<open>Buffer\<close>, Base64, and \<^verbatim>\<open>JSON.parse\<close>, with
  the laws that decoding undoes encoding and that parsing undoes \<^verbatim>\<open>JSON.stringify\<close>.

  The parser is a lexer followed by a pushdown machine that consumes one token per step. How the text of a number
  is converted is a parameter, like its printing in \<open>json_text\<close>; the law that relates the two is \<open>number_format\<close>.
\<close>

type_synonym bytes = "8 word list"

section \<open>UTF-8\<close>

definition cp_bytes :: "nat \<Rightarrow> bytes" where
  "cp_bytes n =
     (if n < 0x80 then [of_nat n]
      else if n < 0x800 then [of_nat (0xC0 + n div 64), of_nat (0x80 + n mod 64)]
      else if n < 0x10000 then [of_nat (0xE0 + n div 4096), of_nat (0x80 + n div 64 mod 64), of_nat (0x80 + n mod 64)]
      else [of_nat (0xF0 + n div 262144), of_nat (0x80 + n div 4096 mod 64), of_nat (0x80 + n div 64 mod 64), of_nat (0x80 + n mod 64)])"

definition pair_cp :: "16 word \<Rightarrow> 16 word \<Rightarrow> nat" where
  "pair_cp c d = 0x10000 + (unat c - 0xD800) * 0x400 + (unat d - 0xDC00)"

definition unit_bytes :: "16 word \<Rightarrow> bytes" where
  "unit_bytes c = cp_bytes (if high_surrogate c \<or> low_surrogate c then 0xFFFD else unat c)"

fun utf8_encode :: "ustring \<Rightarrow> bytes" where
  "utf8_encode [] = []"
| "utf8_encode [c] = unit_bytes c"
| "utf8_encode (c # d # s) =
     (if high_surrogate c \<and> low_surrogate d then cp_bytes (pair_cp c d) @ utf8_encode s
      else unit_bytes c @ utf8_encode (d # s))"

text \<open>Decoding replaces every maximal ill-formed prefix by the replacement character.\<close>

definition cp_units :: "nat \<Rightarrow> ustring" where
  "cp_units n =
     (if n < 0x10000 then [of_nat n]
      else [of_nat (0xD800 + (n - 0x10000) div 0x400), of_nat (0xDC00 + (n - 0x10000) mod 0x400)])"

definition cont :: "8 word \<Rightarrow> bool" where
  "cont b \<longleftrightarrow> 0x80 \<le> unat b \<and> unat b \<le> 0xBF"

definition second_ok :: "nat \<Rightarrow> 8 word \<Rightarrow> bool" where
  "second_ok a b \<longleftrightarrow> cont b \<and> (a = 0xE0 \<longrightarrow> 0xA0 \<le> unat b) \<and> (a = 0xED \<longrightarrow> unat b \<le> 0x9F) \<and>
     (a = 0xF0 \<longrightarrow> 0x90 \<le> unat b) \<and> (a = 0xF4 \<longrightarrow> unat b \<le> 0x8F)"

definition tail6 :: "8 word \<Rightarrow> nat" where
  "tail6 b = unat b - 0x80"

fun utf8_decode :: "bytes \<Rightarrow> ustring" where
  "utf8_decode [] = []"
| "utf8_decode (x # s) =
     (let a = unat x in
      if a < 0x80 then of_nat a # utf8_decode s
      else if 0xC2 \<le> a \<and> a \<le> 0xDF then
        (case s of [] \<Rightarrow> [0xFFFD]
         | b # s1 \<Rightarrow> if cont b then cp_units ((a - 0xC0) * 64 + tail6 b) @ utf8_decode s1 else 0xFFFD # utf8_decode s)
      else if 0xE0 \<le> a \<and> a \<le> 0xEF then
        (case s of [] \<Rightarrow> [0xFFFD]
         | b # s1 \<Rightarrow>
             if \<not> second_ok a b then 0xFFFD # utf8_decode s
             else (case s1 of [] \<Rightarrow> [0xFFFD]
                   | c # s2 \<Rightarrow> if cont c then cp_units ((a - 0xE0) * 4096 + tail6 b * 64 + tail6 c) @ utf8_decode s2
                              else 0xFFFD # utf8_decode s1))
      else if 0xF0 \<le> a \<and> a \<le> 0xF4 then
        (case s of [] \<Rightarrow> [0xFFFD]
         | b # s1 \<Rightarrow>
             if \<not> second_ok a b then 0xFFFD # utf8_decode s
             else (case s1 of [] \<Rightarrow> [0xFFFD]
                   | c # s2 \<Rightarrow>
                       if \<not> cont c then 0xFFFD # utf8_decode s1
                       else (case s2 of [] \<Rightarrow> [0xFFFD]
                             | d # s3 \<Rightarrow>
                                 if cont d then cp_units ((a - 0xF0) * 262144 + tail6 b * 4096 + tail6 c * 64 + tail6 d) @ utf8_decode s3
                                 else 0xFFFD # utf8_decode s2)))
      else 0xFFFD # utf8_decode s)"

declare utf8_decode.simps(2) [simp del]

text \<open>Strings without a lone surrogate.\<close>

fun well_formed :: "ustring \<Rightarrow> bool" where
  "well_formed [] = True"
| "well_formed [c] = (\<not> high_surrogate c \<and> \<not> low_surrogate c)"
| "well_formed (c # d # s) =
     (if high_surrogate c \<and> low_surrogate d then well_formed s
      else \<not> high_surrogate c \<and> \<not> low_surrogate c \<and> well_formed (d # s))"

lemma unat8 [simp]: "n < 256 \<Longrightarrow> unat (of_nat n :: 8 word) = n"
  by (simp add: unat_of_nat)

lemma split_base64: "(n div 4096) * 4096 + n div 64 mod 64 * 64 + n mod 64 = (n :: nat)"
proof -
  have "n div 64 div 64 = n div 4096" by (simp add: div_mult2_eq[symmetric])
  then show ?thesis using div_mult_mod_eq[of n 64] div_mult_mod_eq[of "n div 64" 64] by linarith
qed

lemma split_base64_4: "(n div 262144) * 262144 + n div 4096 mod 64 * 4096 + n div 64 mod 64 * 64 + n mod 64 = (n :: nat)"
proof -
  have "n div 4096 div 64 = n div 262144" by (simp add: div_mult2_eq[symmetric])
  then show ?thesis using split_base64[of n] div_mult_mod_eq[of "n div 4096" 64] by linarith
qed

lemma utf8_decode_cp:
  assumes "n < 0x110000" and "n < 0xD800 \<or> 0xDFFF < n"
  shows "utf8_decode (cp_bytes n @ t) = cp_units n @ utf8_decode t"
proof -
  consider "n < 0x80" | "0x80 \<le> n" "n < 0x800" | "0x800 \<le> n" "n < 0x10000" | "0x10000 \<le> n" by linarith
  then show ?thesis
  proof cases
    case 1
    then show ?thesis by (simp add: cp_bytes_def cp_units_def utf8_decode.simps(2))
  next
    case 2
    have "0xC0 + n div 64 < 256" "0x80 + n mod 64 < 256" "(n div 64) * 64 + n mod 64 = n" "2 \<le> n div 64" "n div 64 \<le> 31" "n mod 64 \<le> 63"
      using 2 by (auto intro: less_Suc_eq_le[THEN iffD1])
    then show ?thesis using 2
      by (simp add: cp_bytes_def utf8_decode.simps(2) Let_def cont_def tail6_def del: of_nat_add)
  next
    case 3
    have a: "0xE0 + n div 4096 < 256" "n div 4096 \<le> 15" using 3 by auto
    have b: "0x80 + n div 64 mod 64 < 256" "n div 64 mod 64 \<le> 63" by (auto intro: less_Suc_eq_le[THEN iffD1])
    have c: "0x80 + n mod 64 < 256" "n mod 64 \<le> 63" by (auto intro: less_Suc_eq_le[THEN iffD1])
    have e: "(n div 4096) * 4096 + n div 64 mod 64 * 64 + n mod 64 = n" by (rule split_base64)
    have lo: "n div 4096 = 0 \<Longrightarrow> 32 \<le> n div 64 mod 64" using 3 e c by linarith
    have hi: "n div 4096 = 13 \<Longrightarrow> n div 64 mod 64 \<le> 31" using 3 assms(2) e by linarith
    show ?thesis using 3 a b c e lo hi
      by (simp add: cp_bytes_def utf8_decode.simps(2) Let_def cont_def second_ok_def tail6_def del: of_nat_add)
  next
    case 4
    have a: "0xF0 + n div 262144 < 256" "n div 262144 \<le> 4" using assms(1) by auto
    have b: "0x80 + n div 4096 mod 64 < 256" "n div 4096 mod 64 \<le> 63" by (auto intro: less_Suc_eq_le[THEN iffD1])
    have c: "0x80 + n div 64 mod 64 < 256" "n div 64 mod 64 \<le> 63" by (auto intro: less_Suc_eq_le[THEN iffD1])
    have d: "0x80 + n mod 64 < 256" "n mod 64 \<le> 63" by (auto intro: less_Suc_eq_le[THEN iffD1])
    have e: "(n div 262144) * 262144 + n div 4096 mod 64 * 4096 + n div 64 mod 64 * 64 + n mod 64 = n" by (rule split_base64_4)
    have lo: "n div 262144 = 0 \<Longrightarrow> 16 \<le> n div 4096 mod 64" using 4 e c d by linarith
    have hi: "n div 262144 = 4 \<Longrightarrow> n div 4096 mod 64 \<le> 15" using assms(1) e by linarith
    show ?thesis using 4 a b c d e lo hi
      by (simp add: cp_bytes_def utf8_decode.simps(2) Let_def cont_def second_ok_def tail6_def del: of_nat_add)
  qed
qed

lemma surrogate_unat:
  "high_surrogate c \<longleftrightarrow> 0xD800 \<le> unat c \<and> unat c \<le> 0xDBFF"
  "low_surrogate c \<longleftrightarrow> 0xDC00 \<le> unat c \<and> unat c \<le> 0xDFFF"
  by (simp_all add: high_surrogate_def low_surrogate_def word_le_nat_alt)

lemma unat16_less: "unat (c :: 16 word) < 65536"
  using unsigned_less[of c, where ?'a = nat] by simp

lemma pair_units:
  assumes "high_surrogate c" and "low_surrogate d"
  shows "cp_units (pair_cp c d) = [c, d]" and "0x10000 \<le> pair_cp c d" and "pair_cp c d < 0x110000"
proof -
  define h where "h = unat c - 0xD800"
  define l where "l = unat d - 0xDC00"
  have hl: "h < 0x400" "l < 0x400" "unat c = 0xD800 + h" "unat d = 0xDC00 + l"
    using assms unfolding h_def l_def surrogate_unat by linarith+
  have p: "pair_cp c d = 0x10000 + h * 0x400 + l" by (simp add: pair_cp_def h_def l_def)
  have "(pair_cp c d - 0x10000) div 0x400 = h" "(pair_cp c d - 0x10000) mod 0x400 = l" using hl(2) by (simp_all add: p)
  then show "cp_units (pair_cp c d) = [c, d]" by (simp add: cp_units_def p hl(3,4)[symmetric] del: of_nat_add)
  show "0x10000 \<le> pair_cp c d" "pair_cp c d < 0x110000" using hl by (simp_all add: p)
qed

lemma utf8_roundtrip_append: "well_formed s \<Longrightarrow> utf8_decode (utf8_encode s @ t) = s @ utf8_decode t"
proof (induction s rule: utf8_encode.induct)
  case (2 c)
  then show ?case using unat16_less[of c]
    by (auto simp: unit_bytes_def utf8_decode_cp surrogate_unat cp_units_def)
next
  case (3 c d s)
  show ?case
  proof (cases "high_surrogate c \<and> low_surrogate d")
    case True
    then show ?thesis using 3 pair_units[of c d] by (simp add: utf8_decode_cp)
  next
    case False
    have nc: "\<not> high_surrogate c" "\<not> low_surrogate c" using 3(3) False by (auto split: if_splits)
    then have "utf8_decode (unit_bytes c @ u) = c # utf8_decode u" for u
      using unat16_less[of c] by (auto simp: unit_bytes_def utf8_decode_cp surrogate_unat cp_units_def)
    then show ?thesis using 3 nc False by (simp split: if_splits)
  qed
qed simp

lemma utf8_roundtrip: "well_formed s \<Longrightarrow> utf8_decode (utf8_encode s) = s"
  using utf8_roundtrip_append[of s "[]"] by simp

lemma cp_bytes_length: "length (cp_bytes n) = (if n < 0x80 then 1 else if n < 0x800 then 2 else if n < 0x10000 then 3 else 4)"
  by (simp add: cp_bytes_def)

lemma unit_bytes_length: "length (unit_bytes c) = unit_len c"
  using unat16_less[of c] by (auto simp: unit_bytes_def unit_len_def cp_bytes_length surrogate_unat word_less_nat_alt)

lemma utf8_encode_length: "length (utf8_encode s) = utf8_len s"
  by (induction s rule: utf8_encode.induct) (auto simp: unit_bytes_length cp_bytes_length pair_cp_def)

section \<open>Base64\<close>

text \<open>\<^verbatim>\<open>Buffer.toString("base64")\<close>.\<close>

definition b64_char :: "nat \<Rightarrow> 16 word" where
  "b64_char n = of_nat (if n < 26 then 65 + n else if n < 52 then 71 + n else if n < 62 then n - 4 else if n = 62 then 43 else 47)"

fun base64 :: "bytes \<Rightarrow> ustring" where
  "base64 [] = []"
| "base64 [a] = [b64_char (unat a div 4), b64_char (unat a mod 4 * 16), 61, 61]"
| "base64 [a, b] = [b64_char (unat a div 4), b64_char (unat a mod 4 * 16 + unat b div 16), b64_char (unat b mod 16 * 4), 61]"
| "base64 (a # b # c # s) =
     b64_char (unat a div 4) # b64_char (unat a mod 4 * 16 + unat b div 16) #
     b64_char (unat b mod 16 * 4 + unat c div 64) # b64_char (unat c mod 64) # base64 s"

lemma unat16 [simp]: "n < 65536 \<Longrightarrow> unat (of_nat n :: 16 word) = n"
  by (simp add: unat_of_nat)

lemma b64_char_unat:
  "n < 64 \<Longrightarrow> unat (b64_char n) = (if n < 26 then 65 + n else if n < 52 then 71 + n else if n < 62 then n - 4 else if n = 62 then 43 else 47)"
  unfolding b64_char_def by (subst unat16) auto

lemma b64_char_inj: "m < 64 \<Longrightarrow> n < 64 \<Longrightarrow> b64_char m = b64_char n \<longleftrightarrow> m = n"
  by (auto dest!: arg_cong[where f = unat] simp: b64_char_unat split: if_splits)

lemma b64_char_not_pad: "n < 64 \<Longrightarrow> b64_char n \<noteq> 61"
  using b64_char_unat[of n] by (auto split: if_splits)

lemma unat8_less: "unat (b :: 8 word) < 256"
  using unsigned_less[of b, where ?'a = nat] by simp

lemma sextets:
  "unat (a :: 8 word) div 4 < 64" "unat (a :: 8 word) mod 4 * 16 < 64" "unat a mod 4 * 16 + unat (b :: 8 word) div 16 < 64"
  "unat b mod 16 * 4 < 64" "unat b mod 16 * 4 + unat (c :: 8 word) div 64 < 64" "unat c mod 64 < 64"
  using unat8_less[of a] unat8_less[of b] unat8_less[of c] by auto

lemma digits_eq:
  assumes "y < k" "y' < k" "x * k + y = x' * k + (y' :: nat)"
  shows "x = x' \<and> y = y'"
proof -
  have "(x * k + y) div k = x" "(x' * k + y') div k = x'" using assms(1,2) by auto
  then show ?thesis using assms(3) by simp
qed

lemma sextets_eq:
  fixes a a' b b' c c' :: "8 word"
  shows "unat a div 4 = unat a' div 4 \<Longrightarrow> unat a mod 4 * 16 = unat a' mod 4 * 16 \<Longrightarrow> a = a'"
    and "unat a div 4 = unat a' div 4 \<Longrightarrow> unat a mod 4 * 16 + unat b div 16 = unat a' mod 4 * 16 + unat b' div 16 \<Longrightarrow>
      a = a' \<and> unat b div 16 = unat b' div 16"
    and "unat b div 16 = unat b' div 16 \<Longrightarrow> unat b mod 16 * 4 + unat c div 64 = unat b' mod 16 * 4 + unat c' div 64 \<Longrightarrow>
      b = b' \<and> unat c div 64 = unat c' div 64"
    and "unat b div 16 = unat b' div 16 \<Longrightarrow> unat b mod 16 * 4 = unat b' mod 16 * 4 \<Longrightarrow> b = b'"
    and "unat c div 64 = unat c' div 64 \<Longrightarrow> unat c mod 64 = unat c' mod 64 \<Longrightarrow> c = c'"
proof -
  have q: "u = v" if "unat u div k = unat v div k" "unat u mod k = unat v mod k" for u v :: "8 word" and k
    using that by (metis div_mult_mod_eq word_eq_iff_unsigned)
  have d: "unat (u :: 8 word) div 16 < 16" "unat u div 64 < 4" for u using unat8_less[of u] by auto
  show "unat a div 4 = unat a' div 4 \<Longrightarrow> unat a mod 4 * 16 = unat a' mod 4 * 16 \<Longrightarrow> a = a'"
    by (auto intro: q[of _ 4])
  show "unat a div 4 = unat a' div 4 \<Longrightarrow> unat a mod 4 * 16 + unat b div 16 = unat a' mod 4 * 16 + unat b' div 16 \<Longrightarrow>
      a = a' \<and> unat b div 16 = unat b' div 16"
    using digits_eq[OF d(1)[of b] d(1)[of b']] q[of a 4 a'] by blast
  show "unat b div 16 = unat b' div 16 \<Longrightarrow> unat b mod 16 * 4 + unat c div 64 = unat b' mod 16 * 4 + unat c' div 64 \<Longrightarrow>
      b = b' \<and> unat c div 64 = unat c' div 64"
    using digits_eq[OF d(2)[of c] d(2)[of c']] q[of b 16 b'] by blast
  show "unat b div 16 = unat b' div 16 \<Longrightarrow> unat b mod 16 * 4 = unat b' mod 16 * 4 \<Longrightarrow> b = b'"
    by (auto intro: q[of _ 16])
  show "unat c div 64 = unat c' div 64 \<Longrightarrow> unat c mod 64 = unat c' mod 64 \<Longrightarrow> c = c'"
    by (rule q)
qed

lemma base64_inj: "base64 s = base64 t \<longleftrightarrow> s = t"
proof
  show "base64 s = base64 t \<Longrightarrow> s = t"
  proof (induction s arbitrary: t rule: base64.induct)
    case 1
    then show ?case by (cases t rule: base64.cases) auto
  next
    case (2 a)
    then show ?case
      by (cases t rule: base64.cases) (auto simp: b64_char_inj sextets b64_char_not_pad b64_char_not_pad[symmetric] dest: sextets_eq(1))
  next
    case (3 a b)
    show ?case
    proof (cases t rule: base64.cases)
      case (3 a' b')
      then have "unat a div 4 = unat a' div 4" "unat a mod 4 * 16 + unat b div 16 = unat a' mod 4 * 16 + unat b' div 16"
        "unat b mod 16 * 4 = unat b' mod 16 * 4"
        using "3.prems" by (simp_all add: b64_char_inj sextets)
      then show ?thesis using sextets_eq(2)[of a a' b b'] sextets_eq(4)[of b b'] 3 by simp
    qed (use "3.prems" in \<open>auto simp: b64_char_inj sextets b64_char_not_pad b64_char_not_pad[symmetric]\<close>)
  next
    case (4 a b c s)
    show ?case
    proof (cases t rule: base64.cases)
      case (4 a' b' c' s')
      then have "unat a div 4 = unat a' div 4" "unat a mod 4 * 16 + unat b div 16 = unat a' mod 4 * 16 + unat b' div 16"
        "unat b mod 16 * 4 + unat c div 64 = unat b' mod 16 * 4 + unat c' div 64" "unat c mod 64 = unat c' mod 64" "base64 s = base64 s'"
        using "4.prems" by (simp_all add: b64_char_inj sextets)
      then show ?thesis using sextets_eq(2)[of a a' b b'] sextets_eq(3)[of b b' c c'] sextets_eq(5)[of c c'] "4.IH" 4 by simp
    qed (use "4.prems" in \<open>auto simp: b64_char_inj sextets b64_char_not_pad b64_char_not_pad[symmetric]\<close>)
  qed
qed simp

section \<open>The lexer\<close>

definition is_digit :: "16 word \<Rightarrow> bool" where
  "is_digit c \<longleftrightarrow> 48 \<le> unat c \<and> unat c \<le> 57"

definition json_space :: "16 word \<Rightarrow> bool" where
  "json_space c \<longleftrightarrow> c \<in> set [9, 10, 13, 32]"

definition hex_value :: "16 word \<Rightarrow> nat option" where
  "hex_value c =
     (let n = unat c in
      if 48 \<le> n \<and> n \<le> 57 then Some (n - 48) else if 97 \<le> n \<and> n \<le> 102 then Some (n - 87)
      else if 65 \<le> n \<and> n \<le> 70 then Some (n - 55) else None)"

definition hex4_value :: "16 word \<Rightarrow> 16 word \<Rightarrow> 16 word \<Rightarrow> 16 word \<Rightarrow> 16 word option" where
  "hex4_value a b c d =
     (case (hex_value a, hex_value b, hex_value c, hex_value d) of
        (Some w, Some x, Some y, Some z) \<Rightarrow> Some (of_nat (w * 4096 + x * 256 + y * 16 + z)) | _ \<Rightarrow> None)"

text \<open>The characters after a reverse solidus other than \<open>u\<close>.\<close>

definition unescape :: "16 word \<Rightarrow> 16 word option" where
  "unescape c = map_of [(0x22, 0x22), (0x5C, 0x5C), (0x2F, 0x2F), (98, 8), (102, 12), (110, 10), (114, 13), (116, 9)] c"

text \<open>The rest of a string literal after its opening quote: its value and the text behind it.\<close>

fun lex_string :: "ustring \<Rightarrow> (ustring \<times> ustring) option" where
  "lex_string [] = None"
| "lex_string (c # s) =
     (if c = 0x22 then Some ([], s)
      else if c < 0x20 then None
      else if c \<noteq> 0x5C then map_option (\<lambda>(v, r). (c # v, r)) (lex_string s)
      else (case s of
              [] \<Rightarrow> None
            | e # s1 \<Rightarrow>
                if e \<noteq> 117 then
                  (case unescape e of None \<Rightarrow> None | Some u \<Rightarrow> map_option (\<lambda>(v, r). (u # v, r)) (lex_string s1))
                else (case s1 of
                        w # x # y # z # s2 \<Rightarrow>
                          (case hex4_value w x y z of None \<Rightarrow> None
                           | Some u \<Rightarrow> map_option (\<lambda>(v, r). (u # v, r)) (lex_string s2))
                      | _ \<Rightarrow> None)))"

declare lex_string.simps(2) [simp del]

text \<open>The literals of numbers.\<close>

definition number_char :: "16 word \<Rightarrow> bool" where
  "number_char c \<longleftrightarrow> is_digit c \<or> c \<in> set [43, 45, 46, 69, 101]"

definition all_digits :: "ustring \<Rightarrow> bool" where
  "all_digits s \<longleftrightarrow> s \<noteq> [] \<and> list_all is_digit s"

definition exponent_ok :: "ustring \<Rightarrow> bool" where
  "exponent_ok s =
     (case s of [] \<Rightarrow> True
      | e # r \<Rightarrow> (e = 69 \<or> e = 101) \<and> (case r of [] \<Rightarrow> False | g # q \<Rightarrow> if g = 43 \<or> g = 45 then all_digits q else all_digits r))"

definition number_ok :: "ustring \<Rightarrow> bool" where
  "number_ok s =
     (let u = (case s of [] \<Rightarrow> [] | c # r \<Rightarrow> if c = 45 then r else s);
          i = takeWhile is_digit u; t = dropWhile is_digit u
      in i \<noteq> [] \<and> (hd i = 48 \<longrightarrow> length i = 1) \<and>
         (case t of [] \<Rightarrow> True
          | c # r \<Rightarrow> if c = 46 then takeWhile is_digit r \<noteq> [] \<and> exponent_ok (dropWhile is_digit r) else exponent_ok t))"

datatype token = LBrace | RBrace | LBrack | RBrack | Colon | Comma | TVal jvalue

definition punctuation :: "16 word \<Rightarrow> token option" where
  "punctuation c = map_of [(0x7B, LBrace), (0x7D, RBrace), (0x5B, LBrack), (0x5D, RBrack), (0x3A, Colon), (0x2C, Comma)] c"

definition json_words :: "(ustring \<times> jvalue) list" where
  "json_words = [(ustr ''null'', JvNull), (ustr ''true'', JvBool True), (ustr ''false'', JvBool False)]"

definition lex_keyword :: "ustring \<Rightarrow> (jvalue \<times> ustring) option" where
  "lex_keyword s =
     map_option (\<lambda>(k, v). (v, drop (length k) s)) (find (\<lambda>(k, v). take (length k) s = k) json_words)"

lemma lex_string_length: "lex_string s = Some (v, r) \<Longrightarrow> length r < length s"
  by (induction s arbitrary: v r rule: lex_string.induct)
    (auto simp: lex_string.simps(2) split: if_splits list.splits option.splits, (fastforce)+)

lemma lex_keyword_length: "lex_keyword s = Some (v, r) \<Longrightarrow> length r < length s"
  by (auto simp: lex_keyword_def json_words_def ustr_def take_Cons' split: if_splits) (cases s; simp)+

function json_lex :: "(ustring \<Rightarrow> jvalue) \<Rightarrow> ustring \<Rightarrow> token list option" where
  "json_lex rd [] = Some []"
| "json_lex rd (c # s) =
     (if json_space c then json_lex rd s
      else case punctuation c of
        Some t \<Rightarrow> map_option (Cons t) (json_lex rd s)
      | None \<Rightarrow>
          if c = 0x22 then
            (case lex_string s of None \<Rightarrow> None | Some (v, r) \<Rightarrow> map_option (Cons (TVal (JvStr v))) (json_lex rd r))
          else if c = 45 \<or> is_digit c then
            (let n = c # takeWhile number_char s
             in if number_ok n then map_option (Cons (TVal (rd n))) (json_lex rd (dropWhile number_char s)) else None)
          else (case lex_keyword (c # s) of None \<Rightarrow> None | Some (v, r) \<Rightarrow> map_option (Cons (TVal v)) (json_lex rd r)))"
  by pat_completeness auto

termination json_lex
  by (relation "measure (\<lambda>(_, s). length s)")
    (auto dest: lex_string_length lex_keyword_length simp: length_dropWhile_le less_Suc_eq_le)

declare json_lex.simps(2) [simp del]

section \<open>The parser\<close>

text \<open>Properties whose names are array indexes come first in an object, in ascending order; the others are in insertion order.\<close>

definition key_index :: "ustring \<Rightarrow> nat option" where
  "key_index k =
     (let n = foldl (\<lambda>a c. a * 10 + (unat c - 48)) 0 k in if n < 4294967295 \<and> nat_text n = k then Some n else None)"

definition js_order :: "jobject \<Rightarrow> jobject" where
  "js_order fs =
     sort_key (\<lambda>f. the (key_index (fst f))) (filter (\<lambda>f. key_index (fst f) \<noteq> None) fs) @ filter (\<lambda>f. key_index (fst f) = None) fs"

datatype pframe = InArr "jvalue list" | InObj jobject | InKey jobject ustring

datatype pmode = Want | WantOrEnd | WantKey | WantKeyOrEnd | WantColon | After | Done jvalue

type_synonym pstate = "pframe list \<times> pmode"

definition deliver :: "jvalue \<Rightarrow> pframe list \<Rightarrow> pstate option" where
  "deliver v st =
     (case st of [] \<Rightarrow> Some ([], Done v)
      | InArr xs # fr \<Rightarrow> Some (InArr (xs @ [v]) # fr, After)
      | InKey ob k # fr \<Rightarrow> Some (InObj (jm_set k v ob) # fr, After)
      | InObj ob # fr \<Rightarrow> None)"

definition start_value :: "token \<Rightarrow> pframe list \<Rightarrow> pstate option" where
  "start_value t st =
     (case t of LBrack \<Rightarrow> Some (InArr [] # st, WantOrEnd) | LBrace \<Rightarrow> Some (InObj [] # st, WantKeyOrEnd)
      | TVal v \<Rightarrow> deliver v st | _ \<Rightarrow> None)"

definition start_key :: "token \<Rightarrow> pframe list \<Rightarrow> pstate option" where
  "start_key t st = (case (t, st) of (TVal (JvStr k), InObj ob # fr) \<Rightarrow> Some (InKey ob k # fr, WantColon) | _ \<Rightarrow> None)"

definition close :: "token \<Rightarrow> pframe list \<Rightarrow> pstate option" where
  "close t st =
     (case (t, st) of (RBrack, InArr xs # fr) \<Rightarrow> deliver (JvArr xs) fr
      | (RBrace, InObj ob # fr) \<Rightarrow> deliver (JvObj (js_order ob)) fr | _ \<Rightarrow> None)"

fun pstep :: "token \<Rightarrow> pstate \<Rightarrow> pstate option" where
  "pstep t (st, Want) = start_value t st"
| "pstep t (st, WantOrEnd) = (if t = RBrack then close t st else start_value t st)"
| "pstep t (st, WantKey) = start_key t st"
| "pstep t (st, WantKeyOrEnd) = (if t = RBrace then close t st else start_key t st)"
| "pstep t (st, WantColon) = (if t = Colon then Some (st, Want) else None)"
| "pstep t (st, After) =
     (if t = Comma then (case st of InArr xs # fr \<Rightarrow> Some (st, Want) | InObj ob # fr \<Rightarrow> Some (st, WantKey) | _ \<Rightarrow> None)
      else close t st)"
| "pstep t (st, Done v) = None"

fun prun :: "token list \<Rightarrow> pstate \<Rightarrow> pstate option" where
  "prun [] s = Some s"
| "prun (t # ts) s = Option.bind (pstep t s) (prun ts)"

definition JSON_parse :: "(ustring \<Rightarrow> jvalue) \<Rightarrow> ustring \<Rightarrow> jvalue option" where
  "JSON_parse rd s =
     (case json_lex rd s of None \<Rightarrow> None
      | Some ts \<Rightarrow> (case prun ts ([], Want) of Some ([], Done v) \<Rightarrow> Some v | _ \<Rightarrow> None))"

section \<open>Parsing undoes printing\<close>

text \<open>The values \<^verbatim>\<open>JSON.parse\<close> yields, without the infinite numbers, which are printed as null.\<close>

fun jv_ok :: "jvalue \<Rightarrow> bool" where
  "jv_ok (JvInf b) = False"
| "jv_ok (JvArr xs) = (\<forall>x \<in> set xs. jv_ok x)"
| "jv_ok (JvObj fs) = (jm_wf fs \<and> js_order fs = fs \<and> (\<forall>f \<in> set fs. jv_ok (snd f)))"
| "jv_ok _ = True"

text \<open>What is assumed of numbers: the text printed for one is a JSON number that reads back as it.\<close>

definition number_format :: "(rat \<Rightarrow> ustring) \<Rightarrow> (ustring \<Rightarrow> jvalue) \<Rightarrow> bool" where
  "number_format num rd \<longleftrightarrow> (\<forall>x. number_ok (num x) \<and> rd (num x) = JvNum x)"

fun join_toks :: "token list list \<Rightarrow> token list" where
  "join_toks [] = []"
| "join_toks [t] = t"
| "join_toks (t # u # ts) = t @ Comma # join_toks (u # ts)"

fun toks :: "jvalue \<Rightarrow> token list" where
  "toks (JvArr xs) = LBrack # join_toks (map toks xs) @ [RBrack]"
| "toks (JvObj fs) = LBrace # join_toks (map (\<lambda>(k, v). TVal (JvStr k) # Colon # toks v) fs) @ [RBrace]"
| "toks v = [TVal v]"

lemma bind_prun_nil [simp]: "Option.bind x (prun []) = x"
  by (cases x) simp_all

lemma prun_append: "prun (ts @ us) s = Option.bind (prun ts s) (prun us)"
  by (induction ts arbitrary: s) (auto split: bind_splits)

lemma prun_elements:
  assumes v: "\<And>x st m. x \<in> set xs \<Longrightarrow> m = Want \<or> m = WantOrEnd \<Longrightarrow> prun (toks x) (st, m) = deliver x st"
    and m: "m = Want \<or> m = WantOrEnd" and "xs \<noteq> []"
  shows "prun (join_toks (map toks xs) @ [RBrack]) (InArr ys # st, m) = deliver (JvArr (ys @ xs)) st"
  using assms
proof (induction xs arbitrary: ys m rule: induct_list012)
  case (2 x)
  then show ?case by (simp add: prun_append deliver_def[of x] close_def)
next
  case (3 x y zs)
  have "prun (toks x) (InArr ys # st, m) = Some (InArr (ys @ [x]) # st, After)" using 3 by (simp add: deliver_def)
  then show ?case using 3(2)[of Want "ys @ [x]"] 3(3) by (simp add: prun_append)
qed simp

lemma prun_fields:
  assumes v: "\<And>f st m. f \<in> set fs \<Longrightarrow> m = Want \<or> m = WantOrEnd \<Longrightarrow> prun (toks (snd f)) (st, m) = deliver (snd f) st"
    and m: "m = WantKey \<or> m = WantKeyOrEnd" and "fs \<noteq> []" and "jm_wf (gs @ fs)"
  shows "prun (join_toks (map (\<lambda>(k, v). TVal (JvStr k) # Colon # toks v) fs) @ [RBrace]) (InObj gs # st, m) =
    deliver (JvObj (js_order (gs @ fs))) st"
  using assms
proof (induction fs arbitrary: gs m rule: induct_list012)
  case (2 f)
  obtain k v where f: "f = (k, v)" by fastforce
  have "jm_set k v gs = gs @ [f]" using 2(4) f by (intro jm_set_fresh[of gs k v, unfolded f[symmetric]]) (auto simp: jm_wf_def jm_get_def map_of_eq_None_iff)
  then show ?case using 2 f by (auto simp: prun_append deliver_def[of v] close_def start_key_def)
next
  case (3 f g hs)
  obtain k v where f: "f = (k, v)" by fastforce
  have "jm_set k v gs = gs @ [f]" using 3(6) f by (intro jm_set_fresh[of gs k v, unfolded f[symmetric]]) (auto simp: jm_wf_def jm_get_def map_of_eq_None_iff)
  then have "prun (TVal (JvStr k) # Colon # toks v) (InObj gs # st, m) = Some (InObj (gs @ [f]) # st, After)"
    using 3(3)[of f] 3(4) f by (auto simp: start_key_def deliver_def)
  moreover have "prun (join_toks (map (\<lambda>(k, v). TVal (JvStr k) # Colon # toks v) (f # g # hs)) @ [RBrace]) (InObj gs # st, m) =
      Option.bind (prun (TVal (JvStr k) # Colon # toks v) (InObj gs # st, m))
        (prun (Comma # join_toks (map (\<lambda>(k, v). TVal (JvStr k) # Colon # toks v) (g # hs)) @ [RBrace]))"
    by (subst prun_append[symmetric]) (simp add: f)
  ultimately show ?case using 3(2)[of WantKey "gs @ [f]"] 3(3,6) by simp
qed simp

lemma prun_toks: "jv_ok v \<Longrightarrow> m = Want \<or> m = WantOrEnd \<Longrightarrow> prun (toks v) (st, m) = deliver v st"
proof (induction v arbitrary: st m rule: toks.induct)
  case (1 xs)
  then show ?case
    by (cases "xs = []") (auto simp: start_value_def close_def prun_elements[of xs WantOrEnd "[]", simplified])
next
  case (2 fs)
  have f: "prun (toks (snd f)) (st, m) = deliver (snd f) st" if "f \<in> set fs" "m = Want \<or> m = WantOrEnd" for f st m
    using 2(1)[of f "fst f" "snd f"] 2(2) that by simp
  show ?case using 2(2,3) prun_fields[of fs WantKeyOrEnd "[]", OF f]
    by (cases "fs = []") (auto simp: start_value_def close_def)
qed (auto simp: start_value_def)

lemma hex_value_digit: "n < 16 \<Longrightarrow> hex_value (hex_digit n) = Some n"
  unfolding hex_value_def hex_digit_def by (subst unat16) (auto simp: Let_def)

lemma hex4_roundtrip: "hex4 c = [w, x, y, z] \<Longrightarrow> hex4_value w x y z = Some c"
proof -
  have "unat c = unat c div 4096 * 4096 + unat c div 256 mod 16 * 256 + unat c div 16 mod 16 * 16 + unat c mod 16"
  proof -
    have "unat c div 16 div 16 = unat c div 256" "unat c div 256 div 16 = unat c div 4096" by (simp_all add: div_mult2_eq[symmetric])
    then show ?thesis
      using div_mult_mod_eq[of "unat c" 16] div_mult_mod_eq[of "unat c div 16" 16] div_mult_mod_eq[of "unat c div 256" 16] by linarith
  qed
  moreover have "unat c div 4096 < 16" using unat16_less[of c] by auto
  ultimately show "hex4 c = [w, x, y, z] \<Longrightarrow> hex4_value w x y z = Some c"
    by (auto simp: hex4_def hex4_value_def hex_value_digit simp del: of_nat_add of_nat_mult)
qed

lemma ustr_Cons: "ustr (c # s) = of_nat (of_char c) # ustr s" "ustr [] = []"
  by (simp_all add: ustr_def)

lemma lex_escape_unit:
  "lex_string (escape_unit c @ t) = map_option (\<lambda>(v, r). (c # v, r)) (lex_string t)"
proof -
  obtain w x y z where h: "hex4 c = [w, x, y, z]" by (simp add: hex4_def)
  have "c < 32 \<longleftrightarrow> unat c < 32" by (simp add: word_less_nat_alt)
  then show ?thesis using hex4_roundtrip[OF h] h
    by (auto simp: escape_unit_def lex_string.simps(2) unescape_def ustr_Cons)
qed

lemma surrogate_plain:
  assumes "high_surrogate c \<or> low_surrogate c"
  shows "c \<noteq> 0x22" "c \<noteq> 0x5C" "\<not> c < 0x20"
  using assms by (auto simp: surrogate_unat word_less_nat_alt)

lemma lex_string_escape: "lex_string (json_escape s @ 0x22 # r) = Some (s, r)"
  by (induction s rule: json_escape.induct) (auto simp: lex_escape_unit lex_string.simps(2) surrogate_plain)

lemma number_ok_chars: "number_ok s \<Longrightarrow> s \<noteq> [] \<and> list_all number_char s \<and> (hd s = 45 \<or> is_digit (hd s))"
proof -
  assume ok: "number_ok s"
  have ex: "list_all number_char t" if "exponent_ok t" for t
    using that by (auto simp: exponent_ok_def number_char_def all_digits_def list_all_iff split: list.splits if_splits)
  define u where "u = (case s of [] \<Rightarrow> [] | c # r \<Rightarrow> if c = 45 then r else s)"
  have tw: "list_all number_char (takeWhile is_digit q)" for q
    by (auto simp: list_all_iff number_char_def dest: set_takeWhileD)
  have q: "list_all number_char q" if "list_all number_char (dropWhile is_digit q)" for q
    using that tw[of q] takeWhile_dropWhile_id[of is_digit q] by (metis list_all_append)
  have "list_all number_char (dropWhile is_digit u)"
  proof (cases "dropWhile is_digit u")
    case Nil
    show ?thesis unfolding Nil by simp
  next
    case (Cons c r)
    have "if c = 46 then exponent_ok (dropWhile is_digit r) else exponent_ok (c # r)"
      using ok Cons unfolding number_ok_def Let_def u_def[symmetric] by (auto split: if_splits)
    then show ?thesis using ex[of "c # r"] ex[of "dropWhile is_digit r"] q[of r] by (auto simp: Cons number_char_def split: if_splits)
  qed
  then have "list_all number_char u" by (rule q)
  moreover have "u \<noteq> [] \<and> is_digit (hd u)"
    using ok unfolding number_ok_def Let_def u_def[symmetric] by (cases u) (auto split: if_splits)
  ultimately show ?thesis unfolding u_def by (cases s) (auto simp: number_char_def split: if_splits)
qed

definition delimited :: "ustring \<Rightarrow> bool" where
  "delimited r \<longleftrightarrow> r = [] \<or> hd r = 0x2C \<or> hd r = 0x5D \<or> hd r = 0x7D"

lemma delimited_not_number: "delimited r \<Longrightarrow> takeWhile number_char r = [] \<and> dropWhile number_char r = r"
  by (cases r) (auto simp: delimited_def number_char_def is_digit_def)

lemma digit_plain: "c = 45 \<or> is_digit c \<Longrightarrow> \<not> json_space c \<and> punctuation c = None \<and> c \<noteq> 0x22"
  by (auto simp: is_digit_def json_space_def punctuation_def)

lemma lex_number:
  assumes "number_ok n" and "delimited r"
  shows "json_lex rd (n @ r) = map_option (Cons (TVal (rd n))) (json_lex rd r)"
proof -
  obtain c s where n: "n = c # s" "c = 45 \<or> is_digit c" "list_all number_char s"
    using number_ok_chars[OF assms(1)] by (cases n) auto
  have "takeWhile number_char (s @ r) = s" "dropWhile number_char (s @ r) = r"
    using n(3) delimited_not_number[OF assms(2)] by (auto simp: list_all_iff)
  then show ?thesis using n assms(1) digit_plain[OF n(2)] by (auto simp: json_lex.simps(2) Let_def)
qed

lemma lex_punct:
  "json_lex rd (0x7B # s) = map_option (Cons LBrace) (json_lex rd s)" "json_lex rd (0x7D # s) = map_option (Cons RBrace) (json_lex rd s)"
  "json_lex rd (0x5B # s) = map_option (Cons LBrack) (json_lex rd s)" "json_lex rd (0x5D # s) = map_option (Cons RBrack) (json_lex rd s)"
  "json_lex rd (0x3A # s) = map_option (Cons Colon) (json_lex rd s)" "json_lex rd (0x2C # s) = map_option (Cons Comma) (json_lex rd s)"
  by (simp_all add: json_lex.simps(2) json_space_def punctuation_def)

lemma lex_quote: "json_lex rd (json_quote s @ r) = map_option (Cons (TVal (JvStr s))) (json_lex rd r)"
  by (simp add: json_quote_def json_lex.simps(2) json_space_def punctuation_def lex_string_escape)

lemma lex_words:
  "json_lex rd (ustr ''null'' @ r) = map_option (Cons (TVal JvNull)) (json_lex rd r)"
  "json_lex rd (ustr ''true'' @ r) = map_option (Cons (TVal (JvBool True))) (json_lex rd r)"
  "json_lex rd (ustr ''false'' @ r) = map_option (Cons (TVal (JvBool False))) (json_lex rd r)"
  by (simp_all add: ustr_Cons json_lex.simps(2) json_space_def punctuation_def is_digit_def lex_keyword_def json_words_def)

lemma option_map_append: "map_option ((@) a) (map_option ((@) b) x) = map_option ((@) (a @ b)) x"
  by (cases x) simp_all

lemma map_option_Cons_append: "map_option (Cons t) (map_option ((@) b) x) = map_option ((@) (t # b)) x"
  by (cases x) simp_all

lemma lex_join:
  assumes "\<And>x r. x \<in> set xs \<Longrightarrow> delimited r \<Longrightarrow> json_lex rd (f x @ r) = map_option ((@) (g x)) (json_lex rd r)" and "delimited r"
  shows "json_lex rd (join_with COMMA (map f xs) @ r) = map_option ((@) (join_toks (map g xs))) (json_lex rd r)"
  using assms
proof (induction xs rule: induct_list012)
  case 1
  then show ?case by (simp add: option.map_ident)
next
  case (3 x y zs)
  have "json_lex rd (f x @ 0x2C # join_with COMMA (map f (y # zs)) @ r) =
      map_option ((@) (g x)) (map_option (Cons Comma) (json_lex rd (join_with COMMA (map f (y # zs)) @ r)))"
    using 3(3) by (simp add: delimited_def lex_punct)
  then show ?case using 3(2)[OF 3(3,4)] by (cases "json_lex rd r") (simp_all add: COMMA_def)
qed simp

lemma lex_text:
  assumes "number_format num rd"
  shows "jv_ok v \<Longrightarrow> delimited r \<Longrightarrow> json_lex rd (json_text num v @ r) = map_option ((@) (toks v)) (json_lex rd r)"
proof (induction v arbitrary: r rule: toks.induct)
  case (1 xs)
  have "json_lex rd (join_with COMMA (map (json_text num) xs) @ 0x5D # r) = map_option ((@) (join_toks (map toks xs))) (json_lex rd (0x5D # r))"
    using 1 by (intro lex_join) (auto simp: delimited_def)
  then show ?case by (simp add: lex_punct map_option_Cons_append option.map_comp comp_def)
next
  case (2 fs)
  have "json_lex rd (join_with COMMA (map (\<lambda>(k, v). json_quote k @ 0x3A # json_text num v) fs) @ 0x7D # r) =
      map_option ((@) (join_toks (map (\<lambda>(k, v). TVal (JvStr k) # Colon # toks v) fs))) (json_lex rd (0x7D # r))"
  proof (rule lex_join)
    fix f r assume f: "f \<in> set fs" "delimited r"
    obtain k v where kv: "f = (k, v)" by fastforce
    have "json_lex rd (json_text num v @ r) = map_option ((@) (toks v)) (json_lex rd r)"
    proof (rule 2(1)[OF f(1) kv[symmetric]])
      have "\<forall>g \<in> set fs. jv_ok (snd g)" using 2(2)[unfolded jv_ok.simps] by blast
      then show "jv_ok v" using f(1) kv by auto
    qed (fact f(2))
    then show "json_lex rd ((case f of (k, v) \<Rightarrow> json_quote k @ 0x3A # json_text num v) @ r) =
        map_option ((@) (case f of (k, v) \<Rightarrow> TVal (JvStr k) # Colon # toks v)) (json_lex rd r)"
      by (simp add: kv lex_quote lex_punct map_option_Cons_append)
  qed (simp add: delimited_def)
  then show ?case by (simp add: lex_punct map_option_Cons_append option.map_comp comp_def)
qed (use assms in \<open>auto simp: lex_words lex_quote lex_number number_format_def option.map_comp comp_def cong: map_option_cong\<close>)

theorem json_parse_text:
  assumes "number_format num rd" and "jv_ok v"
  shows "JSON_parse rd (json_text num v) = Some v"
proof -
  have "json_lex rd (json_text num v) = Some (toks v)" using lex_text[OF assms, of "[]"] by (simp add: delimited_def)
  moreover have "prun (toks v) ([], Want) = Some ([], Done v)" using prun_toks[OF assms(2), of Want "[]"] by (simp add: deliver_def)
  ultimately show ?thesis by (simp add: JSON_parse_def)
qed

lemma json_text_inj:
  assumes "number_format num rd" and "jv_ok v" and "jv_ok w" and "json_text num v = json_text num w"
  shows "v = w"
  using json_parse_text[OF assms(1,2)] json_parse_text[OF assms(1,3)] assms(4) by (metis option.inject)

text \<open>The text of a value has no lone surrogate, so the bytes sent for it decode to it.\<close>

lemma well_formed_append: "well_formed s \<Longrightarrow> well_formed t \<Longrightarrow> well_formed (s @ t)"
  by (induction s rule: well_formed.induct) (cases t; auto split: if_splits)+

lemma ascii_well_formed: "ascii s \<Longrightarrow> well_formed s"
  by (induction s rule: well_formed.induct) (auto simp: ascii_def ascii_not_surrogate)

lemma hex4_ascii: "ascii (hex4 c)"
proof -
  have "hex_digit n < 0x80" if "n < 16" for n
    using that unfolding hex_digit_def word_less_nat_alt by (subst unat16) auto
  moreover have "unat c div 4096 < 16" using unat16_less[of c] by auto
  ultimately show ?thesis by (simp add: hex4_def ascii_def)
qed

lemma escape_unit_well_formed: "well_formed (escape_unit c)"
  using hex4_ascii[of c]
  by (auto simp: escape_unit_def ustr_Cons intro!: ascii_well_formed simp: ascii_def ascii_not_surrogate)

lemma json_escape_well_formed: "well_formed (json_escape s)"
  by (induction s rule: json_escape.induct) (auto simp: escape_unit_well_formed well_formed_append)

lemma number_ascii: "number_ok s \<Longrightarrow> ascii s"
  using number_ok_chars[of s] by (auto simp: ascii_def list_all_iff number_char_def is_digit_def word_less_nat_alt)

lemma join_well_formed: "(\<And>t. t \<in> set ts \<Longrightarrow> well_formed t) \<Longrightarrow> well_formed (join_with COMMA ts)"
proof (induction COMMA ts rule: join_with.induct)
  case (3 t u ts)
  have "well_formed (COMMA @ join_with COMMA (u # ts))"
    using 3 by (intro well_formed_append) (auto simp: COMMA_def ascii_not_surrogate)
  then show ?case using 3(2)[of t] by (simp add: well_formed_append)
qed simp_all

lemma well_formed_bracket: "a < 0x80 \<Longrightarrow> b < 0x80 \<Longrightarrow> well_formed s \<Longrightarrow> well_formed (a # s @ [b])"
  using well_formed_append[of "[a]" "s @ [b]"] well_formed_append[of s "[b]"] by (simp add: ascii_not_surrogate)

lemma json_quote_well_formed: "well_formed (json_quote s)"
  unfolding json_quote_def by (rule well_formed_bracket) (auto simp: json_escape_well_formed)

lemma ustr_ascii:
  "ascii (ustr ''null'')" "ascii (ustr ''true'')" "ascii (ustr ''false'')"
  by (simp_all add: ascii_def ustr_Cons)

lemma json_text_well_formed:
  assumes "\<And>x. ascii (num x)"
  shows "well_formed (json_text num v)"
  using assms
proof (induction num v rule: json_text.induct)
  case (6 num xs)
  then show ?case by (auto intro!: well_formed_bracket join_well_formed)
next
  case (7 num fs)
  have "well_formed (json_quote k @ 0x3A # json_text num v)" if "(k, v) \<in> set fs" for k v
    using well_formed_append[OF json_quote_well_formed, of "0x3A # json_text num v" k]
      well_formed_append[of "[0x3A]" "json_text num v"] 7 that by (auto simp: ascii_not_surrogate)
  then show ?case by (auto intro!: well_formed_bracket join_well_formed)
qed (auto intro: ascii_well_formed simp: json_quote_well_formed ustr_ascii)

theorem json_bytes_roundtrip:
  assumes "number_format num rd" and "jv_ok v"
  shows "JSON_parse rd (utf8_decode (utf8_encode (json_text num v))) = Some v"
proof -
  have "well_formed (json_text num v)"
    using assms(1) by (intro json_text_well_formed number_ascii) (simp add: number_format_def)
  then show ?thesis using json_parse_text[OF assms] by (simp add: utf8_roundtrip)
qed

section \<open>An instance of the number format\<close>

text \<open>A printing of all rational numbers as JSON numbers that reads back: numerator and denominator around a decimal point. It shows that the
  assumption on numbers can be met.\<close>

definition digits_value :: "ustring \<Rightarrow> nat" where
  "digits_value s = foldl (\<lambda>a c. a * 10 + (unat c - 48)) 0 s"

definition fraction_text :: "rat \<Rightarrow> ustring" where
  "fraction_text x =
     (let (p, q) = quotient_of x in (if p < 0 then [45] else []) @ nat_text (nat \<bar>p\<bar>) @ [46] @ nat_text (nat q))"

definition fraction_read :: "ustring \<Rightarrow> jvalue" where
  "fraction_read s =
     (let neg = (s \<noteq> [] \<and> hd s = 45); u = (if neg then tl s else s);
          p = int (digits_value (takeWhile is_digit u)); q = int (digits_value (tl (dropWhile is_digit u)))
      in JvNum (of_int (if neg then - p else p) / of_int q))"

lemma digits_value_nat_text: "digits_value (nat_text n) = n"
proof (induction n rule: nat_text.induct)
  case (1 n)
  have u: "unat (of_nat (48 + n mod 10) :: 16 word) = 48 + n mod 10"
    using mod_less_divisor[of 10 n] by (intro unat16) linarith
  show ?case
  proof (cases "n < 10")
    case True
    then show ?thesis using u by (subst nat_text.simps) (simp add: digits_value_def del: of_nat_add)
  next
    case False
    then have "digits_value (nat_text (n div 10)) = n div 10" using 1 by simp
    then show ?thesis using False u
      by (subst nat_text.simps) (simp add: digits_value_def del: of_nat_add)
  qed
qed

lemma nat_text_digits: "list_all is_digit (nat_text n)"
proof (induction n rule: nat_text.induct)
  case (1 n)
  have "is_digit (of_nat (48 + n mod 10))" unfolding is_digit_def by (subst (1 2) unat16) (use mod_less_divisor[of 10 n] in linarith)+
  then show ?case using 1 by (subst nat_text.simps) simp
qed

lemma nat_text_not_nil [simp]: "nat_text n \<noteq> []"
  by (subst nat_text.simps) simp

lemma nat_text_no_leading_zero: "hd (nat_text n) = 48 \<Longrightarrow> length (nat_text n) = 1"
proof (induction n rule: nat_text.induct)
  case (1 n)
  show ?case
  proof (cases "n < 10")
    case True
    then show ?thesis by (subst nat_text.simps) simp
  next
    case False
    have h: "hd (nat_text n) = hd (nat_text (n div 10))" using False by (subst nat_text.simps) simp
    then have "length (nat_text (n div 10)) = 1" using 1 False by simp
    then obtain d where d: "nat_text (n div 10) = [d]" by (auto simp: length_Suc_conv)
    then have "digits_value (nat_text (n div 10)) = 0" using h 1(2) by (simp add: digits_value_def)
    then show ?thesis using False by (simp add: digits_value_nat_text)
  qed
qed

lemma takeWhile_digits: "takeWhile is_digit (nat_text n @ 46 # r) = nat_text n" "dropWhile is_digit (nat_text n @ 46 # r) = 46 # r"
  using nat_text_digits[of n] by (auto simp: list_all_iff is_digit_def)

lemma nat_text_head: "hd (nat_text n @ r) \<noteq> 45"
  using nat_text_digits[of n] by (cases "nat_text n") (auto simp: is_digit_def)

lemma number_ok_fraction:
  assumes "pre = [] \<or> pre = [45]"
  shows "number_ok (pre @ nat_text m @ 46 # nat_text k)"
proof -
  have strip: "(case pre @ nat_text m @ 46 # nat_text k of [] \<Rightarrow> [] | c # r \<Rightarrow> if c = 45 then r else pre @ nat_text m @ 46 # nat_text k) =
      nat_text m @ 46 # nat_text k"
    using assms nat_text_head[of m "46 # nat_text k"] by (cases "nat_text m") auto
  have k: "takeWhile is_digit (nat_text k) = nat_text k" "dropWhile is_digit (nat_text k) = []"
    using nat_text_digits[of k] by (auto simp: list_all_iff)
  show ?thesis unfolding number_ok_def Let_def strip takeWhile_digits list.case
    using nat_text_no_leading_zero[of m] by (simp add: k exponent_ok_def del: takeWhile_eq_Nil_iff)
qed

lemma fraction_text_read: "fraction_read (fraction_text x) = JvNum x"
proof -
  obtain p q where x: "quotient_of x = (p, q)" by fastforce
  have q: "0 < q" "x = of_int p / of_int q" using x quotient_of_denom_pos quotient_of_div by auto
  let ?u = "nat_text (nat \<bar>p\<bar>) @ 46 # nat_text (nat q)"
  have r: "int (digits_value (takeWhile is_digit ?u)) = \<bar>p\<bar>" "int (digits_value (tl (dropWhile is_digit ?u))) = q"
    using q(1) by (simp_all add: takeWhile_digits digits_value_nat_text)
  show ?thesis
  proof (cases "p < 0")
    case True
    then have t: "fraction_text x = 45 # ?u" by (simp add: fraction_text_def x)
    have "fraction_read (45 # ?u) = JvNum (of_int (- \<bar>p\<bar>) / of_int q)"
      unfolding fraction_read_def Let_def using r by simp
    then show ?thesis unfolding t using True q(2) by simp
  next
    case False
    then have t: "fraction_text x = ?u" by (simp add: fraction_text_def x)
    have "fraction_read ?u = JvNum (of_int \<bar>p\<bar> / of_int q)"
      unfolding fraction_read_def Let_def using r nat_text_head[of "nat \<bar>p\<bar>" "46 # nat_text (nat q)"] by simp
    then show ?thesis unfolding t using False q(2) by simp
  qed
qed

lemma number_format_fraction: "number_format fraction_text fraction_read"
  using number_ok_fraction by (auto simp: number_format_def fraction_text_read) (simp add: fraction_text_def split: prod.split)

end
