(* ===== verification/Payload_Frame.thy ===== *)
theory Payload_Frame
  imports Json_Parse
begin

text \<open>
  The payload frame codec: \<^verbatim>\<open>shared/utils/payload_frame.ts\<close> and \<^verbatim>\<open>payload_frame_adaptive_compression.ts\<close>.

  Every message between hub, agents and consumers travels as the JSON text of a value, possibly compressed and possibly signed,
  inside an envelope. zlib, HMAC, SHA-256, lenient Base64 decoding and the conversion of numbers are a record of parameters (\<open>frame_lib\<close>);
  what the code relies on is \<open>zlib_ok\<close> and \<open>number_format\<close>. The module keeps two caches, which are its state: canonical
  signature inputs, and the event and size classes for which compression did not pay. An asynchronous encoder sees the state
  other calls left while it waited for the thread pool.

  A value from the wire is an object whose fields are JSON values or binary attachments (\<open>WObj\<close>) or anything else (\<open>WOther\<close>).
\<close>

section \<open>Parameters, options and state\<close>

datatype gunzip_result = Inflated bytes | TooLarge | Corrupt

record frame_lib =
  gzip :: "int option \<Rightarrow> bytes \<Rightarrow> bytes"
  gunzip :: "int option \<Rightarrow> bytes \<Rightarrow> gunzip_result"
  hmac_sha256 :: "ustring \<Rightarrow> bytes \<Rightarrow> bytes"
  sha256_hex :: "bytes \<Rightarrow> ustring"
  from_base64 :: "ustring \<Rightarrow> bytes"
  num_text :: "rat \<Rightarrow> ustring"
  num_read :: "ustring \<Rightarrow> jvalue"

text \<open>What \<^verbatim>\<open>gzip\<close> and \<^verbatim>\<open>gunzip\<close> promise: decompression undoes compression, with an output limit exactly when the
  output fits.\<close>

definition zlib_ok :: "frame_lib \<Rightarrow> bool" where
  "zlib_ok lib \<longleftrightarrow> (\<forall>level b. gunzip lib None (gzip lib level b) = Inflated b) \<and>
     (\<forall>cap z b. gunzip lib (Some cap) z = Inflated b \<longleftrightarrow> gunzip lib None z = Inflated b \<and> int (length b) \<le> cap)"

record frame_env =
  payloadFrameCompressMinBytes :: int
  payloadFrameMaxGzipInputBytes :: int
  payloadFrameGzipLevel :: "int option"
  payloadFrameAutoGzipMinSavingsBytes :: int
  payloadFrameAsyncGzipMinUtf8Bytes :: int
  payloadFrameAsyncGunzipMinCompressedBytes :: int
  payloadSignOutbound :: bool
  payloadSigningKey :: "ustring option"
  payloadSigningKeyId :: "ustring option"
  payloadSigningPreviousKeys :: "(ustring, ustring) jsmap"

text \<open>A threshold is a number of bytes or \<^verbatim>\<open>Number.POSITIVE_INFINITY\<close>.\<close>

datatype limit = Bytes int | PositiveInfinity

datatype policy = Auto | AlwaysGzip

record encode_options =
  compressionThreshold :: "limit option"
  compressionPolicy :: "policy option"
  maxInflationRatio :: "rat option"
  maxGzipInputBytes :: "int option"
  compressionCacheEvent :: "ustring option"
  opt_requestId :: "ustring option"
  opt_traceId :: "ustring option"
  omitTraceId :: bool
  asyncGzipMinUtf8Bytes :: "int option"

definition default_encode_options :: encode_options where
  "default_encode_options = \<lparr>compressionThreshold = None, compressionPolicy = None, maxInflationRatio = None, maxGzipInputBytes = None,
     compressionCacheEvent = None, opt_requestId = None, opt_traceId = None, omitTraceId = False, asyncGzipMinUtf8Bytes = None\<rparr>"

datatype key_kind = ActiveKey | PreviousKey | SingleKey

datatype signature_reject = UnknownKeyId | MissingKeyId | NoKeyConfigured | InvalidBlock | UnsupportedAlg | EmptyValue | InvalidSignature

datatype sig_note = SigAccepted key_kind | SigRejected signature_reject

record frame_state =
  signatureInputCanonicalCache :: "(ustring, bytes) jsmap"
  incompressibleUntil :: "(ustring, int) jsmap"
  signatureNotes :: "sig_note list"

definition fresh_frame_state :: frame_state where
  "fresh_frame_state = \<lparr>signatureInputCanonicalCache = [], incompressibleUntil = [], signatureNotes = []\<rparr>"

text \<open>\<^verbatim>\<open>Result\<close>, or an exception that leaves the codec.\<close>

datatype 'a fres = FOk 'a | FErr string | FThrow

section \<open>The negative cache of automatic compression\<close>

definition ADAPTIVE_COMPRESSION_SKIP_TTL_MS :: int where "ADAPTIVE_COMPRESSION_SKIP_TTL_MS = 30000"

definition ADAPTIVE_COMPRESSION_CACHE_MAX_ENTRIES :: int where "ADAPTIVE_COMPRESSION_CACHE_MAX_ENTRIES = 64"

function halvings :: "int \<Rightarrow> nat \<Rightarrow> nat" where
  "halvings v tier = (if v > 1 then halvings (v div 2) (tier + 1) else tier)"
  by pat_completeness auto

termination halvings
  by (relation "measure (\<lambda>(v, _). nat v)") auto

declare halvings.simps [simp del]

definition sizeTier :: "int \<Rightarrow> nat" where
  "sizeTier originalSize = halvings (if originalSize < 1 then 1 else originalSize) 0"

definition cacheKey :: "ustring option \<Rightarrow> int \<Rightarrow> ustring" where
  "cacheKey eventName originalSize =
     (let event = (case eventName of None \<Rightarrow> ustr ''frame'' | Some e \<Rightarrow> if u_trim e = [] then ustr ''frame'' else e)
      in event @ [0x3A] @ nat_text (sizeTier originalSize))"

function trim_oldest :: "(ustring, int) jsmap \<Rightarrow> (ustring, int) jsmap" where
  "trim_oldest m =
     (if jm_size m > ADAPTIVE_COMPRESSION_CACHE_MAX_ENTRIES
      then (case m of [] \<Rightarrow> m | (oldest, u) # rest \<Rightarrow> trim_oldest (jm_del oldest m)) else m)"
  by pat_completeness auto

lemma jm_del_head_shorter: "length (jm_del a ((a, b) # m)) < length ((a, b) # m)"
  by (simp add: jm_del_def less_Suc_eq_le) (induction m, auto)

termination trim_oldest
  using jm_del_head_shorter by (relation "measure length") auto

declare trim_oldest.simps [simp del]

definition frame_touch :: "ustring \<Rightarrow> int \<Rightarrow> (ustring, int) jsmap \<Rightarrow> (ustring, int) jsmap" where
  "frame_touch key until m = trim_oldest (jm_set key until (jm_del key m))"

definition shouldSkipAutoGzip :: "ustring option \<Rightarrow> int \<Rightarrow> int \<Rightarrow> frame_state \<Rightarrow> bool \<times> frame_state" where
  "shouldSkipAutoGzip eventName originalSize nowMs st =
     (let key = cacheKey eventName originalSize in
      case jm_get (incompressibleUntil st) key of
        None \<Rightarrow> (False, st)
      | Some until \<Rightarrow>
          if until \<le> nowMs then (False, st\<lparr>incompressibleUntil := jm_del key (incompressibleUntil st)\<rparr>)
          else (True, st\<lparr>incompressibleUntil := frame_touch key until (incompressibleUntil st)\<rparr>))"

definition recordAutoGzipAttempt :: "ustring option \<Rightarrow> int \<Rightarrow> bool \<Rightarrow> int \<Rightarrow> frame_state \<Rightarrow> frame_state" where
  "recordAutoGzipAttempt eventName originalSize reduced nowMs st =
     (let key = cacheKey eventName originalSize in
      if reduced then st\<lparr>incompressibleUntil := jm_del key (incompressibleUntil st)\<rparr>
      else st\<lparr>incompressibleUntil := frame_touch key (nowMs + ADAPTIVE_COMPRESSION_SKIP_TTL_MS) (incompressibleUntil st)\<rparr>)"

definition resetAdaptiveCompressionCache :: "frame_state \<Rightarrow> frame_state" where
  "resetAdaptiveCompressionCache st = st\<lparr>incompressibleUntil := []\<rparr>"

section \<open>Envelopes\<close>

datatype cmp = CmpNone | CmpGzip

definition cmp_text :: "cmp \<Rightarrow> ustring" where
  "cmp_text c = ustr (case c of CmpNone \<Rightarrow> ''none'' | CmpGzip \<Rightarrow> ''gzip'')"

datatype wval = WJson jvalue | WBuffer bytes | WUint8 bytes

datatype wire = WObj "(ustring, wval) jsmap" | WOther

datatype req_id = IdAbsent | IdNull | IdStr ustring

record envelope =
  e_cmp :: cmp
  e_originalSize :: int
  e_compressedSize :: int
  e_payload :: wval
  e_traceId :: "ustring option"
  e_requestId :: req_id
  e_signature :: "jobject option"

record decoded_frame =
  d_frame :: envelope
  d_data :: jvalue
  d_decodedBytes :: bytes

record frame_body =
  b_originalSize :: int
  b_wireBytes :: bytes
  b_cmp :: cmp

definition defaultCompressionThreshold :: int where "defaultCompressionThreshold = 4096"

definition maxCompressedPayloadBytes :: int where "maxCompressedPayloadBytes = 10 * 1024 * 1024"

definition maxDecodedPayloadBytes :: int where "maxDecodedPayloadBytes = 10 * 1024 * 1024"

definition hubMaxInflationRatio :: int where "hubMaxInflationRatio = 10"

definition effectiveEncodeCompressionThreshold :: "frame_env \<Rightarrow> limit option \<Rightarrow> int \<Rightarrow> limit" where
  "effectiveEncodeCompressionThreshold env explicit serializedUtf8Length =
     (if explicit = Some PositiveInfinity then PositiveInfinity
      else let globalMin = payloadFrameCompressMinBytes env
           in if serializedUtf8Length < globalMin then PositiveInfinity
              else (case explicit of None \<Rightarrow> Bytes globalMin | Some l \<Rightarrow> l))"

datatype preference = PrefDefault | PrefNone | PrefAlways

definition payloadFrameEncodeOptionsFromPreference :: "preference option \<Rightarrow> encode_options" where
  "payloadFrameEncodeOptionsFromPreference preference =
     (if preference = None \<or> preference = Some PrefDefault then default_encode_options
      else if preference = Some PrefNone then default_encode_options\<lparr>compressionThreshold := Some PositiveInfinity\<rparr>
      else default_encode_options\<lparr>compressionThreshold := Some (Bytes 1), compressionPolicy := Some AlwaysGzip\<rparr>)"

definition exceedsMaxInflationRatio :: "int \<Rightarrow> int \<Rightarrow> rat \<Rightarrow> bool" where
  "exceedsMaxInflationRatio originalSize compressedSize ratioLimit \<longleftrightarrow>
     compressedSize > 0 \<and> of_int originalSize / of_int compressedSize > ratioLimit"

definition PAYLOAD_FRAME_ALLOWED_ROOT_KEYS :: "ustring list" where
  "PAYLOAD_FRAME_ALLOWED_ROOT_KEYS =
     map ustr [''schemaVersion'', ''enc'', ''cmp'', ''contentType'', ''originalSize'', ''compressedSize'', ''payload'', ''traceId'',
       ''requestId'', ''signature'']"

definition PAYLOAD_FRAME_SIGNATURE_KEYS :: "ustring list" where
  "PAYLOAD_FRAME_SIGNATURE_KEYS = map ustr [''alg'', ''value'', ''key_id'']"

definition isNonNegativeInteger :: "wval option \<Rightarrow> bool" where
  "isNonNegativeInteger v = (case v of Some (WJson (JvNum x)) \<Rightarrow> of_int \<lfloor>x\<rfloor> = x \<and> 0 \<le> x | _ \<Rightarrow> False)"

definition is_string :: "jvalue option \<Rightarrow> bool" where
  "is_string v = (case v of Some (JvStr s) \<Rightarrow> True | _ \<Rightarrow> False)"

definition isValidPayloadFrameSignatureBlock :: "wval \<Rightarrow> bool" where
  "isValidPayloadFrameSignatureBlock sig =
     (case sig of
        WJson (JvObj ob) \<Rightarrow>
          (\<forall>f \<in> set ob. fst f \<in> set PAYLOAD_FRAME_SIGNATURE_KEYS) \<and>
          jfield ob ''alg'' = Some (JvStr (ustr ''hmac-sha256'')) \<and> is_string (jfield ob ''value'') \<and>
          (jfield ob ''key_id'' = None \<or> is_string (jfield ob ''key_id''))
      | _ \<Rightarrow> False)"

definition wfield :: "(ustring, wval) jsmap \<Rightarrow> string \<Rightarrow> wval option" where
  "wfield c k = jm_get c (ustr k)"

definition isPayloadFrameEnvelope :: "wire \<Rightarrow> bool" where
  "isPayloadFrameEnvelope w =
     (case w of WOther \<Rightarrow> False
      | WObj c \<Rightarrow>
          (\<forall>f \<in> set c. fst f \<in> set PAYLOAD_FRAME_ALLOWED_ROOT_KEYS) \<and>
          wfield c ''schemaVersion'' = Some (WJson (JvStr (ustr ''1.0''))) \<and>
          wfield c ''enc'' = Some (WJson (JvStr (ustr ''json''))) \<and>
          (wfield c ''cmp'' = Some (WJson (JvStr (ustr ''none''))) \<or> wfield c ''cmp'' = Some (WJson (JvStr (ustr ''gzip'')))) \<and>
          wfield c ''contentType'' = Some (WJson (JvStr (ustr ''application/json''))) \<and>
          isNonNegativeInteger (wfield c ''originalSize'') \<and> isNonNegativeInteger (wfield c ''compressedSize'') \<and>
          wfield c ''payload'' \<noteq> None \<and>
          (case wfield c ''traceId'' of None \<Rightarrow> True | Some (WJson (JvStr s)) \<Rightarrow> True | _ \<Rightarrow> False) \<and>
          (case wfield c ''requestId'' of None \<Rightarrow> True | Some (WJson JvNull) \<Rightarrow> True | Some (WJson (JvStr s)) \<Rightarrow> True | _ \<Rightarrow> False) \<and>
          (case wfield c ''signature'' of None \<Rightarrow> True | Some s \<Rightarrow> isValidPayloadFrameSignatureBlock s))"

text \<open>The fields of a value that passed the check, and an envelope as the value that is sent.\<close>

definition wint :: "wval option \<Rightarrow> int" where
  "wint v = (case v of Some (WJson (JvNum x)) \<Rightarrow> \<lfloor>x\<rfloor> | _ \<Rightarrow> 0)"

definition read_envelope :: "wire \<Rightarrow> envelope" where
  "read_envelope w =
     (let c = (case w of WObj c \<Rightarrow> c | WOther \<Rightarrow> []) in
      \<lparr>e_cmp = (if wfield c ''cmp'' = Some (WJson (JvStr (ustr ''gzip''))) then CmpGzip else CmpNone),
       e_originalSize = wint (wfield c ''originalSize''), e_compressedSize = wint (wfield c ''compressedSize''),
       e_payload = (case wfield c ''payload'' of Some p \<Rightarrow> p | None \<Rightarrow> WJson JvNull),
       e_traceId = (case wfield c ''traceId'' of Some (WJson (JvStr s)) \<Rightarrow> Some s | _ \<Rightarrow> None),
       e_requestId = (case wfield c ''requestId'' of Some (WJson (JvStr s)) \<Rightarrow> IdStr s | Some (WJson JvNull) \<Rightarrow> IdNull | _ \<Rightarrow> IdAbsent),
       e_signature = (case wfield c ''signature'' of Some (WJson (JvObj ob)) \<Rightarrow> Some ob | _ \<Rightarrow> None)\<rparr>)"

definition to_wire :: "envelope \<Rightarrow> wire" where
  "to_wire e =
     WObj ([(ustr ''schemaVersion'', WJson (JvStr (ustr ''1.0''))), (ustr ''enc'', WJson (JvStr (ustr ''json''))),
        (ustr ''cmp'', WJson (JvStr (cmp_text (e_cmp e)))), (ustr ''contentType'', WJson (JvStr (ustr ''application/json''))),
        (ustr ''originalSize'', WJson (JvNum (of_int (e_originalSize e)))),
        (ustr ''compressedSize'', WJson (JvNum (of_int (e_compressedSize e)))), (ustr ''payload'', e_payload e)] @
       (case e_traceId e of None \<Rightarrow> [] | Some t \<Rightarrow> [(ustr ''traceId'', WJson (JvStr t))]) @
       (case e_requestId e of IdAbsent \<Rightarrow> [] | IdNull \<Rightarrow> [(ustr ''requestId'', WJson JvNull)]
        | IdStr r \<Rightarrow> [(ustr ''requestId'', WJson (JvStr r))]) @
       (case e_signature e of None \<Rightarrow> [] | Some ob \<Rightarrow> [(ustr ''signature'', WJson (JvObj ob))]))"

section \<open>Binary payloads\<close>

fun toBufferFromReadonlyNumberArray :: "jvalue list \<Rightarrow> bytes option" where
  "toBufferFromReadonlyNumberArray [] = Some []"
| "toBufferFromReadonlyNumberArray (v # vs) =
     (case v of
        JvNum x \<Rightarrow>
          if of_int \<lfloor>x\<rfloor> \<noteq> x \<or> x < 0 \<or> x > 255 then None
          else map_option (Cons (of_int \<lfloor>x\<rfloor>)) (toBufferFromReadonlyNumberArray vs)
      | _ \<Rightarrow> None)"

definition toBuffer :: "frame_lib \<Rightarrow> wval \<Rightarrow> bytes option" where
  "toBuffer lib payload =
     (case payload of
        WBuffer b \<Rightarrow> Some b
      | WUint8 b \<Rightarrow> Some b
      | WJson (JvArr vs) \<Rightarrow> toBufferFromReadonlyNumberArray vs
      | WJson (JvStr s) \<Rightarrow> Some (from_base64 lib s)
      | _ \<Rightarrow> None)"

section \<open>Signatures\<close>

record signature_envelope =
  sig_alg :: ustring
  sig_value :: ustring
  sig_key_id :: "ustring option"

definition toSignatureEnvelope :: "jobject \<Rightarrow> signature_envelope option" where
  "toSignatureEnvelope ob =
     (case (jfield ob ''alg'', jfield ob ''value'') of
        (Some (JvStr a), Some (JvStr v)) \<Rightarrow>
          (case jfield ob ''key_id'' of
             None \<Rightarrow> Some \<lparr>sig_alg = a, sig_value = v, sig_key_id = None\<rparr>
           | Some (JvStr k) \<Rightarrow> Some \<lparr>sig_alg = a, sig_value = v, sig_key_id = Some k\<rparr>
           | _ \<Rightarrow> None)
      | _ \<Rightarrow> None)"

definition SIGNATURE_INPUT_CACHE_MAX_ENTRIES :: int where "SIGNATURE_INPUT_CACHE_MAX_ENTRIES = 512"

definition SIGNATURE_INPUT_CACHE_MAX_PAYLOAD_BYTES :: int where "SIGNATURE_INPUT_CACHE_MAX_PAYLOAD_BYTES = 64 * 1024"

definition id_or_empty :: "req_id \<Rightarrow> ustring" where
  "id_or_empty r = (case r of IdStr s \<Rightarrow> s | _ \<Rightarrow> [])"

definition id_or_null :: "req_id \<Rightarrow> jvalue" where
  "id_or_null r = (case r of IdStr s \<Rightarrow> JvStr s | _ \<Rightarrow> JvNull)"

definition buildSignatureInputCacheKey :: "frame_lib \<Rightarrow> envelope \<Rightarrow> bytes \<Rightarrow> ustring" where
  "buildSignatureInputCacheKey lib e binaryPayload =
     (let payloadHash = sha256_hex lib binaryPayload in
      join_with [0x7C]
        [ustr ''1.0'', cmp_text (e_cmp e), num_text lib (of_int (e_originalSize e)), num_text lib (of_int (e_compressedSize e)),
         (case e_traceId e of None \<Rightarrow> [] | Some t \<Rightarrow> t), id_or_empty (e_requestId e), payloadHash])"

definition member_text :: "string \<Rightarrow> ustring \<Rightarrow> ustring" where
  "member_text k v = 0x22 # ustr k @ [0x22, 0x3A] @ v"

definition buildCanonicalSignatureFrame :: "frame_lib \<Rightarrow> envelope \<Rightarrow> bytes \<Rightarrow> ustring" where
  "buildCanonicalSignatureFrame lib e binaryPayload =
     [0x7B] @
     member_text ''cmp'' (json_text (num_text lib) (JvStr (cmp_text (e_cmp e)))) @ COMMA @
     member_text ''compressedSize'' (json_text (num_text lib) (JvNum (of_int (e_compressedSize e)))) @ COMMA @
     member_text ''contentType'' (json_text (num_text lib) (JvStr (ustr ''application/json''))) @ COMMA @
     member_text ''enc'' (json_text (num_text lib) (JvStr (ustr ''json''))) @ COMMA @
     member_text ''originalSize'' (json_text (num_text lib) (JvNum (of_int (e_originalSize e)))) @ COMMA @
     member_text ''payload'' ([0x22] @ base64 binaryPayload @ [0x22]) @ COMMA @
     member_text ''requestId'' (json_text (num_text lib) (id_or_null (e_requestId e))) @ COMMA @
     member_text ''schemaVersion'' (json_text (num_text lib) (JvStr (ustr ''1.0''))) @ COMMA @
     member_text ''traceId'' (json_text (num_text lib) (case e_traceId e of None \<Rightarrow> JvNull | Some t \<Rightarrow> JvStr t)) @
     [0x7D]"

definition buildSignatureInput :: "frame_lib \<Rightarrow> envelope \<Rightarrow> bytes \<Rightarrow> frame_state \<Rightarrow> bytes \<times> frame_state" where
  "buildSignatureInput lib e binaryPayload st =
     (if int (length binaryPayload) > SIGNATURE_INPUT_CACHE_MAX_PAYLOAD_BYTES
      then (utf8_encode (buildCanonicalSignatureFrame lib e binaryPayload), st)
      else let key = buildSignatureInputCacheKey lib e binaryPayload; cache = signatureInputCanonicalCache st in
        case jm_get cache key of
          Some cachedCanonical \<Rightarrow> (cachedCanonical, st)
        | None \<Rightarrow>
            let canonicalFrame = utf8_encode (buildCanonicalSignatureFrame lib e binaryPayload);
                room = (if jm_size cache \<ge> SIGNATURE_INPUT_CACHE_MAX_ENTRIES
                        then (case cache of [] \<Rightarrow> cache | (oldestKey, v) # rest \<Rightarrow> jm_del oldestKey cache) else cache)
            in (canonicalFrame, st\<lparr>signatureInputCanonicalCache := jm_set key canonicalFrame room\<rparr>))"

definition blank_opt :: "ustring option \<Rightarrow> bool" where
  "blank_opt s = (case s of None \<Rightarrow> True | Some t \<Rightarrow> u_trim t = [])"

definition signOutboundFrameIfConfigured :: "frame_env \<Rightarrow> frame_lib \<Rightarrow> envelope \<Rightarrow> bytes \<Rightarrow> frame_state \<Rightarrow> envelope \<times> frame_state" where
  "signOutboundFrameIfConfigured env lib e binaryPayload st =
     (case payloadSigningKey env of
        None \<Rightarrow> (e, st)
      | Some key \<Rightarrow>
          if \<not> payloadSignOutbound env \<or> u_trim key = [] then (e, st)
          else let (input, st1) = buildSignatureInput lib e binaryPayload st;
                   value = base64 (hmac_sha256 lib key input)
               in (e\<lparr>e_signature := Some
                     ([(ustr ''alg'', JvStr (ustr ''hmac-sha256'')), (ustr ''value'', JvStr value)] @
                      (case payloadSigningKeyId env of None \<Rightarrow> []
                       | Some i \<Rightarrow> if u_trim i \<noteq> [] then [(ustr ''key_id'', JvStr i)] else []))\<rparr>, st1))"

definition rejectSignature :: "string \<Rightarrow> signature_reject \<Rightarrow> frame_state \<Rightarrow> 'a fres \<times> frame_state" where
  "rejectSignature message reason st = (FErr message, st\<lparr>signatureNotes := signatureNotes st @ [SigRejected reason]\<rparr>)"

text \<open>The names every plain object inherits. Reading one of them from the record of previous keys gives a function or an object,
  which has no method \<^verbatim>\<open>trim\<close>.\<close>

definition Object_prototype :: "ustring list" where
  "Object_prototype = map ustr [''constructor'', ''__defineGetter__'', ''__defineSetter__'', ''hasOwnProperty'', ''__lookupGetter__'',
     ''__lookupSetter__'', ''isPrototypeOf'', ''propertyIsEnumerable'', ''toString'', ''valueOf'', ''__proto__'', ''toLocaleString'']"

definition resolveSignatureVerificationKey ::
  "frame_env \<Rightarrow> signature_envelope \<Rightarrow> frame_state \<Rightarrow> (ustring \<times> key_kind) fres \<times> frame_state" where
  "resolveSignatureVerificationKey env sg st =
     (let activeKey = (if blank_opt (payloadSigningKey env) then None else payloadSigningKey env);
          activeKeyId = (if blank_opt (payloadSigningKeyId env) then None else map_option u_trim (payloadSigningKeyId env));
          previousKeys = payloadSigningPreviousKeys env;
          hasPreviousKeys = (previousKeys \<noteq> [])
      in if \<not> blank_opt (sig_key_id sg) then
           (let keyId = u_trim (case sig_key_id sg of Some k \<Rightarrow> k | None \<Rightarrow> []) in
            if activeKey \<noteq> None \<and> activeKeyId \<noteq> None \<and> Some keyId = activeKeyId
            then (FOk (case activeKey of Some k \<Rightarrow> k | None \<Rightarrow> [], ActiveKey), st)
            else (case jm_get previousKeys keyId of
                    Some previousKey \<Rightarrow>
                      if u_trim previousKey \<noteq> [] then (FOk (previousKey, PreviousKey), st)
                      else rejectSignature ''PayloadFrame signature key_id is not recognized'' UnknownKeyId st
                  | None \<Rightarrow>
                      if keyId \<in> set Object_prototype then (FThrow, st)
                      else rejectSignature ''PayloadFrame signature key_id is not recognized'' UnknownKeyId st))
         else if activeKeyId \<noteq> None \<or> hasPreviousKeys then
           rejectSignature ''PayloadFrame signature is missing key_id but key rotation is configured'' MissingKeyId st
         else (case activeKey of
                 Some k \<Rightarrow> (FOk (k, SingleKey), st)
               | None \<Rightarrow> rejectSignature ''PayloadFrame signature provided but no signing key is configured'' NoKeyConfigured st))"

definition validateFrameSignature :: "frame_env \<Rightarrow> frame_lib \<Rightarrow> envelope \<Rightarrow> bytes \<Rightarrow> frame_state \<Rightarrow> unit fres \<times> frame_state" where
  "validateFrameSignature env lib e binaryPayload st =
     (case e_signature e of
        None \<Rightarrow> (FOk (), st)
      | Some ob \<Rightarrow>
          (case toSignatureEnvelope ob of
             None \<Rightarrow> rejectSignature ''PayloadFrame signature is invalid'' InvalidBlock st
           | Some sg \<Rightarrow>
               if sig_alg sg \<noteq> ustr ''hmac-sha256''
               then rejectSignature ''Unsupported PayloadFrame signature algorithm'' UnsupportedAlg st
               else (case resolveSignatureVerificationKey env sg st of
                       (FErr m, st1) \<Rightarrow> (FErr m, st1)
                     | (FThrow, st1) \<Rightarrow> (FThrow, st1)
                     | (FOk (secret, kind), st1) \<Rightarrow>
                         let (input, st2) = buildSignatureInput lib e binaryPayload st1;
                             expectedSignature = base64 (hmac_sha256 lib secret input);
                             providedSignature = u_trim (sig_value sg)
                         in if providedSignature = [] then rejectSignature ''PayloadFrame signature value is empty'' EmptyValue st2
                            else if utf8_encode expectedSignature \<noteq> utf8_encode providedSignature
                            then rejectSignature ''PayloadFrame signature verification failed'' InvalidSignature st2
                            else (FOk (), st2\<lparr>signatureNotes := signatureNotes st2 @ [SigAccepted kind]\<rparr>))))"

section \<open>Encoding\<close>

definition uncompressedBody :: "bytes \<Rightarrow> frame_body" where
  "uncompressedBody encoded = \<lparr>b_originalSize = int (length encoded), b_wireBytes = encoded, b_cmp = CmpNone\<rparr>"

definition finishAutoGzipBody ::
  "bytes \<Rightarrow> bytes \<Rightarrow> policy \<Rightarrow> rat \<Rightarrow> int \<Rightarrow> encode_options \<Rightarrow> int \<Rightarrow> frame_state \<Rightarrow> frame_body \<times> frame_state" where
  "finishAutoGzipBody encoded compressed policy inflationRatioLimit minSavingsBytes opts now st =
     (let inflationExceeded = exceedsMaxInflationRatio (int (length encoded)) (int (length compressed)) inflationRatioLimit;
          gzipped = \<lparr>b_originalSize = int (length encoded), b_wireBytes = compressed, b_cmp = CmpGzip\<rparr>
      in if policy = Auto then
           (let reduced = (\<not> inflationExceeded \<and> int (length encoded) - int (length compressed) \<ge> minSavingsBytes);
                st1 = recordAutoGzipAttempt (compressionCacheEvent opts) (int (length encoded)) reduced now st
            in (if \<not> reduced then uncompressedBody encoded else gzipped, st1))
         else if inflationExceeded then (uncompressedBody encoded, st)
         else (gzipped, st))"

definition nullish :: "'a option \<Rightarrow> 'a \<Rightarrow> 'a" where
  "nullish x d = (case x of None \<Rightarrow> d | Some y \<Rightarrow> y)"

definition below_threshold :: "int \<Rightarrow> limit \<Rightarrow> bool" where
  "below_threshold n t = (case t of Bytes b \<Rightarrow> n < b | PositiveInfinity \<Rightarrow> True)"

definition preencodeUtf8Buffer ::
  "frame_env \<Rightarrow> frame_lib \<Rightarrow> int \<times> int \<Rightarrow> bytes \<Rightarrow> encode_options \<Rightarrow> frame_state \<Rightarrow> frame_body \<times> frame_state" where
  "preencodeUtf8Buffer env lib now encoded opts st =
     (let threshold = nullish (compressionThreshold opts) (Bytes defaultCompressionThreshold);
          policy = nullish (compressionPolicy opts) Auto;
          maxGzip = nullish (maxGzipInputBytes opts) (payloadFrameMaxGzipInputBytes env);
          inflationRatioLimit = nullish (maxInflationRatio opts) (of_int hubMaxInflationRatio);
          belowThreshold = below_threshold (int (length encoded)) threshold;
          aboveMaxInput = (int (length encoded) > maxGzip)
      in if belowThreshold \<or> aboveMaxInput \<or> threshold = PositiveInfinity then (uncompressedBody encoded, st)
         else let (skip, st1) = (if policy = Auto then shouldSkipAutoGzip (compressionCacheEvent opts) (int (length encoded)) (fst now) st
                                 else (False, st))
              in if skip then (uncompressedBody encoded, st1)
                 else finishAutoGzipBody encoded (gzip lib (payloadFrameGzipLevel env) encoded) policy inflationRatioLimit
                        (payloadFrameAutoGzipMinSavingsBytes env) opts (snd now) st1)"

text \<open>While the thread pool compresses, other calls change the state: \<open>others\<close>.\<close>

definition preencodeUtf8BufferAsync ::
  "frame_env \<Rightarrow> frame_lib \<Rightarrow> int \<times> int \<Rightarrow> (frame_state \<Rightarrow> frame_state) \<Rightarrow> bytes \<Rightarrow> encode_options \<Rightarrow> frame_state \<Rightarrow> frame_body \<times> frame_state" where
  "preencodeUtf8BufferAsync env lib now others encoded opts st =
     (let threshold = nullish (compressionThreshold opts) (Bytes defaultCompressionThreshold);
          policy = nullish (compressionPolicy opts) Auto;
          maxGzip = nullish (maxGzipInputBytes opts) (payloadFrameMaxGzipInputBytes env);
          inflationRatioLimit = nullish (maxInflationRatio opts) (of_int hubMaxInflationRatio);
          belowThreshold = below_threshold (int (length encoded)) threshold;
          aboveMaxInput = (int (length encoded) > maxGzip)
      in if belowThreshold \<or> aboveMaxInput \<or> threshold = PositiveInfinity then (uncompressedBody encoded, st)
         else let (skip, st1) = (if policy = Auto then shouldSkipAutoGzip (compressionCacheEvent opts) (int (length encoded)) (fst now) st
                                 else (False, st))
              in if skip then (uncompressedBody encoded, st1)
                 else finishAutoGzipBody encoded (gzip lib (payloadFrameGzipLevel env) encoded) policy inflationRatioLimit
                        (payloadFrameAutoGzipMinSavingsBytes env) opts (snd now) (others st1))"

definition preencodePayloadFrameJson ::
  "frame_env \<Rightarrow> frame_lib \<Rightarrow> int \<times> int \<Rightarrow> jvalue \<Rightarrow> encode_options \<Rightarrow> frame_state \<Rightarrow> frame_body \<times> frame_state" where
  "preencodePayloadFrameJson env lib now data opts st =
     preencodeUtf8Buffer env lib now (utf8_encode (json_text (num_text lib) data)) opts st"

definition finishPayloadFrameEnvelope ::
  "frame_env \<Rightarrow> frame_lib \<Rightarrow> ustring \<Rightarrow> frame_body \<Rightarrow> encode_options \<Rightarrow> frame_state \<Rightarrow> envelope \<times> frame_state" where
  "finishPayloadFrameEnvelope env lib uuid body opts st =
     signOutboundFrameIfConfigured env lib
       \<lparr>e_cmp = b_cmp body, e_originalSize = b_originalSize body, e_compressedSize = int (length (b_wireBytes body)),
        e_payload = WBuffer (b_wireBytes body),
        e_traceId = (case opt_traceId opts of Some t \<Rightarrow> Some t | None \<Rightarrow> if omitTraceId opts then None else Some uuid),
        e_requestId = (case opt_requestId opts of None \<Rightarrow> IdAbsent | Some r \<Rightarrow> if r = [] then IdAbsent else IdStr r),
        e_signature = None\<rparr>
       (b_wireBytes body) st"

definition encodePayloadFrameFromPreencodedWire ::
  "frame_env \<Rightarrow> frame_lib \<Rightarrow> ustring \<Rightarrow> frame_body \<Rightarrow> encode_options \<Rightarrow> frame_state \<Rightarrow> envelope \<times> frame_state" where
  "encodePayloadFrameFromPreencodedWire env lib uuid body opts st = finishPayloadFrameEnvelope env lib uuid body opts st"

definition encodePayloadFrameFromBytes ::
  "frame_env \<Rightarrow> frame_lib \<Rightarrow> ustring \<Rightarrow> int \<times> int \<Rightarrow> bytes \<Rightarrow> encode_options \<Rightarrow> frame_state \<Rightarrow> envelope \<times> frame_state" where
  "encodePayloadFrameFromBytes env lib uuid now bs opts st =
     (let threshold = effectiveEncodeCompressionThreshold env (compressionThreshold opts) (int (length bs));
          (body, st1) = preencodeUtf8Buffer env lib now bs
             (opts\<lparr>compressionThreshold := Some threshold, compressionCacheEvent := None\<rparr>) st
      in finishPayloadFrameEnvelope env lib uuid body opts st1)"

definition gzip_eligible :: "frame_env \<Rightarrow> encode_options \<Rightarrow> int \<Rightarrow> bool" where
  "gzip_eligible env opts n =
     (let threshold = nullish (compressionThreshold opts) (Bytes defaultCompressionThreshold);
          maxGzip = nullish (maxGzipInputBytes opts) (payloadFrameMaxGzipInputBytes env)
      in \<not> below_threshold n threshold \<and> \<not> n > maxGzip \<and> threshold \<noteq> PositiveInfinity)"

definition encodePayloadFrameFromBytesAsync ::
  "frame_env \<Rightarrow> frame_lib \<Rightarrow> ustring \<Rightarrow> int \<times> int \<Rightarrow> (frame_state \<Rightarrow> frame_state) \<Rightarrow> bytes \<Rightarrow> encode_options \<Rightarrow> frame_state \<Rightarrow>
   envelope \<times> frame_state" where
  "encodePayloadFrameFromBytesAsync env lib uuid now others bs opts st =
     (let minAsync = nullish (asyncGzipMinUtf8Bytes opts) (payloadFrameAsyncGzipMinUtf8Bytes env);
          threshold = effectiveEncodeCompressionThreshold env (compressionThreshold opts) (int (length bs));
          preOpts = opts\<lparr>compressionThreshold := Some threshold, compressionCacheEvent := None\<rparr>;
          (body, st1) =
            (if minAsync \<le> 0 then preencodeUtf8Buffer env lib now bs preOpts st
             else if gzip_eligible env preOpts (int (length bs)) \<and> int (length bs) \<ge> minAsync
             then preencodeUtf8BufferAsync env lib now others bs preOpts st
             else preencodeUtf8Buffer env lib now bs preOpts st)
      in finishPayloadFrameEnvelope env lib uuid body opts st1)"

definition encodePayloadFrame ::
  "frame_env \<Rightarrow> frame_lib \<Rightarrow> ustring \<Rightarrow> int \<times> int \<Rightarrow> jvalue \<Rightarrow> encode_options \<Rightarrow> frame_state \<Rightarrow> envelope \<times> frame_state" where
  "encodePayloadFrame env lib uuid now data opts st =
     (let encoded = utf8_encode (json_text (num_text lib) data);
          threshold = effectiveEncodeCompressionThreshold env (compressionThreshold opts) (int (length encoded));
          (body, st1) = preencodeUtf8Buffer env lib now encoded (opts\<lparr>compressionThreshold := Some threshold\<rparr>) st
      in finishPayloadFrameEnvelope env lib uuid body opts st1)"

definition PAYLOAD_FRAME_HOT_PATH_ENCODE_OPTIONS :: encode_options where
  "PAYLOAD_FRAME_HOT_PATH_ENCODE_OPTIONS = default_encode_options\<lparr>compressionThreshold := Some PositiveInfinity, omitTraceId := True\<rparr>"

definition encodePayloadFrameHotPath ::
  "frame_env \<Rightarrow> frame_lib \<Rightarrow> ustring \<Rightarrow> int \<times> int \<Rightarrow> jvalue \<Rightarrow> ustring option \<Rightarrow> ustring option \<Rightarrow> frame_state \<Rightarrow> envelope \<times> frame_state" where
  "encodePayloadFrameHotPath env lib uuid now data requestId traceId st =
     encodePayloadFrame env lib uuid now data
       (PAYLOAD_FRAME_HOT_PATH_ENCODE_OPTIONS\<lparr>opt_requestId := requestId, opt_traceId := traceId\<rparr>) st"

definition encodePayloadFrameBridge ::
  "frame_env \<Rightarrow> frame_lib \<Rightarrow> ustring \<Rightarrow> int \<times> int \<Rightarrow> (frame_state \<Rightarrow> frame_state) \<Rightarrow> jvalue \<Rightarrow> encode_options \<Rightarrow> frame_state \<Rightarrow>
   envelope \<times> frame_state" where
  "encodePayloadFrameBridge env lib uuid now others data opts st =
     (let minAsync = nullish (asyncGzipMinUtf8Bytes opts) (payloadFrameAsyncGzipMinUtf8Bytes env) in
      if minAsync \<le> 0 then encodePayloadFrame env lib uuid now data opts st
      else let encoded = utf8_encode (json_text (num_text lib) data);
               threshold = effectiveEncodeCompressionThreshold env (compressionThreshold opts) (int (length encoded));
               preOpts = opts\<lparr>compressionThreshold := Some threshold\<rparr>;
               (body, st1) =
                 (if gzip_eligible env preOpts (int (length encoded)) \<and> int (length encoded) \<ge> minAsync
                  then preencodeUtf8BufferAsync env lib now others encoded preOpts st
                  else preencodeUtf8Buffer env lib now encoded preOpts st)
           in finishPayloadFrameEnvelope env lib uuid body opts st1)"

section \<open>Decoding\<close>

definition validatePayloadFrameForDecode ::
  "frame_env \<Rightarrow> frame_lib \<Rightarrow> wire \<Rightarrow> frame_state \<Rightarrow> (envelope \<times> bytes) fres \<times> frame_state" where
  "validatePayloadFrameForDecode env lib payload st =
     (if \<not> isPayloadFrameEnvelope payload then (FErr ''Socket payload must be a valid PayloadFrame'', st)
      else let e = read_envelope payload in
        case toBuffer lib (e_payload e) of
          None \<Rightarrow> (FErr ''PayloadFrame payload must contain binary data'', st)
        | Some binaryPayload \<Rightarrow>
            if e_compressedSize e > maxCompressedPayloadBytes \<or> int (length binaryPayload) > maxCompressedPayloadBytes
            then (FErr ''PayloadFrame compressed payload exceeds limit'', st)
            else if int (length binaryPayload) \<noteq> e_compressedSize e then (FErr ''PayloadFrame compressed size mismatch'', st)
            else (case validateFrameSignature env lib e binaryPayload st of
                    (FOk u, st1) \<Rightarrow> (FOk (e, binaryPayload), st1)
                  | (FErr m, st1) \<Rightarrow> (FErr m, st1)
                  | (FThrow, st1) \<Rightarrow> (FThrow, st1)))"

definition finalizeDecodedPayloadBytes :: "frame_lib \<Rightarrow> envelope \<Rightarrow> bytes \<Rightarrow> bytes \<Rightarrow> decoded_frame fres" where
  "finalizeDecodedPayloadBytes lib e binaryPayload decodedBytes =
     (if int (length decodedBytes) > maxDecodedPayloadBytes \<or> e_originalSize e > maxDecodedPayloadBytes
      then FErr ''PayloadFrame decoded payload exceeds limit''
      else if e_cmp e = CmpGzip \<and> exceedsMaxInflationRatio (int (length decodedBytes)) (int (length binaryPayload)) (of_int hubMaxInflationRatio)
      then FErr ''PayloadFrame inflation ratio exceeds limit''
      else if int (length decodedBytes) \<noteq> e_originalSize e then FErr ''PayloadFrame original size mismatch''
      else (case JSON_parse (num_read lib) (utf8_decode decodedBytes) of
              None \<Rightarrow> FErr ''Failed to decode PayloadFrame JSON payload''
            | Some decoded \<Rightarrow>
                FOk \<lparr>d_frame = e\<lparr>e_payload := WBuffer binaryPayload\<rparr>, d_data = decoded, d_decodedBytes = decodedBytes\<rparr>))"

definition tighter :: "int \<times> string \<Rightarrow> int \<times> string \<Rightarrow> int \<times> string" where
  "tighter tightest candidate = (if fst candidate < fst tightest then candidate else tightest)"

definition gzipOutputCap :: "int \<Rightarrow> int \<Rightarrow> int \<times> string" where
  "gzipOutputCap originalSize compressedSize =
     (let ratioCap = (if compressedSize \<le> 0 then maxDecodedPayloadBytes else compressedSize * hubMaxInflationRatio);
          decoded = (maxDecodedPayloadBytes, ''PayloadFrame decoded payload exceeds limit'');
          inflation = (ratioCap, ''PayloadFrame inflation ratio exceeds limit'');
          original = (originalSize, ''PayloadFrame original size mismatch'')
      in foldl tighter decoded [inflation, original])"

definition decompressGzipBounded :: "frame_lib \<Rightarrow> bytes \<Rightarrow> int \<Rightarrow> bytes fres" where
  "decompressGzipBounded lib binaryPayload originalSize =
     (let cap = gzipOutputCap originalSize (int (length binaryPayload)) in
      if fst cap < 1 then
        (case gunzip lib None binaryPayload of
           Inflated decoded \<Rightarrow> if length decoded > 0 then FErr (snd cap) else FOk decoded
         | _ \<Rightarrow> FErr ''Failed to decompress PayloadFrame payload'')
      else (case gunzip lib (Some (fst cap)) binaryPayload of
              Inflated decoded \<Rightarrow> FOk decoded
            | TooLarge \<Rightarrow> FErr (snd cap)
            | Corrupt \<Rightarrow> FErr ''Failed to decompress PayloadFrame payload''))"

definition decompressGzipBoundedAsync :: "frame_lib \<Rightarrow> bytes \<Rightarrow> int \<Rightarrow> bytes fres" where
  "decompressGzipBoundedAsync lib binaryPayload originalSize =
     (let cap = gzipOutputCap originalSize (int (length binaryPayload)) in
      if fst cap < 1 then decompressGzipBounded lib binaryPayload originalSize
      else (case gunzip lib (Some (fst cap)) binaryPayload of
              Inflated decoded \<Rightarrow> FOk decoded
            | TooLarge \<Rightarrow> FErr (snd cap)
            | Corrupt \<Rightarrow> FErr ''Failed to decompress PayloadFrame payload''))"

definition decompressPayloadFrameSync :: "frame_lib \<Rightarrow> envelope \<Rightarrow> bytes \<Rightarrow> bytes fres" where
  "decompressPayloadFrameSync lib e binaryPayload =
     (if e_cmp e \<noteq> CmpGzip then FOk binaryPayload else decompressGzipBounded lib binaryPayload (e_originalSize e))"

definition decodePayloadFrame :: "frame_env \<Rightarrow> frame_lib \<Rightarrow> wire \<Rightarrow> frame_state \<Rightarrow> decoded_frame fres \<times> frame_state" where
  "decodePayloadFrame env lib payload st =
     (case validatePayloadFrameForDecode env lib payload st of
        (FErr m, st1) \<Rightarrow> (FErr m, st1)
      | (FThrow, st1) \<Rightarrow> (FThrow, st1)
      | (FOk (e, binaryPayload), st1) \<Rightarrow>
          (case decompressPayloadFrameSync lib e binaryPayload of
             FErr m \<Rightarrow> (FErr m, st1)
           | FThrow \<Rightarrow> (FThrow, st1)
           | FOk decoded \<Rightarrow> (finalizeDecodedPayloadBytes lib e binaryPayload decoded, st1)))"

definition decodePayloadFrameAsync :: "frame_env \<Rightarrow> frame_lib \<Rightarrow> wire \<Rightarrow> frame_state \<Rightarrow> decoded_frame fres \<times> frame_state" where
  "decodePayloadFrameAsync env lib payload st =
     (case validatePayloadFrameForDecode env lib payload st of
        (FErr m, st1) \<Rightarrow> (FErr m, st1)
      | (FThrow, st1) \<Rightarrow> (FThrow, st1)
      | (FOk (e, binaryPayload), st1) \<Rightarrow>
          if e_cmp e \<noteq> CmpGzip then (finalizeDecodedPayloadBytes lib e binaryPayload binaryPayload, st1)
          else let minAsync = payloadFrameAsyncGunzipMinCompressedBytes env;
                   decompressed = (if minAsync > 0 \<and> int (length binaryPayload) \<ge> minAsync
                                   then decompressGzipBoundedAsync lib binaryPayload (e_originalSize e)
                                   else decompressGzipBounded lib binaryPayload (e_originalSize e))
               in case decompressed of
                    FErr m \<Rightarrow> (FErr m, st1)
                  | FThrow \<Rightarrow> (FThrow, st1)
                  | FOk decoded \<Rightarrow> (finalizeDecodedPayloadBytes lib e binaryPayload decoded, st1))"

section \<open>The caches\<close>

lemma trim_oldest_size: "jm_size (trim_oldest m) \<le> ADAPTIVE_COMPRESSION_CACHE_MAX_ENTRIES"
proof (induction m rule: trim_oldest.induct)
  case (1 m)
  show ?case
    by (subst trim_oldest.simps) (use 1 in \<open>auto simp: ADAPTIVE_COMPRESSION_CACHE_MAX_ENTRIES_def split: list.split\<close>)
qed

text \<open>An entry of the trimmed cache is one of the cache.\<close>

lemma jm_get_del_Some: "jm_get (jm_del k m) k' = Some v \<Longrightarrow> jm_get m k' = Some v"
  by (simp split: if_splits)

lemma trim_oldest_get: "jm_get (trim_oldest m) k = Some v \<Longrightarrow> jm_get m k = Some v"
proof (induction m rule: trim_oldest.induct)
  case (1 m)
  show ?case
  proof (cases "jm_size m > ADAPTIVE_COMPRESSION_CACHE_MAX_ENTRIES \<and> m \<noteq> []")
    case True
    then obtain a b r where m: "m = (a, b) # r" by (cases m) auto
    then have "trim_oldest m = trim_oldest (jm_del a m)" using True by (subst trim_oldest.simps) simp
    then have "jm_get (jm_del a m) k = Some v" using 1(1)[of "(a, b)" r a b] 1(2) True m by simp
    then show ?thesis by (rule jm_get_del_Some)
  next
    case False
    then show ?thesis using 1(2) by (subst (asm) trim_oldest.simps) (auto split: if_splits)
  qed
qed

lemma decompress_async: "decompressGzipBoundedAsync lib b n = decompressGzipBounded lib b n"
  by (simp add: decompressGzipBoundedAsync_def decompressGzipBounded_def Let_def)

lemma decode_async: "decodePayloadFrameAsync env lib w st = decodePayloadFrame env lib w st"
  by (simp add: decodePayloadFrameAsync_def decodePayloadFrame_def decompressPayloadFrameSync_def decompress_async Let_def
      split: prod.split fres.split)

section \<open>Reading what was written\<close>

lemma of_char_less: "(of_char c :: nat) < 256"
  by (metis of_char_eq_iff nat_of_char_less_256 of_nat_id)

lemma ustr_eq [simp]: "ustr s = ustr t \<longleftrightarrow> s = t"
proof -
  have "inj (\<lambda>c :: char. of_nat (of_char c) :: 16 word)"
  proof (rule injI)
    fix c d :: char assume "(of_nat (of_char c) :: 16 word) = of_nat (of_char d)"
    then have "unat (of_nat (of_char c) :: 16 word) = unat (of_nat (of_char d) :: 16 word)" by simp
    then show "c = d" using of_char_less[of c] of_char_less[of d] by (simp add: unat_of_nat)
  qed
  then show ?thesis unfolding ustr_def by (simp add: inj_map_eq_map)
qed

lemma wfield_lookup:
  "wfield ((ustr k, v) # c) k' = (if k = k' then Some v else wfield c k')" "wfield [] k' = None"
  by (auto simp: wfield_def)

lemma wfield_append: "wfield (a @ b) k = (case wfield a k of None \<Rightarrow> wfield b k | Some v \<Rightarrow> Some v)"
  by (simp add: wfield_def jm_get_def map_add_def split: option.split)

lemma jfield_lookup:
  "jfield ((ustr k, v) # c) k' = (if k = k' then Some v else jfield c k')" "jfield [] k' = None"
  by (auto simp: jfield_def)

definition sig_block_ok :: "envelope \<Rightarrow> bool" where
  "sig_block_ok e = (case e_signature e of None \<Rightarrow> True | Some ob \<Rightarrow> isValidPayloadFrameSignatureBlock (WJson (JvObj ob)))"

lemma wire_fields:
  assumes "to_wire e = WObj c"
  shows "wfield c ''schemaVersion'' = Some (WJson (JvStr (ustr ''1.0'')))" "wfield c ''enc'' = Some (WJson (JvStr (ustr ''json'')))"
    "wfield c ''cmp'' = Some (WJson (JvStr (cmp_text (e_cmp e))))"
    "wfield c ''contentType'' = Some (WJson (JvStr (ustr ''application/json'')))"
    "wfield c ''originalSize'' = Some (WJson (JvNum (of_int (e_originalSize e))))"
    "wfield c ''compressedSize'' = Some (WJson (JvNum (of_int (e_compressedSize e))))"
    "wfield c ''payload'' = Some (e_payload e)"
    "wfield c ''traceId'' = map_option (\<lambda>t. WJson (JvStr t)) (e_traceId e)"
    "wfield c ''requestId'' = (case e_requestId e of IdAbsent \<Rightarrow> None | IdNull \<Rightarrow> Some (WJson JvNull) | IdStr r \<Rightarrow> Some (WJson (JvStr r)))"
    "wfield c ''signature'' = map_option (\<lambda>ob. WJson (JvObj ob)) (e_signature e)"
    "\<forall>f \<in> set c. fst f \<in> set PAYLOAD_FRAME_ALLOWED_ROOT_KEYS"
  using assms
  by (auto simp: to_wire_def wfield_lookup wfield_append PAYLOAD_FRAME_ALLOWED_ROOT_KEYS_def
      split: option.splits req_id.splits)

lemma to_wire_obj: obtains c where "to_wire e = WObj c"
  by (simp add: to_wire_def)

lemma isPayloadFrameEnvelope_to_wire:
  assumes "0 \<le> e_originalSize e" and "0 \<le> e_compressedSize e" and "sig_block_ok e"
  shows "isPayloadFrameEnvelope (to_wire e)"
proof -
  obtain c where c: "to_wire e = WObj c" by (rule to_wire_obj)
  show ?thesis unfolding c using assms wire_fields[OF c]
    by (auto simp: isPayloadFrameEnvelope_def isNonNegativeInteger_def cmp_text_def sig_block_ok_def
        split: option.split req_id.split cmp.split)
qed

lemma read_envelope_to_wire: "read_envelope (to_wire e) = e"
proof -
  obtain c where c: "to_wire e = WObj c" by (rule to_wire_obj)
  show ?thesis unfolding c using wire_fields[OF c]
    by (cases e) (auto simp: read_envelope_def wint_def cmp_text_def split: option.split req_id.split cmp.split)
qed

section \<open>Signature inputs\<close>

text \<open>The canonical text is the JSON text of an object, so it determines the fields that are signed.\<close>

definition signed_object :: "envelope \<Rightarrow> bytes \<Rightarrow> jobject" where
  "signed_object e b =
     [(ustr ''cmp'', JvStr (cmp_text (e_cmp e))), (ustr ''compressedSize'', JvNum (of_int (e_compressedSize e))),
      (ustr ''contentType'', JvStr (ustr ''application/json'')), (ustr ''enc'', JvStr (ustr ''json'')),
      (ustr ''originalSize'', JvNum (of_int (e_originalSize e))), (ustr ''payload'', JvStr (base64 b)),
      (ustr ''requestId'', id_or_null (e_requestId e)), (ustr ''schemaVersion'', JvStr (ustr ''1.0'')),
      (ustr ''traceId'', case e_traceId e of None \<Rightarrow> JvNull | Some t \<Rightarrow> JvStr t)]"

definition plain_unit :: "16 word \<Rightarrow> bool" where
  "plain_unit c \<longleftrightarrow> 0x20 \<le> c \<and> c < 0x80 \<and> c \<noteq> 0x22 \<and> c \<noteq> 0x5C"

lemma json_escape_units: "list_all plain_unit s \<Longrightarrow> json_escape s = s"
  by (induction s rule: json_escape.induct)
    (auto simp: plain_unit_def escape_unit_plain ascii_not_surrogate)

lemma base64_plain: "list_all plain_unit (base64 b)"
proof -
  have "plain_unit (b64_char n)" if "n < 64" for n
    using that b64_char_unat[OF that] by (auto simp: plain_unit_def word_le_nat_alt word_less_nat_alt split: if_splits)
  then show ?thesis by (induction b rule: base64.induct) (auto simp: sextets, auto simp: plain_unit_def)
qed

lemma key_index_not_digit: "c \<in> set k \<Longrightarrow> \<not> is_digit c \<Longrightarrow> key_index k = None"
  using nat_text_digits by (auto simp: key_index_def Let_def list_all_iff) metis

definition signed_names :: "string list" where
  "signed_names = [''cmp'', ''compressedSize'', ''contentType'', ''enc'', ''originalSize'', ''payload'', ''requestId'', ''schemaVersion'', ''traceId'']"

lemma signed_name_letters:
  assumes "k \<in> set signed_names"
  shows "list_all (\<lambda>c. plain_unit c \<and> \<not> is_digit c) (ustr k) \<and> k \<noteq> []"
  using assms by (auto simp: signed_names_def ustr_Cons plain_unit_def is_digit_def)

lemma signed_name_quote: "k \<in> set signed_names \<Longrightarrow> json_quote (ustr k) = 0x22 # ustr k @ [0x22]"
  using signed_name_letters[of k] by (simp add: json_quote_def json_escape_units list_all_iff)

lemma signed_name_index: "k \<in> set signed_names \<Longrightarrow> key_index (ustr k) = None"
  using signed_name_letters[of k] by (intro key_index_not_digit[of "hd (ustr k)"]) (auto simp: list_all_iff ustr_def neq_Nil_conv)

lemma canonical_text: "buildCanonicalSignatureFrame lib e b = json_text (num_text lib) (JvObj (signed_object e b))"
proof -
  have q: "json_quote (base64 b) = 0x22 # base64 b @ [0x22]" by (simp add: json_quote_def json_escape_units base64_plain)
  have n: "json_quote (ustr k) = 0x22 # ustr k @ [0x22]" if "k \<in> {''cmp'', ''compressedSize'', ''contentType'', ''enc'', ''originalSize'', ''payload'', ''requestId'', ''schemaVersion'', ''traceId''}" for k
    using that by (intro signed_name_quote) (simp add: signed_names_def)
  show ?thesis
    by (simp add: buildCanonicalSignatureFrame_def signed_object_def member_text_def q n COMMA_def)
qed

lemma signed_object_ok: "jv_ok (JvObj (signed_object e b))"
proof -
  have i: "key_index (ustr k) = None" if "k \<in> {''cmp'', ''compressedSize'', ''contentType'', ''enc'', ''originalSize'', ''payload'', ''requestId'', ''schemaVersion'', ''traceId''}" for k
    using that by (intro signed_name_index) (simp add: signed_names_def)
  have "js_order (signed_object e b) = signed_object e b" by (simp add: js_order_def signed_object_def i)
  moreover have "jm_wf (signed_object e b)" by (simp add: signed_object_def)
  ultimately show ?thesis by (auto simp: signed_object_def id_or_null_def split: req_id.split option.split)
qed

text \<open>What a signature covers.\<close>

definition signed_fields :: "envelope \<Rightarrow> bytes \<Rightarrow> cmp \<times> int \<times> int \<times> bytes \<times> jvalue \<times> ustring option" where
  "signed_fields e b = (e_cmp e, e_originalSize e, e_compressedSize e, b, id_or_null (e_requestId e), e_traceId e)"

definition canonical_input :: "frame_lib \<Rightarrow> envelope \<Rightarrow> bytes \<Rightarrow> bytes" where
  "canonical_input lib e b = utf8_encode (buildCanonicalSignatureFrame lib e b)"

lemma canonical_input_inj:
  assumes num: "number_format (num_text lib) (num_read lib)"
    and eq: "canonical_input lib e b = canonical_input lib e' b'"
  shows "signed_fields e b = signed_fields e' b'"
proof -
  have "Some (JvObj (signed_object e b)) = Some (JvObj (signed_object e' b'))"
    using json_bytes_roundtrip[OF num signed_object_ok, of e b] json_bytes_roundtrip[OF num signed_object_ok, of e' b']
      eq[unfolded canonical_input_def canonical_text] by metis
  then show ?thesis
    by (auto simp: signed_object_def signed_fields_def base64_inj cmp_text_def id_or_null_def
        split: cmp.splits option.splits req_id.splits)
qed

text \<open>Frames whose ids cannot be confused in a cache key.\<close>

definition plain_ids :: "envelope \<Rightarrow> bool" where
  "plain_ids e \<longleftrightarrow> e_traceId e \<noteq> Some [] \<and> (\<forall>t. e_traceId e = Some t \<longrightarrow> 0x7C \<notin> set t) \<and>
     e_requestId e \<noteq> IdStr [] \<and> (\<forall>r. e_requestId e = IdStr r \<longrightarrow> 0x7C \<notin> set r)"

definition key_parts :: "frame_lib \<Rightarrow> envelope \<Rightarrow> bytes \<Rightarrow> ustring list" where
  "key_parts lib e b =
     [ustr ''1.0'', cmp_text (e_cmp e), num_text lib (of_int (e_originalSize e)), num_text lib (of_int (e_compressedSize e)),
      (case e_traceId e of None \<Rightarrow> [] | Some t \<Rightarrow> t), id_or_empty (e_requestId e), sha256_hex lib b]"

lemma split_at_separator:
  assumes "c \<notin> set s" "c \<notin> set s'" "s @ c # t = s' @ c # t'"
  shows "s = s' \<and> t = t'"
  using assms by (auto simp: append_eq_append_conv2 append_eq_Cons_conv Cons_eq_append_conv)

lemma join_with_inj:
  assumes "join_with [c] ss = join_with [c] ts" and "length ss = length ts"
    and "\<And>s. s \<in> set ss \<Longrightarrow> c \<notin> set s" and "\<And>t. t \<in> set ts \<Longrightarrow> c \<notin> set t"
  shows "ss = ts"
  using assms
proof (induction ss arbitrary: ts rule: induct_list012)
  case (2 x)
  then show ?case by (cases ts) auto
next
  case (3 x y zs)
  obtain a b r where ts: "ts = a # b # r" using 3(4) by (cases ts; cases "tl ts") auto
  have "x = a \<and> join_with [c] (y # zs) = join_with [c] (b # r)"
    using 3(3,5,6) ts by (intro split_at_separator[of c]) auto
  then show ?case using 3(2)[of "b # r"] 3(4-6) ts by auto
qed simp

text \<open>The hash text has no separator, and the payloads of a set do not collide.\<close>

definition hash_ok :: "frame_lib \<Rightarrow> bytes set \<Rightarrow> bool" where
  "hash_ok lib S \<longleftrightarrow> inj_on (sha256_hex lib) S \<and> (\<forall>b. 0x7C \<notin> set (sha256_hex lib b))"

definition cached_for :: "frame_lib \<Rightarrow> bytes set \<Rightarrow> ustring \<times> bytes \<Rightarrow> bool" where
  "cached_for lib S p \<longleftrightarrow>
     (\<exists>e b. plain_ids e \<and> b \<in> S \<and> fst p = buildSignatureInputCacheKey lib e b \<and> snd p = canonical_input lib e b)"

definition cache_sound :: "frame_lib \<Rightarrow> bytes set \<Rightarrow> frame_state \<Rightarrow> bool" where
  "cache_sound lib S st \<longleftrightarrow> (\<forall>p \<in> set (signatureInputCanonicalCache st). cached_for lib S p)"

lemma cache_sound_fresh: "cache_sound lib S fresh_frame_state"
  by (simp add: cache_sound_def fresh_frame_state_def)

lemma key_parts_no_separator:
  assumes "number_format (num_text lib) (num_read lib)" and "hash_ok lib S" and "plain_ids e"
  shows "s \<in> set (key_parts lib e b) \<Longrightarrow> 0x7C \<notin> set s"
proof -
  have n: "0x7C \<notin> set (num_text lib x)" for x
    using assms(1) number_ok_chars[of "num_text lib x"]
    by (auto simp: number_format_def list_all_iff number_char_def is_digit_def)
  show "s \<in> set (key_parts lib e b) \<Longrightarrow> 0x7C \<notin> set s"
    using n assms(2,3)
    by (auto simp: key_parts_def hash_ok_def plain_ids_def cmp_text_def ustr_Cons id_or_empty_def
        split: cmp.splits option.splits req_id.splits)
qed

lemma key_determines_input:
  assumes num: "number_format (num_text lib) (num_read lib)" and h: "hash_ok lib S"
    and p: "plain_ids e" "plain_ids e'" and S: "b \<in> S" "b' \<in> S"
    and eq: "buildSignatureInputCacheKey lib e b = buildSignatureInputCacheKey lib e' b'"
  shows "canonical_input lib e b = canonical_input lib e' b'"
proof -
  have "key_parts lib e b = key_parts lib e' b'"
  proof (rule join_with_inj[of "0x7C"])
    show "join_with [0x7C] (key_parts lib e b) = join_with [0x7C] (key_parts lib e' b')"
      using eq by (simp add: buildSignatureInputCacheKey_def key_parts_def Let_def)
  qed (use key_parts_no_separator[OF num h p(1)] key_parts_no_separator[OF num h p(2)] in \<open>auto simp: key_parts_def\<close>)
  then have k: "cmp_text (e_cmp e) = cmp_text (e_cmp e')" "num_text lib (of_int (e_originalSize e)) = num_text lib (of_int (e_originalSize e'))"
      "num_text lib (of_int (e_compressedSize e)) = num_text lib (of_int (e_compressedSize e'))"
      "(case e_traceId e of None \<Rightarrow> [] | Some t \<Rightarrow> t) = (case e_traceId e' of None \<Rightarrow> [] | Some t \<Rightarrow> t)"
      "id_or_empty (e_requestId e) = id_or_empty (e_requestId e')" "sha256_hex lib b = sha256_hex lib b'"
    by (simp_all add: key_parts_def)
  have "b = b'" using k(6) h S by (auto simp: hash_ok_def inj_on_def)
  moreover have "e_traceId e = e_traceId e'" using k(4) p by (auto simp: plain_ids_def split: option.splits)
  moreover have "id_or_null (e_requestId e) = id_or_null (e_requestId e')"
    using k(5) p by (auto simp: plain_ids_def id_or_empty_def id_or_null_def split: req_id.splits)
  ultimately show ?thesis using k(1-3) by (simp add: canonical_input_def buildCanonicalSignatureFrame_def)
qed

lemma buildSignatureInput_sound:
  assumes num: "number_format (num_text lib) (num_read lib)" and h: "hash_ok lib S" and c: "cache_sound lib S st"
    and e: "plain_ids e" "b \<in> S" and r: "buildSignatureInput lib e b st = (input, st')"
  shows "input = canonical_input lib e b" and "cache_sound lib S st'"
proof -
  let ?k = "buildSignatureInputCacheKey lib e b"
  have hit: "v = canonical_input lib e b" if "jm_get (signatureInputCanonicalCache st) ?k = Some v" for v
  proof -
    have "cached_for lib S (?k, v)" using c jm_get_in_set[OF that] by (simp add: cache_sound_def)
    then show ?thesis using key_determines_input[OF num h e(1) _ e(2)] by (auto simp: cached_for_def)
  qed
  show "input = canonical_input lib e b"
    using r hit by (auto simp: buildSignatureInput_def Let_def canonical_input_def[symmetric] split: if_splits option.splits list.splits)
  have new: "cached_for lib S (?k, canonical_input lib e b)" using e by (auto simp: cached_for_def)
  have del: "set (jm_del k m) \<subseteq> set m" for k and m :: "(ustring, bytes) jsmap"
    by (induction m) (auto simp: jm_del_unfold split: if_splits)
  have ins: "set (jm_set k v m) \<subseteq> insert (k, v) (set m)" for k v and m :: "(ustring, bytes) jsmap"
    by (induction m) (auto simp: jm_set_unfold split: if_splits)
  define room where "room = (case signatureInputCanonicalCache st of [] \<Rightarrow> [] | p # r \<Rightarrow> jm_del (fst p) (signatureInputCanonicalCache st))"
  have "set room \<subseteq> set (signatureInputCanonicalCache st)"
    using del[of _ "signatureInputCanonicalCache st"] by (auto simp: room_def split: list.splits)
  then have ok: "cache_sound lib S (st\<lparr>signatureInputCanonicalCache := jm_set ?k (canonical_input lib e b) m\<rparr>)"
    if "m = room \<or> m = signatureInputCanonicalCache st" for m
    using that c new ins[of ?k "canonical_input lib e b" m] by (auto simp: cache_sound_def)
  have "st' = st \<or> (\<exists>m. (m = room \<or> m = signatureInputCanonicalCache st) \<and>
      st' = st\<lparr>signatureInputCanonicalCache := jm_set ?k (canonical_input lib e b) m\<rparr>)"
    using r by (auto simp: buildSignatureInput_def Let_def canonical_input_def[symmetric] room_def split: if_splits option.splits list.splits)
  then show "cache_sound lib S st'" using ok c by blast
qed

lemma buildSignatureInput_canonical:
  assumes "number_format (num_text lib) (num_read lib)" and "hash_ok lib S" and "cache_sound lib S st" and "plain_ids e" and "b \<in> S"
  shows "fst (buildSignatureInput lib e b st) = canonical_input lib e b"
  using buildSignatureInput_sound(1)[OF assms, of "fst (buildSignatureInput lib e b st)" "snd (buildSignatureInput lib e b st)"] by simp

lemma buildSignatureInput_frame:
  "buildSignatureInput lib (e\<lparr>e_signature := x\<rparr>) b st = buildSignatureInput lib e b st"
proof -
  have "buildCanonicalSignatureFrame lib (e\<lparr>e_signature := x\<rparr>) b = buildCanonicalSignatureFrame lib e b"
    by (simp add: buildCanonicalSignatureFrame_def)
  moreover have "buildSignatureInputCacheKey lib (e\<lparr>e_signature := x\<rparr>) b = buildSignatureInputCacheKey lib e b"
    by (simp add: buildSignatureInputCacheKey_def)
  ultimately show ?thesis unfolding buildSignatureInput_def by (simp only:)
qed

section \<open>Bodies\<close>

text \<open>What every encoder makes of the encoded bytes.\<close>

definition body_of :: "frame_lib \<Rightarrow> rat \<Rightarrow> bytes \<Rightarrow> frame_body \<Rightarrow> bool" where
  "body_of lib ratio encoded body \<longleftrightarrow> b_originalSize body = int (length encoded) \<and>
     (b_cmp body = CmpNone \<and> b_wireBytes body = encoded \<or>
      b_cmp body = CmpGzip \<and> (\<exists>level. b_wireBytes body = gzip lib level encoded) \<and>
      \<not> exceedsMaxInflationRatio (int (length encoded)) (int (length (b_wireBytes body))) ratio)"

lemma finishAutoGzipBody_body:
  "body_of lib ratio encoded (fst (finishAutoGzipBody encoded (gzip lib level encoded) policy ratio savings opts now st))"
  by (auto simp: finishAutoGzipBody_def body_of_def uncompressedBody_def Let_def)

lemma finishAutoGzipBody_cache:
  "signatureInputCanonicalCache (snd (finishAutoGzipBody encoded z policy ratio savings opts now st)) = signatureInputCanonicalCache st"
  by (simp add: finishAutoGzipBody_def recordAutoGzipAttempt_def Let_def)

lemma shouldSkipAutoGzip_cache: "signatureInputCanonicalCache (snd (shouldSkipAutoGzip ev n now st)) = signatureInputCanonicalCache st"
  by (simp add: shouldSkipAutoGzip_def Let_def split: option.split)

abbreviation ratio_of :: "encode_options \<Rightarrow> rat" where
  "ratio_of opts \<equiv> nullish (maxInflationRatio opts) (of_int hubMaxInflationRatio)"

lemma preencode_async_body:
  "body_of lib (ratio_of opts) encoded (fst (preencodeUtf8BufferAsync env lib now others encoded opts st))"
  using finishAutoGzipBody_body
  by (auto simp: preencodeUtf8BufferAsync_def Let_def case_prod_beta) (auto simp: body_of_def uncompressedBody_def)

lemma preencode_async_sync: "preencodeUtf8BufferAsync env lib now (\<lambda>s. s) encoded opts st = preencodeUtf8Buffer env lib now encoded opts st"
  by (simp add: preencodeUtf8BufferAsync_def preencodeUtf8Buffer_def)

lemmas preencode_body = preencode_async_body[where others = "\<lambda>s. s", unfolded preencode_async_sync]

lemma preencode_async_cache:
  assumes "\<And>s. cache_sound lib S s \<Longrightarrow> cache_sound lib S (others s)" and "cache_sound lib S st"
  shows "cache_sound lib S (snd (preencodeUtf8BufferAsync env lib now others encoded opts st))"
proof -
  have skip: "cache_sound lib S (snd (shouldSkipAutoGzip ev n t st))" for ev n t
    using assms(2) by (simp add: cache_sound_def shouldSkipAutoGzip_cache)
  have fin: "cache_sound lib S (snd (finishAutoGzipBody encoded z policy ratio savings opts t s))" if "cache_sound lib S s" for z policy ratio savings t s
    using that by (simp add: cache_sound_def finishAutoGzipBody_cache)
  show ?thesis using assms skip by (auto simp: preencodeUtf8BufferAsync_def Let_def case_prod_beta intro!: fin)
qed

lemmas preencode_cache = preencode_async_cache[where others = "\<lambda>s. s", unfolded preencode_async_sync, simplified]

section \<open>Decompression\<close>

text \<open>The limit the decompressor is called with.\<close>

definition gunzip_limit :: "int \<Rightarrow> int \<Rightarrow> int option" where
  "gunzip_limit originalSize compressedSize =
     (let cap = fst (gzipOutputCap originalSize compressedSize) in if cap < 1 then None else Some cap)"

lemma gzipOutputCap_min:
  "fst (gzipOutputCap n c) = min (min maxDecodedPayloadBytes (if c \<le> 0 then maxDecodedPayloadBytes else c * hubMaxInflationRatio)) n"
  by (auto simp: gzipOutputCap_def tighter_def Let_def)

lemma decompress_limit:
  "decompressGzipBounded lib b n =
     (case gunzip lib (gunzip_limit n (int (length b))) b of
        Inflated d \<Rightarrow> if gunzip_limit n (int (length b)) = None \<and> length d > 0 then FErr (snd (gzipOutputCap n (int (length b)))) else FOk d
      | TooLarge \<Rightarrow> if gunzip_limit n (int (length b)) = None then FErr ''Failed to decompress PayloadFrame payload''
                    else FErr (snd (gzipOutputCap n (int (length b))))
      | Corrupt \<Rightarrow> FErr ''Failed to decompress PayloadFrame payload'')"
  by (simp add: decompressGzipBounded_def gunzip_limit_def Let_def split: gunzip_result.split)

lemma within_ratio:
  "\<not> exceedsMaxInflationRatio n c (of_int r) \<longleftrightarrow> c \<le> 0 \<or> n \<le> c * r"
proof (cases "c > 0")
  case True
  then have "(of_int n / of_int c > (of_int r :: rat)) \<longleftrightarrow> of_int n > (of_int (c * r) :: rat)"
    by (simp add: field_simps)
  also have "\<dots> \<longleftrightarrow> n > c * r" by (rule of_int_less_iff)
  finally show ?thesis using True by (auto simp: exceedsMaxInflationRatio_def)
qed (simp add: exceedsMaxInflationRatio_def)

text \<open>A result of the bounded decompression is the full output when it passes the checks that follow, and the checks refuse
  everything else.\<close>

lemma bounded_decompression:
  assumes z: "zlib_ok lib" and d: "int (length d) \<le> maxDecodedPayloadBytes" "int (length d) = n"
    and r: "int (length b) \<le> 0 \<or> int (length d) \<le> int (length b) * hubMaxInflationRatio"
  shows "decompressGzipBounded lib b n = FOk d \<longleftrightarrow> gunzip lib None b = Inflated d"
proof -
  have m: "fst (gzipOutputCap n (int (length b))) = n"
    using d r by (auto simp: gzipOutputCap_min)
  show ?thesis
  proof (cases "n < 1")
    case True
    then show ?thesis using d(2) by (auto simp: decompressGzipBounded_def m Let_def split: gunzip_result.split)
  next
    case False
    have "gunzip lib (Some n) b = Inflated d \<longleftrightarrow> gunzip lib None b = Inflated d"
      using z d(2) by (simp add: zlib_ok_def)
    then show ?thesis using False by (auto simp: decompressGzipBounded_def m Let_def split: gunzip_result.split)
  qed
qed

definition finalize_checks :: "envelope \<Rightarrow> bytes \<Rightarrow> bytes \<Rightarrow> bool" where
  "finalize_checks e b d \<longleftrightarrow> int (length d) \<le> maxDecodedPayloadBytes \<and> int (length d) = e_originalSize e \<and>
     (e_cmp e = CmpGzip \<longrightarrow> int (length b) \<le> 0 \<or> int (length d) \<le> int (length b) * hubMaxInflationRatio)"

lemma finalize_ok:
  "finalizeDecodedPayloadBytes lib e b d = FOk r \<longleftrightarrow>
     finalize_checks e b d \<and> (\<exists>v. JSON_parse (num_read lib) (utf8_decode d) = Some v \<and>
       r = \<lparr>d_frame = e\<lparr>e_payload := WBuffer b\<rparr>, d_data = v, d_decodedBytes = d\<rparr>)"
  using within_ratio[of "int (length d)" "int (length b)" hubMaxInflationRatio]
  by (auto simp: finalizeDecodedPayloadBytes_def finalize_checks_def split: option.splits)

text \<open>Decoding by inflating everything first and checking afterwards.\<close>

definition decode_reference :: "frame_env \<Rightarrow> frame_lib \<Rightarrow> wire \<Rightarrow> frame_state \<Rightarrow> decoded_frame fres \<times> frame_state" where
  "decode_reference env lib payload st =
     (case validatePayloadFrameForDecode env lib payload st of
        (FErr m, st1) \<Rightarrow> (FErr m, st1)
      | (FThrow, st1) \<Rightarrow> (FThrow, st1)
      | (FOk (e, b), st1) \<Rightarrow>
          (case (if e_cmp e = CmpGzip then gunzip lib None b else Inflated b) of
             Inflated d \<Rightarrow> (finalizeDecodedPayloadBytes lib e b d, st1)
           | _ \<Rightarrow> (FErr ''Failed to decompress PayloadFrame payload'', st1)))"

lemma decode_ok_iff:
  assumes "validatePayloadFrameForDecode env lib w st = (FOk (e, b), st1)"
  shows "decodePayloadFrame env lib w st = (FOk r, st2) \<longleftrightarrow>
    st2 = st1 \<and> (\<exists>d. (if e_cmp e = CmpGzip then decompressGzipBounded lib b (e_originalSize e) = FOk d else d = b) \<and>
      finalizeDecodedPayloadBytes lib e b d = FOk r)"
  using assms by (auto simp: decodePayloadFrame_def decompressPayloadFrameSync_def split: fres.splits)

lemma reference_ok_iff:
  assumes "validatePayloadFrameForDecode env lib w st = (FOk (e, b), st1)"
  shows "decode_reference env lib w st = (FOk r, st2) \<longleftrightarrow>
    st2 = st1 \<and> (\<exists>d. (if e_cmp e = CmpGzip then gunzip lib None b = Inflated d else d = b) \<and>
      finalizeDecodedPayloadBytes lib e b d = FOk r)"
  using assms by (auto simp: decode_reference_def split: fres.splits gunzip_result.splits)

lemma decode_equals_reference:
  assumes "zlib_ok lib"
  shows "decodePayloadFrame env lib w st = (FOk r, st2) \<longleftrightarrow> decode_reference env lib w st = (FOk r, st2)"
proof (cases "validatePayloadFrameForDecode env lib w st")
  case (Pair v st1)
  show ?thesis
  proof (cases v)
    case (FOk p)
    obtain e b where p: "p = (e, b)" by fastforce
    have "(if e_cmp e = CmpGzip then decompressGzipBounded lib b (e_originalSize e) = FOk d else d = b) \<longleftrightarrow>
        (if e_cmp e = CmpGzip then gunzip lib None b = Inflated d else d = b)"
      if "finalizeDecodedPayloadBytes lib e b d = FOk r" for d
      using bounded_decompression[OF assms, of d "e_originalSize e" b] that[unfolded finalize_ok finalize_checks_def] by auto
    then show ?thesis
      unfolding decode_ok_iff[OF Pair[unfolded FOk p]] reference_ok_iff[OF Pair[unfolded FOk p]] by blast
  qed (simp_all add: Pair decodePayloadFrame_def decode_reference_def)
qed

section \<open>Signing and verifying\<close>

lemma base64_no_space: "list_all (\<lambda>c. \<not> js_space c) (base64 b)"
proof -
  have "\<not> js_space (b64_char n)" if "n < 64" for n
  proof -
    have u: "33 \<le> unat (b64_char n)" "unat (b64_char n) \<le> 122" using that by (auto simp: b64_char_unat)
    have "\<not> js_space c" if "33 \<le> unat c" "unat c \<le> 122" for c :: "16 word"
      using that by (auto simp: js_space_def word_le_nat_alt)
    then show ?thesis using u by blast
  qed
  then show ?thesis by (induction b rule: base64.induct) (auto simp: sextets, auto simp: js_space_def)
qed

lemma dropWhile_none: "list_all (\<lambda>c. \<not> P c) s \<Longrightarrow> dropWhile P s = s"
  by (cases s) auto

lemma u_trim_base64: "u_trim (base64 b) = base64 b"
  using base64_no_space[of b] by (simp add: u_trim_def dropWhile_none list_all_iff)

lemma base64_nil: "base64 b = [] \<longleftrightarrow> b = []"
  by (cases b rule: base64.cases) auto

definition signing :: "frame_env \<Rightarrow> bool" where
  "signing env \<longleftrightarrow> payloadSignOutbound env \<and> \<not> blank_opt (payloadSigningKey env)"

text \<open>A receiver that has the sender's key, under the same id or as the only key.\<close>

definition shares_key :: "frame_env \<Rightarrow> frame_env \<Rightarrow> bool" where
  "shares_key env env' \<longleftrightarrow> payloadSigningKey env' = payloadSigningKey env \<and> payloadSigningKeyId env' = payloadSigningKeyId env \<and>
     (blank_opt (payloadSigningKeyId env) \<longrightarrow> payloadSigningPreviousKeys env' = [])"

lemma sign_unsigned: "\<not> signing env \<Longrightarrow> signOutboundFrameIfConfigured env lib e b st = (e, st)"
  by (auto simp: signing_def blank_opt_def signOutboundFrameIfConfigured_def split: option.splits)

definition sig_fields :: "frame_env \<Rightarrow> ustring \<Rightarrow> jobject" where
  "sig_fields env value =
     [(ustr ''alg'', JvStr (ustr ''hmac-sha256'')), (ustr ''value'', JvStr value)] @
     (case payloadSigningKeyId env of None \<Rightarrow> [] | Some i \<Rightarrow> if u_trim i \<noteq> [] then [(ustr ''key_id'', JvStr i)] else [])"

lemma sign_signed:
  assumes "signing env" and "buildSignatureInput lib e b st = (input, st1)"
  obtains key where "payloadSigningKey env = Some key" and "u_trim key \<noteq> []"
    and "signOutboundFrameIfConfigured env lib e b st =
      (e\<lparr>e_signature := Some (sig_fields env (base64 (hmac_sha256 lib key input)))\<rparr>, st1)"
  using assms by (auto simp: signing_def blank_opt_def signOutboundFrameIfConfigured_def sig_fields_def split: option.splits)

lemma sig_fields_block: "isValidPayloadFrameSignatureBlock (WJson (JvObj (sig_fields env value)))"
  by (auto simp: isValidPayloadFrameSignatureBlock_def sig_fields_def jfield_lookup is_string_def PAYLOAD_FRAME_SIGNATURE_KEYS_def
      split: option.split)

lemma sig_fields_read:
  "toSignatureEnvelope (sig_fields env value) =
     Some \<lparr>sig_alg = ustr ''hmac-sha256'', sig_value = value,
       sig_key_id = (if blank_opt (payloadSigningKeyId env) then None else payloadSigningKeyId env)\<rparr>"
  by (auto simp: toSignatureEnvelope_def sig_fields_def jfield_lookup blank_opt_def split: option.split)

lemma resolve_shared:
  assumes "shares_key env env'" and "payloadSigningKey env = Some key" and "u_trim key \<noteq> []"
  shows "\<exists>kind. resolveSignatureVerificationKey env'
    \<lparr>sig_alg = a, sig_value = v, sig_key_id = (if blank_opt (payloadSigningKeyId env) then None else payloadSigningKeyId env)\<rparr> st =
      (FOk (key, kind), st)"
  using assms
  by (auto simp: resolveSignatureVerificationKey_def shares_key_def blank_opt_def Let_def split: option.splits)

lemma verify_signed:
  assumes k: "shares_key env env'" "payloadSigningKey env = Some key" "u_trim key \<noteq> []"
    and h: "hmac_sha256 lib key input \<noteq> []"
    and i: "buildSignatureInput lib e b st' = (input, st2)"
  shows "\<exists>st3. validateFrameSignature env' lib (e\<lparr>e_signature := Some (sig_fields env (base64 (hmac_sha256 lib key input)))\<rparr>) b st' =
    (FOk (), st3)"
proof -
  obtain kind where "resolveSignatureVerificationKey env'
      \<lparr>sig_alg = ustr ''hmac-sha256'', sig_value = base64 (hmac_sha256 lib key input),
       sig_key_id = (if blank_opt (payloadSigningKeyId env) then None else payloadSigningKeyId env)\<rparr> st' = (FOk (key, kind), st')"
    using resolve_shared[OF k] by blast
  then show ?thesis using i h
    by (simp add: validateFrameSignature_def sig_fields_read buildSignatureInput_frame u_trim_base64 base64_nil)
qed

section \<open>The round trip\<close>

definition plain_id :: "ustring \<Rightarrow> bool" where
  "plain_id s \<longleftrightarrow> s \<noteq> [] \<and> 0x7C \<notin> set s"

text \<open>The ids a frame is encoded with do not confuse the cache of signature inputs.\<close>

definition plain_options :: "ustring \<Rightarrow> encode_options \<Rightarrow> bool" where
  "plain_options uuid opts \<longleftrightarrow> plain_id uuid \<and> (\<forall>t. opt_traceId opts = Some t \<longrightarrow> plain_id t) \<and>
     (\<forall>r. opt_requestId opts = Some r \<longrightarrow> 0x7C \<notin> set r)"

lemma decode_body:
  assumes num: "number_format (num_text lib) (num_read lib)" and z: "zlib_ok lib" and v: "jv_ok data"
    and body: "body_of lib ratio (utf8_encode (json_text (num_text lib) data)) body" and ratio: "ratio \<le> of_int hubMaxInflationRatio"
    and size: "int (utf8_len (json_text (num_text lib) data)) \<le> maxDecodedPayloadBytes"
    and val: "validatePayloadFrameForDecode env lib w st = (FOk (e, b_wireBytes body), st1)"
    and e: "e_cmp e = b_cmp body" "e_originalSize e = b_originalSize body"
  shows "decodePayloadFrame env lib w st =
    (FOk \<lparr>d_frame = e\<lparr>e_payload := WBuffer (b_wireBytes body)\<rparr>, d_data = data,
          d_decodedBytes = utf8_encode (json_text (num_text lib) data)\<rparr>, st1)"
proof -
  let ?t = "utf8_encode (json_text (num_text lib) data)"
  have n: "b_originalSize body = int (length ?t)" using body by (simp add: body_of_def)
  have within: "int (length (b_wireBytes body)) \<le> 0 \<or> int (length ?t) \<le> int (length (b_wireBytes body)) * hubMaxInflationRatio"
    if "b_cmp body = CmpGzip"
    using body that ratio unfolding within_ratio[symmetric] by (auto simp: body_of_def exceedsMaxInflationRatio_def)
  have checks: "finalize_checks e (b_wireBytes body) ?t"
    using n size within e by (simp add: finalize_checks_def utf8_encode_length)
  have "if e_cmp e = CmpGzip then gunzip lib None (b_wireBytes body) = Inflated ?t else ?t = b_wireBytes body"
    using body z e by (auto simp: body_of_def zlib_ok_def)
  moreover have "finalizeDecodedPayloadBytes lib e (b_wireBytes body) ?t =
      FOk \<lparr>d_frame = e\<lparr>e_payload := WBuffer (b_wireBytes body)\<rparr>, d_data = data, d_decodedBytes = ?t\<rparr>"
    using checks json_bytes_roundtrip[OF num v] by (simp add: finalize_ok)
  ultimately show ?thesis
    unfolding decode_equals_reference[OF z] reference_ok_iff[OF val] by blast
qed

lemma validate_finished:
  assumes num: "number_format (num_text lib) (num_read lib)"
    and h: "hash_ok lib S" "b_wireBytes body \<in> S" "cache_sound lib S st" "cache_sound lib S st'"
    and p: "plain_options uuid opts" and size: "0 \<le> b_originalSize body" "int (length (b_wireBytes body)) \<le> maxCompressedPayloadBytes"
    and k: "signing env \<longrightarrow> shares_key env env'" and hm: "\<And>key x. hmac_sha256 lib key x \<noteq> []"
    and f: "finishPayloadFrameEnvelope env lib uuid body opts st = (e, st1)"
  shows "\<exists>st2. validatePayloadFrameForDecode env' lib (to_wire e) st' = (FOk (e, b_wireBytes body), st2)"
    and "e_cmp e = b_cmp body" and "e_originalSize e = b_originalSize body" and "e_compressedSize e = int (length (b_wireBytes body))"
    and "e_payload e = WBuffer (b_wireBytes body)"
    and "e_requestId e = (case opt_requestId opts of None \<Rightarrow> IdAbsent | Some r \<Rightarrow> if r = [] then IdAbsent else IdStr r)"
    and "e_traceId e = (case opt_traceId opts of Some t \<Rightarrow> Some t | None \<Rightarrow> if omitTraceId opts then None else Some uuid)"
proof -
  define e0 where "e0 = \<lparr>e_cmp = b_cmp body, e_originalSize = b_originalSize body, e_compressedSize = int (length (b_wireBytes body)),
      e_payload = WBuffer (b_wireBytes body),
      e_traceId = (case opt_traceId opts of Some t \<Rightarrow> Some t | None \<Rightarrow> if omitTraceId opts then None else Some uuid),
      e_requestId = (case opt_requestId opts of None \<Rightarrow> IdAbsent | Some r \<Rightarrow> if r = [] then IdAbsent else IdStr r), e_signature = None\<rparr>"
  have fin: "signOutboundFrameIfConfigured env lib e0 (b_wireBytes body) st = (e, st1)"
    using f by (simp add: finishPayloadFrameEnvelope_def e0_def)
  have plain: "plain_ids e0" using p by (auto simp: e0_def plain_ids_def plain_options_def plain_id_def split: option.splits if_splits)
  obtain input st2 where i: "buildSignatureInput lib e0 (b_wireBytes body) st = (input, st2)" by fastforce
  obtain input' st3 where i': "buildSignatureInput lib e0 (b_wireBytes body) st' = (input', st3)" by fastforce
  have same: "input' = input"
    using buildSignatureInput_sound(1)[OF num h(1) h(3) plain h(2) i] buildSignatureInput_sound(1)[OF num h(1) h(4) plain h(2) i'] by simp
  have "(\<exists>s. e = e0\<lparr>e_signature := s\<rparr>) \<and> sig_block_ok e \<and> (\<exists>st4. validateFrameSignature env' lib e (b_wireBytes body) st' = (FOk (), st4))"
  proof (cases "signing env")
    case False
    then have "e = e0" using fin by (simp add: sign_unsigned)
    then show ?thesis by (auto simp: sig_block_ok_def e0_def validateFrameSignature_def intro: exI[of _ None])
  next
    case True
    obtain key where "payloadSigningKey env = Some key" "u_trim key \<noteq> []"
      "e = e0\<lparr>e_signature := Some (sig_fields env (base64 (hmac_sha256 lib key input)))\<rparr>"
      using sign_signed[OF True i] fin by (metis prod.inject)
    then show ?thesis using verify_signed[of env env' key lib input' e0 "b_wireBytes body" st'] i' k True hm same
      by (auto simp: sig_block_ok_def sig_fields_block)
  qed
  then obtain s st4 where e: "e = e0\<lparr>e_signature := s\<rparr>" and b: "sig_block_ok e"
    and v: "validateFrameSignature env' lib e (b_wireBytes body) st' = (FOk (), st4)" by blast
  have fields: "e_cmp e = b_cmp body" "e_originalSize e = b_originalSize body" "e_compressedSize e = int (length (b_wireBytes body))"
      "e_payload e = WBuffer (b_wireBytes body)" "e_requestId e = e_requestId e0" "e_traceId e = e_traceId e0"
    by (simp_all add: e e0_def)
  show "\<exists>st2. validatePayloadFrameForDecode env' lib (to_wire e) st' = (FOk (e, b_wireBytes body), st2)"
    using isPayloadFrameEnvelope_to_wire[OF _ _ b] size fields v
    by (simp add: validatePayloadFrameForDecode_def read_envelope_to_wire toBuffer_def)
  show "e_cmp e = b_cmp body" "e_originalSize e = b_originalSize body" "e_compressedSize e = int (length (b_wireBytes body))"
    "e_payload e = WBuffer (b_wireBytes body)"
    "e_requestId e = (case opt_requestId opts of None \<Rightarrow> IdAbsent | Some r \<Rightarrow> if r = [] then IdAbsent else IdStr r)"
    "e_traceId e = (case opt_traceId opts of Some t \<Rightarrow> Some t | None \<Rightarrow> if omitTraceId opts then None else Some uuid)"
    using fields by (simp_all add: e0_def)
qed

lemma finish_compressedSize: "e_compressedSize (fst (finishPayloadFrameEnvelope env lib uuid body opts st)) = int (length (b_wireBytes body))"
  by (simp add: finishPayloadFrameEnvelope_def signOutboundFrameIfConfigured_def case_prod_beta split: option.split)

lemma finished_frame_decodes:
  assumes num: "number_format (num_text lib) (num_read lib)" and z: "zlib_ok lib"
    and data: "jv_ok data" "int (utf8_len (json_text (num_text lib) data)) \<le> maxDecodedPayloadBytes"
    and body: "body_of lib ratio (utf8_encode (json_text (num_text lib) data)) body" and ratio: "ratio \<le> of_int hubMaxInflationRatio"
    and h: "hash_ok lib S" "b_wireBytes body \<in> S" "cache_sound lib S st" "cache_sound lib S st'"
    and p: "plain_options uuid opts" and size: "int (length (b_wireBytes body)) \<le> maxCompressedPayloadBytes"
    and k: "signing env \<longrightarrow> shares_key env env'" and hm: "\<And>key x. hmac_sha256 lib key x \<noteq> []"
    and f: "finishPayloadFrameEnvelope env lib uuid body opts st = (e, st1)"
  shows "\<exists>st2. decodePayloadFrame env' lib (to_wire e) st' =
      (FOk \<lparr>d_frame = e, d_data = data, d_decodedBytes = utf8_encode (json_text (num_text lib) data)\<rparr>, st2) \<and>
    e_requestId e = (case opt_requestId opts of None \<Rightarrow> IdAbsent | Some r \<Rightarrow> if r = [] then IdAbsent else IdStr r) \<and>
    e_traceId e = (case opt_traceId opts of Some t \<Rightarrow> Some t | None \<Rightarrow> if omitTraceId opts then None else Some uuid)"
proof -
  have n: "0 \<le> b_originalSize body" using body by (simp add: body_of_def)
  note v = validate_finished[OF num h p n size k hm f]
  obtain st2 where "validatePayloadFrameForDecode env' lib (to_wire e) st' = (FOk (e, b_wireBytes body), st2)" using v(1) by blast
  from decode_body[OF num z data(1) body ratio data(2) this v(2,3)] v(5-7) show ?thesis by simp
qed

section \<open>Properties\<close>

text \<open>What is assumed of the libraries: numbers and gzip round trip, digests are not empty, and the hash
  of the cache keys has no collision among the payloads of \<open>S\<close>.\<close>

definition codec_ok :: "frame_lib \<Rightarrow> bytes set \<Rightarrow> bool" where
  "codec_ok lib S \<longleftrightarrow> number_format (num_text lib) (num_read lib) \<and> zlib_ok lib \<and> hash_ok lib S \<and> (\<forall>key x. hmac_sha256 lib key x \<noteq> [])"

lemma encode_bridge_body:
  fixes lib data
  defines "t \<equiv> utf8_encode (json_text (num_text lib) data)"
  obtains body st0 where "encodePayloadFrameBridge env lib uuid now others data opts st = finishPayloadFrameEnvelope env lib uuid body opts st0"
    and "body_of lib (ratio_of opts) t body"
    and "(\<And>s. cache_sound lib S s \<Longrightarrow> cache_sound lib S (others s)) \<Longrightarrow> cache_sound lib S st \<Longrightarrow> cache_sound lib S st0"
proof -
  define pre where "pre = opts\<lparr>compressionThreshold := Some (effectiveEncodeCompressionThreshold env (compressionThreshold opts) (int (length t)))\<rparr>"
  define r where "r = (if nullish (asyncGzipMinUtf8Bytes opts) (payloadFrameAsyncGzipMinUtf8Bytes env) > 0 \<and> gzip_eligible env pre (int (length t)) \<and>
      int (length t) \<ge> nullish (asyncGzipMinUtf8Bytes opts) (payloadFrameAsyncGzipMinUtf8Bytes env)
    then preencodeUtf8BufferAsync env lib now others t pre st else preencodeUtf8Buffer env lib now t pre st)"
  have ratio: "ratio_of pre = ratio_of opts" by (simp add: pre_def)
  show thesis
  proof (rule that[of "fst r" "snd r"])
    show "encodePayloadFrameBridge env lib uuid now others data opts st = finishPayloadFrameEnvelope env lib uuid (fst r) opts (snd r)"
      by (auto simp: encodePayloadFrameBridge_def encodePayloadFrame_def r_def pre_def t_def Let_def case_prod_beta)
    show "body_of lib (ratio_of opts) t (fst r)"
      using preencode_body preencode_async_body unfolding ratio[symmetric] by (simp add: r_def)
  qed (use preencode_cache preencode_async_cache in \<open>auto simp: r_def\<close>)
qed


text \<open>C12: Bounded decompression changes nothing but the work. Whatever the frame, the decoder accepts it with a given result exactly when inflating the
  whole payload first and checking the limits afterwards does.\<close>

theorem bounded_decode_exact:
  assumes "zlib_ok lib"
  shows "decodePayloadFrameAsync env lib w st = (FOk d, st2) \<longleftrightarrow> decode_reference env lib w st = (FOk d, st2)"
  using decode_equals_reference[OF assms] by (simp add: decode_async)


lemma accepted_signature:
  assumes v: "validateFrameSignature env lib e b st = (FOk (), st')" and s: "e_signature e = Some ob"
    and i: "fst (buildSignatureInput lib e b st) = input"
  obtains sg secret kind where "toSignatureEnvelope ob = Some sg" and "resolveSignatureVerificationKey env sg st = (FOk (secret, kind), st)"
    and "utf8_encode (base64 (hmac_sha256 lib secret input)) = utf8_encode (u_trim (sig_value sg))"
proof -
  obtain sg where sg: "toSignatureEnvelope ob = Some sg" "sig_alg sg = ustr ''hmac-sha256''"
    using v s by (auto simp: validateFrameSignature_def rejectSignature_def split: option.splits if_splits)
  obtain res st1 where r: "resolveSignatureVerificationKey env sg st = (res, st1)" by fastforce
  obtain secret kind where ok: "res = FOk (secret, kind)"
    using v s sg r by (auto simp: validateFrameSignature_def split: fres.splits)
  have "st1 = st" using r unfolding ok
    by (auto simp: resolveSignatureVerificationKey_def rejectSignature_def Let_def split: if_splits option.splits)
  then show thesis using that[OF sg(1)] r ok v s sg i
    by (auto simp: validateFrameSignature_def rejectSignature_def Let_def split: if_splits prod.splits)
qed

definition configured_key :: "frame_env \<Rightarrow> ustring \<Rightarrow> bool" where
  "configured_key env secret \<longleftrightarrow> u_trim secret \<noteq> [] \<and> (payloadSigningKey env = Some secret \<or> (\<exists>k. jm_get (payloadSigningPreviousKeys env) k = Some secret))"

lemma resolve_configured:
  "resolveSignatureVerificationKey env sg st = (FOk (secret, kind), st') \<Longrightarrow> configured_key env secret"
  by (auto simp: resolveSignatureVerificationKey_def rejectSignature_def configured_key_def blank_opt_def Let_def
      split: if_splits option.splits)

lemma resolve_state_independent:
  "resolveSignatureVerificationKey env sg st = (FOk (secret, kind), st1) \<Longrightarrow>
   resolveSignatureVerificationKey env sg st' = (FOk (secret', kind'), st1') \<Longrightarrow> secret = secret'"
  by (auto simp: resolveSignatureVerificationKey_def rejectSignature_def Let_def split: if_splits option.splits)

lemma decode_validates:
  assumes "decodePayloadFrame env lib w st = (FOk d, st')"
  obtains b st1 where "toBuffer lib (e_payload (read_envelope w)) = Some b"
    and "validateFrameSignature env lib (read_envelope w) b st = (FOk (), st1)" and "isPayloadFrameEnvelope w"
  using assms
  by (auto simp: decodePayloadFrame_def validatePayloadFrameForDecode_def Let_def
      split: fres.splits if_splits option.splits prod.splits)

lemma utf8_base64_inj: "utf8_encode (base64 x) = utf8_encode (base64 y) \<Longrightarrow> x = y"
proof -
  have "well_formed (base64 z)" for z
    using base64_plain[of z] by (intro ascii_well_formed) (auto simp: ascii_def list_all_iff plain_unit_def)
  then show "utf8_encode (base64 x) = utf8_encode (base64 y) \<Longrightarrow> x = y" by (metis utf8_roundtrip base64_inj)
qed


lemma verification_reads_cache:
  assumes e: "e_signature e = Some ob" "toSignatureEnvelope ob = Some sg" "sig_alg sg = ustr ''hmac-sha256''"
    and r: "resolveSignatureVerificationKey env sg st = (FOk (secret, kind), st)"
    and i: "fst (buildSignatureInput lib e b st) = input"
  shows "fst (validateFrameSignature env lib e b st) = FOk () \<longleftrightarrow>
    u_trim (sig_value sg) \<noteq> [] \<and> utf8_encode (base64 (hmac_sha256 lib secret input)) = utf8_encode (u_trim (sig_value sg))"
  using assms by (auto simp: validateFrameSignature_def rejectSignature_def Let_def case_prod_beta)

lemma cached_after_build:
  assumes "int (length b) \<le> SIGNATURE_INPUT_CACHE_MAX_PAYLOAD_BYTES"
    and "buildSignatureInput lib e b st = (input, st1)"
    and "signatureInputCanonicalCache st2 = signatureInputCanonicalCache st1"
    and "buildSignatureInputCacheKey lib e' b = buildSignatureInputCacheKey lib e b"
  shows "buildSignatureInput lib e' b st2 = (input, st2)"
  using assms by (auto simp: buildSignatureInput_def Let_def split: if_splits option.splits)

lemma resolve_any_state:
  "resolveSignatureVerificationKey env sg st = (FOk x, st1) \<Longrightarrow> resolveSignatureVerificationKey env sg st' = (FOk x, st')"
  by (auto simp: resolveSignatureVerificationKey_def rejectSignature_def Let_def split: if_splits option.splits)

text \<open>C39: The cache of signature inputs confuses frames. The parts of its key are joined by a bar that may also occur in the ids. When a frame with a bar
  in its trace id has been verified, the frame in which the text behind the bar is moved from the trace id to the request id is accepted
  with the same signature, although its own signature input is another one and, without the cached entry, the frame is refused unless HMAC collides.\<close>

theorem signature_cache_confuses_ids:
  assumes num: "number_format (num_text lib) (num_read lib)"
    and e: "e_traceId e = Some (t @ 0x7C # u)" "e_requestId e = IdStr r" "e_signature e = Some ob"
    and small: "int (length b) \<le> SIGNATURE_INPUT_CACHE_MAX_PAYLOAD_BYTES"
    and ok: "validateFrameSignature env lib e b fresh_frame_state = (FOk (), st1)"
    and forged: "e' = e\<lparr>e_traceId := Some t, e_requestId := IdStr (u @ 0x7C # r)\<rparr>"
    and hmac: "\<And>key. hmac_sha256 lib key (canonical_input lib e' b) \<noteq> hmac_sha256 lib key (canonical_input lib e b)"
  shows "fst (validateFrameSignature env lib e' b st1) = FOk () \<and> signed_fields e' b \<noteq> signed_fields e b \<and>
    fst (validateFrameSignature env lib e' b fresh_frame_state) \<noteq> FOk ()"
proof -
  have fresh: "fst (buildSignatureInput lib x b fresh_frame_state) = canonical_input lib x b" for x
    by (simp add: buildSignatureInput_def fresh_frame_state_def canonical_input_def Let_def)
  obtain input st2 where i: "buildSignatureInput lib e b fresh_frame_state = (input, st2)" by fastforce
  have input: "input = canonical_input lib e b" using fresh[of e] i by simp
  obtain sg where sg: "toSignatureEnvelope ob = Some sg" "sig_alg sg = ustr ''hmac-sha256''"
    using ok e(3) by (auto simp: validateFrameSignature_def rejectSignature_def split: option.splits if_splits)
  obtain secret kind where res: "resolveSignatureVerificationKey env sg fresh_frame_state = (FOk (secret, kind), fresh_frame_state)"
    and val: "utf8_encode (base64 (hmac_sha256 lib secret input)) = utf8_encode (u_trim (sig_value sg))"
  proof -
    have "fst (buildSignatureInput lib e b fresh_frame_state) = input" using i by simp
    from accepted_signature[OF ok e(3) this] sg(1) that show thesis by (metis option.inject)
  qed
  have ne: "u_trim (sig_value sg) \<noteq> []" using ok by (auto simp: validateFrameSignature_def e(3) sg res i rejectSignature_def Let_def split: if_splits)
  have cache: "signatureInputCanonicalCache st1 = signatureInputCanonicalCache st2"
    using ok ne val by (auto simp: validateFrameSignature_def e(3) sg res i Let_def)
  have e': "e_signature e' = Some ob" by (simp add: forged e(3))
  have key: "buildSignatureInputCacheKey lib e' b = buildSignatureInputCacheKey lib e b"
    by (simp add: buildSignatureInputCacheKey_def forged e(1,2) id_or_empty_def Let_def)
  have "fst (buildSignatureInput lib e' b st1) = input" using cached_after_build[OF small i cache key] by simp
  from verification_reads_cache[OF e' sg resolve_any_state[OF res] this] ne val
  have acc: "fst (validateFrameSignature env lib e' b st1) = FOk ()" by simp
  have "hmac_sha256 lib secret (canonical_input lib e' b) \<noteq> hmac_sha256 lib secret input" using hmac input by blast
  then have "utf8_encode (base64 (hmac_sha256 lib secret (canonical_input lib e' b))) \<noteq> utf8_encode (u_trim (sig_value sg))"
    using val utf8_base64_inj by metis
  then have "fst (validateFrameSignature env lib e' b fresh_frame_state) \<noteq> FOk ()"
    unfolding verification_reads_cache[OF e' sg res fresh] by simp
  moreover have "signed_fields e' b \<noteq> signed_fields e b" by (simp add: signed_fields_def forged e)
  ultimately show ?thesis using acc by blast
qed

text \<open>A key id that names an inherited property of objects makes the decoder throw instead of refusing the frame.\<close>

lemma inherited_key_id_throws:
  assumes "e_signature e = Some ob" and "toSignatureEnvelope ob = Some sg" and "sig_alg sg = ustr ''hmac-sha256''"
    and "sig_key_id sg = Some k" and "u_trim k \<in> set Object_prototype" and "u_trim k \<noteq> []"
    and "jm_get (payloadSigningPreviousKeys env) (u_trim k) = None" and "map_option u_trim (payloadSigningKeyId env) \<noteq> Some (u_trim k)"
  shows "fst (validateFrameSignature env lib e b st) = FThrow"
  using assms by (auto simp: validateFrameSignature_def resolveSignatureVerificationKey_def blank_opt_def Let_def split: option.split)

text \<open>The negative cache holds at most 64 classes, and a class is skipped for at most 30 seconds after an attempt failed.\<close>

definition adaptive_ok :: "int \<Rightarrow> frame_state \<Rightarrow> bool" where
  "adaptive_ok now st \<longleftrightarrow> jm_size (incompressibleUntil st) \<le> ADAPTIVE_COMPRESSION_CACHE_MAX_ENTRIES \<and>
     (\<forall>k u. jm_get (incompressibleUntil st) k = Some u \<longrightarrow> u \<le> now + ADAPTIVE_COMPRESSION_SKIP_TTL_MS)"

lemma adaptive_later: "adaptive_ok now st \<Longrightarrow> now \<le> t \<Longrightarrow> adaptive_ok t st"
  by (force simp: adaptive_ok_def)

lemma adaptive_del: "adaptive_ok t st \<Longrightarrow> adaptive_ok t (st\<lparr>incompressibleUntil := jm_del key (incompressibleUntil st)\<rparr>)"
  using jm_size_del_le[of key "incompressibleUntil st"] by (auto simp: adaptive_ok_def)

lemma adaptive_touch:
  assumes "adaptive_ok t st" and "u \<le> t + ADAPTIVE_COMPRESSION_SKIP_TTL_MS"
  shows "adaptive_ok t (st\<lparr>incompressibleUntil := frame_touch key u (incompressibleUntil st)\<rparr>)"
proof -
  have "v \<le> t + ADAPTIVE_COMPRESSION_SKIP_TTL_MS" if "jm_get (frame_touch key u (incompressibleUntil st)) k = Some v" for k v
    using trim_oldest_get[OF that[unfolded frame_touch_def]] assms by (auto simp: adaptive_ok_def split: if_splits)
  then show ?thesis using trim_oldest_size by (simp add: adaptive_ok_def frame_touch_def)
qed

lemma adaptive_cache_bounded:
  assumes "adaptive_ok now st" and "now \<le> t"
  shows "adaptive_ok t (recordAutoGzipAttempt ev n reduced t st)" and "adaptive_ok t (snd (shouldSkipAutoGzip ev n t st))"
proof -
  note later = adaptive_later[OF assms]
  show "adaptive_ok t (recordAutoGzipAttempt ev n reduced t st)"
    using adaptive_touch[OF later] adaptive_del[OF later] by (simp add: recordAutoGzipAttempt_def Let_def)
  have "u \<le> t + ADAPTIVE_COMPRESSION_SKIP_TTL_MS" if "jm_get (incompressibleUntil st) k = Some u" for k u
    using later that by (simp add: adaptive_ok_def)
  then show "adaptive_ok t (snd (shouldSkipAutoGzip ev n t st))"
    using adaptive_touch[OF later] adaptive_del[OF later] later by (auto simp: shouldSkipAutoGzip_def Let_def split: option.split)
qed

section \<open>Concrete instances\<close>

text \<open>An instance of the library with a trivial compression that prefixes a byte, and a digest that keeps its input.\<close>

definition sample_gunzip :: "int option \<Rightarrow> bytes \<Rightarrow> gunzip_result" where
  "sample_gunzip cap z =
     (case z of [] \<Rightarrow> Corrupt
      | x # b \<Rightarrow> if x \<noteq> 0 then Corrupt
                 else (case cap of None \<Rightarrow> Inflated b | Some c \<Rightarrow> if int (length b) \<le> c then Inflated b else TooLarge))"

definition sample_lib :: frame_lib where
  "sample_lib = \<lparr>gzip = (\<lambda>level b. 0 # b), gunzip = sample_gunzip, hmac_sha256 = (\<lambda>key x. 1 # x), sha256_hex = base64,
     from_base64 = (\<lambda>s. []), num_text = fraction_text, num_read = fraction_read\<rparr>"

definition sample_frame_env :: frame_env where
  "sample_frame_env = \<lparr>payloadFrameCompressMinBytes = 0, payloadFrameMaxGzipInputBytes = 1000, payloadFrameGzipLevel = None,
     payloadFrameAutoGzipMinSavingsBytes = 1, payloadFrameAsyncGzipMinUtf8Bytes = 1, payloadFrameAsyncGunzipMinCompressedBytes = 1,
     payloadSignOutbound = True, payloadSigningKey = Some (ustr ''secret''), payloadSigningKeyId = Some (ustr ''k1''),
     payloadSigningPreviousKeys = []\<rparr>"

lemma sample_zlib: "zlib_ok sample_lib"
  by (auto simp: zlib_ok_def sample_lib_def sample_gunzip_def split: list.split option.splits)

lemma sample_codec: "codec_ok sample_lib UNIV"
proof -
  have "0x7C \<notin> set (base64 b)" for b
  proof -
    have "b64_char n \<noteq> 0x7C" if "n < 64" for n
      using b64_char_unat[OF that] that by (auto split: if_splits)
    then show ?thesis by (induction b rule: base64.induct) (auto simp: sextets)
  qed
  then show ?thesis using sample_zlib number_format_fraction
    by (simp add: codec_ok_def hash_ok_def sample_lib_def inj_on_def base64_inj)
qed

definition sample_options :: encode_options where
  "sample_options = default_encode_options\<lparr>compressionThreshold := Some (Bytes 1), compressionPolicy := Some AlwaysGzip, opt_requestId := Some (ustr ''r1'')\<rparr>"

lemma sample_text: "utf8_encode (json_text (num_text sample_lib) (JvBool True)) = [116, 114, 117, 101]"
  by (simp add: ustr_Cons unit_bytes_def cp_bytes_def high_surrogate_def low_surrogate_def)


definition sample_frame :: envelope where
  "sample_frame = \<lparr>e_cmp = CmpGzip, e_originalSize = 4, e_compressedSize = 5, e_payload = WBuffer [0, 116, 114, 117, 101],
     e_traceId = Some (ustr ''t''), e_requestId = IdStr (ustr ''r''), e_signature = None\<rparr>"

lemma sample_parse: "JSON_parse (num_read sample_lib) (utf8_decode [116, 114, 117, 101]) = Some (JvBool True)"
  using json_bytes_roundtrip[of "num_text sample_lib" "num_read sample_lib" "JvBool True"] sample_codec
  unfolding codec_ok_def sample_text by simp

lemma sample_validate:
  assumes "e_signature e = None" and "e_payload e = WBuffer b" and "e_compressedSize e = int (length b)" and "0 \<le> e_originalSize e"
    and "int (length b) \<le> maxCompressedPayloadBytes"
  shows "validatePayloadFrameForDecode env lib (to_wire e) st = (FOk (e, b), st)"
  using assms isPayloadFrameEnvelope_to_wire[of e]
  by (simp add: validatePayloadFrameForDecode_def read_envelope_to_wire toBuffer_def sig_block_ok_def validateFrameSignature_def)

theorem bounded_decode_exact_witness:
  "decodePayloadFrameAsync sample_frame_env sample_lib (to_wire sample_frame) fresh_frame_state =
     (FOk \<lparr>d_frame = sample_frame, d_data = JvBool True, d_decodedBytes = [116, 114, 117, 101]\<rparr>, fresh_frame_state)"
  unfolding bounded_decode_exact[OF sample_zlib]
  by (subst reference_ok_iff[OF sample_validate[of sample_frame "[0, 116, 114, 117, 101]"]])
    (simp_all add: sample_frame_def sample_lib_def[THEN arg_cong[where f = gunzip]] sample_gunzip_def maxCompressedPayloadBytes_def
      finalize_ok finalize_checks_def maxDecodedPayloadBytes_def hubMaxInflationRatio_def sample_parse)


text \<open>A signed frame and its decoding.\<close>

definition sample_signed :: envelope where
  "sample_signed = fst (finishPayloadFrameEnvelope sample_frame_env sample_lib (ustr ''u'') (uncompressedBody [116, 114, 117, 101]) sample_options fresh_frame_state)"

lemma sample_signed_decodes:
  "\<exists>d st2. decodePayloadFrame sample_frame_env sample_lib (to_wire sample_signed) fresh_frame_state = (FOk d, st2)"
proof -
  have l: "number_format (num_text sample_lib) (num_read sample_lib)" "hash_ok sample_lib UNIV" "\<And>key x. hmac_sha256 sample_lib key x \<noteq> []"
    using sample_codec by (simp_all add: codec_ok_def)
  have u: "int (utf8_len (json_text (num_text sample_lib) (JvBool True))) \<le> maxDecodedPayloadBytes"
    using utf8_encode_length[of "json_text (num_text sample_lib) (JvBool True)"] unfolding sample_text by (simp add: maxDecodedPayloadBytes_def)
  have b: "body_of sample_lib 1 (utf8_encode (json_text (num_text sample_lib) (JvBool True))) (uncompressedBody [116, 114, 117, 101])"
    unfolding sample_text by (simp add: body_of_def uncompressedBody_def)
  have p: "plain_options (ustr ''u'') sample_options"
    by (simp add: plain_options_def plain_id_def sample_options_def default_encode_options_def ustr_Cons)
  have s: "finishPayloadFrameEnvelope sample_frame_env sample_lib (ustr ''u'') (uncompressedBody [116, 114, 117, 101]) sample_options fresh_frame_state =
      (sample_signed, snd (finishPayloadFrameEnvelope sample_frame_env sample_lib (ustr ''u'') (uncompressedBody [116, 114, 117, 101]) sample_options fresh_frame_state))"
    by (simp add: sample_signed_def)
  show ?thesis
    using finished_frame_decodes[OF l(1) sample_zlib _ u b _ l(2) UNIV_I cache_sound_fresh cache_sound_fresh p _ _ l(3) s, of sample_frame_env]
    by (auto simp: hubMaxInflationRatio_def uncompressedBody_def maxCompressedPayloadBytes_def shares_key_def sample_frame_env_def blank_opt_def)
qed

lemma sample_signed_fields:
  "e_payload sample_signed = WBuffer [116, 114, 117, 101]" "plain_ids sample_signed"
  "\<exists>ob. e_signature sample_signed = Some ob"
  by (auto simp: sample_signed_def finishPayloadFrameEnvelope_def signOutboundFrameIfConfigured_def sample_frame_env_def uncompressedBody_def plain_ids_def
      sample_options_def default_encode_options_def case_prod_beta ustr_Cons u_trim_def js_space_def split: option.splits)


definition sample_confused :: envelope where
  "sample_confused = \<lparr>e_cmp = CmpNone, e_originalSize = 1, e_compressedSize = 1, e_payload = WBuffer [49],
     e_traceId = Some (ustr ''a'' @ 0x7C # ustr ''b''), e_requestId = IdStr (ustr ''c''), e_signature = None\<rparr>"

theorem signature_cache_confuses_ids_witness:
  "\<exists>e st1. validateFrameSignature sample_frame_env sample_lib e [49] fresh_frame_state = (FOk (), st1) \<and>
     fst (validateFrameSignature sample_frame_env sample_lib (e\<lparr>e_traceId := Some (ustr ''a''), e_requestId := IdStr (ustr ''b'' @ 0x7C # ustr ''c'')\<rparr>) [49] st1) = FOk ()"
proof -
  let ?i = "canonical_input sample_lib sample_confused [49]"
  let ?e = "sample_confused\<lparr>e_signature := Some (sig_fields sample_frame_env (base64 (hmac_sha256 sample_lib (ustr ''secret'') ?i)))\<rparr>"
  let ?e' = "?e\<lparr>e_traceId := Some (ustr ''a''), e_requestId := IdStr (ustr ''b'' @ 0x7C # ustr ''c'')\<rparr>"
  have num: "number_format (num_text sample_lib) (num_read sample_lib)" using sample_codec by (simp add: codec_ok_def)
  obtain s where b: "buildSignatureInput sample_lib sample_confused [49] fresh_frame_state = (?i, s)"
    by (auto simp: buildSignatureInput_def fresh_frame_state_def canonical_input_def Let_def SIGNATURE_INPUT_CACHE_MAX_PAYLOAD_BYTES_def)
  have k: "shares_key sample_frame_env sample_frame_env" "payloadSigningKey sample_frame_env = Some (ustr ''secret'')" "u_trim (ustr ''secret'') \<noteq> []"
    by (simp_all add: shares_key_def sample_frame_env_def blank_opt_def ustr_Cons u_trim_def js_space_def)
  have h: "hmac_sha256 sample_lib key x = 1 # x" for key x by (simp add: sample_lib_def)
  obtain st1 where v: "validateFrameSignature sample_frame_env sample_lib ?e [49] fresh_frame_state = (FOk (), st1)"
    using verify_signed[OF k _ b] by (auto simp: h)
  have "signed_fields ?e' [49] \<noteq> signed_fields ?e [49]" by (simp add: signed_fields_def sample_confused_def)
  then have "canonical_input sample_lib ?e' [49] \<noteq> canonical_input sample_lib ?e [49]" using canonical_input_inj[OF num] by blast
  then have "fst (validateFrameSignature sample_frame_env sample_lib ?e' [49] st1) = FOk ()"
    using signature_cache_confuses_ids[OF num _ _ _ _ v refl, of "ustr ''a''" "ustr ''b''" "ustr ''c''"]
    by (auto simp: sample_confused_def h SIGNATURE_INPUT_CACHE_MAX_PAYLOAD_BYTES_def)
  then show ?thesis using v by blast
qed

end
