(* ===== verification/Handler_Process.thy ===== *)
theory Handler_Process
  imports Prelude
begin

text \<open>
  Asynchronous request handlers as processes. A handler runs up to an \<^verbatim>\<open>await\<close>, where a call on the shared state is made and other
  handlers may run before it goes on. A process is therefore a result or an action: a call on the shared state together with what
  follows it, and what follows when the call throws. \<open>run\<close> executes a process alone; \<open>sys_step\<close> interleaves any number of processes with each
  other, with failing calls and with changes of the state from outside.

  \<open>guar\<close> is the proof rule for interleavings: a process of which every action keeps an assertion, whatever happened before it, can be
  added to a system with that assertion. The locale \<open>handler_system\<close> turns this into an invariant of all reachable systems.
\<close>

datatype ('s, 'r) proc = Ret 'r | Act "'s \<Rightarrow> ('s, 'r) proc \<times> 's" "('s, 'r) proc"

primrec run :: "('s, 'r) proc \<Rightarrow> 's \<Rightarrow> 'r \<times> 's" where
  "run (Ret r) = (\<lambda>s. (r, s))"
| "run (Act f e) = (\<lambda>s. case (map_prod run id \<circ> f) s of (k, s') \<Rightarrow> k s')"

lemma run_Act [simp]: "run (Act f e) s = run (fst (f s)) (snd (f s))"
  by (simp add: case_prod_beta)

declare run.simps(2) [simp del]

text \<open>An action that makes a call: its answer is passed to the continuation.\<close>

definition call :: "('s \<Rightarrow> 'a \<times> 's) \<Rightarrow> ('s, 'r) proc \<Rightarrow> ('a \<Rightarrow> ('s, 'r) proc) \<Rightarrow> ('s, 'r) proc" where
  "call operation onThrow k = Act (\<lambda>s. case operation s of (a, s') \<Rightarrow> (k a, s')) onThrow"

lemma run_call [simp]: "run (call operation onThrow k) s = run (k (fst (operation s))) (snd (operation s))"
  by (simp add: call_def case_prod_beta)

section \<open>Interleaving\<close>

type_synonym ('s, 'r) system = "'s \<times> ('s, 'r) proc list"

inductive sys_step :: "('s, 'r) proc set \<Rightarrow> ('s \<Rightarrow> 's \<Rightarrow> bool) \<Rightarrow> ('s, 'r) system \<Rightarrow> ('s, 'r) system \<Rightarrow> bool"
  for handlers env where
  sys_spawn: "p \<in> handlers \<Longrightarrow> sys_step handlers env (s, ps) (s, ps @ [p])"
| sys_act: "i < length ps \<Longrightarrow> ps ! i = Act f e \<Longrightarrow> sys_step handlers env (s, ps) (snd (f s), ps[i := fst (f s)])"
| sys_throw: "i < length ps \<Longrightarrow> ps ! i = Act f e \<Longrightarrow> sys_step handlers env (s, ps) (s, ps[i := e])"
| sys_env: "env s s' \<Longrightarrow> sys_step handlers env (s, ps) (s', ps)"

inductive_cases sys_stepE: "sys_step handlers env st st'"

inductive guar :: "('s \<Rightarrow> bool) \<Rightarrow> ('s, 'r) proc \<Rightarrow> bool" for I where
  guar_Ret [intro!, simp]: "guar I (Ret r)"
| guar_Act: "(\<And>s. I s \<Longrightarrow> I (snd (f s)) \<and> guar I (fst (f s))) \<Longrightarrow> guar I e \<Longrightarrow> guar I (Act f e)"

inductive_cases guar_ActE: "guar I (Act f e)"

named_theorems guar_intros \<open>rules that decompose a process into its calls\<close>

lemma guar_call [guar_intros]:
  assumes "\<And>s a s'. I s \<Longrightarrow> operation s = (a, s') \<Longrightarrow> I s' \<and> guar I (k a)" and "guar I e"
  shows "guar I (call operation e k)"
  unfolding call_def
proof (rule guar_Act)
  fix s assume "I s"
  then show "I (snd (case operation s of (a, s') \<Rightarrow> (k a, s'))) \<and> guar I (fst (case operation s of (a, s') \<Rightarrow> (k a, s')))"
    using assms(1)[of s "fst (operation s)" "snd (operation s)"] by (simp add: case_prod_beta)
qed (fact assms(2))

definition procs_inv :: "('s \<Rightarrow> bool) \<Rightarrow> ('s, 'r) system \<Rightarrow> bool" where
  "procs_inv I st \<longleftrightarrow> I (fst st) \<and> (\<forall>p \<in> set (snd st). guar I p)"

lemma procs_inv_step:
  assumes "procs_inv I st" and "sys_step handlers env st st'"
    and h: "\<And>p. p \<in> handlers \<Longrightarrow> guar I p" and e: "\<And>s s'. I s \<Longrightarrow> env s s' \<Longrightarrow> I s'"
  shows "procs_inv I st'"
  using assms(2,1)
proof (cases rule: sys_step.cases)
  case (sys_act i ps f x s)
  have "guar I (Act f x)" using assms(1) sys_act nth_mem by (force simp: procs_inv_def)
  then have "I (snd (f s)) \<and> guar I (fst (f s))" using assms(1) sys_act by (auto simp: procs_inv_def elim: guar_ActE)
  then show ?thesis using assms(1) sys_act by (auto simp: procs_inv_def dest: set_update_subset_insert[THEN subsetD])
next
  case (sys_throw i ps f x s)
  have "guar I (Act f x)" using assms(1) sys_throw nth_mem by (force simp: procs_inv_def)
  then show ?thesis using assms(1) sys_throw
    by (auto simp: procs_inv_def elim: guar_ActE dest: set_update_subset_insert[THEN subsetD])
qed (use h e assms(1) in \<open>auto simp: procs_inv_def\<close>)

text \<open>The contract of a set of handlers for an assertion on the shared state.\<close>

locale handler_system =
  fixes I :: "'s \<Rightarrow> bool"
    and handlers :: "('s, 'r) proc set"
    and env :: "'s \<Rightarrow> 's \<Rightarrow> bool"
  assumes handlers_guar: "p \<in> handlers \<Longrightarrow> guar I p"
    and env_keeps: "I s \<Longrightarrow> env s s' \<Longrightarrow> I s'"
begin

lemma interleaving_keeps:
  assumes "reachable (s0, []) (sys_step handlers env) st" and "I s0"
  shows "I (fst st)"
proof -
  have "procs_inv I st"
    using assms(1)
  proof (induction rule: reachable.induct)
    case reach_init
    then show ?case using assms(2) by (simp add: procs_inv_def)
  next
    case (reach_step s t)
    then show ?case using handlers_guar env_keeps by (blast intro: procs_inv_step)
  qed
  then show ?thesis by (simp add: procs_inv_def)
qed

text \<open>A handler that runs alone keeps the assertion too.\<close>

lemma run_keeps: "guar I p \<Longrightarrow> I s \<Longrightarrow> I (snd (run p s))"
proof (induction arbitrary: s rule: guar.induct)
  case (guar_Act f e)
  then show ?case by auto
qed simp

lemma handler_keeps: "p \<in> handlers \<Longrightarrow> I s \<Longrightarrow> I (snd (run p s))"
  by (blast intro: run_keeps handlers_guar)

end

text \<open>Interleavings include handlers that run one after another.\<close>

lemma run_reachable_from:
  "reachable st0 (sys_step handlers env) (s, ps @ [p]) \<Longrightarrow> reachable st0 (sys_step handlers env) (snd (run p s), ps @ [Ret (fst (run p s))])"
proof (induction p arbitrary: s)
  case (Act f e)
  have "sys_step handlers env (s, ps @ [Act f e]) (snd (f s), ps @ [fst (f s)])"
    using sys_act[of "length ps" "ps @ [Act f e]" f e handlers env s] by simp
  then have "reachable st0 (sys_step handlers env) (snd (f s), ps @ [fst (f s)])" using Act(3) by (rule reach_step[rotated])
  then show ?case using Act(1)[OF rangeI, of "fst (f s)" s "snd (f s)"] by (cases "f s") (simp add: prod_set_defs)
qed simp

lemma run_reachable:
  assumes "reachable st0 (sys_step handlers env) (s, ps)" and "p \<in> handlers"
  shows "reachable st0 (sys_step handlers env) (snd (run p s), ps @ [Ret (fst (run p s))])"
  using assms by (intro run_reachable_from reach_step[OF assms(1)] sys_spawn)

lemma reach_call:
  assumes "reachable st0 (sys_step handlers env) (s, ps @ call operation e k # qs)"
  shows "reachable st0 (sys_step handlers env) (snd (operation s), ps @ k (fst (operation s)) # qs)"
proof -
  let ?f = "\<lambda>s. case operation s of (a, s') \<Rightarrow> (k a, s')"
  have "sys_step handlers env (s, ps @ call operation e k # qs) (snd (?f s), (ps @ call operation e k # qs)[length ps := fst (?f s)])"
    by (rule sys_act) (simp_all add: call_def)
  then show ?thesis using assms by (auto simp: case_prod_beta intro: reach_step)
qed

lemma reach_spawn:
  assumes "reachable st0 (sys_step handlers env) (s, ps)" and "p \<in> handlers"
  shows "reachable st0 (sys_step handlers env) (s, ps @ [p])"
  using assms(1) sys_spawn[OF assms(2)] by (rule reach_step)

end
