(* ===== verification/Client_Access.thy ===== *)
theory Client_Access
  imports Handler_Process
begin

text \<open>
  Access of clients to agents: \<^verbatim>\<open>client_agent_access_request.service.ts\<close> (a client asks for access, retries, gives it up) and
  \<^verbatim>\<open>client_agent_access_decision.service.ts\<close> (the owner of an agent decides by mail link or in the application, and revokes), over the
  repositories and transactions of \<^verbatim>\<open>infrastructure/repositories/in_memory_client_agent_access*.ts\<close> and \<^verbatim>\<open>infrastructure/persistence\<close>.

  The repositories are one shared state; every repository call, transaction, mail and socket notification of a handler is an action of a process
  (Handler_Process), so handlers interleave at every \<^verbatim>\<open>await\<close>, and every call may throw. The transactions and the write of pending
  requests are single actions, as in the database adapters. Dates are milliseconds, the clock is part of the state; random ids are arguments. Metrics and
  logging are left out. \<open>db_history\<close> is a ghost record of the openings and decisions, which no handler reads.
\<close>

section \<open>Rows\<close>

datatype req_status = RqPending | RqApproved | RqRejected | RqExpired | RqRevoked

record access_request =
  rq_id :: string
  rq_clientId :: string
  rq_agentId :: string
  rq_status :: req_status
  rq_requestedAt :: int
  rq_decidedAt :: "int option"
  rq_decisionReason :: "string option"
  rq_retryCount :: int
  rq_createdAt :: int
  rq_updatedAt :: int

record approval_token =
  tk_id :: string
  tk_requestId :: string
  tk_expiresAt :: int
  tk_createdAt :: int

record access_entry =
  ac_approvedAt :: int
  ac_clientToken :: "string option"

datatype client_status = ClPending | ClActive | ClRejected | ClBlocked

record client_row =
  cl_email :: string
  cl_name :: string
  cl_lastName :: string
  cl_status :: client_status

record agent_row =
  ag_name :: string
  ag_active :: bool

text \<open>What leaves the process: mails, and orders to the consumer sockets.\<close>

datatype access_effect =
    ApprovedMail string string
  | RejectedMail string string "string option"
  | RequestMail string string string string
  | QueuedRequestMail string string string string
  | GrantRooms string string
  | RevokeSockets string string
  | LiveProfileRevoked string string

datatype access_event = Opened string | Granted string string string | Refused string

record access_db =
  db_requests :: "(string, access_request) jsmap"
  db_tokens :: "(string, approval_token) jsmap"
  tokenIdByRequestId :: "(string, string) jsmap"
  accessByClient :: "(string, (string, access_entry) jsmap) jsmap"
  db_clients :: "(string, client_row) jsmap"
  db_agents :: "(string, agent_row) jsmap"
  ownerByAgentId :: "(string, string) jsmap"
  db_users :: "(string, string) jsmap"
  db_now :: int
  db_effects :: "access_effect list"
  db_history :: "access_event list"

record access_env =
  clientAgentAccessRequestEmailDebounceMs :: int
  clientAgentAccessMaxRetries :: int
  approvalTokenTtlMs :: int

section \<open>Repositories\<close>

definition findRequestById :: "string \<Rightarrow> access_db \<Rightarrow> access_request option \<times> access_db" where
  "findRequestById i db = (jm_get (db_requests db) i, db)"

definition same_pair :: "string \<Rightarrow> string \<Rightarrow> access_request \<Rightarrow> bool" where
  "same_pair c a r \<longleftrightarrow> rq_clientId r = c \<and> rq_agentId r = a"

definition request_of :: "string \<Rightarrow> string \<Rightarrow> access_db \<Rightarrow> access_request option" where
  "request_of c a db = find (same_pair c a) (map snd (db_requests db))"

definition findByClientAndAgent :: "string \<Rightarrow> string \<Rightarrow> access_db \<Rightarrow> access_request option \<times> access_db" where
  "findByClientAndAgent c a db = (request_of c a db, db)"

definition findByClientAndAgents :: "string \<Rightarrow> string list \<Rightarrow> access_db \<Rightarrow> (string, access_request) jsmap \<times> access_db" where
  "findByClientAndAgents c agentIds db =
     (foldl (\<lambda>m r. if rq_clientId r = c \<and> rq_agentId r \<in> set agentIds then jm_set (rq_agentId r) r m else m) [] (map snd (db_requests db)), db)"

definition saveRequest :: "access_request \<Rightarrow> access_db \<Rightarrow> access_db" where
  "saveRequest r db =
     db\<lparr>db_requests := jm_set (rq_id r) r
          (filter (\<lambda>(i, x). \<not> (rq_clientId x = rq_clientId r \<and> rq_agentId x = rq_agentId r \<and> i \<noteq> rq_id r)) (db_requests db))\<rparr>"

definition with_status :: "req_status \<Rightarrow> int option \<Rightarrow> string option \<Rightarrow> int \<Rightarrow> access_request \<Rightarrow> access_request" where
  "with_status status decidedAt reason now existing =
     existing\<lparr>rq_status := status, rq_decidedAt := Some (case decidedAt of None \<Rightarrow> now | Some d \<Rightarrow> d),
       rq_decisionReason := (case reason of None \<Rightarrow> rq_decisionReason existing | Some t \<Rightarrow> Some t), rq_updatedAt := now\<rparr>"

definition setStatus :: "string \<Rightarrow> req_status \<Rightarrow> int option \<Rightarrow> string option \<Rightarrow> access_db \<Rightarrow> access_db" where
  "setStatus requestId status decidedAt reason db =
     (case jm_get (db_requests db) requestId of
        None \<Rightarrow> db
      | Some existing \<Rightarrow> db\<lparr>db_requests := jm_set requestId (with_status status decidedAt reason (db_now db) existing) (db_requests db)\<rparr>)"

definition saveToken :: "approval_token \<Rightarrow> access_db \<Rightarrow> access_db" where
  "saveToken tk db =
     (let store = (case jm_get (tokenIdByRequestId db) (tk_requestId tk) of
                     None \<Rightarrow> db_tokens db
                   | Some existingTokenId \<Rightarrow> if existingTokenId = [] then db_tokens db else jm_del existingTokenId (db_tokens db))
      in db\<lparr>db_tokens := jm_set (tk_id tk) tk store, tokenIdByRequestId := jm_set (tk_requestId tk) (tk_id tk) (tokenIdByRequestId db)\<rparr>)"

definition findTokenById :: "string \<Rightarrow> access_db \<Rightarrow> approval_token option \<times> access_db" where
  "findTokenById i db = (jm_get (db_tokens db) i, db)"

definition deleteTokenById :: "string \<Rightarrow> access_db \<Rightarrow> access_db" where
  "deleteTokenById i db =
     db\<lparr>tokenIdByRequestId := (case jm_get (db_tokens db) i of None \<Rightarrow> tokenIdByRequestId db
                              | Some tk \<Rightarrow> jm_del (tk_requestId tk) (tokenIdByRequestId db)),
        db_tokens := jm_del i (db_tokens db)\<rparr>"

definition deleteTokenByRequestId :: "string \<Rightarrow> access_db \<Rightarrow> access_db" where
  "deleteTokenByRequestId r db =
     db\<lparr>db_tokens := (case jm_get (tokenIdByRequestId db) r of None \<Rightarrow> db_tokens db
                     | Some t \<Rightarrow> if t = [] then db_tokens db else jm_del t (db_tokens db)),
        tokenIdByRequestId := jm_del r (tokenIdByRequestId db)\<rparr>"

definition getRow :: "string \<Rightarrow> string \<Rightarrow> access_db \<Rightarrow> access_entry option" where
  "getRow c a db = (case jm_get (accessByClient db) c of None \<Rightarrow> None | Some m \<Rightarrow> jm_get m a)"

definition hasAccess :: "string \<Rightarrow> string \<Rightarrow> access_db \<Rightarrow> bool" where
  "hasAccess c a db \<longleftrightarrow> getRow c a db \<noteq> None"

definition listAccessAgentIdsForClientIn :: "string \<Rightarrow> string list \<Rightarrow> access_db \<Rightarrow> string list" where
  "listAccessAgentIdsForClientIn c agentIds db =
     (case jm_get (accessByClient db) c of None \<Rightarrow> [] | Some m \<Rightarrow> filter (jm_has m) (foldl (\<lambda>xs x. js_add x xs) [] agentIds))"

definition addAccess :: "string \<Rightarrow> string \<Rightarrow> int option \<Rightarrow> access_db \<Rightarrow> access_db" where
  "addAccess c a approvedAt db =
     (let m = (case jm_get (accessByClient db) c of None \<Rightarrow> [] | Some m \<Rightarrow> m);
          existing = jm_get m a
      in db\<lparr>accessByClient := jm_set c
             (jm_set a \<lparr>ac_approvedAt = (case approvedAt of Some t \<Rightarrow> t | None \<Rightarrow> (case existing of Some x \<Rightarrow> ac_approvedAt x | None \<Rightarrow> db_now db)),
                        ac_clientToken = (case existing of None \<Rightarrow> None | Some x \<Rightarrow> ac_clientToken x)\<rparr> m)
             (accessByClient db)\<rparr>)"

definition setClientToken :: "string \<Rightarrow> string \<Rightarrow> string option \<Rightarrow> access_db \<Rightarrow> bool \<times> access_db" where
  "setClientToken c a tok db =
     (case jm_get (accessByClient db) c of
        None \<Rightarrow> (False, db)
      | Some m \<Rightarrow>
          (case jm_get m a of None \<Rightarrow> (False, db)
           | Some x \<Rightarrow> (True, db\<lparr>accessByClient := jm_set c (jm_set a (x\<lparr>ac_clientToken := tok\<rparr>) m) (accessByClient db)\<rparr>)))"

definition removeAgentIds :: "string \<Rightarrow> string list \<Rightarrow> access_db \<Rightarrow> access_db" where
  "removeAgentIds c agentIds db =
     (case jm_get (accessByClient db) c of
        None \<Rightarrow> db
      | Some m \<Rightarrow> db\<lparr>accessByClient := jm_set c (foldl (\<lambda>m a. jm_del a m) m agentIds) (accessByClient db)\<rparr>)"

definition removeAccess :: "string \<Rightarrow> string \<Rightarrow> access_db \<Rightarrow> access_db" where
  "removeAccess c a db =
     (case jm_get (accessByClient db) c of None \<Rightarrow> db | Some m \<Rightarrow> db\<lparr>accessByClient := jm_set c (jm_del a m) (accessByClient db)\<rparr>)"

definition log_event :: "access_event \<Rightarrow> access_db \<Rightarrow> access_db" where
  "log_event ev db = db\<lparr>db_history := db_history db @ [ev]\<rparr>"

definition emit :: "access_effect \<Rightarrow> access_db \<Rightarrow> access_db" where
  "emit ef db = db\<lparr>db_effects := db_effects db @ [ef]\<rparr>"

section \<open>Transactions\<close>

definition consume_token :: "string option \<Rightarrow> string \<Rightarrow> access_db \<Rightarrow> access_db" where
  "consume_token consumeTokenId requestId db =
     (case consumeTokenId of Some t \<Rightarrow> deleteTokenById t db | None \<Rightarrow> deleteTokenByRequestId requestId db)"

definition approvePendingAndGrantAccess ::
  "string \<Rightarrow> string \<Rightarrow> string \<Rightarrow> int \<Rightarrow> string option \<Rightarrow> access_db \<Rightarrow> bool \<times> access_db" where
  "approvePendingAndGrantAccess requestId clientId agentId approvedAt consumeTokenId db =
     (case jm_get (db_requests db) requestId of
        None \<Rightarrow> (False, db)
      | Some existing \<Rightarrow>
          if rq_status existing \<noteq> RqPending then (False, db)
          else (True, log_event (Granted requestId clientId agentId)
                 (consume_token consumeTokenId requestId
                   (addAccess clientId agentId (Some approvedAt)
                     (saveRequest (existing\<lparr>rq_status := RqApproved, rq_decidedAt := Some approvedAt, rq_decisionReason := None,
                                     rq_updatedAt := db_now db\<rparr>) db)))))"

definition revokeAccess_txn :: "string \<Rightarrow> string \<Rightarrow> string \<Rightarrow> access_db \<Rightarrow> bool \<times> access_db" where
  "revokeAccess_txn clientId agentId reason db =
     (let hadAccess = hasAccess clientId agentId db;
          db1 = removeAccess clientId agentId db
      in (hadAccess,
          case request_of clientId agentId db1 of
            None \<Rightarrow> db1
          | Some r \<Rightarrow> if rq_status r = RqApproved then setStatus (rq_id r) RqRevoked None (Some reason) db1 else db1))"

definition rejectPendingAndConsumeToken ::
  "string \<Rightarrow> int \<Rightarrow> string option \<Rightarrow> string option \<Rightarrow> access_db \<Rightarrow> bool \<times> access_db" where
  "rejectPendingAndConsumeToken requestId decidedAt reason consumeTokenId db =
     (case jm_get (db_requests db) requestId of
        None \<Rightarrow> (False, db)
      | Some existing \<Rightarrow>
          if rq_status existing \<noteq> RqPending then (False, db)
          else (True, log_event (Refused requestId)
                 (consume_token consumeTokenId requestId (setStatus requestId RqRejected (Some decidedAt) reason db))))"

text \<open>A request of the same client and agent keeps its id.\<close>

definition persisted :: "access_request \<Rightarrow> access_db \<Rightarrow> access_request" where
  "persisted request db =
     (case request_of (rq_clientId request) (rq_agentId request) db of
        None \<Rightarrow> request
      | Some x \<Rightarrow> if rq_id x \<noteq> rq_id request then request\<lparr>rq_id := rq_id x, rq_createdAt := rq_createdAt x\<rparr> else request)"

definition writePendingRequest :: "access_request \<times> approval_token \<Rightarrow> access_db \<Rightarrow> access_db" where
  "writePendingRequest item db =
     (let request = persisted (fst item) db
      in log_event (Opened (rq_id request)) (saveToken ((snd item)\<lparr>tk_requestId := rq_id request\<rparr>) (saveRequest request db)))"

definition writePendingRequests :: "(access_request \<times> approval_token) list \<Rightarrow> access_db \<Rightarrow> access_db" where
  "writePendingRequests items db = foldl (\<lambda>d item. writePendingRequest item d) db items"

section \<open>Results\<close>

datatype svc_error =
    NotFound string
  | Conflict string
  | MaxRetriesReached int string
  | Forbidden string
  | AgentAccessDenied string
  | RegistrationTokenExpired
  | ServiceUnavailable
  | Thrown

record request_result =
  rr_requested :: "string list"
  rr_alreadyApproved :: "string list"
  rr_newRequests :: "string list"
  rr_reopened :: "string list"
  rr_debounced :: "string list"

datatype svc_value = Decision string string | StatusOf req_status | RequestResult request_result | Void

type_synonym access_result = "svc_error + svc_value"

type_synonym access_proc = "(access_db, access_result) proc"

text \<open>A call whose continuation reads the clock.\<close>

definition acall :: "(access_db \<Rightarrow> 'a \<times> access_db) \<Rightarrow> access_proc \<Rightarrow> ('a \<Rightarrow> int \<Rightarrow> access_proc) \<Rightarrow> access_proc" where
  "acall operation onThrow k = call (\<lambda>s. case operation s of (a, s') \<Rightarrow> ((a, db_now s'), s')) onThrow (\<lambda>(a, now). k a now)"

definition perform :: "(access_db \<Rightarrow> access_db) \<Rightarrow> access_proc \<Rightarrow> access_proc \<Rightarrow> access_proc" where
  "perform operation onThrow k = call (\<lambda>s. ((), operation s)) onThrow (\<lambda>u. k)"

definition fail :: "svc_error \<Rightarrow> access_proc" where
  "fail e = Ret (Inl e)"

definition isExpired :: "int \<Rightarrow> int \<Rightarrow> bool" where
  "isExpired expiresAt now \<longleftrightarrow> expiresAt \<le> now"

definition readClient :: "string \<Rightarrow> access_db \<Rightarrow> client_row option \<times> access_db" where
  "readClient i db = (jm_get (db_clients db) i, db)"

definition readAgent :: "string \<Rightarrow> access_db \<Rightarrow> agent_row option \<times> access_db" where
  "readAgent i db = (jm_get (db_agents db) i, db)"

definition readOwner :: "string \<Rightarrow> access_db \<Rightarrow> string option \<times> access_db" where
  "readOwner i db = (jm_get (ownerByAgentId db) i, db)"

definition isClientAccessRequestRetryEligible :: "req_status \<Rightarrow> bool" where
  "isClientAccessRequestRetryEligible s \<longleftrightarrow> s = RqRejected \<or> s = RqExpired \<or> s = RqRevoked"

definition expiredReason :: string where "expiredReason = ''Approval token expired''"

section \<open>Decisions\<close>

text \<open>The end of both approvals: the mail, whose failure is only logged, and the order to join the rooms.\<close>

definition finish_approval :: "svc_error \<Rightarrow> string \<Rightarrow> access_request \<Rightarrow> access_proc" where
  "finish_approval onThrow email request =
     (let rooms = perform (emit (GrantRooms (rq_clientId request) (rq_agentId request))) (fail onThrow)
                    (Ret (Inr (Decision email (rq_agentId request))))
      in perform (emit (ApprovedMail email (rq_agentId request))) rooms rooms)"

text \<open>From a pending request to the grant: the client and the agent have to be active, then the transaction.\<close>

definition check_and_grant :: "svc_error \<Rightarrow> string option \<Rightarrow> access_request \<Rightarrow> access_proc" where
  "check_and_grant onThrow consumeTokenId request =
     acall (readClient (rq_clientId request)) (fail onThrow) (\<lambda>client _.
       case client of
         None \<Rightarrow> fail (NotFound ''Client'')
       | Some c \<Rightarrow>
           if cl_status c \<noteq> ClActive then fail (Forbidden ''Client account cannot receive access approval in its current state'')
           else acall (readAgent (rq_agentId request)) (fail onThrow) (\<lambda>agent approvedAt.
             case agent of
               None \<Rightarrow> fail (NotFound (''Agent '' @ rq_agentId request))
             | Some a \<Rightarrow>
                 if \<not> ag_active a then fail (Conflict (''Agent '' @ rq_agentId request @ '' is not active''))
                 else acall (approvePendingAndGrantAccess (rq_id request) (rq_clientId request) (rq_agentId request) approvedAt consumeTokenId)
                        (fail ServiceUnavailable) (\<lambda>granted _.
                   if \<not> granted then fail (Conflict ''Access request already processed'')
                   else finish_approval onThrow (cl_email c) request)))"

definition approveByToken :: "string \<Rightarrow> access_proc" where
  "approveByToken tokenId =
     acall (findTokenById tokenId) (fail ServiceUnavailable) (\<lambda>token _.
       case token of
         None \<Rightarrow> fail (NotFound ''Approval link is invalid or was already used'')
       | Some tk \<Rightarrow>
           acall (findRequestById (tk_requestId tk)) (fail ServiceUnavailable) (\<lambda>request now.
             case request of
               None \<Rightarrow> perform (deleteTokenById tokenId) (fail ServiceUnavailable) (fail (NotFound ''Access request''))
             | Some r \<Rightarrow>
                 if isExpired (tk_expiresAt tk) now then
                   perform (setStatus (rq_id r) RqExpired None (Some expiredReason)) (fail ServiceUnavailable)
                     (perform (deleteTokenById tokenId) (fail ServiceUnavailable) (fail RegistrationTokenExpired))
                 else if rq_status r \<noteq> RqPending then
                   perform (deleteTokenById tokenId) (fail ServiceUnavailable) (fail (Conflict ''Access request already processed''))
                 else check_and_grant ServiceUnavailable (Some tokenId) r))"

text \<open>The end of both rejections: the client may be gone, and the mail may fail.\<close>

definition finish_rejection :: "svc_error \<Rightarrow> string option \<Rightarrow> access_request \<Rightarrow> access_proc" where
  "finish_rejection onThrow reason request =
     acall (readClient (rq_clientId request)) (fail onThrow) (\<lambda>client _.
       case client of
         None \<Rightarrow> Ret (Inr (Decision '''' (rq_agentId request)))
       | Some c \<Rightarrow>
           let done = Ret (Inr (Decision (cl_email c) (rq_agentId request)))
           in perform (emit (RejectedMail (cl_email c) (rq_agentId request) (if reason = Some '''' then None else reason))) done done)"

definition rejectByToken :: "string \<Rightarrow> string option \<Rightarrow> access_proc" where
  "rejectByToken tokenId reason =
     acall (findTokenById tokenId) (fail ServiceUnavailable) (\<lambda>token _.
       case token of
         None \<Rightarrow> fail (NotFound ''Rejection link is invalid or was already used'')
       | Some tk \<Rightarrow>
           acall (findRequestById (tk_requestId tk)) (fail ServiceUnavailable) (\<lambda>request now.
             case request of
               None \<Rightarrow> perform (deleteTokenById tokenId) (fail ServiceUnavailable) (fail (NotFound ''Access request''))
             | Some r \<Rightarrow>
                 if isExpired (tk_expiresAt tk) now then
                   perform (setStatus (rq_id r) RqExpired None (Some expiredReason)) (fail ServiceUnavailable)
                     (perform (deleteTokenById tokenId) (fail ServiceUnavailable) (fail RegistrationTokenExpired))
                 else if rq_status r \<noteq> RqPending then
                   perform (deleteTokenById tokenId) (fail ServiceUnavailable) (fail (Conflict ''Access request already processed''))
                 else acall (rejectPendingAndConsumeToken (rq_id r) now reason (Some tokenId)) (fail ServiceUnavailable) (\<lambda>rejected _.
                   if \<not> rejected then
                     perform (deleteTokenById tokenId) (fail ServiceUnavailable) (fail (Conflict ''Access request already processed''))
                   else finish_rejection ServiceUnavailable reason r)))"

definition getRequestStatusByToken :: "string \<Rightarrow> access_proc" where
  "getRequestStatusByToken tokenId =
     acall (findTokenById tokenId) (fail Thrown) (\<lambda>token _.
       case token of
         None \<Rightarrow> fail (NotFound ''Access token'')
       | Some tk \<Rightarrow>
           acall (findRequestById (tk_requestId tk)) (fail Thrown) (\<lambda>request now.
             case request of
               None \<Rightarrow> fail (NotFound ''Access request'')
             | Some r \<Rightarrow>
                 if isExpired (tk_expiresAt tk) now then
                   (if rq_status r = RqPending
                    then perform (setStatus (rq_id r) RqExpired None (Some expiredReason)) (fail Thrown) (Ret (Inr (StatusOf RqExpired)))
                    else Ret (Inr (StatusOf RqExpired)))
                 else Ret (Inr (StatusOf (rq_status r)))))"

definition assertAgentOwnership :: "string \<Rightarrow> string \<Rightarrow> access_proc \<Rightarrow> access_proc" where
  "assertAgentOwnership ownerUserId agentId k =
     acall (readOwner agentId) (fail Thrown) (\<lambda>owner _.
       case owner of
         None \<Rightarrow> fail (NotFound (''Agent '' @ agentId))
       | Some u \<Rightarrow> if u \<noteq> ownerUserId then fail (AgentAccessDenied agentId) else k)"

definition approveByOwner :: "string \<Rightarrow> string \<Rightarrow> access_proc" where
  "approveByOwner ownerUserId requestId =
     acall (findRequestById requestId) (fail Thrown) (\<lambda>request _.
       case request of
         None \<Rightarrow> fail (NotFound ''Access request'')
       | Some r \<Rightarrow>
           assertAgentOwnership ownerUserId (rq_agentId r)
             (if rq_status r \<noteq> RqPending then fail (Conflict ''Access request already processed'')
              else check_and_grant Thrown None r))"

definition rejectByOwner :: "string \<Rightarrow> string \<Rightarrow> string option \<Rightarrow> access_proc" where
  "rejectByOwner ownerUserId requestId reason =
     acall (findRequestById requestId) (fail Thrown) (\<lambda>request _.
       case request of
         None \<Rightarrow> fail (NotFound ''Access request'')
       | Some r \<Rightarrow>
           acall (readOwner (rq_agentId r)) (fail Thrown) (\<lambda>owner decidedAt.
             case owner of
               None \<Rightarrow> fail (NotFound (''Agent '' @ rq_agentId r))
             | Some u \<Rightarrow>
                 if u \<noteq> ownerUserId then fail (AgentAccessDenied (rq_agentId r))
                 else if rq_status r \<noteq> RqPending then fail (Conflict ''Access request already processed'')
                 else acall (rejectPendingAndConsumeToken (rq_id r) decidedAt reason None) (fail ServiceUnavailable) (\<lambda>rejected _.
                   if \<not> rejected then fail (Conflict ''Access request already processed'')
                   else finish_rejection Thrown reason r)))"

definition revokeAccessByOwner :: "string \<Rightarrow> string \<Rightarrow> string \<Rightarrow> access_proc" where
  "revokeAccessByOwner ownerUserId agentId clientId =
     assertAgentOwnership ownerUserId agentId
       (acall (readClient clientId) (fail Thrown) (\<lambda>client _.
          case client of
            None \<Rightarrow> fail (NotFound ''Client'')
          | Some c \<Rightarrow>
              acall (\<lambda>db. (let (had, db1) = revokeAccess_txn clientId agentId ''owner_revoked_access'' db
                           in (had, emit (LiveProfileRevoked clientId agentId) db1)))
                (fail ServiceUnavailable) (\<lambda>hadAccess _.
                if hadAccess then perform (emit (RevokeSockets clientId agentId)) (fail Thrown) (Ret (Inr Void))
                else Ret (Inr Void))))"

section \<open>Requests\<close>

definition unique :: "'a list \<Rightarrow> 'a list" where
  "unique xs = foldl (\<lambda>ys x. js_add x ys) [] xs"

text \<open>What the loop over the agents collects; an error leaves it.\<close>

record pending_rows =
  pr_rows :: "(access_request \<times> approval_token) list"
  pr_new :: "string list"
  pr_reopened :: "string list"
  pr_debounced :: "string list"

definition shouldIncrementRetry :: "access_request option \<Rightarrow> bool" where
  "shouldIncrementRetry existing =
     (case existing of None \<Rightarrow> False
      | Some r \<Rightarrow> rq_status r \<noteq> RqPending \<and> (isClientAccessRequestRetryEligible (rq_status r) \<or> rq_status r = RqApproved))"

definition newApprovalToken :: "access_env \<Rightarrow> string \<Rightarrow> string \<Rightarrow> int \<Rightarrow> approval_token" where
  "newApprovalToken env tokenId requestId now =
     \<lparr>tk_id = tokenId, tk_requestId = requestId, tk_expiresAt = now + approvalTokenTtlMs env, tk_createdAt = now\<rparr>"

definition request_row :: "access_env \<Rightarrow> string \<Rightarrow> string \<Rightarrow> int \<Rightarrow> string \<Rightarrow> access_request option \<Rightarrow> access_request" where
  "request_row env newId clientId now agentId existing =
     (case existing of
        Some r \<Rightarrow> r\<lparr>rq_status := RqPending, rq_decidedAt := None, rq_decisionReason := None,
                    rq_retryCount := (if shouldIncrementRetry existing then rq_retryCount r + 1 else rq_retryCount r),
                    rq_requestedAt := now, rq_updatedAt := now\<rparr>
      | None \<Rightarrow> \<lparr>rq_id = newId, rq_clientId = clientId, rq_agentId = agentId, rq_status = RqPending, rq_requestedAt = now,
                 rq_decidedAt = None, rq_decisionReason = None, rq_retryCount = 0, rq_createdAt = now, rq_updatedAt = now\<rparr>)"

text \<open>A pending request that was mailed a short time ago is left alone; a decided one can be opened again a limited number of times.\<close>

definition debounced_now :: "access_env \<Rightarrow> int \<Rightarrow> access_request option \<Rightarrow> bool" where
  "debounced_now env now existing =
     (case existing of None \<Rightarrow> False
      | Some r \<Rightarrow> rq_status r = RqPending \<and> clientAgentAccessRequestEmailDebounceMs env > 0 \<and> now - rq_requestedAt r \<ge> 0 \<and>
                  now - rq_requestedAt r < clientAgentAccessRequestEmailDebounceMs env)"

definition retries_exhausted :: "access_env \<Rightarrow> access_request option \<Rightarrow> bool" where
  "retries_exhausted env existing =
     (case existing of None \<Rightarrow> False
      | Some r \<Rightarrow> shouldIncrementRetry existing \<and> clientAgentAccessMaxRetries env > 0 \<and> rq_retryCount r \<ge> clientAgentAccessMaxRetries env)"

fun plan_requests ::
  "access_env \<Rightarrow> (string \<Rightarrow> string \<times> string) \<Rightarrow> string \<Rightarrow> int \<Rightarrow> (string, access_request) jsmap \<Rightarrow> string list \<Rightarrow> pending_rows \<Rightarrow>
   svc_error + pending_rows" where
  "plan_requests env ids clientId now requestsByAgent [] rows = Inr rows"
| "plan_requests env ids clientId now requestsByAgent (agentId # rest) rows =
     (let existing = jm_get requestsByAgent agentId
      in if debounced_now env now existing
         then plan_requests env ids clientId now requestsByAgent rest (rows\<lparr>pr_debounced := pr_debounced rows @ [agentId]\<rparr>)
         else if retries_exhausted env existing
         then Inl (MaxRetriesReached (clientAgentAccessMaxRetries env) agentId)
         else let request = request_row env (fst (ids agentId)) clientId now agentId existing;
                  token = newApprovalToken env (snd (ids agentId)) (rq_id request) now
              in plan_requests env ids clientId now requestsByAgent rest
                   (rows\<lparr>pr_rows := pr_rows rows @ [(request, token)],
                         pr_new := (if existing = None then pr_new rows @ [agentId] else pr_new rows),
                         pr_reopened := (if existing = None then pr_reopened rows else pr_reopened rows @ [agentId])\<rparr>))"

definition request_mail :: "bool \<Rightarrow> (string \<Rightarrow> string) \<Rightarrow> client_row \<Rightarrow> access_request \<times> approval_token \<Rightarrow> access_effect" where
  "request_mail queued ownerEmail client row =
     (if queued then QueuedRequestMail else RequestMail) (ownerEmail (rq_agentId (fst row))) (cl_email client) (rq_agentId (fst row)) (tk_id (snd row))"

text \<open>After the reads: the plan, the write, the mails.\<close>

definition write_and_mail ::
  "access_env \<Rightarrow> (string \<Rightarrow> string \<times> string) \<Rightarrow> bool \<Rightarrow> string \<Rightarrow> client_row \<Rightarrow> string list \<Rightarrow> string list \<Rightarrow> (string \<Rightarrow> string) \<Rightarrow>
   (string, access_request) jsmap \<Rightarrow> int \<Rightarrow> access_proc" where
  "write_and_mail env ids queued clientId client workAgentIds alreadyApproved ownerEmail requestsByAgent now =
     (case plan_requests env ids clientId now requestsByAgent workAgentIds \<lparr>pr_rows = [], pr_new = [], pr_reopened = [], pr_debounced = []\<rparr> of
        Inl e \<Rightarrow> fail e
      | Inr rows \<Rightarrow>
          let requested = map (\<lambda>row. rq_agentId (fst row)) (pr_rows rows);
              result = Ret (Inr (RequestResult
                \<lparr>rr_requested = requested, rr_alreadyApproved = alreadyApproved, rr_newRequests = pr_new rows, rr_reopened = pr_reopened rows,
                 rr_debounced = pr_debounced rows\<rparr>))
          in if pr_rows rows = [] then result
             else perform (writePendingRequests (pr_rows rows)) (fail Thrown)
                    (perform (\<lambda>db. foldl (\<lambda>d row. emit (request_mail queued ownerEmail client row) d) db (pr_rows rows)) (fail Thrown) result))"

definition requestAccess :: "access_env \<Rightarrow> (string \<Rightarrow> string \<times> string) \<Rightarrow> bool \<Rightarrow> string \<Rightarrow> string list \<Rightarrow> access_proc" where
  "requestAccess env ids queued clientId agentIds =
     acall (readClient clientId) (fail Thrown) (\<lambda>client _.
       case client of
         None \<Rightarrow> fail (NotFound ''Client'')
       | Some c \<Rightarrow>
           if cl_status c \<noteq> ClActive then fail (Forbidden ''Client account is not active'')
           else let uniqueAgentIds = unique agentIds in
             acall (\<lambda>db. (map (\<lambda>a. jm_get (db_agents db) a) uniqueAgentIds, db)) (fail Thrown) (\<lambda>agents _.
               case find (\<lambda>(i, a). a = None) (zip uniqueAgentIds agents) of
                 Some (i, _) \<Rightarrow> fail (NotFound (js_trim (''Agent '' @ i)))
               | None \<Rightarrow>
               case find (\<lambda>(i, a). case a of Some x \<Rightarrow> \<not> ag_active x | None \<Rightarrow> False) (zip uniqueAgentIds agents) of
                 Some (i, _) \<Rightarrow> fail (Conflict (''Agent '' @ i @ '' is not active''))
               | None \<Rightarrow>
               acall (\<lambda>db. (listAccessAgentIdsForClientIn clientId uniqueAgentIds db, db)) (fail Thrown) (\<lambda>alreadyApproved _.
                 let workAgentIds = filter (\<lambda>a. a \<notin> set alreadyApproved) uniqueAgentIds in
                 if workAgentIds = [] then
                   Ret (Inr (RequestResult \<lparr>rr_requested = [], rr_alreadyApproved = alreadyApproved, rr_newRequests = [], rr_reopened = [], rr_debounced = []\<rparr>))
                 else acall (\<lambda>db. (map (jm_get (ownerByAgentId db)) workAgentIds, db)) (fail Thrown) (\<lambda>owners _.
                   case find (\<lambda>(i, ow). ow = None) (zip workAgentIds owners) of
                     Some (i, _) \<Rightarrow> fail (Conflict (''Agent '' @ i @ '' has no responsible user''))
                   | None \<Rightarrow>
                   acall (\<lambda>db. (map (\<lambda>ow. jm_get (db_users db) (case ow of Some u \<Rightarrow> u | None \<Rightarrow> [])) owners, db)) (fail Thrown) (\<lambda>emails _.
                     if None \<in> set emails then fail (NotFound ''Owner user'')
                     else acall (findByClientAndAgents clientId workAgentIds) (fail Thrown) (\<lambda>requestsByAgent now.
                       write_and_mail env ids queued clientId c workAgentIds alreadyApproved
                         (\<lambda>a. case map_of (zip workAgentIds emails) a of Some (Some m) \<Rightarrow> m | _ \<Rightarrow> []) requestsByAgent now))))))"

definition retryRequestByClient :: "access_env \<Rightarrow> (string \<Rightarrow> string \<times> string) \<Rightarrow> bool \<Rightarrow> string \<Rightarrow> string \<Rightarrow> access_proc" where
  "retryRequestByClient env ids queued clientId requestId =
     acall (findRequestById requestId) (fail Thrown) (\<lambda>request _.
       case request of
         None \<Rightarrow> fail (NotFound ''Access request'')
       | Some r \<Rightarrow>
           if rq_clientId r \<noteq> clientId then fail (NotFound ''Access request'')
           else let again = (if rq_status r \<noteq> RqPending \<and> rq_status r \<noteq> RqApproved \<and> \<not> isClientAccessRequestRetryEligible (rq_status r)
                             then fail (Conflict ''Access request cannot be retried from its current status'')
                             else requestAccess env ids queued clientId [rq_agentId r])
                in if rq_status r = RqApproved then
                     acall (\<lambda>db. (hasAccess clientId (rq_agentId r) db, db)) (fail Thrown) (\<lambda>has _.
                       if has then
                         Ret (Inr (RequestResult \<lparr>rr_requested = [], rr_alreadyApproved = [rq_agentId r], rr_newRequests = [], rr_reopened = [],
                           rr_debounced = []\<rparr>))
                       else again)
                   else again)"

fun remove_loop :: "string \<Rightarrow> string list \<Rightarrow> (string, access_request) jsmap \<Rightarrow> string list \<Rightarrow> access_proc" where
  "remove_loop clientId approvedAgentIds requestsByAgent [] = Ret (Inr Void)"
| "remove_loop clientId approvedAgentIds requestsByAgent (agentId # rest) =
     (let next = remove_loop clientId approvedAgentIds requestsByAgent rest;
          sockets = (if agentId \<notin> set approvedAgentIds then next
                     else perform (emit (RevokeSockets clientId agentId)) (fail Thrown) next);
          status = (case jm_get requestsByAgent agentId of
                      Some r \<Rightarrow>
                        if rq_status r = RqApproved
                        then perform (setStatus (rq_id r) RqRevoked None (Some ''client_revoked_access'')) (fail Thrown) sockets else sockets
                    | None \<Rightarrow> sockets)
      in perform (emit (LiveProfileRevoked clientId agentId)) (fail Thrown) status)"

definition removeApprovedAccess :: "string \<Rightarrow> string list \<Rightarrow> access_proc" where
  "removeApprovedAccess clientId agentIds =
     (let uniqueAgentIds = unique agentIds in
      acall (\<lambda>db. (listAccessAgentIdsForClientIn clientId uniqueAgentIds db, db)) (fail Thrown) (\<lambda>approvedAgentIds _.
        acall (findByClientAndAgents clientId uniqueAgentIds) (fail Thrown) (\<lambda>requestsByAgent _.
          perform (removeAgentIds clientId uniqueAgentIds) (fail Thrown)
            (remove_loop clientId approvedAgentIds requestsByAgent uniqueAgentIds))))"

section \<open>The service in operation\<close>

inductive_set access_handlers :: "access_env \<Rightarrow> access_proc set" for env where
  h_approveByToken: "approveByToken t \<in> access_handlers env"
| h_rejectByToken: "rejectByToken t reason \<in> access_handlers env"
| h_statusByToken: "getRequestStatusByToken t \<in> access_handlers env"
| h_approveByOwner: "approveByOwner u i \<in> access_handlers env"
| h_rejectByOwner: "rejectByOwner u i reason \<in> access_handlers env"
| h_revokeByOwner: "revokeAccessByOwner u a c \<in> access_handlers env"
| h_requestAccess: "requestAccess env ids queued c as \<in> access_handlers env"
| h_retryRequest: "retryRequestByClient env ids queued c i \<in> access_handlers env"
| h_removeAccess: "removeApprovedAccess c as \<in> access_handlers env"

text \<open>What else happens to the database: time passes, and accounts, agents, owners and stored client tokens change.\<close>

inductive access_other :: "access_db \<Rightarrow> access_db \<Rightarrow> bool" where
  other_tables: "access_other db (db\<lparr>db_clients := cs, db_agents := as, ownerByAgentId := os, db_users := us, db_now := t\<rparr>)"
| other_client_token: "access_other db (snd (setClientToken c a tok db))"

section \<open>Assertions that every action keeps\<close>

lemma guar_acall [guar_intros]:
  assumes "\<And>s a s'. I s \<Longrightarrow> operation s = (a, s') \<Longrightarrow> I s' \<and> guar I (k a (db_now s'))" and "guar I e"
  shows "guar I (acall operation e k)"
  unfolding acall_def using assms by (auto intro!: guar_call split: prod.splits)

lemma guar_perform [guar_intros]:
  assumes "\<And>s. I s \<Longrightarrow> I (operation s)" and "guar I e" and "guar I k"
  shows "guar I (perform operation e k)"
  unfolding perform_def using assms by (intro guar_call) auto

lemma guar_fail [simp, guar_intros]: "guar I (fail e)"
  by (simp add: fail_def)

lemma guar_txn:
  assumes "\<And>s. I s \<Longrightarrow> I (snd (operation s))" and "\<And>a now. guar I (k a now)" and "guar I e"
  shows "guar I (acall operation e k)"
  using assms by (intro guar_acall) (metis snd_conv, metis)

lemma jm_set_in: "p \<in> set (jm_set k v m) \<Longrightarrow> p = (k, v) \<or> p \<in> set m"
  by (induction m) (auto simp: jm_set_unfold split: if_splits)

text \<open>The contract between an assertion and the operations of the repositories: \<open>good\<close> is what it guarantees of stored requests. It is
  enough for all handlers.\<close>

locale access_assertion =
  fixes env :: access_env
    and I :: "access_db \<Rightarrow> bool"
    and good :: "access_request \<Rightarrow> bool"
  assumes stored_good: "I db \<Longrightarrow> (i, r) \<in> set (db_requests db) \<Longrightarrow> good r"
    and keeps_emit: "I db \<Longrightarrow> I (emit ef db)"
    and keeps_token_delete: "I db \<Longrightarrow> I (deleteTokenById t db)"
    and keeps_setStatus: "I db \<Longrightarrow> s \<noteq> RqPending \<Longrightarrow> I (setStatus i s d reason db)"
    and keeps_approve: "I db \<Longrightarrow> I (snd (approvePendingAndGrantAccess i c a at tok db))"
    and keeps_reject: "I db \<Longrightarrow> I (snd (rejectPendingAndConsumeToken i at reason tok db))"
    and keeps_remove: "I db \<Longrightarrow> I (removeAgentIds c as db)" "I db \<Longrightarrow> I (removeAccess c a db)"
    and keeps_write: "I db \<Longrightarrow> (\<forall>p \<in> set m. good (snd p)) \<Longrightarrow>
      plan_requests env ids c now m work \<lparr>pr_rows = [], pr_new = [], pr_reopened = [], pr_debounced = []\<rparr> = Inr rows \<Longrightarrow>
      I (writePendingRequests (pr_rows rows) db)"
    and keeps_other: "I db \<Longrightarrow> access_other db db' \<Longrightarrow> I db'"
begin

lemma keeps_revoke: "I db \<Longrightarrow> I (snd (revokeAccess_txn c a reason db))"
  by (auto simp: revokeAccess_txn_def Let_def split: option.split intro: keeps_setStatus keeps_remove)

lemma keeps_emits: "I db \<Longrightarrow> I (foldl (\<lambda>d row. emit (f row) d) db rows)"
  by (induction rows arbitrary: db) (auto intro: keeps_emit)

lemma found_good:
  assumes "I db"
  shows "\<forall>p \<in> set (fst (findByClientAndAgents c as db)). good (snd p)"
proof -
  have loop: "\<forall>p \<in> set (foldl (\<lambda>m r. if rq_clientId r = c \<and> rq_agentId r \<in> set as then jm_set (rq_agentId r) r m else m) m rs). good (snd p)"
    if "\<forall>p \<in> set m. good (snd p)" "\<forall>r \<in> set rs. good r" for m rs
    using that
  proof (induction rs arbitrary: m)
    case (Cons r rs)
    have "\<forall>p \<in> set (if rq_clientId r = c \<and> rq_agentId r \<in> set as then jm_set (rq_agentId r) r m else m). good (snd p)"
      using Cons(2,3) by (auto dest!: jm_set_in)
    then show ?case using Cons(1,3) by simp
  qed simp
  have "\<forall>r \<in> set (map snd (db_requests db)). good r" using stored_good[OF assms] by auto
  then show ?thesis unfolding findByClientAndAgents_def fst_conv by (intro loop) simp_all
qed

lemma guar_finish_approval: "guar I (finish_approval e m r)"
  unfolding finish_approval_def Let_def by (intro guar_perform guar_fail guar_Ret keeps_emit)

lemma reads [simp]:
  "snd (readClient i db) = db" "snd (readAgent i db) = db" "snd (readOwner i db) = db" "snd (findTokenById i db) = db"
  "snd (findRequestById i db) = db" "snd (findByClientAndAgents c as db) = db"
  by (simp_all add: readClient_def readAgent_def readOwner_def findTokenById_def findRequestById_def findByClientAndAgents_def)

lemmas keeps = keeps_emit keeps_token_delete keeps_setStatus keeps_approve keeps_reject keeps_remove keeps_revoke keeps_emits

lemma guar_check_and_grant: "guar I (check_and_grant e tok r)"
  unfolding check_and_grant_def
  by (intro guar_txn guar_fail) (auto split: option.split intro!: guar_txn guar_finish_approval keeps)

lemma guar_finish_rejection: "guar I (finish_rejection e reason r)"
  unfolding finish_rejection_def Let_def
  by (intro guar_txn guar_fail) (auto split: option.split intro!: guar_perform keeps)

lemma guar_decisions:
  "guar I (approveByToken t)" "guar I (rejectByToken t reason)" "guar I (getRequestStatusByToken t)"
  "guar I (approveByOwner u i)" "guar I (rejectByOwner u i reason)" "guar I (revokeAccessByOwner u a c)"
  unfolding approveByToken_def rejectByToken_def getRequestStatusByToken_def approveByOwner_def rejectByOwner_def revokeAccessByOwner_def
    assertAgentOwnership_def
  by (auto split: option.split prod.split intro!: guar_txn guar_perform guar_check_and_grant guar_finish_rejection keeps
      simp: case_prod_beta Let_def)

lemma guar_write_and_mail:
  assumes "\<forall>p \<in> set m. good (snd p)"
  shows "guar I (write_and_mail env ids queued c cl work approved mail m now)"
  using keeps_write[OF _ assms]
  by (auto simp: write_and_mail_def Let_def split: sum.split intro!: guar_perform keeps)

lemma guar_requestAccess: "guar I (requestAccess env ids queued c as)"
proof -
  have f: "guar I (acall (findByClientAndAgents c work) (fail Thrown) (\<lambda>m now. write_and_mail env ids queued c cl work approved mail m now))"
    for work cl approved mail
    using found_good[of _ c work] by (intro guar_acall guar_fail conjI guar_write_and_mail) (auto simp: findByClientAndAgents_def)
  show ?thesis unfolding requestAccess_def Let_def
    by (intro guar_txn guar_fail) (auto split: option.split intro!: guar_txn f)
qed

lemma guar_remove_loop: "guar I (remove_loop c approved m as)"
  by (induction as) (auto simp: Let_def split: option.split intro!: guar_perform keeps)

lemma handlers_keep: "p \<in> access_handlers env \<Longrightarrow> guar I p"
  by (erule access_handlers.cases) (auto simp: retryRequestByClient_def removeApprovedAccess_def Let_def guar_decisions guar_requestAccess
      split: option.split intro!: guar_txn guar_perform guar_remove_loop guar_requestAccess keeps)

end

sublocale access_assertion \<subseteq> handler_system I "access_handlers env" access_other
  using handlers_keep keeps_other by unfold_locales

section \<open>The retry limit\<close>

definition within_retries :: "access_env \<Rightarrow> access_request \<Rightarrow> bool" where
  "within_retries env r \<longleftrightarrow> (0 < clientAgentAccessMaxRetries env \<longrightarrow> rq_retryCount r \<le> clientAgentAccessMaxRetries env)"

definition requests_all :: "(access_request \<Rightarrow> bool) \<Rightarrow> access_db \<Rightarrow> bool" where
  "requests_all P db \<longleftrightarrow> (\<forall>p \<in> set (db_requests db). P (snd p))"

lemma requests_unchanged [simp]:
  "db_requests (emit ef db) = db_requests db"
  "db_requests (log_event ev db) = db_requests db"
  "db_requests (deleteTokenById t db) = db_requests db"
  "db_requests (deleteTokenByRequestId t db) = db_requests db"
  "db_requests (consume_token tok i db) = db_requests db"
  "db_requests (saveToken tk db) = db_requests db"
  "db_requests (addAccess c a at db) = db_requests db"
  "db_requests (removeAgentIds c as db) = db_requests db"
  "db_requests (removeAccess c a db) = db_requests db"
  "db_requests (snd (setClientToken c a tok db)) = db_requests db"
  by (auto simp: emit_def log_event_def deleteTokenById_def deleteTokenByRequestId_def consume_token_def saveToken_def Let_def addAccess_def
      removeAgentIds_def removeAccess_def setClientToken_def split: option.split)

lemma requests_all_saveRequest: "requests_all P db \<Longrightarrow> P r \<Longrightarrow> requests_all P (saveRequest r db)"
  by (fastforce simp: requests_all_def saveRequest_def dest!: jm_set_in)

lemma requests_all_get: "requests_all P db \<Longrightarrow> jm_get (db_requests db) i = Some r \<Longrightarrow> P r"
  unfolding requests_all_def using jm_get_in_set by fastforce

lemma with_status_fields [simp]:
  "rq_id (with_status s d reason now r) = rq_id r" "rq_clientId (with_status s d reason now r) = rq_clientId r"
  "rq_agentId (with_status s d reason now r) = rq_agentId r" "rq_status (with_status s d reason now r) = s"
  "rq_retryCount (with_status s d reason now r) = rq_retryCount r"
  by (simp_all add: with_status_def)

lemma requests_all_setStatus:
  assumes all: "requests_all P db" and P: "\<And>r d reason u. P r \<Longrightarrow> P (with_status s d reason u r)"
  shows "requests_all P (setStatus i s d reason db)"
proof (cases "jm_get (db_requests db) i")
  case (Some r)
  have "P r" using requests_all_get[OF all Some] .
  then show ?thesis using all P Some unfolding requests_all_def setStatus_def option.case by (auto dest!: jm_set_in)
qed (simp add: setStatus_def all)

lemma plan_ConsE:
  assumes "plan_requests env ids c now m (agentId # rest) rows = Inr rows'"
  obtains (debounced) rows1 where "plan_requests env ids c now m rest rows1 = Inr rows'" "pr_rows rows1 = pr_rows rows"
    | (planned) rows1 where "plan_requests env ids c now m rest rows1 = Inr rows'"
        "pr_rows rows1 = pr_rows rows @ [(request_row env (fst (ids agentId)) c now agentId (jm_get m agentId),
           newApprovalToken env (snd (ids agentId)) (rq_id (request_row env (fst (ids agentId)) c now agentId (jm_get m agentId))) now)]"
        "\<not> retries_exhausted env (jm_get m agentId)"
  using assms by (cases "debounced_now env now (jm_get m agentId)"; cases "retries_exhausted env (jm_get m agentId)")
    (force simp: Let_def)+

lemma plan_rows_all:
  assumes "plan_requests env ids c now m work rows = Inr rows'" and "\<forall>p \<in> set m. good (snd p)" and "\<forall>row \<in> set (pr_rows rows). Q (fst row)"
    and row: "\<And>i a existing. (case existing of None \<Rightarrow> True | Some r \<Rightarrow> good r) \<Longrightarrow>
      \<not> retries_exhausted env existing \<Longrightarrow>
      Q (request_row env i c now a existing)"
  shows "\<forall>row \<in> set (pr_rows rows'). Q (fst row)"
  using assms(1,3)
proof (induction work arbitrary: rows)
  case (Cons agentId rest)
  have g: "case jm_get m agentId of None \<Rightarrow> True | Some r \<Rightarrow> good r" using assms(2) by (auto split: option.split dest!: jm_get_in_set)
  from Cons(2) show ?case
  proof (cases rule: plan_ConsE)
    case (debounced rows1)
    then show ?thesis using Cons.IH[of rows1] Cons(3) by simp
  next
    case (planned rows1)
    then show ?thesis using Cons.IH[of rows1] Cons(3) row[OF g planned(3)] by simp
  qed
qed simp

lemma request_row_retry: "(case existing of None \<Rightarrow> True | Some r \<Rightarrow> within_retries env r) \<Longrightarrow> \<not> retries_exhausted env existing \<Longrightarrow>
    within_retries env (request_row env i c now a existing)"
  by (auto simp: within_retries_def retries_exhausted_def request_row_def split: option.splits)

lemma requests_all_eq: "db_requests db' = db_requests db \<Longrightarrow> requests_all P db \<Longrightarrow> requests_all P db'"
  by (simp add: requests_all_def)

lemma requests_writePendingRequest: "db_requests (writePendingRequest item db) = db_requests (saveRequest (persisted (fst item) db) db)"
  by (simp add: writePendingRequest_def Let_def)

lemma requests_all_write:
  assumes "requests_all P db" and "\<forall>row \<in> set rows. P (fst row)" and "\<And>r i t. P r \<Longrightarrow> P (r\<lparr>rq_id := i, rq_createdAt := t\<rparr>)"
  shows "requests_all P (writePendingRequests rows db)"
  using assms(1,2)
proof (induction rows arbitrary: db)
  case (Cons row rows)
  have "P (persisted (fst row) db)" using Cons(3) assms(3) by (simp add: persisted_def split: option.split)
  then have "requests_all P (writePendingRequest row db)"
    using requests_all_eq[OF requests_writePendingRequest] requests_all_saveRequest[OF Cons(2)] by blast
  then show ?case using Cons(1,3) by (simp add: writePendingRequests_def)
qed (simp add: writePendingRequests_def)

lemma other_requests: "access_other db db' \<Longrightarrow> db_requests db' = db_requests db"
  by (auto simp: access_other.simps)

text \<open>A transaction that decides changes the requests as \<open>saveRequest\<close> and \<open>setStatus\<close> do.\<close>

lemma approve_cases:
  obtains (refused) "approvePendingAndGrantAccess i c a at tok db = (False, db)"
  | (granted) r where "jm_get (db_requests db) i = Some r" "rq_status r = RqPending"
      "approvePendingAndGrantAccess i c a at tok db = (True, log_event (Granted i c a) (consume_token tok i (addAccess c a (Some at)
         (saveRequest (r\<lparr>rq_status := RqApproved, rq_decidedAt := Some at, rq_decisionReason := None, rq_updatedAt := db_now db\<rparr>) db))))"
  by (cases "jm_get (db_requests db) i"; cases "rq_status (the (jm_get (db_requests db) i)) = RqPending")
    (auto simp: approvePendingAndGrantAccess_def)

lemma reject_cases:
  obtains (refused) "rejectPendingAndConsumeToken i at reason tok db = (False, db)"
  | (rejected) r where "jm_get (db_requests db) i = Some r" "rq_status r = RqPending"
      "rejectPendingAndConsumeToken i at reason tok db =
         (True, log_event (Refused i) (consume_token tok i (setStatus i RqRejected (Some at) reason db)))"
  by (cases "jm_get (db_requests db) i"; cases "rq_status (the (jm_get (db_requests db) i)) = RqPending")
    (auto simp: rejectPendingAndConsumeToken_def)

interpretation retries: access_assertion env "requests_all (within_retries env)" "within_retries env" for env
proof unfold_locales
  fix db ids c now m work rows
  assume a: "requests_all (within_retries env) db" "\<forall>p \<in> set m. within_retries env (snd p)"
    "plan_requests env ids c now m work \<lparr>pr_rows = [], pr_new = [], pr_reopened = [], pr_debounced = []\<rparr> = Inr rows"
  have "\<forall>row \<in> set (pr_rows rows). within_retries env (fst row)"
    by (rule plan_rows_all[OF a(3,2)]) (simp_all add: request_row_retry)
  then show "requests_all (within_retries env) (writePendingRequests (pr_rows rows) db)"
    by (intro requests_all_write a(1)) (auto simp: within_retries_def)
next
  fix db db' assume "requests_all (within_retries env) db" "access_other db db'"
  then show "requests_all (within_retries env) db'" by (simp add: requests_all_def other_requests)
next
  fix db i c a at tok assume "requests_all (within_retries env) db"
  then show "requests_all (within_retries env) (snd (approvePendingAndGrantAccess i c a at tok db))"
    by (cases rule: approve_cases[of i c a at tok db])
      (auto intro!: requests_all_saveRequest requests_all_eq[OF requests_unchanged(2)] requests_all_eq[OF requests_unchanged(5)]
        requests_all_eq[OF requests_unchanged(7)] dest: requests_all_get simp: within_retries_def)
next
  fix db i at reason tok assume "requests_all (within_retries env) db"
  then show "requests_all (within_retries env) (snd (rejectPendingAndConsumeToken i at reason tok db))"
    by (cases rule: reject_cases[of i at reason tok db])
      (auto intro!: requests_all_setStatus requests_all_eq[OF requests_unchanged(2)] requests_all_eq[OF requests_unchanged(5)] simp: within_retries_def)
next
  fix db i s d reason assume "requests_all (within_retries env) db"
  then show "requests_all (within_retries env) (setStatus i s d reason db)" by (rule requests_all_setStatus) (simp add: within_retries_def)
next
  fix db i r assume "requests_all (within_retries env) db" "(i, r) \<in> set (db_requests db)"
  then show "within_retries env r" by (auto simp: requests_all_def)
qed (simp_all add: requests_all_def)

section \<open>The request table\<close>

text \<open>Rows are stored under their ids and a client has one row per agent.\<close>

definition table_ok :: "access_db \<Rightarrow> bool" where
  "table_ok db \<longleftrightarrow> jm_wf (db_requests db) \<and> (\<forall>i r. jm_get (db_requests db) i = Some r \<longrightarrow> rq_id r = i) \<and>
     (\<forall>i j r s. jm_get (db_requests db) i = Some r \<longrightarrow> jm_get (db_requests db) j = Some s \<longrightarrow> same_pair (rq_clientId s) (rq_agentId s) r \<longrightarrow> i = j)"

lemma table_ok_id: "table_ok db \<Longrightarrow> jm_get (db_requests db) i = Some r \<Longrightarrow> rq_id r = i"
  by (simp add: table_ok_def)

lemma table_ok_pair:
  assumes "table_ok db" and "jm_get (db_requests db) i = Some r" and "jm_get (db_requests db) j = Some s" and "same_pair (rq_clientId s) (rq_agentId s) r"
  shows "i = j"
  using assms(1)[unfolded table_ok_def, THEN conjunct2, THEN conjunct2, rule_format, OF assms(2-4)] .

lemma table_ok_eq: "db_requests db' = db_requests db \<Longrightarrow> table_ok db' = table_ok db"
  by (simp add: table_ok_def)

lemma get_saveRequest:
  "table_ok db \<Longrightarrow> jm_get (db_requests (saveRequest r db)) j =
     (if j = rq_id r then Some r
      else case jm_get (db_requests db) j of None \<Rightarrow> None
           | Some x \<Rightarrow> if same_pair (rq_clientId r) (rq_agentId r) x then None else Some x)"
  by (auto simp: table_ok_def saveRequest_def jm_get_filter same_pair_def split: option.split)

lemma table_ok_saveRequest: "table_ok db \<Longrightarrow> table_ok (saveRequest r db)"
proof -
  assume ok: "table_ok db"
  then have "jm_wf (db_requests (saveRequest r db))" by (simp add: table_ok_def saveRequest_def)
  moreover have "rq_id x = i" if "jm_get (db_requests (saveRequest r db)) i = Some x" for i x
    using that ok by (auto simp: get_saveRequest table_ok_id split: if_splits option.splits)
  moreover have "i = j" if "jm_get (db_requests (saveRequest r db)) i = Some x" "jm_get (db_requests (saveRequest r db)) j = Some y"
      "same_pair (rq_clientId y) (rq_agentId y) x" for i j x y
    using that ok by (auto simp: get_saveRequest same_pair_def table_ok_def split: if_splits option.splits)
  ultimately show ?thesis by (simp add: table_ok_def)
qed

lemma get_setStatus:
  "jm_get (db_requests (setStatus i s d reason db)) j =
     (if j = i then map_option (with_status s d reason (db_now db)) (jm_get (db_requests db) i) else jm_get (db_requests db) j)"
  by (simp add: setStatus_def split: option.split)

lemma table_ok_setStatus: "table_ok db \<Longrightarrow> table_ok (setStatus i s d reason db)"
proof -
  assume ok: "table_ok db"
  then have "jm_wf (db_requests (setStatus i s d reason db))" by (simp add: table_ok_def setStatus_def split: option.split)
  then show ?thesis using ok by (auto simp: table_ok_def get_setStatus same_pair_def split: if_splits)
qed

lemma request_of_Some:
  assumes "table_ok db" and "request_of c a db = Some r"
  shows "jm_get (db_requests db) (rq_id r) = Some r \<and> same_pair c a r"
proof -
  have "r \<in> set (map snd (db_requests db))" and "same_pair c a r" using assms(2) by (auto simp: request_of_def find_Some_iff)
  then show ?thesis using assms(1) jm_in_set_get by (fastforce simp: table_ok_def)
qed

lemma request_of_iff:
  assumes "table_ok db"
  shows "request_of c a db = Some r \<longleftrightarrow> jm_get (db_requests db) (rq_id r) = Some r \<and> same_pair c a r"
proof
  assume r: "jm_get (db_requests db) (rq_id r) = Some r \<and> same_pair c a r"
  then have "r \<in> set (map snd (db_requests db))" using jm_get_in_set by force
  then have "request_of c a db \<noteq> None" using r by (auto simp: request_of_def find_None_iff)
  then obtain s where s: "request_of c a db = Some s" by blast
  then have g: "jm_get (db_requests db) (rq_id s) = Some s" "same_pair c a s" using request_of_Some[OF assms] by auto
  have "same_pair (rq_clientId r) (rq_agentId r) s" using r g by (simp add: same_pair_def)
  then have "rq_id s = rq_id r" by (rule table_ok_pair[OF assms g(1) conjunct1[OF r]])
  then show "request_of c a db = Some r" using s g(1) conjunct1[OF r] by metis
qed (rule request_of_Some[OF assms])

section \<open>The life of a request\<close>

text \<open>What the history may be: a decision closes a request that was opened before, and another decision needs another opening.\<close>

definition life_step :: "string \<Rightarrow> bool option \<Rightarrow> access_event \<Rightarrow> bool option" where
  "life_step i s ev =
     (case s of None \<Rightarrow> None
      | Some opened \<Rightarrow>
          let closed = (\<lambda>j. if j \<noteq> i then Some opened else if opened then Some False else None)
          in case ev of Opened j \<Rightarrow> Some (opened \<or> j = i) | Granted j c a \<Rightarrow> closed j | Refused j \<Rightarrow> closed j)"

definition lifecycle :: "string \<Rightarrow> access_event list \<Rightarrow> bool option" where
  "lifecycle i h = foldl (life_step i) (Some False) h"

lemma lifecycle_snoc [simp]: "lifecycle i (h @ [ev]) = life_step i (lifecycle i h) ev"
  by (simp add: lifecycle_def)

definition pending_at :: "string \<Rightarrow> access_db \<Rightarrow> bool" where
  "pending_at i db \<longleftrightarrow> (\<exists>r. jm_get (db_requests db) i = Some r \<and> rq_status r = RqPending)"

definition life_inv :: "access_db \<Rightarrow> bool" where
  "life_inv db \<longleftrightarrow> table_ok db \<and>
     (\<forall>i. lifecycle i (db_history db) \<noteq> None \<and> (pending_at i db \<longrightarrow> lifecycle i (db_history db) = Some True)) \<and>
     (\<forall>c a. hasAccess c a db \<longrightarrow> (\<exists>i. Granted i c a \<in> set (db_history db)))"

lemma access_unchanged [simp]:
  "accessByClient (emit ef db) = accessByClient db"
  "accessByClient (log_event ev db) = accessByClient db"
  "accessByClient (deleteTokenById t db) = accessByClient db"
  "accessByClient (deleteTokenByRequestId t db) = accessByClient db"
  "accessByClient (consume_token tok i db) = accessByClient db"
  "accessByClient (saveToken tk db) = accessByClient db"
  "accessByClient (saveRequest r db) = accessByClient db"
  "accessByClient (setStatus i s d reason db) = accessByClient db"
  by (auto simp: emit_def log_event_def deleteTokenById_def deleteTokenByRequestId_def consume_token_def saveToken_def Let_def saveRequest_def
      setStatus_def split: option.split)

lemma hasAccess_eq: "accessByClient db' = accessByClient db \<Longrightarrow> hasAccess c a db' = hasAccess c a db"
  by (simp add: hasAccess_def getRow_def)

lemma jm_get_dels: "jm_get (foldl (\<lambda>m a. jm_del a m) m as) k = (if k \<in> set as then None else jm_get m k)"
  by (induction as arbitrary: m) auto

lemma hasAccess_ops [simp]:
  "hasAccess c' a' (addAccess c a at db) \<longleftrightarrow> (c' = c \<and> a' = a) \<or> hasAccess c' a' db"
  "hasAccess c' a' (removeAgentIds c as db) \<longleftrightarrow> hasAccess c' a' db \<and> \<not> (c' = c \<and> a' \<in> set as)"
  "hasAccess c' a' (removeAccess c a db) \<longleftrightarrow> hasAccess c' a' db \<and> \<not> (c' = c \<and> a' = a)"
  "hasAccess c' a' (snd (setClientToken c a tok db)) \<longleftrightarrow> hasAccess c' a' db"
  by (auto simp: hasAccess_def getRow_def addAccess_def Let_def removeAgentIds_def removeAccess_def setClientToken_def jm_get_dels
      split: option.splits)

lemma hasAccess_unchanged [simp]:
  "hasAccess c a (emit ef db) = hasAccess c a db"
  "hasAccess c a (log_event ev db) = hasAccess c a db"
  "hasAccess c a (deleteTokenById t db) = hasAccess c a db"
  "hasAccess c a (deleteTokenByRequestId t db) = hasAccess c a db"
  "hasAccess c a (consume_token tok i db) = hasAccess c a db"
  "hasAccess c a (saveToken tk db) = hasAccess c a db"
  "hasAccess c a (saveRequest r db) = hasAccess c a db"
  "hasAccess c a (setStatus i s d reason db) = hasAccess c a db"
  by (simp_all cong: hasAccess_eq add: hasAccess_def getRow_def)

lemma history_unchanged [simp]:
  "db_history (emit ef db) = db_history db"
  "db_history (log_event ev db) = db_history db @ [ev]"
  "db_history (deleteTokenById t db) = db_history db"
  "db_history (deleteTokenByRequestId t db) = db_history db"
  "db_history (consume_token tok i db) = db_history db"
  "db_history (saveToken tk db) = db_history db"
  "db_history (saveRequest r db) = db_history db"
  "db_history (setStatus i s d reason db) = db_history db"
  "db_history (addAccess c a at db) = db_history db"
  "db_history (removeAgentIds c as db) = db_history db"
  "db_history (removeAccess c a db) = db_history db"
  "db_history (snd (setClientToken c a tok db)) = db_history db"
  by (auto simp: emit_def log_event_def deleteTokenById_def deleteTokenByRequestId_def consume_token_def saveToken_def Let_def saveRequest_def
      setStatus_def addAccess_def removeAgentIds_def removeAccess_def setClientToken_def split: option.split)

lemma pending_at_ops:
  "db_requests db' = db_requests db \<Longrightarrow> pending_at i db' = pending_at i db"
  "table_ok db \<Longrightarrow> pending_at i (saveRequest r db) \<Longrightarrow> if i = rq_id r then rq_status r = RqPending else pending_at i db"
  "s \<noteq> RqPending \<Longrightarrow> pending_at i (setStatus j s d reason db) \<longleftrightarrow> i \<noteq> j \<and> pending_at i db"
  by (auto simp: pending_at_def get_saveRequest get_setStatus split: if_splits option.splits)

lemma life_inv_frame:
  assumes "life_inv db" "db_history db' = db_history db" "table_ok db'" "\<And>i. pending_at i db' \<Longrightarrow> pending_at i db"
    "\<And>c a. hasAccess c a db' \<Longrightarrow> hasAccess c a db"
  shows "life_inv db'"
  using assms unfolding life_inv_def by (metis (no_types, lifting))

lemma life_inv_same: "life_inv db \<Longrightarrow> db_history db' = db_history db \<Longrightarrow> db_requests db' = db_requests db \<Longrightarrow>
    (\<And>c a. hasAccess c a db' \<Longrightarrow> hasAccess c a db) \<Longrightarrow> life_inv db'"
  using life_inv_frame table_ok_eq[of db' db] pending_at_ops(1)[of db' db] by (metis life_inv_def)

lemma life_step_Some: "life_step i (Some opened) ev =
    (case ev of Opened j \<Rightarrow> Some (opened \<or> j = i)
     | Granted j c a \<Rightarrow> (if j \<noteq> i then Some opened else if opened then Some False else None)
     | Refused j \<Rightarrow> (if j \<noteq> i then Some opened else if opened then Some False else None))"
  by (simp add: life_step_def Let_def)

text \<open>One event, and a new table.\<close>

lemma life_inv_event:
  assumes inv: "life_inv db" and h: "db_history db' = db_history db @ [ev]" and "table_ok db'"
    and dec: "\<And>i c a. ev = Granted i c a \<or> ev = Refused i \<Longrightarrow> pending_at i db \<and> \<not> pending_at i db'"
    and opn: "\<And>i. pending_at i db' \<Longrightarrow> pending_at i db \<or> ev = Opened i"
    and acc: "\<And>c a. hasAccess c a db' \<Longrightarrow> hasAccess c a db \<or> (\<exists>i. ev = Granted i c a)"
  shows "life_inv db'"
proof -
  have "lifecycle i (db_history db') \<noteq> None \<and> (pending_at i db' \<longrightarrow> lifecycle i (db_history db') = Some True)" for i
  proof -
    have "lifecycle i (db_history db) \<noteq> None" using inv unfolding life_inv_def by blast
    then obtain opened where l: "lifecycle i (db_history db) = Some opened" by blast
    have p: "pending_at i db \<Longrightarrow> opened" using inv l by (auto simp: life_inv_def)
    show ?thesis using l p h dec opn[of i] by (cases ev) (auto simp: life_step_Some)
  qed
  then show ?thesis using inv h acc assms(3) unfolding life_inv_def by (metis (no_types, lifting) Un_iff in_set_conv_decomp set_append)
qed

lemma life_inv_write:
  assumes "life_inv db"
  shows "life_inv (writePendingRequests rows db)"
  using assms
proof (induction rows arbitrary: db)
  case (Cons row rows)
  have "life_inv (writePendingRequest row db)"
  proof (rule life_inv_event[OF Cons(2)])
    show "db_history (writePendingRequest row db) = db_history db @ [Opened (rq_id (persisted (fst row) db))]"
      by (simp add: writePendingRequest_def Let_def)
    have ok: "table_ok db" using Cons(2) by (simp add: life_inv_def)
    then show "table_ok (writePendingRequest row db)"
      using table_ok_eq[OF requests_writePendingRequest] table_ok_saveRequest by simp
    show "pending_at i db \<or> Opened (rq_id (persisted (fst row) db)) = Opened i" if "pending_at i (writePendingRequest row db)" for i
      using that pending_at_ops(2)[OF ok, of i "persisted (fst row) db"] pending_at_ops(1)[OF requests_writePendingRequest]
      by (auto split: if_splits)
  qed (auto simp: writePendingRequest_def Let_def)
  then show ?case using Cons(1) by (simp add: writePendingRequests_def)
qed (simp add: writePendingRequests_def)

lemma life_inv_approve:
  assumes inv: "life_inv db"
  shows "life_inv (snd (approvePendingAndGrantAccess i c a at tok db))"
proof (cases rule: approve_cases[of i c a at tok db])
  case (granted r)
  let ?r = "r\<lparr>rq_status := RqApproved, rq_decidedAt := Some at, rq_decisionReason := None, rq_updatedAt := db_now db\<rparr>"
  let ?db = "snd (approvePendingAndGrantAccess i c a at tok db)"
  have ok: "table_ok db" using inv by (simp add: life_inv_def)
  have req: "db_requests ?db = db_requests (saveRequest ?r db)" using granted by simp
  have id: "rq_id ?r = i" using table_ok_id[OF ok granted(1)] by simp
  have p: "pending_at j ?db \<Longrightarrow> j \<noteq> i \<and> pending_at j db" for j
    using pending_at_ops(2)[OF ok, of j ?r] id pending_at_ops(1)[OF req] by (auto split: if_splits)
  show ?thesis
  proof (rule life_inv_event[OF inv])
    show "db_history ?db = db_history db @ [Granted i c a]" using granted by simp
    show "table_ok ?db" using table_ok_saveRequest[OF ok] table_ok_eq[OF req] by simp
    show "pending_at j db \<and> \<not> pending_at j ?db" if "Granted i c a = Granted j c' a' \<or> Granted i c a = Refused j" for j c' a'
      using that p granted by (auto simp: pending_at_def)
    show "hasAccess c' a' db \<or> (\<exists>j. Granted i c a = Granted j c' a')" if "hasAccess c' a' ?db" for c' a'
      using that granted by auto
  qed (use p in blast)
qed (use inv in simp)

lemma life_inv_reject:
  assumes inv: "life_inv db"
  shows "life_inv (snd (rejectPendingAndConsumeToken i at reason tok db))"
proof (cases rule: reject_cases[of i at reason tok db])
  case (rejected r)
  let ?db = "snd (rejectPendingAndConsumeToken i at reason tok db)"
  have ok: "table_ok db" using inv by (simp add: life_inv_def)
  have req: "db_requests ?db = db_requests (setStatus i RqRejected (Some at) reason db)" using rejected by simp
  have p: "pending_at j ?db \<longleftrightarrow> j \<noteq> i \<and> pending_at j db" for j
    using pending_at_ops(3)[of RqRejected] pending_at_ops(1)[OF req] by simp
  show ?thesis
  proof (rule life_inv_event[OF inv])
    show "db_history ?db = db_history db @ [Refused i]" using rejected by simp
    show "table_ok ?db" using table_ok_setStatus[OF ok] table_ok_eq[OF req] by simp
    show "pending_at j db \<and> \<not> pending_at j ?db" if "Refused i = Granted j c' a' \<or> Refused i = Refused j" for j c' a'
      using that p rejected by (auto simp: pending_at_def)
    show "hasAccess c' a' db \<or> (\<exists>j. Refused i = Granted j c' a')" if "hasAccess c' a' ?db" for c' a'
      using that rejected by auto
  qed (use p in blast)
qed (use inv in simp)

lemma life_inv_setStatus: "life_inv db \<Longrightarrow> s \<noteq> RqPending \<Longrightarrow> life_inv (setStatus i s d reason db)"
  by (rule life_inv_frame) (auto simp: pending_at_ops(3) life_inv_def intro: table_ok_setStatus)

lemma life_inv_other: "life_inv db \<Longrightarrow> access_other db db' \<Longrightarrow> life_inv db'"
proof (erule life_inv_same)
  assume o: "access_other db db'"
  then show "db_history db' = db_history db" by (auto simp: access_other.simps)
  show "db_requests db' = db_requests db" using o by (rule other_requests)
  show "hasAccess c a db" if "hasAccess c a db'" for c a
    using o
  proof cases
    case (other_tables cs as os us t)
    then have "accessByClient db' = accessByClient db" by simp
    then show ?thesis using that hasAccess_eq by blast
  next
    case (other_client_token c a tok)
    then show ?thesis using that hasAccess_ops(4) by blast
  qed
qed

interpretation life: access_assertion env life_inv "\<lambda>r. True" for env
  by unfold_locales
    (auto intro: life_inv_same life_inv_setStatus life_inv_approve life_inv_reject life_inv_write life_inv_other)

section \<open>Properties\<close>

definition demo_env :: access_env where
  "demo_env = \<lparr>clientAgentAccessRequestEmailDebounceMs = 0, clientAgentAccessMaxRetries = 2, approvalTokenTtlMs = 1000\<rparr>"

definition demo_db :: access_db where
  "demo_db = \<lparr>db_requests = [], db_tokens = [], tokenIdByRequestId = [], accessByClient = [],
     db_clients = [(''c'', \<lparr>cl_email = ''m'', cl_name = ''n'', cl_lastName = ''l'', cl_status = ClActive\<rparr>)],
     db_agents = [(''a'', \<lparr>ag_name = ''g'', ag_active = True\<rparr>)], ownerByAgentId = [(''a'', ''o'')], db_users = [(''o'', ''x'')],
     db_now = 0, db_effects = [], db_history = []\<rparr>"

definition demo_requested :: access_db where
  "demo_requested = snd (run (requestAccess demo_env (\<lambda>a. (''r'', ''t'')) True ''c'' [''a'']) demo_db)"

definition demo_granted :: access_db where
  "demo_granted = snd (run (approveByToken ''t'') demo_requested)"

lemma demo_reachable:
  "\<exists>ps. reachable (demo_db, []) (sys_step (access_handlers demo_env) access_other) (demo_granted, ps)"
  unfolding demo_granted_def demo_requested_def
  by (rule exI, rule run_reachable[OF run_reachable[OF reach_init h_requestAccess] h_approveByToken])

lemma demo_values:
  "hasAccess ''c'' ''a'' demo_granted"
  "map_option rq_status (jm_get (db_requests demo_granted) ''r'') = Some RqApproved"
  "db_effects demo_granted = [QueuedRequestMail ''x'' ''m'' ''a'' ''t'', ApprovedMail ''m'' ''a'', GrantRooms ''c'' ''a'']"
  by code_simp+

definition access_start :: "access_db \<Rightarrow> bool" where
  "access_start db \<longleftrightarrow> db_requests db = [] \<and> accessByClient db = [] \<and> db_tokens db = [] \<and> tokenIdByRequestId db = [] \<and> db_history db = []"

text \<open>C4: Requests are decided once and access comes from a grant. Start with empty tables and let any number of approvals, rejections, revocations,
  access requests, retries, removals and status queries run interleaved at every repository call, mail and notification, with any of these calls throwing, and with
  clocks, accounts, agents and owners changing between them. Then the history of every request id is well formed: a grant or a rejection only happens to a
  request that was opened and not decided since, so two approvers of one request cannot both succeed. A client that has access to an agent was granted it. The
  request table has at most one row per client and agent, and a row that is pending has not been decided since it was opened.\<close>

theorem access_decided_once:
  assumes "reachable (db0, []) (sys_step (access_handlers env) access_other) (db, ps)" and "access_start db0"
  shows "(\<forall>i. lifecycle i (db_history db) \<noteq> None) \<and>
    (\<forall>c a. hasAccess c a db \<longrightarrow> (\<exists>i. Granted i c a \<in> set (db_history db))) \<and>
    (\<forall>c a i j r s. (i, r) \<in> set (db_requests db) \<and> (j, s) \<in> set (db_requests db) \<and> same_pair c a r \<and> same_pair c a s \<longrightarrow> (i, r) = (j, s)) \<and>
    (\<forall>i r. (i, r) \<in> set (db_requests db) \<and> rq_status r = RqPending \<longrightarrow> lifecycle i (db_history db) = Some True)"
proof -
  have "life_inv db0"
    using assms(2) by (auto simp: access_start_def life_inv_def table_ok_def pending_at_def lifecycle_def hasAccess_def getRow_def)
  then have inv: "life_inv db" using life.interleaving_keeps[OF assms(1)] by simp
  then have ok: "table_ok db" by (simp add: life_inv_def)
  then have g: "(i, r) \<in> set (db_requests db) \<longleftrightarrow> jm_get (db_requests db) i = Some r" for i r
    using jm_get_iff_in_set by (fastforce simp: table_ok_def)
  have "(i, r) = (j, s)" if "jm_get (db_requests db) i = Some r" "jm_get (db_requests db) j = Some s" "same_pair c a r" "same_pair c a s" for c a i j r s
    using that table_ok_pair[OF ok that(1,2)] by (simp add: same_pair_def)
  then show ?thesis using inv unfolding life_inv_def g pending_at_def by blast
qed

theorem access_decided_once_witness:
  "(\<forall>i. lifecycle i (db_history demo_granted) \<noteq> None) \<and> hasAccess ''c'' ''a'' demo_granted \<and> (\<exists>i. Granted i ''c'' ''a'' \<in> set (db_history demo_granted))"
proof -
  obtain ps where r: "reachable (demo_db, []) (sys_step (access_handlers demo_env) access_other) (demo_granted, ps)" using demo_reachable by blast
  have "access_start demo_db" by code_simp
  from access_decided_once[OF r this] show ?thesis using demo_values(1) by blast
qed

text \<open>C25: The number of retries of an access request is bounded. When a limit is configured, no stored request ever has a retry count above it, in
  all interleavings of the handlers. A count only grows when a decided request is opened again, and mails repeated for a pending request do not count.\<close>

theorem access_retries_bounded:
  assumes "reachable (db0, []) (sys_step (access_handlers env) access_other) (db, ps)" and "access_start db0"
    and "0 < clientAgentAccessMaxRetries env" and "(i, r) \<in> set (db_requests db)"
  shows "rq_retryCount r \<le> clientAgentAccessMaxRetries env"
proof -
  have "requests_all (within_retries env) db0" using assms(2) by (simp add: access_start_def requests_all_def)
  then have "requests_all (within_retries env) db" using retries.interleaving_keeps[OF assms(1)] by simp
  then show ?thesis using assms(3,4) by (auto simp: requests_all_def within_retries_def)
qed

theorem access_retries_bounded_witness:
  "0 < clientAgentAccessMaxRetries demo_env \<and>
   (\<exists>r. (''r'', r) \<in> set (db_requests demo_granted) \<and> rq_retryCount r \<le> clientAgentAccessMaxRetries demo_env)"
proof -
  obtain ps where r: "reachable (demo_db, []) (sys_step (access_handlers demo_env) access_other) (demo_granted, ps)" using demo_reachable by blast
  have s: "access_start demo_db" "0 < clientAgentAccessMaxRetries demo_env" by code_simp+
  obtain q where "jm_get (db_requests demo_granted) ''r'' = Some q" using demo_values(2) by auto
  then have "(''r'', q) \<in> set (db_requests demo_granted)" by (rule jm_get_in_set)
  then show ?thesis using access_retries_bounded[OF r s] s(2) by blast
qed

lemma run_access [simp]:
  "run (acall operation e k) db = run (k (fst (operation db)) (db_now (snd (operation db)))) (snd (operation db))"
  "run (perform f e p) db = run p (f db)"
  "run (fail err) db = (Inl err, db)"
  by (simp_all add: acall_def perform_def fail_def case_prod_beta)

lemma demo_requested_ok: "table_ok demo_requested"
proof -
  have "map fst (db_requests demo_requested) = [''r'']" "map rq_id (map snd (db_requests demo_requested)) = [''r'']"
    by code_simp+
  then obtain q where "db_requests demo_requested = [(''r'', q)]" "rq_id q = ''r''" by auto
  then show ?thesis by (auto simp: table_ok_def)
qed

text \<open>When a mail link grants: the token exists and has not expired, its request is pending, the client and the agent are active.\<close>

definition approvable :: "string \<Rightarrow> access_db \<Rightarrow> (access_request \<times> client_row) option" where
  "approvable t db =
     (case jm_get (db_tokens db) t of None \<Rightarrow> None
      | Some tk \<Rightarrow>
          (case jm_get (db_requests db) (tk_requestId tk) of None \<Rightarrow> None
           | Some r \<Rightarrow>
               (case jm_get (db_clients db) (rq_clientId r) of None \<Rightarrow> None
                | Some c \<Rightarrow>
                    (case jm_get (db_agents db) (rq_agentId r) of None \<Rightarrow> None
                     | Some a \<Rightarrow>
                         if db_now db < tk_expiresAt tk \<and> rq_status r = RqPending \<and> cl_status c = ClActive \<and> ag_active a then Some (r, c) else None))))"

lemma effects_unchanged [simp]:
  "db_effects (emit ef db) = db_effects db @ [ef]"
  "db_effects (log_event ev db) = db_effects db"
  "db_effects (deleteTokenById t db) = db_effects db"
  "db_effects (saveRequest r db) = db_effects db"
  "db_effects (setStatus i s d reason db) = db_effects db"
  "db_effects (addAccess c a at db) = db_effects db"
  by (auto simp: emit_def log_event_def deleteTokenById_def saveRequest_def setStatus_def addAccess_def Let_def split: option.split)

lemma tokens_ops [simp]:
  "db_tokens (emit ef db) = db_tokens db"
  "db_tokens (log_event ev db) = db_tokens db"
  "db_tokens (deleteTokenById t db) = jm_del t (db_tokens db)"
  "db_tokens (saveRequest r db) = db_tokens db"
  "db_tokens (setStatus i s d reason db) = db_tokens db"
  "db_tokens (addAccess c a at db) = db_tokens db"
  by (auto simp: emit_def log_event_def deleteTokenById_def saveRequest_def setStatus_def addAccess_def Let_def split: option.split)

lemmas token_reads = findTokenById_def findRequestById_def readClient_def readAgent_def

lemma approve_granted:
  assumes "table_ok db" and "approvable t db = Some (r, c)"
  shows "run (approveByToken t) db = (Inr (Decision (cl_email c) (rq_agentId r)),
      emit (GrantRooms (rq_clientId r) (rq_agentId r)) (emit (ApprovedMail (cl_email c) (rq_agentId r))
        (log_event (Granted (rq_id r) (rq_clientId r) (rq_agentId r)) (deleteTokenById t
          (addAccess (rq_clientId r) (rq_agentId r) (Some (db_now db))
            (saveRequest (r\<lparr>rq_status := RqApproved, rq_decidedAt := Some (db_now db), rq_decisionReason := None, rq_updatedAt := db_now db\<rparr>) db))))))"
  using assms table_ok_id[OF assms(1)]
  by (auto simp: approvable_def approveByToken_def check_and_grant_def finish_approval_def token_reads isExpired_def Let_def
      approvePendingAndGrantAccess_def consume_token_def split: option.splits if_splits)

lemma approve_refused:
  assumes "table_ok db" and "run (approveByToken t) db = (res, db')" and "approvable t db = None"
  shows "(\<exists>e. res = Inl e) \<and> accessByClient db' = accessByClient db \<and> db_effects db' = db_effects db \<and>
    (res \<in> {Inl RegistrationTokenExpired, Inl (Conflict ''Access request already processed'')} \<longrightarrow> jm_get (db_tokens db') t = None)"
  using assms
  by (auto simp: approvable_def approveByToken_def check_and_grant_def token_reads isExpired_def split: option.splits if_splits)



lemma reach_access:
  "reachable st0 (sys_step handlers env) (db, ps @ acall operation e k # qs) \<Longrightarrow>
    reachable st0 (sys_step handlers env) (snd (operation db), ps @ k (fst (operation db)) (db_now (snd (operation db))) # qs)"
  "reachable st0 (sys_step handlers env) (db, ps @ perform f e p # qs) \<Longrightarrow> reachable st0 (sys_step handlers env) (f db, ps @ p # qs)"
  unfolding acall_def perform_def by (drule reach_call; simp add: case_prod_beta)+

lemmas reach_first = reach_access[where ps = "[]", simplified]

lemma approve_by_owner_granted:
  assumes "table_ok db" and r: "jm_get (db_requests db) i = Some r" "rq_status r = RqPending"
    and "jm_get (db_clients db) (rq_clientId r) = Some c" "cl_status c = ClActive"
    and "jm_get (db_agents db) (rq_agentId r) = Some a" "ag_active a" and "jm_get (ownerByAgentId db) (rq_agentId r) = Some u"
  shows "hasAccess (rq_clientId r) (rq_agentId r) (snd (run (approveByOwner u i) db)) \<and>
    jm_get (db_requests (snd (run (approveByOwner u i) db))) i \<noteq> None"
  using assms table_ok_id[OF assms(1) r(1)]
  by (simp add: approveByOwner_def assertAgentOwnership_def check_and_grant_def finish_approval_def token_reads readOwner_def Let_def
      approvePendingAndGrantAccess_def get_saveRequest)

text \<open>C40: An expired link overwrites an approval. Let the token of a pending request be expired and the client and the agent be active. The owner approves
  in the application while somebody opens the expired link: the link handler has read the request before the approval and marks it expired after it, without
  looking at it again. The client then has access to the agent although its request says expired.\<close>

theorem expired_link_overwrites_approval:
  assumes "table_ok db" and tk: "jm_get (db_tokens db) t = Some tk" "tk_expiresAt tk \<le> db_now db"
    and r: "jm_get (db_requests db) (tk_requestId tk) = Some r" "rq_status r = RqPending"
    and c: "jm_get (db_clients db) (rq_clientId r) = Some c" "cl_status c = ClActive"
    and a: "jm_get (db_agents db) (rq_agentId r) = Some a" "ag_active a"
    and u: "jm_get (ownerByAgentId db) (rq_agentId r) = Some u"
  shows "\<exists>db' ps r'. reachable (db, []) (sys_step (access_handlers env) access_other) (db', ps) \<and>
    hasAccess (rq_clientId r) (rq_agentId r) db' \<and> jm_get (db_requests db') (rq_id r) = Some r' \<and> rq_status r' = RqExpired"
proof -
  let ?sys = "sys_step (access_handlers env) access_other"
  let ?cont = "perform (deleteTokenById t) (fail ServiceUnavailable) (fail RegistrationTokenExpired)"
  let ?q = "perform (setStatus (rq_id r) RqExpired None (Some expiredReason)) (fail ServiceUnavailable) ?cont"
  let ?db1 = "snd (run (approveByOwner u (rq_id r)) db)"
  have id: "rq_id r = tk_requestId tk" using table_ok_id[OF assms(1) r(1)] .
  have "reachable (db, []) ?sys (db, [approveByToken t])" using reach_spawn[OF reach_init h_approveByToken] by (metis append_Nil)
  from reach_first(1)[OF this[unfolded approveByToken_def]]
  have "reachable (db, []) ?sys (db, [acall (findRequestById (tk_requestId tk)) (fail ServiceUnavailable) (\<lambda>request now.
      case request of
        None \<Rightarrow> perform (deleteTokenById t) (fail ServiceUnavailable) (fail (NotFound ''Access request''))
      | Some r \<Rightarrow>
          if isExpired (tk_expiresAt tk) now then
            perform (setStatus (rq_id r) RqExpired None (Some expiredReason)) (fail ServiceUnavailable) ?cont
          else if rq_status r \<noteq> RqPending then
            perform (deleteTokenById t) (fail ServiceUnavailable) (fail (Conflict ''Access request already processed''))
          else check_and_grant ServiceUnavailable (Some t) r)])"
    by (simp add: findTokenById_def tk)
  from reach_first(1)[OF this] have "reachable (db, []) ?sys (db, [?q])" by (simp add: findRequestById_def tk r isExpired_def)
  from run_reachable[OF this h_approveByOwner]
  have "reachable (db, []) ?sys (?db1, ?q # [Ret (fst (run (approveByOwner u (rq_id r)) db))])" by simp
  from reach_first(2)[OF this]
  have "reachable (db, []) ?sys (setStatus (rq_id r) RqExpired None (Some expiredReason) ?db1, ?cont # [Ret (fst (run (approveByOwner u (rq_id r)) db))])" .
  moreover have "hasAccess (rq_clientId r) (rq_agentId r) ?db1 \<and> jm_get (db_requests ?db1) (rq_id r) \<noteq> None"
    using approve_by_owner_granted[OF assms(1) _ r(2) c a u] r(1) id by simp
  ultimately show ?thesis by (fastforce simp: get_setStatus)
qed

theorem expired_link_overwrites_approval_witness:
  "\<exists>db' ps r'. reachable (demo_requested\<lparr>db_now := 2000\<rparr>, []) (sys_step (access_handlers demo_env) access_other) (db', ps) \<and>
    hasAccess ''c'' ''a'' db' \<and> jm_get (db_requests db') ''r'' = Some r' \<and> rq_status r' = RqExpired"
proof -
  let ?db = "demo_requested\<lparr>db_now := 2000\<rparr>"
  have ok: "table_ok ?db" using demo_requested_ok by (simp add: table_ok_def)
  have v: "map_option (\<lambda>k. (tk_requestId k, tk_expiresAt k)) (jm_get (db_tokens ?db) ''t'') = Some (''r'', 1000)" "db_now ?db = 2000"
    "map_option (\<lambda>q. (rq_id q, rq_clientId q, rq_agentId q, rq_status q)) (jm_get (db_requests ?db) ''r'') = Some (''r'', ''c'', ''a'', RqPending)"
    "map_option cl_status (jm_get (db_clients ?db) ''c'') = Some ClActive" "map_option ag_active (jm_get (db_agents ?db) ''a'') = Some True"
    "jm_get (ownerByAgentId ?db) ''a'' = Some ''o''"
    by code_simp+
  then obtain k q c a where "jm_get (db_tokens ?db) ''t'' = Some k" "tk_requestId k = ''r''" "tk_expiresAt k = 1000" "jm_get (db_requests ?db) ''r'' = Some q"
    "rq_id q = ''r''" "rq_clientId q = ''c''" "rq_agentId q = ''a''" "rq_status q = RqPending" "jm_get (db_clients ?db) ''c'' = Some c" "cl_status c = ClActive"
    "jm_get (db_agents ?db) ''a'' = Some a" "ag_active a"
    by auto
  then show ?thesis using expired_link_overwrites_approval[OF ok, of "''t''" k q c a "''o''" demo_env] v(2,6) by simp
qed

end
