(* ===== verification/Client_Access_Sync.thy ===== *)
theory Client_Access_Sync
  imports Client_Access
begin

text \<open>
  The access service when its handlers do not overlap: the access table and the approved requests agree at every moment. The invariant \<open>synced\<close> is
  proved of every transaction, of the write of planned requests, of the removal loop, and then of every handler executed to its end (\<open>service_step\<close>).
\<close>

section \<open>Handlers that run alone\<close>

text \<open>Tokens are indexed by their requests, and no token belongs to an approved request.\<close>

definition tokens_ok :: "access_db \<Rightarrow> bool" where
  "tokens_ok db \<longleftrightarrow> (\<forall>t tk. jm_get (db_tokens db) t = Some tk \<longrightarrow> t \<noteq> [] \<and> jm_get (tokenIdByRequestId db) (tk_requestId tk) = Some t \<and>
     (\<forall>r. jm_get (db_requests db) (tk_requestId tk) = Some r \<longrightarrow> rq_status r \<noteq> RqApproved))"

definition approved_at :: "string \<Rightarrow> string \<Rightarrow> string \<Rightarrow> access_db \<Rightarrow> bool" where
  "approved_at i c a db = (case jm_get (db_requests db) i of None \<Rightarrow> False | Some r \<Rightarrow> same_pair c a r \<and> rq_status r = RqApproved)"

definition approved :: "string \<Rightarrow> string \<Rightarrow> access_db \<Rightarrow> bool" where
  "approved c a db \<longleftrightarrow> (\<exists>i. approved_at i c a db)"

definition synced :: "access_db \<Rightarrow> bool" where
  "synced db \<longleftrightarrow> table_ok db \<and> tokens_ok db \<and> (\<forall>c a. hasAccess c a db \<longleftrightarrow> approved c a db)"

lemma approved_eq: "db_requests db' = db_requests db \<Longrightarrow> approved c a db' = approved c a db"
  by (simp add: approved_def approved_at_def)

lemma approved_request_of: "table_ok db \<Longrightarrow> approved c a db \<longleftrightarrow> (\<exists>r. request_of c a db = Some r \<and> rq_status r = RqApproved)"
  using table_ok_id by (fastforce simp: approved_def approved_at_def request_of_iff split: option.splits)

lemma tokens_ok_shrink:
  assumes "tokens_ok db" and "\<And>t tk. jm_get (db_tokens db') t = Some tk \<Longrightarrow>
      jm_get (db_tokens db) t = Some tk \<and> jm_get (tokenIdByRequestId db') (tk_requestId tk) = jm_get (tokenIdByRequestId db) (tk_requestId tk) \<and>
      (\<forall>r'. jm_get (db_requests db') (tk_requestId tk) = Some r' \<longrightarrow> rq_status r' = RqApproved \<longrightarrow>
         (\<exists>r. jm_get (db_requests db) (tk_requestId tk) = Some r \<and> rq_status r = RqApproved))"
  shows "tokens_ok db'"
  using assms unfolding tokens_ok_def by metis

lemma index_unchanged [simp]:
  "tokenIdByRequestId (emit ef db) = tokenIdByRequestId db"
  "tokenIdByRequestId (log_event ev db) = tokenIdByRequestId db"
  "tokenIdByRequestId (saveRequest r db) = tokenIdByRequestId db"
  "tokenIdByRequestId (setStatus i s d reason db) = tokenIdByRequestId db"
  "tokenIdByRequestId (addAccess c a at db) = tokenIdByRequestId db"
  "tokenIdByRequestId (removeAgentIds c as db) = tokenIdByRequestId db"
  "tokenIdByRequestId (removeAccess c a db) = tokenIdByRequestId db"
  "db_tokens (removeAgentIds c as db) = db_tokens db"
  "db_tokens (removeAccess c a db) = db_tokens db"
  by (auto simp: emit_def log_event_def saveRequest_def setStatus_def addAccess_def removeAgentIds_def removeAccess_def Let_def split: option.split)

lemma token_unique:
  "tokens_ok db \<Longrightarrow> jm_get (db_tokens db) t = Some x \<Longrightarrow> jm_get (db_tokens db) t' = Some y \<Longrightarrow> tk_requestId x = tk_requestId y \<Longrightarrow> t = t'"
  unfolding tokens_ok_def by (metis option.inject)

lemma tokens_ok_deleteTokenById:
  assumes ok: "tokens_ok db"
  shows "tokens_ok (deleteTokenById t db)"
proof (rule tokens_ok_shrink[OF ok])
  fix t' tk assume g: "jm_get (db_tokens (deleteTokenById t db)) t' = Some tk"
  then have ne: "t' \<noteq> t" and g': "jm_get (db_tokens db) t' = Some tk" by (auto split: if_splits)
  have "tk_requestId x \<noteq> tk_requestId tk" if "jm_get (db_tokens db) t = Some x" for x
    using token_unique[OF ok that g'] ne by blast
  then have "jm_get (tokenIdByRequestId (deleteTokenById t db)) (tk_requestId tk) = jm_get (tokenIdByRequestId db) (tk_requestId tk)"
    by (auto simp: deleteTokenById_def split: option.split)
  then show "jm_get (db_tokens db) t' = Some tk \<and>
      jm_get (tokenIdByRequestId (deleteTokenById t db)) (tk_requestId tk) = jm_get (tokenIdByRequestId db) (tk_requestId tk) \<and>
      (\<forall>r'. jm_get (db_requests (deleteTokenById t db)) (tk_requestId tk) = Some r' \<longrightarrow> rq_status r' = RqApproved \<longrightarrow>
         (\<exists>r. jm_get (db_requests db) (tk_requestId tk) = Some r \<and> rq_status r = RqApproved))"
    using g' by simp
qed

text \<open>Consuming the token of a request leaves the request without tokens.\<close>

lemma consume_clears:
  assumes "tokens_ok db" and "case tok of None \<Rightarrow> True | Some t \<Rightarrow> \<exists>tk. jm_get (db_tokens db) t = Some tk \<and> tk_requestId tk = i"
    and "jm_get (db_tokens (consume_token tok i db)) t' = Some tk"
  shows "tk_requestId tk \<noteq> i \<and> jm_get (db_tokens db) t' = Some tk \<and>
    jm_get (tokenIdByRequestId (consume_token tok i db)) (tk_requestId tk) = jm_get (tokenIdByRequestId db) (tk_requestId tk)"
proof (cases tok)
  case None
  have g: "jm_get (db_tokens db) t' = Some tk" using assms(3) None
    by (auto simp: consume_token_def deleteTokenByRequestId_def split: option.splits if_splits)
  then have "t' \<noteq> []" "jm_get (tokenIdByRequestId db) (tk_requestId tk) = Some t'" using assms(1) by (auto simp: tokens_ok_def)
  then show ?thesis using assms(3) None g by (auto simp: consume_token_def deleteTokenByRequestId_def split: option.splits if_splits)
next
  case (Some t)
  then obtain x where x: "jm_get (db_tokens db) t = Some x" "tk_requestId x = i" using assms(2) by auto
  have g: "jm_get (db_tokens db) t' = Some tk" "t' \<noteq> t" using assms(3) Some by (auto simp: consume_token_def split: if_splits)
  then have "tk_requestId tk \<noteq> i" using token_unique[OF assms(1) x(1)] x(2) by metis
  then show ?thesis using g x Some by (simp add: consume_token_def deleteTokenById_def)
qed

lemma approved_at_setStatus: "s \<noteq> RqApproved \<Longrightarrow> approved_at j c a (setStatus i s d reason db) \<longleftrightarrow> j \<noteq> i \<and> approved_at j c a db"
  by (auto simp: approved_at_def get_setStatus split: option.splits)

lemma tokens_ok_setStatus: "tokens_ok db \<Longrightarrow> s \<noteq> RqApproved \<Longrightarrow> tokens_ok (setStatus i s d reason db)"
  by (erule tokens_ok_shrink) (auto simp: get_setStatus split: if_splits)

lemma sync_setStatus:
  assumes "synced db" and "s \<noteq> RqApproved" and "\<And>r. jm_get (db_requests db) i = Some r \<Longrightarrow> rq_status r \<noteq> RqApproved"
  shows "synced (setStatus i s d reason db)"
proof -
  have "\<not> approved_at i c a db" for c a using assms(3) by (auto simp: approved_at_def split: option.splits)
  then have "approved c a (setStatus i s d reason db) \<longleftrightarrow> approved c a db" for c a
    using assms(2) unfolding approved_def by (metis approved_at_setStatus)
  then show ?thesis using assms by (simp add: synced_def table_ok_setStatus tokens_ok_setStatus)
qed

lemma sync_same: "synced db \<Longrightarrow> db_requests db' = db_requests db \<Longrightarrow> accessByClient db' = accessByClient db \<Longrightarrow> tokens_ok db' \<Longrightarrow> synced db'"
  using hasAccess_eq[of db' db] approved_eq[of db' db] table_ok_eq[of db' db] by (simp add: synced_def)

lemma tokens_ok_eq: "db_requests db' = db_requests db \<Longrightarrow> db_tokens db' = db_tokens db \<Longrightarrow> tokenIdByRequestId db' = tokenIdByRequestId db \<Longrightarrow>
    tokens_ok db' = tokens_ok db"
  by (simp add: tokens_ok_def)

lemma sync_emit [simp]: "synced (emit ef db) = synced db"
  by (auto simp: synced_def approved_eq[OF requests_unchanged(1)] table_ok_eq[OF requests_unchanged(1)] tokens_ok_eq[of "emit ef db" db])

lemma sync_log [simp]: "synced (log_event ef db) = synced db"
  by (auto simp: synced_def approved_eq[OF requests_unchanged(2)] table_ok_eq[OF requests_unchanged(2)] tokens_ok_eq[of "log_event ef db" db])

lemma sync_deleteTokenById: "synced db \<Longrightarrow> synced (deleteTokenById t db)"
  by (rule sync_same[of db]) (auto simp: synced_def intro: tokens_ok_deleteTokenById)

text \<open>The token a decision consumes is one of its request.\<close>

definition own_token :: "string option \<Rightarrow> string \<Rightarrow> access_db \<Rightarrow> bool" where
  "own_token tok i db = (case tok of None \<Rightarrow> True | Some t \<Rightarrow> \<exists>tk. jm_get (db_tokens db) t = Some tk \<and> tk_requestId tk = i)"

lemma consume_tokens_ok:
  assumes "tokens_ok db" and "own_token tok i db" and "\<And>j. j \<noteq> i \<Longrightarrow> jm_get (db_requests db') j = jm_get (db_requests db) j \<or> jm_get (db_requests db') j = None"
    and "db_tokens db' = db_tokens db" and "tokenIdByRequestId db' = tokenIdByRequestId db"
  shows "tokens_ok (consume_token tok i db')"
proof (rule tokens_ok_shrink[OF assms(1)])
  fix t tk assume g: "jm_get (db_tokens (consume_token tok i db')) t = Some tk"
  have e: "db_tokens (consume_token tok i db') = db_tokens (consume_token tok i db)"
    "tokenIdByRequestId (consume_token tok i db') = tokenIdByRequestId (consume_token tok i db)"
    using assms(4,5) by (auto simp: consume_token_def deleteTokenById_def deleteTokenByRequestId_def split: option.split)
  from consume_clears[OF assms(1) assms(2)[unfolded own_token_def] g[unfolded e]] assms(3)[of "tk_requestId tk"]
  show "jm_get (db_tokens db) t = Some tk \<and>
      jm_get (tokenIdByRequestId (consume_token tok i db')) (tk_requestId tk) = jm_get (tokenIdByRequestId db) (tk_requestId tk) \<and>
      (\<forall>r'. jm_get (db_requests (consume_token tok i db')) (tk_requestId tk) = Some r' \<longrightarrow> rq_status r' = RqApproved \<longrightarrow>
         (\<exists>r. jm_get (db_requests db) (tk_requestId tk) = Some r \<and> rq_status r = RqApproved))"
    unfolding e by auto
qed

lemma sync_approve:
  assumes s: "synced db" and own: "own_token tok i db" and r: "jm_get (db_requests db) i = Some r" "rq_clientId r = c" "rq_agentId r = a"
  shows "synced (snd (approvePendingAndGrantAccess i c a at tok db))"
proof (cases rule: approve_cases[of i c a at tok db])
  case (granted x)
  let ?r = "r\<lparr>rq_status := RqApproved, rq_decidedAt := Some at, rq_decisionReason := None, rq_updatedAt := db_now db\<rparr>"
  let ?db = "addAccess c a (Some at) (saveRequest ?r db)"
  have x: "x = r" using granted(1) r(1) by simp
  have ok: "table_ok db" "tokens_ok db" using s by (auto simp: synced_def)
  have id: "rq_id r = i" using table_ok_id[OF ok(1) r(1)] .
  have g: "jm_get (db_requests ?db) j = (if j = i then Some ?r else jm_get (db_requests db) j)" for j
    using ok(1) r id table_ok_pair[OF ok(1) _ r(1)] by (auto simp: get_saveRequest split: option.splits)
  have t: "tokens_ok (consume_token tok i ?db)" by (rule consume_tokens_ok[OF ok(2) own]) (simp_all add: g del: requests_unchanged)
  have "approved_at j c' a' ?db \<longleftrightarrow> (if j = i then c' = c \<and> a' = a else approved_at j c' a' db)" for j c' a'
    using r unfolding approved_at_def g by (auto simp: same_pair_def)
  moreover have "\<not> approved_at i c' a' db" for c' a' using granted(1,2) by (simp add: approved_at_def)
  ultimately have "approved c' a' ?db \<longleftrightarrow> approved c' a' db \<or> (c' = c \<and> a' = a)" for c' a'
    unfolding approved_def by metis
  moreover have "table_ok ?db" using table_ok_saveRequest[OF ok(1)] by (simp add: table_ok_def)
  ultimately have "synced (consume_token tok i ?db)"
    using s t by (auto simp: synced_def approved_eq[OF requests_unchanged(5)] table_ok_eq[OF requests_unchanged(5)])
  then show ?thesis using granted x by simp
qed (use s in simp)

lemma sync_reject:
  assumes s: "synced db" and own: "own_token tok i db"
  shows "synced (snd (rejectPendingAndConsumeToken i at reason tok db))"
proof (cases rule: reject_cases[of i at reason tok db])
  case (rejected r)
  let ?db = "setStatus i RqRejected (Some at) reason db"
  have "synced ?db" using s rejected by (intro sync_setStatus) auto
  moreover have "tokens_ok (consume_token tok i ?db)"
    by (rule consume_tokens_ok[OF _ own]) (use s in \<open>auto simp: synced_def get_setStatus\<close>)
  ultimately have "synced (consume_token tok i ?db)" by (rule sync_same[OF _ requests_unchanged(5) access_unchanged(5)])
  then show ?thesis using rejected by simp
qed (use s in simp)

lemma approved_revoked:
  assumes "table_ok db" and "request_of c a db = Some r"
  shows "approved c' a' (setStatus (rq_id r) RqRevoked d reason db) \<longleftrightarrow> approved c' a' db \<and> \<not> (c' = c \<and> a' = a)"
proof -
  have r: "jm_get (db_requests db) (rq_id r) = Some r" "same_pair c a r" using request_of_Some[OF assms] by auto
  have "approved_at j c' a' db \<Longrightarrow> (j = rq_id r) \<longleftrightarrow> (c' = c \<and> a' = a)" for j
    using r table_ok_pair[OF assms(1) _ r(1), of j] by (auto simp: approved_at_def same_pair_def split: option.splits)
  then show ?thesis by (auto simp: approved_def approved_at_setStatus)
qed

lemma not_approved:
  "table_ok db \<Longrightarrow> (case request_of c a db of None \<Rightarrow> True | Some r \<Rightarrow> rq_status r \<noteq> RqApproved) \<Longrightarrow> \<not> approved c a db"
  by (auto simp: approved_request_of)

lemma request_of_eq: "db_requests db' = db_requests db \<Longrightarrow> request_of c a db' = request_of c a db"
  by (simp add: request_of_def)

text \<open>While access to a list of agents is being removed, only the requests for these agents may still be approved.\<close>

definition removing :: "string \<Rightarrow> (string, access_request) jsmap \<Rightarrow> string list \<Rightarrow> access_db \<Rightarrow> bool" where
  "removing c m as db \<longleftrightarrow> table_ok db \<and> tokens_ok db \<and> distinct as \<and> (\<forall>a \<in> set as. jm_get m a = request_of c a db) \<and>
     (\<forall>c' a'. hasAccess c' a' db \<longleftrightarrow> approved c' a' db \<and> \<not> (c' = c \<and> a' \<in> set as))"

lemma removing_emit [simp]: "removing c m as (emit ef db) = removing c m as db"
  by (auto simp: removing_def approved_eq[OF requests_unchanged(1)] table_ok_eq[OF requests_unchanged(1)] request_of_eq[OF requests_unchanged(1)]
      tokens_ok_eq[of "emit ef db" db])

lemma removing_done: "removing c m [] db \<Longrightarrow> synced db"
  by (simp add: removing_def synced_def)

lemma removing_step:
  assumes "removing c m (a # as) db"
  shows "removing c m as (case jm_get m a of
      Some r \<Rightarrow> if rq_status r = RqApproved then setStatus (rq_id r) RqRevoked None (Some reason) db else db | None \<Rightarrow> db)"
proof (cases "\<exists>r. jm_get m a = Some r \<and> rq_status r = RqApproved")
  case False
  then have "\<not> approved c a db" using assms by (intro not_approved) (auto simp: removing_def split: option.split)
  then have "removing c m as db" using assms by (auto simp: removing_def)
  then show ?thesis using False by (auto split: option.split)
next
  case True
  then obtain r where r: "jm_get m a = Some r" "rq_status r = RqApproved" by blast
  let ?db = "setStatus (rq_id r) RqRevoked None (Some reason) db"
  have ok: "table_ok db" "table_ok ?db" "tokens_ok ?db" and ra: "request_of c a db = Some r"
    using assms r by (auto simp: removing_def table_ok_setStatus tokens_ok_setStatus)
  have "request_of c b ?db = request_of c b db" if "b \<noteq> a" for b
  proof -
    have "(request_of c b ?db = Some x) = (request_of c b db = Some x)" for x
      using request_of_Some[OF ok(1) ra] that
      by (auto simp: request_of_iff[OF ok(1)] request_of_iff[OF ok(2)] get_setStatus same_pair_def split: if_splits)
    then show ?thesis by (metis option.exhaust)
  qed
  then have "\<forall>b \<in> set as. jm_get m b = request_of c b ?db" using assms by (metis distinct.simps(2) list.set_intros(2) removing_def)
  then have "removing c m as ?db" using assms ok approved_revoked[OF ok(1) ra] by (auto simp: removing_def)
  then show ?thesis using r by simp
qed

lemma sync_remove_loop: "removing c m as db \<Longrightarrow> synced (snd (run (remove_loop c ap m as) db))"
proof (induction as arbitrary: db)
  case (Cons a as)
  then have "removing c m (a # as) (emit (LiveProfileRevoked c a) db)" by simp
  from removing_step[OF this, of "''client_revoked_access''"] show ?case
    using Cons.IH by (auto simp: Let_def split: option.splits if_splits)
qed (simp add: removing_done)

lemma sync_revoke:
  assumes "synced db"
  shows "synced (snd (revokeAccess_txn c a reason db))"
proof -
  let ?db = "removeAccess c a db"
  have ok: "table_ok ?db" using assms by (simp add: synced_def table_ok_eq[OF requests_unchanged(9)])
  have "removing c [(a, r)] [a] ?db" if "request_of c a ?db = Some r" for r
    using assms that by (auto simp: removing_def synced_def ok approved_eq[OF requests_unchanged(9)] tokens_ok_eq[of ?db db])
  then have "synced (snd (revokeAccess_txn c a reason db))" if "request_of c a ?db = Some r" for r
    using removing_done[OF removing_step[of c "[(a, r)]" a "[]" ?db reason]] that by (simp add: revokeAccess_txn_def Let_def)
  moreover have "synced ?db" if "request_of c a ?db = None"
    using assms not_approved[OF ok, of c a] that
    by (auto simp: synced_def ok approved_eq[OF requests_unchanged(9)] tokens_ok_eq[of ?db db])
  ultimately show ?thesis by (cases "request_of c a ?db") (auto simp: revokeAccess_txn_def Let_def)
qed

text \<open>What a planned row promises to the write.\<close>

definition row_ok :: "string \<Rightarrow> access_db \<Rightarrow> access_request \<times> approval_token \<Rightarrow> bool" where
  "row_ok c db row \<longleftrightarrow> rq_clientId (fst row) = c \<and> rq_status (fst row) = RqPending \<and> tk_id (snd row) \<noteq> [] \<and>
     \<not> hasAccess c (rq_agentId (fst row)) db \<and>
     (\<forall>x. jm_get (db_requests db) (rq_id (fst row)) = Some x \<longrightarrow> same_pair c (rq_agentId (fst row)) x)"

lemma persisted_fields:
  "rq_clientId (persisted q db) = rq_clientId q" "rq_agentId (persisted q db) = rq_agentId q" "rq_status (persisted q db) = rq_status q"
  by (simp_all add: persisted_def split: option.split)

lemma persisted_id:
  assumes "table_ok db" and "row_ok c db row"
  shows "(\<forall>x. jm_get (db_requests db) (rq_id (persisted (fst row) db)) = Some x \<longrightarrow> same_pair c (rq_agentId (fst row)) x) \<and>
    (\<forall>j x. jm_get (db_requests db) j = Some x \<longrightarrow> same_pair c (rq_agentId (fst row)) x \<longrightarrow> j = rq_id (persisted (fst row) db))"
proof (cases "request_of c (rq_agentId (fst row)) db")
  case None
  have "\<not> same_pair c (rq_agentId (fst row)) x" if "jm_get (db_requests db) j = Some x" for j x
    using None request_of_iff[OF assms(1), of c "rq_agentId (fst row)" x] table_ok_id[OF assms(1) that] that by simp
  moreover have "persisted (fst row) db = fst row" using None assms(2) by (simp add: persisted_def row_ok_def)
  ultimately show ?thesis using assms(2) by (auto simp: row_ok_def)
next
  case (Some x)
  have x: "jm_get (db_requests db) (rq_id x) = Some x" "same_pair c (rq_agentId (fst row)) x" using request_of_Some[OF assms(1) Some] by auto
  have id: "rq_id (persisted (fst row) db) = rq_id x" using Some assms(2) by (simp add: persisted_def row_ok_def)
  show ?thesis unfolding id
  proof (intro conjI allI impI)
    fix y assume "jm_get (db_requests db) (rq_id x) = Some y"
    then show "same_pair c (rq_agentId (fst row)) y" using x by (metis option.inject)
  next
    fix j y assume y: "jm_get (db_requests db) j = Some y" "same_pair c (rq_agentId (fst row)) y"
    then have "same_pair (rq_clientId x) (rq_agentId x) y" using x(2) by (simp add: same_pair_def)
    then show "j = rq_id x" by (rule table_ok_pair[OF assms(1) y(1) x(1)])
  qed
qed

lemma get_write:
  assumes "table_ok db" and "row_ok c db row"
  shows "jm_get (db_requests (writePendingRequest row db)) j =
    (if j = rq_id (persisted (fst row) db) then Some (persisted (fst row) db) else jm_get (db_requests db) j)"
  using assms(2) conjunct2[OF persisted_id[OF assms]]
  by (auto simp: requests_writePendingRequest get_saveRequest[OF assms(1)] persisted_fields row_ok_def split: option.splits)

lemma tokens_ok_saveToken:
  assumes "tokens_ok db" and "tk_id tk \<noteq> []" and "\<And>r. jm_get (db_requests db) (tk_requestId tk) = Some r \<Longrightarrow> rq_status r \<noteq> RqApproved"
  shows "tokens_ok (saveToken tk db)"
  unfolding tokens_ok_def
proof (intro allI impI)
  fix t x assume g: "jm_get (db_tokens (saveToken tk db)) t = Some x"
  show "t \<noteq> [] \<and> jm_get (tokenIdByRequestId (saveToken tk db)) (tk_requestId x) = Some t \<and>
      (\<forall>r. jm_get (db_requests (saveToken tk db)) (tk_requestId x) = Some r \<longrightarrow> rq_status r \<noteq> RqApproved)"
  proof (cases "t = tk_id tk")
    case True
    then have "x = tk" using g by (simp add: saveToken_def Let_def)
    then show ?thesis using True assms(2,3) by (simp add: saveToken_def Let_def)
  next
    case False
    then have g': "jm_get (db_tokens db) t = Some x" using g by (auto simp: saveToken_def Let_def split: option.splits if_splits)
    then have t: "t \<noteq> []" "jm_get (tokenIdByRequestId db) (tk_requestId x) = Some t" using assms(1) by (auto simp: tokens_ok_def)
    have "tk_requestId x \<noteq> tk_requestId tk" using g False t by (auto simp: saveToken_def Let_def)
    then show ?thesis using g' t assms(1) by (auto simp: saveToken_def Let_def tokens_ok_def)
  qed
qed

lemma sync_write_one:
  assumes s: "synced db" and row: "row_ok c db row"
  shows "synced (writePendingRequest row db)"
proof -
  let ?p = "persisted (fst row) db"
  let ?db = "saveRequest ?p db"
  have ok: "table_ok db" "tokens_ok db" using s by (auto simp: synced_def)
  have g: "jm_get (db_requests ?db) j = (if j = rq_id ?p then Some ?p else jm_get (db_requests db) j)" for j
    using get_write[OF ok(1) row, of j] unfolding requests_writePendingRequest .
  have p: "rq_status ?p = RqPending" using row by (simp add: persisted_fields row_ok_def)
  have "\<not> approved c (rq_agentId (fst row)) db" using s row by (auto simp: synced_def row_ok_def)
  then have n: "\<not> approved_at (rq_id ?p) c (rq_agentId (fst row)) db" by (simp add: approved_def)
  have old: "\<not> approved_at (rq_id ?p) c' a' db" for c' a'
  proof (cases "jm_get (db_requests db) (rq_id ?p)")
    case (Some x)
    then have "same_pair c (rq_agentId (fst row)) x" using persisted_id[OF ok(1) row] by blast
    then show ?thesis using n Some by (simp add: approved_at_def)
  qed (simp add: approved_at_def)
  have "approved_at j c' a' ?db = approved_at j c' a' db" for j c' a'
    using old[of c' a'] p by (auto simp: approved_at_def g)
  then have "approved c' a' ?db = approved c' a' db" for c' a' by (simp add: approved_def)
  moreover have "tokens_ok ?db" using ok(2) p by (auto simp: tokens_ok_def g)
  ultimately have s1: "synced ?db" using s table_ok_saveRequest[OF ok(1)] by (simp add: synced_def)
  have "tokens_ok (saveToken ((snd row)\<lparr>tk_requestId := rq_id ?p\<rparr>) ?db)"
    using s1 row p by (intro tokens_ok_saveToken) (auto simp: synced_def row_ok_def g)
  from sync_same[OF s1 requests_unchanged(6) access_unchanged(6) this] show ?thesis by (simp add: writePendingRequest_def Let_def)
qed

lemma sync_write:
  assumes "synced db" and "\<forall>row \<in> set rows. row_ok c db row" and "distinct (map (\<lambda>row. rq_id (fst row)) rows)"
    and "distinct (map (\<lambda>row. rq_agentId (fst row)) rows)"
  shows "synced (writePendingRequests rows db)"
  using assms
proof (induction rows arbitrary: db)
  case (Cons row rows)
  have ok: "table_ok db" and row: "row_ok c db row" using Cons by (auto simp: synced_def)
  have "row_ok c (writePendingRequest row db) x" if x: "x \<in> set rows" for x
  proof -
    have rx: "row_ok c db x" using Cons(3) x by simp
    have ne: "rq_id (fst x) \<noteq> rq_id (fst row)" "rq_agentId (fst x) \<noteq> rq_agentId (fst row)"
      using Cons(4,5) x unfolding list.map distinct.simps set_map by (metis image_eqI)+
    have "rq_id (fst x) \<noteq> rq_id (persisted (fst row) db)"
    proof
      assume e: "rq_id (fst x) = rq_id (persisted (fst row) db)"
      then obtain y where "request_of c (rq_agentId (fst row)) db = Some y" "rq_id y = rq_id (fst x)"
        using ne row by (auto simp: persisted_def row_ok_def split: option.splits if_splits)
      then show False using request_of_Some[OF ok] rx ne(2) by (fastforce simp: row_ok_def same_pair_def)
    qed
    then show ?thesis using rx by (simp add: row_ok_def get_write[OF ok row]) (simp add: writePendingRequest_def Let_def)
  qed
  then have "synced (writePendingRequests rows (writePendingRequest row db))"
    using Cons.IH[OF sync_write_one[OF Cons(2) row]] Cons(4,5) by simp
  then show ?case by (simp add: writePendingRequests_def)
qed (simp add: writePendingRequests_def)

text \<open>The map of the stored requests finds the request of every pair.\<close>

lemma found_map:
  assumes "table_ok db" and "a \<in> set as"
  shows "jm_get (fst (findByClientAndAgents c as db)) a = request_of c a db"
proof -
  let ?f = "\<lambda>m r. if rq_clientId r = c \<and> rq_agentId r \<in> set as then jm_set (rq_agentId r) r m else m"
  have loop: "jm_get (foldl ?f m rs) a = (if filter (same_pair c a) rs = [] then jm_get m a else Some (last (filter (same_pair c a) rs)))" for m rs
    using assms(2) by (induction rs arbitrary: m) (auto simp: same_pair_def)
  have "last (filter (same_pair c a) rs) = x" if "find (same_pair c a) rs = Some x" "\<And>y. y \<in> set rs \<Longrightarrow> same_pair c a y \<Longrightarrow> y = x" for rs x
  proof -
    have "x \<in> set rs" "same_pair c a x" using that(1) by (auto simp: find_Some_iff)
    then have "filter (same_pair c a) rs \<noteq> []" by (auto simp: filter_empty_conv)
    then show ?thesis using that(2) last_in_set[of "filter (same_pair c a) rs"] by auto
  qed
  note last = this
  show ?thesis
  proof (cases "request_of c a db")
    case None
    then have "filter (same_pair c a) (map snd (db_requests db)) = []" unfolding request_of_def find_None_iff by (auto simp: filter_empty_conv)
    then show ?thesis using loop[of "[]" "map snd (db_requests db)"] None by (simp add: findByClientAndAgents_def)
  next
    case (Some x)
    have "y = x" if y: "y \<in> set (map snd (db_requests db))" "same_pair c a y" for y
    proof -
      obtain j where "(j, y) \<in> set (db_requests db)" using y(1) by auto
      then have j: "jm_get (db_requests db) j = Some y" by (rule jm_in_set_get[OF conjunct1[OF assms(1)[unfolded table_ok_def]]])
      have "request_of c a db = Some y" unfolding request_of_iff[OF assms(1)] table_ok_id[OF assms(1) j] using j y(2) by simp
      then show ?thesis using Some by simp
    qed
    then have "last (filter (same_pair c a) (map snd (db_requests db))) = x" by (rule last[OF Some[unfolded request_of_def]])
    moreover have "filter (same_pair c a) (map snd (db_requests db)) \<noteq> []"
      using Some unfolding request_of_def find_Some_iff by (metis filter_empty_conv nth_mem)
    ultimately show ?thesis using loop[of "[]" "map snd (db_requests db)"] Some by (simp add: findByClientAndAgents_def)
  qed
qed

lemma plan_rows_form:
  assumes "plan_requests env ids c now m work rows = Inr rows'"
  shows "pr_rows rows' = pr_rows rows @ map (\<lambda>a. (request_row env (fst (ids a)) c now a (jm_get m a),
      newApprovalToken env (snd (ids a)) (rq_id (request_row env (fst (ids a)) c now a (jm_get m a))) now))
    (filter (\<lambda>a. \<not> debounced_now env now (jm_get m a)) work)"
  using assms
proof (induction work arbitrary: rows)
  case (Cons a work)
  then show ?case by (auto simp: Let_def split: if_splits)
qed simp

text \<open>Ids come from \<^verbatim>\<open>randomUUID\<close>: they are new, different for different agents, and not empty.\<close>

definition fresh_ids :: "(string \<Rightarrow> string \<times> string) \<Rightarrow> string list \<Rightarrow> access_db \<Rightarrow> bool" where
  "fresh_ids ids as db \<longleftrightarrow> inj_on (\<lambda>a. fst (ids a)) (set as) \<and> (\<forall>a \<in> set as. jm_get (db_requests db) (fst (ids a)) = None \<and> snd (ids a) \<noteq> [])"

lemma sync_planned:
  assumes s: "synced db" and ids: "fresh_ids ids work db" and d: "distinct work" and noaccess: "\<And>a. a \<in> set work \<Longrightarrow> \<not> hasAccess c a db"
    and plan: "plan_requests env ids c now (fst (findByClientAndAgents c work db)) work
      \<lparr>pr_rows = [], pr_new = [], pr_reopened = [], pr_debounced = []\<rparr> = Inr rows"
  shows "synced (writePendingRequests (pr_rows rows) db)"
proof -
  have ok: "table_ok db" using s by (simp add: synced_def)
  define q where "q = (\<lambda>a. request_row env (fst (ids a)) c now a (request_of c a db))"
  define as where "as = filter (\<lambda>a. \<not> debounced_now env now (request_of c a db)) work"
  have as: "set as \<subseteq> set work" "distinct as" using d by (auto simp: as_def)
  have rows: "pr_rows rows = map (\<lambda>a. (q a, newApprovalToken env (snd (ids a)) (rq_id (q a)) now)) as"
    using plan_rows_form[OF plan] found_map[OF ok] by (auto simp: q_def as_def cong: filter_cong)
  have found: "same_pair c a x" "jm_get (db_requests db) (rq_id x) \<noteq> None" "jm_get (db_requests db) (rq_id x) = Some y \<Longrightarrow> same_pair c a y"
    if "request_of c a db = Some x" for a x y
    using request_of_Some[OF ok that] by auto
  have pair: "rq_clientId (q a) = c \<and> rq_agentId (q a) = a \<and> rq_status (q a) = RqPending" for a
    using found(1)[of a] by (cases "request_of c a db") (auto simp: q_def request_row_def same_pair_def)
  have stored: "same_pair c a x" if "a \<in> set work" "jm_get (db_requests db) (rq_id (q a)) = Some x" for a x
    using that ids found(3)[of a _ x] by (cases "request_of c a db") (auto simp: q_def request_row_def fresh_ids_def)
  have new: "jm_get (db_requests db) (rq_id (q a)) = None \<Longrightarrow> rq_id (q a) = fst (ids a)" for a
    using found(2)[of a] by (cases "request_of c a db") (auto simp: q_def request_row_def)
  have inj: "inj_on (\<lambda>a. rq_id (q a)) (set work)"
  proof (rule inj_onI)
    fix a b assume ab: "a \<in> set work" "b \<in> set work" "rq_id (q a) = rq_id (q b)"
    show "a = b"
    proof (cases "jm_get (db_requests db) (rq_id (q a))")
      case None
      then have "fst (ids a) = fst (ids b)" using new[of a] new[of b] ab(3) by simp
      then show ?thesis using ids ab by (auto simp: fresh_ids_def inj_on_def)
    next
      case (Some x)
      then show ?thesis using stored[OF ab(1)] stored[OF ab(2)] ab(3) by (auto simp: same_pair_def)
    qed
  qed
  show ?thesis
  proof (rule sync_write[OF s])
    show "\<forall>row \<in> set (pr_rows rows). row_ok c db row"
      using pair stored noaccess as(1) ids by (auto simp: rows row_ok_def newApprovalToken_def fresh_ids_def)
    show "distinct (map (\<lambda>row. rq_id (fst row)) (pr_rows rows))"
      using as inj_on_subset[OF inj as(1)] by (simp add: rows distinct_map comp_def)
    show "distinct (map (\<lambda>row. rq_agentId (fst row)) (pr_rows rows))" using as pair by (simp add: rows comp_def)
  qed
qed

text \<open>Handlers one after the other, each run to its end, with fresh ids; between them time passes and accounts change.\<close>

inductive service_step :: "access_env \<Rightarrow> access_db \<Rightarrow> access_db \<Rightarrow> bool" for env where
  s_approveByToken: "service_step env db (snd (run (approveByToken t) db))"
| s_rejectByToken: "service_step env db (snd (run (rejectByToken t reason) db))"
| s_statusByToken: "service_step env db (snd (run (getRequestStatusByToken t) db))"
| s_approveByOwner: "service_step env db (snd (run (approveByOwner u i) db))"
| s_rejectByOwner: "service_step env db (snd (run (rejectByOwner u i reason) db))"
| s_revokeByOwner: "service_step env db (snd (run (revokeAccessByOwner u a c) db))"
| s_requestAccess: "fresh_ids ids as db \<Longrightarrow> service_step env db (snd (run (requestAccess env ids queued c as) db))"
| s_retryRequest: "(\<And>a. fresh_ids ids [a] db) \<Longrightarrow> service_step env db (snd (run (retryRequestByClient env ids queued c i) db))"
| s_removeAccess: "service_step env db (snd (run (removeApprovedAccess c as) db))"
| s_other: "access_other db db' \<Longrightarrow> service_step env db db'"

lemma sync_finish_approval: "synced db \<Longrightarrow> synced (snd (run (finish_approval e m r) db))"
  by (simp add: finish_approval_def Let_def)

lemma sync_check_and_grant:
  assumes "synced db" and "own_token tok (rq_id r) db" and "jm_get (db_requests db) (rq_id r) = Some r"
  shows "synced (snd (run (check_and_grant e tok r) db))"
  using sync_approve[OF assms refl refl] assms(1)
  by (auto simp: check_and_grant_def token_reads sync_finish_approval split: option.split)

lemma sync_finish_rejection: "synced db \<Longrightarrow> synced (snd (run (finish_rejection e reason r) db))"
  by (auto simp: finish_rejection_def readClient_def Let_def split: option.split)

lemma synced_id: "synced db \<Longrightarrow> jm_get (db_requests db) i = Some r \<Longrightarrow> rq_id r = i"
  using table_ok_id unfolding synced_def by blast

text \<open>A token found in the store belongs to a request that is not approved.\<close>

lemma token_request:
  assumes "synced db" and "jm_get (db_tokens db) t = Some tk" and "jm_get (db_requests db) (tk_requestId tk) = Some r"
  shows "rq_id r = tk_requestId tk" and "own_token (Some t) (rq_id r) db" and "jm_get (db_requests db) (rq_id r) = Some r"
    and "synced (setStatus (rq_id r) RqExpired d reason db)"
proof -
  show i: "rq_id r = tk_requestId tk" using synced_id[OF assms(1,3)] .
  show "own_token (Some t) (rq_id r) db" "jm_get (db_requests db) (rq_id r) = Some r" using assms(2,3) i by (auto simp: own_token_def)
  show "synced (setStatus (rq_id r) RqExpired d reason db)"
    using assms(1,2) i by (intro sync_setStatus) (auto simp: synced_def tokens_ok_def)
qed

lemma sync_token_decisions:
  assumes s: "synced db"
  shows "synced (snd (run (approveByToken t) db))" "synced (snd (run (rejectByToken t reason) db))" "synced (snd (run (getRequestStatusByToken t) db))"
proof -
  show "synced (snd (run (approveByToken t) db))"
    using s token_request[OF s] sync_check_and_grant[OF s]
    by (auto simp: approveByToken_def findTokenById_def findRequestById_def sync_deleteTokenById split: option.split)
  show "synced (snd (run (rejectByToken t reason) db))"
    using s token_request[OF s] sync_reject[OF s]
    by (auto simp: rejectByToken_def findTokenById_def findRequestById_def sync_deleteTokenById sync_finish_rejection split: option.split)
  show "synced (snd (run (getRequestStatusByToken t) db))"
    using s token_request[OF s]
    by (auto simp: getRequestStatusByToken_def findTokenById_def findRequestById_def split: option.split)
qed

lemma sync_owner_decisions:
  assumes s: "synced db"
  shows "synced (snd (run (approveByOwner u i) db))" "synced (snd (run (rejectByOwner u i reason) db))" "synced (snd (run (revokeAccessByOwner u a c) db))"
proof -
  have own: "own_token None j db" for j by (simp add: own_token_def)
  show "synced (snd (run (approveByOwner u i) db))"
    using s sync_check_and_grant[OF s own] synced_id[OF s]
    by (auto simp: approveByOwner_def assertAgentOwnership_def findRequestById_def readOwner_def split: option.split)
  show "synced (snd (run (rejectByOwner u i reason) db))"
    using s sync_reject[OF s own] by (auto simp: rejectByOwner_def findRequestById_def readOwner_def sync_finish_rejection split: option.split)
  show "synced (snd (run (revokeAccessByOwner u a c) db))"
    using s sync_revoke[OF s, of c a "''owner_revoked_access''"]
    by (auto simp: revokeAccessByOwner_def assertAgentOwnership_def readClient_def readOwner_def case_prod_beta Let_def split: option.split)
qed

lemma unique_props: "set (unique xs) = set xs" "distinct (unique xs)"
proof -
  have "set (foldl (\<lambda>ys x. js_add x ys) ys xs) = set ys \<union> set xs \<and> (distinct ys \<longrightarrow> distinct (foldl (\<lambda>ys x. js_add x ys) ys xs))" for ys
    by (induction xs arbitrary: ys) (auto simp: js_add_def)
  from this[of "[]"] show "set (unique xs) = set xs" "distinct (unique xs)" by (auto simp: unique_def)
qed

lemma listed_access: "a \<in> set (listAccessAgentIdsForClientIn c as db) \<longleftrightarrow> a \<in> set as \<and> hasAccess c a db"
  using unique_props(1)[of as] by (auto simp: listAccessAgentIdsForClientIn_def hasAccess_def getRow_def unique_def split: option.split)

lemma sync_emits: "synced (foldl (\<lambda>d row. emit (f row) d) db rows) = synced db"
  by (induction rows arbitrary: db) auto

lemma fresh_ids_subset: "fresh_ids ids as db \<Longrightarrow> set bs \<subseteq> set as \<Longrightarrow> fresh_ids ids bs db"
  by (auto simp: fresh_ids_def intro: inj_on_subset)

lemma sync_write_and_mail:
  assumes "synced db" and "fresh_ids ids work db" and "distinct work" and "\<And>a. a \<in> set work \<Longrightarrow> \<not> hasAccess c a db"
  shows "synced (snd (run (write_and_mail env ids queued c cl work ap mail (fst (findByClientAndAgents c work db)) now) db))"
  using sync_planned[OF assms] assms(1) by (auto simp: write_and_mail_def Let_def sync_emits split: sum.split)

lemma sync_requestAccess:
  assumes s: "synced db" and ids: "fresh_ids ids as db"
  shows "synced (snd (run (requestAccess env ids queued c as) db))"
proof -
  define work where "work = filter (\<lambda>a. a \<notin> set (listAccessAgentIdsForClientIn c (unique as) db)) (unique as)"
  have w: "distinct work" "set work \<subseteq> set as" "\<And>a. a \<in> set work \<Longrightarrow> \<not> hasAccess c a db"
    using unique_props[of as] by (auto simp: work_def listed_access)
  have "synced (snd (run (write_and_mail env ids queued c cl work ap mail (fst (findByClientAndAgents c work db)) now) db))" for cl ap mail now
    using sync_write_and_mail[OF s fresh_ids_subset[OF ids w(2)] w(1,3)] .
  then show ?thesis using s unfolding requestAccess_def Let_def work_def
    by (auto simp: readClient_def findByClientAndAgents_def[of c _ db] split: option.split)
qed

lemma sync_retryRequest: "synced db \<Longrightarrow> (\<And>a. fresh_ids ids [a] db) \<Longrightarrow> synced (snd (run (retryRequestByClient env ids queued c i) db))"
  by (auto simp: retryRequestByClient_def findRequestById_def Let_def sync_requestAccess split: option.split)

lemma sync_removeApprovedAccess:
  assumes "synced db"
  shows "synced (snd (run (removeApprovedAccess c as) db))"
proof -
  let ?as = "unique as"
  let ?db = "removeAgentIds c ?as db"
  have ok: "table_ok db" using assms by (simp add: synced_def)
  have "removing c (fst (findByClientAndAgents c ?as db)) ?as ?db"
    using assms unique_props[of as] found_map[OF ok]
    by (auto simp: removing_def synced_def approved_eq[OF requests_unchanged(8)] table_ok_eq[OF requests_unchanged(8)]
        request_of_eq[OF requests_unchanged(8)] tokens_ok_eq[of ?db db])
  from sync_remove_loop[OF this] show ?thesis by (simp add: removeApprovedAccess_def Let_def findByClientAndAgents_def)
qed

lemma sync_other: "synced db \<Longrightarrow> access_other db db' \<Longrightarrow> synced db'"
proof -
  assume s: "synced db" and o: "access_other db db'"
  have "hasAccess c a db' = hasAccess c a db" for c a
    using o
  proof cases
    case (other_tables cs as os us t)
    then show ?thesis by (intro hasAccess_eq) simp
  next
    case (other_client_token c a tok)
    then show ?thesis using hasAccess_ops(4) by blast
  qed
  moreover have t: "db_tokens db' = db_tokens db" "tokenIdByRequestId db' = tokenIdByRequestId db"
    using o by (auto simp: access_other.simps setClientToken_def split: option.splits)
  note r = other_requests[OF o]
  ultimately show ?thesis using s by (simp add: synced_def approved_eq[OF r] table_ok_eq[OF r] tokens_ok_eq[OF r t])
qed

lemmas service_keeps_sync = sync_token_decisions sync_owner_decisions sync_requestAccess sync_retryRequest sync_removeApprovedAccess sync_other



end
