(* ===== verification/Spec2Isabelle.thy ===== *)
theory Spec2Isabelle
  imports Ttl_Store Conversation_Registry Relay_Idempotency_Store Active_Stream_Registry
    Agent_Dispatch_Queue Relay_Rate_Limiter Latency_Stats Agent_Inbound_Sequencer Rest_Pending_Requests Inflight_Gates
    Relay_Outbound_Queue Agent_Ingress_Guard Relay_Stream_Drain Payload_Frame Client_Access_Sync
begin

text \<open>
  A model of the plug server hub (\<^verbatim>\<open>src/src\<close>), a TypeScript server that relays JSON-RPC commands between consumers
  (sockets and REST clients) and agents (sockets), and the properties that make its core correct.

  \<^bold>\<open>The program.\<close> A consumer opens a conversation with an agent and sends requests over it. The hub admits a request
  (rate limits, in-flight gates, overload gate, pending slots, dispatch slots), registers a route for it, forwards it to the
  agent, and sends the agent's response or stream back to the consumer, in order. Requests with a client
  request id are deduplicated. Everything on the wire is a payload frame: JSON, possibly compressed and signed. Which client may reach which
  agent is decided by the owner of the agent, who approves or rejects the client's request by a mail link or in the application. The hub is in-memory state in JavaScript maps, changed by event handlers that interleave at
  every \<^verbatim>\<open>await\<close>; the handlers and their state are what is modelled.

  \<^bold>\<open>How code becomes theory.\<close> A \<^verbatim>\<open>Map\<close> is an insertion-ordered association list (\<open>jsmap\<close> of Prelude), a \<^verbatim>\<open>Set\<close> a distinct list.
  A module with top-level state becomes a record and its functions become functions on it, with the source's names.
  Objects that the code shares or compares by reference (closures with a released flag, promises, tail entries, pending
  requests) are handles into a heap that is part of the state. The clock, timers, the outcome of asynchronous work, the answers of
  Redis and the configuration are arguments. A component in operation is a step relation over its
  operations; \<open>invariant_system\<close> (Prelude) lifts an invariant to all reachable states and is interpreted once per component.

  \<^bold>\<open>Components\<close> (theory: source; what is shown):
  \<^item> Prelude, Registry_Index: maps, sets, secondary indexes and counters, with the law that an index stays the inverse image
    of its primary map.
  \<^item> Expiration_Heap: \<^verbatim>\<open>shared/utils/indexed_expiration_heap.ts\<close>. The binary heap with its position index refines a
    finite map with a minimum (locale \<open>expiry_queue\<close>).
  \<^item> Ttl_Store: \<^verbatim>\<open>indexed_ttl_store.ts\<close> on top of that locale, and \<^verbatim>\<open>ttl_cache.ts\<close>. Live entries are returned, timer
    turns evict what is due, the cache is bounded.
  \<^item> Conversation_Registry: \<^verbatim>\<open>hub/registries/conversation_registry.ts\<close>. Caps and indexes; bulk removals are exact.
  \<^item> Relay_Request_Registry: \<^verbatim>\<open>relay_request_registry.ts\<close>, \<^verbatim>\<open>relay_route_settlement.ts\<close>, \<^verbatim>\<open>relay_timeout_tombstone.ts\<close> and the
    reserve/register/finally discipline of \<^verbatim>\<open>rpc_bridge_dispatch_relay.ts\<close>. Pending counters are exact and capped; a request is
    settled once and its dispatch slot is released once.
  \<^item> Relay_Idempotency_Store: \<^verbatim>\<open>relay_idempotency_store.ts\<close> and its writers. In-flight entries are pinned, caps hold, pruning is
    exact, duplicates are replayed; at the global cap an entry can be written to a detached map.
  \<^item> Active_Stream_Registry: \<^verbatim>\<open>active_stream_registry.ts\<close>, \<^verbatim>\<open>relay_stream_timeout_registry.ts\<close>,
    \<^verbatim>\<open>rest_sql_stream_materialize.ts\<close> and one fail-fast path. Indexes and open-stream counters are exact, resolution is
    sound, timers belong to registered streams; a gauge leaks on that path.
  \<^item> Agent_Dispatch_Queue: \<^verbatim>\<open>rest_agent_dispatch_queue.ts\<close>, \<^verbatim>\<open>relay_agent_dispatch_queue.ts\<close>, \<^verbatim>\<open>agent_dispatch_saturation.ts\<close>.
    Both queues satisfy the locale \<open>slot_queue\<close>: limits hold and waiters are served in order.
  \<^item> Fixed_Window_Limiter, Relay_Rate_Limiter: \<^verbatim>\<open>hub/rate_limits/\<close>. Admission bounds per window and over any interval,
    isolation of identities, credit conservation, the local-first protocol with its reconciliation, and a refund
    that reaches into the next window.
  \<^item> Latency_Stats: \<^verbatim>\<open>latency_ring_buffer.ts\<close>, \<^verbatim>\<open>percentile.ts\<close>. The ring holds the last samples; the quickselect ends and
    returns the order statistic.
  \<^item> Agent_Inbound_Sequencer: \<^verbatim>\<open>agent_inbound_sequencer.ts\<close> and the frame handler of \<^verbatim>\<open>rpc_bridge_agent_inbound.ts\<close>. Frames
    of an agent are decoded concurrently and committed in arrival order; none waits in vain.
  \<^item> Rest_Pending_Requests: \<^verbatim>\<open>rest_pending_requests.ts\<close>. The count of requests under several ids is exact.
  \<^item> Inflight_Gates: \<^verbatim>\<open>per_socket_inflight_gate.ts\<close>, \<^verbatim>\<open>redis_circuit_breaker.ts\<close>. Slots held are counted and capped; the breaker opens at
    its threshold.
  \<^item> Relay_Outbound_Queue: \<^verbatim>\<open>relay_outbound_queue.ts\<close> and the consumer gate of \<^verbatim>\<open>register_consumer_socket_handlers.ts\<close>. Emits of
    one request leave in order, the backlog and byte books are exact and bounded; tracked request ids can leak, and shedding by
    latency does not end by itself.
  \<^item> Agent_Registry: \<^verbatim>\<open>agent_registry.ts\<close>. Agents and sockets are in bijection, registrations have exactly the stated outcomes,
    negotiated limits stay within those of the hub; a refused registration is not atomic.
  \<^item> Agent_Ingress_Guard: \<^verbatim>\<open>agent_inbound_ingress_guard.ts\<close>, which asks the agent registry for the budget key of a socket.
    Pending work is counted exactly and enforced budgets are never exceeded.
  \<^item> Json_Text: JSON values, \<^verbatim>\<open>JSON.stringify\<close> and the UTF-8 length of UTF-16 strings.
  \<^item> Sql_Chunk_Codec: \<^verbatim>\<open>infrastructure/codecs/sql_stream_chunk_inspection.ts\<close>, \<^verbatim>\<open>sql_stream_chunk_codec.ts\<close>. The size of a columnar
    chunk is computed without expanding it and equals that of the printed expansion; expansion is typed and reads back.
  \<^item> Rest_Stream_Materialize: \<^verbatim>\<open>rest_stream_materialize_handler.ts\<close>, \<^verbatim>\<open>merge_sql_stream_rpc_response.ts\<close> and the stream frames of
    \<^verbatim>\<open>rpc_bridge_agent_inbound.ts\<close>, over the stream and agent registries. A stream within the limits becomes one response with its rows.
  \<^item> Relay_Stream_Flow: \<^verbatim>\<open>relay_stream_flow_state.ts\<close>. The chunk buffer is a queue (locale \<open>fifo_buffer\<close>) and its totals are exact.
  \<^item> Relay_Stream_Drain: the drain of that file, \<^verbatim>\<open>relay_stream_drain_scheduler.ts\<close>, \<^verbatim>\<open>rpc_bridge_relay_stream.ts\<close> and the pull of
    \<^verbatim>\<open>rpc_bridge_stream_pull.ts\<close>. Chunks are delivered in order, within the credits granted, and no wake-up is lost; credits can be lost and a
    late pull leaks an entry.

  \<^item> Json_Parse: UTF-8, base64 and \<^verbatim>\<open>JSON.parse\<close> as a lexer and a pushdown machine; it reads back what \<^verbatim>\<open>JSON.stringify\<close> wrote.
  \<^item> Payload_Frame: \<^verbatim>\<open>shared/utils/payload_frame.ts\<close>, \<^verbatim>\<open>payload_frame_adaptive_compression.ts\<close>. Frames round-trip, bounded decompression
    decides as an unbounded one would, a signature belongs to one frame; the cache of signature inputs confuses ids with a bar, a frame that declares
    size zero is inflated without a limit, and an inherited property name as key id throws.
  \<^item> Handler_Process: asynchronous handlers as processes that interleave at every call on shared state, with the proof rule for assertions that
    every action keeps (locale \<open>handler_system\<close>).
  \<^item> Client_Access: \<^verbatim>\<open>client_agent_access_request.service.ts\<close>, \<^verbatim>\<open>client_agent_access_decision.service.ts\<close> over the in-memory repositories and
    transactions, as such processes. The locale \<open>access_assertion\<close> is the contract between an assertion and the repositories; it is interpreted for the
    life cycle of requests and for the retry limit. A request is decided once whatever the interleaving, an approval link does exactly what it
    should, retries are bounded; an expired link can overwrite an approval.
  \<^item> Client_Access_Sync: the same handlers one after the other. Access and approved requests agree at every moment.

  \<^bold>\<open>Bounds and fuel.\<close> Only the outer loop of the quickselect has fuel, the length of the array; the theorem on it
  includes that this suffices. Every other loop is structural or has a termination proof. JavaScript numbers are
  \<open>int\<close> where they count or measure milliseconds and bytes (they stay below \<open>2 ^ 53\<close>); floating-point expressions (percentile
  rank, \<^verbatim>\<open>toFixed\<close>, averages) are parameters. Numbers of JSON documents are rational; how one is printed is a parameter, of which only
  that the text is ASCII is assumed.

  \<^bold>\<open>Not modelled.\<close> HTTP routing, swagger, metrics text, configuration parsing, dependency injection, logging and
  the Prisma, mail and Redis adapters are input/output or glue around third-party code; zlib, HMAC, SHA-256 and the printing of
  numbers are parameters of the codec with their documented laws as hypotheses. The validators are schemas of a third-party package. The bridge handlers
  that string the registries together (\<^verbatim>\<open>rpc_bridge_dispatch_command.ts\<close> and its neighbours) are left out: their state
  changes are those of the modelled registries, what they add is the order of socket emits. So is the consumer registry, a map of connected sockets with
  their last activity that no modelled component reads. Of the services, accounts, registration and password
  recovery are flows around hashing, tokens and mail. Push events and the maintenance sweep of expired requests are not part of the access model.
\<close>

end
